(* ===== verification/SD_Prelude.thy ===== *)
theory SD_Prelude
  imports Main "HOL-Library.Multiset"
begin

text \<open>
  Shared vocabulary of the development: the Python exceptions the modelled code raises, Python
  slices and subscripts (with their negative indices), the device memory that the Triton kernels
  write (a partial map from element offsets to values) with masked vector loads and stores, and
  the lemmas on them that the component theories use.
\<close>

section \<open>Exceptions and results\<close>

datatype py_error =
    IndexError | KeyError | ValueError | AssertionError | RuntimeError
  | NotImplementedError | AttributeError | TypeError | ZeroDivisionError | OverflowError
  | OutOfFuel

text \<open>
  \<open>OutOfFuel\<close> is no Python exception: it is the result of a modelled loop that has not ended within
  its fuel. The theorems on such loops show that the fuel they name is enough.
\<close>

type_synonym 'a py = "py_error + 'a"

definition py_assert :: "bool \<Rightarrow> 'a py \<Rightarrow> 'a py" where
  "py_assert b k = (if b then k else Inl AssertionError)"

definition py_bind :: "'a py \<Rightarrow> ('a \<Rightarrow> 'b py) \<Rightarrow> 'b py" where
  "py_bind m k = (case m of Inl e \<Rightarrow> Inl e | Inr x \<Rightarrow> k x)"

section \<open>Python subscripts and slices\<close>

text \<open>A slice bound: negative bounds count from the end, then both ends are clamped.\<close>

definition py_bound :: "nat \<Rightarrow> int \<Rightarrow> nat" where
  "py_bound n i = (if i < 0 then nat (int n + i) else min n (nat i))"

definition py_slice :: "'a list \<Rightarrow> int \<Rightarrow> int \<Rightarrow> 'a list" where
  "py_slice xs a b = drop (py_bound (length xs) a) (take (py_bound (length xs) b) xs)"

definition py_upto :: "'a list \<Rightarrow> int \<Rightarrow> 'a list" where
  "py_upto xs b = take (py_bound (length xs) b) xs"

definition py_from :: "'a list \<Rightarrow> int \<Rightarrow> 'a list" where
  "py_from xs a = drop (py_bound (length xs) a) xs"

definition py_index :: "'a list \<Rightarrow> int \<Rightarrow> 'a py" where
  "py_index xs i =
     (if - int (length xs) \<le> i \<and> i < int (length xs)
      then Inr (xs ! nat (i mod int (length xs)))
      else Inl IndexError)"

definition py_set :: "'a list \<Rightarrow> int \<Rightarrow> 'a \<Rightarrow> 'a list py" where
  "py_set xs i v =
     (if - int (length xs) \<le> i \<and> i < int (length xs)
      then Inr (xs[nat (i mod int (length xs)) := v])
      else Inl IndexError)"

text \<open>A \<open>for\<close> loop over a list whose body may raise.\<close>

fun py_for :: "('x \<Rightarrow> 's \<Rightarrow> 's py) \<Rightarrow> 'x list \<Rightarrow> 's \<Rightarrow> 's py" where
  "py_for body [] s = Inr s"
| "py_for body (x # xs) s = py_bind (body x s) (py_for body xs)"

definition cumsum :: "int list \<Rightarrow> int list" where
  "cumsum xs = map (\<lambda>i. sum_list (take (Suc i) xs)) [0..<length xs]"

section \<open>Device memory and masked vector operations\<close>

text \<open>
  A kernel's output buffer: element offset to value. \<open>None\<close> is an element that no store has
  written (\<open>torch.empty\<close>) or that holds the result of a load outside its tensor.
\<close>

type_synonym mem = "int \<Rightarrow> int option"

definition tl_store :: "mem \<Rightarrow> (int \<times> int option \<times> bool) list \<Rightarrow> mem" where
  "tl_store m ls = foldl (\<lambda>m (a, v, b). if b then m(a := v) else m) m ls"

definition tl_load :: "int list \<Rightarrow> int \<Rightarrow> int option" where
  "tl_load xs i = (if 0 \<le> i \<and> i < int (length xs) then Some (xs ! nat i) else None)"

text \<open>
  A loop of \<open>nb\<close> vector stores of \<open>B\<close> lanes each: lane \<open>j\<close> of block \<open>b\<close> stores \<open>f (b * B + j)\<close> at
  \<open>base + b * B + j\<close> when \<open>P (b * B + j)\<close> holds.
\<close>

definition tl_store_blocks ::
  "mem \<Rightarrow> int \<Rightarrow> nat \<Rightarrow> nat \<Rightarrow> (nat \<Rightarrow> int option) \<Rightarrow> (nat \<Rightarrow> bool) \<Rightarrow> mem" where
  "tl_store_blocks m base B nb f P =
     foldl (\<lambda>m b. tl_store m
       (map (\<lambda>j. (base + int (b * B) + int j, f (b * B + j), P (b * B + j))) [0..<B]))
     m [0..<nb]"

text \<open>
  The vector a kernel instance loads with \<open>mask = load_offset <= pid\<close>: the lanes above \<open>pid\<close>
  are masked out and hold the value \<open>u\<close> that the device gives a masked-out lane.
\<close>

definition lanes_upto :: "int list \<Rightarrow> nat \<Rightarrow> nat \<Rightarrow> int \<Rightarrow> int list" where
  "lanes_upto xs n pid u = map (\<lambda>j. if j \<le> pid then xs ! j else u) [0..<n]"

section \<open>Lemma collections\<close>

named_theorems slice_simps "evaluation of Python slices with bounds in range"
named_theorems mem_simps "reading device memory after a masked store"

lemma py_bind_simps [simp]:
  "py_bind (Inr x) k = k x"
  "py_bind (Inl e) k = Inl e"
  by (simp_all add: py_bind_def)

lemma py_bind_eq_Inr: "py_bind m k = Inr y \<longleftrightarrow> (\<exists>x. m = Inr x \<and> k x = Inr y)"
  by (cases m) auto

lemma py_index_nat [simp]: "i < length xs \<Longrightarrow> py_index xs (int i) = Inr (xs ! i)"
  by (simp add: py_index_def)

lemma py_index_int: "0 \<le> i \<Longrightarrow> i < int (length xs) \<Longrightarrow> py_index xs i = Inr (xs ! nat i)"
  by (simp add: py_index_def)

lemma py_set_nat [simp]: "i < length xs \<Longrightarrow> py_set xs (int i) v = Inr (xs[i := v])"
  by (simp add: py_set_def)

lemma py_set_int: "0 \<le> i \<Longrightarrow> i < int (length xs) \<Longrightarrow> py_set xs i v = Inr (xs[nat i := v])"
  by (simp add: py_set_def)

lemma py_index_beyond [simp]: "length xs \<le> i \<Longrightarrow> py_index xs (int i) = Inl IndexError"
  by (simp add: py_index_def)

lemma py_for_append: "py_for body (xs @ ys) s = py_bind (py_for body xs s) (py_for body ys)"
proof (induction xs arbitrary: s)
  case (Cons x xs)
  then show ?case by (cases "body x s") simp_all
qed simp

text \<open>The invariant rule of a \<open>for\<close> loop: \<open>I k\<close> holds after \<open>k\<close> rounds, and no round raises.\<close>

lemma py_for_inv:
  assumes "I 0 s"
    and "\<And>k s. k < length xs \<Longrightarrow> I k s \<Longrightarrow> \<exists>s'. body (xs ! k) s = Inr s' \<and> I (Suc k) s'"
  shows "\<exists>s'. py_for body xs s = Inr s' \<and> I (length xs) s'"
  using assms
proof (induction xs arbitrary: s I)
  case (Cons x xs)
  obtain s1 where s1: "body x s = Inr s1" "I 1 s1" using Cons.prems(1) Cons.prems(2) [of 0 s] by auto
  have "\<exists>s'. py_for body xs s1 = Inr s' \<and> I (Suc (length xs)) s'"
    by (rule Cons.IH [of "\<lambda>k. I (Suc k)"]) (use s1 Cons.prems(2) [of "Suc _"] in auto)
  then show ?case using s1 by simp
qed simp

lemma py_assert_eq_Inr: "py_assert b k = Inr y \<longleftrightarrow> b \<and> k = Inr y"
  by (auto simp: py_assert_def)

lemma py_bound_le [simp]: "py_bound n i \<le> n"
  by (auto simp: py_bound_def)

lemma py_bound_nat [slice_simps]: "0 \<le> i \<Longrightarrow> i \<le> int n \<Longrightarrow> py_bound n i = nat i"
  by (auto simp: py_bound_def)

lemma py_bound_int [simp]: "py_bound n (int i) = min n i"
  by (auto simp: py_bound_def)

lemma py_bound_zero [simp]: "py_bound n 0 = 0"
  by (auto simp: py_bound_def)

lemma py_upto_from [simp]: "py_upto xs i @ py_from xs i = xs"
  by (simp add: py_upto_def py_from_def)

lemma mset_py_split: "mset (py_upto xs i) + mset (py_from xs i) = mset xs"
  by (metis mset_append py_upto_from)

lemma mset_take_drop: "mset (take k xs) + mset (drop k xs) = mset xs"
  by (metis append_take_drop_id mset_append)

lemma length_py_upto: "0 \<le> i \<Longrightarrow> i \<le> int (length xs) \<Longrightarrow> length (py_upto xs i) = nat i"
  by (simp add: py_upto_def slice_simps)

lemma py_upto_nat [slice_simps]: "0 \<le> i \<Longrightarrow> py_upto xs i = take (nat i) xs"
  by (auto simp: py_upto_def py_bound_def min_def)

lemma py_from_nat [slice_simps]: "0 \<le> i \<Longrightarrow> py_from xs i = drop (nat i) xs"
  by (auto simp: py_from_def py_bound_def min_def)

lemma py_slice_nat [slice_simps]:
  "0 \<le> a \<Longrightarrow> 0 \<le> b \<Longrightarrow> py_slice xs a b = drop (nat a) (take (nat b) xs)"
  by (auto simp: py_slice_def py_bound_def min_def)

lemma tl_store_Nil [simp]: "tl_store m [] = m"
  by (simp add: tl_store_def)

lemma tl_store_snoc [simp]:
  "tl_store m (ls @ [(a, v, b)]) = (if b then (tl_store m ls)(a := v) else tl_store m ls)"
  by (simp add: tl_store_def)

text \<open>A vector store to consecutive elements: the masked-in lanes are written, nothing else is.\<close>

lemma tl_store_vector [mem_simps]:
  "tl_store m (map (\<lambda>j. (base + int j, f j, P j)) [0..<n]) a =
     (if base \<le> a \<and> a < base + int n \<and> P (nat (a - base)) then f (nat (a - base)) else m a)"
proof (induction n)
  case (Suc n)
  have "a < base + int (Suc n) \<longleftrightarrow> a < base + int n \<or> a = base + int n"
    by auto
  then show ?case using Suc by auto
qed auto

lemma tl_store_blocks_apply [mem_simps]:
  "tl_store_blocks m base B nb f P a =
     (if base \<le> a \<and> a < base + int (nb * B) \<and> P (nat (a - base)) then f (nat (a - base)) else m a)"
proof (induction nb)
  case (Suc nb)
  let ?k = "nat (a - base)" and ?k' = "nat (a - (base + int (nb * B)))"
  have in_block: "nb * B + ?k' = ?k" if "base + int (nb * B) \<le> a"
    using that nat_add_distrib [of "int (nb * B)" "a - (base + int (nb * B))"]
    by (simp add: nat_mult_distrib)
  have "tl_store_blocks m base B (Suc nb) f P a =
      (if base + int (nb * B) \<le> a \<and> a < base + int (nb * B) + int B \<and> P (nb * B + ?k')
       then f (nb * B + ?k') else tl_store_blocks m base B nb f P a)"
    unfolding tl_store_blocks_def
    using tl_store_vector [where base = "base + int (nb * B)" and f = "\<lambda>j. f (nb * B + j)"
        and P = "\<lambda>j. P (nb * B + j)" and n = B] by simp
  also have "\<dots> = (if base \<le> a \<and> a < base + int (Suc nb * B) \<and> P ?k then f ?k else m a)"
  proof (cases "base + int (nb * B) \<le> a")
    case True
    then have "base \<le> a" using of_nat_0_le_iff [of "nb * B", where 'a = int] by linarith
    with True show ?thesis using Suc in_block by (simp add: add.assoc add.commute)
  next
    case False
    then have "a < base + int (Suc nb * B)" by (simp add: algebra_simps)
    with False show ?thesis using Suc by simp
  qed
  finally show ?case .
qed (auto simp: tl_store_blocks_def)

lemma length_lanes_upto [simp]: "length (lanes_upto xs n pid u) = n"
  by (simp add: lanes_upto_def)

lemma sum_list_lanes:
  assumes "pid < n" and "pid < length xs" and "\<And>j. pid < j \<Longrightarrow> f j = (0::int)"
  shows "sum_list (map f [0..<n]) = sum_list (map f [0..<Suc pid])"
proof -
  have "[0..<n] = [0..<Suc pid] @ [Suc pid..<n]"
    using assms(1) upt_add_eq_append [of 0 "Suc pid" "n - Suc pid"] by simp
  moreover have "sum_list (map f [Suc pid..<n]) = 0"
    using assms(3) by (simp add: sum_list_sum_nth)
  ultimately show ?thesis by simp
qed

lemma sum_list_take_map:
  "i \<le> length xs \<Longrightarrow> sum_list (map (\<lambda>j. f (xs ! j)) [0..<i]) = sum_list (map f (take i xs))"
proof (induction i)
  case (Suc i)
  then show ?case by (simp add: take_Suc_conv_app_nth)
qed simp

lemma length_concat_blocks: "(\<And>xs. xs \<in> set xss \<Longrightarrow> length xs = n) \<Longrightarrow>
   length (concat xss) = length xss * n"
  by (induction xss) auto

lemma nth_concat_blocks:
  "(\<And>xs. xs \<in> set xss \<Longrightarrow> length xs = n) \<Longrightarrow> k < length xss * n \<Longrightarrow>
   concat xss ! k = xss ! (k div n) ! (k mod n)"
proof (induction xss arbitrary: k)
  case (Cons xs xss)
  then have n: "length xs = n" "0 < n" by (auto intro: Nat.gr0I)
  show ?case
  proof (cases "k < n")
    case True
    then show ?thesis using n by (simp add: nth_append)
  next
    case False
    then have "concat xss ! (k - n) = xss ! ((k - n) div n) ! ((k - n) mod n)"
      using Cons n by auto
    moreover have "k div n = Suc ((k - n) div n)" "k mod n = (k - n) mod n"
      using False n(2) by (simp_all add: le_div_geq le_mod_geq)
    ultimately show ?thesis using n False by (simp add: nth_append)
  qed
qed simp

lemma cumsum_nth: "i < length xs \<Longrightarrow> cumsum xs ! i = sum_list (take (Suc i) xs)"
  by (simp add: cumsum_def)

lemma find_SomeD: "find P xs = Some c \<Longrightarrow> c \<in> set xs \<and> P c"
  by (induction xs) (auto split: if_splits)

end
