(* ===== verification/Kv_Allocator.thy ===== *)
theory Kv_Allocator
  imports SD_Prelude
begin

text \<open>
  The KV-cache slot allocators of \<open>srt/mem_cache/allocator.py\<close>: the token allocator (page size 1),
  the paged allocator with its \<open>alloc_extend\<close> and \<open>alloc_decode\<close> Triton kernels and the naive
  reference of \<open>alloc_extend\<close>. Tensors of indices are lists of integers; the kernels write a device
  buffer (\<open>mem\<close>), one program instance per request. The contract of an allocator is the locale
  \<open>slot_allocator\<close>, interpreted on both allocators; \<open>Paged_Extend\<close> has the theorems on the kernels.
\<close>

section \<open>State\<close>

record kv_alloc =
  pool_size :: int
  page_size :: int
  need_sort :: bool
  free_pages :: "int list"
  release_pages :: "int list"
  is_not_in_free_group :: bool
  free_group :: "int list list"

record paged_alloc = kv_alloc +
  num_pages :: int
  debug_mode :: bool

section \<open>The operations of the base class\<close>

definition base_available_size :: "'a kv_alloc_scheme \<Rightarrow> int" where
  "base_available_size a =
     (int (length (free_pages a)) + int (length (release_pages a))) * page_size a"

definition backup_state :: "'a kv_alloc_scheme \<Rightarrow> int list \<times> int list" where
  "backup_state a = (free_pages a, release_pages a)"

definition restore_state :: "'a kv_alloc_scheme \<Rightarrow> int list \<times> int list \<Rightarrow> 'a kv_alloc_scheme" where
  "restore_state a st = a\<lparr>free_pages := fst st, release_pages := snd st\<rparr>"

definition free_group_begin :: "'a kv_alloc_scheme \<Rightarrow> 'a kv_alloc_scheme" where
  "free_group_begin a = a\<lparr>is_not_in_free_group := False, free_group := []\<rparr>"

text \<open>\<open>free_group_end\<close> calls the \<open>free\<close> of the concrete class, an argument here.\<close>

definition free_group_end ::
  "('a kv_alloc_scheme \<Rightarrow> int list \<Rightarrow> 'a kv_alloc_scheme) \<Rightarrow>
   'a kv_alloc_scheme \<Rightarrow> 'a kv_alloc_scheme" where
  "free_group_end free a =
     (let a' = a\<lparr>is_not_in_free_group := True\<rparr>
      in if free_group a' \<noteq> [] then free a' (concat (free_group a')) else a')"

definition merge_and_sort_free :: "'a kv_alloc_scheme \<Rightarrow> 'a kv_alloc_scheme" where
  "merge_and_sort_free a =
     (if length (release_pages a) > 0
      then a\<lparr>free_pages := sort (free_pages a @ release_pages a), release_pages := []\<rparr>
      else a)"

section \<open>The token allocator\<close>

definition token_clear :: "kv_alloc \<Rightarrow> kv_alloc" where
  "token_clear a =
     a\<lparr>free_pages := [1..pool_size a], is_not_in_free_group := True, free_group := [],
       release_pages := []\<rparr>"

definition token_init :: "int \<Rightarrow> bool \<Rightarrow> kv_alloc" where
  "token_init n srt =
     token_clear \<lparr>pool_size = n, page_size = 1, need_sort = srt, free_pages = [],
       release_pages = [], is_not_in_free_group = True, free_group = []\<rparr>"

definition token_available_size :: "kv_alloc \<Rightarrow> int" where
  "token_available_size a = int (length (free_pages a)) + int (length (release_pages a))"

definition token_alloc :: "kv_alloc \<Rightarrow> int \<Rightarrow> int list option \<times> kv_alloc" where
  "token_alloc a need_size =
     (let a1 = (if need_sort a \<and> need_size > int (length (free_pages a))
                then merge_and_sort_free a else a)
      in if need_size > int (length (free_pages a1)) then (None, a1)
         else (Some (py_upto (free_pages a1) need_size),
               a1\<lparr>free_pages := py_from (free_pages a1) need_size\<rparr>))"

definition token_free :: "kv_alloc \<Rightarrow> int list \<Rightarrow> kv_alloc" where
  "token_free a free_index =
     (if free_index = [] then a
      else if is_not_in_free_group a then
        (if need_sort a then a\<lparr>release_pages := release_pages a @ free_index\<rparr>
         else a\<lparr>free_pages := free_pages a @ free_index\<rparr>)
      else a\<lparr>free_group := free_group a @ [free_index]\<rparr>)"

section \<open>\<open>alloc_extend\<close>: the naive reference\<close>

definition ceil_page :: "int \<Rightarrow> int \<Rightarrow> int" where
  "ceil_page ps x = (x + ps - 1) div ps"

text \<open>
  Assigning a one-dimensional tensor to a slice: the shapes must agree, or the value has one
  element and is broadcast; otherwise PyTorch raises.
\<close>

definition slice_assign :: "mem \<Rightarrow> int \<Rightarrow> int \<Rightarrow> int list \<Rightarrow> mem py" where
  "slice_assign m start stop vals =
     (let w = nat (stop - start)
      in if length vals = w
         then Inr (tl_store m (map (\<lambda>j. (start + int j, Some (vals ! j), True)) [0..<w]))
         else if length vals = 1
         then Inr (tl_store m (map (\<lambda>j. (start + int j, Some (vals ! 0), True)) [0..<w]))
         else Inl RuntimeError)"

definition alloc_extend_naive_row ::
  "int list \<Rightarrow> int list \<Rightarrow> int list \<Rightarrow> int list \<Rightarrow> int \<Rightarrow> nat \<Rightarrow> mem \<Rightarrow> mem py" where
  "alloc_extend_naive_row pre seq last_loc free ps i m =
     (let extend_lens = map2 (-) seq pre;
          end_pos = cumsum extend_lens ! i;
          start_pos = end_pos - extend_lens ! i;
          num_new_pages = map2 (\<lambda>s p. (s + ps - 1) div ps - (p + ps - 1) div ps) seq pre;
          num_full_new_pages = map2 (\<lambda>s p. s div ps - (p + ps - 1) div ps) seq pre;
          need_page = num_new_pages ! i - num_full_new_pages ! i;
          end_new_pages = cumsum num_new_pages ! i;
          start_new_pages = end_new_pages - num_new_pages ! i;
          pos_in_page = map int [0..<nat ps];
          num1 = min (seq ! i) ((pre ! i + ps - 1) div ps * ps) - pre ! i
      in py_bind (if num1 \<noteq> 0
                  then slice_assign m start_pos (start_pos + num1)
                         (map (\<lambda>x. last_loc ! i + 1 + x) (py_upto pos_in_page num1))
                  else Inr m)
         (\<lambda>m1. if pre ! i + num1 = seq ! i then Inr m1 else
          (let num2 = (seq ! i div ps - (pre ! i + ps - 1) div ps) * ps
           in py_bind (if num2 \<noteq> 0
                       then slice_assign m1 (start_pos + num1) (start_pos + num1 + num2)
                              (concat (map (\<lambda>g. map (\<lambda>x. g * ps + x) pos_in_page)
                                 (py_slice free start_new_pages (end_new_pages - need_page))))
                       else Inr m1)
              (\<lambda>m2. if pre ! i + num1 + num2 = seq ! i then Inr m2 else
               (let num3 = seq ! i - seq ! i div ps * ps
                in if num3 \<noteq> 0
                   then py_bind (py_index free (end_new_pages - 1))
                          (\<lambda>g. slice_assign m2 (end_pos - num3) end_pos
                             (map (\<lambda>x. g * ps + x) (py_upto pos_in_page num3)))
                   else Inr m2)))))"

definition alloc_extend_naive ::
  "int list \<Rightarrow> int list \<Rightarrow> int list \<Rightarrow> int list \<Rightarrow> int \<Rightarrow> mem \<Rightarrow> mem py" where
  "alloc_extend_naive pre seq last_loc free ps m =
     foldl (\<lambda>r i. py_bind r (alloc_extend_naive_row pre seq last_loc free ps i)) (Inr m)
       [0..<length pre]"

section \<open>The Triton kernels\<close>

text \<open>
  One program instance, \<open>pid\<close>. Every instance stores to its own segment of \<open>out_indices\<close>. The
  value \<open>u\<close> is what a lane above \<open>pid\<close> reads in both masked loads.
\<close>

definition BLOCK_EXTEND :: int where
  "BLOCK_EXTEND = 4096"

definition alloc_extend_kernel ::
  "int \<Rightarrow> int list \<Rightarrow> int list \<Rightarrow> int list \<Rightarrow> int list \<Rightarrow> nat \<Rightarrow> int \<Rightarrow> nat \<Rightarrow> mem \<Rightarrow> mem" where
  "alloc_extend_kernel u pre seq last_loc free bs_upper ps pid m =
     (let seq_lens = lanes_upto seq bs_upper pid u;
          pre_lens = lanes_upto pre bs_upper pid u;
          extend_lens = map2 (-) seq_lens pre_lens;
          seq_len = seq ! pid;
          pre_len = pre ! pid;
          extend_len = seq_len - pre_len;
          output_start_loc = sum_list extend_lens - extend_len;
          num_new_pages =
            map2 (\<lambda>s p. (s + ps - 1) div ps - (p + ps - 1) div ps) seq_lens pre_lens;
          num_page_start_loc_self = (seq_len + ps - 1) div ps - (pre_len + ps - 1) div ps;
          new_page_start_loc = sum_list num_new_pages - num_page_start_loc_self;
          last_loc_pid = last_loc ! pid;
          num_part1 = min seq_len ((pre_len + ps - 1) div ps * ps) - pre_len;
          m1 = tl_store m (map (\<lambda>j. (output_start_loc + int j, Some (last_loc_pid + 1 + int j),
                 int j < num_part1)) [0..<nat ps])
      in if pre_len + num_part1 = seq_len then m1 else
         (let num_part2 = seq_len div ps * ps - (pre_len + ps - 1) div ps * ps;
              num_blocks = (num_part2 + BLOCK_EXTEND - 1) div BLOCK_EXTEND;
              m2 = tl_store_blocks m1 (output_start_loc + num_part1) (nat BLOCK_EXTEND)
                     (nat num_blocks)
                     (\<lambda>offset. map_option (\<lambda>page_start. page_start * ps + int offset mod ps)
                        (tl_load free (new_page_start_loc + int offset div ps)))
                     (\<lambda>offset. int offset < num_part2)
          in if pre_len + num_part1 + num_part2 = seq_len then m2 else
             (let num_part3 = seq_len - seq_len div ps * ps;
                  start_loc = tl_load free (new_page_start_loc + num_page_start_loc_self - 1)
              in tl_store m2 (map (\<lambda>j. (output_start_loc + num_part1 + num_part2 + int j,
                   map_option (\<lambda>g. g * ps + int j) start_loc, int j < num_part3))
                   [0..<nat ps]))))"

definition alloc_decode_kernel ::
  "int \<Rightarrow> int list \<Rightarrow> int list \<Rightarrow> int list \<Rightarrow> nat \<Rightarrow> int \<Rightarrow> nat \<Rightarrow> mem \<Rightarrow> mem" where
  "alloc_decode_kernel u seq last_loc free bs_upper ps pid m =
     (let seq_lens = lanes_upto seq bs_upper pid u;
          pre_lens = map2 (\<lambda>j s. if j \<le> pid then s - 1 else s) [0..<bs_upper] seq_lens;
          seq_len = seq ! pid;
          pre_len = seq_len - 1;
          num_new_pages =
            map2 (\<lambda>s p. (s + ps - 1) div ps - (p + ps - 1) div ps) seq_lens pre_lens;
          num_page_start_loc_self = (seq_len + ps - 1) div ps - (pre_len + ps - 1) div ps;
          new_page_start_loc = sum_list num_new_pages - num_page_start_loc_self
      in if num_page_start_loc_self = 0
         then m(int pid := Some (last_loc ! pid + 1))
         else m(int pid := map_option (\<lambda>page. page * ps) (tl_load free new_page_start_loc)))"

section \<open>The paged allocator\<close>

definition paged_clear :: "paged_alloc \<Rightarrow> paged_alloc" where
  "paged_clear a =
     a\<lparr>free_pages := [1..num_pages a], is_not_in_free_group := True, free_group := [],
       release_pages := []\<rparr>"

definition paged_init :: "int \<Rightarrow> int \<Rightarrow> bool \<Rightarrow> bool \<Rightarrow> paged_alloc" where
  "paged_init n ps srt dbg =
     paged_clear \<lparr>pool_size = n, page_size = ps, need_sort = srt, free_pages = [],
       release_pages = [], is_not_in_free_group = True, free_group = [],
       num_pages = n div ps, debug_mode = dbg\<rparr>"

definition paged_alloc_slots ::
  "paged_alloc \<Rightarrow> int \<Rightarrow> (int list option \<times> paged_alloc) py" where
  "paged_alloc_slots a need_size =
     py_assert (\<not> debug_mode a \<or> need_size mod page_size a = 0)
     (let n = need_size div page_size a;
          a1 = (if need_sort a \<and> n > int (length (free_pages a)) then merge_and_sort_free a else a)
      in if n > int (length (free_pages a1)) then Inr (None, a1)
         else Inr (Some (concat (map (\<lambda>g. map (\<lambda>j. g * page_size a + int j) [0..<nat (page_size a)])
                            (py_upto (free_pages a1) n))),
                   a1\<lparr>free_pages := py_from (free_pages a1) n\<rparr>))"

text \<open>\<open>get_num_new_pages\<close> of \<open>srt/utils/common.py\<close>.\<close>

definition get_num_new_pages :: "int list \<Rightarrow> int \<Rightarrow> int list option \<Rightarrow> bool \<Rightarrow> int py" where
  "get_num_new_pages seq ps prefix decode =
     (if prefix = None \<or> decode
      then py_assert decode (Inr (sum_list (map (\<lambda>s. if s mod ps = 1 then 1 else 0) seq)))
      else Inr (sum_list (map2 (\<lambda>s p. (s + ps - 1) div ps - (p + ps - 1) div ps)
                             seq (the prefix))))"

fun bit_length :: "nat \<Rightarrow> nat" where
  "bit_length n = (if n = 0 then 0 else Suc (bit_length (n div 2)))"

declare bit_length.simps [simp del]

definition next_power_of_2 :: "nat \<Rightarrow> nat" where
  "next_power_of_2 n = (if n > 0 then 2 ^ bit_length (n - 1) else 1)"

definition launch :: "(nat \<Rightarrow> mem \<Rightarrow> mem) \<Rightarrow> nat list \<Rightarrow> mem \<Rightarrow> mem" where
  "launch krn pids m = foldl (\<lambda>m pid. krn pid m) m pids"

definition read_out :: "mem \<Rightarrow> nat \<Rightarrow> int option list" where
  "read_out m n = map (\<lambda>i. m (int i)) [0..<n]"

definition alloc_extend ::
  "int \<Rightarrow> paged_alloc \<Rightarrow> int list \<Rightarrow> int list \<Rightarrow> int list \<Rightarrow> int list \<Rightarrow> int list \<Rightarrow> int \<Rightarrow>
   int option \<Rightarrow> (int option list option \<times> paged_alloc) py" where
  "alloc_extend u a prefix_lens prefix_lens_cpu seq_lens seq_lens_cpu last_loc
       extend_num_tokens num_new_pages =
     py_assert (\<not> debug_mode a \<or>
        list_all2 (\<lambda>l p. (l + 1) mod page_size a = p mod page_size a) last_loc prefix_lens)
     (let bs = length prefix_lens;
          a1 = (if need_sort a \<and>
                   extend_num_tokens div page_size a + int bs + 1 > int (length (free_pages a))
                then merge_and_sort_free a else a)
      in if extend_num_tokens < 0 then Inl RuntimeError else
      (let out_indices = read_out
             (launch (alloc_extend_kernel u prefix_lens seq_lens last_loc (free_pages a1)
                        (next_power_of_2 bs) (page_size a)) [0..<bs] Map.empty)
             (nat extend_num_tokens)
       in py_assert (\<not> debug_mode a \<or> distinct out_indices)
          (py_bind (case num_new_pages of None \<Rightarrow>
                      get_num_new_pages seq_lens_cpu (page_size a) (Some prefix_lens_cpu) False
                    | Some n \<Rightarrow> Inr n)
           (\<lambda>n. if n > int (length (free_pages a1)) then Inr (None, a1)
                else Inr (Some out_indices,
                          a1\<lparr>free_pages := py_from (free_pages a1) n\<rparr>)))))"

definition alloc_decode ::
  "int \<Rightarrow> paged_alloc \<Rightarrow> int list \<Rightarrow> int list \<Rightarrow> int list \<Rightarrow>
   (int option list option \<times> paged_alloc) py" where
  "alloc_decode u a seq_lens seq_lens_cpu last_loc =
     py_assert (\<not> debug_mode a \<or>
        list_all2 (\<lambda>l s. (l + 2) mod page_size a = s mod page_size a) last_loc seq_lens)
     (let bs = length seq_lens;
          a1 = (if need_sort a \<and> bs > length (free_pages a) then merge_and_sort_free a else a);
          out_indices = read_out
             (launch (alloc_decode_kernel u seq_lens last_loc (free_pages a1)
                        (next_power_of_2 bs) (page_size a)) [0..<bs] Map.empty) bs
      in py_assert (\<not> debug_mode a \<or> distinct out_indices)
         (py_bind (get_num_new_pages seq_lens_cpu (page_size a) None True)
          (\<lambda>n. if n > int (length (free_pages a1)) then Inr (None, a1)
               else Inr (Some out_indices, a1\<lparr>free_pages := py_from (free_pages a1) n\<rparr>))))"

definition paged_free :: "paged_alloc \<Rightarrow> int list \<Rightarrow> paged_alloc py" where
  "paged_free a free_index =
     (if free_index = [] then Inr a
      else let a1 =
        (if is_not_in_free_group a then
           (let free_page_indices = sort (remdups (map (\<lambda>x. x div page_size a) free_index))
            in if need_sort a then a\<lparr>release_pages := free_page_indices @ release_pages a\<rparr>
               else a\<lparr>free_pages := free_page_indices @ free_pages a\<rparr>)
         else a\<lparr>free_group := free_group a @ [free_index]\<rparr>)
      in py_assert (\<not> debug_mode a \<or> distinct (free_pages a1)) (Inr a1))"


section \<open>The contract of a slot allocator\<close>

text \<open>
  A client of an allocator holds a multiset of slots. It asks for slots, and it returns slots it
  holds in portions the allocator accepts. The relation is over the allocator's operations, so that
  it serves both allocators.
\<close>

inductive alloc_run ::
  "('s \<Rightarrow> int \<Rightarrow> int list option \<times> 's) \<Rightarrow> ('s \<Rightarrow> int list \<Rightarrow> 's) \<Rightarrow> ('s \<Rightarrow> int \<Rightarrow> bool) \<Rightarrow>
   ('s \<Rightarrow> int list \<Rightarrow> bool) \<Rightarrow> 's \<Rightarrow> 's \<Rightarrow> int multiset \<Rightarrow> bool"
  for alloc free req ret s0
where
  start: "alloc_run alloc free req ret s0 s0 {#}"
| alloc: "alloc_run alloc free req ret s0 s H \<Longrightarrow> req s n \<Longrightarrow> alloc s n = (Some xs, s') \<Longrightarrow>
     alloc_run alloc free req ret s0 s' (H + mset xs)"
| fail: "alloc_run alloc free req ret s0 s H \<Longrightarrow> req s n \<Longrightarrow> alloc s n = (None, s') \<Longrightarrow>
     alloc_run alloc free req ret s0 s' H"
| free: "alloc_run alloc free req ret s0 s H \<Longrightarrow> mset xs \<subseteq># H \<Longrightarrow> ret s xs \<Longrightarrow>
     alloc_run alloc free req ret s0 (free s xs) (H - mset xs)"

locale slot_allocator =
  fixes alloc :: "'s \<Rightarrow> int \<Rightarrow> int list option \<times> 's"
    and free :: "'s \<Rightarrow> int list \<Rightarrow> 's"
    and req :: "'s \<Rightarrow> int \<Rightarrow> bool"
    and ret :: "'s \<Rightarrow> int list \<Rightarrow> bool"
    and inv :: "'s \<Rightarrow> bool"
    and free_slots :: "'s \<Rightarrow> int multiset"
  assumes alloc_Some: "inv s \<Longrightarrow> req s n \<Longrightarrow> alloc s n = (Some xs, s') \<Longrightarrow>
      inv s' \<and> free_slots s = free_slots s' + mset xs \<and> int (length xs) = n"
    and alloc_None: "inv s \<Longrightarrow> req s n \<Longrightarrow> alloc s n = (None, s') \<Longrightarrow>
      inv s' \<and> free_slots s' = free_slots s \<and> int (size (free_slots s)) < n"
    and free_spec: "inv s \<Longrightarrow> ret s xs \<Longrightarrow>
      inv (free s xs) \<and> free_slots (free s xs) = free_slots s + mset xs"
begin

lemma run_conserves:
  "alloc_run alloc free req ret s0 s H \<Longrightarrow> inv s0 \<Longrightarrow> inv s \<and> free_slots s + H = free_slots s0"
proof (induction rule: alloc_run.induct)
  case (alloc s H n xs s')
  then show ?case using alloc_Some [of s n xs s'] by (auto simp: ac_simps)
next
  case (fail s H n s')
  then show ?case using alloc_None [of s n s'] by auto
next
  case (free s H xs)
  then have "free_slots (free s xs) = free_slots s + mset xs" "inv (free s xs)"
    using free_spec [of s xs] by auto
  moreover have "mset xs + (H - mset xs) = H" using free.hyps(2) by (simp add: subset_mset.add_diff_inverse)
  ultimately show ?case using free.IH free.prems by (simp add: add.assoc)
qed simp

lemma run_no_double_allocation:
  assumes "alloc_run alloc free req ret s0 s H" "inv s0" "free_slots s0 = mset U" "distinct U"
  shows "\<forall>x. count H x \<le> 1" "set_mset H \<subseteq> set U" "set_mset H \<inter> set_mset (free_slots s) = {}"
proof -
  have eq: "free_slots s + H = mset U" using run_conserves [OF assms(1,2)] assms(3) by simp
  have le: "count (free_slots s) x + count H x \<le> 1" for x
    using distinct_count_atmost_1 [THEN iffD1, OF assms(4)]
    by (metis count_union eq le_numeral_extra(4) zero_le_one)
  show "\<forall>x. count H x \<le> 1" using le by (meson add_leD2)
  show "set_mset H \<subseteq> set U" by (metis eq mset_subset_eq_add_right set_mset_mono set_mset_mset)
  show "set_mset H \<inter> set_mset (free_slots s) = {}"
  proof (rule ccontr)
    assume "set_mset H \<inter> set_mset (free_slots s) \<noteq> {}"
    then obtain x where "x \<in># H" "x \<in># free_slots s" by auto
    then have "0 < count H x" "0 < count (free_slots s) x" by simp_all
    then show False using le [of x] by linarith
  qed
qed

lemma run_alloc_fails_only_when_short:
  assumes "alloc_run alloc free req ret s0 s H" "inv s0" "req s n"
  shows "fst (alloc s n) = None \<Longrightarrow> int (size (free_slots s0)) - int (size H) < n"
proof -
  assume none: "fst (alloc s n) = None"
  have i: "inv s" and eq: "free_slots s + H = free_slots s0" using run_conserves [OF assms(1,2)] by auto
  have "int (size (free_slots s)) < n" using alloc_None [OF i assms(3)] none by (metis prod.collapse)
  moreover have "size (free_slots s) + size H = size (free_slots s0)" by (metis eq size_union)
  ultimately show ?thesis by linarith
qed

end

section \<open>The token allocator meets the contract\<close>

definition token_inv :: "kv_alloc \<Rightarrow> bool" where
  "token_inv a \<longleftrightarrow> is_not_in_free_group a \<and> (\<not> need_sort a \<longrightarrow> release_pages a = [])"

definition token_slots :: "kv_alloc \<Rightarrow> int multiset" where
  "token_slots a = mset (free_pages a) + mset (release_pages a)"

lemma merge_and_sort_free_mset [simp]:
  "mset (free_pages (merge_and_sort_free a)) = mset (free_pages a) + mset (release_pages a)"
  by (auto simp: merge_and_sort_free_def)

lemma merge_and_sort_free_fields [simp]:
  "page_size (merge_and_sort_free a) = page_size a"
  "need_sort (merge_and_sort_free a) = need_sort a"
  "is_not_in_free_group (merge_and_sort_free a) = is_not_in_free_group a"
  "free_group (merge_and_sort_free a) = free_group a"
  "pool_size (merge_and_sort_free a) = pool_size a"
  "release_pages (merge_and_sort_free a) = []"
  by (simp_all add: merge_and_sort_free_def)

interpretation token: slot_allocator token_alloc token_free "\<lambda>_ n. 0 \<le> n" "\<lambda>_ _. True"
  token_inv token_slots
proof
  fix s :: kv_alloc and n :: int and xs :: "int list" and s' :: kv_alloc
  let ?s1 = "if need_sort s \<and> n > int (length (free_pages s)) then merge_and_sort_free s else s"
  have s1: "token_slots ?s1 = token_slots s" "token_inv s \<Longrightarrow> token_inv ?s1"
    by (auto simp: token_slots_def token_inv_def)
  show "token_inv s' \<and> token_slots s = token_slots s' + mset xs \<and> int (length xs) = n"
    if "token_inv s" "0 \<le> n" "token_alloc s n = (Some xs, s')"
  proof -
    have xs: "xs = take (nat n) (free_pages ?s1)" "n \<le> int (length (free_pages ?s1))"
      "s' = ?s1\<lparr>free_pages := drop (nat n) (free_pages ?s1)\<rparr>"
      using that by (auto simp: token_alloc_def Let_def slice_simps split: if_splits)
    have "token_slots s = mset (take (nat n) (free_pages ?s1)) +
        mset (drop (nat n) (free_pages ?s1)) + mset (release_pages ?s1)"
      using s1(1) by (simp add: token_slots_def mset_take_drop)
    then show ?thesis using s1(2) that(1,2) xs by (auto simp: token_slots_def token_inv_def)
  qed
  show "token_inv s' \<and> token_slots s' = token_slots s \<and> int (size (token_slots s)) < n"
    if "token_inv s" "0 \<le> n" "token_alloc s n = (None, s')"
  proof -
    have s': "s' = ?s1" "n > int (length (free_pages ?s1))"
      using that by (auto simp: token_alloc_def Let_def split: if_splits)
    have "release_pages ?s1 = []" using that(1) s'(2) by (auto simp: token_inv_def split: if_splits)
    then have "size (token_slots ?s1) = length (free_pages ?s1)" by (simp add: token_slots_def)
    then show ?thesis using s1 s' that(1) by simp
  qed
qed (auto simp: token_inv_def token_slots_def token_free_def)

section \<open>The paged allocator meets the contract\<close>

text \<open>
  The paged allocator takes back whole pages: a portion that frees every slot of its pages once.
\<close>

definition page_slots :: "int \<Rightarrow> int list \<Rightarrow> int list" where
  "page_slots ps pages = concat (map (\<lambda>g. map (\<lambda>j. g * ps + int j) [0..<nat ps]) pages)"

definition whole_pages :: "paged_alloc \<Rightarrow> int list \<Rightarrow> bool" where
  "whole_pages a xs \<longleftrightarrow>
     mset xs = mset (page_slots (page_size a) (remdups (map (\<lambda>x. x div page_size a) xs)))"

definition paged_inv :: "paged_alloc \<Rightarrow> bool" where
  "paged_inv a \<longleftrightarrow> 0 < page_size a \<and> is_not_in_free_group a \<and> \<not> debug_mode a \<and>
     (\<not> need_sort a \<longrightarrow> release_pages a = [])"

definition paged_slots :: "paged_alloc \<Rightarrow> int multiset" where
  "paged_slots a = mset (page_slots (page_size a) (free_pages a @ release_pages a))"

definition paged_alloc_total :: "paged_alloc \<Rightarrow> int \<Rightarrow> int list option \<times> paged_alloc" where
  "paged_alloc_total a n = (case paged_alloc_slots a n of Inr r \<Rightarrow> r | Inl _ \<Rightarrow> (None, a))"

definition paged_free_total :: "paged_alloc \<Rightarrow> int list \<Rightarrow> paged_alloc" where
  "paged_free_total a xs = (case paged_free a xs of Inr a' \<Rightarrow> a' | Inl _ \<Rightarrow> a)"

lemma page_slots_append [simp]: "page_slots ps (xs @ ys) = page_slots ps xs @ page_slots ps ys"
  by (simp add: page_slots_def)

lemma page_slots_Nil [simp]: "page_slots ps [] = []"
  by (simp add: page_slots_def)

lemma length_page_slots: "length (page_slots ps pages) = length pages * nat ps"
  by (induction pages) (simp_all add: page_slots_def)

lemma mset_page_slots:
  "mset (page_slots ps pages) =
   (\<Sum>g\<in>#mset pages. mset (map (\<lambda>j. g * ps + int j) [0..<nat ps]))"
  by (induction pages) (simp_all add: page_slots_def)

lemma page_slots_mset_cong:
  "mset pages = mset pages' \<Longrightarrow> mset (page_slots ps pages) = mset (page_slots ps pages')"
  by (simp only: mset_page_slots)

lemma merge_paged_fields [simp]: "debug_mode (merge_and_sort_free a) = debug_mode a"
  by (simp add: merge_and_sort_free_def)

lemma paged_slots_cong:
  "mset (free_pages a) + mset (release_pages a) = mset (free_pages b) + mset (release_pages b) \<Longrightarrow>
   page_size a = page_size b \<Longrightarrow> paged_slots a = paged_slots b"
  using page_slots_mset_cong [of "free_pages a @ release_pages a" "free_pages b @ release_pages b" "page_size b"]
  by (simp add: paged_slots_def)

lemma paged_alloc_not_debug:
  "\<not> debug_mode a \<Longrightarrow> paged_alloc_total a n =
     (let k = n div page_size a;
          a1 = (if need_sort a \<and> k > int (length (free_pages a)) then merge_and_sort_free a else a)
      in if k > int (length (free_pages a1)) then (None, a1)
         else (Some (page_slots (page_size a) (py_upto (free_pages a1) k)),
               a1\<lparr>free_pages := py_from (free_pages a1) k\<rparr>))"
  by (simp add: paged_alloc_total_def paged_alloc_slots_def py_assert_def Let_def page_slots_def)

interpretation paged: slot_allocator paged_alloc_total paged_free_total
  "\<lambda>a n. 0 \<le> n \<and> n mod page_size a = 0" whole_pages paged_inv paged_slots
proof
  fix s :: paged_alloc and n :: int and xs :: "int list" and s' :: paged_alloc
  let ?k = "n div page_size s"
  let ?s1 = "if need_sort s \<and> ?k > int (length (free_pages s)) then merge_and_sort_free s else s"
  have s1: "paged_slots ?s1 = paged_slots s" "paged_inv s \<Longrightarrow> paged_inv ?s1" "page_size ?s1 = page_size s"
    by (auto simp: paged_inv_def intro!: paged_slots_cong)
  show "paged_inv s' \<and> paged_slots s = paged_slots s' + mset xs \<and> int (length xs) = n"
    if "paged_inv s" "0 \<le> n \<and> n mod page_size s = 0" "paged_alloc_total s n = (Some xs, s')"
  proof -
    have ps: "0 < page_size s" "\<not> debug_mode s" using that(1) by (auto simp: paged_inv_def)
    have k: "0 \<le> ?k" "?k * page_size s = n"
      using that(2) ps div_mult_mod_eq [of n "page_size s"] by (auto simp: pos_imp_zdiv_nonneg_iff)
    have xs: "xs = page_slots (page_size s) (take (nat ?k) (free_pages ?s1))"
      "?k \<le> int (length (free_pages ?s1))" "s' = ?s1\<lparr>free_pages := drop (nat ?k) (free_pages ?s1)\<rparr>"
      using that(3) k(1) unfolding paged_alloc_not_debug [OF ps(2)] Let_def
      by (auto simp: slice_simps split: if_splits)
    have "paged_slots s = mset (page_slots (page_size s) (free_pages ?s1 @ release_pages ?s1))"
      using s1(1,3) unfolding paged_slots_def by metis
    also have "\<dots> = mset (page_slots (page_size s)
        ((take (nat ?k) (free_pages ?s1) @ drop (nat ?k) (free_pages ?s1)) @ release_pages ?s1))"
      unfolding append_take_drop_id ..
    finally have "paged_slots s = mset (page_slots (page_size s) (take (nat ?k) (free_pages ?s1))) +
        (mset (page_slots (page_size s) (drop (nat ?k) (free_pages ?s1))) +
         mset (page_slots (page_size s) (release_pages ?s1)))"
      unfolding page_slots_append by (simp add: add.assoc)
    moreover have "int (length xs) = n" using xs(1,2) k ps by (simp add: length_page_slots)
    ultimately show ?thesis using s1(2,3) that(1) xs(1,3) by (auto simp: paged_slots_def paged_inv_def)
  qed
  show "paged_inv s' \<and> paged_slots s' = paged_slots s \<and> int (size (paged_slots s)) < n"
    if "paged_inv s" "0 \<le> n \<and> n mod page_size s = 0" "paged_alloc_total s n = (None, s')"
  proof -
    have ps: "0 < page_size s" "\<not> debug_mode s" using that(1) by (auto simp: paged_inv_def)
    have k: "?k * page_size s = n" using that(2) div_mult_mod_eq [of n "page_size s"] by simp
    have s': "s' = ?s1" "?k > int (length (free_pages ?s1))"
      using that(3) unfolding paged_alloc_not_debug [OF ps(2)] Let_def by (auto split: if_splits)
    have "release_pages ?s1 = []" using that(1) s'(2) by (auto simp: paged_inv_def split: if_splits)
    then have "int (size (paged_slots ?s1)) = int (length (free_pages ?s1)) * page_size s"
      using ps s1(3) by (simp add: paged_slots_def length_page_slots)
    also have "\<dots> < n" using s'(2) k ps mult_strict_right_mono [OF s'(2) ps(1)] by simp
    finally show ?thesis using s1 s' that(1) by simp
  qed
next
  fix s xs assume inv: "paged_inv s" and ret: "whole_pages s xs"
  have "paged_free_total s xs = (if xs = [] then s
      else if need_sort s then s\<lparr>release_pages := sort (remdups (map (\<lambda>x. x div page_size s) xs)) @ release_pages s\<rparr>
      else s\<lparr>free_pages := sort (remdups (map (\<lambda>x. x div page_size s) xs)) @ free_pages s\<rparr>)"
    using inv by (simp add: paged_free_total_def paged_free_def py_assert_def paged_inv_def Let_def)
  moreover have "mset (page_slots (page_size s) (sort (remdups (map (\<lambda>x. x div page_size s) xs)))) = mset xs"
    using ret page_slots_mset_cong [of "sort (remdups (map (\<lambda>x. x div page_size s) xs))"
        "remdups (map (\<lambda>x. x div page_size s) xs)" "page_size s"]
    by (simp add: whole_pages_def)
  ultimately show "paged_inv (paged_free_total s xs) \<and>
      paged_slots (paged_free_total s xs) = paged_slots s + mset xs"
    using inv by (auto simp: paged_inv_def paged_slots_def ac_simps)
qed



lemma mem_page_slots:
  assumes "0 < ps"
  shows "x \<in> set (page_slots ps pages) \<longleftrightarrow> x div ps \<in> set pages"
proof
  assume x: "x div ps \<in> set pages"
  have "x = x div ps * ps + int (nat (x mod ps))" "nat (x mod ps) < nat ps"
    using assms by simp_all
  then have "x \<in> (\<lambda>j. x div ps * ps + int j) ` {0..<nat ps}"
    by (metis atLeastLessThan_iff image_eqI le0)
  with x show "x \<in> set (page_slots ps pages)" by (auto simp: page_slots_def)
qed (use assms in \<open>auto simp: page_slots_def\<close>)

lemma distinct_page_slots:
  assumes "0 < ps" "distinct pages"
  shows "distinct (page_slots ps pages)"
  using assms(2)
proof (induction pages)
  case (Cons g pages)
  let ?here = "map (\<lambda>j. g * ps + int j) [0..<nat ps]"
  have here: "distinct ?here" by (simp add: distinct_map inj_on_def)
  have "set ?here \<inter> set (page_slots ps pages) = {}"
    using Cons.prems assms(1) by (auto simp: mem_page_slots)
  moreover have "page_slots ps (g # pages) = ?here @ page_slots ps pages" by (simp add: page_slots_def)
  ultimately show ?case using Cons here by simp
qed simp

lemma token_init_inv: "token_inv (token_init n srt)" "token_slots (token_init n srt) = mset [1..n]"
  by (simp_all add: token_init_def token_clear_def token_inv_def token_slots_def)

lemma paged_init_inv:
  "0 < ps \<Longrightarrow> paged_inv (paged_init n ps srt False)"
  "paged_slots (paged_init n ps srt False) = mset (page_slots ps [1..n div ps])"
  by (simp_all add: paged_init_def paged_clear_def paged_inv_def paged_slots_def)

lemma free_group_collects:
  "\<not> is_not_in_free_group a \<Longrightarrow>
   foldl token_free a xss = a\<lparr>free_group := free_group a @ filter (\<lambda>xs. xs \<noteq> []) xss\<rparr>"
  by (induction xss arbitrary: a) (simp_all add: token_free_def)

lemma concat_filter_nonempty: "concat (filter (\<lambda>xs. xs \<noteq> []) xss) = concat xss"
  by (induction xss) auto

section \<open>Properties\<close>

text \<open>
  C24. Whatever sequence of allocations and frees a client of a fresh token allocator performs, the
  slots it holds are pairwise distinct, are slots of the pool (never slot 0, which takes dummy
  writes), are not free at the same time, and with the free ones they are exactly the pool.
\<close>

theorem token_no_double_allocation:
  assumes "alloc_run token_alloc token_free (\<lambda>_ n. 0 \<le> n) (\<lambda>_ _. True) (token_init n srt) s H"
  shows "(\<forall>x. count H x \<le> 1) \<and> set_mset H \<subseteq> {1..n} \<and>
    set_mset H \<inter> set (free_pages s @ release_pages s) = {} \<and>
    token_available_size s + int (size H) = int (nat n)"
proof -
  note inv = token_init_inv(1) [of n srt] and slots = token_init_inv(2) [of n srt]
  have "token_slots s + H = mset [1..n]" using token.run_conserves [OF assms inv] slots by simp
  then have "size (token_slots s) + size H = nat n" by (metis length_upto size_mset size_union diff_add_cancel)
  moreover have "distinct [1..n]" by simp
  ultimately show ?thesis
    using token.run_no_double_allocation [OF assms inv slots]
    by (auto simp: token_slots_def token_available_size_def)
qed

theorem token_no_double_allocation_witness:
  "\<exists>s H. H = {#2, 3#} \<and> token_available_size s = 2 \<and>
    (\<forall>x. count H x \<le> 1) \<and> set_mset H \<subseteq> {1..4} \<and>
    set_mset H \<inter> set (free_pages s @ release_pages s) = {} \<and>
    token_available_size s + int (size H) = int (nat 4)"
proof -
  let ?R = "alloc_run token_alloc token_free (\<lambda>_ n. 0 \<le> n) (\<lambda>_ _. True) (token_init 4 False)"
  let ?s1 = "(token_init 4 False)\<lparr>free_pages := [4]\<rparr>"
  have "token_alloc (token_init 4 False) 3 = (Some [1, 2, 3], ?s1)"
    by (simp add: token_alloc_def token_init_def token_clear_def py_upto_def py_from_def py_bound_def upto.simps)
  then have "?R ?s1 ({#} + mset [1, 2, 3])" by (intro alloc_run.alloc [OF alloc_run.start]) auto
  then have "?R (token_free ?s1 [1]) ({#} + mset [1, 2, 3] - mset [1])" by (intro alloc_run.free) auto
  then have r: "?R (token_free ?s1 [1]) {#2, 3#}" by simp
  have "token_available_size (token_free ?s1 [1]) = 2"
    by (simp add: token_available_size_def token_free_def token_init_def token_clear_def)
  then show ?thesis using token_no_double_allocation [OF r] by blast
qed

text \<open>
  C28. The same of the paged allocator, for clients that ask for whole pages and return whole pages
  in one call: held slots are distinct, belong to the pages 1 to \<open>size // page_size\<close>, are not
  free, and an allocation fails only when fewer slots are left than it asks for.
\<close>

theorem paged_no_double_allocation:
  assumes "0 < ps"
    and "alloc_run paged_alloc_total paged_free_total (\<lambda>a n. 0 \<le> n \<and> n mod page_size a = 0)
      whole_pages (paged_init n ps srt False) s H"
  shows "(\<forall>x. count H x \<le> 1) \<and> (\<forall>x \<in># H. 1 \<le> x div ps \<and> x div ps \<le> n div ps) \<and>
    set_mset H \<inter> set_mset (paged_slots s) = {} \<and>
    (0 \<le> k \<and> k mod page_size s = 0 \<and> fst (paged_alloc_total s k) = None \<longrightarrow>
       int (nat (n div ps)) * ps - int (size H) < k)"
proof -
  note inv = paged_init_inv(1) [OF assms(1), of n srt] and slots = paged_init_inv(2) [of n ps srt]
  have d: "distinct (page_slots ps [1..n div ps])" using assms(1) by (simp add: distinct_page_slots)
  note nd = paged.run_no_double_allocation [OF assms(2) inv slots d]
  have "size (paged_slots (paged_init n ps srt False)) = nat (n div ps) * nat ps"
    unfolding slots by (simp add: length_page_slots)
  then have "int (nat (n div ps)) * ps - int (size H) < k"
    if "0 \<le> k" "k mod page_size s = 0" "fst (paged_alloc_total s k) = None"
    using paged.run_alloc_fails_only_when_short [OF assms(2) inv, of k] that assms(1) by simp
  then show ?thesis using nd assms(1) by (auto simp: mem_page_slots)
qed

theorem paged_no_double_allocation_witness:
  "\<exists>s H. H = {#4, 5, 6, 7#} \<and> (\<forall>x. count H x \<le> 1) \<and>
    (\<forall>x \<in># H. 1 \<le> x div 4 \<and> x div 4 \<le> 9 div (4::int)) \<and>
    set_mset H \<inter> set_mset (paged_slots s) = {} \<and>
    (0 \<le> (8::int) \<and> 8 mod page_size s = 0 \<and> fst (paged_alloc_total s 8) = None \<longrightarrow>
       int (nat (9 div 4)) * 4 - int (size H) < 8)"
proof -
  let ?s0 = "paged_init 9 4 False False"
  let ?R = "alloc_run paged_alloc_total paged_free_total (\<lambda>a n. 0 \<le> n \<and> n mod page_size a = 0)
      whole_pages ?s0"
  have "paged_alloc_total ?s0 4 = (Some [4, 5, 6, 7], ?s0\<lparr>free_pages := [2]\<rparr>)"
    by (simp add: paged_alloc_total_def paged_alloc_slots_def py_assert_def paged_init_def paged_clear_def
        py_upto_def py_from_def py_bound_def upto.simps eval_nat_numeral upt_rec)
  then have "?R (?s0\<lparr>free_pages := [2]\<rparr>) ({#} + mset [4, 5, 6, 7])"
    by (intro alloc_run.alloc [OF alloc_run.start, where n = 4]) (auto simp: paged_init_def paged_clear_def)
  then have r: "?R (?s0\<lparr>free_pages := [2]\<rparr>) {#4, 5, 6, 7#}" by simp
  have "(0::int) < 4" by simp
  note res = paged_no_double_allocation [OF this r, of 8]
  show ?thesis by (rule exI, rule exI, rule conjI [OF refl res])
qed

text \<open>
  A free group is one free: \<open>free_group_begin\<close>, any number of frees, \<open>free_group_end\<close> give the
  free lists that freeing the concatenation at once gives, and the allocator is out of the group.
\<close>

lemma token_free_group_is_one_free:
  assumes "is_not_in_free_group a"
  shows "let b = free_group_end token_free (foldl token_free (free_group_begin a) xss) in
    free_pages b = free_pages (token_free a (concat xss)) \<and>
    release_pages b = release_pages (token_free a (concat xss)) \<and> is_not_in_free_group b"
proof -
  obtain ys where ys: "ys = filter (\<lambda>xs. xs \<noteq> []) xss" by simp
  have b: "foldl token_free (free_group_begin a) xss = (free_group_begin a)\<lparr>free_group := ys\<rparr>"
    unfolding ys by (subst free_group_collects) (simp_all add: free_group_begin_def)
  have c: "concat xss = concat ys" unfolding ys by (rule concat_filter_nonempty [symmetric])
  have "concat ys \<noteq> []" if "ys \<noteq> []" using that unfolding ys by (auto simp: filter_empty_conv)
  then have "free_group_end token_free ((free_group_begin a)\<lparr>free_group := ys\<rparr>) =
      (token_free a (concat ys))\<lparr>free_group := ys\<rparr>"
    using assms by (cases "ys = []") (auto simp: Let_def free_group_end_def free_group_begin_def token_free_def)
  then show ?thesis unfolding b c using assms by (simp add: token_free_def)
qed

lemma token_free_group_is_one_free_witness:
  "let b = free_group_end token_free (foldl token_free (free_group_begin (token_init 2 True)) [[5], [], [6, 7]]) in
    free_pages b = free_pages (token_free (token_init 2 True) (concat [[5], [], [6, 7]])) \<and>
    release_pages b = release_pages (token_free (token_init 2 True) (concat [[5], [], [6, 7]])) \<and>
    is_not_in_free_group b"
  by (rule token_free_group_is_one_free) (simp add: token_init_def token_clear_def)

text \<open>
  \<open>free_group_end\<close> leaves \<open>free_group\<close> as it is: when it is called again with no
  \<open>free_group_begin\<close> in between, every slot of the group is freed a second time.
\<close>

lemma token_free_group_end_twice:
  "let b = free_group_end token_free a; c = free_group_end token_free b in
   token_slots b = token_slots a + mset (concat (free_group a)) \<and>
   token_slots c = token_slots b + mset (concat (free_group a))"
  by (auto simp: Let_def free_group_end_def token_free_def token_slots_def)

text \<open>
  \<open>restore_state\<close> after \<open>backup_state\<close> undoes an allocation (the way the speculative workers give
  back the slots of a draft), whether it merged and sorted the free lists or failed.
\<close>

lemma restore_undoes_alloc:
  "restore_state (snd (token_alloc a n)) (backup_state a) = a \<and>
   (case paged_alloc_slots b n of
      Inr (r, b') \<Rightarrow> restore_state b' (backup_state b) = b
    | Inl e \<Rightarrow> e = AssertionError \<and> debug_mode b \<and> n mod page_size b \<noteq> 0)"
  by (simp add: token_alloc_def paged_alloc_slots_def Let_def py_assert_def merge_and_sort_free_def
      restore_state_def backup_state_def)


end
