(* ===== verification/Paged_Extend.thy ===== *)
theory Paged_Extend
  imports Kv_Allocator
begin

text \<open>
  The slots that the paged allocator's kernels hand out: what every position of a request gets
  (\<open>slot_of\<close>), that the \<open>alloc_extend\<close> kernel and the naive reference both write it, that the slots are
  distinct, and that the decode kernel is an extension by one token.
\<close>

definition row_start :: "(int \<Rightarrow> int \<Rightarrow> int) \<Rightarrow> int list \<Rightarrow> int list \<Rightarrow> nat \<Rightarrow> int" where
  "row_start f seq pre i = sum_list (take i (map2 f seq pre))"

abbreviation new_pages :: "int \<Rightarrow> int \<Rightarrow> int \<Rightarrow> int" where
  "new_pages ps \<equiv> (\<lambda>s p. ceil_page ps s - ceil_page ps p)"

text \<open>The slot that position \<open>p\<close> of a request must get.\<close>
definition slot_of :: "int \<Rightarrow> int list \<Rightarrow> int \<Rightarrow> int \<Rightarrow> int \<Rightarrow> int \<Rightarrow> int option" where
  "slot_of ps free l pre page0 p =
     (if p < ceil_page ps pre * ps then Some (l + 1 + (p - pre))
      else map_option (\<lambda>g. g * ps + p mod ps) (tl_load free (page0 + (p div ps - ceil_page ps pre))))"

lemma lanes_sum:
  assumes "pid < n" "pid < length xs" "length ys = length xs" "\<And>x. f x x = 0"
  shows "sum_list (map2 f (lanes_upto xs n pid u) (lanes_upto ys n pid u)) =
         row_start f xs ys (Suc pid)"
proof -
  have "map2 f (lanes_upto xs n pid u) (lanes_upto ys n pid u) =
        map (\<lambda>j. if j \<le> pid then f (xs ! j) (ys ! j) else 0) [0..<n]"
    by (auto simp: list_eq_iff_nth_eq lanes_upto_def assms(4))
  also have "sum_list \<dots> = sum_list (map (\<lambda>j. if j \<le> pid then f (xs ! j) (ys ! j) else 0) [0..<Suc pid])"
    by (rule sum_list_lanes [OF assms(1,2)]) auto
  also have "\<dots> = sum_list (map (\<lambda>j. case (zip xs ys ! j) of (x, y) \<Rightarrow> f x y) [0..<Suc pid])"
    using assms(2,3) by (intro arg_cong [where f = sum_list] map_cong) auto
  also have "\<dots> = row_start f xs ys (Suc pid)"
    unfolding row_start_def take_map
    using assms(2,3) by (subst sum_list_take_map [symmetric]) auto
  finally show ?thesis .
qed

lemma row_start_Suc:
  "i < length seq \<Longrightarrow> length pre = length seq \<Longrightarrow>
   row_start f seq pre (Suc i) = row_start f seq pre i + f (seq ! i) (pre ! i)"
  by (simp add: row_start_def take_Suc_conv_app_nth)

lemma ceil_page_bounds:
  assumes "0 < ps"
  shows "x \<le> ceil_page ps x * ps" "ceil_page ps x * ps < x + ps"
proof -
  have e: "(x + ps - 1) div ps * ps + (x + ps - 1) mod ps = x + ps - 1" by simp
  have "0 \<le> (x + ps - 1) mod ps" "(x + ps - 1) mod ps < ps" using assms by auto
  then show "x \<le> ceil_page ps x * ps" "ceil_page ps x * ps < x + ps"
    unfolding ceil_page_def using e by linarith+
qed

lemma ceil_blocks_cover:
  assumes "0 < b"
  shows "n \<le> int (nat ((n + int b - 1) div int b) * b)"
proof -
  have "n \<le> (n + int b - 1) div int b * int b"
    using assms ceil_page_bounds(1) [of "int b" n] by (simp add: ceil_page_def)
  moreover have "(n + int b - 1) div int b * int b \<le> int (nat ((n + int b - 1) div int b) * b)"
    by (simp add: mult_right_mono)
  ultimately show ?thesis by linarith
qed

lemma ceil_page_mono: "0 < ps \<Longrightarrow> p \<le> s \<Longrightarrow> ceil_page ps p \<le> ceil_page ps s"
  by (simp add: ceil_page_def zdiv_mono1)

lemma ceil_page_le_div:
  assumes "0 < ps" "ceil_page ps x * ps \<le> y"
  shows "ceil_page ps x \<le> y div ps"
  using assms zdiv_mono1 [of "ceil_page ps x * ps" y ps] by simp

lemma ceil_page_eq_div:
  "0 < ps \<Longrightarrow> ceil_page ps y = y div ps + (if y mod ps = 0 then 0 else 1)"
proof -
  assume ps: "0 < ps"
  have "ceil_page ps y = (y mod ps + ps - 1 + y div ps * ps) div ps"
    by (simp add: ceil_page_def algebra_simps)
  also have "\<dots> = (y mod ps + ps - 1) div ps + y div ps" using ps by simp
  also have "(y mod ps + ps - 1) div ps = (if y mod ps = 0 then 0 else 1)"
  proof (cases "y mod ps = 0")
    case True then show ?thesis using ps by (simp add: div_pos_pos_trivial)
  next
    case False
    then have "0 < y mod ps" "y mod ps < ps" using ps pos_mod_sign [of ps y] pos_mod_bound [of ps y] by linarith+
    then have "(y mod ps + ps - 1) div ps = (y mod ps - 1 + ps * 1) div ps" by (simp add: algebra_simps)
    also have "\<dots> = (y mod ps - 1) div ps + 1" using ps by (subst div_mult_self2) auto
    also have "(y mod ps - 1) div ps = 0" using \<open>0 < y mod ps\<close> \<open>y mod ps < ps\<close> by (intro div_pos_pos_trivial) auto
    finally show ?thesis using False by simp
  qed
  finally show ?thesis by simp
qed

text \<open>
  The slot of a position by the part of the extension it lies in: a new full page, and the last
  page when the sequence does not fill it.
\<close>

lemma slot_of_full:
  assumes "0 < ps" "ceil_page ps pre * ps \<le> q"
  shows "slot_of ps free l pre pg q =
    map_option (\<lambda>g. g * ps + (q - ceil_page ps pre * ps) mod ps)
      (tl_load free (pg + (q - ceil_page ps pre * ps) div ps))"
proof -
  let ?C = "ceil_page ps pre"
  have e: "q - ?C * ps = q + (- ?C) * ps" by simp
  have "(q - ?C * ps) mod ps = q mod ps" unfolding e by (rule mod_mult_self1)
  moreover have "(q - ?C * ps) div ps = q div ps - ?C"
    unfolding e using assms(1) by (subst div_mult_self1) auto
  ultimately show ?thesis using assms(2) by (simp add: slot_of_def)
qed

lemma div_mult_bounds:
  assumes "(0::int) < ps"
  shows "s div ps * ps \<le> s" "s < s div ps * ps + ps"
  using assms div_mult_mod_eq [of s ps] pos_mod_sign [of ps s] pos_mod_bound [of ps s] by linarith+

lemma slot_of_tail:
  assumes "0 < ps" "ceil_page ps pre \<le> s div ps" "s div ps * ps \<le> q" "q < s"
  shows "slot_of ps free l pre pg q =
    map_option (\<lambda>g. g * ps + (q - s div ps * ps)) (tl_load free (pg + (s div ps - ceil_page ps pre)))"
proof -
  have "q < s div ps * ps + ps" using assms(4) div_mult_bounds(2) [OF assms(1), of s] by linarith
  then have d: "q div ps = s div ps"
    using assms(1,3) by (intro int_div_pos_eq [of _ _ _ "q - s div ps * ps"]) (auto simp: mult.commute)
  then have "q mod ps = q - s div ps * ps" using div_mult_mod_eq [of q ps] by simp
  moreover have "\<not> q < ceil_page ps pre * ps"
    using assms mult_right_mono [OF assms(2), of ps] by linarith
  ultimately show ?thesis using d by (simp add: slot_of_def)
qed

text \<open>
  Both routines fill the segment of a request in up to three consecutive pieces: the rest of the
  partly used page, the new full pages, the new partly used page.
\<close>

definition fill :: "mem \<Rightarrow> int \<Rightarrow> int \<Rightarrow> (int \<Rightarrow> int option) \<Rightarrow> mem" where
  "fill m lo hi f = (\<lambda>a. if lo \<le> a \<and> a < hi then f a else m a)"

definition extend_fills ::
  "int \<Rightarrow> int list \<Rightarrow> int \<Rightarrow> int \<Rightarrow> int \<Rightarrow> int \<Rightarrow> int \<Rightarrow> mem \<Rightarrow> mem" where
  "extend_fills ps free l p s st pg m =
     (let C = ceil_page ps p; D = s div ps;
          n1 = min s (C * ps) - p; n2 = D * ps - C * ps;
          m1 = fill m st (st + n1) (\<lambda>a. Some (l + 1 + (a - st)))
      in if s \<le> C * ps then m1 else
         (let m2 = fill m1 (st + n1) (st + n1 + n2)
                (\<lambda>a. map_option (\<lambda>g. g * ps + (a - (st + n1)) mod ps)
                      (tl_load free (pg + (a - (st + n1)) div ps)))
          in if D * ps = s then m2
             else fill m2 (st + n1 + n2) (st + (s - p))
                (\<lambda>a. map_option (\<lambda>g. g * ps + (a - (st + n1 + n2)))
                      (tl_load free (pg + (D - C))))))"

lemma extend_fills_eq:
  assumes ps: "0 < ps" and le: "p \<le> s"
  shows "extend_fills ps free l p s st pg m =
    fill m st (st + (s - p)) (\<lambda>a. slot_of ps free l p pg (p + (a - st)))"
proof (cases "s \<le> ceil_page ps p * ps")
  case True
  then show ?thesis by (auto simp: extend_fills_def fill_def slot_of_def Let_def fun_eq_iff)
next
  case False
  let ?C = "ceil_page ps p" and ?D = "s div ps"
  have CD: "?C \<le> ?D" using False by (intro ceil_page_le_div [OF ps]) auto
  have C: "p \<le> ?C * ps" "?C * ps \<le> ?D * ps" "?D * ps \<le> s"
    using ceil_page_bounds(1) [OF ps] mult_right_mono [OF CD, of ps] ps div_mult_bounds(1) [OF ps] by auto
  have full: "slot_of ps free l p pg (p + (a - st)) =
      map_option (\<lambda>g. g * ps + (a - (st + (?C * ps - p))) mod ps)
        (tl_load free (pg + (a - (st + (?C * ps - p))) div ps))" if "?C * ps \<le> p + (a - st)" "p + (a - st) < ?D * ps" for a
    using slot_of_full [OF ps that(1)] by (simp add: algebra_simps)
  have tail: "slot_of ps free l p pg (p + (a - st)) =
      map_option (\<lambda>g. g * ps + (a - (st + (?C * ps - p) + (?D * ps - ?C * ps))))
        (tl_load free (pg + (?D - ?C)))" if "?D * ps \<le> p + (a - st)" "p + (a - st) < s" for a
    using slot_of_tail [OF ps CD that] by (simp add: algebra_simps)
  have old: "slot_of ps free l p pg (p + (a - st)) = Some (l + 1 + (a - st))"
    if "p + (a - st) < ?C * ps" for a using that by (simp add: slot_of_def)
  have "min s (?C * ps) = ?C * ps" using False by simp
  then show ?thesis using False C
    by (auto simp: extend_fills_def fill_def Let_def fun_eq_iff old full tail)
qed

lemma block_cover:
  "0 \<le> n \<Longrightarrow> n \<le> int (nat (ceil_page BLOCK_EXTEND n) * nat BLOCK_EXTEND)"
  using ceil_page_bounds(1) [of BLOCK_EXTEND n]
  by (simp add: ceil_page_def BLOCK_EXTEND_def)

lemma store_page_fill:
  assumes "k \<le> ps" "0 < ps"
  shows "tl_store m (map (\<lambda>j. (st + int j, f (int j), int j < k)) [0..<nat ps]) =
    fill m st (st + k) (\<lambda>a. f (a - st))"
  using assms by (auto simp: mem_simps fill_def fun_eq_iff)

lemma store_blocks_fill:
  assumes "0 \<le> n"
  shows "tl_store_blocks m st (nat BLOCK_EXTEND) (nat (ceil_page BLOCK_EXTEND n))
      (\<lambda>j. f (int j)) (\<lambda>j. int j < n) = fill m st (st + n) (\<lambda>a. f (a - st))"
  using block_cover [OF assms] by (auto simp: mem_simps fill_def fun_eq_iff)

lemma alloc_extend_kernel_fills:
  assumes ps: "0 < ps" and pid: "pid < length seq" "length pre = length seq" "pid < n"
    and le: "pre ! pid \<le> seq ! pid"
  shows "alloc_extend_kernel u pre seq ll free n ps pid m =
    extend_fills ps free (ll ! pid) (pre ! pid) (seq ! pid)
      (row_start (-) seq pre pid) (row_start (new_pages ps) seq pre pid) m"
proof -
  let ?s = "seq ! pid" and ?p = "pre ! pid"
  let ?C = "ceil_page ps ?p" and ?D = "?s div ps"
  let ?n1 = "min ?s (?C * ps) - ?p" and ?n2 = "?D * ps - ?C * ps"
  define st where "st = row_start (-) seq pre pid"
  define pg where "pg = row_start (new_pages ps) seq pre pid"
  have sums: "sum_list (map2 (-) (lanes_upto seq n pid u) (lanes_upto pre n pid u)) - (?s - ?p) = st"
    "sum_list (map2 (new_pages ps) (lanes_upto seq n pid u) (lanes_upto pre n pid u))
       - (ceil_page ps ?s - ?C) = pg"
    using pid by (simp_all add: lanes_sum row_start_Suc st_def pg_def)
  have n1: "?n1 \<le> ps" using ceil_page_bounds(2) [OF ps, of ?p] by auto
  note unf = alloc_extend_kernel_def ceil_page_def [symmetric] Let_def sums
  note part1 = store_page_fill [OF n1 ps, of m st "\<lambda>x. Some (ll ! pid + 1 + x)"]
  show ?thesis
  proof (cases "?s \<le> ?C * ps")
    case True
    then show ?thesis
      unfolding unf part1 extend_fills_def st_def [symmetric] pg_def [symmetric] by simp
  next
    case False
    then have e: "min ?s (?C * ps) = ?C * ps" by simp
    have CD: "?C \<le> ?D" using False by (intro ceil_page_le_div [OF ps]) auto
    then have n2: "0 \<le> ?n2" using mult_right_mono [OF CD, of ps] ps by auto
    note part2 = store_blocks_fill [OF n2, of _ "st + ?n1"
        "\<lambda>x. map_option (\<lambda>g. g * ps + x mod ps) (tl_load free (pg + x div ps))"]
    have n3: "?s - ?D * ps \<le> ps" using div_mult_bounds [OF ps, of ?s] by linarith
    note part3 = store_page_fill [OF n3 ps, of _ "st + ?n1 + ?n2"
        "\<lambda>x. map_option (\<lambda>g. g * ps + x) (tl_load free (pg + (ceil_page ps ?s - ?C) - 1))"]
    have cs: "ceil_page ps ?s = ?D + 1" if "?D * ps \<noteq> ?s"
      using that ceil_page_eq_div [OF ps, of ?s] by (auto split: if_splits)
    have "st + ?n1 + ?n2 + (?s - ?D * ps) = st + (?s - ?p)" using e by simp
    then show ?thesis
      unfolding unf part1 part2 part3 extend_fills_def st_def [symmetric] pg_def [symmetric]
      using False by (cases "?D * ps = ?s") (auto simp: e cs algebra_simps)
  qed
qed
lemma launch_Nil [simp]: "launch k [] m = m"
  and launch_snoc [simp]: "launch k (ps @ [p]) m = k p (launch k ps m)"
  by (simp_all add: launch_def)

text \<open>Program instances that write disjoint segments: the launch writes each segment, in any order.\<close>

lemma launch_outside:
  assumes "\<And>p m a. p \<in> set pids \<Longrightarrow> k p m a = (if p \<in> R a then f p a else m a)"
    and "R a \<inter> set pids = {}"
  shows "launch k pids m a = m a"
  using assms
proof (induction pids rule: rev_induct)
  case (snoc p pids)
  then have "p \<notin> R a" "launch k pids m a = m a" by auto
  then show ?case using snoc.prems(1) [of p "launch k pids m" a] by simp
qed simp

lemma launch_inside:
  assumes "\<And>p m a. p \<in> set pids \<Longrightarrow> k p m a = (if p \<in> R a then f p a else m a)"
    and "R a \<inter> set pids = {i}" and "distinct pids"
  shows "launch k pids m a = f i a"
  using assms
proof (induction pids rule: rev_induct)
  case (snoc p pids)
  show ?case
  proof (cases "p \<in> R a")
    case True
    then have "p = i" using snoc.prems(2) by auto
    then show ?thesis using snoc.prems(1) [of p "launch k pids m" a] True by simp
  next
    case False
    then have "R a \<inter> set pids = {i}" using snoc.prems(2) by auto
    moreover have "\<And>q m a. q \<in> set pids \<Longrightarrow> k q m a = (if q \<in> R a then f q a else m a)"
      using snoc.prems(1) by simp
    ultimately have "launch k pids m a = f i a"
      using snoc.IH snoc.prems(3) by simp
    then show ?thesis using snoc.prems(1) [of p "launch k pids m" a] False by simp
  qed
qed simp

lemma row_start_mono:
  assumes "\<And>k. k < length seq \<Longrightarrow> 0 \<le> f (seq ! k) (pre ! k)" "length pre = length seq"
    and "i \<le> j" "j \<le> length seq"
  shows "row_start f seq pre i \<le> row_start f seq pre j"
  using assms(3,4)
proof (induction j rule: dec_induct)
  case (step j)
  then show ?case using assms(1) [of j] row_start_Suc [of j seq pre f] assms(2) by simp
qed simp

text \<open>The request whose segment holds offset \<open>a\<close>.\<close>

lemma row_find:
  assumes "length pre = length seq" and "0 \<le> a"
    and "a < row_start f seq pre n" "n \<le> length seq"
  shows "\<exists>i < n. row_start f seq pre i \<le> a \<and> a < row_start f seq pre (Suc i)"
  using assms(3,4)
proof (induction n)
  case 0
  then show ?case using assms(2) by (simp add: row_start_def)
next
  case (Suc n)
  show ?case
  proof (cases "a < row_start f seq pre n")
    case True
    then show ?thesis using Suc.IH Suc.prems by (metis Suc_leD less_SucI)
  next
    case False
    then show ?thesis using Suc.prems by auto
  qed
qed

lemma row_unique:
  assumes "\<And>k. k < length seq \<Longrightarrow> 0 \<le> f (seq ! k) (pre ! k)" "length pre = length seq"
    and "i < length seq" "j < length seq"
    and "row_start f seq pre i \<le> a" "a < row_start f seq pre (Suc i)"
    and "row_start f seq pre j \<le> a" "a < row_start f seq pre (Suc j)"
  shows "i = j"
proof (rule ccontr)
  assume "i \<noteq> j"
  then consider "Suc i \<le> j" | "Suc j \<le> i" by linarith
  then show False
    using row_start_mono [of seq f pre "Suc i" j] row_start_mono [of seq f pre "Suc j" i] assms
    by cases auto
qed

definition extend_ok :: "int \<Rightarrow> int list \<Rightarrow> int list \<Rightarrow> int list \<Rightarrow> int list \<Rightarrow> bool" where
  "extend_ok ps pre seq ll free \<longleftrightarrow>
     0 < ps \<and> length seq = length pre \<and> length ll = length pre \<and>
     (\<forall>i < length pre. 0 \<le> pre ! i \<and> pre ! i \<le> seq ! i) \<and>
     row_start (new_pages ps) seq pre (length pre) \<le> int (length free)"

abbreviation "out_row seq pre i \<equiv> row_start (-) seq pre i"
abbreviation "page_row ps seq pre i \<equiv> row_start (new_pages ps) seq pre i"

definition extend_slot :: "int \<Rightarrow> int list \<Rightarrow> int list \<Rightarrow> int list \<Rightarrow> int list \<Rightarrow> nat \<Rightarrow> int \<Rightarrow> int option" where
  "extend_slot ps pre seq ll free i a =
     slot_of ps free (ll ! i) (pre ! i) (page_row ps seq pre i) (pre ! i + (a - out_row seq pre i))"

lemma page_row_nonneg:
  assumes "0 < ps" "length pre = length seq" "\<forall>i < length pre. pre ! i \<le> seq ! i" "n \<le> length seq"
  shows "0 \<le> page_row ps seq pre n"
  using row_start_mono [of seq "new_pages ps" pre 0 n] assms
  by (auto simp: row_start_def ceil_page_mono)

lemma bit_length_bound: "n < 2 ^ bit_length n"
proof (induction n rule: bit_length.induct)
  case (1 n)
  show ?case
  proof (cases "n = 0")
    case False
    then have "n div 2 < 2 ^ bit_length (n div 2)" using 1 by simp
    then have "n < 2 * 2 ^ bit_length (n div 2)" by linarith
    then show ?thesis using False by (simp add: bit_length.simps [of n])
  qed (simp add: bit_length.simps)
qed

lemma next_power_of_2_ge: "n \<le> next_power_of_2 n"
  using bit_length_bound [of "n - 1"] by (auto simp: next_power_of_2_def)

lemma extend_launch:
  assumes ok: "extend_ok ps pre seq ll free" and pids: "distinct pids" "set pids = {0..<length pre}"
  shows "i < length pre \<Longrightarrow> out_row seq pre i \<le> a \<Longrightarrow> a < out_row seq pre (Suc i) \<Longrightarrow>
      launch (alloc_extend_kernel u pre seq ll free (next_power_of_2 (length pre)) ps) pids m a =
      extend_slot ps pre seq ll free i a"
    and "a < 0 \<or> out_row seq pre (length pre) \<le> a \<Longrightarrow>
      launch (alloc_extend_kernel u pre seq ll free (next_power_of_2 (length pre)) ps) pids m a = m a"
proof -
  let ?n = "length pre"
  let ?R = "\<lambda>a. {i. i < ?n \<and> out_row seq pre i \<le> a \<and> a < out_row seq pre (Suc i)}"
  have nn: "\<And>k. k < length seq \<Longrightarrow> 0 \<le> seq ! k - pre ! k" and len: "length pre = length seq"
    using ok by (auto simp: extend_ok_def)
  have eff: "alloc_extend_kernel u pre seq ll free (next_power_of_2 ?n) ps p m a =
     (if p \<in> ?R a then extend_slot ps pre seq ll free p a else m a)" if "p \<in> set pids" for p m a
  proof -
    have p: "p < length seq" using that pids(2) len by simp
    then have "p < next_power_of_2 ?n" using next_power_of_2_ge [of ?n] len by linarith
    moreover have ps: "0 < ps" and le: "pre ! p \<le> seq ! p" using ok p by (auto simp: extend_ok_def)
    ultimately show ?thesis
      using p len row_start_Suc [OF p len, of "(-)"]
        alloc_extend_kernel_fills [OF ps p len _ le, of "next_power_of_2 ?n" u ll free m]
        extend_fills_eq [OF ps le, of free "ll ! p" "out_row seq pre p" "page_row ps seq pre p" m]
      by (simp add: fill_def extend_slot_def)
  qed
  show "launch (alloc_extend_kernel u pre seq ll free (next_power_of_2 ?n) ps) pids m a =
      extend_slot ps pre seq ll free i a"
    if "i < ?n" "out_row seq pre i \<le> a" "a < out_row seq pre (Suc i)"
  proof (rule launch_inside [where R = ?R and f = "extend_slot ps pre seq ll free"])
    show "?R a \<inter> set pids = {i}"
      using that pids(2) len row_unique [where f = "(-)" and a = a, OF nn len] by auto
  qed (use eff pids(1) in auto)
  show "launch (alloc_extend_kernel u pre seq ll free (next_power_of_2 ?n) ps) pids m a = m a"
    if "a < 0 \<or> out_row seq pre ?n \<le> a"
  proof (rule launch_outside [where R = ?R and f = "extend_slot ps pre seq ll free"])
    have "0 \<le> out_row seq pre i \<and> out_row seq pre (Suc i) \<le> out_row seq pre ?n" if "i < ?n" for i
      using that row_start_mono [where f = "(-)", OF nn len, of 0 i] row_start_mono [where f = "(-)", OF nn len, of "Suc i" ?n] len
      by (auto simp: row_start_def)
    then show "?R a \<inter> set pids = {}" using that by fastforce
  qed (use eff in auto)
qed

lemma cumsum_row:
  assumes "i < length seq" "length pre = length seq"
  shows "cumsum (map2 f seq pre) ! i = row_start f seq pre i + f (seq ! i) (pre ! i)"
  using assms row_start_Suc [OF assms, of f] by (simp add: cumsum_nth row_start_def)

lemma slice_assign_fill:
  assumes "int (length vals) = stop - start"
    and "\<And>j. 0 \<le> j \<Longrightarrow> j < stop - start \<Longrightarrow> Some (vals ! nat j) = f j"
  shows "slice_assign m start stop vals = Inr (fill m start stop (\<lambda>a. f (a - start)))"
proof -
  have "nat (stop - start) = length vals" using assms(1) by linarith
  then show ?thesis
    unfolding slice_assign_def Let_def using assms by (auto simp: mem_simps fill_def fun_eq_iff)
qed

lemma fill_empty [simp]: "hi \<le> lo \<Longrightarrow> fill m lo hi f = m"
  by (auto simp: fill_def fun_eq_iff)

lemma slice_assign_page:
  assumes "0 \<le> k" "k \<le> ps"
  shows "(if k \<noteq> 0 then slice_assign m start (start + k)
            (map (\<lambda>x. c + x) (py_upto (map int [0..<nat ps]) k)) else Inr m) =
         Inr (fill m start (start + k) (\<lambda>a. Some (c + (a - start))))"
proof -
  have "py_upto (map int [0..<nat ps]) k = map int [0..<nat k]"
    using assms by (auto simp: slice_simps take_map min_def)
  then show ?thesis using assms by (auto intro: slice_assign_fill [where f = "\<lambda>x. Some (c + x)"])
qed

lemma page_values_nth:
  assumes ps: "0 < ps" and j: "0 \<le> j" "j < int (length pages) * ps"
  shows "concat (map (\<lambda>g. map (\<lambda>x. g * ps + x) (map int [0..<nat ps])) pages) ! nat j =
         pages ! nat (j div ps) * ps + j mod ps"
proof -
  have k: "nat j < length pages * nat ps" using j ps by (simp add: nat_less_iff)
  have d: "nat j div nat ps = nat (j div ps)" "nat j mod nat ps = nat (j mod ps)"
    using j ps by (simp_all add: nat_div_distrib nat_mod_distrib)
  have "nat (j div ps) < length pages"
    using k ps unfolding d(1) [symmetric] by (simp add: div_less_iff_less_mult)
  moreover have "nat (j mod ps) < nat ps" "int (nat (j mod ps)) = j mod ps" using ps by simp_all
  ultimately show ?thesis
    using k by (subst nth_concat_blocks [where n = "nat ps"]) (auto simp: d)
qed

lemma int_div_less:
  assumes "(0::int) < ps" "j < n * ps"
  shows "j div ps < n"
proof (rule ccontr)
  assume "\<not> j div ps < n"
  then have "n * ps \<le> j div ps * ps" using assms(1) by (simp add: mult_right_mono)
  then show False using div_mult_bounds(1) [OF assms(1), of j] assms(2) by linarith
qed

lemma slice_assign_pages:
  assumes ps: "0 < ps" and n: "0 \<le> n" "0 \<le> pg" "pg + n \<le> int (length free)"
  shows "(if n * ps \<noteq> 0 then slice_assign m start (start + n * ps)
            (concat (map (\<lambda>g. map (\<lambda>x. g * ps + x) (map int [0..<nat ps])) (py_slice free pg (pg + n))))
          else Inr m) =
         Inr (fill m start (start + n * ps)
            (\<lambda>a. map_option (\<lambda>g. g * ps + (a - start) mod ps) (tl_load free (pg + (a - start) div ps))))"
proof -
  let ?pages = "py_slice free pg (pg + n)"
  have lp: "length ?pages = nat n" using n by (auto simp: slice_simps nat_add_distrib)
  have np: "?pages ! nat k = free ! nat (pg + k)" if "0 \<le> k" "k < n" for k
    using that n by (simp add: slice_simps nat_add_distrib)
  have "slice_assign m start (start + n * ps)
      (concat (map (\<lambda>g. map (\<lambda>x. g * ps + x) (map int [0..<nat ps])) ?pages)) =
      Inr (fill m start (start + n * ps) (\<lambda>a. map_option (\<lambda>g. g * ps + (a - start) mod ps)
        (tl_load free (pg + (a - start) div ps))))"
  proof (rule slice_assign_fill
      [where f = "\<lambda>x. map_option (\<lambda>g. g * ps + x mod ps) (tl_load free (pg + x div ps))"])
    show "int (length (concat (map (\<lambda>g. map (\<lambda>x. g * ps + x) (map int [0..<nat ps])) ?pages))) =
        start + n * ps - start"
      using ps n by (subst length_concat_blocks [where n = "nat ps"]) (auto simp: lp)
    fix j assume j: "0 \<le> j" "j < start + n * ps - start"
    then have d: "0 \<le> j div ps" "j div ps < n"
      using ps int_div_less [OF ps, of j n] by (auto simp: pos_imp_zdiv_nonneg_iff)
    show "Some (concat (map (\<lambda>g. map (\<lambda>x. g * ps + x) (map int [0..<nat ps])) ?pages) ! nat j) =
        map_option (\<lambda>g. g * ps + j mod ps) (tl_load free (pg + j div ps))"
      using page_values_nth [OF ps, of j ?pages] j n d np [OF d] lp by (auto simp: tl_load_def)
  qed
  then show ?thesis using n ps by auto
qed

lemma page_row_bounds:
  assumes ok: "extend_ok ps pre seq ll free" and i: "i < length seq"
  shows "0 \<le> page_row ps seq pre i"
    and "page_row ps seq pre i + new_pages ps (seq ! i) (pre ! i) \<le> int (length free)"
proof -
  have len: "length pre = length seq" using ok by (simp add: extend_ok_def)
  have nn: "0 \<le> new_pages ps (seq ! k) (pre ! k)" if "k < length seq" for k
    using ok that by (auto simp: extend_ok_def ceil_page_mono)
  note mono = row_start_mono [where f = "new_pages ps", OF nn len]
  show "0 \<le> page_row ps seq pre i" using mono [of 0 i] i by (simp add: row_start_def)
  show "page_row ps seq pre i + new_pages ps (seq ! i) (pre ! i) \<le> int (length free)"
    using mono [of "Suc i" "length seq"] i len ok row_start_Suc [OF i len, of "new_pages ps"]
    by (simp add: extend_ok_def)
qed

lemma naive_row_fills:
  assumes ok: "extend_ok ps pre seq ll free" and i: "i < length seq"
  shows "alloc_extend_naive_row pre seq ll free ps i m =
    Inr (extend_fills ps free (ll ! i) (pre ! i) (seq ! i) (out_row seq pre i) (page_row ps seq pre i) m)"
proof -
  let ?s = "seq ! i" and ?p = "pre ! i"
  let ?C = "ceil_page ps ?p" and ?D = "?s div ps" and ?E = "ceil_page ps ?s"
  let ?n1 = "min ?s (?C * ps) - ?p" and ?n2 = "(?D - ?C) * ps" and ?n3 = "?s - ?D * ps"
  let ?st = "out_row seq pre i" and ?pg = "page_row ps seq pre i"
  have ps: "0 < ps" and len: "length pre = length seq" and le: "?p \<le> ?s"
    using ok i by (auto simp: extend_ok_def)
  note pg = page_row_bounds [OF ok i]
  note unf = alloc_extend_naive_row_def ceil_page_def [symmetric] Let_def cumsum_row [OF i len]
  have nth2: "map2 f seq pre ! i = f ?s ?p" for f :: "int \<Rightarrow> int \<Rightarrow> int" using i len by simp
  have n1: "0 \<le> ?n1" "?n1 \<le> ps" using ceil_page_bounds [OF ps, of ?p] le by auto
  note part1 = slice_assign_page [OF n1, of m ?st "ll ! i + 1"]
  show ?thesis
  proof (cases "?s \<le> ?C * ps")
    case True
    then show ?thesis unfolding unf nth2 add_diff_cancel_right' part1 extend_fills_def by simp
  next
    case False
    then have CD: "?C \<le> ?D" by (intro ceil_page_le_div [OF ps]) auto
    have e: "min ?s (?C * ps) = ?C * ps" "?p + ?n1 \<noteq> ?s" using False by auto
    have E: "?E = ?D + (if ?s mod ps = 0 then 0 else 1)" by (rule ceil_page_eq_div [OF ps])
    have n: "0 \<le> ?D - ?C" "?pg + (?D - ?C) \<le> int (length free)" using CD pg E by (auto split: if_splits)
    note part2 = slice_assign_pages [OF ps n(1) pg(1) n(2), of _ "?st + ?n1"]
    have need: "?pg + (?E - ?C) - (?E - ?C - (?D - ?C)) = ?pg + (?D - ?C)" by simp
    have n3: "0 \<le> ?n3" "?n3 \<le> ps" using div_mult_bounds [OF ps, of ?s] by auto
    have ends: "?st + (?s - ?p) - ?n3 = ?st + ?n1 + ?n2" "?st + ?n1 + ?n2 + ?n3 = ?st + (?s - ?p)"
      using e by (simp_all add: algebra_simps)
    have D: "?p + ?n1 + ?n2 = ?s \<longleftrightarrow> ?D * ps = ?s" using e by (simp add: algebra_simps)
    have nz: "?n3 \<noteq> 0" and idx: "py_index free (?pg + (?E - ?C) - 1) = Inr (free ! nat (?pg + (?D - ?C)))"
      and ld: "tl_load free (?pg + (?D - ?C)) = Some (free ! nat (?pg + (?D - ?C)))"
      if "?D * ps \<noteq> ?s"
    proof -
      have "?s mod ps \<noteq> 0" using that by (metis add.right_neutral div_mult_mod_eq)
      then have "?E = ?D + 1" using E by simp
      then show "?n3 \<noteq> 0" "py_index free (?pg + (?E - ?C) - 1) = Inr (free ! nat (?pg + (?D - ?C)))"
        "tl_load free (?pg + (?D - ?C)) = Some (free ! nat (?pg + (?D - ?C)))"
        using that pg CD by (simp_all add: py_index_def tl_load_def Let_def algebra_simps)
    qed
    note part3 = slice_assign_page [OF n3, of _ "?st + ?n1 + ?n2" "free ! nat (?pg + (?D - ?C)) * ps"]
    show ?thesis
    proof (cases "?D * ps = ?s")
      case True
      then show ?thesis
        unfolding unf nth2 add_diff_cancel_right' part1 need part2 py_bind_simps extend_fills_def D using e
        by (simp add: left_diff_distrib)
    next
      case neq: False
      have "?n3 \<noteq> 0" using nz neq by blast
      then have part3': "slice_assign m' (?st + ?n1 + ?n2) (?st + ?n1 + ?n2 + ?n3)
          (map (\<lambda>x. free ! nat (?pg + (?D - ?C)) * ps + x) (py_upto (map int [0..<nat ps]) ?n3)) =
          Inr (fill m' (?st + ?n1 + ?n2) (?st + ?n1 + ?n2 + ?n3)
            (\<lambda>a. Some (free ! nat (?pg + (?D - ?C)) * ps + (a - (?st + ?n1 + ?n2)))))" for m'
        using part3 [of m'] by simp
      show ?thesis
        unfolding unf nth2 add_diff_cancel_right' part1 need part2 py_bind_simps extend_fills_def D idx [OF neq] ends(1)
        unfolding ends(2) [symmetric] part3' using e neq \<open>?n3 \<noteq> 0\<close> ld [OF neq]
        by (simp add: left_diff_distrib)
    qed
  qed
qed

text \<open>The naive routine is a sequential run of the kernel's program instances.\<close>

lemma naive_launch:
  assumes "extend_ok ps pre seq ll free" and "n \<le> length seq"
  shows "foldl (\<lambda>r i. py_bind r (alloc_extend_naive_row pre seq ll free ps i)) (Inr m) [0..<n] =
    Inr (launch (alloc_extend_kernel u pre seq ll free (next_power_of_2 (length pre)) ps) [0..<n] m)"
  using assms(2)
proof (induction n)
  case (Suc n)
  have n: "n < length seq" using Suc by simp
  have len: "length pre = length seq" and ps: "0 < ps" and le: "pre ! n \<le> seq ! n"
    using assms(1) n by (auto simp: extend_ok_def)
  have "n < next_power_of_2 (length pre)" using next_power_of_2_ge [of "length pre"] n len by linarith
  then show ?case
    using Suc n naive_row_fills [OF assms(1) n] alloc_extend_kernel_fills [OF ps n len _ le] by simp
qed simp

lemma extend_launch_order:
  assumes ok: "extend_ok ps pre seq ll free"
    and "distinct pids" "set pids = {0..<length pre}" "distinct pids'" "set pids' = {0..<length pre}"
  shows "launch (alloc_extend_kernel u pre seq ll free (next_power_of_2 (length pre)) ps) pids m =
    launch (alloc_extend_kernel u pre seq ll free (next_power_of_2 (length pre)) ps) pids' m"
proof (rule ext)
  fix a
  have len: "length pre = length seq" using ok by (simp add: extend_ok_def)
  show "launch (alloc_extend_kernel u pre seq ll free (next_power_of_2 (length pre)) ps) pids m a =
    launch (alloc_extend_kernel u pre seq ll free (next_power_of_2 (length pre)) ps) pids' m a"
  proof (cases "a < 0 \<or> out_row seq pre (length pre) \<le> a")
    case True
    then show ?thesis using extend_launch(2) [OF ok] assms by metis
  next
    case False
    then obtain i where "i < length pre" "out_row seq pre i \<le> a" "a < out_row seq pre (Suc i)"
      using row_find [OF len, of a "(-)" "length pre"] len by auto
    then show ?thesis using extend_launch(1) [OF ok] assms by metis
  qed
qed

lemma slot_of_new_page:
  assumes ok: "extend_ok ps pre seq ll free" and i: "i < length seq"
    and p: "ceil_page ps (pre ! i) * ps \<le> p" "p < seq ! i"
  defines "k \<equiv> page_row ps seq pre i + (p div ps - ceil_page ps (pre ! i))"
  shows "slot_of ps free (ll ! i) (pre ! i) (page_row ps seq pre i) p =
      Some (free ! nat k * ps + p mod ps)"
    and "page_row ps seq pre i \<le> k" "k < page_row ps seq pre (Suc i)" "0 \<le> k"
    and "k < page_row ps seq pre (length seq)"
proof -
  have len: "length pre = length seq" and ps: "0 < ps" using ok by (auto simp: extend_ok_def)
  have nn: "0 \<le> new_pages ps (seq ! k) (pre ! k)" if "k < length seq" for k
    using ok that by (auto simp: extend_ok_def ceil_page_mono)
  have C: "ceil_page ps (pre ! i) \<le> p div ps" by (rule ceil_page_le_div [OF ps p(1)])
  have "p < ceil_page ps (seq ! i) * ps" using p(2) ceil_page_bounds(1) [OF ps, of "seq ! i"] by linarith
  then have E: "p div ps < ceil_page ps (seq ! i)" by (rule int_div_less [OF ps])
  note pg = page_row_bounds [OF ok i]
  show "page_row ps seq pre i \<le> k" "0 \<le> k" using C pg by (auto simp: k_def)
  show suc: "k < page_row ps seq pre (Suc i)"
    using E row_start_Suc [OF i len, of "new_pages ps"] by (simp add: k_def)
  show "k < page_row ps seq pre (length seq)"
    using suc row_start_mono [where f = "new_pages ps", OF nn len, of "Suc i" "length seq"] i by simp
  have "k < int (length free)" using E pg by (simp add: k_def)
  then show "slot_of ps free (ll ! i) (pre ! i) (page_row ps seq pre i) p =
      Some (free ! nat k * ps + p mod ps)"
    using p(1) \<open>0 \<le> k\<close> by (simp add: slot_of_def tl_load_def k_def)
qed

text \<open>The page and the offset of a slot.\<close>

lemma slot_of_page_old:
  assumes ps: "0 < ps" and p: "pre \<le> p" "p < ceil_page ps pre * ps"
    and al: "(l + 1) mod ps = pre mod ps"
  shows "(l + 1 + (p - pre)) div ps = l div ps" "(l + 1 + (p - pre)) mod ps = p mod ps"
    "pre mod ps \<noteq> 0"
proof -
  show nz: "pre mod ps \<noteq> 0"
  proof
    assume "pre mod ps = 0"
    then have "ceil_page ps pre * ps = pre"
      using ceil_page_eq_div [OF ps, of pre] div_mult_mod_eq [of pre ps] by simp
    then show False using p by simp
  qed
  let ?r = "pre mod ps" and ?b = "(l + 1) div ps"
  have r: "0 < ?r" using nz ps pos_mod_sign [of ps pre] by linarith
  have l: "l + 1 = ?b * ps + ?r" using al div_mult_mod_eq [of "l + 1" ps] by simp
  have "ceil_page ps pre * ps = pre - ?r + ps"
    using ceil_page_eq_div [OF ps, of pre] nz div_mult_mod_eq [of pre ps]
    by (simp add: algebra_simps)
  then have in_page: "p - pre + ?r < ps" using p by linarith
  have "l div ps = ?b"
    using l r in_page p(1) by (intro int_div_pos_eq [of _ _ _ "?r - 1"]) (auto simp: mult.commute)
  moreover have "(l + 1 + (p - pre)) div ps = ?b"
    using l r in_page p(1) by (intro int_div_pos_eq [of _ _ _ "p - pre + ?r"]) (auto simp: mult.commute)
  ultimately show "(l + 1 + (p - pre)) div ps = l div ps" by simp
  have "(l + 1 + (p - pre)) mod ps = ((l + 1) mod ps + (p - pre)) mod ps" by (simp add: mod_add_left_eq)
  also have "\<dots> = p mod ps" unfolding al by (simp add: mod_add_left_eq)
  finally show "(l + 1 + (p - pre)) mod ps = p mod ps" .
qed

lemma slot_of_page_new:
  assumes "0 < (ps::int)"
  shows "(g * ps + p mod ps) div ps = g" "(g * ps + p mod ps) mod ps = p mod ps"
  using assms by simp_all

lemma ceil_page_step:
  "0 < ps \<Longrightarrow> ceil_page ps s - ceil_page ps (s - 1) = (if (s - 1) mod ps = 0 then 1 else 0)"
proof -
  assume ps: "0 < ps"
  let ?d = "(s - 1) div ps"
  have e: "s + ps - 1 = (s - 1) + ps * 1" by simp
  have "ceil_page ps s = ?d + 1" unfolding ceil_page_def e using ps by (subst div_mult_self2) auto
  then show ?thesis using ceil_page_eq_div [OF ps, of "s - 1"] by simp
qed

lemma mod_pred_zero: "2 \<le> ps \<Longrightarrow> (s - 1) mod ps = 0 \<longleftrightarrow> s mod ps = (1::int)"
proof -
  assume ps: "2 \<le> ps"
  have "s mod ps = ((s - 1) mod ps + 1) mod ps" by (simp add: mod_add_left_eq)
  moreover have "(s - 1) mod ps = (s mod ps - 1) mod ps" by (simp add: mod_diff_left_eq)
  ultimately show ?thesis using ps by (auto simp: mod_pos_pos_trivial)
qed

lemma slot_of_one:
  assumes ps: "0 < ps"
  shows "slot_of ps free l (s - 1) pg (s - 1) =
    (if ceil_page ps s - ceil_page ps (s - 1) = 0 then Some (l + 1)
     else map_option (\<lambda>page. page * ps) (tl_load free pg))"
proof -
  have C: "ceil_page ps (s - 1) = (s - 1) div ps + (if (s - 1) mod ps = 0 then 0 else 1)"
    by (rule ceil_page_eq_div [OF ps])
  have "(s - 1) < ceil_page ps (s - 1) * ps \<longleftrightarrow> (s - 1) mod ps \<noteq> 0"
  proof (cases "(s - 1) mod ps = 0")
    case True
    then have "(s - 1) div ps * ps = s - 1" using div_mult_mod_eq [of "s - 1" ps] by simp
    then show ?thesis using C True by simp
  next
    case False
    then show ?thesis using C div_mult_bounds(2) [OF ps, of "s - 1"] by (simp add: algebra_simps)
  qed
  then show ?thesis using ceil_page_step [OF ps, of s] C by (auto simp: slot_of_def)
qed

text \<open>
  What the scheduler guarantees about the last slot of each request: it lies where the prefix
  ends in its page, and the partly filled pages belong to one request each and are not free.
\<close>

definition partial_pages_ok :: "int \<Rightarrow> int list \<Rightarrow> int list \<Rightarrow> int list \<Rightarrow> bool" where
  "partial_pages_ok ps pre ll free \<longleftrightarrow>
     (\<forall>i < length pre. (ll ! i + 1) mod ps = pre ! i mod ps) \<and>
     (\<forall>i < length pre. pre ! i mod ps \<noteq> 0 \<longrightarrow> ll ! i div ps \<notin> set free) \<and>
     (\<forall>i < length pre. \<forall>j < length pre. i \<noteq> j \<longrightarrow> pre ! i mod ps \<noteq> 0 \<longrightarrow> pre ! j mod ps \<noteq> 0 \<longrightarrow>
        ll ! i div ps \<noteq> ll ! j div ps)"

lemma slots_injective:
  assumes ok: "extend_ok ps pre seq ll free" and free: "distinct free"
    and part: "partial_pages_ok ps pre ll free"
    and i: "i < length seq" "pre ! i \<le> p" "p < seq ! i"
    and j: "j < length seq" "pre ! j \<le> q" "q < seq ! j"
    and eq: "slot_of ps free (ll ! i) (pre ! i) (page_row ps seq pre i) p =
             slot_of ps free (ll ! j) (pre ! j) (page_row ps seq pre j) q"
  shows "i = j \<and> p = q"
proof -
  have len: "length pre = length seq" and ps: "0 < ps" using ok by (auto simp: extend_ok_def)
  have nn: "0 \<le> new_pages ps (seq ! k) (pre ! k)" if "k < length seq" for k
    using ok that by (auto simp: extend_ok_def ceil_page_mono)
  have total: "page_row ps seq pre (length seq) \<le> int (length free)" using ok len by (simp add: extend_ok_def)
  let ?new = "\<lambda>i p. ceil_page ps (pre ! i) * ps \<le> p"
  let ?k = "\<lambda>i p. page_row ps seq pre i + (p div ps - ceil_page ps (pre ! i))"
  have old: "slot_of ps free (ll ! i) (pre ! i) (page_row ps seq pre i) p = Some (ll ! i + 1 + (p - pre ! i))
      \<and> (ll ! i + 1 + (p - pre ! i)) div ps = ll ! i div ps \<and> pre ! i mod ps \<noteq> 0"
    if "\<not> ?new i p" "i < length seq" "pre ! i \<le> p" for i p
    using that part len slot_of_page_old [OF ps, of "pre ! i" p "ll ! i"]
    by (auto simp: slot_of_def partial_pages_ok_def)
  have mem: "free ! nat (?k i p) \<in> set free" if "?new i p" "i < length seq" "p < seq ! i" for i p
    using slot_of_new_page(4,5) [OF ok that(2,1,3)] total by (intro nth_mem) linarith
  have clash: False if "?new i p" "\<not> ?new j q" "i < length seq" "p < seq ! i" "j < length seq" "pre ! j \<le> q"
    "slot_of ps free (ll ! i) (pre ! i) (page_row ps seq pre i) p =
     slot_of ps free (ll ! j) (pre ! j) (page_row ps seq pre j) q" for i p j q
  proof -
    have "free ! nat (?k i p) * ps + p mod ps = ll ! j + 1 + (q - pre ! j)"
      using that(7) slot_of_new_page(1) [OF ok that(3,1,4)] old [OF that(2,5,6)] by simp
    then have "free ! nat (?k i p) = ll ! j div ps"
      using old [OF that(2,5,6)] slot_of_page_new(1) [OF ps] by metis
    then show False
      using mem [OF that(1,3,4)] old [OF that(2,5,6)] part len that(5) by (auto simp: partial_pages_ok_def)
  qed
  consider (nn) "?new i p" "?new j q" | (oo) "\<not> ?new i p" "\<not> ?new j q"
    | (no) "?new i p" "\<not> ?new j q" | (on) "\<not> ?new i p" "?new j q" by blast
  then show ?thesis
  proof cases
    case nn
    note ni = slot_of_new_page [OF ok i(1) nn(1) i(3)] and nj = slot_of_new_page [OF ok j(1) nn(2) j(3)]
    have e: "free ! nat (?k i p) * ps + p mod ps = free ! nat (?k j q) * ps + q mod ps"
      using eq ni(1) nj(1) by simp
    then have "free ! nat (?k i p) = free ! nat (?k j q)" and m: "p mod ps = q mod ps"
      using slot_of_page_new [OF ps] by metis+
    then have k: "?k i p = ?k j q"
      using free ni(4,5) nj(4,5) total by (simp add: nth_eq_iff_index_eq nat_less_iff eq_nat_nat_iff)
    then have "i = j"
      using row_unique [where f = "new_pages ps" and a = "?k i p", OF \<open>\<And>k. k < length seq \<Longrightarrow> 0 \<le> new_pages ps (seq ! k) (pre ! k)\<close> len i(1) j(1)]
        ni(2,3) nj(2,3) by simp
    then have "p div ps = q div ps" using k by simp
    with m \<open>i = j\<close> show ?thesis by (metis div_mult_mod_eq)
  next
    case oo
    note oi = old [OF oo(1) i(1,2)] and oj = old [OF oo(2) j(1,2)]
    have v: "ll ! i + 1 + (p - pre ! i) = ll ! j + 1 + (q - pre ! j)" using eq oi oj by simp
    then have "ll ! i div ps = ll ! j div ps" using oi oj by metis
    then have "i = j" using part len i(1) j(1) oi oj by (auto simp: partial_pages_ok_def)
    with v show ?thesis by simp
  qed (use clash eq i j in metis)+
qed

text \<open>What a successful \<open>alloc_extend\<close> has computed: the kernel's output over the pages it takes.\<close>

lemma alloc_extend_success:
  assumes res: "alloc_extend u a pre pre seq seq ll n None = Inr (Some out, a')"
    and len: "length seq = length pre" "length ll = length pre" and ps: "0 < page_size a"
    and le: "\<forall>i < length pre. 0 \<le> pre ! i \<and> pre ! i \<le> seq ! i"
    and n: "n = out_row seq pre (length pre)"
  obtains a1 where
    "a1 = a \<or> a1 = merge_and_sort_free a"
    "extend_ok (page_size a) pre seq ll (free_pages a1)"
    "length out = nat n"
    "\<And>i p. i < length seq \<Longrightarrow> pre ! i \<le> p \<Longrightarrow> p < seq ! i \<Longrightarrow>
       out ! nat (out_row seq pre i + (p - pre ! i)) =
       slot_of (page_size a) (free_pages a1) (ll ! i) (pre ! i) (page_row (page_size a) seq pre i) p"
    "a' = a1\<lparr>free_pages := drop (nat (page_row (page_size a) seq pre (length pre))) (free_pages a1)\<rparr>"
proof -
  let ?ps = "page_size a" and ?N = "page_row (page_size a) seq pre (length pre)"
  define a1 where "a1 = (if need_sort a \<and> n div ?ps + int (length pre) + 1 > int (length (free_pages a))
     then merge_and_sort_free a else a)"
  let ?L = "launch (alloc_extend_kernel u pre seq ll (free_pages a1) (next_power_of_2 (length pre)) ?ps)
      [0..<length pre] Map.empty"
  have sumN: "sum_list (map2 (new_pages ?ps) seq pre) = ?N" using len by (simp add: row_start_def)
  have all: "out = read_out ?L (nat n)" "?N \<le> int (length (free_pages a1))"
    "a' = a1\<lparr>free_pages := py_from (free_pages a1) ?N\<rparr>"
    using res unfolding alloc_extend_def Let_def a1_def [symmetric] get_num_new_pages_def
      ceil_page_def [symmetric]
    by (auto simp: py_assert_eq_Inr py_bind_eq_Inr sumN split: if_splits)
  have ok: "extend_ok ?ps pre seq ll (free_pages a1)"
    using ps len le all(2) by (simp add: extend_ok_def)
  have nn: "0 \<le> seq ! k - pre ! k" if "k < length seq" for k using le that len by simp
  have out: "out ! nat (out_row seq pre i + (p - pre ! i)) =
      slot_of ?ps (free_pages a1) (ll ! i) (pre ! i) (page_row ?ps seq pre i) p"
    if i: "i < length seq" "pre ! i \<le> p" "p < seq ! i" for i p
  proof -
    let ?a = "out_row seq pre i + (p - pre ! i)"
    have suc: "out_row seq pre (Suc i) = out_row seq pre i + (seq ! i - pre ! i)"
      using i len by (intro row_start_Suc) auto
    note mono = row_start_mono [where f = "(-)", OF nn len(1) [symmetric]]
    have "0 \<le> ?a" using mono [of 0 i] i by (simp add: row_start_def)
    moreover have "?a < n" using mono [of "Suc i" "length seq"] i suc n len by simp
    ultimately have "out ! nat ?a = ?L ?a" unfolding all(1) by (simp add: read_out_def)
    also have "\<dots> = extend_slot ?ps pre seq ll (free_pages a1) i ?a"
      using i len suc by (intro extend_launch(1) [OF ok]) auto
    finally show ?thesis by (simp add: extend_slot_def)
  qed
  have pos: "0 \<le> ?N" using page_row_nonneg [OF ps len(1) [symmetric]] le len by simp
  show ?thesis
  proof (rule that [of a1])
    show "a' = a1\<lparr>free_pages := drop (nat ?N) (free_pages a1)\<rparr>" using all(3) pos by (simp add: slice_simps)
  qed (use ok out all(1) in \<open>auto simp: a1_def read_out_def\<close>)
qed

section \<open>Properties\<close>

text \<open>
  C4. For every batch whose new pages are available, and in whatever order the program instances
  of the kernel run, the \<open>alloc_extend\<close> Triton kernel leaves in the output buffer exactly what
  the naive reference \<open>alloc_extend_naive\<close> writes, and the reference raises nothing.
\<close>

theorem alloc_extend_kernel_eq_naive:
  assumes "0 < ps" "length seq = length pre" "length ll = length pre"
    and "\<forall>i < length pre. 0 \<le> pre ! i \<and> pre ! i \<le> seq ! i"
    and "sum_list (map2 (\<lambda>s p. ceil_page ps s - ceil_page ps p) seq pre) \<le> int (length free)"
    and "distinct pids" "set pids = {0..<length pre}"
  shows "alloc_extend_naive pre seq ll free ps m =
    Inr (launch (alloc_extend_kernel u pre seq ll free (next_power_of_2 (length pre)) ps) pids m)"
proof -
  have ok: "extend_ok ps pre seq ll free" using assms by (simp add: extend_ok_def row_start_def)
  have "alloc_extend_naive pre seq ll free ps m =
    Inr (launch (alloc_extend_kernel u pre seq ll free (next_power_of_2 (length pre)) ps)
       [0..<length pre] m)"
    unfolding alloc_extend_naive_def using naive_launch [OF ok, of "length pre"] assms(2) by simp
  also have "\<dots> = Inr (launch (alloc_extend_kernel u pre seq ll free (next_power_of_2 (length pre)) ps) pids m)"
    using extend_launch_order [OF ok _ _ assms(6,7), of "[0..<length pre]"] by simp
  finally show ?thesis .
qed

theorem alloc_extend_kernel_eq_naive_witness:
  "alloc_extend_naive [3, 0] [9, 2] [6, -1] [5, 8, 2, 7] 4 Map.empty =
   Inr (launch (alloc_extend_kernel 0 [3, 0] [9, 2] [6, -1] [5, 8, 2, 7]
          (next_power_of_2 (length [3::int, 0])) 4) [1, 0] Map.empty)"
  by (rule alloc_extend_kernel_eq_naive)
     (auto simp: ceil_page_def less_Suc_eq atLeastLessThan_def lessThan_def)

text \<open>
  A successful \<open>alloc_extend\<close> fills the whole output buffer, with pairwise distinct slots, when
  the allocator's pages are distinct and every partly filled page belongs to one request: the
  assertion that debug mode makes about the output never fails.
\<close>

lemma alloc_extend_distinct:
  assumes res: "alloc_extend u a pre pre seq seq ll n None = Inr (Some out, a')"
    and len: "length seq = length pre" "length ll = length pre" and ps: "0 < page_size a"
    and le: "\<forall>i < length pre. 0 \<le> pre ! i \<and> pre ! i \<le> seq ! i"
    and n: "n = sum_list (map2 (-) seq pre)"
    and dist: "distinct (free_pages a @ release_pages a)"
    and part: "partial_pages_ok (page_size a) pre ll (free_pages a @ release_pages a)"
  shows "length out = nat n \<and> None \<notin> set out \<and> distinct out"
proof -
  let ?ps = "page_size a"
  have nrow: "n = out_row seq pre (length pre)" using n len by (simp add: row_start_def)
  obtain a1 where a1: "a1 = a \<or> a1 = merge_and_sort_free a"
    and ok: "extend_ok ?ps pre seq ll (free_pages a1)" and lo: "length out = nat n"
    and out: "\<And>i p. i < length seq \<Longrightarrow> pre ! i \<le> p \<Longrightarrow> p < seq ! i \<Longrightarrow>
       out ! nat (out_row seq pre i + (p - pre ! i)) =
       slot_of ?ps (free_pages a1) (ll ! i) (pre ! i) (page_row ?ps seq pre i) p"
    and a': "a' = a1\<lparr>free_pages := drop (nat (page_row ?ps seq pre (length pre))) (free_pages a1)\<rparr>"
    by (rule alloc_extend_success [OF res len ps le nrow]) (rule that; assumption)
  have sub: "set (free_pages a1) \<subseteq> set (free_pages a @ release_pages a)" "distinct (free_pages a1)"
    using a1 dist by (auto simp: merge_and_sort_free_def split: if_splits)
  have part1: "partial_pages_ok ?ps pre ll (free_pages a1)"
    using part sub(1) unfolding partial_pages_ok_def by blast
  have find: "\<exists>i p. i < length seq \<and> pre ! i \<le> p \<and> p < seq ! i \<and>
      k = nat (out_row seq pre i + (p - pre ! i))" if "k < nat n" for k
  proof -
    have kn: "0 \<le> int k" "int k < out_row seq pre (length pre)" using that nrow by auto
    obtain i where i: "i < length pre" "out_row seq pre i \<le> int k" "int k < out_row seq pre (Suc i)"
      using row_find [OF len(1) [symmetric] kn] len by auto
    have "out_row seq pre (Suc i) = out_row seq pre i + (seq ! i - pre ! i)"
      using i len by (intro row_start_Suc) auto
    then show ?thesis using i len
      by (intro exI [of _ i] exI [of _ "pre ! i + (int k - out_row seq pre i)"]) auto
  qed
  have "out ! j \<noteq> out ! k" if jk: "j < nat n" "k < nat n" "j \<noteq> k" for j k
  proof
    assume eq: "out ! j = out ! k"
    obtain i p where ip: "i < length seq" "pre ! i \<le> p" "p < seq ! i" "j = nat (out_row seq pre i + (p - pre ! i))"
      using find [OF jk(1)] by blast
    obtain i' p' where ip': "i' < length seq" "pre ! i' \<le> p'" "p' < seq ! i'" "k = nat (out_row seq pre i' + (p' - pre ! i'))"
      using find [OF jk(2)] by blast
    have "i = i' \<and> p = p'"
      using slots_injective [OF ok sub(2) part1 ip(1-3) ip'(1-3)] out [OF ip(1-3)] out [OF ip'(1-3)] eq ip(4) ip'(4) by simp
    then show False using jk(3) ip(4) ip'(4) by simp
  qed
  moreover have "out ! k \<noteq> None" if kn: "k < nat n" for k
  proof -
    obtain i p where ip: "i < length seq" "pre ! i \<le> p" "p < seq ! i" "k = nat (out_row seq pre i + (p - pre ! i))"
      using find [OF kn] by blast
    then show ?thesis using out [OF ip(1-3)] slot_of_new_page(1) [OF ok ip(1) _ ip(3)]
      by (cases "ceil_page ?ps (pre ! i) * ?ps \<le> p") (auto simp: slot_of_def)
  qed
  ultimately show ?thesis using lo by (auto simp: distinct_conv_nth in_set_conv_nth)
qed

lemma alloc_extend_distinct_witness:
  "\<exists>out a'. alloc_extend 0 ((paged_init 32 4 False False)\<lparr>free_pages := [2, 3, 4, 5, 6, 7, 8]\<rparr>)
      [3, 0] [3, 0] [9, 2] [9, 2] [6, -1] 8 None = Inr (Some out, a') \<and>
    length out = nat 8 \<and> None \<notin> set out \<and> distinct out"
proof -
  let ?a = "(paged_init 32 4 False False)\<lparr>free_pages := [2, 3, 4, 5, 6, 7, 8]\<rparr>"
  obtain out a' where res: "alloc_extend 0 ?a [3, 0] [3, 0] [9, 2] [9, 2] [6, -1] 8 None = Inr (Some out, a')"
    by (simp add: alloc_extend_def py_assert_def get_num_new_pages_def paged_init_def paged_clear_def Let_def)
  have "length out = nat 8 \<and> None \<notin> set out \<and> distinct out"
    by (rule alloc_extend_distinct [OF res])
       (auto simp: paged_init_def paged_clear_def partial_pages_ok_def less_Suc_eq)
  with res show ?thesis by blast
qed

text \<open>
  C7. Where a successful \<open>alloc_extend\<close> puts the positions of a request: position \<open>p\<close> gets a
  slot at offset \<open>p mod page_size\<close> of its page; the page is the request's own last page while \<open>p\<close>
  still fits there and one of the pages taken from the allocator afterwards. The pages taken are as many
  as \<open>get_num_new_pages\<close> counts, and nothing else leaves the allocator.
\<close>

theorem alloc_extend_places:
  assumes res: "alloc_extend u a pre pre seq seq ll n None = Inr (Some out, a')"
    and len: "length seq = length pre" "length ll = length pre" and ps: "0 < page_size a"
    and le: "\<forall>i < length pre. 0 \<le> pre ! i \<and> pre ! i \<le> seq ! i"
    and n: "n = sum_list (map2 (-) seq pre)"
    and al: "\<forall>i < length pre. (ll ! i + 1) mod page_size a = pre ! i mod page_size a"
  shows "\<exists>taken.
    mset (free_pages a) + mset (release_pages a) =
      mset taken + (mset (free_pages a') + mset (release_pages a')) \<and>
    get_num_new_pages seq (page_size a) (Some pre) False = Inr (int (length taken)) \<and>
    (\<forall>i < length pre. \<forall>p. pre ! i \<le> p \<and> p < seq ! i \<longrightarrow>
      (\<exists>g. out ! nat (sum_list (take i (map2 (-) seq pre)) + (p - pre ! i)) = Some g \<and>
           g mod page_size a = p mod page_size a \<and>
           (if p < ceil_page (page_size a) (pre ! i) * page_size a
            then g div page_size a = ll ! i div page_size a
            else g div page_size a \<in> set taken)))"
proof -
  let ?ps = "page_size a"
  let ?N = "page_row ?ps seq pre (length pre)"
  have nrow: "n = out_row seq pre (length pre)" using n len by (simp add: row_start_def)
  obtain a1 where a1: "a1 = a \<or> a1 = merge_and_sort_free a"
    and ok: "extend_ok ?ps pre seq ll (free_pages a1)" and lo: "length out = nat n"
    and out: "\<And>i p. i < length seq \<Longrightarrow> pre ! i \<le> p \<Longrightarrow> p < seq ! i \<Longrightarrow>
       out ! nat (out_row seq pre i + (p - pre ! i)) =
       slot_of ?ps (free_pages a1) (ll ! i) (pre ! i) (page_row ?ps seq pre i) p"
    and a': "a' = a1\<lparr>free_pages := drop (nat (page_row ?ps seq pre (length pre))) (free_pages a1)\<rparr>"
    by (rule alloc_extend_success [OF res len ps le nrow]) (rule that; assumption)
  let ?taken = "take (nat ?N) (free_pages a1)"
  have N: "0 \<le> ?N" "?N \<le> int (length (free_pages a1))"
  proof -
    show "0 \<le> ?N" using page_row_nonneg [OF ps len(1) [symmetric]] le len by simp
    show "?N \<le> int (length (free_pages a1))" using ok by (simp add: extend_ok_def)
  qed
  have "mset (free_pages a) + mset (release_pages a) = mset (free_pages a1) + mset (release_pages a1)"
    using a1 merge_and_sort_free_mset [of a] by auto
  also have "mset (free_pages a1) = mset ?taken + mset (free_pages a')"
    unfolding a' by (simp add: mset_take_drop)
  finally have cons: "mset (free_pages a) + mset (release_pages a) =
      mset ?taken + (mset (free_pages a') + mset (release_pages a'))"
    using a' by (simp add: ac_simps)
  have cnt: "get_num_new_pages seq ?ps (Some pre) False = Inr (int (length ?taken))"
    using N len by (simp add: get_num_new_pages_def ceil_page_def [symmetric] row_start_def)
  have place: "\<exists>g. out ! nat (sum_list (take i (map2 (-) seq pre)) + (p - pre ! i)) = Some g \<and>
           g mod ?ps = p mod ?ps \<and>
           (if p < ceil_page ?ps (pre ! i) * ?ps then g div ?ps = ll ! i div ?ps else g div ?ps \<in> set ?taken)"
    if i: "i < length pre" "pre ! i \<le> p" "p < seq ! i" for i p
  proof (cases "p < ceil_page ?ps (pre ! i) * ?ps")
    case True
    have i': "i < length seq" using i len by simp
    have "slot_of ?ps (free_pages a1) (ll ! i) (pre ! i) (page_row ?ps seq pre i) p =
        Some (ll ! i + 1 + (p - pre ! i))" using True by (simp add: slot_of_def)
    then show ?thesis
      using out [OF i' i(2,3)] slot_of_page_old [OF ps i(2) True, of "ll ! i"] al i True
      by (simp add: row_start_def)
  next
    case False
    have i': "i < length seq" using i len by simp
    let ?k = "page_row ?ps seq pre i + (p div ?ps - ceil_page ?ps (pre ! i))"
    have F: "ceil_page ?ps (pre ! i) * ?ps \<le> p" using False by simp
    note new = slot_of_new_page [OF ok i' F i(3)]
    have "free_pages a1 ! nat ?k \<in> set ?taken"
    proof -
      have "nat ?k < length ?taken" using new(4,5) N len by auto
      then show ?thesis using nth_mem [of "nat ?k" ?taken] by simp
    qed
    then show ?thesis
      using out [OF i' i(2,3)] new(1) False slot_of_page_new [OF ps] by (simp add: row_start_def)
  qed
  show ?thesis using cons cnt place by blast
qed

theorem alloc_extend_places_witness:
  "\<exists>out a'. alloc_extend 0 ((paged_init 32 4 False False)\<lparr>free_pages := [2, 3, 4, 5, 6, 7, 8]\<rparr>)
      [3, 0] [3, 0] [9, 2] [9, 2] [6, -1] 8 None = Inr (Some out, a') \<and>
    (\<exists>g. out ! 1 = Some g \<and> g mod 4 = 0)"
proof -
  let ?a = "(paged_init 32 4 False False)\<lparr>free_pages := [2, 3, 4, 5, 6, 7, 8]\<rparr>"
  have ps: "page_size ?a = 4" by (simp add: paged_init_def paged_clear_def)
  obtain out a' where res: "alloc_extend 0 ?a [3, 0] [3, 0] [9, 2] [9, 2] [6, -1] 8 None = Inr (Some out, a')"
    by (simp add: alloc_extend_def py_assert_def get_num_new_pages_def paged_init_def paged_clear_def Let_def)
  have h: "length [9::int, 2] = length [3::int, 0]" "length [6::int, -1] = length [3::int, 0]"
    "0 < page_size ?a" "\<forall>i < length [3::int, 0]. 0 \<le> [3::int, 0] ! i \<and> [3::int, 0] ! i \<le> [9::int, 2] ! i"
    "(8::int) = sum_list (map2 (-) [9, 2] [3, 0])"
    "\<forall>i < length [3::int, 0]. ([6, -1] ! i + 1) mod page_size ?a = [3, 0] ! i mod page_size ?a"
    unfolding ps by (auto simp: less_Suc_eq)
  from alloc_extend_places [OF res h] obtain taken where
    "\<forall>i < length [3::int, 0]. \<forall>p. [3, 0] ! i \<le> p \<and> p < [9, 2] ! i \<longrightarrow>
      (\<exists>g. out ! nat (sum_list (take i (map2 (-) [9, 2] [3, 0])) + (p - [3, 0] ! i)) = Some g \<and>
           g mod page_size ?a = p mod page_size ?a \<and>
           (if p < ceil_page (page_size ?a) ([3, 0] ! i) * page_size ?a
            then g div page_size ?a = [6, -1] ! i div page_size ?a
            else g div page_size ?a \<in> set taken))"
    by (elim exE conjE) (rule that)
  from this [rule_format, of 0 4] have "\<exists>g. out ! 1 = Some g \<and> g mod 4 = 0"
    unfolding ps by auto
  with res show ?thesis by (intro exI [of _ out] exI [of _ a'] conjI)
qed

text \<open>What the decode kernel stores, in any order of the program instances.\<close>

lemma decode_launch:
  assumes ps: "0 < ps" and n: "length seq \<le> n"
    and pids: "distinct pids" "set pids = {0..<length seq}" and i: "i < length seq"
  shows "launch (alloc_decode_kernel u seq ll free n ps) pids m (int i) =
    slot_of ps free (ll ! i) (seq ! i - 1)
      (sum_list (take i (map2 (\<lambda>s p. ceil_page ps s - ceil_page ps p) seq (map (\<lambda>s. s - 1) seq))))
      (seq ! i - 1)"
proof -
  let ?pre = "map (\<lambda>s. s - 1) seq"
  let ?f = "\<lambda>p a. slot_of ps free (ll ! p) (seq ! p - 1) (page_row ps seq ?pre p) (seq ! p - 1)"
  have eff: "alloc_decode_kernel u seq ll free n ps p m a = (if p \<in> {p. a = int p} then ?f p a else m a)"
    if "p \<in> set pids" for p m a
  proof -
    have p: "p < length seq" using that pids by simp
    have pre: "map2 (\<lambda>j s. if j \<le> p then s - 1 else s) [0..<n] (lanes_upto seq n p u) =
        lanes_upto ?pre n p u"
      using p by (auto simp: list_eq_iff_nth_eq lanes_upto_def)
    have sum: "sum_list (map2 (new_pages ps) (lanes_upto seq n p u) (lanes_upto ?pre n p u)) -
        (ceil_page ps (seq ! p) - ceil_page ps (seq ! p - 1)) = page_row ps seq ?pre p"
      using p n lanes_sum [of p n seq ?pre "new_pages ps" u] row_start_Suc [of p seq ?pre "new_pages ps"]
      by simp
    show ?thesis
      unfolding alloc_decode_kernel_def ceil_page_def [symmetric] Let_def pre sum
      using slot_of_one [OF ps, of free "ll ! p" "seq ! p" "page_row ps seq ?pre p"] by auto
  qed
  have "launch (alloc_decode_kernel u seq ll free n ps) pids m (int i) = ?f i (int i)"
    by (rule launch_inside [where R = "\<lambda>a. {p. a = int p}" and f = ?f])
       (use eff pids i in \<open>auto\<close>)
  then show ?thesis by (simp add: row_start_def)
qed

text \<open>
  A decode step is an extension by one token: for sequence lengths that count the new token,
  the decode kernel stores for every request the slot of its last position, in any order of the
  program instances and whatever a masked-out lane reads.
\<close>

lemma alloc_decode_kernel_extends_by_one:
  assumes ps: "0 < ps" and n: "length seq \<le> n"
    and pids: "distinct pids" "set pids = {0..<length seq}" and i: "i < length seq"
  shows "launch (alloc_decode_kernel u seq ll free n ps) pids m (int i) =
    slot_of ps free (ll ! i) (seq ! i - 1)
      (sum_list (take i (map2 (\<lambda>s p. ceil_page ps s - ceil_page ps p) seq (map (\<lambda>s. s - 1) seq))))
      (seq ! i - 1)"
  using decode_launch [OF assms] .

lemma alloc_decode_kernel_extends_by_one_witness:
  "launch (alloc_decode_kernel 7 [5, 8] [3, 22] [9, 6] 2 4) [1, 0] Map.empty (int 0) =
    slot_of 4 [9, 6] ([3, 22] ! 0) ([5, 8] ! 0 - 1)
      (sum_list (take 0 (map2 (\<lambda>s p. ceil_page 4 s - ceil_page 4 p) [5, 8] (map (\<lambda>s. s - 1) [5, 8]))))
      ([5, 8] ! 0 - 1)"
  by (rule alloc_decode_kernel_extends_by_one) auto

text \<open>
  For pages of at least two slots, the special case of \<open>get_num_new_pages\<close> for decode
  (\<open>seq_len % page_size == 1\<close>) counts the pages of an extension from \<open>seq_len - 1\<close> to \<open>seq_len\<close>.
\<close>

lemma get_num_new_pages_decode:
  assumes ps: "2 \<le> ps"
  shows "get_num_new_pages seq ps None True =
    get_num_new_pages seq ps (Some (map (\<lambda>s. s - 1) seq)) False"
proof -
  have "ceil_page ps s - ceil_page ps (s - 1) = (if s mod ps = 1 then 1 else 0)" for s
    using ceil_page_step [of ps s] ps by (simp add: mod_pred_zero)
  then have "map2 (new_pages ps) seq (map (\<lambda>s. s - 1) seq) = map (\<lambda>s. if s mod ps = 1 then 1 else 0) seq"
    by (induction seq) simp_all
  then show ?thesis
    by (simp add: get_num_new_pages_def py_assert_def ceil_page_def [symmetric])
qed

lemma get_num_new_pages_decode_witness:
  "(2::int) \<le> 4 \<and> get_num_new_pages [5, 8] 4 None True =
     get_num_new_pages [5, 8] 4 (Some (map (\<lambda>s. s - 1) [5, 8])) False"
  using get_num_new_pages_decode [of 4 "[5, 8]"] by simp

text \<open>
  With page size 1 the two branches of \<open>get_num_new_pages\<close> disagree: the decode branch counts
  no page, the general one counts one per request.
\<close>

lemma get_num_new_pages_page_size_one:
  "get_num_new_pages seq 1 None True = Inr 0 \<and>
   get_num_new_pages seq 1 (Some (map (\<lambda>s. s - 1) seq)) False = Inr (int (length seq))"
proof -
  have "sum_list (map2 (-) seq (map (\<lambda>s. s - 1) seq)) = int (length seq)"
    by (induction seq) simp_all
  then show ?thesis by (simp add: get_num_new_pages_def py_assert_def)
qed

end
