(* ===== verification/Npu_Allocator.thy ===== *)
theory Npu_Allocator
  imports Paged_Extend
begin

text \<open>
  The paged allocator of the NPU backend (\<open>hardware_backend/npu/allocator_npu.py\<close>) with the extension kernel of
  \<open>sgl_kernel_npu\<close>: its operations, and that they give what the generic kernels and the naive reference give.
\<close>

section \<open>Extension\<close>

text \<open>
  The kernel of \<open>sgl_kernel_npu\<close>: the loop over the full pages has a number of blocks that is fixed by the extension of
  the whole batch (\<open>max_num_extend_tokens\<close>), where the generic kernel counts the blocks of the request.
\<close>

definition NPU_BLOCK :: int where
  "NPU_BLOCK = 2048"

definition npu_alloc_extend_kernel ::
  "int \<Rightarrow> int \<Rightarrow> int list \<Rightarrow> int list \<Rightarrow> int list \<Rightarrow> int list \<Rightarrow> nat \<Rightarrow> int \<Rightarrow> nat \<Rightarrow> mem \<Rightarrow> mem" where
  "npu_alloc_extend_kernel u max_num_extend_tokens pre seq last_loc free bs_upper ps pid m =
     (let seq_lens = lanes_upto seq bs_upper pid u;
          pre_lens = lanes_upto pre bs_upper pid u;
          extend_lens = map2 (-) seq_lens pre_lens;
          seq_len = seq ! pid;
          pre_len = pre ! pid;
          extend_len = seq_len - pre_len;
          output_start_loc = sum_list extend_lens - extend_len;
          num_new_pages = map2 (\<lambda>s p. (s + ps - 1) div ps - (p + ps - 1) div ps) seq_lens pre_lens;
          num_page_start_loc_self = (seq_len + ps - 1) div ps - (pre_len + ps - 1) div ps;
          new_page_start_loc = sum_list num_new_pages - num_page_start_loc_self;
          last_loc_pid = last_loc ! pid;
          num_part1 = min seq_len ((pre_len + ps - 1) div ps * ps) - pre_len;
          m1 = tl_store m (map (\<lambda>j. (output_start_loc + int j, Some (last_loc_pid + 1 + int j), int j < num_part1)) [0..<nat ps])
      in if pre_len + num_part1 = seq_len then m1 else
         (let num_part2 = seq_len div ps * ps - (pre_len + ps - 1) div ps * ps;
              num_loop = (max_num_extend_tokens + NPU_BLOCK - 1) div NPU_BLOCK;
              m2 = tl_store_blocks m1 (output_start_loc + num_part1) (nat NPU_BLOCK) (nat num_loop)
                     (\<lambda>offset. map_option (\<lambda>page_start. page_start * ps + int offset mod ps)
                        (tl_load free (new_page_start_loc + int offset div ps)))
                     (\<lambda>offset. int offset < num_part2)
          in if pre_len + num_part1 + num_part2 = seq_len then m2 else
             (let num_part3 = seq_len - seq_len div ps * ps;
                  start_loc = tl_load free (new_page_start_loc + num_page_start_loc_self - 1)
              in tl_store m2 (map (\<lambda>j. (output_start_loc + num_part1 + num_part2 + int j,
                   map_option (\<lambda>g. g * ps + int j) start_loc, int j < num_part3)) [0..<nat ps]))))"

text \<open>The conversion to 32-bit integers.\<close>

definition to_int32 :: "int \<Rightarrow> int" where
  "to_int32 x = (x + 2 ^ 31) mod 2 ^ 32 - 2 ^ 31"

text \<open>\<open>order\<close> is the order in which the program instances run.\<close>

definition npu_alloc_extend ::
  "int \<Rightarrow> nat list \<Rightarrow> paged_alloc \<Rightarrow> int list \<Rightarrow> int list \<Rightarrow> int list \<Rightarrow> int \<Rightarrow> int option \<Rightarrow>
   (int option list option \<times> paged_alloc) py" where
  "npu_alloc_extend u order a prefix_lens seq_lens last_loc extend_num_tokens num_new_pages =
     py_assert (\<not> debug_mode a \<or> list_all2 (\<lambda>l p. (l + 1) mod page_size a = p mod page_size a) last_loc prefix_lens)
     (let ps = page_size a; roundup = ps - 1;
          n = (case num_new_pages of
                 None \<Rightarrow> sum_list (map2 (\<lambda>s p. (s + roundup) div ps - (p + roundup) div ps) seq_lens prefix_lens)
               | Some k \<Rightarrow> k);
          a1 = (if need_sort a \<and> n > int (length (free_pages a)) then merge_and_sort_free a else a)
      in if n > int (length (free_pages a1)) then Inr (None, a1)
         else if extend_num_tokens < 0 then Inl RuntimeError
         else py_bind
           (if n < 200
            then Inr (read_out (launch (npu_alloc_extend_kernel u (int (next_power_of_2 (nat extend_num_tokens))) prefix_lens seq_lens
                         last_loc (free_pages a1) (next_power_of_2 (length prefix_lens)) ps) order Map.empty) (nat extend_num_tokens))
            else py_bind (alloc_extend_naive prefix_lens seq_lens last_loc (free_pages a1) ps Map.empty)
                   (\<lambda>m. Inr (map (map_option to_int32) (read_out m (nat extend_num_tokens)))))
           (\<lambda>out_indices. py_assert (\<not> debug_mode a \<or> distinct out_indices)
             (Inr (Some (map (map_option to_int32) out_indices), a1\<lparr>free_pages := py_from (free_pages a1) n\<rparr>))))"

section \<open>Decode and free\<close>

text \<open>\<open>t[idx]\<close> for a tensor of indices.\<close>

definition py_gather :: "'a list \<Rightarrow> int list \<Rightarrow> 'a list py" where
  "py_gather t idx = py_for (\<lambda>i acc. py_bind (py_index t i) (\<lambda>x. Inr (acc @ [x]))) idx []"

definition npu_alloc_decode :: "paged_alloc \<Rightarrow> int list \<Rightarrow> int list \<Rightarrow> int list \<Rightarrow> (int list option \<times> paged_alloc) py" where
  "npu_alloc_decode a seq_lens seq_lens_cpu last_loc =
     py_assert (\<not> debug_mode a \<or> list_all2 (\<lambda>l s. (l + 2) mod page_size a = s mod page_size a) last_loc seq_lens)
     (py_bind (get_num_new_pages seq_lens_cpu (page_size a) None True) (\<lambda>n.
      let ps = page_size a;
          a1 = (if n > int (length (free_pages a)) then merge_and_sort_free a else a)
      in if n > int (length (free_pages a1)) then Inr (None, a1)
         else
          (let need_new_pages = map (\<lambda>s. if s mod ps = 1 then 1 else 0) seq_lens;
               end_new_pages = cumsum need_new_pages;
               start_new_pages = map2 (-) end_new_pages need_new_pages
           in py_bind
               (if n = 0 then Inr (map (\<lambda>l. l + 1) last_loc)
                else py_bind (py_gather (free_pages a1) start_new_pages) (\<lambda>pages.
                     Inr (map2 (+) (map2 (\<lambda>l w. (l + 1) * (1 - w)) last_loc need_new_pages)
                                   (map2 (\<lambda>g w. g * ps * w) pages need_new_pages))))
               (\<lambda>out_indices. py_assert (\<not> debug_mode a \<or> distinct out_indices)
                 (Inr (Some (map to_int32 out_indices), a1\<lparr>free_pages := py_from (free_pages a1) n\<rparr>))))))"

definition npu_free :: "paged_alloc \<Rightarrow> int list \<Rightarrow> paged_alloc py" where
  "npu_free a free_index =
     (if free_index = [] then Inr a
      else let a1 =
        (if is_not_in_free_group a then
           (let free_page_indices = sort (remdups (map (\<lambda>x. x div page_size a) free_index))
            in if need_sort a then a\<lparr>release_pages := free_page_indices @ release_pages a\<rparr>
               else a\<lparr>free_pages := free_page_indices @ free_pages a\<rparr>)
         else a\<lparr>free_group := free_group a @ [free_index]\<rparr>)
      in py_assert (\<not> debug_mode a \<or> distinct (free_pages a1)) (Inr a1))"

section \<open>The kernel agrees with the generic one\<close>

lemma store_blocks_cover:
  assumes "\<And>j. P j \<Longrightarrow> j < nb * B" "\<And>j. P j \<Longrightarrow> j < nb' * B'"
  shows "tl_store_blocks m base B nb f P = tl_store_blocks m base B' nb' f P"
proof
  fix a
  have "a < base + int (nb * B) \<longleftrightarrow> a < base + int (nb' * B')" if "base \<le> a" "P (nat (a - base))"
    using assms(1,2) [OF that(2)] that(1) by linarith
  then show "tl_store_blocks m base B nb f P a = tl_store_blocks m base B' nb' f P a" by (auto simp: mem_simps)
qed

lemma in_some_block: "0 < B \<Longrightarrow> n \<le> x \<Longrightarrow> int j < n \<Longrightarrow> j < nat ((x + B - 1) div B) * nat B"
  using ceil_blocks_cover [of "nat B" x] by (simp del: of_nat_mult)

lemma npu_kernel_eq:
  assumes "seq ! pid - pre ! pid \<le> max_new" "0 < ps"
  shows "npu_alloc_extend_kernel u max_new pre seq ll free n ps pid m = alloc_extend_kernel u pre seq ll free n ps pid m"
proof -
  let ?k = "seq ! pid div ps * ps - (pre ! pid + ps - 1) div ps * ps"
  have "?k \<le> seq ! pid - pre ! pid"
    using ceil_page_bounds(1) [OF assms(2), of "pre ! pid"] div_mult_bounds(1) [OF assms(2), of "seq ! pid"] by (simp add: ceil_page_def)
  then have k: "?k \<le> max_new" using assms(1) by simp
  have blocks: "tl_store_blocks m base (nat NPU_BLOCK) (nat ((max_new + NPU_BLOCK - 1) div NPU_BLOCK)) f (\<lambda>j. int j < ?k) =
      tl_store_blocks m base (nat BLOCK_EXTEND) (nat ((?k + BLOCK_EXTEND - 1) div BLOCK_EXTEND)) f (\<lambda>j. int j < ?k)" for m base f
  proof (rule store_blocks_cover)
    have b: "0 < NPU_BLOCK" "0 < BLOCK_EXTEND" by (simp_all add: NPU_BLOCK_def BLOCK_EXTEND_def)
    show "j < nat ((max_new + NPU_BLOCK - 1) div NPU_BLOCK) * nat NPU_BLOCK" if "int j < ?k" for j
      by (rule in_some_block [OF b(1) k that])
    show "j < nat ((?k + BLOCK_EXTEND - 1) div BLOCK_EXTEND) * nat BLOCK_EXTEND" if "int j < ?k" for j
      by (rule in_some_block [OF b(2) order_refl that])
  qed
  show ?thesis unfolding npu_alloc_extend_kernel_def alloc_extend_kernel_def Let_def blocks ..
qed

lemma launch_cong: "(\<And>p m. p \<in> set pids \<Longrightarrow> k p m = k' p m) \<Longrightarrow> launch k pids m = launch k' pids m"
  by (induction pids arbitrary: m rule: rev_induct) simp_all

lemma to_int32_idem [simp]: "to_int32 (to_int32 x) = to_int32 x"
  by (simp add: to_int32_def)

lemma to_int32_id: "- (2 ^ 31) \<le> x \<Longrightarrow> x < 2 ^ 31 \<Longrightarrow> to_int32 x = x"
  by (simp add: to_int32_def)

lemma npu_free_eq: "npu_free = paged_free"
  by (simp add: fun_eq_iff npu_free_def paged_free_def)

section \<open>Properties\<close>

text \<open>
  C5. The extension of the NPU allocator: it gives \<open>None\<close> exactly when the free pages (merged with the released ones if
  it sorts) are too few. Otherwise its output is what the naive reference writes over these pages, converted to 32 bits:
  below 200 new pages, where the NPU kernel runs (in any order of its program instances), as well as from 200 on,
  where the reference itself runs; and the pages used leave the allocator.
\<close>

theorem npu_alloc_extend_eq_naive:
  assumes len: "length seq = length pre" "length ll = length pre" and ps: "0 < page_size a" and dbg: "\<not> debug_mode a"
    and le: "\<forall>i < length pre. 0 \<le> pre ! i \<and> pre ! i \<le> seq ! i" and n: "n = sum_list (map2 (-) seq pre)"
    and order: "distinct order" "set order = {0..<length pre}"
    and N: "N = sum_list (map2 (\<lambda>s p. ceil_page (page_size a) s - ceil_page (page_size a) p) seq pre)"
    and a1: "a1 = (if need_sort a \<and> N > int (length (free_pages a)) then merge_and_sort_free a else a)"
  shows "if N > int (length (free_pages a1)) then npu_alloc_extend u order a pre seq ll n None = Inr (None, a1)
    else \<exists>m. alloc_extend_naive pre seq ll (free_pages a1) (page_size a) Map.empty = Inr m \<and>
      npu_alloc_extend u order a pre seq ll n None =
        Inr (Some (map (map_option to_int32) (read_out m (nat n))), a1\<lparr>free_pages := drop (nat N) (free_pages a1)\<rparr>)"
proof (cases "N > int (length (free_pages a1))")
  case True
  have N': "sum_list (map2 (\<lambda>s p. (s + (page_size a - 1)) div page_size a - (p + (page_size a - 1)) div page_size a) seq pre) = N"
    unfolding N by (simp add: ceil_page_def add_diff_eq)
  show ?thesis using True dbg unfolding npu_alloc_extend_def Let_def option.case N' a1 [symmetric] by (simp add: py_assert_def)
next
  case False
  let ?ps = "page_size a"
  have N': "sum_list (map2 (\<lambda>s p. (s + (page_size a - 1)) div page_size a - (p + (page_size a - 1)) div page_size a) seq pre) = N"
    unfolding N by (simp add: ceil_page_def add_diff_eq)
  have ok: "extend_ok ?ps pre seq ll (free_pages a1)" using ps len le False N by (simp add: extend_ok_def row_start_def)
  have nn: "0 \<le> seq ! k - pre ! k" if "k < length seq" for k using le that len by simp
  note mono = row_start_mono [where f = "(-)", OF nn len(1) [symmetric]]
  have n0: "n = out_row seq pre (length seq)" using n len by (simp add: row_start_def)
  have part: "seq ! k - pre ! k \<le> int (next_power_of_2 (nat n))" if "k < length seq" for k
  proof -
    have "seq ! k - pre ! k = out_row seq pre (Suc k) - out_row seq pre k" using row_start_Suc [OF that len(1) [symmetric], of "(-)"] by simp
    also have "\<dots> \<le> n"
    proof -
      have "0 \<le> out_row seq pre k" using mono [of 0 k] that by (simp add: row_start_def)
      moreover have "out_row seq pre (Suc k) \<le> n" unfolding n0 using mono [of "Suc k" "length seq"] that by simp
      ultimately show ?thesis by linarith
    qed
    also have "\<dots> \<le> int (next_power_of_2 (nat n))" using next_power_of_2_ge [of "nat n"] by linarith
    finally show ?thesis .
  qed
  have npos: "0 \<le> n" using mono [of 0 "length seq"] n0 by (simp add: row_start_def)
  have Npos: "0 \<le> N" using page_row_nonneg [OF ps len(1) [symmetric], of "length seq"] le len N by (simp add: row_start_def)
  let ?K = "alloc_extend_kernel u pre seq ll (free_pages a1) (next_power_of_2 (length pre)) ?ps"
  let ?m = "launch ?K [0..<length pre] Map.empty"
  have naive: "alloc_extend_naive pre seq ll (free_pages a1) ?ps Map.empty = Inr ?m"
    unfolding alloc_extend_naive_def using naive_launch [OF ok, of "length pre"] len by simp
  have "launch (npu_alloc_extend_kernel u (int (next_power_of_2 (nat n))) pre seq ll (free_pages a1) (next_power_of_2 (length pre)) ?ps) order Map.empty =
      launch ?K order Map.empty"
    using npu_kernel_eq [OF part ps] order(2) len by (intro launch_cong) simp
  also have "\<dots> = ?m" using extend_launch_order [OF ok order] by simp
  finally have kern: "launch (npu_alloc_extend_kernel u (int (next_power_of_2 (nat n))) pre seq ll (free_pages a1) (next_power_of_2 (length pre)) ?ps) order Map.empty = ?m" .
  have idem: "map (map_option to_int32) (map (map_option to_int32) xs) = map (map_option to_int32) xs" for xs
    by (simp add: option.map_comp comp_def)
  have "npu_alloc_extend u order a pre seq ll n None =
      Inr (Some (map (map_option to_int32) (read_out ?m (nat n))), a1\<lparr>free_pages := drop (nat N) (free_pages a1)\<rparr>)"
    using False dbg npos Npos unfolding npu_alloc_extend_def Let_def option.case N' a1 [symmetric] kern naive
    by (cases "N < 200") (auto simp: py_assert_def idem slice_simps simp del: map_map)
  then show ?thesis using naive False by auto
qed

theorem npu_alloc_extend_eq_naive_witness:
  "\<exists>m. alloc_extend_naive [3, 0] [9, 2] [6, -1] [2, 3, 4, 5, 6, 7, 8] 4 Map.empty = Inr m \<and>
     npu_alloc_extend 0 [1, 0] ((paged_init 32 4 False False)\<lparr>free_pages := [2, 3, 4, 5, 6, 7, 8]\<rparr>) [3, 0] [9, 2] [6, -1] 8 None =
       Inr (Some (map (map_option to_int32) (read_out m 8)),
            (paged_init 32 4 False False)\<lparr>free_pages := drop 3 [2, 3, 4, 5, 6, 7, 8]\<rparr>)"
proof -
  let ?a = "(paged_init 32 4 False False)\<lparr>free_pages := [2, 3, 4, 5, 6, 7, 8]\<rparr>"
  have f: "page_size ?a = 4" "\<not> debug_mode ?a" "need_sort ?a = False" "free_pages ?a = [2, 3, 4, 5, 6, 7, 8]"
    by (simp_all add: paged_init_def paged_clear_def)
  have a1: "?a = (if need_sort ?a \<and> (3::int) > int (length (free_pages ?a)) then merge_and_sort_free ?a else ?a)" by simp
  have le: "\<forall>i < length [3::int, 0]. 0 \<le> [3::int, 0] ! i \<and> [3::int, 0] ! i \<le> [9, 2] ! i" by (simp add: less_Suc_eq)
  have N: "3 = sum_list (map2 (\<lambda>s p. ceil_page (page_size ?a) s - ceil_page (page_size ?a) p) [9, 2] [3, 0])"
    unfolding f by (simp add: ceil_page_def)
  have o: "distinct [1::nat, 0]" "set [1::nat, 0] = {0..<length [3::int, 0]}" by auto
  have ps: "0 < page_size ?a" unfolding f by simp
  have l: "length [9::int, 2] = length [3::int, 0]" "length [6::int, -1] = length [3::int, 0]" "8 = sum_list (map2 (-) [9::int, 2] [3, 0])" by simp_all
  from npu_alloc_extend_eq_naive [OF l(1,2) ps f(2) le l(3) o N a1, of 0]
  show ?thesis unfolding f by simp
qed

lemma py_gather_eq:
  assumes "\<forall>i \<in> set idx. 0 \<le> i"
  shows "py_gather t idx = (if \<forall>i \<in> set idx. i < int (length t) then Inr (map (\<lambda>i. t ! nat i) idx) else Inl IndexError)"
proof -
  have "py_for (\<lambda>i acc. py_bind (py_index t i) (\<lambda>x. Inr (acc @ [x]))) idx acc =
      (if \<forall>i \<in> set idx. i < int (length t) then Inr (acc @ map (\<lambda>i. t ! nat i) idx) else Inl IndexError)" for acc
    using assms
  proof (induction idx arbitrary: acc)
    case (Cons i idx)
    show ?case
    proof (cases "i < int (length t)")
      case True
      then show ?thesis using Cons by (simp add: py_index_int)
    qed (use Cons.prems in \<open>simp add: py_index_def\<close>)
  qed simp
  then show ?thesis by (simp add: py_gather_def)
qed

lemma starts:
  fixes need :: "int list"
  assumes "\<forall>w \<in> set need. w = 0 \<or> w = 1"
  shows "map2 (-) (cumsum need) need = map (\<lambda>i. sum_list (take i need)) [0..<length need]"
    "0 \<le> sum_list (take i need)" "sum_list (take i need) \<le> sum_list need"
    "need \<noteq> [] \<Longrightarrow> (\<exists>i < length need. sum_list (take i need) = sum_list need) \<longleftrightarrow> last need = 0"
proof -
  show "map2 (-) (cumsum need) need = map (\<lambda>i. sum_list (take i need)) [0..<length need]"
    by (rule nth_equalityI) (auto simp: cumsum_def take_Suc_conv_app_nth)
  have nn: "0 \<le> sum_list xs" if "set xs \<subseteq> set need" for xs using that assms by (induction xs) fastforce+
  have split: "sum_list need = sum_list (take i need) + sum_list (drop i need)" for i by (metis append_take_drop_id sum_list_append)
  show "0 \<le> sum_list (take i need)" by (rule nn) (rule set_take_subset)
  show "sum_list (take i need) \<le> sum_list need" using split [of i] nn [of "drop i need"] set_drop_subset [of i need] by simp
  assume ne: "need \<noteq> []"
  show "(\<exists>i < length need. sum_list (take i need) = sum_list need) \<longleftrightarrow> last need = 0"
  proof
    assume "\<exists>i < length need. sum_list (take i need) = sum_list need"
    then obtain i where i: "i < length need" "sum_list (take i need) = sum_list need" by blast
    then have i: "i < length need" "sum_list (drop i need) = 0" using split [of i] by simp_all
    have "0 \<le> sum_list (butlast (drop i need))" by (rule nn) (meson in_set_butlastD in_set_dropD subsetI)
    moreover have "sum_list (drop i need) = sum_list (butlast (drop i need)) + last need"
      using i(1) append_butlast_last_id [of "drop i need"] by (metis drop_eq_Nil last_drop not_less sum_list_append sum_list_simps(2) add.right_neutral sum_list.Nil sum_list.Cons)
    ultimately show "last need = 0" using i(2) assms last_in_set [OF ne] by fastforce
  next
    assume "last need = 0"
    then have "sum_list (butlast need) = sum_list need" using append_butlast_last_id [OF ne]
      by (metis add.right_neutral sum_list.Cons sum_list.Nil sum_list_append)
    then show "\<exists>i < length need. sum_list (take i need) = sum_list need" using ne by (intro exI [of _ "length need - 1"]) (simp add: butlast_conv_take)
  qed
qed

text \<open>
  C6. The decode step of the NPU allocator, for pages of at least two slots. With \<open>n\<close> requests that start a new page: it gives
  \<open>None\<close> exactly when the free pages, merged with the released ones, are fewer than \<open>n\<close>; otherwise its output is that
  of the generic decode kernel, converted to 32 bits, and the pages used leave the allocator. Except in one case: when
  exactly \<open>n\<close> pages are free and the last request needs none, the vectorised code reads the page one past
  the end of the free list for it and raises.
\<close>

theorem npu_alloc_decode_eq_kernel:
  assumes ps: "2 \<le> page_size a" and dbg: "\<not> debug_mode a" and len: "length ll = length seq"
    and need: "need = map (\<lambda>s. if s mod page_size a = 1 then 1 else 0) seq"
    and a1: "a1 = (if sum_list need > int (length (free_pages a)) then merge_and_sort_free a else a)"
    and pids: "distinct pids" "set pids = {0..<length seq}"
  shows "if sum_list need > int (length (free_pages a1)) then npu_alloc_decode a seq seq ll = Inr (None, a1)
    else if 0 < sum_list need \<and> sum_list need = int (length (free_pages a1)) \<and> last need = 0
    then npu_alloc_decode a seq seq ll = Inl IndexError
    else \<exists>out. read_out (launch (alloc_decode_kernel u seq ll (free_pages a1) (next_power_of_2 (length seq)) (page_size a)) pids Map.empty) (length seq) = map Some out \<and>
      npu_alloc_decode a seq seq ll = Inr (Some (map to_int32 out), a1\<lparr>free_pages := drop (nat (sum_list need)) (free_pages a1)\<rparr>)"
proof -
  let ?ps = "page_size a" and ?N = "sum_list need" and ?free = "free_pages a1" and ?bs = "length seq"
  have w01: "\<forall>w \<in> set need. w = 0 \<or> w = 1" using need by auto
  note st = starts [OF w01]
  have ln: "length need = ?bs" using need by simp
  have unf: "npu_alloc_decode a seq seq ll =
     (if ?N > int (length ?free) then Inr (None, a1)
      else py_bind (if ?N = 0 then Inr (map (\<lambda>l. l + 1) ll)
            else py_bind (py_gather ?free (map2 (-) (cumsum need) need)) (\<lambda>pages.
                 Inr (map2 (+) (map2 (\<lambda>l w. (l + 1) * (1 - w)) ll need) (map2 (\<lambda>g w. g * ?ps * w) pages need))))
        (\<lambda>out. Inr (Some (map to_int32 out), a1\<lparr>free_pages := drop (nat ?N) ?free\<rparr>)))"
    using dbg st(2) [of "length need"] unfolding npu_alloc_decode_def get_num_new_pages_def py_assert_def
    by (simp add: Let_def need [symmetric] a1 [symmetric] slice_simps)
  have diff: "map2 (\<lambda>s p. ceil_page ?ps s - ceil_page ?ps p) seq (map (\<lambda>s. s - 1) seq) = need"
    using ceil_page_step [of ?ps] mod_pred_zero [OF ps] ps unfolding need by (intro nth_equalityI) auto
  have kern: "launch (alloc_decode_kernel u seq ll ?free (next_power_of_2 ?bs) ?ps) pids Map.empty (int i) =
      (if need ! i = 0 then Some (ll ! i + 1) else map_option (\<lambda>page. page * ?ps) (tl_load ?free (sum_list (take i need))))"
    if i: "i < ?bs" for i
  proof -
    have ps0: "0 < ?ps" using ps by simp
    have "ceil_page ?ps (seq ! i) - ceil_page ?ps (seq ! i - 1) = need ! i" using arg_cong [OF diff, of "\<lambda>xs. xs ! i"] i by simp
    then show ?thesis using decode_launch [OF ps0 next_power_of_2_ge pids i] slot_of_one [OF ps0] unfolding diff by simp
  qed
  show ?thesis
  proof (cases "?N > int (length ?free)")
    case True
    then show ?thesis unfolding unf by simp
  next
    case le: False
    have key: "read_out (launch (alloc_decode_kernel u seq ll ?free (next_power_of_2 ?bs) ?ps) pids Map.empty) ?bs = map Some out"
      if "length out = ?bs" "\<And>i. i < ?bs \<Longrightarrow> need ! i = 0 \<Longrightarrow> out ! i = ll ! i + 1"
        "\<And>i. i < ?bs \<Longrightarrow> need ! i = 1 \<Longrightarrow> sum_list (take i need) < int (length ?free) \<and> out ! i = ?free ! nat (sum_list (take i need)) * ?ps" for out
      using that w01 kern st(2) nth_mem [of _ need] ln
      by (intro nth_equalityI) (fastforce simp: read_out_def tl_load_def)+
    have in01: "need ! i = 0 \<or> need ! i = 1" if "i < ?bs" for i using w01 that ln nth_mem [of i need] by auto
    show ?thesis
    proof (cases "?N = 0")
      case True
      have z: "need ! i = 0" if "i < ?bs" for i
      proof -
        have "sum_list (take (Suc i) need) = sum_list (take i need) + need ! i" using that ln by (simp add: take_Suc_conv_app_nth)
        then show ?thesis using st(2) [of i] st(3) [of "Suc i"] True in01 [OF that] by linarith
      qed
      have "read_out (launch (alloc_decode_kernel u seq ll ?free (next_power_of_2 ?bs) ?ps) pids Map.empty) ?bs = map Some (map (\<lambda>l. l + 1) ll)"
        using z len by (intro key) auto
      then show ?thesis unfolding unf using True le by (auto intro!: exI [of _ "map (\<lambda>l. l + 1) ll"])
    next
      case nz: False
      then have pos: "0 < ?N" using st(2) [of "length need"] by simp
      have ne: "need \<noteq> []" using nz by auto
      have g: "py_gather ?free (map2 (-) (cumsum need) need) =
          (if ?N = int (length ?free) \<and> last need = 0 then Inl IndexError
           else Inr (map (\<lambda>i. ?free ! nat (sum_list (take i need))) [0..<?bs]))"
      proof -
        have "(\<forall>i \<in> set (map (\<lambda>i. sum_list (take i need)) [0..<length need]). i < int (length ?free)) \<longleftrightarrow>
            \<not> (?N = int (length ?free) \<and> last need = 0)"
        proof -
          have "\<not> sum_list (take i need) < int (length ?free) \<longleftrightarrow> sum_list (take i need) = ?N \<and> ?N = int (length ?free)" for i
            using st(3) [of i] le by linarith
          then have "(\<exists>i < length need. \<not> sum_list (take i need) < int (length ?free)) \<longleftrightarrow> ?N = int (length ?free) \<and> last need = 0"
            using st(4) [OF ne] by (metis (full_types))
          then show ?thesis by (auto simp del: not_less)
        qed
        then show ?thesis using py_gather_eq [of "map (\<lambda>i. sum_list (take i need)) [0..<length need]" ?free] st(2) ln
          unfolding st(1) by (auto simp: comp_def)
      qed
      show ?thesis
      proof (cases "?N = int (length ?free) \<and> last need = 0")
        case True
        then show ?thesis unfolding unf g using le pos by auto
      next
        case False
        let ?out = "map2 (+) (map2 (\<lambda>l w. (l + 1) * (1 - w)) ll need) (map2 (\<lambda>g w. g * ?ps * w) (map (\<lambda>i. ?free ! nat (sum_list (take i need))) [0..<?bs]) need)"
        have "read_out (launch (alloc_decode_kernel u seq ll ?free (next_power_of_2 ?bs) ?ps) pids Map.empty) ?bs = map Some ?out"
        proof (rule key)
          show "sum_list (take i need) < int (length ?free) \<and> ?out ! i = ?free ! nat (sum_list (take i need)) * ?ps"
            if i: "i < ?bs" "need ! i = 1" for i
          proof -
            have "sum_list (take (Suc i) need) = sum_list (take i need) + 1" using i ln by (simp add: take_Suc_conv_app_nth)
            then show ?thesis using st(3) [of "Suc i"] le i ln len by simp
          qed
        qed (use ln len in auto)
        then show ?thesis unfolding unf g using le False pos by (auto intro!: exI [of _ ?out])
      qed
    qed
  qed
qed

theorem npu_alloc_decode_eq_kernel_witness:
  "npu_alloc_decode ((paged_init 32 4 False False)\<lparr>free_pages := [5]\<rparr>) [9, 7] [9, 7] [11, 22] = Inl IndexError \<and>
   (\<exists>out. read_out (launch (alloc_decode_kernel 0 [7, 9] [22, 11] [5] (next_power_of_2 2) 4) [0, 1] Map.empty) 2 = map Some out \<and>
     npu_alloc_decode ((paged_init 32 4 False False)\<lparr>free_pages := [5]\<rparr>) [7, 9] [7, 9] [22, 11] =
       Inr (Some (map to_int32 out), (paged_init 32 4 False False)\<lparr>free_pages := []\<rparr>))"
proof -
  let ?a = "(paged_init 32 4 False False)\<lparr>free_pages := [5]\<rparr>"
  have f: "page_size ?a = 4" "\<not> debug_mode ?a" "free_pages ?a = [5]" by (simp_all add: paged_init_def paged_clear_def)
  have ps: "2 \<le> page_size ?a" unfolding f by simp
  have n1: "[1, 0] = map (\<lambda>s. if s mod page_size ?a = 1 then 1 else 0) [9, 7]" "[0, 1] = map (\<lambda>s. if s mod page_size ?a = 1 then 1 else 0) [7, 9]"
    unfolding f by simp_all
  have a1: "?a = (if sum_list [1, 0] > int (length (free_pages ?a)) then merge_and_sort_free ?a else ?a)"
    "?a = (if sum_list [0, 1] > int (length (free_pages ?a)) then merge_and_sort_free ?a else ?a)" unfolding f by simp_all
  have p: "distinct [0::nat, 1]" "set [0::nat, 1] = {0..<length [9::int, 7]}" "set [0::nat, 1] = {0..<length [7::int, 9]}" by auto
  have l: "length [11::int, 22] = length [9::int, 7]" "length [22::int, 11] = length [7::int, 9]" by simp_all
  have "npu_alloc_decode ?a [9, 7] [9, 7] [11, 22] = Inl IndexError"
    using npu_alloc_decode_eq_kernel [OF ps f(2) l(1) n1(1) a1(1) p(1,2), of 0] unfolding f by simp
  moreover have "\<exists>out. read_out (launch (alloc_decode_kernel 0 [7, 9] [22, 11] [5] (next_power_of_2 2) 4) [0, 1] Map.empty) 2 = map Some out \<and>
     npu_alloc_decode ?a [7, 9] [7, 9] [22, 11] = Inr (Some (map to_int32 out), (paged_init 32 4 False False)\<lparr>free_pages := []\<rparr>)"
    using npu_alloc_decode_eq_kernel [OF ps f(2) l(2) n1(2) a1(2) p(1,3), of 0] unfolding f by (simp add: numeral_eq_Suc)
  ultimately show ?thesis ..
qed

end
