(* ===== verification/Spec_Tree.thy ===== *)
theory Spec_Tree
  imports Kv_Allocator
begin

text \<open>
  The draft tree of speculative decoding on NPU: \<open>build_tree_efficient_native\<close> and
  \<open>verify_tree_greedy_native\<close> of \<open>sgl_kernel_npu/speculative.py\<close>, and the Triton kernel of
  \<open>sgl_kernel_npu/sample/verify_tree_greedy.py\<close>, which the NPU build uses for verification. A
  tensor of two dimensions is a list of rows; stores and reads outside a tensor raise.
\<close>

section \<open>Building the tree\<close>

datatype tree_mask_mode = FULL_MASK | QLEN_ONLY | QLEN_ONLY_BITPACKING

text \<open>
  The two scans for the selected position of a token: the scan of the root branch returns the
  position after the match, the one of the other nodes the position itself; both return
  \<open>pos + k\<close> when \<open>k\<close> rounds find nothing.
\<close>

fun scan_parent :: "int list \<Rightarrow> int \<Rightarrow> nat \<Rightarrow> nat \<Rightarrow> nat py" where
  "scan_parent sel tok 0 pos = Inr pos"
| "scan_parent sel tok (Suc k) pos =
     py_bind (py_index sel (int pos))
       (\<lambda>v. if v = tok then Inr (Suc pos) else scan_parent sel tok k (Suc pos))"

fun scan_position :: "int list \<Rightarrow> int \<Rightarrow> nat \<Rightarrow> nat \<Rightarrow> nat py" where
  "scan_position sel tok 0 pos = Inr pos"
| "scan_position sel tok (Suc k) pos =
     py_bind (py_index sel (int pos))
       (\<lambda>v. if v = tok then Inr pos else scan_position sel tok k (Suc pos))"

text \<open>One round of the loop of the root branch: token \<open>i\<close> becomes the first child of its parent.\<close>

definition link_token ::
  "nat \<Rightarrow> int list \<Rightarrow> int list \<Rightarrow> int list \<Rightarrow> nat \<Rightarrow> int list \<times> int list \<Rightarrow> (int list \<times> int list) py" where
  "link_token n parents sel ptb i st =
     (case st of (next_token, next_sibling) \<Rightarrow>
      py_bind (py_index ptb (int i - 1)) (\<lambda>parent_tb_idx.
      py_bind (if parent_tb_idx > 0
               then py_bind (py_index parents parent_tb_idx) (\<lambda>tok. scan_parent sel tok n 0)
               else Inr 0) (\<lambda>parent_position.
      if parent_position = n then Inr (next_token, next_sibling)
      else py_bind (py_index next_token (int parent_position)) (\<lambda>old.
           py_bind (if old \<noteq> -1 then py_set next_sibling (int i) old else Inr next_sibling) (\<lambda>ns.
           py_bind (py_set next_token (int parent_position) (int i)) (\<lambda>nt.
           Inr (nt, ns)))))))"

text \<open>Assigning one value to the elements of a flat mask at a list of indices.\<close>

definition mask_fill :: "bool list \<Rightarrow> int list \<Rightarrow> bool \<Rightarrow> bool list py" where
  "mask_fill m idxs v = py_for (\<lambda>i m. py_set m i v) idxs m"

text \<open>
  The \<open>while True\<close> loop of a token below the root: its steps to the root. \<open>tti\<close> are the flattened
  \<open>token_tree_indices\<close>. The result is the number of steps and the mask.
\<close>

fun walk_up ::
  "nat \<Rightarrow> nat \<Rightarrow> int \<Rightarrow> int list \<Rightarrow> int list \<Rightarrow> int list \<Rightarrow> int list \<Rightarrow> nat \<Rightarrow> int \<Rightarrow> bool list \<Rightarrow>
   (int \<times> bool list) py" where
  "walk_up 0 n topk parents sel ptb tti cur position m = Inl OutOfFuel"
| "walk_up (Suc fuel) n topk parents sel ptb tti cur position m =
     py_bind (if cur \<ge> n
              then py_bind (mask_fill m (map (\<lambda>i. i + int cur) tti) True) (\<lambda>m'.
                   py_bind (py_index sel (int cur)) (\<lambda>s. Inr (s div topk, m')))
              else py_bind (py_index ptb (int cur)) (\<lambda>p. Inr (p, m)))
     (\<lambda>(parent_tb_idx, m').
        if parent_tb_idx = 0 then Inr (position + 1, m')
        else py_bind (py_index parents parent_tb_idx) (\<lambda>token_idx.
             py_bind (scan_position sel token_idx n 0) (\<lambda>cur'.
             walk_up fuel n topk parents sel ptb tti cur' (position + 1) m')))"

record tree_bufs =
  positions :: "int list"
  retrive_index :: "int list list"
  retrive_next_token :: "int list list"
  retrive_next_sibling :: "int list list"
  tree_mask :: "bool list"

definition index_rows :: "nat \<Rightarrow> nat \<Rightarrow> int list list" where
  "index_rows bs n = map (\<lambda>b. map (\<lambda>t. int (b * n + t)) [0..<n]) [0..<bs]"

definition tree_token ::
  "nat \<Rightarrow> nat \<Rightarrow> int \<Rightarrow> int list list \<Rightarrow> int list list \<Rightarrow> int list list \<Rightarrow> int list \<Rightarrow> nat \<Rightarrow> nat \<Rightarrow>
   tree_bufs \<Rightarrow> tree_bufs py" where
  "tree_token fuel n topk parent_list selected_index ptbs tti bid tid B =
     py_bind (py_index ptbs (int bid)) (\<lambda>ptb.
     py_bind (py_index selected_index (int bid)) (\<lambda>sel.
     py_bind (py_index parent_list (int bid)) (\<lambda>parents.
     if tid = 0
     then py_bind (py_index (retrive_next_token B) (int bid)) (\<lambda>nt.
          py_bind (py_index (retrive_next_sibling B) (int bid)) (\<lambda>ns.
          py_bind (py_for (link_token n parents sel ptb) (rev [1..<n]) (nt, ns)) (\<lambda>(nt', ns').
          Inr (B\<lparr>retrive_next_token := (retrive_next_token B)[bid := nt'],
                 retrive_next_sibling := (retrive_next_sibling B)[bid := ns']\<rparr>))))
     else py_bind (walk_up fuel n topk parents sel ptb tti (tid - 1) 0 (tree_mask B)) (\<lambda>(position, m).
          py_bind (py_index (positions B) (int (bid * n + tid))) (\<lambda>old.
          py_bind (py_set (positions B) (int (bid * n + tid)) (old + position)) (\<lambda>ps.
          Inr (B\<lparr>positions := ps, tree_mask := m\<rparr>)))))))"

definition token_tree_index :: "tree_mask_mode \<Rightarrow> nat \<Rightarrow> int list \<Rightarrow> nat \<Rightarrow> nat \<Rightarrow> int" where
  "token_tree_index mode n seq_len b t =
     (if mode = FULL_MASK
      then (let cum_seq_len = 0 # cumsum (map (\<lambda>s. s * int n) seq_len);
                seq_tree_idx = int n * int n * int b + cum_seq_len ! b;
                token_tree_base = seq_tree_idx + (seq_len ! b + int n) * int t
            in token_tree_base + seq_len ! b + 1)
      else int b * (int n)\<^sup>2 + int t * int n + 1)"

definition token_tree_indices :: "tree_mask_mode \<Rightarrow> nat \<Rightarrow> nat \<Rightarrow> int list \<Rightarrow> int list" where
  "token_tree_indices mode bs n seq_len =
     concat (map (\<lambda>b. map (token_tree_index mode n seq_len b) [0..<n]) [0..<bs])"

definition build_tree_efficient_native ::
  "nat \<Rightarrow> int list list \<Rightarrow> int list list \<Rightarrow> int list \<Rightarrow> bool list \<Rightarrow> int list list \<Rightarrow> int list list \<Rightarrow>
   int list list \<Rightarrow> int \<Rightarrow> nat \<Rightarrow> tree_mask_mode \<Rightarrow> nat \<Rightarrow> tree_bufs py" where
  "build_tree_efficient_native fuel parent_list selected_index seq_len mask0 ri nt ns topk n mode bs =
     (let repeated = concat (map (\<lambda>s. replicate n s) seq_len)
      in if n = 2 \<and> topk = 1 \<and> mode = FULL_MASK
      then Inr \<lparr>positions = concat (map (\<lambda>s. map (\<lambda>t. s + int t) [0..<n]) seq_len),
                retrive_index = index_rows bs n,
                retrive_next_token = map (\<lambda>r. r[0 := 1, 1 := -1]) nt,
                retrive_next_sibling = ns, tree_mask = mask0\<rparr>
      else if topk = 0 then Inl RuntimeError
      else (let tti = token_tree_indices mode bs n seq_len;
                below = concat (map (\<lambda>i. map (\<lambda>j. i + int j) [0..<n - 1]) tti)
        in py_bind (mask_fill mask0 (map (\<lambda>i. i - 1) tti) True) (\<lambda>m1.
           py_bind (mask_fill m1 below False) (\<lambda>m2.
           py_bind (mask_fill m2 below True) (\<lambda>m3.
           py_for (\<lambda>bid. py_for (tree_token fuel n topk parent_list selected_index
                              (map (map (\<lambda>s. s div topk)) selected_index) tti bid) [0..<n])
             [0..<bs]
             \<lparr>positions = repeated, retrive_index = index_rows bs n, retrive_next_token = nt,
              retrive_next_sibling = ns, tree_mask = m3\<rparr>)))))"

section \<open>Verifying the tree\<close>

text \<open>
  The inner \<open>while\<close> loop: the first node from \<open>cur\<close> along the siblings whose token is the target
  token of the last accepted node.
\<close>

fun find_sibling :: "nat \<Rightarrow> int list \<Rightarrow> int list \<Rightarrow> int list \<Rightarrow> int \<Rightarrow> int \<Rightarrow> int py" where
  "find_sibling 0 cand next_sibling target last_rel cur = Inl OutOfFuel"
| "find_sibling (Suc fuel) cand next_sibling target last_rel cur =
     (if cur = -1 then Inr (-1)
      else py_bind (py_index cand cur) (\<lambda>draft_token.
           py_bind (py_index target last_rel) (\<lambda>target_token.
           if draft_token = target_token then Inr cur
           else py_bind (py_index next_sibling cur)
                  (find_sibling fuel cand next_sibling target last_rel))))"

record verify_state =
  predicts :: "int list"
  accept_row :: "int list"
  last_accepted_idx :: int
  num_accepted :: nat
  cur_node :: int

text \<open>The \<open>for\<close> loop of one request; \<open>k\<close> is the number of rounds left.\<close>

fun verify_rounds ::
  "nat \<Rightarrow> nat \<Rightarrow> nat \<Rightarrow> int list \<Rightarrow> int list \<Rightarrow> int list \<Rightarrow> int list \<Rightarrow> int list \<Rightarrow> nat \<Rightarrow>
   verify_state \<Rightarrow> verify_state py" where
  "verify_rounds fuel n bx cand ri nt ns target 0 S = Inr S"
| "verify_rounds fuel n bx cand ri nt ns target (Suc k) S =
     py_bind (py_index nt (cur_node S)) (\<lambda>first_child.
     py_bind (find_sibling fuel cand ns target (last_accepted_idx S - int n * int bx) first_child) (\<lambda>c.
     if c = -1 then Inr (S\<lparr>cur_node := -1\<rparr>)
     else py_bind (py_index ri c) (\<lambda>draft_idx.
          py_bind (py_index target (last_accepted_idx S - int n * int bx)) (\<lambda>target_token.
          py_bind (py_set (predicts S) (last_accepted_idx S) target_token) (\<lambda>pr.
          py_bind (py_set (accept_row S) (int (num_accepted S) + 1) draft_idx) (\<lambda>row.
          verify_rounds fuel n bx cand ri nt ns target k
            \<lparr>predicts = pr, accept_row = row, last_accepted_idx = draft_idx,
             num_accepted = num_accepted S + 1, cur_node = c\<rparr>))))))"

record verify_out =
  out_predicts :: "int list"
  out_accept_index :: "int list list"
  out_accept_num :: "int list"

definition verify_request ::
  "nat \<Rightarrow> nat \<Rightarrow> int list list \<Rightarrow> int list list \<Rightarrow> int list list \<Rightarrow> int list list \<Rightarrow> int list list \<Rightarrow> nat \<Rightarrow>
   verify_out \<Rightarrow> verify_out py" where
  "verify_request fuel n cands ris nts nss targets bx V =
     py_bind (py_index ris (int bx)) (\<lambda>ri.
     py_bind (py_index nts (int bx)) (\<lambda>nt.
     py_bind (py_index nss (int bx)) (\<lambda>ns.
     py_bind (py_index targets (int bx)) (\<lambda>target.
     py_bind (py_index cands (int bx)) (\<lambda>cand.
     py_bind (py_index (out_accept_index V) (int bx)) (\<lambda>row.
     py_bind (py_index ri 0) (\<lambda>first.
     py_bind (py_set row 0 first) (\<lambda>row0.
     py_bind (verify_rounds fuel n bx cand ri nt ns target (n - 1)
                \<lparr>predicts = out_predicts V, accept_row = row0, last_accepted_idx = first,
                 num_accepted = 0, cur_node = 0\<rparr>) (\<lambda>S.
     py_bind (py_set (out_accept_num V) (int bx) (int (num_accepted S))) (\<lambda>nums.
     py_bind (py_index target (last_accepted_idx S - int n * int bx)) (\<lambda>bonus.
     py_bind (py_set (predicts S) (last_accepted_idx S) bonus) (\<lambda>pr.
     Inr \<lparr>out_predicts = pr, out_accept_index = (out_accept_index V)[bx := accept_row S],
          out_accept_num = nums\<rparr>))))))))))))"

definition verify_tree_greedy_native ::
  "nat \<Rightarrow> nat \<Rightarrow> verify_out \<Rightarrow> int list list \<Rightarrow> int list list \<Rightarrow> int list list \<Rightarrow> int list list \<Rightarrow>
   int list list \<Rightarrow> int \<Rightarrow> verify_out py" where
  "verify_tree_greedy_native fuel n V cands ris nts nss targets topk =
     (if n = 2 \<and> (\<forall>r \<in> set (out_accept_index V). length r = 2) \<and> topk = 1
      then Inr \<lparr>out_predicts = concat targets,
                out_accept_index = map (\<lambda>b. let hit = (if cands ! b ! 1 = targets ! b ! 0 then 1 else 0)
                     in [int (n * b), int (n * b + 1) * hit - (1 - hit)]) [0..<length cands],
                out_accept_num = map (\<lambda>b. if cands ! b ! 1 = targets ! b ! 0 then 1 else 0)
                     [0..<length cands]\<rparr>
      else py_for (verify_request fuel n cands ris nts nss targets) [0..<length cands] V)"

section \<open>The Triton kernel of the NPU build\<close>

text \<open>
  The buffers \<open>predicts\<close>, \<open>accept_index\<close> (flat, \<open>n\<close> elements per request) and \<open>accept_token_num\<close> of
  one launch.
\<close>

record kernel_bufs =
  k_predicts :: mem
  k_accept_index :: mem
  k_accept_num :: mem

record kernel_regs =
  k_last :: int
  k_num :: int
  k_rejected :: bool

definition verify_kernel_round ::
  "nat \<Rightarrow> nat \<Rightarrow> int list \<Rightarrow> int list \<Rightarrow> int list \<Rightarrow> nat \<Rightarrow> kernel_bufs \<times> kernel_regs \<Rightarrow>
   kernel_bufs \<times> kernel_regs" where
  "verify_kernel_round n req cand ri target i st =
     (case st of (K, R) \<Rightarrow>
      if \<not> k_rejected R then
        (let draft_token = cand ! i; target_token = target ! (i - 1)
         in if draft_token = target_token
            then let draft_idx = ri ! i
                 in (K\<lparr>k_predicts := (k_predicts K)(k_last R \<mapsto> target_token),
                       k_accept_index := (k_accept_index K)(int (req * n) + (k_num R + 1) \<mapsto> draft_idx)\<rparr>,
                     R\<lparr>k_num := k_num R + 1, k_last := draft_idx\<rparr>)
            else (K, R\<lparr>k_rejected := True\<rparr>))
      else (K, R))"

definition verify_tree_greedy_kernel ::
  "nat \<Rightarrow> int list list \<Rightarrow> int list list \<Rightarrow> int list list \<Rightarrow> nat \<Rightarrow> kernel_bufs \<Rightarrow> kernel_bufs" where
  "verify_tree_greedy_kernel n cands ris targets req K =
     (let cand = cands ! req; ri = ris ! req; target = targets ! req;
          first = ri ! 0;
          K0 = K\<lparr>k_accept_index := (k_accept_index K)(int (req * n) \<mapsto> first)\<rparr>;
          (K1, R) = foldl (\<lambda>st i. verify_kernel_round n req cand ri target i st)
            (K0, \<lparr>k_last = first, k_num = 0, k_rejected = False\<rparr>) [1..<n];
          target_token = target ! nat (k_last R - int n * int req)
      in K1\<lparr>k_accept_num := (k_accept_num K1)(int req \<mapsto> k_num R),
            k_predicts := (k_predicts K1)(k_last R \<mapsto> target_token)\<rparr>)"

definition verify_tree_greedy ::
  "nat \<Rightarrow> int list list \<Rightarrow> int list list \<Rightarrow> int list list \<Rightarrow> kernel_bufs \<Rightarrow> kernel_bufs" where
  "verify_tree_greedy n cands ris targets K =
     foldl (\<lambda>K req. verify_tree_greedy_kernel n cands ris targets req K) K [0..<length cands]"

end
