(* ===== verification/Spec_Tree_Build.thy ===== *)
theory Spec_Tree_Build
  imports Spec_Tree
begin

text \<open>
  \<open>build_tree_efficient_native\<close> against the tree it is given: the links spell out the children, the
  positions are the depths, and what becomes of the attention mask.
\<close>

section \<open>What the tree is\<close>

text \<open>
  \<open>par\<close> gives the parent of every token below the root; \<open>tree_row_ok\<close> says that the selected indices
  and the parent list of a request describe it: the parent comes before its children, and it is the first
  selected token with the index the parent list names.
\<close>

definition tree_row_ok :: "nat \<Rightarrow> int \<Rightarrow> int list \<Rightarrow> int list \<Rightarrow> (nat \<Rightarrow> nat) \<Rightarrow> bool" where
  "tree_row_ok n topk parents sel par \<longleftrightarrow>
     length sel = n - 1 \<and>
     (\<forall>i \<in> {1..<n}.
        let tb = sel ! (i - 1) div topk
        in if tb = 0 then par i = 0
           else 0 < tb \<and> tb < int (length parents) \<and> 0 < par i \<and> par i < i \<and>
                sel ! (par i - 1) = parents ! nat tb \<and>
                (\<forall>j < par i - 1. sel ! j \<noteq> parents ! nat tb))"

definition children :: "nat \<Rightarrow> (nat \<Rightarrow> nat) \<Rightarrow> nat \<Rightarrow> nat list" where
  "children n par p = filter (\<lambda>i. par i = p) [1..<n]"

text \<open>The sibling list that starts at \<open>v\<close>.\<close>

fun linked :: "int list \<Rightarrow> int \<Rightarrow> nat list \<Rightarrow> bool" where
  "linked ns v [] \<longleftrightarrow> v = -1"
| "linked ns v (x # xs) \<longleftrightarrow> v = int x \<and> x < length ns \<and> linked ns (ns ! x) xs"

fun depth :: "(nat \<Rightarrow> nat) \<Rightarrow> nat \<Rightarrow> nat" where
  "depth par t = (if t = 0 \<or> t \<le> par t then 0 else Suc (depth par (par t)))"

declare depth.simps [simp del]

lemma depth_0 [simp]: "depth par 0 = 0"
  by (simp add: depth.simps)

section \<open>The links and the positions\<close>

lemma scan_parent_hit:
  "\<lbrakk>pos \<le> q; q < length sel; sel ! q = tok; \<forall>j. pos \<le> j \<and> j < q \<longrightarrow> sel ! j \<noteq> tok; q < pos + k\<rbrakk> \<Longrightarrow>
   scan_parent sel tok k pos = Inr (Suc q)"
proof (induction k arbitrary: pos)
  case (Suc k)
  show ?case
  proof (cases "pos = q")
    case False
    then have "scan_parent sel tok k (Suc pos) = Inr (Suc q)" using Suc.prems by (intro Suc.IH) auto
    then show ?thesis using Suc.prems False by simp
  qed (use Suc.prems in simp)
qed simp

lemma scan_position_hit:
  "\<lbrakk>pos \<le> q; q < length sel; sel ! q = tok; \<forall>j. pos \<le> j \<and> j < q \<longrightarrow> sel ! j \<noteq> tok; q < pos + k\<rbrakk> \<Longrightarrow>
   scan_position sel tok k pos = Inr q"
proof (induction k arbitrary: pos)
  case (Suc k)
  show ?case
  proof (cases "pos = q")
    case False
    then have "scan_position sel tok k (Suc pos) = Inr q" using Suc.prems by (intro Suc.IH) auto
    then show ?thesis using Suc.prems False by simp
  qed (use Suc.prems in simp)
qed simp

lemma tree_row_parent:
  assumes "tree_row_ok n topk parents sel par" "1 \<le> i" "i < n"
  shows "par i < i" "sel ! (i - 1) div topk = 0 \<Longrightarrow> par i = 0"
    and "sel ! (i - 1) div topk \<noteq> 0 \<Longrightarrow>
      0 < sel ! (i - 1) div topk \<and> sel ! (i - 1) div topk < int (length parents) \<and> 0 < par i \<and>
      sel ! (par i - 1) = parents ! nat (sel ! (i - 1) div topk) \<and>
      (\<forall>j < par i - 1. sel ! j \<noteq> parents ! nat (sel ! (i - 1) div topk))"
proof -
  have at: "let tb = sel ! (i - 1) div topk in if tb = 0 then par i = 0
      else 0 < tb \<and> tb < int (length parents) \<and> 0 < par i \<and> par i < i \<and>
        sel ! (par i - 1) = parents ! nat tb \<and> (\<forall>j < par i - 1. sel ! j \<noteq> parents ! nat tb)"
    using assms by (simp add: tree_row_ok_def)
  then show "par i < i" using assms(2) by (cases "sel ! (i - 1) div topk = 0") (auto simp: Let_def)
qed (use assms in \<open>auto simp: tree_row_ok_def Let_def split: if_splits\<close>)

lemma link_token_eq:
  assumes ok: "tree_row_ok n topk parents sel par" and i: "1 \<le> i" "i < n"
    and len: "length nt = n" "length ns = n"
  shows "link_token n parents sel (map (\<lambda>s. s div topk) sel) i (nt, ns) =
    Inr (nt[par i := int i], if nt ! par i \<noteq> -1 then ns[i := nt ! par i] else ns)"
proof -
  let ?tb = "sel ! (i - 1) div topk"
  note par = tree_row_parent [OF ok i]
  have ls: "length sel = n - 1" using ok by (simp add: tree_row_ok_def)
  have tb: "py_index (map (\<lambda>s. s div topk) sel) (int i - 1) = Inr ?tb"
    using i ls py_index_nat [of "i - 1" "map (\<lambda>s. s div topk) sel"] by (simp add: of_nat_diff)
  have pp: "(if ?tb > 0 then py_bind (py_index parents ?tb) (\<lambda>tok. scan_parent sel tok n 0) else Inr 0) =
      Inr (par i)"
  proof (cases "?tb = 0")
    case False
    note p = par(3) [OF False]
    have "scan_parent sel (parents ! nat ?tb) n 0 = Inr (Suc (par i - 1))"
      using p par(1) i ls by (intro scan_parent_hit) auto
    then show ?thesis using p by (simp add: py_index_int)
  qed (use par(2) in simp)
  have "par i < n" using par(1) i by simp
  then show ?thesis
    using len i unfolding link_token_def prod.case tb py_bind_simps pp by simp
qed

definition links_from :: "nat \<Rightarrow> (nat \<Rightarrow> nat) \<Rightarrow> nat \<Rightarrow> int list \<times> int list \<Rightarrow> bool" where
  "links_from n par lo st \<longleftrightarrow> (case st of (nt, ns) \<Rightarrow>
     length nt = n \<and> length ns = n \<and> (\<forall>j < lo. j < n \<longrightarrow> ns ! j = -1) \<and>
     (\<forall>p < n. linked ns (nt ! p) (filter (\<lambda>i. par i = p) [lo..<n])))"

lemma linked_update: "i \<notin> set xs \<Longrightarrow> linked (ns[i := v]) w xs = linked ns w xs"
  by (induction xs arbitrary: w) auto

lemma linked_Nil_iff: "linked ns (-1) xs \<longleftrightarrow> xs = []"
  by (cases xs) auto

lemma link_token_step:
  assumes ok: "tree_row_ok n topk parents sel par" and i: "1 \<le> i" "i < n"
    and inv: "links_from n par (Suc i) st"
  shows "\<exists>st'. link_token n parents sel (map (\<lambda>s. s div topk) sel) i st = Inr st' \<and> links_from n par i st'"
proof -
  obtain nt ns where st: "st = (nt, ns)" by (cases st)
  have len: "length nt = n" "length ns = n" and free: "ns ! i = -1" "\<forall>j < i. ns ! j = -1"
    and old: "\<And>p. p < n \<Longrightarrow> linked ns (nt ! p) (filter (\<lambda>j. par j = p) [Suc i..<n])"
    using inv i by (auto simp: links_from_def st)
  let ?ns = "ns[i := nt ! par i]"
  have ns': "(if nt ! par i \<noteq> -1 then ?ns else ns) = ?ns"
    using free(1) by (metis list_update_id)
  have pn: "par i < n" using tree_row_parent(1) [OF ok i] i by simp
  have "linked ?ns (nt[par i := int i] ! p) (filter (\<lambda>j. par j = p) [i..<n])" if "p < n" for p
    using old [OF that] i len pn that
    by (cases "p = par i") (auto simp: upt_conv_Cons linked_update)
  moreover have "\<forall>j < i. ?ns ! j = -1" using free(2) by simp
  ultimately have "links_from n par i (nt[par i := int i], ?ns)"
    using len by (simp add: links_from_def)
  then show ?thesis unfolding st link_token_eq [OF ok i len] ns' by blast
qed

lemma link_tokens:
  assumes ok: "tree_row_ok n topk parents sel par"
  shows "\<exists>nt ns. py_for (link_token n parents sel (map (\<lambda>s. s div topk) sel)) (rev [1..<n])
      (replicate n (-1), replicate n (-1)) = Inr (nt, ns) \<and> length nt = n \<and> length ns = n \<and>
    (\<forall>p < n. linked ns (nt ! p) (children n par p))"
proof -
  have "\<exists>st. py_for (link_token n parents sel (map (\<lambda>s. s div topk) sel)) (rev [1..<n])
      (replicate n (-1), replicate n (-1)) = Inr st \<and> links_from n par (n - length (rev [1..<n])) st"
  proof (rule py_for_inv [where I = "\<lambda>k. links_from n par (n - k)"])
    show "links_from n par (n - 0) (replicate n (-1), replicate n (-1))" by (simp add: links_from_def)
    fix k st assume k: "k < length (rev [1..<n])" and inv: "links_from n par (n - k) st"
    have e: "rev [1..<n] ! k = n - Suc k" "n - k = Suc (n - Suc k)" using k by (auto simp: rev_nth)
    show "\<exists>st'. link_token n parents sel (map (\<lambda>s. s div topk) sel) (rev [1..<n] ! k) st = Inr st' \<and>
        links_from n par (n - Suc k) st'"
      unfolding e(1) using k by (intro link_token_step [OF ok _ _ inv [unfolded e(2)]]) auto
  qed
  moreover have "filter (\<lambda>i. par i = p) [n - (n - 1)..<n] = children n par p" for p
    by (cases n) (simp_all add: children_def)
  ultimately show ?thesis by (auto simp: links_from_def)
qed

lemma walk_up_depth:
  assumes ok: "tree_row_ok n topk parents sel par"
  shows "1 \<le> t \<Longrightarrow> t < n \<Longrightarrow> t \<le> fuel \<Longrightarrow>
    walk_up fuel n topk parents sel (map (\<lambda>s. s div topk) sel) tti (t - 1) pos m =
      Inr (pos + int (depth par t), m)"
proof (induction t arbitrary: pos fuel rule: less_induct)
  case (less t)
  let ?tb = "sel ! (t - 1) div topk"
  note par = tree_row_parent [OF ok less.prems(1,2)]
  have ls: "length sel = n - 1" using ok by (simp add: tree_row_ok_def)
  obtain f where f: "fuel = Suc f" using less.prems by (cases fuel) auto
  have d: "depth par t = Suc (depth par (par t))" using par(1) less.prems by (subst depth.simps) simp
  have tb: "py_index (map (\<lambda>s. s div topk) sel) (int t - 1) = Inr ?tb"
    using less.prems ls py_index_nat [of "t - 1" "map (\<lambda>s. s div topk) sel"] by (simp add: of_nat_diff)
  have lt: "\<not> n \<le> t - 1" using less.prems by linarith
  show ?case
  proof (cases "?tb = 0")
    case True
    then have "depth par (par t) = 0" using par(2) by (simp add: depth.simps)
    then show ?thesis using True less.prems d tb lt unfolding f by simp
  next
    case False
    note p = par(3) [OF False]
    have scan: "scan_position sel (parents ! nat ?tb) n 0 = Inr (par t - 1)"
      using p par(1) less.prems ls by (intro scan_position_hit) auto
    have "walk_up f n topk parents sel (map (\<lambda>s. s div topk) sel) tti (par t - 1) (pos + 1) m =
        Inr (pos + 1 + int (depth par (par t)), m)"
      using p par(1) less.prems f by (intro less.IH) auto
    then show ?thesis using False p less.prems d scan tb lt unfolding f by (simp add: py_index_int)
  qed
qed

lemma mask_fill_True:
  assumes "\<forall>i \<in> set idxs. 0 \<le> i \<and> i < int (length m)"
  shows "\<exists>m'. mask_fill m idxs v = Inr m' \<and> length m' = length m \<and>
    (\<forall>j < length m. m' ! j = (if int j \<in> set idxs then v else m ! j))"
  using assms
proof (induction idxs arbitrary: m)
  case (Cons i idxs)
  let ?m = "m[nat i := v]"
  have "\<exists>m'. mask_fill ?m idxs v = Inr m' \<and> length m' = length ?m \<and>
      (\<forall>j < length ?m. m' ! j = (if int j \<in> set idxs then v else ?m ! j))"
    using Cons.prems by (intro Cons.IH) auto
  then show ?case using Cons.prems by (auto simp: mask_fill_def py_set_int nth_list_update nat_eq_iff)
qed (simp add: mask_fill_def)

section \<open>The batch\<close>

definition build_inv ::
  "nat \<Rightarrow> nat \<Rightarrow> int list \<Rightarrow> (nat \<Rightarrow> nat \<Rightarrow> nat) \<Rightarrow> bool list \<Rightarrow> nat \<Rightarrow> nat \<Rightarrow> tree_bufs \<Rightarrow> bool" where
  "build_inv n bs len par m bid tid B \<longleftrightarrow>
     (let ready = (\<lambda>b t. b < bid \<or> b = bid \<and> t < tid) in
     tree_mask B = m \<and> retrive_index B = index_rows bs n \<and> length (positions B) = bs * n \<and>
     length (retrive_next_token B) = bs \<and> length (retrive_next_sibling B) = bs \<and>
     (\<forall>b < bs. \<forall>t < n. positions B ! (b * n + t) =
        len ! b + (if ready b t then int (depth (par b) t) else 0)) \<and>
     (\<forall>b < bs. if ready b 0
        then length (retrive_next_token B ! b) = n \<and> length (retrive_next_sibling B ! b) = n \<and>
             (\<forall>p < n. linked (retrive_next_sibling B ! b) (retrive_next_token B ! b ! p) (children n (par b) p))
        else retrive_next_token B ! b = replicate n (-1) \<and> retrive_next_sibling B ! b = replicate n (-1)))"

lemma row_major_inj:
  "t < n \<Longrightarrow> t' < n \<Longrightarrow> b * n + t = b' * n + t' \<longleftrightarrow> b = b' \<and> t = (t' :: nat)"
  by (metis add.commute div_mult_self3 div_less mod_less mod_mult_self3 less_nat_zero_code add_cancel_left_left not_less_zero)

lemma row_major_less: "b < bs \<Longrightarrow> t < n \<Longrightarrow> b * n + t < bs * (n :: nat)"
  using mult_le_mono1 [of "Suc b" bs n] by simp

lemma tree_token_step:
  assumes ok: "\<And>b. b < bs \<Longrightarrow> tree_row_ok n topk (pl ! b) (si ! b) (par b)"
    and len: "length pl = bs" "length si = bs" and bid: "bid < bs" and tid: "tid < n" and fuel: "n \<le> fuel"
    and inv: "build_inv n bs sl par m bid tid B"
  shows "\<exists>B'. tree_token fuel n topk pl si (map (map (\<lambda>s. s div topk)) si) tti bid tid B = Inr B' \<and>
    build_inv n bs sl par m bid (Suc tid) B'"
proof (cases "tid = 0")
  case True
  obtain nt ns where l: "py_for (link_token n (pl ! bid) (si ! bid) (map (\<lambda>s. s div topk) (si ! bid)))
      (rev [1..<n]) (replicate n (-1), replicate n (-1)) = Inr (nt, ns)" "length nt = n" "length ns = n"
    "\<forall>p < n. linked ns (nt ! p) (children n (par bid) p)"
    using link_tokens [OF ok [OF bid]] by blast
  have row: "retrive_next_token B ! bid = replicate n (-1)" "retrive_next_sibling B ! bid = replicate n (-1)"
    "length (retrive_next_token B) = bs" "length (retrive_next_sibling B) = bs"
    using inv bid True by (auto simp: build_inv_def Let_def)
  have d0: "depth (par bid) 0 = 0" by (simp add: depth.simps)
  let ?B = "B\<lparr>retrive_next_token := (retrive_next_token B)[bid := nt],
              retrive_next_sibling := (retrive_next_sibling B)[bid := ns]\<rparr>"
  have "build_inv n bs sl par m bid (Suc tid) ?B"
    using inv l(2-4) bid True d0 unfolding build_inv_def Let_def
    by (auto simp: nth_list_update)
  then show ?thesis using True l(1) bid len row by (simp add: tree_token_def)
next
  case False
  have w: "walk_up fuel n topk (pl ! bid) (si ! bid) (map (\<lambda>s. s div topk) (si ! bid)) tti (tid - 1) 0 m =
      Inr (0 + int (depth (par bid) tid), m)"
    using False tid fuel by (intro walk_up_depth [OF ok [OF bid]]) auto
  have p: "length (positions B) = bs * n" "positions B ! (bid * n + tid) = sl ! bid" "tree_mask B = m"
    using inv bid tid by (auto simp: build_inv_def Let_def)
  note lt = row_major_less [OF bid tid]
  let ?B = "B\<lparr>positions := (positions B)[bid * n + tid := sl ! bid + int (depth (par bid) tid)], tree_mask := m\<rparr>"
  have "positions ?B ! (b * n + t) = sl ! b + (if b < bid \<or> b = bid \<and> t < Suc tid then int (depth (par b) t) else 0)"
    if "b < bs" "t < n" for b t
    using that inv lt p row_major_inj [OF that(2) tid, of b bid] row_major_less [OF that]
    by (auto simp: build_inv_def Let_def nth_list_update less_Suc_eq)
  then have "build_inv n bs sl par m bid (Suc tid) ?B"
    using inv False unfolding build_inv_def Let_def by simp
  moreover have "py_index (positions B) (int (bid * n + tid)) = Inr (sl ! bid)"
    "py_set (positions B) (int (bid * n + tid)) v = Inr ((positions B)[bid * n + tid := v])" for v
    using lt p by (simp_all only: py_index_nat py_set_nat)
  ultimately show ?thesis using False w bid len p(3) by (simp add: tree_token_def del: of_nat_add of_nat_mult)
qed

lemma tree_tokens_batch:
  assumes ok: "\<And>b. b < bs \<Longrightarrow> tree_row_ok n topk (pl ! b) (si ! b) (par b)"
    and len: "length pl = bs" "length si = bs" and fuel: "n \<le> fuel" and n: "0 < n"
    and inv: "build_inv n bs sl par m 0 0 B"
  shows "\<exists>B'. py_for (\<lambda>bid. py_for (tree_token fuel n topk pl si (map (map (\<lambda>s. s div topk)) si) tti bid)
      [0..<n]) [0..<bs] B = Inr B' \<and> build_inv n bs sl par m bs 0 B'"
proof -
  let ?body = "tree_token fuel n topk pl si (map (map (\<lambda>s. s div topk)) si) tti"
  have "\<exists>B'. py_for (?body ([0..<bs] ! k)) [0..<n] B = Inr B' \<and> build_inv n bs sl par m (Suc k) 0 B'"
    if k: "k < length [0..<bs]" and inv: "build_inv n bs sl par m k 0 B" for k B
  proof -
    have "\<exists>B'. py_for (?body k) [0..<n] B = Inr B' \<and> build_inv n bs sl par m k (length [0..<n]) B'"
      using k inv by (intro py_for_inv) (auto intro: tree_token_step [OF ok len _ _ fuel])
    then obtain B' where b: "py_for (?body k) [0..<n] B = Inr B'" "build_inv n bs sl par m k n B'" by auto
    have e: "(b < k \<or> b = k \<and> t < n) = (b < Suc k \<or> b = Suc k \<and> t < 0)" if "t < n" for b t
      using that by auto
    have "build_inv n bs sl par m (Suc k) 0 B'"
      using b(2) e n by (simp add: build_inv_def Let_def)
    then show ?thesis using b(1) k by simp
  qed
  then have "\<exists>B'. py_for (\<lambda>bid. py_for (?body bid) [0..<n]) [0..<bs] B = Inr B' \<and>
      build_inv n bs sl par m (length [0..<bs]) 0 B'"
    using inv by (intro py_for_inv [of "\<lambda>k. build_inv n bs sl par m k 0", rotated]) assumption+
  then show ?thesis by simp
qed

lemma nth_concat_rows:
  assumes "\<And>b. b < bs \<Longrightarrow> length (f b) = n" "b < bs" "t < n"
  shows "concat (map f [0..<bs]) ! (b * n + t) = f b ! t"
proof -
  have "concat (map f [0..<bs]) ! (b * n + t) = map f [0..<bs] ! ((b * n + t) div n) ! ((b * n + t) mod n)"
    using assms row_major_less [OF assms(2,3)] by (intro nth_concat_blocks) auto
  then show ?thesis using assms by simp
qed

lemma map_row_list: "map f xs = map (\<lambda>b. f (xs ! b)) [0..<length xs]"
  by (rule nth_equalityI) simp_all

text \<open>Every draft column of the mask lies inside it.\<close>

definition mask_size :: "tree_mask_mode \<Rightarrow> nat \<Rightarrow> nat \<Rightarrow> int list \<Rightarrow> nat" where
  "mask_size mode bs n sl = (if mode = FULL_MASK then nat (sum_list sl * int n) else 0) + n * n * bs"

lemma token_tree_indices_range:
  assumes sl: "\<forall>s \<in> set sl. 0 \<le> s" "length sl = bs" and i: "i \<in> set (token_tree_indices mode bs n sl)"
  shows "1 \<le> i" "i - 1 + int n \<le> int (mask_size mode bs n sl)"
proof -
  obtain b t where bt: "b < bs" "t < n" and ie: "i = token_tree_index mode n sl b t"
    using i by (auto simp: token_tree_indices_def)
  let ?cum = "\<lambda>b. int n * sum_list (take b sl)"
  have cum: "(0 # cumsum (map (\<lambda>s. s * int n) sl)) ! b = ?cum b"
    using bt sl(2) by (cases b) (simp_all add: cumsum_nth take_map sum_list_mult_const mult.commute)
  have nn: "0 \<le> sl ! b" "0 \<le> sum_list (take b sl)" "0 \<le> sum_list (drop (Suc b) sl)"
    using sl bt by (auto intro!: sum_list_nonneg dest: in_set_takeD in_set_dropD)
  have split: "sum_list sl = sum_list (take b sl) + sl ! b + sum_list (drop (Suc b) sl)"
    using sl(2) bt by (metis add.assoc id_take_nth_drop sum_list.Cons sum_list.append)
  have t: "int n * int t + int n \<le> int n * int n" "sl ! b * int t + sl ! b \<le> sl ! b * int n"
    using bt nn(1) mult_left_mono [of "int t + 1" "int n" "int n"] mult_left_mono [of "int t + 1" "int n" "sl ! b"]
    by (simp_all add: distrib_left)
  have b: "int n * int n * int b + int n * int n \<le> int n * int n * int bs"
    using bt mult_left_mono [of "int b + 1" "int bs" "int n * int n"] by (simp add: distrib_left)
  have "0 \<le> int n * sum_list (drop (Suc b) sl)" using nn by simp
  then have s: "?cum b + sl ! b * int n \<le> sum_list sl * int n"
    unfolding split by (simp add: algebra_simps)
  have i': "i = (if mode = FULL_MASK
      then int n * int n * int b + ?cum b + (sl ! b + int n) * int t + sl ! b + 1
      else int b * (int n)\<^sup>2 + int t * int n + 1)"
    unfolding ie token_tree_index_def Let_def cum ..
  show "1 \<le> i" using nn unfolding i' by auto
  show "i - 1 + int n \<le> int (mask_size mode bs n sl)"
  proof (cases "mode = FULL_MASK")
    case True
    have "0 \<le> sum_list sl * int n" using nn unfolding split by simp
    then have "int (mask_size mode bs n sl) = sum_list sl * int n + int n * int n * int bs"
      using True by (simp add: mask_size_def)
    then show ?thesis using t b s nn True unfolding i' by (simp add: algebra_simps)
  next
    case False
    then show ?thesis using t b unfolding i' by (simp add: mask_size_def power2_eq_square algebra_simps)
  qed
qed

lemma build_tree_mask:
  assumes sl: "\<forall>s \<in> set sl. 0 \<le> s" "length sl = bs" and m: "m = replicate (mask_size mode bs n sl) True"
    and tti: "tti = token_tree_indices mode bs n sl" and n: "0 < n"
    and below: "below = concat (map (\<lambda>i. map (\<lambda>j. i + int j) [0..<n - 1]) tti)"
  shows "\<exists>m1 m2. mask_fill m (map (\<lambda>i. i - 1) tti) True = Inr m1 \<and> mask_fill m1 below False = Inr m2 \<and>
    mask_fill m2 below True = Inr m"
proof -
  have range: "1 \<le> i" "i - 1 + int n \<le> int (mask_size mode bs n sl)" if "i \<in> set tti" for i
    using token_tree_indices_range [OF sl] that unfolding tti by auto
  have lm: "length m = mask_size mode bs n sl" using m by simp
  have r1: "\<forall>i \<in> set (map (\<lambda>i. i - 1) tti). 0 \<le> i \<and> i < int (length m)"
    using range n lm by fastforce
  have r2: "\<forall>i \<in> set below. 0 \<le> i \<and> i < int (length m)"
    using range n lm unfolding below by fastforce
  obtain m1 where m1: "mask_fill m (map (\<lambda>i. i - 1) tti) True = Inr m1" "length m1 = length m"
    "\<forall>j < length m. m1 ! j = (if int j \<in> set (map (\<lambda>i. i - 1) tti) then True else m ! j)"
    using mask_fill_True [OF r1] by blast
  obtain m2 where m2: "mask_fill m1 below False = Inr m2" "length m2 = length m1"
    "\<forall>j < length m1. m2 ! j = (if int j \<in> set below then False else m1 ! j)"
    using mask_fill_True [of below m1 False] r2 m1(2) by auto
  obtain m3 where m3: "mask_fill m2 below True = Inr m3" "length m3 = length m2"
    "\<forall>j < length m2. m3 ! j = (if int j \<in> set below then True else m2 ! j)"
    using mask_fill_True [of below m2 True] r2 m1(2) m2(2) by auto
  have "m3 = m" using m1 m2 m3 m by (auto simp: list_eq_iff_nth_eq)
  then show ?thesis using m1 m2 m3 by blast
qed

text \<open>What a batch of well-formed rows gives, with a mask that is initially all true.\<close>

lemma build_tree_ok:
  assumes n: "0 < n" and topk: "0 < topk" and shapes: "length pl = bs" "length si = bs" "length sl = bs"
    and links0: "nt = replicate bs (replicate n (-1))" "ns = replicate bs (replicate n (-1))"
    and sl: "\<forall>s \<in> set sl. 0 \<le> s" and m: "m = replicate (mask_size mode bs n sl) True"
    and ok: "\<And>b. b < bs \<Longrightarrow> tree_row_ok n topk (pl ! b) (si ! b) (par b)"
  shows "\<exists>B. build_tree_efficient_native n pl si sl m ri nt ns topk n mode bs = Inr B \<and>
    build_inv n bs sl par m bs 0 B"
proof (cases "n = 2 \<and> topk = 1 \<and> mode = FULL_MASK")
  case True
  let ?B = "\<lparr>positions = concat (map (\<lambda>s. map (\<lambda>t. s + int t) [0..<n]) sl), retrive_index = index_rows bs n,
      retrive_next_token = map (\<lambda>r. r[0 := 1, 1 := -1]) nt, retrive_next_sibling = ns, tree_mask = m\<rparr>"
  have p1: "par b 1 = 0" if "b < bs" for b using tree_row_parent(1) [OF ok [OF that], of 1] True by simp
  then have d: "depth (par b) t = t" if "b < bs" "t < 2" for b t
  proof -
    have "depth (par b) 1 = 1" using p1 [OF that(1)] by (simp add: depth.simps [of _ "Suc 0"])
    then show ?thesis using that(2) by (cases t) auto
  qed
  have ch: "children 2 (par b) p = (if p = 0 then [1] else [])" if "b < bs" "p < 2" for b p
    using p1 [OF that(1)] that(2) by (auto simp: children_def numeral_2_eq_2)
  have pos: "concat (map (\<lambda>s. map (\<lambda>t. s + int t) [0..<n]) sl) ! (b * n + t) = sl ! b + int t"
    if "b < bs" "t < n" for b t
    using nth_concat_rows [of bs "\<lambda>b. map (\<lambda>t. sl ! b + int t) [0..<n]" n b t] that shapes
    by (subst map_row_list [of _ sl]) simp
  have len: "length (concat (map (\<lambda>s. map (\<lambda>t. s + int t) [0..<n]) sl)) = bs * n"
    using shapes by (subst length_concat_blocks) auto
  have "linked (ns ! b) (map (\<lambda>r. r[0 := 1, 1 := -1]) nt ! b ! p) (children n (par b) p)"
    if "b < bs" "p < n" for b p
    using that True ch [of b p] links0 by (cases p) (auto simp: less_Suc_eq numeral_2_eq_2)
  then have "build_inv n bs sl par m bs 0 ?B"
    using True links0 d pos len by (simp add: build_inv_def Let_def)
  then show ?thesis using True by (simp add: build_tree_efficient_native_def)
next
  case False
  let ?tti = "token_tree_indices mode bs n sl"
  let ?below = "concat (map (\<lambda>i. map (\<lambda>j. i + int j) [0..<n - 1]) ?tti)"
  let ?B = "\<lparr>positions = concat (map (replicate n) sl), retrive_index = index_rows bs n, retrive_next_token = nt,
      retrive_next_sibling = ns, tree_mask = m\<rparr>"
  obtain m1 m2 where mm: "mask_fill m (map (\<lambda>i. i - 1) ?tti) True = Inr m1" "mask_fill m1 ?below False = Inr m2"
    "mask_fill m2 ?below True = Inr m"
    using build_tree_mask [OF sl shapes(3) m refl n refl] by blast
  have "concat (map (replicate n) sl) ! (b * n + t) = sl ! b" if "b < bs" "t < n" for b t
    using nth_concat_rows [of bs "\<lambda>b. replicate n (sl ! b)" n b t] that shapes by (subst map_row_list [of _ sl]) simp
  moreover have "length (concat (map (replicate n) sl)) = bs * n"
    using shapes by (subst length_concat_blocks) auto
  ultimately have "build_inv n bs sl par m 0 0 ?B" using links0 by (simp add: build_inv_def Let_def)
  from tree_tokens_batch [OF ok shapes(1,2) order_refl n this]
  show ?thesis unfolding build_tree_efficient_native_def Let_def if_not_P [OF False] using topk mm by simp
qed

section \<open>Properties\<close>

text \<open>
  C16. For a batch of well-formed trees \<open>build_tree_efficient_native\<close> ends without raising, on the fast
  path for two tokens too. For every node the next-token link and the sibling links spell out its
  children in ascending order, the root is at the sequence length, and every other token is one
  position after its parent.
\<close>

theorem build_tree_links:
  assumes "0 < n" "0 < topk" "length pl = bs" "length si = bs" "length sl = bs"
    and "nt = replicate bs (replicate n (-1))" "ns = replicate bs (replicate n (-1))"
    and "\<forall>s \<in> set sl. 0 \<le> s" "m = replicate (mask_size mode bs n sl) True"
    and "\<And>b. b < bs \<Longrightarrow> tree_row_ok n topk (pl ! b) (si ! b) (par b)"
  shows "\<exists>B. build_tree_efficient_native n pl si sl m ri nt ns topk n mode bs = Inr B \<and>
    retrive_index B = index_rows bs n \<and>
    (\<forall>b < bs. \<forall>p < n.
       linked (retrive_next_sibling B ! b) (retrive_next_token B ! b ! p) (children n (par b) p)) \<and>
    (\<forall>b < bs. positions B ! (b * n) = sl ! b \<and>
       (\<forall>t \<in> {1..<n}. positions B ! (b * n + t) = positions B ! (b * n + par b t) + 1))"
proof -
  obtain B where B: "build_tree_efficient_native n pl si sl m ri nt ns topk n mode bs = Inr B"
    "build_inv n bs sl par m bs 0 B" using build_tree_ok [OF assms] by blast
  have pos: "positions B ! (b * n + t) = sl ! b + int (depth (par b) t)" if "b < bs" "t < n" for b t
    using B(2) that by (simp add: build_inv_def Let_def)
  have "positions B ! (b * n + t) = positions B ! (b * n + par b t) + 1" if "b < bs" "1 \<le> t" "t < n" for b t
  proof -
    have "par b t < t" using tree_row_parent(1) [OF assms(10)] that by blast
    then show ?thesis using pos that by (simp add: depth.simps [of _ t])
  qed
  moreover have "positions B ! (b * n) = sl ! b" if "b < bs" for b
    using pos [OF that, of 0] assms(1) by (simp add: depth.simps)
  moreover have "linked (retrive_next_sibling B ! b) (retrive_next_token B ! b ! p) (children n (par b) p)"
    if "b < bs" "p < n" for b p using B(2) that by (simp add: build_inv_def Let_def)
  moreover have "retrive_index B = index_rows bs n" using B(2) by (simp add: build_inv_def Let_def)
  ultimately show ?thesis using B(1) by simp
qed

text \<open>
  C39. Whatever the tree is, \<open>build_tree_efficient_native\<close> returns the attention mask it is given (all
  true): the columns it clears are set again before the tree is walked, so that the mask lets a draft
  token attend to tokens that are not its ancestors.
\<close>

theorem build_tree_mask_not_a_tree_mask:
  assumes "0 < n" "0 < topk" "length pl = bs" "length si = bs" "length sl = bs"
    and "nt = replicate bs (replicate n (-1))" "ns = replicate bs (replicate n (-1))"
    and "\<forall>s \<in> set sl. 0 \<le> s" "m = replicate (mask_size mode bs n sl) True"
    and "\<And>b. b < bs \<Longrightarrow> tree_row_ok n topk (pl ! b) (si ! b) (par b)"
  shows "\<exists>B. build_tree_efficient_native n pl si sl m ri nt ns topk n mode bs = Inr B \<and> tree_mask B = m"
proof -
  obtain B where "build_tree_efficient_native n pl si sl m ri nt ns topk n mode bs = Inr B"
    "build_inv n bs sl par m bs 0 B" using build_tree_ok [OF assms] by blast
  then show ?thesis by (auto simp: build_inv_def Let_def)
qed

theorem build_tree_links_witness:
  "\<exists>B. build_tree_efficient_native 4 [[-1, 0, 1]] [[0, 1, 2]] [7] (replicate (mask_size FULL_MASK 1 4 [7]) True) []
      (replicate 1 (replicate 4 (-1))) (replicate 1 (replicate 4 (-1))) 2 4 FULL_MASK 1 = Inr B \<and>
    retrive_index B = index_rows 1 4 \<and>
    (\<forall>b < 1. \<forall>p < 4. linked (retrive_next_sibling B ! b) (retrive_next_token B ! b ! p)
        (children 4 ((\<lambda>_. (\<lambda>i. if i = 3 then 1 else 0)) b) p)) \<and>
    (\<forall>b < 1. positions B ! (b * 4) = [7] ! b \<and>
       (\<forall>t \<in> {1..<4}. positions B ! (b * 4 + t) =
          positions B ! (b * 4 + (\<lambda>_. (\<lambda>i. if i = 3 then 1 else 0)) b t) + 1))"
  by (rule build_tree_links) (auto simp: tree_row_ok_def Let_def less_Suc_eq numeral_eq_Suc atLeastLessThan_def)

theorem build_tree_mask_not_a_tree_mask_witness:
  "\<exists>B. build_tree_efficient_native 4 [[-1, 0, 1]] [[0, 1, 2]] [7] (replicate (mask_size FULL_MASK 1 4 [7]) True) []
      (replicate 1 (replicate 4 (-1))) (replicate 1 (replicate 4 (-1))) 2 4 FULL_MASK 1 = Inr B \<and>
    tree_mask B = replicate (mask_size FULL_MASK 1 4 [7]) True"
  by (rule build_tree_mask_not_a_tree_mask [where par = "\<lambda>_ i. if i = 3 then 1 else 0"])
     (auto simp: tree_row_ok_def Let_def less_Suc_eq numeral_eq_Suc)


end
