(* ===== verification/Spec_Tree_Verify.thy ===== *)
theory Spec_Tree_Verify
  imports Spec_Tree_Build
begin

text \<open>
  Greedy verification of a draft tree: the path it must accept, that the native routine accepts it,
  that the Triton kernel agrees on chains, and that both emit what greedy decoding with the target
  model alone emits (locale \<open>greedy_verifier\<close>).
\<close>

section \<open>The greedy path\<close>

text \<open>
  What verification must accept below \<open>node\<close>: the first child whose token is the target's choice at
  \<open>node\<close>, and so on, for at most \<open>k\<close> tokens.
\<close>

fun accept_path :: "(nat \<Rightarrow> nat list) \<Rightarrow> int list \<Rightarrow> int list \<Rightarrow> nat \<Rightarrow> nat \<Rightarrow> nat list" where
  "accept_path ch cand tgt 0 node = []"
| "accept_path ch cand tgt (Suc k) node =
     (case find (\<lambda>c. cand ! c = tgt ! node) (ch node) of
        None \<Rightarrow> [] | Some c \<Rightarrow> c # accept_path ch cand tgt k c)"

text \<open>The tokens from the root to a node.\<close>

fun path_tokens :: "(nat \<Rightarrow> nat) \<Rightarrow> int list \<Rightarrow> nat \<Rightarrow> int list" where
  "path_tokens par cand t =
     (if t = 0 \<or> t \<le> par t then [cand ! 0] else path_tokens par cand (par t) @ [cand ! t])"

declare path_tokens.simps [simp del]

text \<open>Greedy decoding with the target model: \<open>k\<close> tokens after a context.\<close>

fun greedy_decode :: "(int list \<Rightarrow> int) \<Rightarrow> int list \<Rightarrow> nat \<Rightarrow> int list" where
  "greedy_decode model ctx 0 = []"
| "greedy_decode model ctx (Suc k) = model ctx # greedy_decode model (ctx @ [model ctx]) k"

lemma length_greedy_decode [simp]: "length (greedy_decode model ctx k) = k"
  by (induction k arbitrary: ctx) simp_all

lemma find_sibling_eq:
  "\<lbrakk>linked ns v xs; \<forall>x \<in> set xs. x < length cand; node < length tgt; length xs < fuel\<rbrakk> \<Longrightarrow>
   find_sibling fuel cand ns tgt (int node) v =
     Inr (case find (\<lambda>c. cand ! c = tgt ! node) xs of None \<Rightarrow> -1 | Some c \<Rightarrow> int c)"
proof (induction xs arbitrary: v fuel)
  case Nil
  then show ?case by (cases fuel) auto
next
  case (Cons x xs)
  then obtain f where f: "fuel = Suc f" by (cases fuel) auto
  show ?case using Cons.prems Cons.IH [of "ns ! x" f] unfolding f by auto
qed

lemma accept_path_bound:
  "(\<And>p. p < n \<Longrightarrow> set (ch p) \<subseteq> {..<n}) \<Longrightarrow> node < n \<Longrightarrow> set (accept_path ch cand tgt k node) \<subseteq> {..<n}"
proof (induction k arbitrary: node)
  case (Suc k)
  have "c < n" if "find (\<lambda>c. cand ! c = tgt ! node) (ch node) = Some c" for c
    using find_SomeD [OF that] Suc.prems by auto
  then show ?case using Suc.IH [OF Suc.prems(1)] by (auto split: option.split dest: sym)
qed simp

definition slots_set :: "int list \<Rightarrow> nat \<Rightarrow> nat list \<Rightarrow> int list \<Rightarrow> int list" where
  "slots_set xs base nodes tgt = foldl (\<lambda>xs x. xs[base + x := tgt ! x]) xs nodes"

lemma length_slots_set [simp]: "length (slots_set xs base nodes tgt) = length xs"
  unfolding slots_set_def by (induction nodes arbitrary: xs) simp_all

lemma slots_set_nth:
  "j < length xs \<Longrightarrow> slots_set xs base nodes tgt ! j =
     (if base \<le> j \<and> j - base \<in> set nodes then tgt ! (j - base) else xs ! j)"
  unfolding slots_set_def
  by (induction nodes arbitrary: xs) (auto simp: nth_list_update)

lemma verify_rounds_eq:
  assumes ri: "ri = map (\<lambda>t. int (b * n + t)) [0..<n]" and len: "length tgt = n" "length cand = n" "length nt = n"
    and links: "\<And>p. p < n \<Longrightarrow> linked ns (nt ! p) (ch p)" and ch: "\<And>p. p < n \<Longrightarrow> set (ch p) \<subseteq> {..<n} \<and> length (ch p) < fuel"
  shows "\<lbrakk>node < n; cur_node S = int node; last_accepted_idx S = int (b * n + node);
      (b + 1) * n \<le> length (predicts S);
      num_accepted S + length (accept_path ch cand tgt k node) < length (accept_row S)\<rbrakk> \<Longrightarrow>
    \<exists>S'. verify_rounds fuel n b cand ri nt ns tgt k S = Inr S' \<and>
      num_accepted S' = num_accepted S + length (accept_path ch cand tgt k node) \<and>
      last_accepted_idx S' = int (b * n + last (node # accept_path ch cand tgt k node)) \<and>
      predicts S' = slots_set (predicts S) (b * n) (butlast (node # accept_path ch cand tgt k node)) tgt \<and>
      accept_row S' = take (Suc (num_accepted S)) (accept_row S) @
        map (\<lambda>x. int (b * n + x)) (accept_path ch cand tgt k node) @
        drop (Suc (num_accepted S + length (accept_path ch cand tgt k node))) (accept_row S)"
proof (induction k arbitrary: node S)
  case 0
  then show ?case by (simp add: slots_set_def)
next
  case (Suc k)
  have rel: "last_accepted_idx S - int n * int b = int node" using Suc.prems(3) by (simp add: mult.commute)
  have fs: "find_sibling fuel cand ns tgt (int node) (nt ! node) =
      Inr (case find (\<lambda>c. cand ! c = tgt ! node) (ch node) of None \<Rightarrow> -1 | Some c \<Rightarrow> int c)"
    using links ch Suc.prems(1) len by (intro find_sibling_eq) auto
  have nt: "py_index nt (cur_node S) = Inr (nt ! node)" using Suc.prems len by simp
  show ?case
  proof (cases "find (\<lambda>c. cand ! c = tgt ! node) (ch node)")
    case None
    then show ?thesis using Suc.prems nt fs by (simp add: rel slots_set_def)
  next
    case (Some c)
    let ?path = "accept_path ch cand tgt k c"
    have cn: "c < n" using find_SomeD [OF Some] ch [OF Suc.prems(1)] by auto
    have base: "b * n + node < length (predicts S)" using Suc.prems(1,4) by simp
    let ?S = "\<lparr>predicts = (predicts S)[b * n + node := tgt ! node],
        accept_row = (accept_row S)[Suc (num_accepted S) := int (b * n + c)],
        last_accepted_idx = int (b * n + c), num_accepted = num_accepted S + 1, cur_node = int c\<rparr>"
    have rows: "num_accepted S + Suc (length ?path) < length (accept_row S)" using Suc.prems(5) Some by simp
    have st: "verify_rounds fuel n b cand ri nt ns tgt (Suc k) S = verify_rounds fuel n b cand ri nt ns tgt k ?S"
    proof -
      have "py_set (predicts S) (last_accepted_idx S) (tgt ! node) = Inr ((predicts S)[b * n + node := tgt ! node])"
        unfolding Suc.prems(3) using base by (rule py_set_nat)
      moreover have "py_set (accept_row S) (int (num_accepted S) + 1) v =
          Inr ((accept_row S)[Suc (num_accepted S) := v])" for v
        using py_set_nat [of "Suc (num_accepted S)" "accept_row S" v] rows by (simp add: add.commute)
      moreover have "py_index ri (int c) = Inr (int (b * n + c))" using cn by (simp add: ri)
      ultimately show ?thesis using Some nt fs len Suc.prems(1) by (simp add: rel)
    qed
    have "\<exists>S'. verify_rounds fuel n b cand ri nt ns tgt k ?S = Inr S' \<and>
      num_accepted S' = num_accepted ?S + length ?path \<and>
      last_accepted_idx S' = int (b * n + last (c # ?path)) \<and>
      predicts S' = slots_set (predicts ?S) (b * n) (butlast (c # ?path)) tgt \<and>
      accept_row S' = take (Suc (num_accepted ?S)) (accept_row ?S) @ map (\<lambda>x. int (b * n + x)) ?path @
        drop (Suc (num_accepted ?S + length ?path)) (accept_row ?S)"
      using cn Suc.prems(4) rows by (intro Suc.IH) simp_all
    then show ?thesis
      unfolding st using Some rows
      by (auto simp: slots_set_def take_Suc_conv_app_nth [of "Suc (num_accepted S)"])
  qed
qed

lemma verify_request_eq:
  assumes path_def: "path = accept_path ch (cands ! b) (targets ! b) (n - 1) 0"
    and n: "0 < n" and b: "b < length cands" and ri: "ris ! b = map (\<lambda>t. int (b * n + t)) [0..<n]"
    and rows: "length ris = length cands" "length nts = length cands" "length nss = length cands"
      "length targets = length cands" "length (out_accept_index V) = length cands"
      "length (out_accept_num V) = length cands" "length (out_predicts V) = length cands * n"
    and len: "length (targets ! b) = n" "length (cands ! b) = n" "length (nts ! b) = n"
    and links: "\<And>p. p < n \<Longrightarrow> linked (nss ! b) (nts ! b ! p) (ch p)"
    and ch: "\<And>p. p < n \<Longrightarrow> set (ch p) \<subseteq> {..<n} \<and> length (ch p) < n"
    and cols: "length path < length (out_accept_index V ! b)"
  shows "verify_request n n cands ris nts nss targets b V = Inr
    \<lparr>out_predicts = slots_set (out_predicts V) (b * n) (0 # path) (targets ! b),
     out_accept_index = (out_accept_index V)[b := map (\<lambda>x. int (b * n + x)) (0 # path) @
        drop (Suc (length path)) (out_accept_index V ! b)],
     out_accept_num = (out_accept_num V)[b := int (length path)]\<rparr>"
proof -
  let ?row = "out_accept_index V ! b"
  let ?S = "\<lparr>predicts = out_predicts V, accept_row = ?row[0 := int (b * n)], last_accepted_idx = int (b * n),
      num_accepted = 0, cur_node = 0\<rparr>"
  have bn: "(b + 1) * n \<le> length (out_predicts V)" using b rows(7) mult_le_mono1 [of "b + 1"] by simp
  obtain S' where S': "verify_rounds n n b (cands ! b) (ris ! b) (nts ! b) (nss ! b) (targets ! b) (n - 1) ?S = Inr S'"
    "num_accepted S' = length path" "last_accepted_idx S' = int (b * n + last (0 # path))"
    "predicts S' = slots_set (out_predicts V) (b * n) (butlast (0 # path)) (targets ! b)"
    "accept_row S' = take 1 (?row[0 := int (b * n)]) @ map (\<lambda>x. int (b * n + x)) path @
        drop (Suc (length path)) (?row[0 := int (b * n)])"
    using verify_rounds_eq [OF ri len links ch, where node = 0 and S = ?S and k = "n - 1"] n bn cols
    by (auto simp: path_def)
  have last_n: "last (0 # path) < n"
  proof -
    have "set path \<subseteq> {..<n}" unfolding path_def using ch n by (intro accept_path_bound) auto
    then show ?thesis using n last_in_set [of "0 # path"] by auto
  qed
  have row0: "py_set ?row 0 (int (b * n)) = Inr (?row[0 := int (b * n)])" using cols by (intro py_set_nat [of 0, simplified]) auto
  have first: "py_index (ris ! b) 0 = Inr (int (b * n))" using n py_index_nat [of 0 "ris ! b"] by (simp add: ri)
  have rel: "last_accepted_idx S' - int n * int b = int (last (0 # path))"
    unfolding S'(3) by (simp add: mult.commute)
  obtain l where l: "l = last (0 # path)" "l < n" using last_n by simp
  have bonus: "py_index (targets ! b) (last_accepted_idx S' - int n * int b) = Inr (targets ! b ! l)"
    unfolding rel l(1) [symmetric] using l(2) len by (intro py_index_nat) simp
  have "py_set (predicts S') (last_accepted_idx S') (targets ! b ! l) = Inr ((predicts S')[b * n + l := targets ! b ! l])"
    unfolding S'(3) l(1) [symmetric] using bn l(2) S'(4) by (intro py_set_nat) simp
  also have "(predicts S')[b * n + l := targets ! b ! l] =
      slots_set (out_predicts V) (b * n) (butlast (0 # path) @ [l]) (targets ! b)"
    unfolding S'(4) slots_set_def by simp
  also have "butlast (0 # path) @ [l] = 0 # path" unfolding l(1) by simp
  finally have set_last: "py_set (predicts S') (last_accepted_idx S') (targets ! b ! l) =
      Inr (slots_set (out_predicts V) (b * n) (0 # path) (targets ! b))" .
  have row: "accept_row S' = map (\<lambda>x. int (b * n + x)) (0 # path) @ drop (Suc (length path)) ?row"
    unfolding S'(5) using cols by (cases ?row) auto
  show ?thesis
    unfolding verify_request_def using b rows(1-6) first row0 S'(1)
    by (simp add: bonus set_last S'(2) row del: of_nat_add of_nat_mult)
qed

text \<open>
  The buffers of a verification: \<open>bs\<close> requests of \<open>n\<close> tokens whose links describe the trees \<open>par\<close>,
  accept rows filled with \<open>-1\<close> that are wide enough for the accepted path.
\<close>

definition greedy_path :: "nat \<Rightarrow> (nat \<Rightarrow> nat) \<Rightarrow> int list \<Rightarrow> int list \<Rightarrow> nat list" where
  "greedy_path n par cand tgt = accept_path (children n par) cand tgt (n - 1) 0"

definition verify_args_ok ::
  "nat \<Rightarrow> nat \<Rightarrow> nat \<Rightarrow> (nat \<Rightarrow> nat \<Rightarrow> nat) \<Rightarrow> int list list \<Rightarrow> int list list \<Rightarrow> int list list \<Rightarrow>
   int list list \<Rightarrow> int list list \<Rightarrow> verify_out \<Rightarrow> bool" where
  "verify_args_ok n bs cols par cands ris nts nss targets V \<longleftrightarrow>
     0 < n \<and> length cands = bs \<and> ris = index_rows bs n \<and> length nts = bs \<and> length nss = bs \<and>
     length targets = bs \<and> out_accept_index V = replicate bs (replicate cols (-1)) \<and>
     length (out_accept_num V) = bs \<and> length (out_predicts V) = bs * n \<and>
     (\<forall>b < bs. length (cands ! b) = n \<and> length (targets ! b) = n \<and> length (nts ! b) = n \<and>
        (\<forall>p < n. linked (nss ! b) (nts ! b ! p) (children n (par b) p)) \<and>
        (\<forall>t \<in> {1..<n}. par b t < t) \<and>
        length (greedy_path n (par b) (cands ! b) (targets ! b)) < cols)"

definition accept_row_of :: "nat \<Rightarrow> nat \<Rightarrow> nat \<Rightarrow> nat list \<Rightarrow> int list" where
  "accept_row_of n cols b path = map (\<lambda>x. int (b * n + x)) (0 # path) @ replicate (cols - Suc (length path)) (-1)"

lemma children_bound: "set (children n par p) \<subseteq> {..<n} \<and> (0 < n \<longrightarrow> length (children n par p) < n)"
proof -
  have "length (children n par p) \<le> n - 1" unfolding children_def by (rule order_trans [OF length_filter_le]) simp
  then show ?thesis by (auto simp: children_def)
qed

lemma verify_general_path:
  assumes ok: "verify_args_ok n bs cols par cands ris nts nss targets V"
    and path: "\<And>b. path b = greedy_path n (par b) (cands ! b) (targets ! b)"
  shows "\<exists>V'. py_for (verify_request n n cands ris nts nss targets) [0..<bs] V = Inr V' \<and>
    out_accept_index V' = map (\<lambda>b. accept_row_of n cols b (path b)) [0..<bs] \<and>
    out_accept_num V' = map (\<lambda>b. int (length (path b))) [0..<bs] \<and> length (out_predicts V') = bs * n \<and>
    (\<forall>b < bs. \<forall>x \<in> set (0 # path b). out_predicts V' ! (b * n + x) = targets ! b ! x)"
proof -
  have n: "0 < n" and bs: "length cands = bs" "length targets = bs" "length nts = bs" "length nss = bs"
    "length ris = bs" and ris: "ris = index_rows bs n"
    using ok by (auto simp: verify_args_ok_def index_rows_def)
  have pn: "set (0 # path b) \<subseteq> {..<n}" for b
    using accept_path_bound [of n "children n (par b)"] children_bound n by (auto simp: path greedy_path_def)
  let ?I = "\<lambda>k (V' :: verify_out). length (out_predicts V') = bs * n \<and> length (out_accept_index V') = bs \<and>
    length (out_accept_num V') = bs \<and>
    (\<forall>b < bs. out_accept_index V' ! b = (if b < k then accept_row_of n cols b (path b) else replicate cols (-1)) \<and>
       (b < k \<longrightarrow> out_accept_num V' ! b = int (length (path b)) \<and>
         (\<forall>x \<in> set (0 # path b). out_predicts V' ! (b * n + x) = targets ! b ! x)))"
  have "\<exists>V'. py_for (verify_request n n cands ris nts nss targets) [0..<bs] V = Inr V' \<and> ?I (length [0..<bs]) V'"
  proof (rule py_for_inv)
    show "?I 0 V" using ok by (simp add: verify_args_ok_def)
    fix k V1 assume k: "k < length [0..<bs]" and I: "?I k V1"
    then have kb: "k < bs" by simp
    have cols: "length (path k) < length (out_accept_index V1 ! k)" "length (path k) < cols"
      using ok kb I by (auto simp: verify_args_ok_def path)
    let ?V = "\<lparr>out_predicts = slots_set (out_predicts V1) (k * n) (0 # path k) (targets ! k),
      out_accept_index = (out_accept_index V1)[k := map (\<lambda>x. int (k * n + x)) (0 # path k) @
        drop (Suc (length (path k))) (out_accept_index V1 ! k)],
      out_accept_num = (out_accept_num V1)[k := int (length (path k))]\<rparr>"
    have res: "verify_request n n cands ris nts nss targets k V1 = Inr ?V"
    proof (rule verify_request_eq [where ch = "children n (par k)"])
      show "path k = accept_path (children n (par k)) (cands ! k) (targets ! k) (n - 1) 0"
        by (simp add: path greedy_path_def)
    qed (use ok kb n bs I cols children_bound in \<open>auto simp: verify_args_ok_def index_rows_def\<close>)
    have I': "?I (Suc k) ?V"
    proof (intro conjI allI impI)
      fix b assume b: "b < bs"
      show "out_accept_index ?V ! b = (if b < Suc k then accept_row_of n cols b (path b) else replicate cols (-1))"
        using I b kb by (auto simp: accept_row_of_def nth_list_update less_Suc_eq)
      assume bk: "b < Suc k"
      show "out_accept_num ?V ! b = int (length (path b))" using I b bk kb by (auto simp: nth_list_update less_Suc_eq)
      show "\<forall>x \<in> set (0 # path b). out_predicts ?V ! (b * n + x) = targets ! b ! x"
      proof
        fix x assume x: "x \<in> set (0 # path b)"
        then have xn: "x < n" using pn by auto
        note lt = row_major_less [OF b xn]
        have "b * n + x < k * n" if "b < k" using row_major_less [OF that xn] .
        then show "out_predicts ?V ! (b * n + x) = targets ! b ! x"
          using I b bk x lt slots_set_nth [of "b * n + x" "out_predicts V1" "k * n" "0 # path k" "targets ! k"]
          by (cases "b = k") auto
      qed
    qed (use I in auto)
    have "[0..<bs] ! k = k" using kb by simp
    with res show "\<exists>V'. verify_request n n cands ris nts nss targets ([0..<bs] ! k) V1 = Inr V' \<and> ?I (Suc k) V'"
      by (intro exI [of _ ?V] conjI [OF _ I']) simp
  qed
  then obtain V' where V': "py_for (verify_request n n cands ris nts nss targets) [0..<bs] V = Inr V'"
    and I: "?I bs V'" by auto
  have "out_accept_index V' = map (\<lambda>b. accept_row_of n cols b (path b)) [0..<bs]"
    "out_accept_num V' = map (\<lambda>b. int (length (path b))) [0..<bs]"
    using I by (auto intro!: nth_equalityI)
  then show ?thesis using V' I by (intro exI [of _ V']) simp
qed

lemma verify_fast_path:
  assumes ok: "verify_args_ok n bs 2 par cands ris nts nss targets V" and n: "n = 2"
    and path: "\<And>b. path b = greedy_path n (par b) (cands ! b) (targets ! b)" and b: "b < bs"
  shows "path b = (if cands ! b ! 1 = targets ! b ! 0 then [1] else [])"
    and "accept_row_of n 2 b (path b) = (let hit = (if cands ! b ! 1 = targets ! b ! 0 then 1 else 0)
       in [int (n * b), int (n * b + 1) * hit - (1 - hit)])"
proof -
  have "\<forall>t \<in> {1..<n}. par b t < t" using ok b unfolding verify_args_ok_def by blast
  then have "par b 1 < 1" using n by (intro bspec [of _ _ 1]) auto
  then have "children 2 (par b) 0 = [1]" by (simp add: children_def numeral_2_eq_2)
  then show p: "path b = (if cands ! b ! 1 = targets ! b ! 0 then [1] else [])"
    by (simp add: path greedy_path_def n numeral_2_eq_2)
  show "accept_row_of n 2 b (path b) = (let hit = (if cands ! b ! 1 = targets ! b ! 0 then 1 else 0)
       in [int (n * b), int (n * b + 1) * hit - (1 - hit)])"
    by (cases "cands ! b ! 1 = targets ! b ! 0") (simp_all add: p accept_row_of_def n)
qed

lemma verify_native_result:
  assumes ok: "verify_args_ok n bs cols par cands ris nts nss targets V"
    and path: "\<And>b. path b = greedy_path n (par b) (cands ! b) (targets ! b)"
  shows "\<exists>V'. verify_tree_greedy_native n n V cands ris nts nss targets topk = Inr V' \<and>
    out_accept_index V' = map (\<lambda>b. accept_row_of n cols b (path b)) [0..<bs] \<and>
    out_accept_num V' = map (\<lambda>b. int (length (path b))) [0..<bs] \<and>
    (\<forall>b < bs. \<forall>x \<in> set (0 # path b). out_predicts V' ! (b * n + x) = targets ! b ! x)"
proof -
  have bs: "length cands = bs" "length targets = bs" "out_accept_index V = replicate bs (replicate cols (-1))"
    using ok by (auto simp: verify_args_ok_def)
  let ?fast = "n = 2 \<and> (\<forall>r \<in> set (out_accept_index V). length r = 2) \<and> topk = 1"
  show ?thesis
  proof (cases ?fast)
    case False
    then show ?thesis unfolding verify_tree_greedy_native_def if_not_P [OF False] bs(1)
      using verify_general_path [OF ok path] by blast
  next
    case True
    show ?thesis
    proof (cases "bs = 0")
      case False
      then have c2: "cols = 2" using True bs(3) by simp
      note f = verify_fast_path [OF ok [unfolded c2] _ path]
      have "concat targets ! (b * n + x) = targets ! b ! x" if "b < bs" "x < n" for b x
        using nth_concat_rows [of bs "\<lambda>b. targets ! b" n b x] that ok bs(2)
        by (subst map_row_list [of "\<lambda>x. x" targets, simplified]) (auto simp: verify_args_ok_def)
      moreover have "set (0 # path b) \<subseteq> {..<n}" if "b < bs" for b using f(1) [of b] True that by auto
      ultimately have px: "\<forall>b < bs. \<forall>x \<in> set (0 # path b). concat targets ! (b * n + x) = targets ! b ! x"
        by blast
      show ?thesis
        unfolding verify_tree_greedy_native_def if_P [OF True] bs(1)
        by (intro exI conjI, rule refl) (use px f True c2 in auto)
    qed (use True bs in \<open>simp add: verify_tree_greedy_native_def\<close>)
  qed
qed

lemma path_is_chain:
  assumes "\<forall>t \<in> {1..<n}. par t < t" "node < n"
    and "\<forall>t < n. tgt ! t = model (ctx @ path_tokens par cand t)"
  shows "map (\<lambda>x. tgt ! x) (node # accept_path (children n par) cand tgt k node) =
    greedy_decode model (ctx @ path_tokens par cand node)
      (Suc (length (accept_path (children n par) cand tgt k node)))"
  using assms(2)
proof (induction k arbitrary: node)
  case (Suc k)
  show ?case
  proof (cases "find (\<lambda>c. cand ! c = tgt ! node) (children n par node)")
    case (Some c)
    then have c: "1 \<le> c" "c < n" "par c = node" "cand ! c = tgt ! node"
      using find_SomeD [OF Some] by (auto simp: children_def)
    have "path_tokens par cand c = path_tokens par cand node @ [tgt ! node]"
    proof -
      have "par c < c" using c(1,2) assms(1) by auto
      then show ?thesis using c by (subst path_tokens.simps) auto
    qed
    then show ?thesis using Some Suc.IH [OF c(2)] Suc.prems assms(3) by simp
  qed (use Suc.prems assms(3) in simp)
qed (use assms(3) in simp)

section \<open>The kernel on chains\<close>

definition match_len :: "nat \<Rightarrow> int list \<Rightarrow> int list \<Rightarrow> nat" where
  "match_len n cand tgt = length (takeWhile (\<lambda>i. cand ! i = tgt ! (i - 1)) [1..<n])"

lemma children_chain: "p < n \<Longrightarrow> children n (\<lambda>i. i - 1) p = (if Suc p < n then [Suc p] else [])"
proof (induction n)
  case (Suc n)
  have "filter (\<lambda>i. i - 1 = n) [1..<n] = []" by (auto simp: filter_empty_conv)
  then show ?case using Suc by (cases "p = n"; cases n) (auto simp: children_def less_Suc_eq)
qed simp

lemma chain_path:
  "Suc node + k \<le> n \<Longrightarrow> accept_path (children n (\<lambda>i. i - 1)) cand tgt k node =
     takeWhile (\<lambda>i. cand ! i = tgt ! (i - 1)) [Suc node..<Suc node + k]"
proof (induction k arbitrary: node)
  case (Suc k)
  have c: "children n (\<lambda>i. i - 1) node = [Suc node]" using Suc.prems by (subst children_chain) auto
  have u: "[Suc node..<Suc node + Suc k] = Suc node # [Suc (Suc node)..<Suc (Suc node) + k]"
    by (subst upt_conv_Cons) auto
  have IH: "accept_path (children n (\<lambda>i. i - 1)) cand tgt k (Suc node) =
      takeWhile (\<lambda>i. cand ! i = tgt ! (i - 1)) [Suc (Suc node)..<Suc (Suc node) + k]"
    using Suc.prems by (intro Suc.IH) simp
  show ?case unfolding u accept_path.simps c using IH by (simp del: upt_Suc)
qed simp

text \<open>The state of the kernel's loop after the rounds below \<open>k\<close>.\<close>

definition kernel_inv ::
  "nat \<Rightarrow> nat \<Rightarrow> int list \<Rightarrow> int list \<Rightarrow> kernel_bufs \<Rightarrow> nat \<Rightarrow> kernel_bufs \<times> kernel_regs \<Rightarrow> bool" where
  "kernel_inv n req cand tgt K k st \<longleftrightarrow> (case st of (K', R) \<Rightarrow>
     let l = length (takeWhile (\<lambda>i. cand ! i = tgt ! (i - 1)) [1..<k]) in
     k_num R = int l \<and> k_last R = int (req * n + l) \<and> k_rejected R = (l < k - 1) \<and>
     k_accept_num K' = k_accept_num K \<and>
     (\<forall>a. k_accept_index K' a =
        (if int (req * n) \<le> a \<and> a \<le> int (req * n + l) then Some a else k_accept_index K a)) \<and>
     (\<forall>a. k_predicts K' a =
        (if int (req * n) \<le> a \<and> a < int (req * n + l) then Some (tgt ! nat (a - int (req * n))) else k_predicts K a)))"

lemma kernel_round_step:
  assumes k: "1 \<le> k" "k < n" and ri: "ri = map (\<lambda>t. int (req * n + t)) [0..<n]"
    and inv: "kernel_inv n req cand tgt K k st"
  shows "kernel_inv n req cand tgt K (Suc k) (verify_kernel_round n req cand ri tgt k st)"
proof -
  obtain K1 R where st: "st = (K1, R)" by (cases st)
  let ?P = "\<lambda>i. cand ! i = tgt ! (i - 1)"
  let ?l = "length (takeWhile ?P [1..<k])"
  have le: "?l \<le> k - 1" using length_takeWhile_le [of ?P "[1..<k]"] by simp
  have full: "takeWhile ?P [1..<k] = [1..<k] \<longleftrightarrow> ?l = k - 1"
    by (metis length_upt takeWhile_eq_take take_all_iff le_refl takeWhile_eq_all_conv)
  have snoc: "length (takeWhile ?P [1..<Suc k]) = (if ?l = k - 1 \<and> ?P k then k else ?l)"
    using k full by (simp add: takeWhile_append takeWhile_eq_all_conv [symmetric])
  show ?thesis
  proof (cases "k_rejected R")
    case True
    then show ?thesis using inv snoc le k unfolding st kernel_inv_def verify_kernel_round_def Let_def
      by (auto split: if_splits)
  next
    case False
    then have l: "?l = k - 1" using inv le unfolding st kernel_inv_def Let_def by auto
    have nk: "nat (int k - 1) = k - 1" using k by simp
    show ?thesis
    proof (cases "?P k")
      case True
      then show ?thesis using inv snoc l k False ri nk unfolding st kernel_inv_def verify_kernel_round_def Let_def
        by auto
    next
      case F: False
      then show ?thesis using inv snoc l k False unfolding st kernel_inv_def verify_kernel_round_def Let_def
        by auto
    qed
  qed
qed

lemma kernel_result:
  assumes n: "0 < n" and ri: "ris ! req = map (\<lambda>t. int (req * n + t)) [0..<n]"
    and l: "l = match_len n (cands ! req) (targets ! req)"
    and K': "K' = verify_tree_greedy_kernel n cands ris targets req K"
  shows "k_accept_num K' = (k_accept_num K)(int req \<mapsto> int l)"
    and "k_accept_index K' a = (if int (req * n) \<le> a \<and> a \<le> int (req * n + l) then Some a else k_accept_index K a)"
    and "k_predicts K' a = (if int (req * n) \<le> a \<and> a \<le> int (req * n + l)
       then Some (targets ! req ! nat (a - int (req * n))) else k_predicts K a)"
proof -
  let ?body = "\<lambda>st i. verify_kernel_round n req (cands ! req) (ris ! req) (targets ! req) i st"
  let ?st0 = "(K\<lparr>k_accept_index := (k_accept_index K)(int (req * n) \<mapsto> ris ! req ! 0)\<rparr>,
      \<lparr>k_last = ris ! req ! 0, k_num = 0, k_rejected = False\<rparr>)"
  have "1 \<le> k \<Longrightarrow> k \<le> n \<Longrightarrow>
      kernel_inv n req (cands ! req) (targets ! req) K k (foldl ?body ?st0 [1..<k])" for k
  proof (induction k)
    case (Suc k)
    show ?case
    proof (cases "k = 0")
      case True
      then show ?thesis using n by (auto simp: kernel_inv_def ri)
    next
      case False
      then show ?thesis using Suc kernel_round_step [OF _ _ ri, of k "cands ! req" "targets ! req" K] by simp
    qed
  qed simp
  from this [of n] n have inv: "kernel_inv n req (cands ! req) (targets ! req) K n (foldl ?body ?st0 [1..<n])" by simp
  obtain K1 R where st: "foldl ?body ?st0 [1..<n] = (K1, R)" by (cases "foldl ?body ?st0 [1..<n]")
  have r: "k_num R = int l" "k_last R = int (req * n + l)" "k_accept_num K1 = k_accept_num K"
    "\<And>a. k_accept_index K1 a = (if int (req * n) \<le> a \<and> a \<le> int (req * n + l) then Some a else k_accept_index K a)"
    "\<And>a. k_predicts K1 a = (if int (req * n) \<le> a \<and> a < int (req * n + l)
       then Some (targets ! req ! nat (a - int (req * n))) else k_predicts K a)"
    using inv unfolding st kernel_inv_def Let_def match_len_def [symmetric] l [symmetric] by auto
  have K1: "K' = K1\<lparr>k_accept_num := (k_accept_num K1)(int req \<mapsto> k_num R),
      k_predicts := (k_predicts K1)(k_last R \<mapsto> targets ! req ! nat (k_last R - int n * int req))\<rparr>"
    unfolding K' verify_tree_greedy_kernel_def Let_def st by simp
  have "k_last R - int n * int req = int l" unfolding r(2) by (simp add: mult.commute)
  then show "k_predicts K' a = (if int (req * n) \<le> a \<and> a \<le> int (req * n + l)
       then Some (targets ! req ! nat (a - int (req * n))) else k_predicts K a)"
    unfolding K1 using r(2,5) by auto
  show "k_accept_num K' = (k_accept_num K)(int req \<mapsto> int l)" unfolding K1 using r by simp
  show "k_accept_index K' a = (if int (req * n) \<le> a \<and> a \<le> int (req * n + l) then Some a else k_accept_index K a)"
    unfolding K1 using r by simp
qed

lemma match_len_less: "0 < n \<Longrightarrow> match_len n cand tgt < n"
  using length_takeWhile_le [of _ "[1..<n]"] unfolding match_len_def
  by (metis One_nat_def Suc_leI diff_less le_less_trans length_upt zero_less_one)

lemma chain_greedy_path:
  "0 < n \<Longrightarrow> greedy_path n (\<lambda>i. i - 1) cand tgt = [1..<Suc (match_len n cand tgt)]"
proof -
  assume n: "0 < n"
  let ?P = "\<lambda>i. cand ! i = tgt ! (i - 1)"
  have "greedy_path n (\<lambda>i. i - 1) cand tgt = takeWhile ?P [1..<n]"
    unfolding greedy_path_def using n chain_path [of 0 "n - 1" n cand tgt] by simp
  also have "\<dots> = take (match_len n cand tgt) [1..<n]" unfolding match_len_def by (rule takeWhile_eq_take)
  also have "\<dots> = [1..<Suc (match_len n cand tgt)]" using match_len_less [OF n, of cand tgt] by (simp del: upt_Suc)
  finally show ?thesis .
qed

lemma kernel_launch:
  assumes n: "0 < n" and ris: "ris = index_rows (length cands) n"
    and l: "\<And>b. l b = match_len n (cands ! b) (targets ! b)"
    and K': "K' = verify_tree_greedy n cands ris targets K" and b: "b < length cands" and j: "j \<le> l b"
  shows "k_accept_num K' (int b) = Some (int (l b))"
    and "k_accept_index K' (int (b * n + j)) = Some (int (b * n + j))"
    and "k_predicts K' (int (b * n + j)) = Some (targets ! b ! j)"
proof -
  let ?run = "\<lambda>k. foldl (\<lambda>K req. verify_tree_greedy_kernel n cands ris targets req K) K [0..<k]"
  have ln: "l b < n" for b unfolding l by (rule match_len_less [OF n])
  have jn: "j < n" using j ln [of b] by simp
  have ri: "ris ! k = map (\<lambda>t. int (k * n + t)) [0..<n]" if "k < length cands" for k
    using that by (simp add: ris index_rows_def)
  have "k \<le> length cands \<Longrightarrow> b < k \<Longrightarrow> k_accept_num (?run k) (int b) = Some (int (l b)) \<and>
      k_accept_index (?run k) (int (b * n + j)) = Some (int (b * n + j)) \<and>
      k_predicts (?run k) (int (b * n + j)) = Some (targets ! b ! j)" for k
  proof (induction k)
    case (Suc k)
    have k: "k < length cands" using Suc.prems by simp
    note res = kernel_result [OF n ri [OF k] l [of k] refl, of "?run k"]
    have run: "?run (Suc k) = verify_tree_greedy_kernel n cands ris targets k (?run k)" by simp
    show ?case
    proof (cases "b = k")
      case True
      then show ?thesis unfolding run res using j by simp
    next
      case False
      then have bk: "b < k" using Suc.prems by simp
      have "\<not> int (k * n) \<le> int (b * n + j)" using row_major_less [OF bk jn] by linarith
      then show ?thesis unfolding run res using False bk Suc.IH k by simp
    qed
  qed simp
  from this [OF order_refl b]
  show "k_accept_num K' (int b) = Some (int (l b))" "k_accept_index K' (int (b * n + j)) = Some (int (b * n + j))"
    "k_predicts K' (int (b * n + j)) = Some (targets ! b ! j)"
    unfolding K' verify_tree_greedy_def by simp_all
qed
text \<open>A tree of four tokens: the root, its children 1 and 2, and token 3 below token 1.\<close>

definition demo_par :: "nat \<Rightarrow> nat" where
  "demo_par i = (if i = 3 then 1 else 0)"

definition demo_out :: "nat \<Rightarrow> verify_out" where
  "demo_out n = \<lparr>out_predicts = replicate n 0, out_accept_index = [replicate n (-1)], out_accept_num = [0]\<rparr>"


section \<open>The contract of a greedy verifier\<close>

text \<open>
  A verification of one request of a batch: the buffers of the batch and the request. A verifier
  emits, for every case it is meant for, the target's tokens along the greedy path of the request's tree.
\<close>

record verify_case =
  vc_width :: nat
  vc_batch :: nat
  vc_cols :: nat
  vc_par :: "nat \<Rightarrow> nat \<Rightarrow> nat"
  vc_cands :: "int list list"
  vc_index :: "int list list"
  vc_next_token :: "int list list"
  vc_next_sibling :: "int list list"
  vc_targets :: "int list list"
  vc_out :: verify_out
  vc_bufs :: kernel_bufs
  vc_topk :: int
  vc_req :: nat

definition vc_ok :: "verify_case \<Rightarrow> bool" where
  "vc_ok c \<longleftrightarrow> vc_req c < vc_batch c \<and>
     verify_args_ok (vc_width c) (vc_batch c) (vc_cols c) (vc_par c) (vc_cands c) (vc_index c)
       (vc_next_token c) (vc_next_sibling c) (vc_targets c) (vc_out c)"

definition vc_chain :: "verify_case \<Rightarrow> bool" where
  "vc_chain c \<longleftrightarrow> vc_ok c \<and> vc_par c = (\<lambda>_ i. i - 1)"

definition native_emitted :: "verify_case \<Rightarrow> int list" where
  "native_emitted c =
     (case verify_tree_greedy_native (vc_width c) (vc_width c) (vc_out c) (vc_cands c) (vc_index c)
             (vc_next_token c) (vc_next_sibling c) (vc_targets c) (vc_topk c) of
        Inl e \<Rightarrow> []
      | Inr V \<Rightarrow> map (\<lambda>i. out_predicts V ! nat i)
          (take (Suc (nat (out_accept_num V ! vc_req c))) (out_accept_index V ! vc_req c)))"

definition kernel_emitted :: "verify_case \<Rightarrow> int list" where
  "kernel_emitted c =
     (let K = verify_tree_greedy (vc_width c) (vc_cands c) (vc_index c) (vc_targets c) (vc_bufs c);
          k = nat (the (k_accept_num K (int (vc_req c))))
      in map (\<lambda>j. the (k_predicts K (the (k_accept_index K (int (vc_req c * vc_width c + j)))))) [0..<Suc k])"

locale greedy_verifier =
  fixes meant :: "verify_case \<Rightarrow> bool" and emitted :: "verify_case \<Rightarrow> int list"
  assumes meant_ok: "meant c \<Longrightarrow> vc_ok c"
    and emitted_path: "meant c \<Longrightarrow> emitted c = map (\<lambda>x. vc_targets c ! vc_req c ! x)
      (0 # greedy_path (vc_width c) (vc_par c (vc_req c)) (vc_cands c ! vc_req c) (vc_targets c ! vc_req c))"
begin

lemma emitted_nonempty: "meant c \<Longrightarrow> emitted c \<noteq> []"
  by (simp add: emitted_path)

lemma lossless:
  assumes c: "meant c"
    and model: "\<forall>t < vc_width c. vc_targets c ! vc_req c ! t =
      model (ctx @ path_tokens (vc_par c (vc_req c)) (vc_cands c ! vc_req c) t)"
  shows "emitted c = greedy_decode model (ctx @ [vc_cands c ! vc_req c ! 0]) (length (emitted c))"
proof -
  let ?par = "vc_par c (vc_req c)" and ?cand = "vc_cands c ! vc_req c" and ?tgt = "vc_targets c ! vc_req c"
  have ok: "0 < vc_width c" "\<forall>t \<in> {1..<vc_width c}. ?par t < t"
    using meant_ok [OF c] by (auto simp: vc_ok_def verify_args_ok_def)
  have "emitted c = greedy_decode model (ctx @ path_tokens ?par ?cand 0)
      (Suc (length (greedy_path (vc_width c) ?par ?cand ?tgt)))"
    unfolding emitted_path [OF c] greedy_path_def by (rule path_is_chain [OF ok(2,1) model])
  then show ?thesis by (simp add: emitted_path [OF c] path_tokens.simps)
qed

end

interpretation native: greedy_verifier vc_ok native_emitted
proof
  fix c assume c: "vc_ok c"
  define path where "path = (\<lambda>b. greedy_path (vc_width c) (vc_par c b) (vc_cands c ! b) (vc_targets c ! b))"
  have ok: "verify_args_ok (vc_width c) (vc_batch c) (vc_cols c) (vc_par c) (vc_cands c) (vc_index c)
       (vc_next_token c) (vc_next_sibling c) (vc_targets c) (vc_out c)" "vc_req c < vc_batch c"
    using c by (simp_all add: vc_ok_def)
  obtain V where V: "verify_tree_greedy_native (vc_width c) (vc_width c) (vc_out c) (vc_cands c) (vc_index c)
       (vc_next_token c) (vc_next_sibling c) (vc_targets c) (vc_topk c) = Inr V"
    "out_accept_index V = map (\<lambda>b. accept_row_of (vc_width c) (vc_cols c) b (path b)) [0..<vc_batch c]"
    "out_accept_num V = map (\<lambda>b. int (length (path b))) [0..<vc_batch c]"
    "\<forall>b < vc_batch c. \<forall>x \<in> set (0 # path b). out_predicts V ! (b * vc_width c + x) = vc_targets c ! b ! x"
    using verify_native_result [OF ok(1), of path "vc_topk c"] unfolding path_def by blast
  have "take (Suc (length (path (vc_req c)))) (out_accept_index V ! vc_req c) =
      map (\<lambda>x. int (vc_req c * vc_width c + x)) (0 # path (vc_req c))"
    using V(2) ok(2) by (simp add: accept_row_of_def)
  then have "native_emitted c =
      map (\<lambda>x. out_predicts V ! (vc_req c * vc_width c + x)) (0 # path (vc_req c))"
    using V(1,3) ok(2) by (simp add: native_emitted_def nat_add_distrib nat_mult_distrib)
  also have "\<dots> = map (\<lambda>x. vc_targets c ! vc_req c ! x) (0 # path (vc_req c))"
    using V(4) ok(2) by (intro map_cong) auto
  finally show "native_emitted c = map (\<lambda>x. vc_targets c ! vc_req c ! x)
      (0 # greedy_path (vc_width c) (vc_par c (vc_req c)) (vc_cands c ! vc_req c) (vc_targets c ! vc_req c))"
    by (simp add: path_def)
qed

interpretation chain_kernel: greedy_verifier vc_chain kernel_emitted
proof
  fix c assume c: "vc_chain c"
  then show "vc_ok c" by (simp add: vc_chain_def)
  let ?l = "\<lambda>b. match_len (vc_width c) (vc_cands c ! b) (vc_targets c ! b)"
  let ?K = "verify_tree_greedy (vc_width c) (vc_cands c) (vc_index c) (vc_targets c) (vc_bufs c)"
  have ok: "0 < vc_width c" "vc_index c = index_rows (length (vc_cands c)) (vc_width c)" "vc_req c < length (vc_cands c)"
    and par: "vc_par c = (\<lambda>_ i. i - 1)"
    using c by (auto simp: vc_chain_def vc_ok_def verify_args_ok_def)
  note K = kernel_launch [OF ok(1,2) refl refl ok(3), of _ "vc_targets c" "vc_bufs c"]
  have k: "nat (the (k_accept_num ?K (int (vc_req c)))) = ?l (vc_req c)" unfolding K(1) [OF le0] by simp
  have "kernel_emitted c = map (\<lambda>j. vc_targets c ! vc_req c ! j) [0..<Suc (?l (vc_req c))]"
    unfolding kernel_emitted_def Let_def k
  proof (rule map_cong [OF refl])
    fix j assume "j \<in> set [0..<Suc (?l (vc_req c))]"
    then have j: "j \<le> ?l (vc_req c)" by auto
    show "the (k_predicts ?K (the (k_accept_index ?K (int (vc_req c * vc_width c + j))))) =
        vc_targets c ! vc_req c ! j"
      unfolding K(2) [OF j] option.sel K(3) [OF j] ..
  qed
  also have "[0..<Suc (?l (vc_req c))] = 0 # [1..<Suc (?l (vc_req c))]" by (simp add: upt_conv_Cons del: upt_Suc)
  also have "[1..<Suc (?l (vc_req c))] =
      greedy_path (vc_width c) (vc_par c (vc_req c)) (vc_cands c ! vc_req c) (vc_targets c ! vc_req c)"
    unfolding par using chain_greedy_path [OF ok(1)] by simp
  finally show "kernel_emitted c = map (\<lambda>x. vc_targets c ! vc_req c ! x)
      (0 # greedy_path (vc_width c) (vc_par c (vc_req c)) (vc_cands c ! vc_req c) (vc_targets c ! vc_req c))" .
qed

section \<open>Properties\<close>

text \<open>
  \<open>verify_tree_greedy_native\<close> accepts the greedy path of every request, on both of its code paths:
  it raises nothing, the accept row holds the root, the path and then \<open>-1\<close>, the accepted number is the
  length of the path, and the predictions at the accepted nodes are the target's.
\<close>

lemma verify_native_accepts_greedy_path:
  assumes "verify_args_ok n bs cols par cands ris nts nss targets V"
  shows "\<exists>V'. verify_tree_greedy_native n n V cands ris nts nss targets topk = Inr V' \<and>
    (\<forall>b < bs. let path = greedy_path n (par b) (cands ! b) (targets ! b) in
       out_accept_index V' ! b = accept_row_of n cols b path \<and>
       out_accept_num V' ! b = int (length path) \<and>
       (\<forall>x \<in> set (0 # path). out_predicts V' ! (b * n + x) = targets ! b ! x))"
  using verify_native_result [OF assms refl, of topk] by auto

lemma demo_args_ok:
  "verify_args_ok 4 1 4 (\<lambda>_. demo_par) [[10, 11, 12, 13]] [[0, 1, 2, 3]] [[1, 3, -1, -1]] [[-1, 2, -1, -1]]
     [[11, 13, 9, 8]] (demo_out 4)"
proof -
  have g: "greedy_path 4 demo_par [10, 11, 12, 13] [11, 13, 9, 8] = [1, 3]" by code_simp
  have l: "\<forall>p < 4. linked [-1, 2, -1, -1] ([1, 3, -1, -1] ! p) (children 4 demo_par p)" by code_simp
  have i: "index_rows 1 4 = [[0, 1, 2, 3]]" by code_simp
  have p: "\<forall>t \<in> {1..<4}. demo_par t < t" by (auto simp: demo_par_def)
  show ?thesis using g l i p by (simp add: verify_args_ok_def demo_out_def)
qed

lemma verify_native_accepts_greedy_path_witness:
  "\<exists>V'. verify_tree_greedy_native 4 4 (demo_out 4) [[10, 11, 12, 13]] [[0, 1, 2, 3]] [[1, 3, -1, -1]]
      [[-1, 2, -1, -1]] [[11, 13, 9, 8]] 2 = Inr V' \<and>
    (\<forall>b < 1. let path = greedy_path 4 ((\<lambda>_. demo_par) b) ([[10, 11, 12, 13]] ! b) ([[11, 13, 9, 8]] ! b) in
       out_accept_index V' ! b = accept_row_of 4 4 b path \<and>
       out_accept_num V' ! b = int (length path) \<and>
       (\<forall>x \<in> set (0 # path). out_predicts V' ! (b * 4 + x) = [[11, 13, 9, 8]] ! b ! x))"
  by (rule verify_native_accepts_greedy_path [OF demo_args_ok])

text \<open>
  Speculative decoding is lossless under greedy verification: when the target's prediction at a
  node is the model's choice after the context and the tokens from the root to the node, the predictions
  at the accepted nodes are the tokens that greedy decoding of the model alone produces, one more than
  the number of accepted drafts.
\<close>

lemma verify_native_lossless:
  assumes "verify_args_ok n bs cols par cands ris nts nss targets V"
    and "\<forall>b < bs. \<forall>t < n. targets ! b ! t = model (ctx b @ path_tokens (par b) (cands ! b) t)"
  shows "\<exists>V'. verify_tree_greedy_native n n V cands ris nts nss targets topk = Inr V' \<and>
    (\<forall>b < bs. let k = nat (out_accept_num V' ! b) in
       map (\<lambda>i. out_predicts V' ! nat i) (take (Suc k) (out_accept_index V' ! b)) =
       greedy_decode model (ctx b @ [cands ! b ! 0]) (Suc k))"
proof -
  define path where "path = (\<lambda>b. greedy_path n (par b) (cands ! b) (targets ! b))"
  then have path: "\<And>b. path b = greedy_path n (par b) (cands ! b) (targets ! b)" by simp
  obtain V' where V': "verify_tree_greedy_native n n V cands ris nts nss targets topk = Inr V'"
    "out_accept_index V' = map (\<lambda>b. accept_row_of n cols b (path b)) [0..<bs]"
    "out_accept_num V' = map (\<lambda>b. int (length (path b))) [0..<bs]"
    "\<forall>b < bs. \<forall>x \<in> set (0 # path b). out_predicts V' ! (b * n + x) = targets ! b ! x"
    using verify_native_result [OF assms(1) path] by blast
  have n: "0 < n" "\<And>b. b < bs \<Longrightarrow> \<forall>t \<in> {1..<n}. par b t < t"
    using assms(1) by (simp_all add: verify_args_ok_def)
  have "map (\<lambda>i. out_predicts V' ! nat i) (take (Suc (length (path b))) (out_accept_index V' ! b)) =
      greedy_decode model (ctx b @ [cands ! b ! 0]) (Suc (length (path b)))" if b: "b < bs" for b
  proof -
    have "take (Suc (length (path b))) (out_accept_index V' ! b) = map (\<lambda>x. int (b * n + x)) (0 # path b)"
      using V'(2) b by (simp add: accept_row_of_def)
    then have "map (\<lambda>i. out_predicts V' ! nat i) (take (Suc (length (path b))) (out_accept_index V' ! b)) =
        map (\<lambda>x. out_predicts V' ! (b * n + x)) (0 # path b)" by (simp add: nat_add_distrib nat_mult_distrib)
    also have "\<dots> = map (\<lambda>x. targets ! b ! x) (0 # path b)" using V'(4) b by (intro map_cong) auto
    also have "\<dots> = greedy_decode model (ctx b @ path_tokens (par b) (cands ! b) 0) (Suc (length (path b)))"
      unfolding path greedy_path_def using n b assms(2) by (intro path_is_chain) auto
    finally show ?thesis by (simp add: path_tokens.simps)
  qed
  then show ?thesis using V'(1,3) by (simp add: Let_def)
qed

lemma verify_native_lossless_witness:
  "\<exists>V'. verify_tree_greedy_native 4 4 (demo_out 4) [[10, 11, 12, 13]] [[0, 1, 2, 3]] [[1, 3, -1, -1]]
      [[-1, 2, -1, -1]] [[11, 13, 9, 8]] 2 = Inr V' \<and>
    (\<forall>b < 1. let k = nat (out_accept_num V' ! b) in
       map (\<lambda>i. out_predicts V' ! nat i) (take (Suc k) (out_accept_index V' ! b)) =
       greedy_decode (\<lambda>c. if c = [5, 10] then 11 else if c = [5, 10, 11] then 13 else if c = [5, 10, 12] then 9 else 8)
         ((\<lambda>_. [5]) b @ [[[10, 11, 12, 13]] ! b ! 0]) (Suc k))"
proof (rule verify_native_lossless [OF demo_args_ok])
  have "path_tokens demo_par [10, 11, 12, 13] t = [[10], [10, 11], [10, 12], [10, 11, 13]] ! t" if "t < 4" for t
    using that by (auto simp: less_Suc_eq numeral_eq_Suc path_tokens.simps demo_par_def)
  then show "\<forall>b < 1. \<forall>t < 4. [[11, 13, 9, 8]] ! b ! t =
      (if (\<lambda>_. [5]) b @ path_tokens demo_par ([[10, 11, 12, 13]] ! b) t = [5, 10] then 11
       else if (\<lambda>_. [5]) b @ path_tokens demo_par ([[10, 11, 12, 13]] ! b) t = [5, 10, 11] then 13
       else if (\<lambda>_. [5]) b @ path_tokens demo_par ([[10, 11, 12, 13]] ! b) t = [5, 10, 12] then 9 else 8)"
    by (auto simp: less_Suc_eq numeral_eq_Suc)
qed

text \<open>
  On chains (every token is the child of the token before it) the Triton kernel that the NPU build
  verifies with gives what \<open>verify_tree_greedy_native\<close> gives: the accepted number, the accepted
  indices and the predictions at the accepted nodes.
\<close>

lemma verify_kernel_eq_native_on_chains:
  assumes "verify_args_ok n bs cols (\<lambda>_ i. i - 1) cands ris nts nss targets V"
  shows "\<exists>V'. verify_tree_greedy_native n n V cands ris nts nss targets topk = Inr V' \<and>
    (let K' = verify_tree_greedy n cands ris targets K in
     \<forall>b < bs. k_accept_num K' (int b) = Some (out_accept_num V' ! b) \<and>
       (\<forall>j \<le> nat (out_accept_num V' ! b).
          k_accept_index K' (int (b * n + j)) = Some (out_accept_index V' ! b ! j) \<and>
          k_predicts K' (int (b * n + j)) = Some (out_predicts V' ! (b * n + j))))"
proof -
  let ?l = "\<lambda>b. match_len n (cands ! b) (targets ! b)"
  have n: "0 < n" and ris: "ris = index_rows (length cands) n" and bs: "length cands = bs"
    using assms by (simp_all add: verify_args_ok_def)
  obtain V' where V': "verify_tree_greedy_native n n V cands ris nts nss targets topk = Inr V'"
    "out_accept_index V' = map (\<lambda>b. accept_row_of n cols b [1..<Suc (?l b)]) [0..<bs]"
    "out_accept_num V' = map (\<lambda>b. int (?l b)) [0..<bs]"
    "\<forall>b < bs. \<forall>x \<in> set (0 # [1..<Suc (?l b)]). out_predicts V' ! (b * n + x) = targets ! b ! x"
    using verify_native_result [OF assms, of "\<lambda>b. [1..<Suc (?l b)]" topk] chain_greedy_path [OF n] by auto
  have "(0 # [1..<Suc (?l b)]) ! j = j" if "j \<le> ?l b" for b j using that by (cases j) (simp_all del: upt_Suc)
  then have row: "out_accept_index V' ! b ! j = int (b * n + j)" if "b < bs" "j \<le> ?l b" for b j
    using that V'(2) unfolding accept_row_of_def by (simp add: nth_append nth_map del: upt_Suc list.map)
  have pr: "out_predicts V' ! (b * n + j) = targets ! b ! j" if "b < bs" "j \<le> ?l b" for b j
  proof -
    have "j \<in> set (0 # [1..<Suc (?l b)])" using that(2) by (cases j) auto
    then show ?thesis using V'(4) that(1) by blast
  qed
  note K = kernel_launch [OF n ris refl refl]
  show ?thesis using V'(1,3) K bs row pr by (auto simp: Let_def simp del: of_nat_add of_nat_mult)
qed

lemma verify_kernel_eq_native_on_chains_witness:
  "\<exists>V'. verify_tree_greedy_native 3 3 (demo_out 3) [[10, 11, 12]] [[0, 1, 2]] [[1, 2, -1]] [[-1, -1, -1]]
      [[11, 7, 9]] 1 = Inr V' \<and>
    (let K' = verify_tree_greedy 3 [[10, 11, 12]] [[0, 1, 2]] [[11, 7, 9]]
        \<lparr>k_predicts = Map.empty, k_accept_index = Map.empty, k_accept_num = Map.empty\<rparr> in
     \<forall>b < 1. k_accept_num K' (int b) = Some (out_accept_num V' ! b) \<and>
       (\<forall>j \<le> nat (out_accept_num V' ! b).
          k_accept_index K' (int (b * 3 + j)) = Some (out_accept_index V' ! b ! j) \<and>
          k_predicts K' (int (b * 3 + j)) = Some (out_predicts V' ! (b * 3 + j))))"
proof -
  have g: "greedy_path 3 (\<lambda>i. i - 1) [10, 11, 12] [11, 7, 9] = [1]" by code_simp
  have l: "\<forall>p < 3. linked [-1, -1, -1] ([1, 2, -1] ! p) (children 3 (\<lambda>i. i - 1) p)" by code_simp
  have i: "index_rows 1 3 = [[0, 1, 2]]" by code_simp
  have "verify_args_ok 3 1 3 (\<lambda>_ i. i - 1) [[10, 11, 12]] [[0, 1, 2]] [[1, 2, -1]] [[-1, -1, -1]] [[11, 7, 9]]
      (demo_out 3)"
    using g l i by (simp add: verify_args_ok_def demo_out_def)
  from verify_kernel_eq_native_on_chains [OF this] show ?thesis .
qed

text \<open>
  C15. The Triton kernel is lossless on chains: the tokens it emits for a request are those that greedy
  decoding of the model alone produces after the context and the verified token.
\<close>

theorem verify_kernel_lossless_on_chains:
  assumes "vc_chain c"
    and "\<forall>t < vc_width c. vc_targets c ! vc_req c ! t =
      model (ctx @ path_tokens (\<lambda>i. i - 1) (vc_cands c ! vc_req c) t)"
  shows "kernel_emitted c \<noteq> [] \<and>
    kernel_emitted c = greedy_decode model (ctx @ [vc_cands c ! vc_req c ! 0]) (length (kernel_emitted c))"
proof -
  have "vc_par c = (\<lambda>_ i. i - 1)" using assms(1) by (simp add: vc_chain_def)
  then show ?thesis
    using chain_kernel.lossless [OF assms(1), of model ctx] assms chain_kernel.emitted_nonempty by simp
qed

theorem verify_kernel_lossless_on_chains_witness:
  "\<exists>c. vc_chain c \<and> kernel_emitted c = greedy_decode (\<lambda>c. int (length c) + 8) ([5, 6] @ [vc_cands c ! vc_req c ! 0])
      (length (kernel_emitted c)) \<and> vc_cands c = [[10, 11, 12]]"
proof -
  let ?c = "\<lparr>vc_width = 3, vc_batch = 1, vc_cols = 3, vc_par = (\<lambda>_ i. i - 1), vc_cands = [[10, 11, 12]],
    vc_index = [[0, 1, 2]], vc_next_token = [[1, 2, -1]], vc_next_sibling = [[-1, -1, -1]],
    vc_targets = [[11, 12, 13]], vc_out = demo_out 3,
    vc_bufs = \<lparr>k_predicts = Map.empty, k_accept_index = Map.empty, k_accept_num = Map.empty\<rparr>,
    vc_topk = 1, vc_req = 0\<rparr>"
  have g: "greedy_path 3 (\<lambda>i. i - 1) [10, 11, 12] [11, 12, 13] = [1, 2]" by code_simp
  have l: "\<forall>p < 3. linked [-1, -1, -1] ([1, 2, -1] ! p) (children 3 (\<lambda>i. i - 1) p)" by code_simp
  have i: "index_rows 1 3 = [[0, 1, 2]]" by code_simp
  have ok: "vc_chain ?c" using g l i by (simp add: vc_chain_def vc_ok_def verify_args_ok_def demo_out_def)
  have "path_tokens (\<lambda>i. i - 1) [10, 11, 12] t = [[10], [10, 11], [10, 11, 12]] ! t" if "t < 3" for t
    using that by (auto simp: less_Suc_eq numeral_eq_Suc path_tokens.simps [of _ _ 0]
        path_tokens.simps [of _ _ "Suc 0"] path_tokens.simps [of _ _ "Suc (Suc 0)"])
  then have m: "\<forall>t < vc_width ?c. vc_targets ?c ! vc_req ?c ! t =
      (\<lambda>c. int (length c) + 8) ([5, 6] @ path_tokens (\<lambda>i. i - 1) (vc_cands ?c ! vc_req ?c) t)"
    by (auto simp: less_Suc_eq numeral_eq_Suc)
  note res = verify_kernel_lossless_on_chains [OF ok m]
  show ?thesis by (intro exI conjI) (rule ok, rule res [THEN conjunct2], simp)
qed

text \<open>
  The Triton kernel reads no links: on a tree that is no chain it can accept nothing where
  \<open>verify_tree_greedy_native\<close> accepts a sibling's token.
\<close>

lemma verify_kernel_ignores_siblings:
  "verify_tree_greedy_native 3 3 (demo_out 3) [[10, 11, 12]] [[0, 1, 2]] [[1, -1, -1]] [[-1, 2, -1]] [[12, 7, 9]] 2 =
     Inr \<lparr>out_predicts = [12, 0, 9], out_accept_index = [[0, 2, -1]], out_accept_num = [1]\<rparr> \<and>
   k_accept_num (verify_tree_greedy 3 [[10, 11, 12]] [[0, 1, 2]] [[12, 7, 9]]
     \<lparr>k_predicts = Map.empty, k_accept_index = Map.empty, k_accept_num = Map.empty\<rparr>) 0 = Some 0"
  by (simp add: verify_tree_greedy_native_def verify_request_def demo_out_def numeral_eq_Suc py_index_def py_set_def
      verify_tree_greedy_def verify_tree_greedy_kernel_def verify_kernel_round_def)

end
