(* ===== verification/Adaptive_Params.thy ===== *)
theory Adaptive_Params
  imports SD_Prelude Complex_Main
begin

text \<open>
  \<open>srt/speculative/adaptive_spec_params.py\<close>: the number of speculative steps as it follows a moving
  average of the accepted draft lengths. Floats are rationals: the theorems are about exact arithmetic.
\<close>

section \<open>Support check and configuration\<close>

record adaptive_args =
  speculative_algorithm :: "string option"
  speculative_eagle_topk :: "int option"
  enable_dp_attention :: bool
  disable_overlap_schedule :: bool
  enable_multi_layer_eagle :: bool
  enable_two_batch_overlap :: bool
  enable_pdmux :: bool

datatype unsupported_reason =
    OnlyEagle "string option" | OnlyTopkOne "int option" | NoDpAttention | NoOverlapSchedule
  | NoMultiLayerEagle | NoTwoBatchOverlap | NoPdmux

definition adaptive_unsupported_reason :: "adaptive_args \<Rightarrow> unsupported_reason option" where
  "adaptive_unsupported_reason sa =
     (if speculative_algorithm sa \<notin> {Some ''EAGLE'', Some ''EAGLE3''}
      then Some (OnlyEagle (speculative_algorithm sa))
      else if speculative_eagle_topk sa \<noteq> Some 1 then Some (OnlyTopkOne (speculative_eagle_topk sa))
      else if enable_dp_attention sa then Some NoDpAttention
      else if \<not> disable_overlap_schedule sa then Some NoOverlapSchedule
      else if enable_multi_layer_eagle sa then Some NoMultiLayerEagle
      else if enable_two_batch_overlap sa then Some NoTwoBatchOverlap
      else if enable_pdmux sa then Some NoPdmux
      else None)"

text \<open>The keys of the configuration object; \<open>None\<close> is a key that is absent.\<close>

record adaptive_config =
  cfg_candidate_steps :: "int list option"
  cfg_ema_alpha :: "rat option"
  cfg_update_interval :: "int option"
  cfg_warmup_batches :: "int option"
  cfg_down_hysteresis :: "rat option"
  cfg_up_hysteresis :: "rat option"

definition empty_config :: adaptive_config where
  "empty_config = \<lparr>cfg_candidate_steps = None, cfg_ema_alpha = None, cfg_update_interval = None,
     cfg_warmup_batches = None, cfg_down_hysteresis = None, cfg_up_hysteresis = None\<rparr>"

datatype json_value = JObject adaptive_config | JOther

text \<open>\<open>load_adaptive_config\<close>, with the parsed contents of the file at the path, if there is a path.\<close>

definition load_adaptive_config :: "json_value option \<Rightarrow> adaptive_config py" where
  "load_adaptive_config path =
     (case path of None \<Rightarrow> Inr empty_config
      | Some (JObject cfg) \<Rightarrow> Inr cfg
      | Some JOther \<Rightarrow> Inl ValueError)"

section \<open>The parameters\<close>

record adaptive_params =
  candidate_steps :: "int list"
  min_steps :: int
  max_steps :: int
  ema_alpha :: rat
  update_interval :: int
  warmup_batches :: int
  down_hysteresis :: rat
  up_hysteresis :: rat
  current_steps :: int
  ema_accept_len :: rat
  batch_count :: int

definition cfg_get :: "'a option \<Rightarrow> 'a \<Rightarrow> 'a" where
  "cfg_get v d = (case v of None \<Rightarrow> d | Some x \<Rightarrow> x)"

text \<open>\<open>min(candidates, key=lambda step: (abs(step - initial), -step))\<close>.\<close>

definition closer :: "int \<Rightarrow> int \<Rightarrow> int \<Rightarrow> bool" where
  "closer initial s t \<longleftrightarrow>
     \<bar>s - initial\<bar> < \<bar>t - initial\<bar> \<or> \<bar>s - initial\<bar> = \<bar>t - initial\<bar> \<and> - s < - t"

definition nearest_step :: "int \<Rightarrow> int list \<Rightarrow> int" where
  "nearest_step initial cs = foldl (\<lambda>best s. if closer initial s best then s else best) (hd cs) (tl cs)"

definition adaptive_init :: "int \<Rightarrow> adaptive_config option \<Rightarrow> adaptive_params py" where
  "adaptive_init initial config =
     (let cfg = cfg_get config empty_config;
          cs = sort (remdups (cfg_get (cfg_candidate_steps cfg) [1, 3, 7]))
      in py_assert (length cs \<ge> 2)
         (let cur = nearest_step initial cs
          in Inr \<lparr>candidate_steps = cs, min_steps = cs ! 0, max_steps = cs ! (length cs - 1),
                  ema_alpha = cfg_get (cfg_ema_alpha cfg) (1 / 5),
                  update_interval = cfg_get (cfg_update_interval cfg) 5,
                  warmup_batches = cfg_get (cfg_warmup_batches cfg) 10,
                  down_hysteresis = cfg_get (cfg_down_hysteresis cfg) (- 1 / 4),
                  up_hysteresis = cfg_get (cfg_up_hysteresis cfg) 0,
                  current_steps = cur, ema_accept_len = of_int (cur - 1), batch_count = 0\<rparr>))"

text \<open>The two loops of \<open>_recompute_params\<close>.\<close>

fun lower_idx :: "rat \<Rightarrow> rat \<Rightarrow> int list \<Rightarrow> nat \<Rightarrow> nat" where
  "lower_idx ema h cs 0 = 0"
| "lower_idx ema h cs (Suc i) =
     (if ema \<le> of_int (cs ! i) - 1 / 2 + h then lower_idx ema h cs i else Suc i)"

function raise_idx :: "rat \<Rightarrow> rat \<Rightarrow> int list \<Rightarrow> nat \<Rightarrow> nat" where
  "raise_idx ema h cs i =
     (if i < length cs - 1 \<and> ema > of_int (cs ! i) - 1 / 2 + h then raise_idx ema h cs (Suc i) else i)"
  by auto
termination by (relation "measure (\<lambda>(_, _, cs, i). length cs - i)") auto

declare raise_idx.simps [simp del]

fun list_index :: "'a list \<Rightarrow> 'a \<Rightarrow> nat py" where
  "list_index [] x = Inl ValueError"
| "list_index (y # ys) x = (if y = x then Inr 0 else py_bind (list_index ys x) (\<lambda>i. Inr (Suc i)))"

definition recompute_params :: "adaptive_params \<Rightarrow> (bool \<times> adaptive_params) py" where
  "recompute_params p =
     py_bind (list_index (candidate_steps p) (current_steps p)) (\<lambda>idx.
     (let i1 = lower_idx (ema_accept_len p) (down_hysteresis p) (candidate_steps p) idx;
          i2 = raise_idx (ema_accept_len p) (up_hysteresis p) (candidate_steps p) i1;
          target = candidate_steps p ! i2
      in if target \<noteq> current_steps p then Inr (True, p\<lparr>current_steps := target\<rparr>) else Inr (False, p)))"

definition batch_avg :: "int list \<Rightarrow> rat" where
  "batch_avg ns = of_int (sum_list ns) / of_nat (length ns)"

definition update_params :: "adaptive_params \<Rightarrow> int list \<Rightarrow> (bool \<times> adaptive_params) py" where
  "update_params p ns =
     (if ns = [] then Inr (False, p)
      else let p1 = p\<lparr>ema_accept_len := (1 - ema_alpha p) * ema_accept_len p + ema_alpha p * batch_avg ns,
                      batch_count := batch_count p + 1\<rparr>
           in if batch_count p1 \<le> warmup_batches p1 then Inr (False, p1)
              else if update_interval p1 = 0 then Inl ZeroDivisionError
              else if (batch_count p1 - warmup_batches p1) mod update_interval p1 \<noteq> 0 then Inr (False, p1)
              else recompute_params p1)"

section \<open>Choosing a step\<close>

text \<open>
  The interval of averages in which candidate \<open>i\<close> stays: above the drop threshold of the candidate
  below it, not above its own rise threshold.
\<close>

definition settled :: "adaptive_params \<Rightarrow> nat \<Rightarrow> bool" where
  "settled p i \<longleftrightarrow> i < length (candidate_steps p) \<and>
     (0 < i \<longrightarrow> ema_accept_len p > of_int (candidate_steps p ! (i - 1)) - 1 / 2 + down_hysteresis p) \<and>
     (i < length (candidate_steps p) - 1 \<longrightarrow>
        ema_accept_len p \<le> of_int (candidate_steps p ! i) - 1 / 2 + up_hysteresis p)"

definition adaptive_inv :: "adaptive_params \<Rightarrow> bool" where
  "adaptive_inv p \<longleftrightarrow> sorted_wrt (<) (candidate_steps p) \<and> 2 \<le> length (candidate_steps p) \<and>
     current_steps p \<in> set (candidate_steps p) \<and> min_steps p = candidate_steps p ! 0 \<and>
     max_steps p = candidate_steps p ! (length (candidate_steps p) - 1)"

text \<open>The first candidate whose threshold the average does not exceed, or the last candidate.\<close>

definition first_not_above :: "rat \<Rightarrow> rat \<Rightarrow> int list \<Rightarrow> nat" where
  "first_not_above ema h cs = length (takeWhile (\<lambda>c. ema > of_int c - 1 / 2 + h) (butlast cs))"

lemma first_not_above_le: "first_not_above ema h cs \<le> length cs - 1"
  using length_takeWhile_le [of _ "butlast cs"] by (simp add: first_not_above_def)

lemma first_not_above_iff:
  assumes cs: "sorted_wrt (<) cs" and j: "j < length cs - 1"
  shows "ema > of_int (cs ! j) - 1 / 2 + h \<longleftrightarrow> j < first_not_above ema h cs"
proof -
  let ?P = "\<lambda>c. ema > of_int c - 1 / 2 + h" and ?k = "first_not_above ema h cs"
  have nth: "i < length cs - 1 \<Longrightarrow> butlast cs ! i = cs ! i" for i by (simp add: nth_butlast)
  have below: "?P (cs ! j)" if "j < ?k"
    using that nth_mem [of j "takeWhile ?P (butlast cs)"] set_takeWhileD [of "cs ! j" ?P] nth [OF j]
    by (simp add: first_not_above_def takeWhile_nth)
  have "\<not> ?P (cs ! j)" if "?k \<le> j"
  proof -
    have k: "?k < length (butlast cs)" using that j by simp
    then have "\<not> ?P (cs ! ?k)" using nth_length_takeWhile [of ?P "butlast cs"] nth [of ?k] by (simp add: first_not_above_def)
    moreover have "j < length cs" using j by simp
    then have "cs ! ?k \<le> cs ! j" using sorted_wrt_nth_less [OF cs, of ?k j] that by (cases "?k = j") auto
    then have "(of_int (cs ! ?k) :: rat) \<le> of_int (cs ! j)" by simp
    ultimately show ?thesis by linarith
  qed
  then show ?thesis using below by (meson not_less)
qed

lemma lower_idx_eq:
  assumes "sorted_wrt (<) cs" "i < length cs"
  shows "lower_idx ema h cs i = min i (first_not_above ema h cs)"
  using assms(2)
proof (induction i)
  case (Suc i)
  have "i < length cs - 1" using Suc.prems by linarith
  with first_not_above_iff [OF assms(1) this, of h ema] show ?case using Suc by (auto simp: not_less min_def)
qed simp

lemma raise_idx_eq:
  assumes "sorted_wrt (<) cs" "i < length cs"
  shows "raise_idx ema h cs i = max i (first_not_above ema h cs)"
  using assms
proof (induction ema h cs i rule: raise_idx.induct)
  case (1 ema h cs i)
  show ?case
  proof (cases "i < length cs - 1")
    case True
    then show ?thesis using 1 first_not_above_iff [OF 1(2) True, of h ema] by (subst raise_idx.simps) auto
  next
    case False
    then show ?thesis using first_not_above_le [of ema h cs] 1(3) by (subst raise_idx.simps) auto
  qed
qed

lemma list_index_nth:
  "distinct xs \<Longrightarrow> i < length xs \<Longrightarrow> list_index xs (xs ! i) = Inr i"
proof (induction xs arbitrary: i)
  case (Cons x xs)
  then show ?case by (cases i) auto
qed simp

lemma list_index_member: "x \<in> set xs \<Longrightarrow> \<exists>i < length xs. list_index xs x = Inr i \<and> xs ! i = x"
  by (induction xs) auto

text \<open>Where a recomputation from candidate \<open>i\<close> ends, for any two hysteresis values.\<close>

definition target_idx :: "adaptive_params \<Rightarrow> nat \<Rightarrow> nat" where
  "target_idx p i = max (min i (first_not_above (ema_accept_len p) (down_hysteresis p) (candidate_steps p)))
     (first_not_above (ema_accept_len p) (up_hysteresis p) (candidate_steps p))"

lemma target_idx_stays: "target_idx p (target_idx p i) = target_idx p i"
  by (auto simp: target_idx_def min_def max_def)

lemma target_idx_less: "i < length (candidate_steps p) \<Longrightarrow> target_idx p i < length (candidate_steps p)"
  using first_not_above_le [of "ema_accept_len p" "up_hysteresis p" "candidate_steps p"] by (auto simp: target_idx_def)

lemma recompute_target:
  assumes inv: "adaptive_inv p" and i: "i < length (candidate_steps p)" "current_steps p = candidate_steps p ! i"
  shows "recompute_params p = Inr (candidate_steps p ! target_idx p i \<noteq> current_steps p, p\<lparr>current_steps := candidate_steps p ! target_idx p i\<rparr>)"
proof -
  have cs: "sorted_wrt (<) (candidate_steps p)" "distinct (candidate_steps p)" using inv by (simp_all add: adaptive_inv_def strict_sorted_iff)
  let ?d = "first_not_above (ema_accept_len p) (down_hysteresis p) (candidate_steps p)"
  have "min i ?d < length (candidate_steps p)" using i(1) by simp
  then show ?thesis using list_index_nth [OF cs(2) i(1)]
    by (auto simp: recompute_params_def Let_def i(2) lower_idx_eq [OF cs(1) i(1)] raise_idx_eq [OF cs(1)] target_idx_def)
qed

lemma target_idx_settled:
  assumes "adaptive_inv p" "i < length (candidate_steps p)" "down_hysteresis p \<le> up_hysteresis p"
  shows "settled p (target_idx p i)"
proof -
  let ?cs = "candidate_steps p" and ?t = "target_idx p i" and ?e = "ema_accept_len p"
  have cs: "sorted_wrt (<) ?cs" using assms(1) by (simp add: adaptive_inv_def)
  let ?d = "first_not_above ?e (down_hysteresis p) ?cs" and ?u = "first_not_above ?e (up_hysteresis p) ?cs"
  have "?u \<le> ?d"
  proof (rule ccontr)
    assume "\<not> ?u \<le> ?d"
    then have k: "?d < ?u" "?d < length ?cs - 1" using first_not_above_le [of ?e "up_hysteresis p" ?cs] by simp_all
    have "\<not> ?e > of_int (?cs ! ?d) - 1 / 2 + down_hysteresis p" unfolding first_not_above_iff [OF cs k(2)] by simp
    moreover have "?e > of_int (?cs ! ?d) - 1 / 2 + up_hysteresis p" unfolding first_not_above_iff [OF cs k(2)] by (rule k(1))
    ultimately show False using assms(3) by linarith
  qed
  then have t: "?u \<le> ?t" "?t \<le> ?d" by (auto simp: target_idx_def)
  have l: "?t < length ?cs" by (rule target_idx_less [OF assms(2)])
  show ?thesis unfolding settled_def
  proof (intro conjI impI)
    show "?t < length ?cs" by (rule l)
    show "?e > of_int (?cs ! (?t - 1)) - 1 / 2 + down_hysteresis p" if "0 < ?t"
      by (subst first_not_above_iff [OF cs]) (use that t(2) l in linarith)+
    show "?e \<le> of_int (?cs ! ?t) - 1 / 2 + up_hysteresis p" if "?t < length ?cs - 1"
      using t(1) unfolding not_less [symmetric] first_not_above_iff [OF cs that] by linarith
  qed
qed

lemma closer_trans: "closer initial a b \<Longrightarrow> closer initial b c \<Longrightarrow> closer initial a c"
  unfolding closer_def by (elim disjE conjE) (auto dest: less_trans)

lemma closer_linear: "\<not> closer initial a b \<Longrightarrow> a = b \<or> closer initial b a"
  unfolding closer_def by (metis linorder_neqE neg_less_iff_less)

lemma closer_irrefl: "\<not> closer initial a a"
  by (simp add: closer_def)

lemma nearest_step_best:
  assumes "cs \<noteq> []"
  shows "nearest_step initial cs \<in> set cs \<and> (\<forall>s \<in> set cs. \<not> closer initial s (nearest_step initial cs))"
proof -
  have "foldl (\<lambda>best s. if closer initial s best then s else best) b xs \<in> set (b # xs) \<and>
      (\<forall>s \<in> set (b # xs). \<not> closer initial s (foldl (\<lambda>best s. if closer initial s best then s else best) b xs))"
    for b xs
  proof (induction xs arbitrary: b)
    case (Cons x xs)
    show ?case
    proof (cases "closer initial x b")
      case True
      then show ?thesis using Cons.IH [of x] closer_trans [OF True] by auto
    next
      case False
      then show ?thesis using Cons.IH [of b] closer_linear [OF False] closer_trans [of initial b x] by auto
    qed
  qed (simp add: closer_def)
  from this [of "hd cs" "tl cs"] show ?thesis using assms unfolding nearest_step_def by simp
qed

lemma update_params_cases:
  assumes inv: "adaptive_inv p" and iv: "update_interval p \<noteq> 0"
    and ns: "ns \<noteq> []"
  shows "\<exists>changed p' i. update_params p ns = Inr (changed, p') \<and>
    p' = p\<lparr>ema_accept_len := (1 - ema_alpha p) * ema_accept_len p + ema_alpha p * batch_avg ns,
          batch_count := batch_count p + 1, current_steps := candidate_steps p ! i\<rparr> \<and>
    i < length (candidate_steps p) \<and> changed = (current_steps p' \<noteq> current_steps p)"
proof -
  let ?p = "p\<lparr>ema_accept_len := (1 - ema_alpha p) * ema_accept_len p + ema_alpha p * batch_avg ns,
      batch_count := batch_count p + 1\<rparr>"
  have inv': "adaptive_inv ?p" using inv by (simp add: adaptive_inv_def)
  obtain i where i: "i < length (candidate_steps p)" "candidate_steps p ! i = current_steps p"
    using inv by (auto simp: adaptive_inv_def in_set_conv_nth)
  have same: "?p = ?p\<lparr>current_steps := candidate_steps p ! i\<rparr>" using i(2) by simp
  define j where "j = target_idx ?p i"
  have j: "j < length (candidate_steps p)" using target_idx_less [of i ?p] i(1) by (simp add: j_def)
  have r: "recompute_params ?p = Inr (candidate_steps p ! j \<noteq> current_steps p, ?p\<lparr>current_steps := candidate_steps p ! j\<rparr>)"
    using recompute_target [OF inv', of i] i by (simp add: j_def)
  show ?thesis
  proof (cases "batch_count p + 1 \<le> warmup_batches p \<or> (batch_count p + 1 - warmup_batches p) mod update_interval p \<noteq> 0")
    case True
    then have "update_params p ns = Inr (False, ?p)" using ns iv by (auto simp: update_params_def Let_def)
    then show ?thesis using i same by (intro exI [of _ False] exI [of _ ?p] exI [of _ i]) simp
  next
    case False
    then have "update_params p ns = recompute_params ?p" using ns iv by (simp add: update_params_def Let_def)
    then show ?thesis using j r by (intro exI [of _ "candidate_steps p ! j \<noteq> current_steps p"] exI [of _ "?p\<lparr>current_steps := candidate_steps p ! j\<rparr>"]
        exI [of _ j]) simp
  qed
qed

lemma batch_avg_bounds:
  assumes "ns \<noteq> []" "\<forall>k \<in> set ns. lo \<le> k \<and> k \<le> hi"
  shows "of_int lo \<le> batch_avg ns \<and> batch_avg ns \<le> of_int hi"
proof -
  have "of_nat (length ns) * of_int lo \<le> (of_int (sum_list ns) :: rat) \<and>
      of_int (sum_list ns) \<le> (of_nat (length ns) * of_int hi :: rat)"
    using assms(2) by (induction ns) (auto simp: distrib_right)
  moreover have "(0 :: rat) < of_nat (length ns)" using assms(1) by simp
  ultimately show ?thesis by (simp add: batch_avg_def pos_le_divide_eq pos_divide_le_eq mult.commute)
qed

lemma convex_bounds:
  fixes a x y lo hi :: rat
  assumes "0 \<le> a" "a \<le> 1" "lo \<le> x" "x \<le> hi" "lo \<le> y" "y \<le> hi"
  shows "lo \<le> (1 - a) * x + a * y \<and> (1 - a) * x + a * y \<le> hi"
proof -
  have "(1 - a) * lo \<le> (1 - a) * x" "a * lo \<le> a * y" "(1 - a) * x \<le> (1 - a) * hi" "a * y \<le> a * hi"
    using assms by (simp_all add: mult_left_mono)
  then show ?thesis by (simp add: algebra_simps)
qed

section \<open>Properties\<close>

text \<open>
  \<open>__init__\<close> raises exactly when there are fewer than two distinct candidates. Otherwise the
  candidates are sorted without duplicates and the current number of steps is a candidate at the least
  distance from the requested one, the larger of two at the same distance.
\<close>

lemma adaptive_init_nearest:
  "case adaptive_init initial config of
     Inl e \<Rightarrow> e = AssertionError \<and>
       card (set (cfg_get (cfg_candidate_steps (cfg_get config empty_config)) [1, 3, 7])) < 2
   | Inr p \<Rightarrow> adaptive_inv p \<and>
       set (candidate_steps p) = set (cfg_get (cfg_candidate_steps (cfg_get config empty_config)) [1, 3, 7]) \<and>
       (\<forall>s \<in> set (candidate_steps p). \<bar>current_steps p - initial\<bar> \<le> \<bar>s - initial\<bar> \<and>
          (\<bar>current_steps p - initial\<bar> = \<bar>s - initial\<bar> \<longrightarrow> s \<le> current_steps p))"
proof -
  let ?c = "cfg_get (cfg_candidate_steps (cfg_get config empty_config)) [1, 3, 7]"
  let ?cs = "sort (remdups ?c)"
  have card: "length ?cs = card (set ?c)" by (simp add: length_remdups_card_conv)
  show ?thesis
  proof (cases "2 \<le> length ?cs")
    case True
    then have ne: "?cs \<noteq> []" by (metis list.size(3) not_numeral_le_zero)
    have "sorted_wrt (<) ?cs" by (simp add: strict_sorted_iff)
    then show ?thesis using True nearest_step_best [OF ne, of initial]
      by (auto simp: adaptive_init_def py_assert_def Let_def adaptive_inv_def closer_def)
  qed (use card in \<open>auto simp: adaptive_init_def py_assert_def Let_def\<close>)
qed

lemma adaptive_init_nearest_witness:
  "case adaptive_init 5 None of Inl e \<Rightarrow> False
   | Inr p \<Rightarrow> adaptive_inv p \<and> (\<forall>s \<in> set (candidate_steps p). \<bar>current_steps p - 5\<bar> \<le> \<bar>s - 5\<bar>)"
  using adaptive_init_nearest [of None 5]
  by (cases "adaptive_init 5 None") (auto simp: cfg_get_def empty_config_def)

text \<open>
  C34. One recomputation settles, for any hysteresis values (the code does not relate the two). From candidate \<open>i\<close> the steps go to
  the candidate at \<open>max (min i d) u\<close>, where \<open>d\<close> and \<open>u\<close> are the first candidates whose drop and rise thresholds the average does not
  exceed (the last one if there is none); the result says whether the steps changed, and a second
  recomputation changes nothing. When the drop hysteresis is at most the rise hysteresis, as it is by default, the average
  lies in the interval of the new candidate: above the drop threshold of the candidate below it and not above its own rise threshold.
  (This is not the formula of the class comment.)
\<close>

theorem recompute_settles_and_stays:
  assumes inv: "adaptive_inv p" and i: "i < length (candidate_steps p)" "current_steps p = candidate_steps p ! i"
  shows "\<exists>changed p'. recompute_params p = Inr (changed, p') \<and> adaptive_inv p' \<and>
    p' = p\<lparr>current_steps := candidate_steps p ! max (min i (first_not_above (ema_accept_len p) (down_hysteresis p) (candidate_steps p)))
       (first_not_above (ema_accept_len p) (up_hysteresis p) (candidate_steps p))\<rparr> \<and>
    (changed \<longleftrightarrow> current_steps p' \<noteq> current_steps p) \<and> recompute_params p' = Inr (False, p') \<and>
    (down_hysteresis p \<le> up_hysteresis p \<longrightarrow> (\<exists>k. current_steps p' = candidate_steps p ! k \<and> settled p' k))"
proof -
  let ?t = "target_idx p i" and ?p = "p\<lparr>current_steps := candidate_steps p ! target_idx p i\<rparr>"
  have t: "?t < length (candidate_steps p)" using i(1) by (rule target_idx_less)
  then have inv': "adaptive_inv ?p" using inv by (simp add: adaptive_inv_def)
  have "target_idx ?p ?t = ?t" using target_idx_stays [of p i] by (simp add: target_idx_def)
  then have "recompute_params ?p = Inr (False, ?p)" using recompute_target [OF inv', of ?t] t by simp
  moreover have "settled ?p ?t" if "down_hysteresis p \<le> up_hysteresis p" using target_idx_settled [OF inv i(1) that] by (simp add: settled_def)
  ultimately show ?thesis using recompute_target [OF inv i] inv' unfolding target_idx_def [symmetric] by auto
qed

definition demo_params :: adaptive_params where
  "demo_params = \<lparr>candidate_steps = [1, 3, 7], min_steps = 1, max_steps = 7, ema_alpha = 1 / 5, update_interval = 5,
     warmup_batches = 10, down_hysteresis = - 1 / 4, up_hysteresis = 0, current_steps = 3, ema_accept_len = 3,
     batch_count = 14\<rparr>"

theorem recompute_settles_and_stays_witness:
  "\<exists>p'. recompute_params demo_params = Inr (True, p') \<and> current_steps p' = 7 \<and> recompute_params p' = Inr (False, p') \<and>
    (\<exists>k. settled p' k)"
proof -
  have h: "adaptive_inv demo_params" "1 < length (candidate_steps demo_params)" "current_steps demo_params = candidate_steps demo_params ! 1"
    "down_hysteresis demo_params \<le> up_hysteresis demo_params"
    by (simp_all add: adaptive_inv_def demo_params_def)
  have "candidate_steps demo_params ! max (min 1 (first_not_above (ema_accept_len demo_params) (down_hysteresis demo_params) (candidate_steps demo_params)))
       (first_not_above (ema_accept_len demo_params) (up_hysteresis demo_params) (candidate_steps demo_params)) = 7"
    by (simp add: demo_params_def first_not_above_def)
  with recompute_settles_and_stays [OF h(1-3)] h(4) show ?thesis by (auto simp: demo_params_def)
qed

text \<open>
  An update that observes between 0 and \<open>max_steps\<close> accepted drafts per request keeps the
  invariant, raises nothing, keeps the average between 0 and \<open>max_steps\<close> (for a smoothing factor in
  the unit interval) and leaves the steps alone during warm-up.
\<close>

lemma update_keeps_bounds:
  assumes "adaptive_inv p" "update_interval p \<noteq> 0"
    and "0 \<le> ema_alpha p" "ema_alpha p \<le> 1" "0 \<le> ema_accept_len p" "ema_accept_len p \<le> of_int (max_steps p)"
    and "\<forall>k \<in> set ns. 0 \<le> k \<and> k \<le> max_steps p"
  shows "\<exists>changed p'. update_params p ns = Inr (changed, p') \<and> adaptive_inv p' \<and>
    candidate_steps p' = candidate_steps p \<and>
    0 \<le> ema_accept_len p' \<and> ema_accept_len p' \<le> of_int (max_steps p') \<and>
    (changed \<longleftrightarrow> current_steps p' \<noteq> current_steps p) \<and>
    (batch_count p < warmup_batches p \<longrightarrow> current_steps p' = current_steps p)"
proof (cases "ns = []")
  case True
  then show ?thesis using assms by (intro exI [of _ False] exI [of _ p]) (simp add: update_params_def)
next
  case False
  obtain ch p' i where u: "update_params p ns = Inr (ch, p')"
    "p' = p\<lparr>ema_accept_len := (1 - ema_alpha p) * ema_accept_len p + ema_alpha p * batch_avg ns,
          batch_count := batch_count p + 1, current_steps := candidate_steps p ! i\<rparr>"
    "i < length (candidate_steps p)" "ch = (current_steps p' \<noteq> current_steps p)"
    using update_params_cases [OF assms(1,2) False] by blast
  have "adaptive_inv p'" using assms(1) u(2,3) by (simp add: adaptive_inv_def)
  moreover have "0 \<le> ema_accept_len p' \<and> ema_accept_len p' \<le> of_int (max_steps p')"
    using convex_bounds [OF assms(3-6)] batch_avg_bounds [OF False assms(7)] u(2) by simp
  moreover have "current_steps p' = current_steps p" if "batch_count p < warmup_batches p"
    using u(1,4) that False by (auto simp: update_params_def Let_def)
  ultimately show ?thesis using u by auto
qed

lemma update_keeps_bounds_witness:
  "\<exists>changed p'. update_params demo_params [2, 3] = Inr (changed, p') \<and> adaptive_inv p' \<and>
    candidate_steps p' = candidate_steps demo_params \<and>
    0 \<le> ema_accept_len p' \<and> ema_accept_len p' \<le> of_int (max_steps p') \<and>
    (changed \<longleftrightarrow> current_steps p' \<noteq> current_steps demo_params) \<and>
    (batch_count demo_params < warmup_batches demo_params \<longrightarrow> current_steps p' = current_steps demo_params)"
  by (rule update_keeps_bounds) (simp_all add: adaptive_inv_def demo_params_def)

text \<open>
  The formula of the class comment, \<open>clamp(round(ema) + 1, min_steps, max_steps)\<close>, is not what the
  code computes: with an average of 3 and the default candidates it gives 4, the code 7.
\<close>

lemma recompute_differs_from_formula:
  "recompute_params demo_params = Inr (True, demo_params\<lparr>current_steps := 7\<rparr>) \<and>
   max (min_steps demo_params) (min (max_steps demo_params) (round (ema_accept_len demo_params) + 1)) = 4"
  by (simp add: recompute_params_def demo_params_def raise_idx.simps numeral_eq_Suc)

end
