(* ===== verification/Spec_Kernels.thy ===== *)
theory Spec_Kernels
  imports Paged_Extend
begin

text \<open>
  The Triton kernels of \<open>srt/speculative/spec_utils.py\<close> that move KV-cache slots around a speculative
  step. Buffers that a kernel writes are device memory (\<open>mem\<close>); a kernel is a function of its program
  index, and a launch runs the program instances in some order. The value \<open>u\<close> is what a masked-out
  lane reads where the code gives no \<open>other\<close>.
\<close>

section \<open>Kernels\<close>

definition cdiv :: "int \<Rightarrow> int \<Rightarrow> int" where
  "cdiv a b = (a + b - 1) div b"

text \<open>\<open>tl.sum(tl.load(xs + offsets, mask=offsets < pid, other=u))\<close> over \<open>n\<close> lanes.\<close>

definition sum_below :: "int \<Rightarrow> int list \<Rightarrow> nat \<Rightarrow> nat \<Rightarrow> int" where
  "sum_below u xs n pid = sum_list (map (\<lambda>j. if j < pid then xs ! j else u) [0..<n])"

text \<open>A vector store of \<open>n\<close> lanes from \<open>base\<close>: lane \<open>j\<close> stores \<open>f j\<close> when \<open>P j\<close>.\<close>

definition store_lanes :: "mem \<Rightarrow> int \<Rightarrow> nat \<Rightarrow> (nat \<Rightarrow> int option) \<Rightarrow> (nat \<Rightarrow> bool) \<Rightarrow> mem" where
  "store_lanes m base n f P = tl_store m (map (\<lambda>j. (base + int j, f j, P j)) [0..<n])"

record extend_bufs =
  ext_positions :: mem
  ext_verified :: mem

definition create_extend_after_decode_spec_info ::
  "int list \<Rightarrow> int list \<Rightarrow> int list \<Rightarrow> nat \<Rightarrow> nat \<Rightarrow> extend_bufs \<Rightarrow> extend_bufs" where
  "create_extend_after_decode_spec_info verified_id seq_lens accept_lens bs_upper pid B =
     (let seq_length = seq_lens ! pid;
          accept_len = accept_lens ! pid;
          accept_len_cumsum = sum_below 0 accept_lens bs_upper pid;
          pos = store_lanes (ext_positions B) accept_len_cumsum bs_upper
                  (\<lambda>j. Some (seq_length - accept_len + int j)) (\<lambda>j. int j < accept_len);
          verified_id_data = tl_load verified_id (accept_len_cumsum + (accept_len - 1))
      in \<lparr>ext_positions = pos, ext_verified = (ext_verified B)(int pid := verified_id_data)\<rparr>)"

definition assign_req_to_token_pool ::
  "int list \<Rightarrow> int list \<Rightarrow> int list \<Rightarrow> int list \<Rightarrow> int \<Rightarrow> nat \<Rightarrow> nat \<Rightarrow> mem \<Rightarrow> mem" where
  "assign_req_to_token_pool req_pool_indices start_offset end_offset out_cache_loc pool_len bs_upper pid m =
     (let kv_start = start_offset ! pid;
          kv_end = end_offset ! pid;
          token_pool = req_pool_indices ! pid * pool_len;
          out_offset = sum_list (map2 (-)
             (map (\<lambda>j. if j < pid then end_offset ! j else 0) [0..<bs_upper])
             (map (\<lambda>j. if j < pid then start_offset ! j else 0) [0..<bs_upper]));
          num_loop = cdiv (kv_end - kv_start) 32
      in tl_store_blocks m (token_pool + kv_start) 32 (nat num_loop)
           (\<lambda>k. tl_load out_cache_loc (out_offset + int k)) (\<lambda>k. kv_start + int k < kv_end))"

definition assign_req_to_token_pool_func ::
  "int list \<Rightarrow> int list \<Rightarrow> int list \<Rightarrow> int list \<Rightarrow> int \<Rightarrow> nat \<Rightarrow> nat list \<Rightarrow> mem \<Rightarrow> mem" where
  "assign_req_to_token_pool_func req_pool_indices start_offset end_offset out_cache_loc pool_len batch_size order m =
     launch (assign_req_to_token_pool req_pool_indices start_offset end_offset out_cache_loc pool_len
               (next_power_of_2 batch_size)) order m"

record draft_loc_bufs =
  dl_req_to_token :: mem
  dl_out_cache :: mem
  dl_source :: mem
  dl_target :: mem

definition assign_draft_cache_locs ::
  "int \<Rightarrow> int list \<Rightarrow> int list \<Rightarrow> int list \<Rightarrow> int list \<Rightarrow> int list \<Rightarrow> int \<Rightarrow> int \<Rightarrow> nat \<Rightarrow> nat \<Rightarrow> int \<Rightarrow> nat \<Rightarrow> nat \<Rightarrow>
   nat \<Rightarrow> draft_loc_bufs \<Rightarrow> draft_loc_bufs" where
  "assign_draft_cache_locs u req_pool_indices seq_lens extend_lens num_new_pages_per_topk last_page_lens_cumsum
       duplicate_cache_len pool_len topk num_steps ps bs_upper iter_upper pid B =
     (let small = (ps = 1 \<or> topk = 1);
          copy_len = (if small then int (topk * num_steps) else extend_lens ! pid);
          out_ptr = (if small then int (pid * topk * num_steps) else sum_below u extend_lens bs_upper pid);
          kv_start = seq_lens ! pid;
          token_pool = req_pool_indices ! pid * pool_len;
          r2t = tl_store_blocks (dl_req_to_token B) (token_pool + kv_start) 128 (nat (cdiv copy_len 128))
                  (\<lambda>k. dl_out_cache B (out_ptr + int k)) (\<lambda>k. int k < copy_len);
          B1 = B\<lparr>dl_req_to_token := r2t\<rparr>
      in if \<not> ((ps \<noteq> 1 \<and> topk \<noteq> 1) \<and> duplicate_cache_len > 0) then B1 else
      (let prefix_len = seq_lens ! pid;
           last_page_len = prefix_len mod ps;
           pages = num_new_pages_per_topk ! pid;
           prefix_base = token_pool + prefix_len - last_page_len;
           cum = last_page_lens_cumsum ! pid;
           dst = (\<lambda>t. (int topk - 1) * (cum - last_page_len) + (int t - 1) * last_page_len);
           src = foldl (\<lambda>m t. store_lanes m (dst t) (nat ps) (\<lambda>j. r2t (prefix_base + int j))
                     (\<lambda>j. int j < last_page_len)) (dl_source B1) [1..<topk];
           tgt = foldl (\<lambda>m t. store_lanes m (dst t) (nat ps)
                     (\<lambda>j. r2t (prefix_base + int t * pages * ps + int j))
                     (\<lambda>j. int j < last_page_len)) (dl_target B1) [1..<topk];
           out = foldl (\<lambda>m t. store_lanes m
                     (int (pid * num_steps * topk) + int (t * num_steps) - last_page_len) iter_upper
                     (\<lambda>j. r2t (prefix_base + int t * pages * ps + int j))
                     (\<lambda>j. int j < int num_steps + last_page_len \<and> int j \<ge> last_page_len))
                   (dl_out_cache B1) [0..<topk]
       in B1\<lparr>dl_source := src, dl_target := tgt, dl_out_cache := out\<rparr>))"

record kv_index_bufs =
  kvi_indices :: mem
  kvi_indptr :: mem

text \<open>The program index has three axes: step, request and branch.\<close>

definition generate_draft_decode_kv_indices ::
  "int list \<Rightarrow> mem \<Rightarrow> int list \<Rightarrow> int list \<Rightarrow> int \<Rightarrow> int \<Rightarrow> int \<Rightarrow> nat \<Rightarrow> nat \<Rightarrow> nat \<Rightarrow> int \<Rightarrow> nat \<Rightarrow> nat \<Rightarrow> nat \<Rightarrow>
   nat \<Rightarrow> nat \<Rightarrow> nat \<Rightarrow> kv_index_bufs \<Rightarrow> kv_index_bufs" where
  "generate_draft_decode_kv_indices req_pool_indices req_to_token paged_kernel_lens positions pool_len
       indices_stride indptr_stride bs_upper iter_upper num_tokens_upper ps num_steps num_seqs topk step bid topk_id B =
     (let iters = int step + 1;
          seq_len = paged_kernel_lens ! bid;
          cum_seq_len = sum_below 0 paged_kernel_lens bs_upper bid;
          kv_ptr = indices_stride * int step + cum_seq_len * int topk + int bid * iters * int topk +
                   int topk_id * (seq_len + iters);
          token_pool = req_pool_indices ! bid * pool_len;
          idx1 = tl_store_blocks (kvi_indices B) kv_ptr 128 (nat (cdiv seq_len 128))
                   (\<lambda>k. req_to_token (token_pool + int k)) (\<lambda>k. int k < seq_len);
          start = (if ps = 1 \<or> topk = 1 then seq_len + int (topk_id * num_steps)
                   else (let last_page_len = seq_len mod ps;
                             pages = (last_page_len + int num_steps + ps - 1) div ps
                         in seq_len div ps * ps + int topk_id * pages * ps + last_page_len));
          idx2 = store_lanes idx1 (kv_ptr + seq_len) iter_upper
                   (\<lambda>j. req_to_token (token_pool + start + int j)) (\<lambda>j. int j < iters);
          zid0 = bid * topk + topk_id;
          zid = (if zid0 = 0 then num_seqs * topk else zid0);
          base = sum_below 0 positions num_tokens_upper zid
      in \<lparr>kvi_indices = idx2,
          kvi_indptr = (kvi_indptr B)(indptr_stride * int step + int zid := Some (base + int zid * iters))\<rparr>)"

definition align_evict_mask_to_page_size ::
  "int list \<Rightarrow> int \<Rightarrow> nat \<Rightarrow> nat \<Rightarrow> nat \<Rightarrow> (int \<Rightarrow> bool) \<Rightarrow> (int \<Rightarrow> bool)" where
  "align_evict_mask_to_page_size seq_lens ps num_draft_tokens block bid mask0 =
     (let seq_len = seq_lens ! bid;
          row = int (bid * num_draft_tokens);
          num_trues = sum_list (map (\<lambda>t. if t < num_draft_tokens \<and> mask0 (row + int t) then 1 else 0) [0..<block]);
          num_false = int num_draft_tokens - num_trues;
          start = (seq_len + num_false - 1) div ps * ps - seq_len
      in foldl (\<lambda>m i. m(row + i := False)) mask0 [max start 0..min (start + ps) (int num_draft_tokens) - 1])"

record target_loc_bufs =
  tl_tgt :: mem
  tl_free :: mem

definition get_target_cache_loc ::
  "int \<Rightarrow> int list \<Rightarrow> int list \<Rightarrow> int list \<Rightarrow> nat \<Rightarrow> nat \<Rightarrow> nat \<Rightarrow> nat \<Rightarrow> target_loc_bufs \<Rightarrow> target_loc_bufs" where
  "get_target_cache_loc u num_accepted_drafts to_free_num_slots out_cache_loc num_verify_tokens upper bs_upper bid B =
     (let tgt_start = sum_below u num_accepted_drafts bs_upper bid + int bid;
          copy_len = num_accepted_drafts ! bid + 1;
          tgt = store_lanes (tl_tgt B) tgt_start upper
                  (\<lambda>j. tl_load out_cache_loc (int (bid * num_verify_tokens) + int j)) (\<lambda>j. int j < copy_len);
          free_cur = to_free_num_slots ! bid;
          out_start = int num_verify_tokens - free_cur;
          free_start = sum_below u to_free_num_slots bs_upper bid;
          fr = store_lanes (tl_free B) free_start upper
                 (\<lambda>j. tl_load out_cache_loc (int (bid * num_verify_tokens) + out_start + int j)) (\<lambda>j. int j < free_cur)
      in \<lparr>tl_tgt = tgt, tl_free = fr\<rparr>)"

definition get_src_tgt_cache_loc ::
  "int list \<Rightarrow> int list \<Rightarrow> int list \<Rightarrow> int list \<Rightarrow> int \<Rightarrow> int \<Rightarrow> (int list \<times> int list) py" where
  "get_src_tgt_cache_loc seq_lens out_cache_loc accept_index num_accepted_drafts draft_token_num ps =
     py_bind (py_for (\<lambda>i acc. py_bind (py_index out_cache_loc i) (\<lambda>v. Inr (acc @ [v]))) accept_index [])
     (\<lambda>src_cache_loc.
      let to_free = map2 (\<lambda>s a. let extended_len = s + draft_token_num;
                                     keep_len = min ((s + a + 1 + ps - 1) div ps * ps) extended_len
                                 in extended_len - keep_len) seq_lens num_accepted_drafts
      in Inr (src_cache_loc, to_free))"

definition filter_finished_cache_loc_kernel ::
  "int \<Rightarrow> mem \<Rightarrow> int list \<Rightarrow> int list \<Rightarrow> nat \<Rightarrow> nat \<Rightarrow> nat \<Rightarrow> mem \<Rightarrow> mem" where
  "filter_finished_cache_loc_kernel u tgt_cache_loc num_accepted_drafts num_accepted_drafts_filter bs_upper upper bid m =
     (let old_start = sum_below u num_accepted_drafts bs_upper bid + int bid;
          new_start = sum_below u num_accepted_drafts_filter bs_upper bid;
          copy_len = num_accepted_drafts_filter ! bid
      in store_lanes m new_start upper (\<lambda>j. tgt_cache_loc (old_start + int j)) (\<lambda>j. int j < copy_len))"

definition create_num_accepted_drafts_filter ::
  "int list \<Rightarrow> int list \<Rightarrow> int list \<Rightarrow> (int list \<times> int list) py" where
  "create_num_accepted_drafts_filter num_accepted_drafts unfinished_index seq_lens =
     py_bind (py_for (\<lambda>i f. py_bind (py_index num_accepted_drafts i) (\<lambda>a. py_set f i (a + 1))) unfinished_index
                (replicate (length num_accepted_drafts) 0))
     (\<lambda>flt. Inr (flt, map2 (\<lambda>s a. s + (a + 1)) seq_lens num_accepted_drafts))"

text \<open>\<open>get_last_loc_torch\<close> and the Triton kernel of \<open>srt/mem_cache/common.py\<close>.\<close>

definition get_last_loc_torch :: "mem \<Rightarrow> int \<Rightarrow> int list \<Rightarrow> int list \<Rightarrow> int option list" where
  "get_last_loc_torch req_to_token stride req_pool_indices prefix_lens =
     map2 (\<lambda>r p. if p > 0 then req_to_token (r * stride + (p - 1)) else Some (-1)) req_pool_indices prefix_lens"

definition get_last_loc_kernel ::
  "mem \<Rightarrow> int list \<Rightarrow> int list \<Rightarrow> nat \<Rightarrow> int \<Rightarrow> nat \<Rightarrow> nat \<Rightarrow> mem \<Rightarrow> mem" where
  "get_last_loc_kernel req_to_token req_pool_indices prefix_lens num_tokens stride block pid m =
     store_lanes m (int (pid * block)) block
       (\<lambda>j. let i = pid * block + j;
                p = (if i < num_tokens then prefix_lens ! i else 0);
                r = (if i < num_tokens then req_pool_indices ! i else 0)
            in if p > 0 then req_to_token (r * stride + (p - 1)) else Some (-1))
       (\<lambda>j. pid * block + j < num_tokens)"

definition get_last_loc_triton :: "mem \<Rightarrow> int \<Rightarrow> int list \<Rightarrow> int list \<Rightarrow> int option list" where
  "get_last_loc_triton req_to_token stride req_pool_indices prefix_lens =
     (let n = length prefix_lens
      in read_out (launch (get_last_loc_kernel req_to_token req_pool_indices prefix_lens n stride 256)
           [0..<nat (cdiv (int n) 256)] Map.empty) n)"

definition get_last_loc_large_page_size_large_top_k ::
  "mem \<Rightarrow> int \<Rightarrow> int list \<Rightarrow> int list \<Rightarrow> int \<Rightarrow> int \<Rightarrow> int \<Rightarrow>
   int list \<times> int list \<times> int option list \<times> int list \<times> int list \<times> int list" where
  "get_last_loc_large_page_size_large_top_k req_to_token stride req_pool_indices seq_lens num_steps topk ps =
     (let prefix_lens = seq_lens;
          last_page_lens = map (\<lambda>p. p mod ps) prefix_lens;
          pages = map (\<lambda>l. (l + num_steps + ps - 1) div ps) last_page_lens;
          seq' = map2 (\<lambda>p k. p div ps * ps + k * (ps * topk)) prefix_lens pages;
          extend_lens = map2 (-) seq' prefix_lens
      in (prefix_lens, seq', get_last_loc_torch req_to_token stride req_pool_indices prefix_lens, pages,
          extend_lens, last_page_lens))"

section \<open>What the stores write\<close>

lemma store_lanes_apply:
  "store_lanes m base n f P a =
     (if base \<le> a \<and> a < base + int n \<and> P (nat (a - base)) then f (nat (a - base)) else m a)"
  by (simp add: store_lanes_def tl_store_vector)

lemma store_blocks_cdiv:
  assumes "0 < b"
  shows "tl_store_blocks m base b (nat (cdiv n (int b))) f (\<lambda>k. int k < n) a =
     (if base \<le> a \<and> a < base + n then f (nat (a - base)) else m a)"
  using ceil_blocks_cover [OF assms, of n] by (auto simp: tl_store_blocks_apply cdiv_def)

lemma sum_list_lanes_below:
  assumes "pid \<le> n" "\<And>j. pid \<le> j \<Longrightarrow> f j = (0::int)"
  shows "sum_list (map f [0..<n]) = sum_list (map f [0..<pid])"
proof -
  have "[0..<n] = [0..<pid] @ [pid..<n]" using assms(1) upt_add_eq_append [of 0 pid "n - pid"] by simp
  moreover have "sum_list (map f [pid..<n]) = 0" using assms(2) by (simp add: sum_list_sum_nth)
  ultimately show ?thesis by simp
qed

lemma sum_below_eq:
  assumes "pid \<le> n" "pid \<le> length xs" shows "sum_below 0 xs n pid = sum_list (take pid xs)"
proof -
  have "sum_below 0 xs n pid = sum_list (map (\<lambda>j. if j < pid then xs ! j else 0) [0..<pid])"
    unfolding sum_below_def using assms(1) by (intro sum_list_lanes_below) auto
  also have "map (\<lambda>j. if j < pid then xs ! j else 0) [0..<pid] = take pid xs"
    using assms(2) by (auto simp: list_eq_iff_nth_eq)
  finally show ?thesis .
qed

text \<open>
  A launch whose instances write one segment each of a common buffer. The segments are those of
  consecutive rows, so that they are disjoint.
\<close>

definition seg_start :: "int list \<Rightarrow> nat \<Rightarrow> int" where
  "seg_start lens i = sum_list (take i lens)"

lemma seg_start_Suc: "i < length lens \<Longrightarrow> seg_start lens (Suc i) = seg_start lens i + lens ! i"
  by (simp add: seg_start_def take_Suc_conv_app_nth)

lemma seg_start_mono: "\<forall>x \<in> set lens. 0 \<le> x \<Longrightarrow> i \<le> j \<Longrightarrow> seg_start lens i \<le> seg_start lens j"
proof (induction j)
  case (Suc j)
  show ?case
  proof (cases "i = Suc j")
    case False
    then have "seg_start lens i \<le> seg_start lens j" using Suc by simp
    also have "\<dots> \<le> seg_start lens (Suc j)"
    proof (cases "j < length lens")
      case True
      then show ?thesis using Suc.prems(1) by (simp add: seg_start_Suc)
    qed (simp add: seg_start_def)
    finally show ?thesis .
  qed simp
qed simp

lemma seg_unique:
  assumes "\<forall>x \<in> set lens. 0 \<le> x" "i < length lens" "j < length lens"
    and "seg_start lens i \<le> a" "a < seg_start lens i + lens ! i"
    and "seg_start lens j \<le> a" "a < seg_start lens j + lens ! j"
  shows "i = j"
proof (rule ccontr)
  assume "i \<noteq> j"
  then consider "Suc i \<le> j" | "Suc j \<le> i" by linarith
  then show False
    using seg_start_mono [OF assms(1)] seg_start_Suc [OF assms(2)] seg_start_Suc [OF assms(3)] assms(4-7)
    by cases fastforce+
qed

text \<open>Every program instance writes its own segment; then, in any order, every segment is written.\<close>

lemma launch_segments:
  assumes eff: "\<And>i m a. i < length lens \<Longrightarrow>
      k i m a = (if seg_start lens i \<le> a \<and> a < seg_start lens i + lens ! i then f i (a - seg_start lens i) else m a)"
    and nn: "\<forall>x \<in> set lens. 0 \<le> x" and pids: "distinct pids" "set pids = {0..<length lens}"
    and i: "i < length lens" "0 \<le> j" "j < lens ! i"
  shows "launch k pids m (seg_start lens i + j) = f i j"
proof -
  let ?a = "seg_start lens i + j"
  let ?R = "\<lambda>a. {p. seg_start lens p \<le> a \<and> a < seg_start lens p + lens ! p}"
  have "launch k pids m ?a = (\<lambda>p a. f p (a - seg_start lens p)) i ?a"
  proof (rule launch_inside [where R = ?R])
    show "?R ?a \<inter> set pids = {i}"
      using i pids(2) seg_unique [OF nn _ i(1), of _ ?a] by auto
  qed (use eff pids in auto)
  then show ?thesis by simp
qed

lemma launch_segments_outside:
  assumes eff: "\<And>i m a. i < length lens \<Longrightarrow>
      k i m a = (if seg_start lens i \<le> a \<and> a < seg_start lens i + lens ! i then f i (a - seg_start lens i) else m a)"
    and nn: "\<forall>x \<in> set lens. 0 \<le> x" and pids: "set pids = {0..<length lens}"
    and a: "a < 0 \<or> sum_list lens \<le> a"
  shows "launch k pids m a = m a"
proof (rule launch_outside [where R = "\<lambda>a. {p. seg_start lens p \<le> a \<and> a < seg_start lens p + lens ! p}"])
  show "{p. seg_start lens p \<le> a \<and> a < seg_start lens p + lens ! p} \<inter> set pids = {}"
  proof (rule ccontr)
    assume "{p. seg_start lens p \<le> a \<and> a < seg_start lens p + lens ! p} \<inter> set pids \<noteq> {}"
    then obtain p where p: "p < length lens" "seg_start lens p \<le> a" "a < seg_start lens p + lens ! p"
      using pids by auto
    have "seg_start lens 0 \<le> seg_start lens p" "seg_start lens (Suc p) \<le> seg_start lens (length lens)"
      using seg_start_mono [OF nn] p(1) by auto
    then show False using p a seg_start_Suc [OF p(1)] by (simp add: seg_start_def)
  qed
qed (use eff pids in auto)

section \<open>The request-to-token table\<close>

lemma segment_offset:
  assumes pid: "pid < length st" "length en = length st" "length st \<le> n"
  shows "sum_list (map2 (-) (map (\<lambda>j. if j < pid then en ! j else 0) [0..<n]) (map (\<lambda>j. if j < pid then st ! j else 0) [0..<n])) =
    seg_start (map2 (-) en st) pid"
proof -
  have "map2 (-) (map (\<lambda>j. if j < pid then en ! j else 0) [0..<n]) (map (\<lambda>j. if j < pid then st ! j else 0) [0..<n]) =
      map (\<lambda>j. if j < pid then map2 (-) en st ! j else 0) [0..<n]"
    using pid by (auto simp: list_eq_iff_nth_eq)
  then show ?thesis using sum_below_eq [of pid n "map2 (-) en st"] pid by (simp add: sum_below_def seg_start_def)
qed

lemma assign_kernel_effect:
  assumes pid: "pid < length st" "length en = length st" "length st \<le> n"
  shows "assign_req_to_token_pool rpi st en out pl n pid m a =
    (if rpi ! pid * pl + st ! pid \<le> a \<and> a < rpi ! pid * pl + en ! pid
     then tl_load out (seg_start (map2 (-) en st) pid + (a - (rpi ! pid * pl + st ! pid))) else m a)"
proof -
  note off = segment_offset [OF pid]
  have "(\<lambda>k. st ! pid + int k < en ! pid) = (\<lambda>k. int k < en ! pid - st ! pid)" by auto
  then show ?thesis
    unfolding assign_req_to_token_pool_def Let_def off
    using store_blocks_cdiv [of 32 m "rpi ! pid * pl + st ! pid" "en ! pid - st ! pid"
        "\<lambda>k. tl_load out (seg_start (map2 (-) en st) pid + int k)" a] by auto
qed

lemma row_address_unique:
  assumes "0 \<le> p" "p < pl" "0 \<le> q" "q < (pl :: int)" "r * pl + p = r' * pl + q"
  shows "r = r' \<and> p = q"
proof -
  have "(p + r * pl) div pl = p div pl + r" "(q + r' * pl) div pl = q div pl + r'" using assms by simp_all
  moreover have "p div pl = 0" "q div pl = 0" using assms by (simp_all add: div_pos_pos_trivial)
  ultimately have "r = r'" using assms(5) by (metis add.commute add_0)
  then show ?thesis using assms(5) by simp
qed

section \<open>Properties\<close>

text \<open>
  \<open>assign_req_to_token_pool_func\<close>, in any order of its program instances: the row of request \<open>i\<close> gets, at its
  positions from start to end, the next slots of \<open>out_cache_loc\<close> (the segments of the requests follow one
  another there), and every other entry of the table is left alone.
\<close>

lemma assign_pool_writes:
  assumes len: "length rpi = bs" "length st = bs" "length en = bs" and pl: "0 < pl"
    and rows: "distinct rpi" and pids: "distinct order" "set order = {0..<bs}"
    and bounds: "\<forall>i < bs. 0 \<le> st ! i \<and> st ! i \<le> en ! i \<and> en ! i \<le> pl"
  shows "(\<forall>i < bs. \<forall>p. st ! i \<le> p \<and> p < en ! i \<longrightarrow>
      assign_req_to_token_pool_func rpi st en out pl bs order m (rpi ! i * pl + p) =
        tl_load out (sum_list (take i (map2 (-) en st)) + (p - st ! i))) \<and>
    (\<forall>r p. 0 \<le> p \<and> p < pl \<and> (\<forall>i < bs. rpi ! i = r \<longrightarrow> p < st ! i \<or> en ! i \<le> p) \<longrightarrow>
      assign_req_to_token_pool_func rpi st en out pl bs order m (r * pl + p) = m (r * pl + p))"
proof -
  let ?k = "assign_req_to_token_pool rpi st en out pl (next_power_of_2 bs)"
  let ?R = "\<lambda>a. {i. rpi ! i * pl + st ! i \<le> a \<and> a < rpi ! i * pl + en ! i}"
  let ?f = "\<lambda>i a. tl_load out (seg_start (map2 (-) en st) i + (a - (rpi ! i * pl + st ! i)))"
  have eff: "?k i m a = (if i \<in> ?R a then ?f i a else m a)" if "i \<in> set order" for i m a
    using assign_kernel_effect [of i st en "next_power_of_2 bs"] that len pids next_power_of_2_ge [of bs] by simp
  have own: "rpi ! j = r \<and> st ! j \<le> p \<and> p < en ! j"
    if "j < bs" "0 \<le> p" "p < pl" "j \<in> ?R (r * pl + p)" for j r p
  proof -
    have c: "rpi ! j * pl + st ! j \<le> r * pl + p" "r * pl + p < rpi ! j * pl + en ! j" using that(4) by simp_all
    have bd: "0 \<le> st ! j" "en ! j \<le> pl" using bounds that(1) by auto
    have d: "0 \<le> r * pl + p - rpi ! j * pl" "r * pl + p - rpi ! j * pl < pl" using c bd by linarith+
    have "rpi ! j = r" using row_address_unique [OF d that(2,3), of "rpi ! j" r] by simp
    then show ?thesis using c by simp
  qed
  show ?thesis
  proof (intro conjI allI impI)
    fix i p assume i: "i < bs" and p: "st ! i \<le> p \<and> p < en ! i"
    have pb: "0 \<le> p" "p < pl" using bounds i p by force+
    have "?R (rpi ! i * pl + p) \<inter> set order = {i}"
    proof
      show "{i} \<subseteq> ?R (rpi ! i * pl + p) \<inter> set order" using i p pids(2) by simp
      show "?R (rpi ! i * pl + p) \<inter> set order \<subseteq> {i}"
      proof
        fix j assume j: "j \<in> ?R (rpi ! i * pl + p) \<inter> set order"
        then have "j < bs" "rpi ! j = rpi ! i" using own [OF _ pb, of j "rpi ! i"] pids(2) by auto
        then show "j \<in> {i}" using nth_eq_iff_index_eq [OF rows] i len(1) by auto
      qed
    qed
    then have "launch ?k order m (rpi ! i * pl + p) = ?f i (rpi ! i * pl + p)"
      using eff pids(1) by (intro launch_inside [where R = ?R and f = ?f]) auto
    then show "assign_req_to_token_pool_func rpi st en out pl bs order m (rpi ! i * pl + p) =
        tl_load out (sum_list (take i (map2 (-) en st)) + (p - st ! i))"
      unfolding assign_req_to_token_pool_func_def by (simp add: seg_start_def)
  next
    fix r p assume a: "0 \<le> p \<and> p < pl \<and> (\<forall>i < bs. rpi ! i = r \<longrightarrow> p < st ! i \<or> en ! i \<le> p)"
    have "?R (r * pl + p) \<inter> set order = {}"
      using own [of _ p r] a pids(2) by fastforce
    then show "assign_req_to_token_pool_func rpi st en out pl bs order m (r * pl + p) = m (r * pl + p)"
      unfolding assign_req_to_token_pool_func_def using eff by (intro launch_outside [where R = ?R and f = ?f]) auto
  qed
qed

text \<open>
  \<open>create_extend_after_decode_spec_info\<close>, in any order of its program instances: the positions of a
  request are the last \<open>accept_len\<close> positions of its sequence, in its segment of the buffer, and its new
  verified token is the last token of its segment.
\<close>

lemma create_extend_correct:
  assumes len: "length seq = bs" "length acc = bs" "length ver = nat (sum_list acc)"
    and bounds: "\<forall>a \<in> set acc. 1 \<le> a \<and> a \<le> int n" "bs \<le> n" and pids: "distinct order" "set order = {0..<bs}"
    and B': "B' = foldl (\<lambda>B pid. create_extend_after_decode_spec_info ver seq acc n pid B) B order"
    and i: "i < bs"
  shows "(\<forall>j. 0 \<le> j \<and> j < acc ! i \<longrightarrow>
      ext_positions B' (sum_list (take i acc) + j) = Some (seq ! i - acc ! i + j)) \<and>
    ext_verified B' (int i) = Some (ver ! nat (sum_list (take (Suc i) acc) - 1))"
proof -
  let ?pk = "\<lambda>pid m. store_lanes m (sum_below 0 acc n pid) n (\<lambda>j. Some (seq ! pid - acc ! pid + int j))
      (\<lambda>j. int j < acc ! pid)"
  let ?vk = "\<lambda>pid (m :: mem). m(int pid := tl_load ver (sum_below 0 acc n pid + (acc ! pid - 1)))"
  have split: "ext_positions (foldl (\<lambda>B pid. create_extend_after_decode_spec_info ver seq acc n pid B) B ps) =
        launch ?pk ps (ext_positions B) \<and>
      ext_verified (foldl (\<lambda>B pid. create_extend_after_decode_spec_info ver seq acc n pid B) B ps) =
        launch ?vk ps (ext_verified B)" for ps
    by (induction ps rule: rev_induct) (simp_all add: create_extend_after_decode_spec_info_def Let_def)
  have st: "sum_below 0 acc n p = seg_start acc p" if "p < bs" for p
    using that len bounds(2) by (simp add: sum_below_eq seg_start_def)
  have nn: "\<forall>x \<in> set acc. 0 \<le> x" using bounds(1) by force
  have accn: "1 \<le> acc ! p" "acc ! p \<le> int n" if "p < bs" for p using that bounds(1) len by auto
  have last_pos: "seg_start acc i + (acc ! i - 1) = sum_list (take (Suc i) acc) - 1"
    using i len by (simp add: seg_start_def take_Suc_conv_app_nth)
  have "?pk p m a = (if seg_start acc p \<le> a \<and> a < seg_start acc p + acc ! p
      then (\<lambda>p j. Some (seq ! p - acc ! p + j)) p (a - seg_start acc p) else m a)" if "p < length acc" for p m a
    using accn [of p] st [of p] that len by (auto simp: store_lanes_apply)
  then have "launch ?pk order (ext_positions B) (seg_start acc i + j) = (\<lambda>p j. Some (seq ! p - acc ! p + j)) i j"
    if "0 \<le> j" "j < acc ! i" for j
    using that i pids len by (intro launch_segments [OF _ nn]) auto
  moreover have "launch ?vk order (ext_verified B) (int i) = tl_load ver (sum_list (take (Suc i) acc) - 1)"
    unfolding last_pos [symmetric] using launch_inside [of order ?vk "\<lambda>a. {p. a = int p}" "\<lambda>p a. tl_load ver (sum_below 0 acc n p + (acc ! p - 1))" "int i" i]
      pids i st by auto
  moreover have "0 \<le> sum_list (take (Suc i) acc) - 1" "sum_list (take (Suc i) acc) - 1 < int (length ver)"
    using seg_start_mono [OF nn, of 0 i] seg_start_mono [OF nn, of "Suc i" bs] i len accn [OF i]
      seg_start_Suc [of i acc] by (simp_all add: seg_start_def)
  ultimately show ?thesis unfolding B' using split [of order] by (simp add: seg_start_def tl_load_def)
qed

lemma create_extend_correct_witness:
  "ext_positions (foldl (\<lambda>B pid. create_extend_after_decode_spec_info [7, 8, 9] [10, 20] [2, 1] 2 pid B)
        \<lparr>ext_positions = Map.empty, ext_verified = Map.empty\<rparr> [1, 0]) 1 = Some 9 \<and>
    ext_verified (foldl (\<lambda>B pid. create_extend_after_decode_spec_info [7, 8, 9] [10, 20] [2, 1] 2 pid B)
        \<lparr>ext_positions = Map.empty, ext_verified = Map.empty\<rparr> [1, 0]) 0 = Some 8"
proof -
  have w: "(\<forall>j. 0 \<le> j \<and> j < [2, 1] ! 0 \<longrightarrow>
      ext_positions (foldl (\<lambda>B pid. create_extend_after_decode_spec_info [7, 8, 9] [10, 20] [2, 1] 2 pid B)
        \<lparr>ext_positions = Map.empty, ext_verified = Map.empty\<rparr> [1, 0]) (sum_list (take 0 [2, 1]) + j) =
        Some ([10, 20] ! 0 - [2, 1] ! 0 + j)) \<and>
    ext_verified (foldl (\<lambda>B pid. create_extend_after_decode_spec_info [7, 8, 9] [10, 20] [2, 1] 2 pid B)
        \<lparr>ext_positions = Map.empty, ext_verified = Map.empty\<rparr> [1, 0]) (int 0) =
      Some ([7, 8, 9] ! nat (sum_list (take (Suc 0) [2, 1]) - 1))"
    by (rule create_extend_correct [OF _ _ _ _ _ _ _ refl, where bs = 2]) auto
  show ?thesis using spec [OF conjunct1 [OF w], of 1] conjunct2 [OF w] by simp
qed

lemma le_div_iff: "0 < ps \<Longrightarrow> q \<le> s div ps \<longleftrightarrow> q * ps \<le> (s :: int)"
proof
  assume ps: "0 < ps"
  show "q * ps \<le> s" if "q \<le> s div ps"
    using mult_right_mono [OF that, of ps] div_mult_bounds(1) [OF ps, of s] ps by linarith
  show "q \<le> s div ps" if "q * ps \<le> s" using zdiv_mono1 [OF that ps] ps by simp
qed

text \<open>
  \<open>align_evict_mask_to_page_size\<close> on a row whose first \<open>nf\<close> tokens are kept: exactly the tokens in
  pages after the page of the last kept token stay marked for eviction, so that freeing them by pages
  cannot free a kept token, and the other rows do not change.
\<close>

lemma align_evict_mask_correct:
  assumes ps: "0 < ps" and nf: "0 < nf" "nf \<le> n" and block: "n \<le> block"
    and row: "\<forall>t < n. m (int (bid * n) + int t) = (nf \<le> t)"
  shows "(\<forall>t < n. align_evict_mask_to_page_size seq ps n block bid m (int (bid * n) + int t) =
      ((seq ! bid + int nf - 1) div ps < (seq ! bid + int t) div ps)) \<and>
    (\<forall>a. (a < int (bid * n) \<or> int (bid * n + n) \<le> a) \<longrightarrow>
      align_evict_mask_to_page_size seq ps n block bid m a = m a)"
proof -
  let ?row = "int (bid * n)" and ?s = "seq ! bid"
  let ?start = "(?s + int nf - 1) div ps * ps - ?s"
  have e: "(if t < n \<and> m (?row + int t) then 1 else 0 :: int) = (if nf \<le> t \<and> t < n then 1 else 0)" for t
    using row by auto
  have "sum_list (map (\<lambda>t. if nf \<le> t \<and> t < n then 1 else 0 :: int) [0..<block]) = int n - int nf"
  proof -
    have "sum_list (map (\<lambda>t. if nf \<le> t \<and> t < n then 1 else 0 :: int) [0..<block]) =
        int (card ({0..<block} \<inter> {t. nf \<le> t \<and> t < n}))"
      by (simp add: sum_list_distinct_conv_sum_set sum.If_cases)
    also have "{0..<block} \<inter> {t. nf \<le> t \<and> t < n} = {nf..<n}" using block by auto
    finally show ?thesis using nf by simp
  qed
  then have nfalse: "int n - sum_list (map (\<lambda>t. if t < n \<and> m (?row + int t) then 1 else 0) [0..<block]) = int nf"
    unfolding e by simp
  have fold: "foldl (\<lambda>m i. m(?row + i := False)) m xs a = (m a \<and> a - ?row \<notin> set xs)" for xs :: "int list" and a
    by (induction xs rule: rev_induct) auto
  have res: "align_evict_mask_to_page_size seq ps n block bid m a =
      (m a \<and> \<not> (max ?start 0 \<le> a - ?row \<and> a - ?row < min (?start + ps) (int n)))" for a
    unfolding align_evict_mask_to_page_size_def Let_def nfalse fold by auto
  have page: "(?s + int nf - 1) div ps < (?s + t) div ps \<longleftrightarrow> ?start + ps \<le> t" for t
  proof -
    let ?q = "(?s + int nf - 1) div ps"
    have "?q < (?s + t) div ps \<longleftrightarrow> ?q + 1 \<le> (?s + t) div ps" by auto
    also have "\<dots> \<longleftrightarrow> (?q + 1) * ps \<le> ?s + t" using le_div_iff [OF ps] .
    finally show ?thesis by (auto simp: algebra_simps)
  qed
  have sb: "?start \<le> int nf - 1" "int nf \<le> ?start + ps"
    using div_mult_bounds [OF ps, of "?s + int nf - 1"] by linarith+
  show ?thesis
    unfolding res page using row sb nf ps by auto
qed

lemma align_evict_mask_correct_witness:
  "\<not> align_evict_mask_to_page_size [5, 9] 4 6 8 1 (\<lambda>a. 8 \<le> a) 8 \<and>
    align_evict_mask_to_page_size [5, 9] 4 6 8 1 (\<lambda>a. 8 \<le> a) 9 \<and>
    align_evict_mask_to_page_size [5, 9] 4 6 8 1 (\<lambda>a. 8 \<le> a) 12"
proof -
  have w: "(\<forall>t < 6. align_evict_mask_to_page_size [5, 9] 4 6 8 1 (\<lambda>a. 8 \<le> a) (int (1 * 6) + int t) =
      (([5, 9] ! 1 + int 2 - 1) div 4 < ([5, 9] ! 1 + int t) div 4)) \<and>
    (\<forall>a. (a < int (1 * 6) \<or> int (1 * 6 + 6) \<le> a) \<longrightarrow>
      align_evict_mask_to_page_size [5, 9] 4 6 8 1 (\<lambda>a. 8 \<le> a) a = (8 \<le> a))"
    by (rule align_evict_mask_correct) auto
  show ?thesis
    using spec [OF conjunct1 [OF w], of 2] spec [OF conjunct1 [OF w], of 3] spec [OF conjunct2 [OF w], of 12] by simp
qed

text \<open>
  \<open>get_src_tgt_cache_loc\<close> with \<open>get_target_cache_loc\<close>, in any order of the program instances: of the
  verify slots of a request the first ones, as many as tokens are kept, go to its segment of
  \<open>tgt_cache_loc\<close>, the last \<open>to_free_num_slots\<close> to its segment of \<open>to_free_slots\<close>; no slot goes to both, and
  the freed ones lie in pages after the page of the last kept token. (Masked-out lanes read zero.)
\<close>

lemma target_cache_loc_correct:
  assumes len: "length seq = bs" "length acc = bs" and ps: "0 < ps"
    and acc: "\<forall>a \<in> set acc. 0 \<le> a \<and> a < int n" and up: "n \<le> upper" "bs \<le> bs_upper"
    and pids: "distinct order" "set order = {0..<bs}"
    and fr: "get_src_tgt_cache_loc seq out ai acc (int n) ps = Inr (src, fr)"
    and B': "B' = foldl (\<lambda>B bid. get_target_cache_loc 0 acc fr out n upper bs_upper bid B) B order"
    and i: "i < bs"
  shows "(\<forall>j. 0 \<le> j \<and> j \<le> acc ! i \<longrightarrow>
      tl_tgt B' (sum_list (take i acc) + int i + j) = tl_load out (int (i * n) + j)) \<and>
    (\<forall>j. 0 \<le> j \<and> j < fr ! i \<longrightarrow>
      tl_free B' (sum_list (take i fr) + j) = tl_load out (int (i * n) + (int n - fr ! i) + j)) \<and>
    0 \<le> fr ! i \<and> acc ! i + 1 \<le> int n - fr ! i \<and>
    (\<forall>t. int n - fr ! i \<le> t \<and> t < int n \<longrightarrow> (seq ! i + acc ! i) div ps < (seq ! i + t) div ps)"
proof -
  have fr_eq: "fr = map2 (\<lambda>s a. s + int n - min ((s + a + 1 + ps - 1) div ps * ps) (s + int n)) seq acc"
    using fr by (auto simp: get_src_tgt_cache_loc_def py_bind_eq_Inr Let_def)
  have lf: "length fr = bs" using len fr_eq by simp
  let ?keep = "\<lambda>p. ceil_page ps (seq ! p + acc ! p + 1) * ps"
  have frn: "fr ! p = seq ! p + int n - min (?keep p) (seq ! p + int n)" if "p < bs" for p
    using that len unfolding fr_eq by (simp add: ceil_page_def add.assoc)
  have accn: "0 \<le> acc ! p" "acc ! p < int n" if "p < bs" for p using that acc len by auto
  have fb: "0 \<le> fr ! p" "acc ! p + 1 \<le> int n - fr ! p" if "p < bs" for p
    using frn [OF that] ceil_page_bounds(1) [OF ps, of "seq ! p + acc ! p + 1"] accn [OF that] by auto
  let ?lens = "map (\<lambda>a. a + 1) acc"
  have seg: "seg_start ?lens p = sum_list (take p acc) + int p" if "p \<le> bs" for p
    using that len by (simp add: seg_start_def take_map sum_list_addf sum_list_triv o_def)
  let ?tk = "\<lambda>p m. store_lanes m (sum_below 0 acc bs_upper p + int p) upper
      (\<lambda>j. tl_load out (int (p * n) + int j)) (\<lambda>j. int j < acc ! p + 1)"
  let ?fk = "\<lambda>p m. store_lanes m (sum_below 0 fr bs_upper p) upper
      (\<lambda>j. tl_load out (int (p * n) + (int n - fr ! p) + int j)) (\<lambda>j. int j < fr ! p)"
  have split: "tl_tgt (foldl (\<lambda>B bid. get_target_cache_loc 0 acc fr out n upper bs_upper bid B) B xs) =
        launch ?tk xs (tl_tgt B) \<and>
      tl_free (foldl (\<lambda>B bid. get_target_cache_loc 0 acc fr out n upper bs_upper bid B) B xs) =
        launch ?fk xs (tl_free B)" for xs
    by (induction xs rule: rev_induct) (simp_all add: get_target_cache_loc_def Let_def)
  have below: "sum_below 0 xs bs_upper p = sum_list (take p xs)" if "p < bs" "length xs = bs" for xs p
    using that up(2) by (intro sum_below_eq) auto
  have te: "?tk p m a = (if seg_start ?lens p \<le> a \<and> a < seg_start ?lens p + ?lens ! p
      then (\<lambda>p j. tl_load out (int (p * n) + j)) p (a - seg_start ?lens p) else m a)" if "p < length ?lens" for p m a
    using that accn [of p] up(1) len below [of p acc] seg [of p] by (auto simp: store_lanes_apply)
  have fe: "?fk p m a = (if seg_start fr p \<le> a \<and> a < seg_start fr p + fr ! p
      then (\<lambda>p j. tl_load out (int (p * n) + (int n - fr ! p) + j)) p (a - seg_start fr p) else m a)"
    if "p < length fr" for p m a
    using that fb [of p] accn [of p] up(1) lf below [of p fr] by (auto simp: store_lanes_apply seg_start_def)
  have "launch ?tk order (tl_tgt B) (seg_start ?lens i + j) = (\<lambda>p j. tl_load out (int (p * n) + j)) i j"
    if "0 \<le> j" "j \<le> acc ! i" for j
    by (rule launch_segments [where k = ?tk and lens = ?lens and f = "\<lambda>p j. tl_load out (int (p * n) + j)"])
       (use te that i pids len acc in auto)
  moreover have "\<forall>x \<in> set fr. 0 \<le> x" using fb lf by (auto simp: in_set_conv_nth)
  then have "launch ?fk order (tl_free B) (seg_start fr i + j) =
      (\<lambda>p j. tl_load out (int (p * n) + (int n - fr ! p) + j)) i j" if "0 \<le> j" "j < fr ! i" for j
    by (intro launch_segments [where k = ?fk and lens = fr and
          f = "\<lambda>p j. tl_load out (int (p * n) + (int n - fr ! p) + j)"])
       (use fe that i pids lf in auto)
  moreover have "(seq ! i + acc ! i) div ps < (seq ! i + t) div ps" if "int n - fr ! i \<le> t" "t < int n" for t
  proof -
    have "?keep i \<le> seq ! i + t" using frn [OF i] that by (auto simp: min_def split: if_splits)
    moreover have "(seq ! i + acc ! i) div ps + 1 = ceil_page ps (seq ! i + acc ! i + 1)"
      using ps div_add_self2 [of ps "seq ! i + acc ! i"] by (simp add: ceil_page_def add.assoc)
    ultimately have "(seq ! i + acc ! i) div ps + 1 \<le> (seq ! i + t) div ps" by (simp add: le_div_iff [OF ps])
    then show ?thesis by simp
  qed
  ultimately show ?thesis unfolding B' using split [of order] fb [OF i] seg [of i] i
    by (auto simp: seg_start_def)
qed

lemma target_cache_loc_correct_witness:
  "\<exists>src fr. get_src_tgt_cache_loc [5, 9] [10, 11, 12, 13, 14, 15] [0, 3] [0, 1] (int 3) 2 = Inr (src, fr) \<and>
    0 \<le> fr ! 0 \<and> [0, 1] ! 0 + 1 \<le> int 3 - fr ! 0 \<and>
    (\<forall>t. int 3 - fr ! 0 \<le> t \<and> t < int 3 \<longrightarrow> ([5, 9] ! 0 + [0, 1] ! 0) div 2 < ([5, 9] ! 0 + t) div (2 :: int))"
proof -
  obtain src fr where r: "get_src_tgt_cache_loc [5, 9] [10, 11, 12, 13, 14, 15] [0, 3] [0, 1] (int 3) 2 = Inr (src, fr)"
    by (simp add: get_src_tgt_cache_loc_def py_index_def Let_def)
  have "(\<forall>j. 0 \<le> j \<and> j \<le> [0, 1] ! 0 \<longrightarrow>
      tl_tgt (foldl (\<lambda>B bid. get_target_cache_loc 0 [0, 1] fr [10, 11, 12, 13, 14, 15] 3 4 2 bid B)
        \<lparr>tl_tgt = Map.empty, tl_free = Map.empty\<rparr> [1, 0]) (sum_list (take 0 [0, 1]) + int 0 + j) =
        tl_load [10, 11, 12, 13, 14, 15] (int (0 * 3) + j)) \<and>
    (\<forall>j. 0 \<le> j \<and> j < fr ! 0 \<longrightarrow>
      tl_free (foldl (\<lambda>B bid. get_target_cache_loc 0 [0, 1] fr [10, 11, 12, 13, 14, 15] 3 4 2 bid B)
        \<lparr>tl_tgt = Map.empty, tl_free = Map.empty\<rparr> [1, 0]) (sum_list (take 0 fr) + j) =
        tl_load [10, 11, 12, 13, 14, 15] (int (0 * 3) + (int 3 - fr ! 0) + j)) \<and>
    0 \<le> fr ! 0 \<and> [0, 1] ! 0 + 1 \<le> int 3 - fr ! 0 \<and>
    (\<forall>t. int 3 - fr ! 0 \<le> t \<and> t < int 3 \<longrightarrow> ([5, 9] ! 0 + [0, 1] ! 0) div 2 < ([5, 9] ! 0 + t) div (2 :: int))"
    by (rule target_cache_loc_correct [OF _ _ _ _ _ _ _ _ r refl, where bs = 2]) auto
  with r show ?thesis by blast
qed

lemma get_last_loc_triton_eq:
  assumes "length rpi = length pre"
  shows "get_last_loc_triton r2t stride rpi pre = get_last_loc_torch r2t stride rpi pre"
proof -
  let ?n = "length pre"
  let ?k = "get_last_loc_kernel r2t rpi pre ?n stride 256"
  let ?v = "\<lambda>i. if pre ! i > 0 then r2t (rpi ! i * stride + (pre ! i - 1)) else Some (-1)"
  let ?R = "\<lambda>a. {p. int (p * 256) \<le> a \<and> a < int (p * 256) + 256 \<and> a < int ?n}"
  have eff: "?k p m a = (if p \<in> ?R a then (\<lambda>p a. ?v (nat a)) p a else m a)" for p m a
  proof (cases "int (p * 256) \<le> a")
    case True
    then have e: "p * 256 + nat (a - int (p * 256)) = nat a"
      by (metis add_diff_inverse_nat nat_diff_distrib' nat_int nat_mono of_nat_0_le_iff order_trans not_less)
    show ?thesis unfolding get_last_loc_kernel_def store_lanes_apply Let_def e
      using True by (simp add: nat_less_iff)
  qed (simp add: get_last_loc_kernel_def store_lanes_apply)
  have "launch ?k [0..<nat (cdiv (int ?n) 256)] Map.empty (int i) = ?v i" if i: "i < ?n" for i
  proof -
    have "?n \<le> nat (cdiv (int ?n) 256) * 256" using ceil_blocks_cover [of 256 "int ?n"] by (metis cdiv_def of_nat_le_iff of_nat_numeral zero_less_numeral)
    then have "i div 256 < nat (cdiv (int ?n) 256)" using i by (intro less_mult_imp_div_less) linarith
    then have "?R (int i) \<inter> set [0..<nat (cdiv (int ?n) 256)] = {i div 256}" using i by auto
    then have "launch ?k [0..<nat (cdiv (int ?n) 256)] Map.empty (int i) = (\<lambda>p a. ?v (nat a)) (i div 256) (int i)"
      using eff by (intro launch_inside [where R = ?R and f = "\<lambda>p a. ?v (nat a)"]) auto
    then show ?thesis by simp
  qed
  then have "get_last_loc_triton r2t stride rpi pre = map ?v [0..<?n]"
    unfolding get_last_loc_triton_def Let_def read_out_def by (intro map_cong) simp_all
  also have "\<dots> = get_last_loc_torch r2t stride rpi pre"
    unfolding get_last_loc_torch_def using assms by (intro nth_equalityI) simp_all
  finally show ?thesis .
qed

text \<open>
  \<open>assign_draft_cache_locs\<close> with pages of several slots and several branches: part 1 copies the segment of the request into its row,
  and part 3 writes the first draft slot of the request to its place in \<open>out_cache_loc\<close>.
\<close>

lemma draft_locs_table:
  assumes "\<not> (ps = 1 \<or> topk = 1)" "pid \<le> upper" "pid \<le> length ext"
  shows "dl_req_to_token (assign_draft_cache_locs 0 rpi seq ext pages cum dup pl topk steps ps upper iter pid B) a =
    (if rpi ! pid * pl + seq ! pid \<le> a \<and> a < rpi ! pid * pl + seq ! pid + ext ! pid
     then dl_out_cache B (seg_start ext pid + (a - (rpi ! pid * pl + seq ! pid))) else dl_req_to_token B a)"
  using assms(1) store_blocks_cdiv [of 128 "dl_req_to_token B" "rpi ! pid * pl + seq ! pid" "ext ! pid" "\<lambda>k. dl_out_cache B (seg_start ext pid + int k)" a]
  by (simp add: assign_draft_cache_locs_def Let_def sum_below_eq [OF assms(2,3)] seg_start_def)

lemma foldl_lanes_miss:
  assumes "\<And>t. t \<in> set ts \<Longrightarrow> \<not> (base t \<le> a \<and> a < base t + int n \<and> P (nat (a - base t)))"
  shows "foldl (\<lambda>m t. store_lanes m (base t) n (f t) P) m ts a = m a"
  using assms
proof (induction ts arbitrary: m)
  case (Cons t ts)
  have "store_lanes m (base t) n (f t) P a = m a" using Cons.prems [of t] unfolding store_lanes_apply by (simp only: list.set_intros) simp
  then show ?case using Cons by simp
qed simp

lemma draft_locs_first_slot:
  assumes k: "B' = assign_draft_cache_locs 0 rpi seq ext pages cum dup pl topk steps ps upper iter pid B"
    and p: "1 < ps" "1 < topk" "0 < steps" "0 < dup" "nat ps + steps \<le> iter"
  shows "dl_out_cache B' (int (pid * steps * topk)) = dl_req_to_token B' (rpi ! pid * pl + seq ! pid)"
proof -
  let ?l = "seq ! pid mod ps" and ?a = "int (pid * steps * topk)"
  let ?base = "\<lambda>t. int (pid * steps * topk) + int (t * steps) - ?l"
  let ?P = "\<lambda>j. int j < int steps + ?l \<and> ?l \<le> int j"
  let ?f = "\<lambda>t j. dl_req_to_token B' (rpi ! pid * pl + seq ! pid - ?l + int t * (pages ! pid) * ps + int j)"
  have l: "0 \<le> ?l" "?l < int iter" using p(1,5) pos_mod_sign [of ps "seq ! pid"] pos_mod_bound [of ps "seq ! pid"] by linarith+
  have "dl_out_cache B' = foldl (\<lambda>m t. store_lanes m (?base t) iter (?f t) ?P) (dl_out_cache B) [0..<topk]"
    unfolding k using p by (simp add: assign_draft_cache_locs_def Let_def)
  moreover have "[0..<topk] = 0 # [1..<topk]" using p(2) by (subst upt_conv_Cons) simp_all
  ultimately have o: "dl_out_cache B' = foldl (\<lambda>m t. store_lanes m (?base t) iter (?f t) ?P) (store_lanes (dl_out_cache B) (?base 0) iter (?f 0) ?P) [1..<topk]"
    by simp
  have "dl_out_cache B' ?a = store_lanes (dl_out_cache B) (?base 0) iter (?f 0) ?P ?a"
    unfolding o
  proof (rule foldl_lanes_miss)
    fix t assume "t \<in> set [1..<topk]"
    then have "0 < int (t * steps)" using p(3) by simp
    then show "\<not> (?base t \<le> ?a \<and> ?a < ?base t + int iter \<and> ?P (nat (?a - ?base t)))" using l(1) by auto
  qed
  then show ?thesis using l p(3) by (simp add: store_lanes_apply)
qed



end
