(* ===== verification/Dflash_Config.thy ===== *)
theory Dflash_Config
  imports SD_Prelude Complex_Main
begin

text \<open>
  The configuration side of \<open>srt/speculative/dflash_utils.py\<close>: the memory budget of the draft KV pool, the
  target layers whose features feed the draft, and the parsing and validation of a draft configuration,
  which is a dynamically typed value (a dictionary or an object with attributes).
\<close>

section \<open>Dynamically typed values\<close>

text \<open>
  \<open>PObj\<close> is an object with its attributes, \<open>PCall\<close> a callable with what calling it without arguments
  gives. Dictionary keys are strings. A float is the rational it denotes.
\<close>

datatype pyval =
    PNone | PBool bool | PInt int | PFloat rat | PStr string | PList "pyval list"
  | PDict "(string \<times> pyval) list" | PObj "(string \<times> pyval) list" | PCall "py_error + pyval"

definition dict_get :: "(string \<times> pyval) list \<Rightarrow> string \<Rightarrow> pyval \<Rightarrow> pyval" where
  "dict_get d k v = (case map_of d k of None \<Rightarrow> v | Some x \<Rightarrow> x)"

definition py_getattr :: "pyval \<Rightarrow> string \<Rightarrow> pyval \<Rightarrow> pyval" where
  "py_getattr x k v = (case x of PObj attrs \<Rightarrow> dict_get attrs k v | _ \<Rightarrow> v)"

definition is_space :: "char \<Rightarrow> bool" where
  "is_space c \<longleftrightarrow> of_char c \<in> {9, 10, 11, 12, 13, 28, 29, 30, 31, 32 :: nat}"

definition strip :: "string \<Rightarrow> string" where
  "strip s = rev (dropWhile is_space (rev (dropWhile is_space s)))"

definition digit_of :: "char \<Rightarrow> int option" where
  "digit_of c = (let n = (of_char c :: int) in if 48 \<le> n \<and> n \<le> 57 then Some (n - 48) else None)"

text \<open>The digits of an integer literal, with single underscores between digits.\<close>

fun digits_val :: "string \<Rightarrow> bool \<Rightarrow> int \<Rightarrow> int option" where
  "digits_val [] prev acc = (if prev then Some acc else None)"
| "digits_val (c # cs) prev acc =
     (case digit_of c of Some d \<Rightarrow> digits_val cs True (acc * 10 + d)
      | None \<Rightarrow> if c = CHR ''_'' \<and> prev then digits_val cs False acc else None)"

definition int_of_string :: "string \<Rightarrow> int option" where
  "int_of_string s =
     (case strip s of [] \<Rightarrow> None
      | c # cs \<Rightarrow> if c = CHR ''-'' then map_option uminus (digits_val cs False 0)
                  else if c = CHR ''+'' then digits_val cs False 0
                  else digits_val (c # cs) False 0)"

text \<open>\<open>int(value)\<close>.\<close>

definition py_int :: "pyval \<Rightarrow> int py" where
  "py_int v = (case v of
      PBool b \<Rightarrow> Inr (if b then 1 else 0)
    | PInt i \<Rightarrow> Inr i
    | PFloat q \<Rightarrow> Inr (if q \<ge> 0 then \<lfloor>q\<rfloor> else \<lceil>q\<rceil>)
    | PStr s \<Rightarrow> (case int_of_string s of None \<Rightarrow> Inl ValueError | Some i \<Rightarrow> Inr i)
    | _ \<Rightarrow> Inl TypeError)"

section \<open>Budget and layers\<close>

definition scale_kv_cell_size_per_token_for_dflash :: "int \<Rightarrow> int \<Rightarrow> int \<Rightarrow> int option \<Rightarrow> int py" where
  "scale_kv_cell_size_per_token_for_dflash target_cell target_layers draft_layers draft_cell =
     (if target_cell \<le> 0 then Inl ValueError
      else case draft_cell of
        Some d \<Rightarrow> if d \<le> 0 then Inl ValueError else Inr (target_cell + d)
      | None \<Rightarrow>
          if target_layers \<le> 0 \<or> draft_layers \<le> 0 then Inr target_cell
          else (let total_layers = target_layers + draft_layers
                in Inr ((target_cell * total_layers + target_layers - 1) div target_layers)))"

text \<open>An attention backend and the backend it wraps as \<open>full_attn_backend\<close>, if any.\<close>

datatype backend = Backend (backend_name: string) (full_attn_backend: "backend option")

fun unwrap_backend :: "nat \<Rightarrow> backend \<Rightarrow> backend" where
  "unwrap_backend 0 b = b"
| "unwrap_backend (Suc k) b = (case full_attn_backend b of None \<Rightarrow> b | Some f \<Rightarrow> unwrap_backend k f)"

definition resolve_dflash_verify_mask_policy :: "backend \<Rightarrow> string \<times> bool" where
  "resolve_dflash_verify_mask_policy b =
     (let name = backend_name (unwrap_backend 4 b)
      in (name, name \<notin> {''FlashInferAttnBackend'', ''FlashInferMLAAttnBackend'', ''FlashAttentionBackend'',
                         ''TRTLLMHAAttnBackend'', ''TRTLLMMLABackend''}))"

text \<open>Python's \<open>round\<close>: to the nearest integer, ties to the even one.\<close>

definition py_round :: "rat \<Rightarrow> int" where
  "py_round q =
     (let f = \<lfloor>q\<rfloor>; d = q - of_int f
      in if d < 1 / 2 then f else if d > 1 / 2 then f + 1 else if even f then f else f + 1)"

definition build_target_layer_ids :: "int \<Rightarrow> int \<Rightarrow> int list py" where
  "build_target_layer_ids num_target_layers num_draft_layers =
     (if num_target_layers \<le> 0 then Inl ValueError
      else if num_draft_layers \<le> 0 then Inl ValueError
      else if num_draft_layers = 1 then Inr [num_target_layers div 2]
      else (let start = 1; end_layer = num_target_layers - 3
            in if end_layer < start then Inl ValueError
               else (let span = end_layer - start
                     in Inr (map (\<lambda>i. py_round (of_int start + of_int (int i * span) / of_int (num_draft_layers - 1)))
                           [0..<nat num_draft_layers]))))"

section \<open>The draft configuration\<close>

definition dflash_cfg_get :: "pyval \<Rightarrow> string \<Rightarrow> pyval \<Rightarrow> pyval" where
  "dflash_cfg_get config key v = (case config of PDict d \<Rightarrow> dict_get d key v | _ \<Rightarrow> py_getattr config key v)"

definition get_text_config :: "pyval \<Rightarrow> pyval py" where
  "get_text_config config =
     (case config of PNone \<Rightarrow> Inr PNone
      | PDict d \<Rightarrow> Inr (dict_get d ''text_config'' config)
      | _ \<Rightarrow>
        (let t = py_getattr config ''text_config'' PNone
         in if t \<noteq> PNone then Inr t
            else case py_getattr config ''get_text_config'' PNone of
                   PCall (Inr resolved) \<Rightarrow> Inr (if resolved \<noteq> PNone then resolved else config)
                 | PCall (Inl TypeError) \<Rightarrow> Inr config
                 | PCall (Inl e) \<Rightarrow> Inl e
                 | _ \<Rightarrow> Inr config))"

text \<open>
  \<open>dict(items)\<close>: every item gives two values, the first of them hashable; items whose key is not a
  string are dropped, since they are never looked up. Later items win.
\<close>

definition dict_item :: "pyval \<Rightarrow> (string \<times> pyval) list option" where
  "dict_item it = (case it of
      PList [PStr k, v] \<Rightarrow> Some [(k, v)]
    | PList [PList _, v] \<Rightarrow> None
    | PList [PDict _, v] \<Rightarrow> None
    | PList [k, v] \<Rightarrow> Some []
    | PStr [a, b] \<Rightarrow> Some [([a], PStr [b])]
    | PDict [(a, _), (b, _)] \<Rightarrow> Some [(a, PStr b)]
    | _ \<Rightarrow> None)"

fun dict_of_items :: "pyval list \<Rightarrow> (string \<times> pyval) list option" where
  "dict_of_items [] = Some []"
| "dict_of_items (it # its) =
     (case dict_item it of None \<Rightarrow> None
      | Some kv \<Rightarrow> map_option (\<lambda>d. d @ kv) (dict_of_items its))"

definition get_dflash_config :: "pyval \<Rightarrow> (string \<times> pyval) list" where
  "get_dflash_config config =
     (case dflash_cfg_get config ''dflash_config'' PNone of
        PNone \<Rightarrow> []
      | PDict d \<Rightarrow> d
      | PList its \<Rightarrow> (case dict_of_items its of None \<Rightarrow> [] | Some d \<Rightarrow> d)
      | _ \<Rightarrow> [])"

definition parse_optional_int :: "pyval \<Rightarrow> int option \<Rightarrow> int option py" where
  "parse_optional_int v min_value =
     (if v = PNone then Inr None
      else case py_int v of Inl _ \<Rightarrow> Inl ValueError
           | Inr parsed \<Rightarrow>
               (case min_value of Some m \<Rightarrow> if parsed < m then Inl ValueError else Inr (Some parsed)
                | None \<Rightarrow> Inr (Some parsed)))"

record dflash_draft_config =
  num_hidden_layers :: "int option"
  cfg_num_target_layers :: "int option"
  block_size :: "int option"
  target_layer_ids :: "int list option"
  mask_token :: string
  mask_token_id :: "int option"

definition require_num_layers :: "dflash_draft_config \<Rightarrow> int py" where
  "require_num_layers c = (case num_hidden_layers c of None \<Rightarrow> Inl ValueError | Some n \<Rightarrow> Inr n)"

definition resolve_block_size :: "dflash_draft_config \<Rightarrow> int option \<Rightarrow> int option" where
  "resolve_block_size c dflt = (case block_size c of None \<Rightarrow> dflt | Some b \<Rightarrow> Some b)"

definition resolve_target_layer_ids :: "dflash_draft_config \<Rightarrow> int \<Rightarrow> int option \<Rightarrow> int list py" where
  "resolve_target_layer_ids c target_num_layers draft_num_layers =
     (if target_num_layers \<le> 0 then Inl ValueError
      else case target_layer_ids c of
        None \<Rightarrow> py_bind (case draft_num_layers of None \<Rightarrow> require_num_layers c | Some n \<Rightarrow> Inr n)
                  (build_target_layer_ids target_num_layers)
      | Some ids \<Rightarrow>
          if length ids \<le> 0 then Inl ValueError
          else if \<exists>v \<in> set ids. v < 0 \<or> v \<ge> target_num_layers then Inl ValueError
          else Inr ids)"

definition DEFAULT_DFLASH_MASK_TOKEN :: string where
  "DEFAULT_DFLASH_MASK_TOKEN = ''<|MASK|>''"

definition parse_layer_ids :: "pyval \<Rightarrow> int list option py" where
  "parse_layer_ids v = (case v of
      PNone \<Rightarrow> Inr None
    | PList xs \<Rightarrow>
        py_bind (py_for (\<lambda>x acc. py_bind (py_int x) (\<lambda>i. Inr (acc @ [i]))) xs []) (\<lambda>ids.
        if length ids \<le> 0 then Inl ValueError else Inr (Some ids))
    | _ \<Rightarrow> Inl ValueError)"

definition parse_mask_token :: "pyval \<Rightarrow> string py" where
  "parse_mask_token v = (case v of
      PNone \<Rightarrow> Inr DEFAULT_DFLASH_MASK_TOKEN
    | PStr s \<Rightarrow> if s = [] then Inl ValueError else Inr s
    | _ \<Rightarrow> Inl ValueError)"

definition parse_mask_token_id :: "pyval \<Rightarrow> int option py" where
  "parse_mask_token_id v = (case v of
      PNone \<Rightarrow> Inr None
    | PInt i \<Rightarrow> if i < 0 then Inl ValueError else Inr (Some i)
    | _ \<Rightarrow> Inl ValueError)"

definition parse_dflash_draft_config :: "pyval \<Rightarrow> dflash_draft_config py" where
  "parse_dflash_draft_config config =
     (let cfg = get_dflash_config config in
      py_bind (get_text_config config) (\<lambda>text_config.
      py_bind (parse_optional_int (dflash_cfg_get text_config ''num_hidden_layers'' PNone) (Some 1)) (\<lambda>hidden.
      py_bind (parse_optional_int (dict_get cfg ''num_target_layers''
                 (dflash_cfg_get config ''num_target_layers'' PNone)) (Some 1)) (\<lambda>target.
      py_bind (parse_optional_int (dict_get cfg ''block_size''
                 (dflash_cfg_get config ''block_size'' PNone)) (Some 1)) (\<lambda>block.
      py_bind (parse_layer_ids (dict_get cfg ''target_layer_ids''
                 (dflash_cfg_get config ''target_layer_ids'' PNone))) (\<lambda>ids.
      py_bind (parse_mask_token (dict_get cfg ''mask_token'' PNone)) (\<lambda>tok.
      py_bind (parse_mask_token_id (dict_get cfg ''mask_token_id'' PNone)) (\<lambda>tok_id.
      Inr \<lparr>num_hidden_layers = hidden, cfg_num_target_layers = target, block_size = block,
           target_layer_ids = ids, mask_token = tok, mask_token_id = tok_id\<rparr>))))))))"

text \<open>A fused QKV layer: whether it is unquantized, whether it has a weight, and its bias.\<close>

record qkv_layer =
  unquantized :: bool
  has_weight :: bool
  qkv_bias :: bool

datatype qkv_reason = QkvOk | QkvQuantized | QkvNoWeight | QkvBias

definition can_dflash_slice_qkv_weight :: "qkv_layer \<Rightarrow> bool \<times> qkv_reason" where
  "can_dflash_slice_qkv_weight l =
     (if \<not> unquantized l then (False, QkvQuantized)
      else if \<not> has_weight l then (False, QkvNoWeight) else (True, QkvOk))"

definition can_dflash_use_fused_qkv_proj :: "qkv_layer \<Rightarrow> bool \<times> qkv_reason" where
  "can_dflash_use_fused_qkv_proj l =
     (case can_dflash_slice_qkv_weight l of (eligible, reason) \<Rightarrow>
      if \<not> eligible then (False, reason) else if qkv_bias l then (False, QkvBias) else (True, QkvOk))"

section \<open>Rounding\<close>

lemma py_round_near: "of_int (py_round q) - 1 / 2 \<le> q" "q \<le> of_int (py_round q) + 1 / 2"
proof -
  define f where "f = \<lfloor>q\<rfloor>"
  have "of_int f \<le> q" "q < of_int f + 1" unfolding f_def by linarith+
  then show "of_int (py_round q) - 1 / 2 \<le> q" "q \<le> of_int (py_round q) + 1 / 2"
    unfolding py_round_def Let_def f_def [symmetric] by auto
qed

lemma py_round_int [simp]: "py_round (of_int i) = i"
  by (simp add: py_round_def Let_def)

lemma py_round_mono: "p \<le> q \<Longrightarrow> py_round p \<le> py_round q"
proof -
  assume le: "p \<le> q"
  then have f: "\<lfloor>p\<rfloor> \<le> \<lfloor>q\<rfloor>" by (rule floor_mono)
  show ?thesis
  proof (cases "\<lfloor>p\<rfloor> = \<lfloor>q\<rfloor>")
    case True
    then show ?thesis using le by (auto simp: py_round_def Let_def)
  next
    case False
    then have "\<lfloor>p\<rfloor> + 1 \<le> \<lfloor>q\<rfloor>" using f by simp
    moreover have "py_round p \<le> \<lfloor>p\<rfloor> + 1" "\<lfloor>q\<rfloor> \<le> py_round q" by (auto simp: py_round_def Let_def)
    ultimately show ?thesis by linarith
  qed
qed

lemma py_round_strict: "p + 1 < q \<Longrightarrow> py_round p < py_round q"
proof -
  assume a: "p + 1 < q"
  have "(of_int (py_round p) :: rat) < of_int (py_round q)"
    using a py_round_near(1) [of p] py_round_near(2) [of q] by linarith
  then show ?thesis by simp
qed

lemma layer_points:
  fixes span n :: int
  assumes "0 \<le> span" "1 \<le> n" "i < j" "int j \<le> n"
  shows "(1 :: rat) + of_int (int i * span) / of_int n \<le> 1 + of_int (int j * span) / of_int n"
    and "1 \<le> (1 :: rat) + of_int (int i * span) / of_int n"
    and "(1 :: rat) + of_int (int j * span) / of_int n \<le> of_int (1 + span)"
    and "n < span \<Longrightarrow> (1 :: rat) + of_int (int i * span) / of_int n + 1 < 1 + of_int (int j * span) / of_int n"
proof -
  have n: "(0 :: rat) < of_int n" using assms by simp
  have ij: "int i * span \<le> int j * span" "0 \<le> int i * span" "int j * span \<le> n * span"
    using assms by (simp_all add: mult_right_mono)
  then show "(1 :: rat) + of_int (int i * span) / of_int n \<le> 1 + of_int (int j * span) / of_int n"
    using n by (simp only: add_le_cancel_left divide_right_mono of_int_le_iff less_imp_le)
  have "(0 :: rat) \<le> of_int (int i * span)" using ij(2) by (simp only: of_int_0_le_iff)
  then show "1 \<le> (1 :: rat) + of_int (int i * span) / of_int n" using n by simp
  have "(of_int (int j * span) :: rat) \<le> of_int (n * span)" using ij(3) by (simp only: of_int_le_iff)
  then show "(1 :: rat) + of_int (int j * span) / of_int n \<le> of_int (1 + span)"
    using n by (simp add: pos_divide_le_eq mult.commute)
  assume big: "n < span"
  have "int i * span + n < int j * span"
    using big assms mult_right_mono [of "int i + 1" "int j" span] by (simp add: distrib_right)
  then have "(of_int (int i * span + n) :: rat) < of_int (int j * span)" by (simp only: of_int_less_iff)
  then have "(of_int (int i * span) + of_int n :: rat) / of_int n < of_int (int j * span) / of_int n"
    using n by (intro divide_strict_right_mono) simp_all
  then show "(1 :: rat) + of_int (int i * span) / of_int n + 1 < 1 + of_int (int j * span) / of_int n"
    using n by (simp add: add_divide_distrib)
qed

lemma parse_optional_int_ok:
  "parse_optional_int v (Some m) = Inr r \<Longrightarrow> \<forall>n. r = Some n \<longrightarrow> m \<le> n"
  by (auto simp: parse_optional_int_def split: if_splits sum.splits)

lemma build_target_layer_ids_valid_lemma:
  "case build_target_layer_ids T D of
     Inl e \<Rightarrow> e = ValueError \<and> (T \<le> 0 \<or> D \<le> 0 \<or> D \<noteq> 1 \<and> T < 4)
   | Inr ids \<Rightarrow> int (length ids) = D \<and> sorted ids \<and> (\<forall>l \<in> set ids. 0 \<le> l \<and> l < T) \<and>
       (2 \<le> D \<longrightarrow> hd ids = 1 \<and> last ids = T - 3) \<and> (D + 3 \<le> T \<longrightarrow> distinct ids)"
proof (cases "0 < T \<and> 2 \<le> D \<and> 4 \<le> T")
  case True
  define n where "n = D - 1"
  define span where "span = T - 4"
  define pt where "pt = (\<lambda>i. (1 :: rat) + of_int (int i * span) / of_int n)"
  let ?ids = "map (\<lambda>i. py_round (pt i)) [0..<nat D]"
  have res: "build_target_layer_ids T D = Inr ?ids"
    using True by (simp add: build_target_layer_ids_def pt_def n_def span_def Let_def)
  have b: "0 \<le> span" "1 \<le> n" using True by (simp_all add: n_def span_def)
  have lp1: "pt i \<le> pt j" if "i < j" "int j \<le> n" for i j
    unfolding pt_def by (rule layer_points(1) [OF b that])
  have lp4: "pt i + 1 < pt j" if "i < j" "int j \<le> n" "n < span" for i j
    unfolding pt_def by (rule layer_points(4) [OF b that])
  have ends: "pt 0 = of_int 1" "pt (nat n) = of_int (1 + span)" using b by (simp_all add: pt_def)
  have mono: "py_round (pt i) \<le> py_round (pt j)" if "i \<le> j" "int j \<le> n" for i j
    using that lp1 [of i j] by (cases "i = j") (auto intro: py_round_mono)
  have "sorted ?ids" unfolding sorted_iff_nth_mono using mono True by (auto simp: n_def)
  moreover have "0 \<le> py_round (pt i) \<and> py_round (pt i) < T" if "i < nat D" for i
  proof -
    have "py_round (pt 0) \<le> py_round (pt i)" "py_round (pt i) \<le> py_round (pt (nat n))"
      using mono [of 0 i] mono [of i "nat n"] that b(2) by (auto simp: n_def)
    then show ?thesis unfolding ends py_round_int using True by (simp add: span_def)
  qed
  moreover have "hd ?ids = 1" "last ?ids = T - 3"
  proof -
    obtain k where k: "nat D = Suc k" "nat n = k" using True by (cases "nat D") (auto simp: n_def)
    have e: "[0..<nat D] \<noteq> []" "hd [0..<nat D] = 0" "last [0..<nat D] = nat n"
      unfolding k by (simp_all add: hd_upt del: upt_Suc)
    have "py_round (pt 0) = 1" unfolding ends(1) by (rule py_round_int)
    then show "hd ?ids = 1" using hd_map [OF e(1), of "\<lambda>i. py_round (pt i)"] e(2) by simp
    have "last ?ids = py_round (pt (nat n))" using last_map [OF e(1), of "\<lambda>i. py_round (pt i)"] e(3) by simp
    then show "last ?ids = T - 3" unfolding ends py_round_int by (simp add: span_def)
  qed
  moreover have "distinct ?ids" if "D + 3 \<le> T"
  proof (cases "n = span")
    case eq: True
    then have "pt i = of_int (1 + int i)" for i using b by (simp add: pt_def)
    then have "py_round (pt i) = 1 + int i" for i by (metis py_round_int)
    then show ?thesis by (simp add: distinct_map inj_on_def)
  next
    case False
    then have "n < span" using that by (simp add: n_def span_def)
    then have "py_round (pt i) < py_round (pt j)" if "i < j" "j < nat D" for i j
      using that True \<open>n < span\<close> by (intro py_round_strict lp4) (simp_all add: n_def)
    then have "inj_on (\<lambda>i. py_round (pt i)) (set [0..<nat D])"
      by (intro linorder_inj_onI) force+
    then show ?thesis by (simp add: distinct_map)
  qed
  ultimately show ?thesis unfolding res using True by (auto simp: list.set_map)
next
  case False
  then show ?thesis
  proof (cases "0 < T \<and> D = 1")
    case True
    then show ?thesis by (simp add: build_target_layer_ids_def pos_imp_zdiv_nonneg_iff int_div_less_self)
  qed (auto simp: build_target_layer_ids_def Let_def)
qed

section \<open>Properties\<close>

text \<open>
  C35. A draft configuration that \<open>parse_dflash_draft_config\<close> accepts is well formed: the counts it has
  are positive, its layer list, when present, is not empty, the mask token is not empty and its id is
  not negative; and the layers it resolves to are layers of the target, as many as the draft has unless
  the configuration names them.
\<close>

theorem parse_dflash_draft_config_valid:
  assumes "parse_dflash_draft_config config = Inr c"
  shows "(\<forall>n. num_hidden_layers c = Some n \<longrightarrow> 1 \<le> n) \<and> (\<forall>n. cfg_num_target_layers c = Some n \<longrightarrow> 1 \<le> n) \<and>
    (\<forall>n. block_size c = Some n \<longrightarrow> 1 \<le> n) \<and> target_layer_ids c \<noteq> Some [] \<and> mask_token c \<noteq> [] \<and>
    (\<forall>n. mask_token_id c = Some n \<longrightarrow> 0 \<le> n) \<and>
    (\<forall>ids. resolve_target_layer_ids c T None = Inr ids \<longrightarrow> ids \<noteq> [] \<and> (\<forall>l \<in> set ids. 0 \<le> l \<and> l < T) \<and>
       (target_layer_ids c = None \<longrightarrow> num_hidden_layers c = Some (int (length ids))))"
proof -
  from assms obtain tc hidden target block ids tok tok_id where
    p: "parse_optional_int (dflash_cfg_get tc ''num_hidden_layers'' PNone) (Some 1) = Inr hidden"
      "parse_optional_int (dict_get (get_dflash_config config) ''num_target_layers''
         (dflash_cfg_get config ''num_target_layers'' PNone)) (Some 1) = Inr target"
      "parse_optional_int (dict_get (get_dflash_config config) ''block_size''
         (dflash_cfg_get config ''block_size'' PNone)) (Some 1) = Inr block"
      "parse_layer_ids (dict_get (get_dflash_config config) ''target_layer_ids''
         (dflash_cfg_get config ''target_layer_ids'' PNone)) = Inr ids"
      "parse_mask_token (dict_get (get_dflash_config config) ''mask_token'' PNone) = Inr tok"
      "parse_mask_token_id (dict_get (get_dflash_config config) ''mask_token_id'' PNone) = Inr tok_id"
    and c: "c = \<lparr>num_hidden_layers = hidden, cfg_num_target_layers = target, block_size = block,
           target_layer_ids = ids, mask_token = tok, mask_token_id = tok_id\<rparr>"
    by (auto simp: parse_dflash_draft_config_def Let_def py_bind_eq_Inr)
  note counts = parse_optional_int_ok [OF p(1)] parse_optional_int_ok [OF p(2)] parse_optional_int_ok [OF p(3)]
  have "ids \<noteq> Some []" using p(4) by (auto simp: parse_layer_ids_def py_bind_eq_Inr split: pyval.splits if_splits)
  moreover have "tok \<noteq> []" using p(5)
    by (auto simp: parse_mask_token_def DEFAULT_DFLASH_MASK_TOKEN_def split: pyval.splits if_splits)
  moreover have "\<forall>n. tok_id = Some n \<longrightarrow> 0 \<le> n" using p(6)
    by (auto simp: parse_mask_token_id_def split: pyval.splits if_splits)
  moreover have "ls \<noteq> [] \<and> (\<forall>l \<in> set ls. 0 \<le> l \<and> l < T) \<and>
      (target_layer_ids c = None \<longrightarrow> num_hidden_layers c = Some (int (length ls)))"
    if r: "resolve_target_layer_ids c T None = Inr ls" for ls
  proof (cases ids)
    case None
    then obtain D where D: "hidden = Some D" "build_target_layer_ids T D = Inr ls"
      using r c by (auto simp: resolve_target_layer_ids_def py_bind_eq_Inr require_num_layers_def
          split: if_splits option.splits)
    then show ?thesis using build_target_layer_ids_valid_lemma [of T D] counts(1) c by (auto simp: D)
  next
    case (Some xs)
    then show ?thesis using r c by (auto simp: resolve_target_layer_ids_def split: if_splits)
  qed
  then have "\<forall>ls. resolve_target_layer_ids c T None = Inr ls \<longrightarrow> ls \<noteq> [] \<and> (\<forall>l \<in> set ls. 0 \<le> l \<and> l < T) \<and>
      (target_layer_ids c = None \<longrightarrow> num_hidden_layers c = Some (int (length ls)))" by blast
  ultimately show ?thesis using counts unfolding c by auto
qed

theorem parse_dflash_draft_config_valid_witness:
  "\<exists>c. parse_dflash_draft_config (PDict [(''num_hidden_layers'', PInt 5), (''block_size'', PStr '' 16 '')]) = Inr c \<and>
    block_size c = Some 16 \<and> mask_token c \<noteq> [] \<and>
    (\<forall>ids. resolve_target_layer_ids c 28 None = Inr ids \<longrightarrow> ids \<noteq> [])"
proof -
  obtain c where c: "parse_dflash_draft_config (PDict [(''num_hidden_layers'', PInt 5), (''block_size'', PStr '' 16 '')]) = Inr c"
    and b: "block_size c = Some 16"
    by (simp add: parse_dflash_draft_config_def get_dflash_config_def get_text_config_def dflash_cfg_get_def
        dict_get_def parse_optional_int_def py_int_def int_of_string_def strip_def is_space_def digit_of_def
        parse_layer_ids_def parse_mask_token_def parse_mask_token_id_def Let_def of_char_def)
  then show ?thesis using parse_dflash_draft_config_valid [OF c, of 28] by blast
qed

text \<open>
  \<open>scale_kv_cell_size_per_token_for_dflash\<close> without an explicit draft size gives the least whole number
  of bytes per token that covers the layers of target and draft at the target's cost per layer.
\<close>

lemma scale_kv_cell_size_covers:
  assumes "0 < cell" "0 < T" "0 < D"
  shows "\<exists>b. scale_kv_cell_size_per_token_for_dflash cell T D None = Inr b \<and>
    cell * (T + D) \<le> b * T \<and> (b - 1) * T < cell * (T + D) \<and> cell \<le> b"
proof -
  let ?x = "cell * (T + D)" and ?b = "(cell * (T + D) + T - 1) div T"
  have b: "?b * T \<le> ?x + T - 1" "?x + T - 1 < ?b * T + T"
    using assms(2) div_mult_mod_eq [of "?x + T - 1" T] pos_mod_sign [of T] pos_mod_bound [of T] by (smt (verit))+
  have "cell * T \<le> ?x" using assms by (simp add: distrib_left)
  then have "cell * T \<le> ?b * T" using b by linarith
  then have "cell \<le> ?b" using assms(2) by simp
  then show ?thesis using assms b by (simp add: scale_kv_cell_size_per_token_for_dflash_def Let_def algebra_simps)
qed

end
