(* ===== verification/Req_Output.thy ===== *)
theory Req_Output
  imports SD_Prelude "HOL-Library.Sublist"
begin

text \<open>
  How a request ends and how its output leaves the scheduler: the finish reasons and stop conditions of
  \<open>Req\<close> (\<open>srt/managers/schedule_batch.py\<close>), the per-request part of \<open>process_batch_result_decode\<close> and of
  \<open>stream_output_generation\<close> (\<open>srt/managers/scheduler_output_processor_mixin.py\<close>). The tokenizer and the
  grammar are parameters, and so is \<open>re.search\<close>.
\<close>

section \<open>Requests and what decides their end\<close>

datatype finish_reason =
    FINISH_MATCHED_TOKEN int
  | FINISH_MATCHED_STR string
  | FINISHED_MATCHED_REGEX string
  | FINISH_LENGTH int
  | FINISH_ABORT string "int option" "string option"

text \<open>
  A set of token ids is the list of its elements in the order in which iteration gives them; \<open>None\<close> and the
  empty set are both the empty list.
\<close>

record sampling_params =
  max_new_tokens :: int
  stop_strs :: "string list"
  stop_str_max_len :: int
  stop_regex_strs :: "string list"
  stop_regex_max_len :: int
  stop_token_ids :: "int list"
  ignore_eos :: bool
  sp_stream_interval :: "int option"

record tokenizer =
  tk_decode :: "int list \<Rightarrow> string"
  eos_token_id :: "int option"
  additional_stop_token_ids :: "int list"

text \<open>A grammar object: \<open>accept_token\<close> changes it and may raise; its flag \<open>finished\<close> can be set.\<close>

record 'g grammar_ops =
  accept_token :: "'g \<Rightarrow> int \<Rightarrow> py_error option \<times> 'g"
  is_terminated :: "'g \<Rightarrow> bool"
  set_grammar_finished :: "bool \<Rightarrow> 'g \<Rightarrow> 'g"

record 'g sreq =
  sq_origin_input_ids_unpadded :: "int list"
  sq_output_ids :: "int list"
  sq_sampling :: sampling_params
  sq_tokenizer :: "tokenizer option"
  sq_eos_token_ids :: "int list"
  sq_vocab_size :: int
  sq_grammar :: "'g option"
  sq_finished_reason :: "finish_reason option"
  sq_finished_len :: "int option"
  sq_to_finish :: "finish_reason option"
  sq_finished_output :: bool
  sq_is_retracted :: bool
  sq_decoded_text :: string
  sq_require_reasoning :: bool
  sq_is_reasoning_over :: bool
  sq_reasoning_tokens :: int
  sq_spec_acceptance_histogram :: "int list"
  sq_stream :: bool
  sq_surr_offset :: "int option"
  sq_read_offset :: "int option"
  sq_surr_and_decode_ids :: "int list"
  sq_cur_decode_ids_len :: int
  sq_send_token_offset :: int
  sq_send_decode_id_offset :: int

definition req_finished :: "'g sreq \<Rightarrow> bool" where
  "req_finished r \<longleftrightarrow> sq_finished_reason r \<noteq> None"

definition output_ids_through_stop :: "'g sreq \<Rightarrow> int list" where
  "output_ids_through_stop r =
     (case sq_finished_len r of Some l \<Rightarrow> py_upto (sq_output_ids r) l | None \<Rightarrow> sq_output_ids r)"

definition update_spec_acceptance_histogram :: "int \<Rightarrow> 'g sreq \<Rightarrow> 'g sreq py" where
  "update_spec_acceptance_histogram k r =
     (let h0 = sq_spec_acceptance_histogram r;
          h = (if int (length h0) \<le> k then h0 @ replicate (nat (k - int (length h0) + 1)) 0 else h0)
      in py_bind (py_index h k) (\<lambda>v. py_bind (py_set h k (v + 1)) (\<lambda>h'.
         Inr (r\<lparr>sq_spec_acceptance_histogram := h'\<rparr>))))"

text \<open>\<open>list.index\<close>; \<open>None\<close> is its \<open>ValueError\<close>.\<close>

fun list_index :: "int \<Rightarrow> int list \<Rightarrow> nat option" where
  "list_index x [] = None"
| "list_index x (y # ys) = (if x = y then Some 0 else map_option Suc (list_index x ys))"

definition update_reasoning_tokens :: "int list \<Rightarrow> int \<Rightarrow> 'g sreq \<Rightarrow> 'g sreq" where
  "update_reasoning_tokens toks think_end_id r =
     (if sq_is_reasoning_over r then r
      else case list_index think_end_id toks of
          Some end_pos \<Rightarrow> r\<lparr>sq_reasoning_tokens := sq_reasoning_tokens r + int end_pos + 1, sq_is_reasoning_over := True\<rparr>
        | None \<Rightarrow> r\<lparr>sq_reasoning_tokens := sq_reasoning_tokens r + int (length toks)\<rparr>)"

section \<open>The stop conditions\<close>

definition tail_str :: "'g sreq \<Rightarrow> string py" where
  "tail_str r =
     (let sp = sq_sampling r
      in if stop_strs sp = [] \<and> stop_regex_strs sp = [] then Inr []
         else (let max_len_tail_str = max (stop_str_max_len sp + 1) (stop_regex_max_len sp + 1);
                   tail_len = min max_len_tail_str (int (length (sq_output_ids r)))
               in case sq_tokenizer r of None \<Rightarrow> Inl AttributeError
                  | Some tk \<Rightarrow> Inr (tk_decode tk (py_from (sq_output_ids r) (- tail_len)))))"

text \<open>The loop over the stop strings; \<open>range(1, min_len + 1)\<close> tries the suffixes of the tail.\<close>

fun stop_prefix_loop :: "string \<Rightarrow> string list \<Rightarrow> bool" where
  "stop_prefix_loop tail [] = False"
| "stop_prefix_loop tail (s # ss) =
     (if s = [] then stop_prefix_loop tail ss
      else if sublist s tail then True
      else if list_ex (\<lambda>i. py_from tail (- int i) = py_upto s (int i)) [1..<Suc (min (length tail) (length s))]
        then True
      else stop_prefix_loop tail ss)"

definition check_match_stop_str_prefix :: "'g sreq \<Rightarrow> bool py" where
  "check_match_stop_str_prefix r =
     (if stop_strs (sq_sampling r) = [] then Inr False
      else py_bind (tail_str r) (\<lambda>tail.
           if tail = [] then Inr False else Inr (stop_prefix_loop tail (stop_strs (sq_sampling r)))))"

definition is_stop_token :: "'g sreq \<Rightarrow> int \<Rightarrow> bool" where
  "is_stop_token r t \<longleftrightarrow>
     t \<in> set (stop_token_ids (sq_sampling r)) \<or> t \<in> set (sq_eos_token_ids r) \<or>
     (case sq_tokenizer r of None \<Rightarrow> False
      | Some tk \<Rightarrow> eos_token_id tk = Some t \<or> t \<in> set (additional_stop_token_ids tk))"

fun token_finish_loop :: "int \<Rightarrow> int \<Rightarrow> int list \<Rightarrow> 'g sreq \<Rightarrow> bool \<times> 'g sreq" where
  "token_finish_loop n i [] r = (False, r)"
| "token_finish_loop n i (t # ts) r =
     (if is_stop_token r t
      then (True, r\<lparr>sq_finished_reason := Some (FINISH_MATCHED_TOKEN t),
                    sq_finished_len := Some (int (length (sq_output_ids r)) - n + i + 1)\<rparr>)
      else token_finish_loop n (i + 1) ts r)"

definition check_token_based_finish :: "int list \<Rightarrow> 'g sreq \<Rightarrow> bool \<times> 'g sreq" where
  "check_token_based_finish new r =
     (if ignore_eos (sq_sampling r) then (False, r) else token_finish_loop (int (length new)) 0 new r)"

text \<open>\<open>if ids: output_ids[offset] = next(iter(ids))\<close>.\<close>

definition set_first :: "int list \<Rightarrow> int list \<Rightarrow> int \<Rightarrow> int list py" where
  "set_first ids out offset = (case ids of [] \<Rightarrow> Inr out | x # _ \<Rightarrow> py_set out offset x)"

fun vocab_boundary_loop :: "int \<Rightarrow> int \<Rightarrow> int list \<Rightarrow> 'g sreq \<Rightarrow> (bool \<times> 'g sreq) py" where
  "vocab_boundary_loop n i [] r = Inr (False, r)"
| "vocab_boundary_loop n i (t # ts) r =
     (if t > sq_vocab_size r \<or> t < 0
      then (let offset = int (length (sq_output_ids r)) - n + i
            in py_bind (set_first (stop_token_ids (sq_sampling r)) (sq_output_ids r) offset) (\<lambda>out1.
               py_bind (set_first (sq_eos_token_ids r) out1 offset) (\<lambda>out2.
               Inr (True, r\<lparr>sq_output_ids := out2,
                            sq_finished_reason := Some (FINISH_MATCHED_STR ''NaN happened''),
                            sq_finished_len := Some (offset + 1)\<rparr>))))
      else vocab_boundary_loop n (i + 1) ts r)"

definition check_vocab_boundary_finish :: "int list \<Rightarrow> 'g sreq \<Rightarrow> (bool \<times> 'g sreq) py" where
  "check_vocab_boundary_finish new r = vocab_boundary_loop (int (length new)) 0 new r"

definition check_str_based_finish :: "(string \<Rightarrow> string \<Rightarrow> bool) \<Rightarrow> 'g sreq \<Rightarrow> (bool \<times> 'g sreq) py" where
  "check_str_based_finish re_search r =
     (let sp = sq_sampling r
      in if stop_strs sp = [] \<and> stop_regex_strs sp = [] then Inr (False, r)
         else py_bind (tail_str r) (\<lambda>tail.
           case find (\<lambda>s. sublist s tail \<or> sublist s (sq_decoded_text r)) (stop_strs sp) of
             Some s \<Rightarrow> Inr (True, r\<lparr>sq_finished_reason := Some (FINISH_MATCHED_STR s)\<rparr>)
           | None \<Rightarrow> (case find (\<lambda>p. re_search p tail) (stop_regex_strs sp) of
               Some p \<Rightarrow> Inr (True, r\<lparr>sq_finished_reason := Some (FINISHED_MATCHED_REGEX p)\<rparr>)
             | None \<Rightarrow> Inr (False, r))))"

definition check_finished ::
  "'g grammar_ops \<Rightarrow> (string \<Rightarrow> string \<Rightarrow> bool) \<Rightarrow> int \<Rightarrow> 'g sreq \<Rightarrow> 'g sreq py" where
  "check_finished G re_search new_accepted_len r =
     (let sp = sq_sampling r
      in if req_finished r then Inr r
         else if sq_to_finish r \<noteq> None
           then Inr (r\<lparr>sq_finished_reason := sq_to_finish r, sq_to_finish := None\<rparr>)
         else if int (length (sq_output_ids r)) \<ge> max_new_tokens sp
           then Inr (r\<lparr>sq_finished_reason := Some (FINISH_LENGTH (max_new_tokens sp)),
                       sq_finished_len := Some (max_new_tokens sp)\<rparr>)
         else if (case sq_grammar r of None \<Rightarrow> False | Some g \<Rightarrow> is_terminated G g)
           then py_bind (py_index (sq_output_ids r) (- 1)) (\<lambda>t.
                Inr (r\<lparr>sq_finished_reason := Some (FINISH_MATCHED_TOKEN t)\<rparr>))
         else (let new = py_from (sq_output_ids r) (- new_accepted_len)
               in case check_token_based_finish new r of (hit, r1) \<Rightarrow>
                  if hit then Inr r1
                  else py_bind (check_vocab_boundary_finish new r1) (\<lambda>(hit2, r2).
                       if hit2 then Inr r2
                       else py_bind (check_str_based_finish re_search r2) (\<lambda>(_, r3). Inr r3))))"

section \<open>A decode step and its output\<close>

text \<open>
  What a decode step gives a request: one token without speculation, the list of accepted tokens with the
  overlapping speculative workers.
\<close>

datatype next_token = OneToken int | Accepted "int list"

fun tokens_of :: "next_token \<Rightarrow> int list" where
  "tokens_of (OneToken t) = [t]"
| "tokens_of (Accepted ts) = ts"

fun accept_all :: "'g grammar_ops \<Rightarrow> int list \<Rightarrow> 'g \<Rightarrow> py_error option \<times> 'g" where
  "accept_all G [] g = (None, g)"
| "accept_all G (t # ts) g =
     (case accept_token G g t of (None, g') \<Rightarrow> accept_all G ts g' | (Some e, g') \<Rightarrow> (Some e, g'))"

text \<open>What \<open>abort_request\<close> does to a request of the running batch.\<close>

definition abort_running :: "'g sreq \<Rightarrow> 'g sreq" where
  "abort_running r = (if req_finished r then r else r\<lparr>sq_to_finish := Some (FINISH_ABORT ''Aborted'' None None)\<rparr>)"

definition feed_grammar :: "'g grammar_ops \<Rightarrow> int list \<Rightarrow> 'g sreq \<Rightarrow> 'g sreq py" where
  "feed_grammar G toks r =
     (case sq_grammar r of None \<Rightarrow> Inr r
      | Some g \<Rightarrow>
        (case accept_all G toks g of (err, g') \<Rightarrow>
         (let r1 = r\<lparr>sq_grammar := Some g'\<rparr>
          in case err of
               None \<Rightarrow> Inr (r1\<lparr>sq_grammar := Some (set_grammar_finished G (req_finished r1) g')\<rparr>)
             | Some e \<Rightarrow>
               if e = ValueError
               then Inr ((abort_running r1)\<lparr>sq_grammar := Some (set_grammar_finished G (req_finished r1) g')\<rparr>)
               else Inl e)))"

definition process_decode_req ::
  "'g grammar_ops \<Rightarrow> (string \<Rightarrow> string \<Rightarrow> bool) \<Rightarrow> int option \<Rightarrow> bool \<Rightarrow> next_token \<Rightarrow> 'g sreq \<Rightarrow> 'g sreq py" where
  "process_decode_req G re_search think_end_id overlap nxt r =
     (if overlap \<and> (req_finished r \<or> sq_is_retracted r) then Inr r
      else
      (let new_accepted_len = int (length (tokens_of nxt));
           r1 = r\<lparr>sq_output_ids := sq_output_ids r @ tokens_of nxt\<rparr>;
           r2 = (case think_end_id of Some e \<Rightarrow>
                   if sq_require_reasoning r1 then update_reasoning_tokens (tokens_of nxt) e r1 else r1
                 | None \<Rightarrow> r1)
       in py_bind (check_finished G re_search new_accepted_len r2) (feed_grammar G (tokens_of nxt))))"

definition INIT_INCREMENTAL_DETOKENIZATION_OFFSET :: int where
  "INIT_INCREMENTAL_DETOKENIZATION_OFFSET = 5"

definition init_incremental_detokenize :: "'g sreq \<Rightarrow> int list \<times> int \<times> 'g sreq" where
  "init_incremental_detokenize r =
     (let output_ids = output_ids_through_stop r
      in case (sq_surr_offset r, sq_read_offset r) of
           (Some s, Some ro) \<Rightarrow>
             (let ids = sq_surr_and_decode_ids r @ py_from output_ids (sq_cur_decode_ids_len r)
              in (ids, ro - s, r\<lparr>sq_surr_and_decode_ids := ids, sq_cur_decode_ids_len := int (length output_ids)\<rparr>))
         | _ \<Rightarrow>
             (let ro = int (length (sq_origin_input_ids_unpadded r));
                  s = max (ro - INIT_INCREMENTAL_DETOKENIZATION_OFFSET) 0;
                  ids = py_from (sq_origin_input_ids_unpadded r) s @ output_ids
              in (ids, ro - s, r\<lparr>sq_read_offset := Some ro, sq_surr_offset := Some s, sq_surr_and_decode_ids := ids,
                                sq_cur_decode_ids_len := int (length output_ids)\<rparr>)))"

text \<open>What is sent to the detokenizer for a request: new token ids with the surrounding ones, new output.\<close>

record out_chunk =
  ch_reason :: "finish_reason option"
  ch_decode_ids :: "int list"
  ch_read_offset :: int
  ch_output_ids :: "int list"

definition interval_due :: "int \<Rightarrow> int \<Rightarrow> bool py" where
  "interval_due n interval =
     (if interval > 1 then Inr (n mod interval = 1)
      else if interval = 0 then Inl ZeroDivisionError
      else Inr (n mod interval = 0))"

text \<open>
  The body of the loop over the requests: whether output is due (\<open>server_interval\<close> and \<open>force_interval\<close> are the
  server's settings), and what is sent then.
\<close>

definition output_due :: "int \<Rightarrow> int \<Rightarrow> 'g sreq \<Rightarrow> (bool \<times> 'g sreq) py" where
  "output_due server_interval force_interval r =
     (let n = int (length (sq_output_ids r))
      in if req_finished r
         then (if sq_finished_output r then Inr (False, r)
               else Inr (True, r\<lparr>sq_finished_output := True,
                 sq_finished_len := (case sq_finished_len r of None \<Rightarrow> Some n | Some l \<Rightarrow> Some l)\<rparr>))
         else if sq_stream r
         then py_bind (interval_due n (case sp_stream_interval (sq_sampling r) of None \<Rightarrow> server_interval
                         | Some i \<Rightarrow> if i = 0 then server_interval else i)) (\<lambda>due.
              if due then py_bind (check_match_stop_str_prefix r) (\<lambda>m. Inr (\<not> m, r)) else Inr (False, r))
         else if force_interval = 0 then Inl ZeroDivisionError
         else Inr (n mod force_interval = 0, r))"

definition stream_output_req :: "int \<Rightarrow> int \<Rightarrow> 'g sreq \<Rightarrow> (out_chunk option \<times> 'g sreq) py" where
  "stream_output_req server_interval force_interval r =
     py_bind (output_due server_interval force_interval r) (\<lambda>(should_output, r1).
     if \<not> should_output then Inr (None, r1)
     else (let send_token_offset = sq_send_token_offset r1
           in case init_incremental_detokenize r1 of (decode_ids, read_offset, r2) \<Rightarrow>
              (let out_ids = output_ids_through_stop r2
               in Inr (Some \<lparr>ch_reason = sq_finished_reason r2,
                             ch_decode_ids = py_from decode_ids (sq_send_decode_id_offset r2),
                             ch_read_offset = read_offset,
                             ch_output_ids = py_from out_ids send_token_offset\<rparr>,
                       r2\<lparr>sq_send_decode_id_offset := int (length decode_ids),
                          sq_send_token_offset := int (length out_ids)\<rparr>))))"

section \<open>Decoding one token at a time\<close>

text \<open>
  The reference for a list of accepted tokens: each is a decode step of its own, and a finished request
  leaves the batch.
\<close>

fun process_each ::
  "'g grammar_ops \<Rightarrow> (string \<Rightarrow> string \<Rightarrow> bool) \<Rightarrow> int option \<Rightarrow> bool \<Rightarrow> int list \<Rightarrow> 'g sreq \<Rightarrow> 'g sreq py" where
  "process_each G re_search th ov [] r = Inr r"
| "process_each G re_search th ov (t # ts) r =
     py_bind (process_decode_req G re_search th ov (OneToken t) r) (\<lambda>r'.
     if req_finished r' then Inr r' else process_each G re_search th ov ts r')"

text \<open>A request in decoding whose end depends on token ids and the length only.\<close>

definition plain_req :: "'g sreq \<Rightarrow> bool" where
  "plain_req r \<longleftrightarrow> sq_finished_reason r = None \<and> sq_finished_len r = None \<and> sq_to_finish r = None \<and>
     \<not> sq_is_retracted r \<and> sq_grammar r = None \<and>
     stop_strs (sq_sampling r) = [] \<and> stop_regex_strs (sq_sampling r) = []"

definition ends_at :: "'g sreq \<Rightarrow> int \<Rightarrow> bool" where
  "ends_at r t \<longleftrightarrow> \<not> ignore_eos (sq_sampling r) \<and> is_stop_token r t"

text \<open>Where a request with an output of length \<open>n\<close> ends when it is given the tokens one by one, and why.\<close>

fun first_end :: "'g sreq \<Rightarrow> nat \<Rightarrow> int list \<Rightarrow> (nat \<times> finish_reason) option" where
  "first_end r n [] = None"
| "first_end r n (t # ts) =
     (if max_new_tokens (sq_sampling r) \<le> int (Suc n) then Some (Suc n, FINISH_LENGTH (max_new_tokens (sq_sampling r)))
      else if ends_at r t then Some (Suc n, FINISH_MATCHED_TOKEN t)
      else first_end r (Suc n) ts)"

definition reason_with :: "int option \<Rightarrow> int list \<Rightarrow> 'g sreq \<Rightarrow> 'g sreq" where
  "reason_with th ts r = (case th of Some e \<Rightarrow> if sq_require_reasoning r then update_reasoning_tokens ts e r else r
     | None \<Rightarrow> r)"

lemma py_from_suffix [simp]: "ts \<noteq> [] \<Longrightarrow> py_from (xs @ ts) (- int (length ts)) = ts"
  by (simp add: py_from_def py_bound_def)

lemma list_index_append:
  "list_index x (xs @ ys) = (case list_index x xs of Some i \<Rightarrow> Some i | None \<Rightarrow> map_option (\<lambda>i. length xs + i) (list_index x ys))"
proof (induction xs)
  case Nil
  show ?case by (cases "list_index x ys") simp_all
next
  case (Cons a xs)
  then show ?case by (cases "list_index x xs"; cases "list_index x ys") simp_all
qed

lemma list_index_less: "list_index x xs = Some i \<Longrightarrow> i < length xs"
  by (induction xs arbitrary: i) (auto split: if_splits)

text \<open>The reasoning tokens do not depend on how the output is cut into steps.\<close>

lemma update_reasoning_append:
  "update_reasoning_tokens ys e (update_reasoning_tokens xs e r) = update_reasoning_tokens (xs @ ys) e r"
  by (auto simp: update_reasoning_tokens_def list_index_append split: option.splits)

lemma require_reasoning_update: "sq_require_reasoning (update_reasoning_tokens xs e r) = sq_require_reasoning r"
  by (simp add: update_reasoning_tokens_def split: option.splits)

lemma reason_with_append: "reason_with th ys (reason_with th xs r) = reason_with th (xs @ ys) r"
  by (simp add: reason_with_def update_reasoning_append require_reasoning_update split: option.splits)

lemma reason_with_simps [simp]:
  "sq_output_ids (reason_with th ts r) = sq_output_ids r"
  "sq_sampling (reason_with th ts r) = sq_sampling r"
  "sq_tokenizer (reason_with th ts r) = sq_tokenizer r"
  "sq_eos_token_ids (reason_with th ts r) = sq_eos_token_ids r"
  "sq_vocab_size (reason_with th ts r) = sq_vocab_size r"
  "sq_finished_reason (reason_with th ts r) = sq_finished_reason r"
  "sq_finished_len (reason_with th ts r) = sq_finished_len r"
  "sq_to_finish (reason_with th ts r) = sq_to_finish r"
  "sq_is_retracted (reason_with th ts r) = sq_is_retracted r"
  "sq_grammar (reason_with th ts r) = sq_grammar r"
  by (auto simp: reason_with_def update_reasoning_tokens_def split: option.splits)

lemma reason_with_update:
  "reason_with th ts (r\<lparr>sq_output_ids := out\<rparr>) = (reason_with th ts r)\<lparr>sq_output_ids := out\<rparr>"
  by (auto simp: reason_with_def update_reasoning_tokens_def split: option.splits)

lemma is_stop_token_cong:
  "stop_token_ids (sq_sampling r') = stop_token_ids (sq_sampling r) \<Longrightarrow> sq_eos_token_ids r' = sq_eos_token_ids r \<Longrightarrow>
   sq_tokenizer r' = sq_tokenizer r \<Longrightarrow> is_stop_token r' t = is_stop_token r t"
  by (simp add: is_stop_token_def)

lemma stop_invariant [simp]:
  "is_stop_token (reason_with th ts (r\<lparr>sq_output_ids := out\<rparr>)) = is_stop_token r"
  "ends_at (reason_with th ts (r\<lparr>sq_output_ids := out\<rparr>)) = ends_at r"
  by (auto simp: fun_eq_iff ends_at_def is_stop_token_def)

lemma first_end_cong:
  "sq_sampling r' = sq_sampling r \<Longrightarrow> ends_at r' = ends_at r \<Longrightarrow> first_end r' n ts = first_end r n ts"
  by (induction ts arbitrary: n) simp_all

lemma token_finish_loop_eq:
  assumes "p = length (takeWhile (\<lambda>t. \<not> is_stop_token r t) ts)"
  shows "token_finish_loop n i ts r =
    (if p < length ts then (True, r\<lparr>sq_finished_reason := Some (FINISH_MATCHED_TOKEN (ts ! p)),
        sq_finished_len := Some (int (length (sq_output_ids r)) - n + i + int p + 1)\<rparr>) else (False, r))"
  using assms by (induction ts arbitrary: i p) (auto simp: algebra_simps)

lemma vocab_boundary_ok: "\<forall>t \<in> set ts. 0 \<le> t \<and> t \<le> sq_vocab_size r \<Longrightarrow> vocab_boundary_loop n i ts r = Inr (False, r)"
  by (induction ts arbitrary: i) auto

text \<open>What a decode step does to a plain request, in closed form.\<close>

lemma check_finished_plain:
  assumes "plain_req r" "sq_output_ids r = xs @ ts" "ts \<noteq> []" "\<forall>t \<in> set ts. 0 \<le> t \<and> t \<le> sq_vocab_size r"
    "p = length (takeWhile (\<lambda>t. \<not> ends_at r t) ts)"
  shows "check_finished G re_search (int (length ts)) r = Inr
    (if max_new_tokens (sq_sampling r) \<le> int (length (xs @ ts))
     then r\<lparr>sq_finished_reason := Some (FINISH_LENGTH (max_new_tokens (sq_sampling r))),
            sq_finished_len := Some (max_new_tokens (sq_sampling r))\<rparr>
     else if p < length ts
     then r\<lparr>sq_finished_reason := Some (FINISH_MATCHED_TOKEN (ts ! p)), sq_finished_len := Some (int (length xs + Suc p))\<rparr>
     else r)"
proof (cases "ignore_eos (sq_sampling r)")
  case True
  then have p: "p = length ts" using assms(5) by (simp add: ends_at_def takeWhile_eq_all_conv [THEN iffD2])
  show ?thesis
    using assms(1-4) True unfolding p
    by (simp add: check_finished_def req_finished_def plain_req_def check_token_based_finish_def
        check_vocab_boundary_finish_def vocab_boundary_ok check_str_based_finish_def Let_def)
next
  case False
  then have p: "p = length (takeWhile (\<lambda>t. \<not> is_stop_token r t) ts)" using assms(5) by (simp add: ends_at_def)
  show ?thesis
    using assms(1-4) False
    by (auto simp: check_finished_def req_finished_def plain_req_def check_token_based_finish_def
        check_vocab_boundary_finish_def vocab_boundary_ok check_str_based_finish_def Let_def
        token_finish_loop_eq [OF p])
qed

lemma plain_req_step: "plain_req r \<Longrightarrow> plain_req (reason_with th ts (r\<lparr>sq_output_ids := out\<rparr>))"
  by (simp add: plain_req_def)

lemma process_plain:
  assumes "plain_req r" "tokens_of nxt = ts" "ts \<noteq> []" "\<forall>t \<in> set ts. 0 \<le> t \<and> t \<le> sq_vocab_size r"
    "p = length (takeWhile (\<lambda>t. \<not> ends_at r t) ts)" "r1 = reason_with th ts (r\<lparr>sq_output_ids := sq_output_ids r @ ts\<rparr>)"
  shows "process_decode_req G re_search th ov nxt r = Inr
    (if max_new_tokens (sq_sampling r) \<le> int (length (sq_output_ids r @ ts))
     then r1\<lparr>sq_finished_reason := Some (FINISH_LENGTH (max_new_tokens (sq_sampling r))),
            sq_finished_len := Some (max_new_tokens (sq_sampling r))\<rparr>
     else if p < length ts
     then r1\<lparr>sq_finished_reason := Some (FINISH_MATCHED_TOKEN (ts ! p)),
             sq_finished_len := Some (int (length (sq_output_ids r) + Suc p))\<rparr>
     else r1)"
proof -
  have c: "check_finished G re_search (int (length ts)) r1 = Inr
    (if max_new_tokens (sq_sampling r1) \<le> int (length (sq_output_ids r @ ts))
     then r1\<lparr>sq_finished_reason := Some (FINISH_LENGTH (max_new_tokens (sq_sampling r1))),
            sq_finished_len := Some (max_new_tokens (sq_sampling r1))\<rparr>
     else if p < length ts
     then r1\<lparr>sq_finished_reason := Some (FINISH_MATCHED_TOKEN (ts ! p)),
             sq_finished_len := Some (int (length (sq_output_ids r) + Suc p))\<rparr>
     else r1)"
    using assms by (intro check_finished_plain) (simp_all add: plain_req_step)
  have "sq_grammar r1 = None" using assms(1,6) by (simp add: plain_req_def)
  moreover have "\<not> (req_finished r \<or> sq_is_retracted r)" using assms(1) by (simp add: plain_req_def req_finished_def)
  moreover have "sq_sampling r1 = sq_sampling r" using assms(6) by simp
  ultimately show ?thesis
    using c assms(2) unfolding process_decode_req_def reason_with_def [symmetric] assms(6) [symmetric]
    by (simp add: Let_def assms(6) [symmetric] reason_with_def [symmetric] feed_grammar_def)
qed

lemma process_each_plain:
  assumes "plain_req r" "\<forall>t \<in> set ts. 0 \<le> t \<and> t \<le> sq_vocab_size r"
    "int (length (sq_output_ids r)) < max_new_tokens (sq_sampling r)"
  shows "\<exists>r'. process_each G re_search th ov ts r = Inr r' \<and>
    (case first_end r (length (sq_output_ids r)) ts of
       None \<Rightarrow> (if ts = [] then r' = r else r' = reason_with th ts (r\<lparr>sq_output_ids := sq_output_ids r @ ts\<rparr>)) \<and> \<not> req_finished r'
     | Some (k, why) \<Rightarrow> sq_finished_reason r' = Some why \<and> sq_finished_len r' = Some (int k) \<and>
         sq_output_ids r' = take k (sq_output_ids r @ ts))"
  using assms
proof (induction ts arbitrary: r)
  case Nil
  then show ?case by (simp add: plain_req_def req_finished_def)
next
  case (Cons t ts)
  let ?r1 = "reason_with th [t] (r\<lparr>sq_output_ids := sq_output_ids r @ [t]\<rparr>)"
  have pl: "plain_req ?r1" using Cons.prems(1) by (rule plain_req_step)
  note one = process_plain [OF Cons.prems(1), of "OneToken t" "[t]" _ ?r1 th G re_search ov]
  show ?case
  proof (cases "max_new_tokens (sq_sampling r) \<le> int (Suc (length (sq_output_ids r))) \<or> ends_at r t")
    case True
    then show ?thesis using Cons.prems one by (auto simp: req_finished_def)
  next
    case False
    then have s: "process_decode_req G re_search th ov (OneToken t) r = Inr ?r1" using one Cons.prems(2) by simp
    have nf: "\<not> req_finished ?r1" using pl by (simp add: plain_req_def req_finished_def)
    obtain r' where r': "process_each G re_search th ov ts ?r1 = Inr r'"
      "case first_end ?r1 (length (sq_output_ids ?r1)) ts of
       None \<Rightarrow> (if ts = [] then r' = ?r1 else r' = reason_with th ts (?r1\<lparr>sq_output_ids := sq_output_ids ?r1 @ ts\<rparr>)) \<and> \<not> req_finished r'
     | Some (k, why) \<Rightarrow> sq_finished_reason r' = Some why \<and> sq_finished_len r' = Some (int k) \<and>
         sq_output_ids r' = take k (sq_output_ids ?r1 @ ts)"
      using Cons.IH [OF pl] Cons.prems(2) False by auto
    have fe: "first_end ?r1 (Suc (length (sq_output_ids r))) ts = first_end r (Suc (length (sq_output_ids r))) ts"
      by (rule first_end_cong) simp_all
    have all: "reason_with th ts (?r1\<lparr>sq_output_ids := sq_output_ids r @ t # ts\<rparr>) =
        reason_with th (t # ts) (r\<lparr>sq_output_ids := sq_output_ids r @ t # ts\<rparr>)"
      using reason_with_append [of th ts "[t]" r] by (simp add: reason_with_update)
    show ?thesis
      using r' s nf False fe all by (intro exI [of _ r']) (auto split: option.splits if_splits)
  qed
qed

lemma first_end_by_token:
  assumes "p = length (takeWhile (\<lambda>t. \<not> ends_at r t) ts)" "int (n + length ts) < max_new_tokens (sq_sampling r)"
  shows "first_end r n ts = (if p < length ts then Some (n + Suc p, FINISH_MATCHED_TOKEN (ts ! p)) else None)"
  using assms by (induction ts arbitrary: n p) auto

lemma first_end_by_length:
  assumes "int n < max_new_tokens (sq_sampling r)" "max_new_tokens (sq_sampling r) \<le> int (n + length ts)"
    "\<forall>t \<in> set (take (nat (max_new_tokens (sq_sampling r)) - Suc n) ts). \<not> ends_at r t"
  shows "first_end r n ts = Some (nat (max_new_tokens (sq_sampling r)), FINISH_LENGTH (max_new_tokens (sq_sampling r)))"
  using assms
proof (induction ts arbitrary: n)
  case (Cons t ts)
  show ?case
  proof (cases "max_new_tokens (sq_sampling r) \<le> int (Suc n)")
    case True
    then have "max_new_tokens (sq_sampling r) = int (Suc n)" using Cons.prems(1) by simp
    then show ?thesis by simp
  next
    case False
    then have "nat (max_new_tokens (sq_sampling r)) - Suc n = Suc (nat (max_new_tokens (sq_sampling r)) - Suc (Suc n))"
      by simp
    then have "\<not> ends_at r t" "\<forall>t \<in> set (take (nat (max_new_tokens (sq_sampling r)) - Suc (Suc n)) ts). \<not> ends_at r t"
      using Cons.prems(3) by simp_all
    then show ?thesis using False Cons.prems(2) Cons.IH [of "Suc n"] by simp
  qed
qed simp

lemma first_end_early:
  assumes "ends_at r (ts ! i)" "i < length ts"
  shows "\<exists>k why. first_end r n ts = Some (k, why) \<and> n < k \<and> k \<le> n + Suc i"
  using assms
proof (induction ts arbitrary: n i)
  case (Cons t ts)
  then show ?case by (cases i) (fastforce simp: less_Suc_eq_le)+
qed simp

lemma str_finish_shape:
  "check_str_based_finish re_search r = Inr (hit, r') \<Longrightarrow> \<exists>fr. r' = r\<lparr>sq_finished_reason := fr\<rparr> \<and> (fr = sq_finished_reason r \<or> fr \<noteq> None)"
  by (auto simp: check_str_based_finish_def Let_def py_bind_eq_Inr split: if_splits option.splits
      intro: exI [of _ "sq_finished_reason r"])

lemma token_finish_loop_grammar: "sq_grammar (snd (token_finish_loop n i ts r)) = sq_grammar r"
  by (induction ts arbitrary: i) auto

lemma vocab_boundary_loop_grammar: "vocab_boundary_loop n i ts r = Inr (hit, r') \<Longrightarrow> sq_grammar r' = sq_grammar r"
  by (induction ts arbitrary: i) (auto simp: Let_def py_bind_eq_Inr split: if_splits)

lemma check_finished_grammar:
  assumes "check_finished G re_search n r = Inr r'"
  shows "sq_grammar r' = sq_grammar r"
proof -
  let ?new = "py_from (sq_output_ids r) (- n)"
  have t: "sq_grammar (snd (check_token_based_finish new r)) = sq_grammar r" for new
    by (simp add: check_token_based_finish_def token_finish_loop_grammar)
  have v: "check_vocab_boundary_finish new x = Inr (hit, r') \<Longrightarrow> sq_grammar r' = sq_grammar x" for new x hit r'
    by (simp add: check_vocab_boundary_finish_def vocab_boundary_loop_grammar)
  have s: "check_str_based_finish re_search x = Inr (hit, r') \<Longrightarrow> sq_grammar r' = sq_grammar x" for x hit r'
    by (auto dest: str_finish_shape)
  obtain hit r1 where r1: "check_token_based_finish ?new r = (hit, r1)" by force
  have "sq_grammar r1 = sq_grammar r" using t [of ?new] r1 by simp
  then show ?thesis
    using assms r1 by (auto simp: check_finished_def Let_def py_bind_eq_Inr split: if_splits dest!: v s)
qed

lemma set_first_length: "set_first ids out k = Inr out' \<Longrightarrow> length out' = length out"
  by (auto simp: set_first_def py_set_def split: list.splits if_splits)

lemma check_finished_length:
  assumes "check_finished G re_search n r = Inr r'"
  shows "length (sq_output_ids r') = length (sq_output_ids r)"
proof -
  let ?new = "py_from (sq_output_ids r) (- n)"
  have t0: "sq_output_ids (snd (token_finish_loop k i ts x)) = sq_output_ids x" for k i ts x by (induction ts arbitrary: i) auto
  have v0: "vocab_boundary_loop k i ts x = Inr (hit, r') \<Longrightarrow> length (sq_output_ids r') = length (sq_output_ids x)" for k i ts x hit r'
    by (induction ts arbitrary: i) (auto simp: Let_def py_bind_eq_Inr dest!: set_first_length split: if_splits)
  have v: "check_vocab_boundary_finish new x = Inr (hit, r') \<Longrightarrow> length (sq_output_ids r') = length (sq_output_ids x)" for new x hit r'
    by (simp add: check_vocab_boundary_finish_def v0)
  have s: "check_str_based_finish re_search x = Inr (hit, r') \<Longrightarrow> sq_output_ids r' = sq_output_ids x" for x hit r'
    by (auto dest: str_finish_shape)
  obtain hit r1 where r1: "check_token_based_finish ?new r = (hit, r1)" by force
  have "sq_output_ids r1 = sq_output_ids r" using t0 [of _ _ _ r] r1 by (auto simp: check_token_based_finish_def split: if_splits dest!: arg_cong [where f = snd])
  then show ?thesis using assms r1 by (auto simp: check_finished_def Let_def py_bind_eq_Inr split: if_splits dest!: v s)
qed

text \<open>Without a grammar a decode step of one token is an append and a check.\<close>

lemma process_one_plain:
  assumes "sq_grammar r = None"
  shows "process_decode_req G re_search th False (OneToken t) r =
    check_finished G re_search 1 (reason_with th [t] (r\<lparr>sq_output_ids := sq_output_ids r @ [t]\<rparr>))"
proof -
  let ?r = "reason_with th [t] (r\<lparr>sq_output_ids := sq_output_ids r @ [t]\<rparr>)"
  have "sq_grammar r' = None" if "check_finished G re_search 1 ?r = Inr r'" for r'
    using check_finished_grammar [OF that] assms by simp
  then show ?thesis
    by (cases "check_finished G re_search 1 ?r") (simp_all add: process_decode_req_def feed_grammar_def reason_with_def [symmetric] Let_def)
qed

section \<open>Properties\<close>

text \<open>
  C23. A speculative step that hands a request all its accepted tokens at once ends it where decoding them
  one by one would: the same reason, the same finished length and the same output through the stop, and an
  unfinished request is the same in every field. It is for running requests without stop strings, stop
  regular expressions, grammar and pending abort that are below their length limit, tokens that the vocabulary check
  lets pass, and the case that no stop token stands before the length limit when the step reaches that limit.
\<close>

theorem accepted_at_once_eq_one_by_one:
  assumes "plain_req r" "ts \<noteq> []" "\<forall>t \<in> set ts. 0 \<le> t \<and> t \<le> sq_vocab_size r"
    and below: "int (length (sq_output_ids r)) < max_new_tokens (sq_sampling r)"
    and order: "max_new_tokens (sq_sampling r) \<le> int (length (sq_output_ids r) + length ts) \<Longrightarrow>
      \<forall>t \<in> set (take (nat (max_new_tokens (sq_sampling r)) - Suc (length (sq_output_ids r))) ts). \<not> ends_at r t"
  shows "\<exists>b e. process_decode_req G re_search th ov (Accepted ts) r = Inr b \<and>
    process_each G re_search th ov ts r = Inr e \<and> sq_finished_reason b = sq_finished_reason e \<and>
    sq_finished_len b = sq_finished_len e \<and> output_ids_through_stop b = output_ids_through_stop e \<and>
    (\<not> req_finished b \<longrightarrow> b = e)"
proof -
  let ?n = "length (sq_output_ids r)" and ?m = "max_new_tokens (sq_sampling r)"
  let ?p = "length (takeWhile (\<lambda>t. \<not> ends_at r t) ts)"
  obtain e where e: "process_each G re_search th ov ts r = Inr e"
    "case first_end r ?n ts of
       None \<Rightarrow> (if ts = [] then e = r else e = reason_with th ts (r\<lparr>sq_output_ids := sq_output_ids r @ ts\<rparr>)) \<and> \<not> req_finished e
     | Some (k, why) \<Rightarrow> sq_finished_reason e = Some why \<and> sq_finished_len e = Some (int k) \<and>
         sq_output_ids e = take k (sq_output_ids r @ ts)"
    using process_each_plain [OF assms(1,3) below] by blast
  note b = process_plain [OF assms(1) tokens_of.simps(2) assms(2,3) refl refl, where th = th and G = G and re_search = re_search and ov = ov]
  have nf: "sq_finished_reason r = None" "sq_finished_len r = None" using assms(1) by (simp_all add: plain_req_def)
  show ?thesis
  proof (cases "?m \<le> int (?n + length ts)")
    case True
    then show ?thesis
      using e b first_end_by_length [OF below True order [OF True]] below
      by (auto simp: output_ids_through_stop_def slice_simps req_finished_def)
  next
    case False
    then show ?thesis
      using e b first_end_by_token [OF refl, of ?n ts r] assms(2) nf
      by (auto simp: output_ids_through_stop_def slice_simps req_finished_def nat_add_distrib split: if_splits)
  qed
qed

text \<open>
  C36. When a step reaches the length limit and a stop token stands before it, the length check of
  \<open>check_finished\<close> comes first: handed the tokens at once, the request finishes with \<open>FINISH_LENGTH\<close> and its output
  runs past the stop token up to the limit; one by one it ends at or before the stop token.
\<close>

theorem accepted_at_once_runs_past_stop:
  assumes "plain_req r" "\<forall>t \<in> set ts. 0 \<le> t \<and> t \<le> sq_vocab_size r"
    and below: "int (length (sq_output_ids r)) < max_new_tokens (sq_sampling r)"
    and reach: "max_new_tokens (sq_sampling r) \<le> int (length (sq_output_ids r) + length ts)"
    and stop: "ends_at r (ts ! i)" "int (length (sq_output_ids r) + Suc i) < max_new_tokens (sq_sampling r)"
  shows "\<exists>b e. process_decode_req G re_search th ov (Accepted ts) r = Inr b \<and>
    process_each G re_search th ov ts r = Inr e \<and>
    sq_finished_reason b = Some (FINISH_LENGTH (max_new_tokens (sq_sampling r))) \<and>
    int (length (output_ids_through_stop b)) = max_new_tokens (sq_sampling r) \<and>
    output_ids_through_stop b ! (length (sq_output_ids r) + i) = ts ! i \<and>
    length (output_ids_through_stop e) \<le> length (sq_output_ids r) + Suc i \<and>
    prefix (output_ids_through_stop e) (output_ids_through_stop b)"
proof -
  let ?n = "length (sq_output_ids r)" and ?m = "max_new_tokens (sq_sampling r)"
  have i: "i < length ts" using reach stop(2) by linarith
  then have ne: "ts \<noteq> []" by auto
  obtain k why where k: "first_end r ?n ts = Some (k, why)" "?n < k" "k \<le> ?n + Suc i"
    using first_end_early [OF stop(1) i] by blast
  obtain e where e: "process_each G re_search th ov ts r = Inr e"
    "sq_finished_len e = Some (int k)" "sq_output_ids e = take k (sq_output_ids r @ ts)"
    using process_each_plain [OF assms(1,2) below, of G re_search th ov] k(1) by auto
  note b = process_plain [OF assms(1) tokens_of.simps(2) ne assms(2) refl refl, where th = th and G = G and re_search = re_search and ov = ov]
  have "output_ids_through_stop e = take k (sq_output_ids r @ ts)"
    using e k(2) by (simp add: output_ids_through_stop_def slice_simps)
  moreover have "k \<le> nat ?m" using k(3) stop(2) by linarith
  then have "prefix (take k (sq_output_ids r @ ts)) (take (nat ?m) (sq_output_ids r @ ts))"
    by (metis min.absorb1 take_is_prefix take_take)
  moreover have "?n + i < nat ?m" "0 \<le> ?m" using stop(2) by linarith+
  ultimately show ?thesis
    using b e(1) k(3) reach i
    by (auto simp: output_ids_through_stop_def slice_simps nth_append min_def)
qed

section \<open>Output streaming\<close>

text \<open>What a stop check leaves of a request that had the output \<open>xs\<close> before the new tokens.\<close>

definition stop_fields_only :: "'g sreq \<Rightarrow> 'g sreq \<Rightarrow> bool" where
  "stop_fields_only r r' \<longleftrightarrow> r' = r\<lparr>sq_output_ids := sq_output_ids r', sq_finished_reason := sq_finished_reason r',
     sq_finished_len := sq_finished_len r', sq_to_finish := sq_to_finish r'\<rparr>"

lemma stop_fields_onlyI:
  "stop_fields_only r r"
  "stop_fields_only r (r\<lparr>sq_finished_reason := fr\<rparr>)"
  "stop_fields_only r (r\<lparr>sq_finished_reason := fr, sq_to_finish := tf\<rparr>)"
  "stop_fields_only r (r\<lparr>sq_finished_reason := fr, sq_finished_len := fl\<rparr>)"
  "stop_fields_only r (r\<lparr>sq_output_ids := out, sq_finished_reason := fr, sq_finished_len := fl\<rparr>)"
  by (simp_all add: stop_fields_only_def)

definition checked_from :: "int list \<Rightarrow> 'g sreq \<Rightarrow> 'g sreq \<Rightarrow> bool" where
  "checked_from xs r r' \<longleftrightarrow> stop_fields_only r r' \<and>
     length (sq_output_ids r') = length (sq_output_ids r) \<and> take (length xs) (sq_output_ids r') = xs \<and>
     (\<not> req_finished r' \<longrightarrow> sq_finished_len r' = None \<and> int (length (sq_output_ids r')) \<le> max_new_tokens (sq_sampling r)) \<and>
     (\<forall>l. sq_finished_len r' = Some l \<longrightarrow> int (length xs) \<le> l \<and>
        (int (length xs) = l \<longrightarrow> (\<exists>m. sq_finished_reason r' = Some (FINISH_LENGTH m))))"

lemma py_set_keeps:
  assumes "py_set out k v = Inr out'" "int n \<le> k"
  shows "length out' = length out" "take n out' = take n out"
  using assms by (auto simp: py_set_def split: if_splits)

lemma set_first_keeps:
  assumes "set_first s out k = Inr out'" "int n \<le> k"
  shows "length out' = length out" "take n out' = take n out"
  using assms py_set_keeps [of out k _ out' n] by (auto simp: set_first_def split: list.splits)

lemma vocab_boundary_shape:
  assumes "vocab_boundary_loop n i ts r = Inr (hit, r')" "int k \<le> int (length (sq_output_ids r)) - n + i"
  shows "if hit then (\<exists>out l. r' = r\<lparr>sq_output_ids := out, sq_finished_reason := Some (FINISH_MATCHED_STR ''NaN happened''),
      sq_finished_len := Some l\<rparr> \<and> length out = length (sq_output_ids r) \<and> take k out = take k (sq_output_ids r) \<and> int k < l)
    else r' = r"
  using assms
proof (induction ts arbitrary: i)
  case (Cons t ts)
  show ?case
  proof (cases "t > sq_vocab_size r \<or> t < 0")
    case True
    let ?off = "int (length (sq_output_ids r)) - n + i"
    obtain out1 out2 where o: "set_first (stop_token_ids (sq_sampling r)) (sq_output_ids r) ?off = Inr out1"
      "set_first (sq_eos_token_ids r) out1 ?off = Inr out2" "hit"
      "r' = r\<lparr>sq_output_ids := out2, sq_finished_reason := Some (FINISH_MATCHED_STR ''NaN happened''),
             sq_finished_len := Some (?off + 1)\<rparr>"
      using Cons.prems(1) True by (auto simp: Let_def py_bind_eq_Inr)
    show ?thesis
      using o(3,4) Cons.prems(2) set_first_keeps [OF o(1) Cons.prems(2)] set_first_keeps [OF o(2) Cons.prems(2)]
      by (simp, intro exI [of _ out2] exI [of _ "?off + 1"]) simp
  next
    case False
    then show ?thesis using Cons.prems Cons.IH [of "i + 1"] by simp
  qed
qed simp

lemma token_finish_shape:
  assumes "check_token_based_finish new r = (hit, r')" "sq_output_ids r = xs @ new"
  shows "if hit then (\<exists>t l. r' = r\<lparr>sq_finished_reason := Some (FINISH_MATCHED_TOKEN t), sq_finished_len := Some l\<rparr> \<and>
      int (length xs) < l) else r' = r"
proof -
  let ?p = "length (takeWhile (\<lambda>t. \<not> is_stop_token r t) new)"
  have "r' = r\<lparr>sq_finished_reason := Some (FINISH_MATCHED_TOKEN (new ! ?p)),
      sq_finished_len := Some (int (length xs) + int ?p + 1)\<rparr>" if hit
    using that assms token_finish_loop_eq [OF refl, of "int (length new)" 0 new r]
    by (simp add: check_token_based_finish_def split: if_splits)
  moreover have "r' = r" if "\<not> hit"
    using that assms token_finish_loop_eq [OF refl, of "int (length new)" 0 new r]
    by (simp add: check_token_based_finish_def split: if_splits)
  moreover have "int (length xs) < int (length xs) + int ?p + 1" by simp
  ultimately show ?thesis by metis
qed

lemma check_finished_shape:
  assumes c: "check_finished G re_search (int (length ts)) r = Inr r'" and nf: "\<not> req_finished r" "sq_finished_len r = None"
    and out: "sq_output_ids r = xs @ ts" "ts \<noteq> []" and le: "int (length xs) \<le> max_new_tokens (sq_sampling r)"
  shows "checked_from xs r r'"
proof -
  let ?max = "max_new_tokens (sq_sampling r)"
  consider (tofin) "sq_to_finish r \<noteq> None"
    | (len) "sq_to_finish r = None" "?max \<le> int (length (sq_output_ids r))"
    | (gram) "sq_to_finish r = None" "int (length (sq_output_ids r)) < ?max" "\<exists>g. sq_grammar r = Some g \<and> is_terminated G g"
    | (rest) "sq_to_finish r = None" "int (length (sq_output_ids r)) < ?max" "\<not> (\<exists>g. sq_grammar r = Some g \<and> is_terminated G g)"
    by fastforce
  then show ?thesis
  proof cases
    case tofin
    then have "r' = r\<lparr>sq_finished_reason := sq_to_finish r, sq_to_finish := None\<rparr>"
      using c nf by (simp add: check_finished_def)
    then show ?thesis using tofin nf out by (auto simp: checked_from_def stop_fields_onlyI req_finished_def)
  next
    case len
    then have "r' = r\<lparr>sq_finished_reason := Some (FINISH_LENGTH ?max), sq_finished_len := Some ?max\<rparr>"
      using c nf by (simp add: check_finished_def Let_def)
    then show ?thesis using nf out le by (auto simp: checked_from_def stop_fields_onlyI req_finished_def)
  next
    case gram
    then have "\<exists>t. r' = r\<lparr>sq_finished_reason := Some (FINISH_MATCHED_TOKEN t)\<rparr>"
      using c nf by (auto simp: check_finished_def Let_def py_bind_eq_Inr)
    then show ?thesis using nf out by (auto simp: checked_from_def stop_fields_onlyI req_finished_def)
  next
    case rest
    then have g: "\<not> (case sq_grammar r of None \<Rightarrow> False | Some g \<Rightarrow> is_terminated G g)" by (auto split: option.splits)
    obtain hit r1 where t: "check_token_based_finish ts r = (hit, r1)" by (cases "check_token_based_finish ts r")
    note ts = token_finish_shape [OF t out(1)]
    show ?thesis
    proof (cases hit)
      case True
      then have "r' = r1" using c t g rest nf out by (simp add: check_finished_def Let_def)
      then show ?thesis using ts True out by (auto simp: checked_from_def stop_fields_onlyI req_finished_def)
    next
      case False
      then have r1: "r1 = r" using ts by simp
      obtain hit2 r2 where v: "check_vocab_boundary_finish ts r = Inr (hit2, r2)"
        and r2: "hit2 \<Longrightarrow> r' = r2" "\<not> hit2 \<Longrightarrow> \<exists>h. check_str_based_finish re_search r2 = Inr (h, r')"
        using c t g rest nf out False r1
        by (auto simp: check_finished_def Let_def py_bind_eq_Inr split: if_splits)
      have vs: "if hit2 then (\<exists>out l. r2 = r\<lparr>sq_output_ids := out, sq_finished_reason := Some (FINISH_MATCHED_STR ''NaN happened''),
          sq_finished_len := Some l\<rparr> \<and> length out = length (sq_output_ids r) \<and>
          take (length xs) out = take (length xs) (sq_output_ids r) \<and> int (length xs) < l) else r2 = r"
        using v out(1) unfolding check_vocab_boundary_finish_def by (intro vocab_boundary_shape) auto
      show ?thesis
      proof (cases hit2)
        case True
        then show ?thesis using vs r2(1) out by (auto simp: checked_from_def stop_fields_onlyI req_finished_def)
      next
        case False
        then obtain fr where "r' = r\<lparr>sq_finished_reason := fr\<rparr>" using vs r2(2) str_finish_shape by metis
        then show ?thesis using rest nf out by (auto simp: checked_from_def stop_fields_onlyI req_finished_def)
      qed
    qed
  qed
qed

text \<open>The fields that carry the state of the output, which a decode step leaves alone.\<close>

definition same_output_state :: "'g sreq \<Rightarrow> 'g sreq \<Rightarrow> bool" where
  "same_output_state r r' \<longleftrightarrow> sq_sampling r' = sq_sampling r \<and> sq_finished_output r' = sq_finished_output r \<and>
     sq_origin_input_ids_unpadded r' = sq_origin_input_ids_unpadded r \<and>
     sq_surr_offset r' = sq_surr_offset r \<and> sq_read_offset r' = sq_read_offset r \<and>
     sq_surr_and_decode_ids r' = sq_surr_and_decode_ids r \<and> sq_cur_decode_ids_len r' = sq_cur_decode_ids_len r \<and>
     sq_send_token_offset r' = sq_send_token_offset r \<and> sq_send_decode_id_offset r' = sq_send_decode_id_offset r"

lemma stop_fields_only_state: "stop_fields_only r r' \<Longrightarrow> same_output_state r r'"
proof -
  assume e: "stop_fields_only r r'"
  note e' = arg_cong [OF e [unfolded stop_fields_only_def]]
  show ?thesis
    using e' [of sq_sampling] e' [of sq_finished_output] e' [of sq_origin_input_ids_unpadded] e' [of sq_surr_offset]
      e' [of sq_read_offset] e' [of sq_surr_and_decode_ids] e' [of sq_cur_decode_ids_len] e' [of sq_send_token_offset]
      e' [of sq_send_decode_id_offset]
    by (simp add: same_output_state_def)
qed

text \<open>An unfinished request has no finished length yet and has not passed its limit.\<close>

definition open_ok :: "'g sreq \<Rightarrow> bool" where
  "open_ok r \<longleftrightarrow> (\<not> req_finished r \<longrightarrow>
     sq_finished_len r = None \<and> int (length (sq_output_ids r)) \<le> max_new_tokens (sq_sampling r))"

definition ends_by_length :: "'g sreq \<Rightarrow> bool" where
  "ends_by_length r \<longleftrightarrow> (\<exists>m. sq_finished_reason r = Some (FINISH_LENGTH m))"

lemma feed_grammar_keeps:
  "feed_grammar G toks r = Inr r' \<Longrightarrow> sq_output_ids r' = sq_output_ids r \<and> sq_finished_reason r' = sq_finished_reason r \<and>
     sq_finished_len r' = sq_finished_len r \<and> same_output_state r r'"
  by (auto simp: feed_grammar_def Let_def abort_running_def same_output_state_def
      split: option.splits prod.splits if_splits)

lemma process_req_shape:
  assumes p: "process_decode_req G re_search th ov nxt r = Inr r'" and nf: "\<not> req_finished r" and ok: "open_ok r"
    and ne: "tokens_of nxt \<noteq> []"
  shows "prefix (sq_output_ids r) (output_ids_through_stop r') \<and> open_ok r' \<and> same_output_state r r' \<and>
    (req_finished r' \<and> \<not> ends_by_length r' \<longrightarrow> length (sq_output_ids r) < length (output_ids_through_stop r'))"
proof (cases "ov \<and> sq_is_retracted r")
  case True
  then show ?thesis using p nf ok
    by (simp add: process_decode_req_def open_ok_def output_ids_through_stop_def same_output_state_def)
next
  case False
  let ?r1 = "reason_with th (tokens_of nxt) (r\<lparr>sq_output_ids := sq_output_ids r @ tokens_of nxt\<rparr>)"
  obtain r3 where c: "check_finished G re_search (int (length (tokens_of nxt))) ?r1 = Inr r3"
    and f: "feed_grammar G (tokens_of nxt) r3 = Inr r'"
    using p nf False by (auto simp: process_decode_req_def Let_def reason_with_def [symmetric] py_bind_eq_Inr)
  have r': "sq_output_ids r' = sq_output_ids r3" "sq_finished_reason r' = sq_finished_reason r3"
    "sq_finished_len r' = sq_finished_len r3" "same_output_state r3 r'"
    using feed_grammar_keeps [OF f] by simp_all
  have "checked_from (sq_output_ids r) ?r1 r3"
    using nf ok ne by (intro check_finished_shape [OF c]) (simp_all add: open_ok_def req_finished_def)
  then have k: "stop_fields_only ?r1 r3" "take (length (sq_output_ids r)) (sq_output_ids r3) = sq_output_ids r"
    "\<not> req_finished r3 \<Longrightarrow> sq_finished_len r3 = None \<and> int (length (sq_output_ids r3)) \<le> max_new_tokens (sq_sampling r)"
    "\<And>l. sq_finished_len r3 = Some l \<Longrightarrow> int (length (sq_output_ids r)) \<le> l"
    "\<And>l. sq_finished_len r3 = Some l \<Longrightarrow> \<not> ends_by_length r3 \<Longrightarrow> int (length (sq_output_ids r)) < l"
    "length (sq_output_ids r3) = length (sq_output_ids r) + length (tokens_of nxt)"
    by (auto simp: checked_from_def ends_by_length_def order_less_le)
  have st: "same_output_state r r'"
    using stop_fields_only_state [OF k(1)] r'(4)
    by (auto simp: same_output_state_def reason_with_def update_reasoning_tokens_def split: option.splits)
  have "prefix (sq_output_ids r) (sq_output_ids r3)" using k(2) by (metis take_is_prefix)
  moreover have "prefix (sq_output_ids r) (take (nat l) (sq_output_ids r3))" if "sq_finished_len r3 = Some l" for l
    using k(2) k(4) [OF that] by (metis min.absorb1 nat_int nat_mono take_is_prefix take_take)
  moreover have "0 \<le> l" if "sq_finished_len r3 = Some l" for l using k(4) [OF that] by simp
  moreover have "length (sq_output_ids r) < length (output_ids_through_stop r')" if "\<not> ends_by_length r'"
  proof (cases "sq_finished_len r3")
    case None
    then show ?thesis using r'(1,3) k(6) ne by (simp add: output_ids_through_stop_def)
  next
    case (Some l)
    then have l: "int (length (sq_output_ids r)) < l" using k(5) that r'(2) by (simp add: ends_by_length_def)
    then have "output_ids_through_stop r' = take (nat l) (sq_output_ids r3)" using Some r'(1,3)
      by (simp add: output_ids_through_stop_def slice_simps)
    moreover have "length (sq_output_ids r) < nat l" using l by linarith
    ultimately show ?thesis using k(6) ne by (simp add: min_def)
  qed
  ultimately show ?thesis
    using k(3) r' st by (auto simp: output_ids_through_stop_def open_ok_def req_finished_def slice_simps same_output_state_def
        split: option.splits)
qed

text \<open>
  A request from its arrival on: decode steps while it is not finished, aborts, and passes of the output
  loop, each of which may send a chunk. The list holds the chunks sent.
\<close>

inductive served ::
  "'g grammar_ops \<Rightarrow> (string \<Rightarrow> string \<Rightarrow> bool) \<Rightarrow> int option \<Rightarrow> bool \<Rightarrow> int \<Rightarrow> int \<Rightarrow> 'g sreq \<Rightarrow> 'g sreq \<Rightarrow> out_chunk list \<Rightarrow> bool"
  for G re_search th ov si fi r0 where
  served_new: "served G re_search th ov si fi r0 r0 []"
| served_decode: "served G re_search th ov si fi r0 r cs \<Longrightarrow> \<not> req_finished r \<Longrightarrow> tokens_of nxt \<noteq> [] \<Longrightarrow>
    process_decode_req G re_search th ov nxt r = Inr r' \<Longrightarrow> served G re_search th ov si fi r0 r' cs"
| served_abort: "served G re_search th ov si fi r0 r cs \<Longrightarrow> served G re_search th ov si fi r0 (abort_running r) cs"
| served_stream: "served G re_search th ov si fi r0 r cs \<Longrightarrow> stream_output_req si fi r = Inr (c, r') \<Longrightarrow>
    served G re_search th ov si fi r0 r' (cs @ (case c of None \<Rightarrow> [] | Some x \<Rightarrow> [x]))"

definition new_req :: "'g sreq \<Rightarrow> bool" where
  "new_req r \<longleftrightarrow> sq_output_ids r = [] \<and> sq_finished_reason r = None \<and> sq_finished_len r = None \<and> \<not> sq_finished_output r \<and>
     sq_surr_offset r = None \<and> sq_read_offset r = None \<and> sq_send_token_offset r = 0 \<and> sq_send_decode_id_offset r = 0 \<and>
     0 \<le> max_new_tokens (sq_sampling r)"

text \<open>The prompt tokens that precede the output in what the detokenizer gets.\<close>

definition surrounding :: "'g sreq \<Rightarrow> int list" where
  "surrounding r = py_from (sq_origin_input_ids_unpadded r)
     (max (int (length (sq_origin_input_ids_unpadded r)) - INIT_INCREMENTAL_DETOKENIZATION_OFFSET) 0)"

definition sent_output :: "out_chunk list \<Rightarrow> int list" where
  "sent_output cs = concat (map ch_output_ids cs)"

definition sent_decode_ids :: "out_chunk list \<Rightarrow> int list" where
  "sent_decode_ids cs = concat (map ch_decode_ids cs)"

text \<open>The first chunk has the surrounding tokens before its output, the others just their output.\<close>

definition chunk_ids_ok :: "int list \<Rightarrow> out_chunk list \<Rightarrow> bool" where
  "chunk_ids_ok P cs \<longleftrightarrow> (\<forall>c \<in> set cs. ch_read_offset c = int (length P)) \<and>
     (\<forall>c \<in> set (tl cs). ch_decode_ids c = ch_output_ids c) \<and> (cs \<noteq> [] \<longrightarrow> ch_decode_ids (hd cs) = P @ ch_output_ids (hd cs))"

definition sent_inv :: "'g sreq \<Rightarrow> out_chunk list \<Rightarrow> bool" where
  "sent_inv r cs \<longleftrightarrow> open_ok r \<and> prefix (sent_output cs) (output_ids_through_stop r) \<and>
     sq_send_token_offset r = int (length (sent_output cs)) \<and>
     sq_send_decode_id_offset r = int (length (sent_decode_ids cs)) \<and>
     (sq_surr_offset r = None \<longleftrightarrow> cs = []) \<and> (sq_read_offset r = None \<longleftrightarrow> cs = []) \<and>
     (req_finished r \<and> \<not> ends_by_length r \<longrightarrow> (if sq_finished_output r then ch_output_ids (last cs) \<noteq> []
        else length (sent_output cs) < length (output_ids_through_stop r))) \<and>
     chunk_ids_ok (surrounding r) cs \<and>
     (cs \<noteq> [] \<longrightarrow> the (sq_read_offset r) - the (sq_surr_offset r) = int (length (surrounding r)) \<and>
        sq_surr_and_decode_ids r = surrounding r @ sent_output cs \<and>
        sent_decode_ids cs = surrounding r @ sent_output cs \<and> sq_cur_decode_ids_len r = int (length (sent_output cs))) \<and>
     (if sq_finished_output r
      then req_finished r \<and> sent_output cs = output_ids_through_stop r \<and> cs \<noteq> [] \<and>
           ch_reason (last cs) = sq_finished_reason r \<and> (\<forall>c \<in> set (butlast cs). ch_reason c = None)
      else (\<forall>c \<in> set cs. ch_reason c = None))"

lemma sent_invD:
  assumes "sent_inv r cs"
  shows "prefix (sent_output cs) (output_ids_through_stop r)" "sq_send_token_offset r = int (length (sent_output cs))"
    "sq_send_decode_id_offset r = int (length (sent_decode_ids cs))" "sq_surr_offset r = None \<longleftrightarrow> cs = []"
    "sq_read_offset r = None \<longleftrightarrow> cs = []" "chunk_ids_ok (surrounding r) cs"
    "cs \<noteq> [] \<Longrightarrow> the (sq_read_offset r) - the (sq_surr_offset r) = int (length (surrounding r))"
    "cs \<noteq> [] \<Longrightarrow> sq_surr_and_decode_ids r = surrounding r @ sent_output cs"
    "cs \<noteq> [] \<Longrightarrow> sent_decode_ids cs = surrounding r @ sent_output cs"
    "cs \<noteq> [] \<Longrightarrow> sq_cur_decode_ids_len r = int (length (sent_output cs))"
  using assms unfolding sent_inv_def by blast+

lemma sent_simps [simp]:
  "sent_output [] = []" "sent_output (cs @ [c]) = sent_output cs @ ch_output_ids c"
  "sent_decode_ids [] = []" "sent_decode_ids (cs @ [c]) = sent_decode_ids cs @ ch_decode_ids c"
  by (simp_all add: sent_output_def sent_decode_ids_def)

lemma sent_inv_new: "new_req r \<Longrightarrow> sent_inv r []"
  by (simp add: sent_inv_def new_req_def open_ok_def req_finished_def chunk_ids_ok_def)

lemma sent_inv_decode:
  assumes "sent_inv r cs" "\<not> req_finished r" "tokens_of nxt \<noteq> []" "process_decode_req G re_search th ov nxt r = Inr r'"
  shows "sent_inv r' cs"
proof -
  have s: "prefix (sq_output_ids r) (output_ids_through_stop r')" "open_ok r'" "same_output_state r r'"
    "req_finished r' \<Longrightarrow> \<not> ends_by_length r' \<Longrightarrow> length (sq_output_ids r) < length (output_ids_through_stop r')"
    using process_req_shape [OF assms(4,2) _ assms(3)] assms(1) by (simp_all add: sent_inv_def)
  have "output_ids_through_stop r = sq_output_ids r"
    using assms(1,2) by (simp add: sent_inv_def open_ok_def output_ids_through_stop_def)
  then have p: "prefix (sent_output cs) (sq_output_ids r)" using assms(1) by (simp add: sent_inv_def)
  have le: "prefix (sent_output cs) (output_ids_through_stop r')" "length (sent_output cs) \<le> length (sq_output_ids r)"
    using p s(1) prefix_order.trans prefix_length_le by blast+
  then have "length (sent_output cs) < length (output_ids_through_stop r')" if "req_finished r'" "\<not> ends_by_length r'"
    using s(4) [OF that] by simp
  with le(1) show ?thesis using assms(1,2) s(2,3) by (auto simp: sent_inv_def same_output_state_def surrounding_def)
qed

lemma sent_inv_abort: "sent_inv r cs \<Longrightarrow> sent_inv (abort_running r) cs"
  by (auto simp: sent_inv_def abort_running_def open_ok_def req_finished_def surrounding_def output_ids_through_stop_def
      ends_by_length_def)

lemma py_from_prefix: "py_from (xs @ ys) (int (length xs)) = ys"
  by (simp add: py_from_def)

lemma through_stop_send [simp]:
  "output_ids_through_stop (r\<lparr>sq_send_decode_id_offset := a, sq_send_token_offset := b\<rparr>) = output_ids_through_stop r"
  by (simp add: output_ids_through_stop_def split: option.split)

lemma output_due_shape:
  assumes "output_due si fi r = Inr (due, r1)"
  shows "r1 = r \<and> (req_finished r \<longrightarrow> sq_finished_output r \<and> \<not> due) \<or>
    due \<and> req_finished r \<and> \<not> sq_finished_output r \<and>
    r1 = r\<lparr>sq_finished_output := True, sq_finished_len := (case sq_finished_len r of None \<Rightarrow> Some (int (length (sq_output_ids r)))
      | Some l \<Rightarrow> Some l)\<rparr>"
  using assms by (auto simp: output_due_def Let_def py_bind_eq_Inr split: if_splits)

lemma through_stop_closed:
  "output_ids_through_stop (r\<lparr>sq_finished_output := True, sq_finished_len := (case sq_finished_len r of
     None \<Rightarrow> Some (int (length (sq_output_ids r))) | Some l \<Rightarrow> Some l)\<rparr>) = output_ids_through_stop r"
  by (auto simp: output_ids_through_stop_def slice_simps split: option.splits)

text \<open>What a chunk holds: the output since the last one, and before the first one the surrounding tokens.\<close>

lemma stream_chunk:
  assumes i: "sent_inv r cs" and T: "output_ids_through_stop r1 = output_ids_through_stop r"
    and st: "r1 = r \<or> r1 = r\<lparr>sq_finished_output := True, sq_finished_len := fl\<rparr>"
    and d: "init_incremental_detokenize r1 = (ids, ro, r2)"
  shows "ids = surrounding r @ output_ids_through_stop r" "sent_decode_ids cs @ py_from ids (sq_send_decode_id_offset r2) = ids"
    "sent_output cs @ py_from (output_ids_through_stop r2) (sq_send_token_offset r1) = output_ids_through_stop r"
    "output_ids_through_stop r2 = output_ids_through_stop r"
    "sq_surr_and_decode_ids r2 = ids" "sq_cur_decode_ids_len r2 = int (length (output_ids_through_stop r))"
    "sq_surr_offset r2 \<noteq> None \<and> sq_read_offset r2 \<noteq> None" "sq_finished_reason r2 = sq_finished_reason r"
    "sq_finished_output r2 = sq_finished_output r1" "surrounding r2 = surrounding r"
    "sq_sampling r2 = sq_sampling r \<and> sq_finished_len r2 = sq_finished_len r1 \<and> sq_output_ids r2 = sq_output_ids r"
    "the (sq_read_offset r2) - the (sq_surr_offset r2) = int (length (surrounding r))" "ro = int (length (surrounding r))"
proof -
  let ?T = "output_ids_through_stop r"
  note q = sent_invD [OF i]
  obtain z where z: "?T = sent_output cs @ z" using q(1) unfolding prefix_def by blast
  have off: "sq_send_token_offset r1 = int (length (sent_output cs))" "sq_send_decode_id_offset r1 = int (length (sent_decode_ids cs))"
    "sq_origin_input_ids_unpadded r1 = sq_origin_input_ids_unpadded r"
    using q(2,3) st by auto
  have "ids = surrounding r @ ?T \<and> sq_surr_and_decode_ids r2 = ids \<and> sq_cur_decode_ids_len r2 = int (length ?T) \<and>
      (sq_surr_offset r2 \<noteq> None \<and> sq_read_offset r2 \<noteq> None) \<and>
      sent_decode_ids cs @ py_from ids (int (length (sent_decode_ids cs))) = ids \<and>
      the (sq_read_offset r2) - the (sq_surr_offset r2) = int (length (surrounding r)) \<and> ro = int (length (surrounding r))"
  proof (cases "cs = []")
    case True
    then have "sq_surr_offset r1 = None" "sq_read_offset r1 = None" using q(4,5) st by auto
    then show ?thesis using d T off(3) True
      by (auto simp: init_incremental_detokenize_def Let_def surrounding_def py_from_nat max_def
          INIT_INCREMENTAL_DETOKENIZATION_OFFSET_def)
  next
    case False
    then obtain s rd where "sq_surr_offset r1 = Some s" "sq_read_offset r1 = Some rd" using q(4,5) st by auto
    moreover have "sq_surr_and_decode_ids r1 = surrounding r @ sent_output cs"
      "sent_decode_ids cs = surrounding r @ sent_output cs" "sq_cur_decode_ids_len r1 = int (length (sent_output cs))"
      "the (sq_read_offset r1) - the (sq_surr_offset r1) = int (length (surrounding r))"
      using q(7-10) st False by auto
    ultimately show ?thesis using d T z py_from_prefix [of "surrounding r @ sent_output cs" z]
      by (auto simp: init_incremental_detokenize_def Let_def py_from_prefix)
  qed
  moreover have keep: "sq_send_decode_id_offset r2 = sq_send_decode_id_offset r1 \<and> output_ids_through_stop r2 = output_ids_through_stop r1 \<and>
      sq_finished_reason r2 = sq_finished_reason r1 \<and> sq_finished_output r2 = sq_finished_output r1 \<and> surrounding r2 = surrounding r1 \<and>
      sq_sampling r2 = sq_sampling r1 \<and> sq_finished_len r2 = sq_finished_len r1 \<and> sq_output_ids r2 = sq_output_ids r1"
    using d by (auto simp: init_incremental_detokenize_def Let_def output_ids_through_stop_def surrounding_def split: option.splits)
  moreover have "sq_finished_reason r1 = sq_finished_reason r" "surrounding r1 = surrounding r" "sq_sampling r1 = sq_sampling r"
    "sq_output_ids r1 = sq_output_ids r" using st by (auto simp: surrounding_def)
  ultimately show "ids = surrounding r @ ?T" "sent_decode_ids cs @ py_from ids (sq_send_decode_id_offset r2) = ids"
    "sent_output cs @ py_from (output_ids_through_stop r2) (sq_send_token_offset r1) = ?T" "output_ids_through_stop r2 = ?T"
    "sq_surr_and_decode_ids r2 = ids" "sq_cur_decode_ids_len r2 = int (length ?T)"
    "sq_surr_offset r2 \<noteq> None \<and> sq_read_offset r2 \<noteq> None" "sq_finished_reason r2 = sq_finished_reason r"
    "sq_finished_output r2 = sq_finished_output r1" "surrounding r2 = surrounding r"
    "sq_sampling r2 = sq_sampling r \<and> sq_finished_len r2 = sq_finished_len r1 \<and> sq_output_ids r2 = sq_output_ids r"
    "the (sq_read_offset r2) - the (sq_surr_offset r2) = int (length (surrounding r))" "ro = int (length (surrounding r))"
    using T z off by (auto simp: py_from_prefix)
qed

lemma sent_inv_stream:
  assumes i: "sent_inv r cs" and s: "stream_output_req si fi r = Inr (c, r')"
  shows "sent_inv r' (cs @ (case c of None \<Rightarrow> [] | Some x \<Rightarrow> [x]))"
proof -
  obtain due r1 where d: "output_due si fi r = Inr (due, r1)" using s by (auto simp: stream_output_req_def py_bind_eq_Inr)
  note sh = output_due_shape [OF d]
  show ?thesis
  proof (cases due)
    case False
    then show ?thesis using sh s d i by (auto simp: stream_output_req_def)
  next
    case True
    obtain ids ro r2 where n: "init_incremental_detokenize r1 = (ids, ro, r2)" by (cases "init_incremental_detokenize r1") auto
    have st: "r1 = r \<or> r1 = r\<lparr>sq_finished_output := True, sq_finished_len := sq_finished_len r1\<rparr>" using sh by auto
    have T: "output_ids_through_stop r1 = output_ids_through_stop r" using sh through_stop_closed by auto
    note k = stream_chunk [OF i T st n]
    let ?c = "\<lparr>ch_reason = sq_finished_reason r2, ch_decode_ids = py_from ids (sq_send_decode_id_offset r2),
      ch_read_offset = ro, ch_output_ids = py_from (output_ids_through_stop r2) (sq_send_token_offset r1)\<rparr>"
    have r': "c = Some ?c" "r' = r2\<lparr>sq_send_decode_id_offset := int (length ids),
        sq_send_token_offset := int (length (output_ids_through_stop r2))\<rparr>"
      using s d n True by (auto simp: stream_output_req_def Let_def)
    have fo: "sq_finished_output r2 = req_finished r" "\<not> sq_finished_output r"
      "\<not> req_finished r \<Longrightarrow> sq_finished_len r2 = sq_finished_len r"
      using sh k(9,11) i True by (auto simp: sent_inv_def)
    have sent: "sent_output (cs @ [?c]) = output_ids_through_stop r" "sent_decode_ids (cs @ [?c]) = ids"
      using k(2,3) by simp_all
    have "sent_decode_ids cs @ ch_decode_ids ?c = surrounding r @ sent_output cs @ ch_output_ids ?c" using k(1-3) by simp
    moreover have "cs \<noteq> [] \<Longrightarrow> sent_decode_ids cs = surrounding r @ sent_output cs" "chunk_ids_ok (surrounding r) cs"
      using sent_invD(6,9) [OF i] by auto
    ultimately have "chunk_ids_ok (surrounding r) (cs @ [?c])" using k(13) unfolding chunk_ids_ok_def by (cases cs) auto
    moreover have "ch_output_ids ?c \<noteq> []" if "req_finished r" "\<not> ends_by_length r"
      using i fo(2) that k(3) by (auto simp: sent_inv_def)
    moreover have "ends_by_length r' \<longleftrightarrow> ends_by_length r" using k(8) r'(2) by (simp add: ends_by_length_def)
    moreover have "output_ids_through_stop r' = output_ids_through_stop r" using k(4) r'(2) by simp
    moreover have "open_ok r'" using i k(8,11) r'(2) fo(3) by (simp add: sent_inv_def open_ok_def req_finished_def)
    ultimately show ?thesis
      using i k(1,4-8,10,12) fo(1,2) sent unfolding r'(1) sent_inv_def
      by (simp add: r'(2) surrounding_def req_finished_def)
  qed
qed

lemma served_sent_inv:
  "served G re_search th ov si fi r0 r cs \<Longrightarrow> new_req r0 \<Longrightarrow> sent_inv r cs"
proof (induction rule: served.induct)
  case served_new
  then show ?case by (rule sent_inv_new)
next
  case (served_decode r cs nxt r')
  then show ?case using sent_inv_decode by blast
next
  case (served_abort r cs)
  then show ?case using sent_inv_abort by blast
next
  case (served_stream r cs c r')
  then show ?case using sent_inv_stream by blast
qed

text \<open>
  C21. Whatever the order of decode steps, aborts and passes of the output loop, and wherever the stop is: the
  output chunks of a request put together are a prefix of its output through the stop, nothing is sent
  twice or left out; once its final chunk is out they are exactly that output, the token ids sent for
  detokenization are the surrounding prompt tokens followed by it, and the final chunk alone carries the
  finish reason.
\<close>

theorem streamed_chunks_are_the_output:
  assumes "served G re_search th ov si fi r0 r cs" "new_req r0"
  shows "prefix (sent_output cs) (output_ids_through_stop r) \<and>
    (cs \<noteq> [] \<longrightarrow> sent_decode_ids cs = surrounding r @ sent_output cs) \<and>
    (if sq_finished_output r
     then req_finished r \<and> cs \<noteq> [] \<and> sent_output cs = output_ids_through_stop r \<and>
       ch_reason (last cs) = sq_finished_reason r \<and> (\<forall>c \<in> set (butlast cs). ch_reason c = None)
     else \<forall>c \<in> set cs. ch_reason c = None)"
  using served_sent_inv [OF assms] unfolding sent_inv_def by (simp split: if_splits)

text \<open>
  C37. A stop string is searched in the decoded text of the last \<open>stop_str_max_len + 1\<close> tokens only, also when a
  step brings more tokens than that. With a stop string of one token that is the first of at least three
  accepted tokens, the request does not finish; given the tokens one by one it finishes at that token. The
  scheduler never fills \<open>decoded_text\<close>, the other place that is searched.
\<close>

theorem stop_string_missed:
  assumes r: "sq_finished_reason r = None" "sq_to_finish r = None" "sq_grammar r = None" "\<not> sq_is_retracted r" "sq_decoded_text r = []"
    and sp: "stop_strs (sq_sampling r) = [s]" "stop_str_max_len (sq_sampling r) = 1"
      "stop_regex_strs (sq_sampling r) = []" "stop_regex_max_len (sq_sampling r) = 0"
    and tk: "sq_tokenizer r = Some tk" "\<forall>ts. tk_decode tk ts = concat (map piece ts)" "piece a = s" "s \<noteq> []"
    and ts: "ts = a # us @ [u, v]" "\<forall>t \<in> set ts. 0 \<le> t \<and> t \<le> sq_vocab_size r \<and> \<not> is_stop_token r t"
      "\<not> sublist s (piece u @ piece v)"
    and len: "int (length (sq_output_ids r) + length ts) < max_new_tokens (sq_sampling r)"
  shows "\<exists>b e. process_decode_req G re_search None ov (Accepted ts) r = Inr b \<and> \<not> req_finished b \<and>
    process_each G re_search None ov ts r = Inr e \<and> sq_finished_reason e = Some (FINISH_MATCHED_STR s) \<and>
    sq_output_ids e = sq_output_ids r @ [a]"
proof -
  have quiet: "check_token_based_finish new r' = (False, r') \<and> check_vocab_boundary_finish new r' = Inr (False, r')"
    if "set new \<subseteq> set ts" "r' = r\<lparr>sq_output_ids := out\<rparr>" for new r' out
  proof -
    have st: "is_stop_token r' t = is_stop_token r t" for t using that(2) by (intro is_stop_token_cong) simp_all
    have "\<forall>t \<in> set new. \<not> is_stop_token r' t" using that(1) ts(2) st by auto
    then have "length (takeWhile (\<lambda>t. \<not> is_stop_token r' t) new) = length new" by (metis takeWhile_eq_all_conv)
    then have "token_finish_loop (int (length new)) 0 new r' = (False, r')"
      using token_finish_loop_eq [OF refl, of "int (length new)" 0 new r'] by simp
    moreover have "vocab_boundary_loop (int (length new)) 0 new r' = Inr (False, r')"
      using that ts(2) by (intro vocab_boundary_ok) auto
    ultimately show ?thesis by (simp add: check_token_based_finish_def check_vocab_boundary_finish_def)
  qed
  let ?b = "r\<lparr>sq_output_ids := sq_output_ids r @ ts\<rparr>" and ?e = "r\<lparr>sq_output_ids := sq_output_ids r @ [a]\<rparr>"
  have ne: "ts \<noteq> []" and one: "set [a] \<subseteq> set ts" using ts(1) by simp_all
  have "1 \<le> length ts" using ne by (cases ts) simp_all
  then have len1: "int (length (sq_output_ids r)) + 1 < max_new_tokens (sq_sampling r)" using len by linarith
  have tail: "tail_str (r\<lparr>sq_output_ids := xs @ [x, y]\<rparr>) = Inr (piece x @ piece y)" for xs x y
    using sp tk by (simp add: tail_str_def Let_def py_from_def py_bound_def)
  have tail1: "\<exists>t. tail_str ?e = Inr t \<and> sublist s t"
  proof (cases "sq_output_ids r" rule: rev_cases)
    case Nil
    then show ?thesis using sp tk by (simp add: tail_str_def Let_def py_from_def py_bound_def)
  next
    case (snoc ys y)
    then show ?thesis using tail [of ys y a] tk(3) by (simp add: sublist_appendI [of s "_" "[]", simplified])
  qed
  have "check_str_based_finish re_search ?b = Inr (False, ?b)"
    using tail [of "sq_output_ids r @ a # us" u v] ts(1,3) sp r(5) tk(4)
    by (simp add: check_str_based_finish_def Let_def)
  then have b: "process_decode_req G re_search None ov (Accepted ts) r = Inr ?b"
    using r sp len quiet [OF order_refl refl, of "sq_output_ids r @ ts"] ne
    by (simp add: process_decode_req_def check_finished_def req_finished_def Let_def feed_grammar_def)
  have "check_str_based_finish re_search ?e = Inr (True, ?e\<lparr>sq_finished_reason := Some (FINISH_MATCHED_STR s)\<rparr>)"
    using tail1 sp by (auto simp: check_str_based_finish_def Let_def)
  then have "process_decode_req G re_search None ov (OneToken a) r = Inr (?e\<lparr>sq_finished_reason := Some (FINISH_MATCHED_STR s)\<rparr>)"
    using r sp len1 quiet [OF one refl, of "sq_output_ids r @ [a]"] ne py_from_suffix [of "[a]" "sq_output_ids r"]
    by (simp add: process_decode_req_def check_finished_def req_finished_def Let_def feed_grammar_def)
  then show ?thesis using b ts(1) r(1) by (simp add: req_finished_def)
qed

lemma stop_prefix_loop_iff:
  "stop_prefix_loop tail ss \<longleftrightarrow> (\<exists>s \<in> set ss. s \<noteq> [] \<and> (sublist s tail \<or> (\<exists>p. p \<noteq> [] \<and> suffix p tail \<and> prefix p s)))"
proof (induction ss)
  case (Cons s ss)
  have "list_ex (\<lambda>i. py_from tail (- int i) = py_upto s (int i)) [1..<Suc (min (length tail) (length s))] \<longleftrightarrow>
      (\<exists>p. p \<noteq> [] \<and> suffix p tail \<and> prefix p s)" (is "?l \<longleftrightarrow> ?r")
  proof
    assume ?l
    then obtain i where i: "1 \<le> i" "i \<le> length tail" "i \<le> length s" "py_from tail (- int i) = py_upto s (int i)"
      by (auto simp: list_ex_iff less_Suc_eq_le simp del: upt_Suc)
    then have "take i s = drop (length tail - i) tail" by (auto simp: py_from_def py_upto_def py_bound_def min_def nat_diff_distrib' split: if_splits)
    then have "suffix (take i s) tail" by (simp add: suffix_drop)
    moreover have "take i s \<noteq> []" using i by auto
    ultimately show ?r using take_is_prefix by blast
  next
    assume ?r
    then obtain p where p: "p \<noteq> []" "suffix p tail" "prefix p s" by blast
    then have "py_from tail (- int (length p)) = p" "py_upto s (int (length p)) = p"
      by (auto simp: suffix_def prefix_def py_upto_def)
    moreover have "length p \<le> length tail" "length p \<le> length s" "1 \<le> length p"
      using p by (auto dest: suffix_length_le prefix_length_le simp: Suc_le_eq)
    ultimately show ?l unfolding list_ex_iff by (intro bexI [of _ "length p"]) (simp_all, linarith)
  qed
  then show ?case using Cons by auto
qed simp

section \<open>Witnesses\<close>

definition demo_grammar :: "unit grammar_ops" where
  "demo_grammar = \<lparr>accept_token = (\<lambda>g t. (None, g)), is_terminated = (\<lambda>g. False), set_grammar_finished = (\<lambda>b g. g)\<rparr>"

definition demo_sreq :: "string list \<Rightarrow> unit sreq" where
  "demo_sreq stops = \<lparr>sq_origin_input_ids_unpadded = [1, 2, 3, 4, 5, 6, 7], sq_output_ids = [],
     sq_sampling = \<lparr>max_new_tokens = 4, stop_strs = stops, stop_str_max_len = int (length stops), stop_regex_strs = [],
        stop_regex_max_len = 0, stop_token_ids = [], ignore_eos = False, sp_stream_interval = None\<rparr>,
     sq_tokenizer = Some \<lparr>tk_decode = (\<lambda>ts. concat (map (\<lambda>t. if t = 7 then ''a'' else ''b'') ts)), eos_token_id = Some 0,
        additional_stop_token_ids = []\<rparr>,
     sq_eos_token_ids = [], sq_vocab_size = 9, sq_grammar = None, sq_finished_reason = None, sq_finished_len = None,
     sq_to_finish = None, sq_finished_output = False, sq_is_retracted = False, sq_decoded_text = [],
     sq_require_reasoning = False, sq_is_reasoning_over = False, sq_reasoning_tokens = 0, sq_spec_acceptance_histogram = [],
     sq_stream = True, sq_surr_offset = None, sq_read_offset = None, sq_surr_and_decode_ids = [], sq_cur_decode_ids_len = 0,
     sq_send_token_offset = 0, sq_send_decode_id_offset = 0\<rparr>"

lemma demo_sreq_plain:
  "plain_req (demo_sreq [])" "is_stop_token (demo_sreq ss) t \<longleftrightarrow> t = 0" "ends_at (demo_sreq ss) t \<longleftrightarrow> t = 0"
  by (auto simp: plain_req_def is_stop_token_def ends_at_def demo_sreq_def)

theorem accepted_at_once_eq_one_by_one_witness:
  "\<exists>b e. process_decode_req demo_grammar (\<lambda>p t. False) None True (Accepted [8, 0, 8]) (demo_sreq []) = Inr b \<and>
    process_each demo_grammar (\<lambda>p t. False) None True [8, 0, 8] (demo_sreq []) = Inr e \<and>
    sq_finished_reason b = sq_finished_reason e \<and> sq_finished_len b = sq_finished_len e \<and>
    output_ids_through_stop b = output_ids_through_stop e \<and> (\<not> req_finished b \<longrightarrow> b = e)"
  by (rule accepted_at_once_eq_one_by_one) (simp_all add: demo_sreq_plain, simp_all add: demo_sreq_def)

theorem accepted_at_once_runs_past_stop_witness:
  "\<exists>b e. process_decode_req demo_grammar (\<lambda>p t. False) None True (Accepted [8, 0, 8, 8]) (demo_sreq []) = Inr b \<and>
    process_each demo_grammar (\<lambda>p t. False) None True [8, 0, 8, 8] (demo_sreq []) = Inr e \<and>
    sq_finished_reason b = Some (FINISH_LENGTH 4) \<and> length (output_ids_through_stop b) = 4 \<and>
    length (output_ids_through_stop e) \<le> 2"
  using accepted_at_once_runs_past_stop [of "demo_sreq []" "[8, 0, 8, 8]" 1 demo_grammar "\<lambda>p t. False" None True]
  by (auto simp: demo_sreq_plain) (auto simp: demo_sreq_def)

theorem stop_string_missed_witness:
  "\<exists>b e. process_decode_req demo_grammar (\<lambda>p t. False) None True (Accepted [7, 8, 8]) (demo_sreq [''a'']) = Inr b \<and>
    \<not> req_finished b \<and> process_each demo_grammar (\<lambda>p t. False) None True [7, 8, 8] (demo_sreq [''a'']) = Inr e \<and>
    sq_finished_reason e = Some (FINISH_MATCHED_STR ''a'') \<and> sq_output_ids e = [7]"
  using stop_string_missed [of "demo_sreq [''a'']" "''a''" _ "\<lambda>t. if t = 7 then ''a'' else ''b''" 7 "[7, 8, 8]" "[]" 8 8
      demo_grammar "\<lambda>p t. False" True]
  by (simp add: demo_sreq_plain) (simp add: demo_sreq_def sublist_def Cons_eq_append_conv)

definition demo_final :: "unit sreq" where
  "demo_final = (demo_sreq [])\<lparr>sq_output_ids := [8, 0, 8], sq_finished_reason := Some (FINISH_MATCHED_TOKEN 0),
     sq_finished_len := Some 2, sq_finished_output := True, sq_read_offset := Some 7, sq_surr_offset := Some 2,
     sq_surr_and_decode_ids := [3, 4, 5, 6, 7, 8, 0], sq_cur_decode_ids_len := 2,
     sq_send_decode_id_offset := 7, sq_send_token_offset := 2\<rparr>"

definition demo_chunks :: "out_chunk list" where
  "demo_chunks = [\<lparr>ch_reason = None, ch_decode_ids = [3, 4, 5, 6, 7, 8], ch_read_offset = 5, ch_output_ids = [8]\<rparr>,
     \<lparr>ch_reason = Some (FINISH_MATCHED_TOKEN 0), ch_decode_ids = [0], ch_read_offset = 5, ch_output_ids = [0]\<rparr>]"

lemma demo_serving: "served demo_grammar (\<lambda>p t. False) None True 1 50 (demo_sreq []) demo_final demo_chunks"
proof -
  let ?S = "served demo_grammar (\<lambda>p t. False) None True 1 50 (demo_sreq [])"
  let ?r1 = "(demo_sreq [])\<lparr>sq_output_ids := [8]\<rparr>"
  let ?r2 = "?r1\<lparr>sq_read_offset := Some 7, sq_surr_offset := Some 2, sq_surr_and_decode_ids := [3, 4, 5, 6, 7, 8],
    sq_cur_decode_ids_len := 1, sq_send_decode_id_offset := 6, sq_send_token_offset := 1\<rparr>"
  let ?r3 = "?r2\<lparr>sq_output_ids := [8, 0, 8], sq_finished_reason := Some (FINISH_MATCHED_TOKEN 0), sq_finished_len := Some 2\<rparr>"
  let ?c1 = "\<lparr>ch_reason = None, ch_decode_ids = [3, 4, 5, 6, 7, 8], ch_read_offset = 5, ch_output_ids = [8]\<rparr>"
  note defs = demo_sreq_def stream_output_req_def output_due_def interval_due_def check_match_stop_str_prefix_def
    init_incremental_detokenize_def INIT_INCREMENTAL_DETOKENIZATION_OFFSET_def output_ids_through_stop_def req_finished_def
    Let_def py_from_def py_upto_def py_bound_def
  have p: "plain_req ?r1" "plain_req ?r2" by (simp_all add: plain_req_def demo_sreq_def)
  have "process_decode_req demo_grammar (\<lambda>p t. False) None True (Accepted [8]) (demo_sreq []) = Inr ?r1"
    by (subst process_plain [OF demo_sreq_plain(1) tokens_of.simps(2) _ _ refl refl])
      (simp_all add: demo_sreq_plain reason_with_def, simp_all add: demo_sreq_def)
  then have 1: "?S ?r1 []" by (intro served_decode [OF served_new]) (simp_all add: demo_sreq_def req_finished_def)
  have "stream_output_req 1 50 ?r1 = Inr (Some ?c1, ?r2)" by (simp add: defs)
  then have 2: "?S ?r2 [?c1]" using served_stream [OF 1] by fastforce
  have e: "ends_at ?r2 t \<longleftrightarrow> t = 0" for t by (auto simp: ends_at_def is_stop_token_def demo_sreq_def)
  have "process_decode_req demo_grammar (\<lambda>p t. False) None True (Accepted [0, 8]) ?r2 = Inr ?r3"
    by (subst process_plain [OF p(2) tokens_of.simps(2) _ _ refl refl])
      (simp_all add: e reason_with_def, simp_all add: demo_sreq_def)
  then have 3: "?S ?r3 [?c1]" by (intro served_decode [OF 2]) (simp_all add: demo_sreq_def req_finished_def)
  have "stream_output_req 1 50 ?r3 = Inr (Some \<lparr>ch_reason = Some (FINISH_MATCHED_TOKEN 0), ch_decode_ids = [0],
      ch_read_offset = 5, ch_output_ids = [0]\<rparr>, ?r3\<lparr>sq_finished_output := True,
        sq_surr_and_decode_ids := [3, 4, 5, 6, 7, 8, 0], sq_cur_decode_ids_len := 2,
        sq_send_decode_id_offset := 7, sq_send_token_offset := 2\<rparr>)"
    by (simp add: defs)
  from served_stream [OF 3 this] show ?thesis
    by (simp add: demo_sreq_def demo_final_def demo_chunks_def)
qed

theorem streamed_chunks_are_the_output_witness:
  "served demo_grammar (\<lambda>p t. False) None True 1 50 (demo_sreq []) demo_final demo_chunks \<and>
    sent_output demo_chunks = output_ids_through_stop demo_final \<and> sent_output demo_chunks = [8, 0] \<and>
    sq_output_ids demo_final = [8, 0, 8]"
proof -
  have "new_req (demo_sreq [])" "sq_finished_output demo_final" "sent_output demo_chunks = [8, 0]" "sq_output_ids demo_final = [8, 0, 8]"
    by (simp_all add: new_req_def demo_sreq_def demo_final_def demo_chunks_def sent_output_def)
  with streamed_chunks_are_the_output [OF demo_serving] show ?thesis using demo_serving by simp
qed

end
