(* ===== verification/Dflash_Verify.thy ===== *)
theory Dflash_Verify
  imports Spec_Tree_Verify Spec_Kernels Req_Output
begin

text \<open>
  The verification side of DFlash: the acceptance rule and the cached chain buffers of
  \<open>srt/speculative/dflash_utils.py\<close>, and the batch state of \<open>srt/speculative/dflash_info.py\<close>: the draft
  input that is filtered and merged with its batch, and \<open>DFlashVerifyInput.verify\<close>, which appends accepted
  tokens, frees the slots of rejected ones and advances the lengths.
\<close>

section \<open>The acceptance rule\<close>

fun cumprod :: "int list \<Rightarrow> int \<Rightarrow> int list" where
  "cumprod [] acc = []"
| "cumprod (x # xs) acc = acc * x # cumprod xs (acc * x)"

definition accept_len_row :: "int list \<Rightarrow> int list \<Rightarrow> int" where
  "accept_len_row cand tgt =
     sum_list (cumprod (map2 (\<lambda>c t. if c = t then 1 else 0) (drop 1 cand) (butlast tgt)) 1)"

text \<open>A tensor of two dimensions is a list of rows of one length, its second dimension.\<close>

definition compute_dflash_accept_len_and_bonus ::
  "nat \<Rightarrow> int list list \<Rightarrow> int list list \<Rightarrow> (int list \<times> int list) py" where
  "compute_dflash_accept_len_and_bonus block_size candidates target_predict =
     (if length target_predict \<noteq> length candidates \<or> (\<exists>r \<in> set target_predict. length r \<noteq> block_size)
      then Inl ValueError
      else if length candidates \<le> 0 then Inl ValueError
      else if block_size \<le> 0 then Inl ValueError
      else (let accept_len = map2 accept_len_row candidates target_predict
            in Inr (accept_len, map2 (\<lambda>t a. t ! nat a) target_predict accept_len)))"

section \<open>The cached chain buffers\<close>

text \<open>The buffers of one device and width; of uninitialised tensors the number of elements (rows).\<close>

record chain_buffers =
  cap_bs :: nat
  cb_retrieve_index :: "int list list"
  cb_next_token :: "int list list"
  cb_next_sibling :: "int list list"
  cb_predicts :: nat
  cb_accept_index :: nat
  cb_accept_num :: nat

type_synonym chain_cache = "int option \<times> nat \<Rightarrow> chain_buffers option"

definition get_or_create_chain_verify_buffers ::
  "chain_cache \<Rightarrow> nat \<Rightarrow> nat \<Rightarrow> int option \<Rightarrow> (chain_buffers \<times> chain_cache) py" where
  "get_or_create_chain_verify_buffers cache bs n device =
     (let key = (device, n);
          cached = cache key;
          cap = (case cached of None \<Rightarrow> 0 | Some c \<Rightarrow> cap_bs c)
      in py_bind
          (if cap < bs
           then (let new_cap = max bs (if cap > 0 then cap * 2 else bs)
                 in py_bind (py_set (map int [1..<Suc n]) (-1) (-1)) (\<lambda>row_next.
                    let c = \<lparr>cap_bs = new_cap,
                       cb_retrieve_index = index_rows new_cap n,
                       cb_next_token = replicate new_cap row_next,
                       cb_next_sibling = replicate new_cap (replicate n (-1)),
                       cb_predicts = new_cap * n, cb_accept_index = new_cap, cb_accept_num = new_cap\<rparr>
                    in Inr (Some c, cache(key \<mapsto> c))))
           else Inr (cached, cache))
          (\<lambda>(cached', cache').
             case cached' of None \<Rightarrow> Inl AssertionError
             | Some c \<Rightarrow>
               Inr (\<lparr>cap_bs = cap_bs c,
                     cb_retrieve_index = take bs (cb_retrieve_index c),
                     cb_next_token = take bs (cb_next_token c),
                     cb_next_sibling = take bs (cb_next_sibling c),
                     cb_predicts = min (bs * n) (cb_predicts c),
                     cb_accept_index = min bs (cb_accept_index c),
                     cb_accept_num = min bs (cb_accept_num c)\<rparr>, cache')))"

section \<open>Slots to keep\<close>

definition compute_paged_keep_slots :: "int list \<Rightarrow> int list \<Rightarrow> int \<Rightarrow> int \<Rightarrow> int list py" where
  "compute_paged_keep_slots prefix_lens commit_lens draft_token_num ps =
     (if ps \<le> 1 then Inl ValueError
      else Inr (map2 (\<lambda>p c.
             let extended_len = p + draft_token_num;
                 new_len = p + c;
                 aligned_new_len = (new_len + ps - 1) div ps * ps;
                 keep_len = min aligned_new_len extended_len
             in min (max (keep_len - p) 0) draft_token_num) prefix_lens commit_lens))"

section \<open>The draft input of a batch\<close>

text \<open>\<open>target_hidden\<close> holds one feature row per context token; \<open>None\<close> is no tensor.\<close>

record 'h dflash_draft_input =
  verified_id :: "int list"
  target_hidden :: "'h list option"
  ctx_lens :: "int list"
  draft_seq_lens :: "int list"

definition gather :: "'a list \<Rightarrow> int list \<Rightarrow> 'a list py" where
  "gather xs idxs = py_for (\<lambda>i acc. py_bind (py_index xs i) (\<lambda>v. Inr (acc @ [v]))) idxs []"

definition filter_batch :: "int list \<Rightarrow> 'h dflash_draft_input \<Rightarrow> 'h dflash_draft_input py" where
  "filter_batch new_indices d =
     py_bind (gather (verified_id d) new_indices) (\<lambda>vid.
     py_bind (gather (ctx_lens d) new_indices) (\<lambda>cl.
     py_bind (gather (draft_seq_lens d) new_indices) (\<lambda>dsl.
     let d1 = d\<lparr>verified_id := vid, ctx_lens := cl, draft_seq_lens := dsl\<rparr>
     in case target_hidden d of None \<Rightarrow> Inr d1
        | Some [] \<Rightarrow> Inr d1
        | Some old \<Rightarrow>
          (let start = take (length (ctx_lens d)) (0 # cumsum (ctx_lens d))
           in py_bind (gather start new_indices) (\<lambda>seg_starts.
              (let max_len = (if cl = [] then 0 else Max (set cl))
               in if max_len \<le> 0 then Inr (d1\<lparr>target_hidden := Some []\<rparr>)
                  else (let flat_pos = concat (map2 (\<lambda>s l. map (\<lambda>r. s + int r)
                                (filter (\<lambda>r. int r < l) [0..<nat max_len])) seg_starts cl)
                        in if flat_pos = [] then Inr (d1\<lparr>target_hidden := Some []\<rparr>)
                           else py_bind (gather old flat_pos) (\<lambda>h. Inr (d1\<lparr>target_hidden := Some h\<rparr>)))))))))"

definition merge_batch :: "'h dflash_draft_input \<Rightarrow> 'h dflash_draft_input \<Rightarrow> 'h dflash_draft_input" where
  "merge_batch d e =
     (let d1 = d\<lparr>verified_id := verified_id d @ verified_id e, ctx_lens := ctx_lens d @ ctx_lens e,
                 draft_seq_lens := draft_seq_lens d @ draft_seq_lens e\<rparr>
      in case target_hidden d of
           None \<Rightarrow> d1\<lparr>target_hidden := target_hidden e\<rparr>
         | Some [] \<Rightarrow> d1\<lparr>target_hidden := target_hidden e\<rparr>
         | Some h \<Rightarrow> (case target_hidden e of None \<Rightarrow> d1 | Some [] \<Rightarrow> d1
                      | Some h' \<Rightarrow> d1\<lparr>target_hidden := Some (h @ h')\<rparr>))"

section \<open>Verification of a batch\<close>

text \<open>The parts of a request that verification reads and writes: what decides its end (\<open>Req_Output\<close>), and its accounting.\<close>

record 'g dreq =
  dr_req :: "'g sreq"
  origin_input_ids :: "int list"
  kv_committed_len :: int
  kv_allocated_len :: int
  spec_verify_ct :: int
  spec_accepted_drafts :: int

record ('g, 'al) dbatch =
  reqs :: "'g dreq list"
  seq_lens :: "int list"
  seq_lens_cpu :: "int list"
  seq_lens_sum :: int
  out_cache_loc :: "int list"
  req_pool_indices :: "int list"
  req_to_token :: mem
  pool_len :: int
  allocator :: 'al

text \<open>
  The loop over the proposed tokens: append, \<open>check_finished\<close>, and stop when the request is finished; otherwise the grammar
  accepts the token, and an error of it is not caught.
\<close>

definition grammar_accept :: "'g grammar_ops \<Rightarrow> int \<Rightarrow> 'g sreq \<Rightarrow> 'g sreq py" where
  "grammar_accept G t r =
     (case sq_grammar r of None \<Rightarrow> Inr r
      | Some g \<Rightarrow> (case accept_token G g t of (Some e, _) \<Rightarrow> Inl e | (None, g') \<Rightarrow> Inr (r\<lparr>sq_grammar := Some g'\<rparr>)))"

fun append_proposed ::
  "'g grammar_ops \<Rightarrow> (string \<Rightarrow> string \<Rightarrow> bool) \<Rightarrow> int list \<Rightarrow> 'g sreq \<Rightarrow> nat \<Rightarrow> (nat \<times> 'g sreq) py" where
  "append_proposed G re_search [] r appended = Inr (appended, r)"
| "append_proposed G re_search (t # ts) r appended =
     py_bind (check_finished G re_search 1 (r\<lparr>sq_output_ids := sq_output_ids r @ [t]\<rparr>)) (\<lambda>r1.
     if req_finished r1 then Inr (Suc appended, r1)
     else py_bind (grammar_accept G t r1) (\<lambda>r2. append_proposed G re_search ts r2 (Suc appended)))"

definition verify_req ::
  "'g grammar_ops \<Rightarrow> (string \<Rightarrow> string \<Rightarrow> bool) \<Rightarrow> int list \<Rightarrow> int \<Rightarrow> int \<Rightarrow> 'g dreq \<Rightarrow> (nat \<times> int \<times> 'g dreq) py" where
  "verify_req G re_search cand acc_len bonus r =
     py_bind (append_proposed G re_search (take (nat acc_len) (drop 1 cand) @ [bonus]) (dr_req r) 0) (\<lambda>(appended, q).
     py_bind (if sq_output_ids q \<noteq> [] then Inr (last (sq_output_ids q))
              else if origin_input_ids r \<noteq> [] then Inr (last (origin_input_ids r))
              else Inl RuntimeError) (\<lambda>tok.
     Inr (appended, tok,
          r\<lparr>dr_req := q, spec_verify_ct := spec_verify_ct r + 1,
             spec_accepted_drafts := spec_accepted_drafts r + max 0 (int appended - 1)\<rparr>)))"

fun verify_reqs ::
  "'g grammar_ops \<Rightarrow> (string \<Rightarrow> string \<Rightarrow> bool) \<Rightarrow> int list list \<Rightarrow> int list \<Rightarrow> int list \<Rightarrow> 'g dreq list \<Rightarrow> (nat \<times> int \<times> 'g dreq) list py" where
  "verify_reqs G re_search (c # cs) (a # as) (b # bs) (r # rs) =
     py_bind (verify_req G re_search c a b r) (\<lambda>x. py_bind (verify_reqs G re_search cs as bs rs) (\<lambda>xs. Inr (x # xs)))"
| "verify_reqs G re_search _ _ _ _ = Inr []"

text \<open>\<open>tensor.view(bs, n)\<close> of a flat list.\<close>

definition view_rows :: "nat \<Rightarrow> nat \<Rightarrow> 'a list \<Rightarrow> 'a list list" where
  "view_rows bs n xs = map (\<lambda>b. take n (drop (b * n) xs)) [0..<bs]"

record dflash_result =
  new_verified_id :: "int list"
  commit_lens :: "nat list"
  num_accepted_drafts :: "int list"

text \<open>
  \<open>verify\<close> from the verdict of the acceptance rule on. \<open>free\<close> is the allocator's \<open>free\<close>; \<open>order\<close> the order of the
  program instances that write the table.
\<close>

definition dflash_verify ::
  "('al \<Rightarrow> int list \<Rightarrow> 'al) \<Rightarrow> nat list \<Rightarrow> 'g grammar_ops \<Rightarrow> (string \<Rightarrow> string \<Rightarrow> bool) \<Rightarrow> nat \<Rightarrow> int \<Rightarrow> int list \<Rightarrow>
   (int list \<times> int list) py \<Rightarrow> 'h list list option \<Rightarrow> ('g, 'al) dbatch \<Rightarrow> (dflash_result \<times> 'h list \<times> ('g, 'al) dbatch) py" where
  "dflash_verify free order G re_search n ps draft_token verdict hidden B =
     (let bs = length (reqs B);
          candidates = view_rows bs n draft_token
      in py_bind verdict (\<lambda>(accept_len, bonus).
         py_bind (verify_reqs G re_search candidates accept_len bonus (reqs B)) (\<lambda>res.
         (let commit = map fst res;
              rows = view_rows bs n (out_cache_loc B)
          in py_bind (if ps = 1
               then Inr (free (allocator B) (concat (map2 (\<lambda>row c. drop c row) rows commit)))
               else py_bind (compute_paged_keep_slots (seq_lens B) (map int commit) (int n) ps) (\<lambda>keep.
                    Inr (free (allocator B) (concat (map2 (\<lambda>row k. drop (nat k) row) rows keep))))) (\<lambda>al.
             (let out = concat (map2 (\<lambda>row c. take c row) rows commit);
                  rs = map (\<lambda>(c, t, r). r\<lparr>kv_committed_len := kv_committed_len r + int c,
                                          kv_allocated_len := kv_committed_len r + int c\<rparr>) res;
                  end_offset = map2 (\<lambda>s c. s + int c) (seq_lens B) commit;
                  r2t = assign_req_to_token_pool_func (req_pool_indices B) (seq_lens B) end_offset out (pool_len B)
                          bs order (req_to_token B);
                  B' = B\<lparr>reqs := rs, out_cache_loc := out, allocator := al, req_to_token := r2t,
                         seq_lens := end_offset,
                         seq_lens_cpu := map2 (\<lambda>s c. s + int c) (seq_lens_cpu B) commit,
                         seq_lens_sum := seq_lens_sum B + sum_list (map int commit)\<rparr>
              in case hidden of None \<Rightarrow> Inl RuntimeError
                 | Some h \<Rightarrow>
                   Inr (\<lparr>new_verified_id = map (\<lambda>(c, t, r). t) res, commit_lens = commit,
                         num_accepted_drafts = map (\<lambda>(c, t, r). max 0 (int c - 1)) res\<rparr>,
                        concat (map2 (\<lambda>row c. take c row) h commit), B')))))))"

text \<open>The causal mask that \<open>prepare_for_verify\<close> builds: one row per query position and request.\<close>

definition dflash_custom_mask :: "int list \<Rightarrow> int \<Rightarrow> bool list py" where
  "dflash_custom_mask prefix_lens draft_token_num =
     (if draft_token_num \<le> 0 then Inl ValueError
      else Inr (concat (map (\<lambda>prefix_len. concat (map (\<lambda>q. map (\<lambda>k. int k \<le> prefix_len + int q)
                  [0..<nat (prefix_len + draft_token_num)]) [0..<nat draft_token_num])) prefix_lens)))"

section \<open>The acceptance rule counts the matching prefix\<close>

lemma sum_cumprod_0: "sum_list (cumprod xs 0) = 0"
  by (induction xs) simp_all

lemma sum_cumprod:
  "sum_list (cumprod (map (\<lambda>x. if P x then 1 else 0) xs) 1) = int (length (takeWhile P xs))"
  by (induction xs) (simp_all add: sum_cumprod_0)

lemma accept_len_row_match:
  assumes "length cand = n" "length tgt = n" "0 < n"
  shows "accept_len_row cand tgt = int (match_len n cand tgt)"
proof -
  let ?P = "\<lambda>i. cand ! i = tgt ! (i - 1)"
  have "map2 (\<lambda>c t. if c = t then 1 else 0 :: int) (drop 1 cand) (butlast tgt) =
      map (\<lambda>i. if ?P i then 1 else 0) [1..<n]"
    using assms by (intro nth_equalityI) (auto simp: nth_butlast)
  then show ?thesis unfolding accept_len_row_def match_len_def using sum_cumprod [of ?P "[1..<n]"] by simp
qed

lemma matching_prefix:
  assumes "0 < n" "1 \<le> i" "i \<le> match_len n cand tgt"
  shows "cand ! i = tgt ! (i - 1)"
proof -
  let ?P = "\<lambda>i. cand ! i = tgt ! (i - 1)"
  have l: "match_len n cand tgt < n" by (rule match_len_less [OF assms(1)])
  have "i \<in> set (take (match_len n cand tgt) [1..<n])"
    using assms l by (auto simp: in_set_conv_nth intro!: exI [of _ "i - 1"])
  then have "i \<in> set (takeWhile ?P [1..<n])" unfolding match_len_def by (simp add: takeWhile_eq_take [symmetric])
  then show ?thesis by (auto dest: set_takeWhileD)
qed

lemma proposed_is_target:
  assumes "length cand = n" "length tgt = n" "0 < n" "l = match_len n cand tgt"
  shows "take l (drop 1 cand) @ [tgt ! l] = map (\<lambda>x. tgt ! x) [0..<Suc l]"
proof -
  have l: "l < n" using match_len_less [OF assms(3)] assms(4) by simp
  have "take l (drop 1 cand) = map (\<lambda>x. tgt ! x) [0..<l]"
    using assms l matching_prefix [OF assms(3), of "Suc _" cand tgt] by (intro nth_equalityI) auto
  then show ?thesis by simp
qed

lemma proposed_is_greedy:
  assumes "length cand = n" "length tgt = n" "0 < n" "l = match_len n cand tgt"
    and "\<forall>t < n. tgt ! t = model (ctx @ take (Suc t) cand)"
  shows "take l (drop 1 cand) @ [tgt ! l] = greedy_decode model (ctx @ [cand ! 0]) (Suc l)"
proof -
  have pt: "path_tokens (\<lambda>i. i - 1) cand t = take (Suc t) cand" if "t < n" for t
    using that
  proof (induction t)
    case 0
    then show ?case using assms(1) by (cases cand) (simp_all add: path_tokens.simps)
  next
    case (Suc t)
    then show ?case using assms(1) by (simp add: path_tokens.simps [of _ _ "Suc t"] take_Suc_conv_app_nth)
  qed
  have "map (\<lambda>x. tgt ! x) (0 # accept_path (children n (\<lambda>i. i - 1)) cand tgt (n - 1) 0) =
      greedy_decode model (ctx @ path_tokens (\<lambda>i. i - 1) cand 0)
        (Suc (length (accept_path (children n (\<lambda>i. i - 1)) cand tgt (n - 1) 0)))"
    using assms pt by (intro path_is_chain) auto
  moreover have "accept_path (children n (\<lambda>i. i - 1)) cand tgt (n - 1) 0 = [1..<Suc l]"
    using chain_greedy_path [OF assms(3), of cand tgt] assms(4) by (simp add: greedy_path_def)
  moreover have "path_tokens (\<lambda>i. i - 1) cand 0 = [cand ! 0]" by (simp add: path_tokens.simps)
  moreover have u: "[0..<Suc l] = 0 # [1..<Suc l]" by (simp add: upt_conv_Cons del: upt_Suc)
  ultimately show ?thesis unfolding proposed_is_target [OF assms(1-4)] u by (simp del: upt_Suc)
qed

lemma accept_result:
  assumes "0 < n" "0 < length cands" "length tgts = length cands"
    "\<forall>r \<in> set tgts. length r = n" "\<forall>r \<in> set cands. length r = n"
  shows "compute_dflash_accept_len_and_bonus n cands tgts =
    Inr (map (\<lambda>i. int (match_len n (cands ! i) (tgts ! i))) [0..<length cands],
         map (\<lambda>i. tgts ! i ! match_len n (cands ! i) (tgts ! i)) [0..<length cands])"
proof -
  have "map2 accept_len_row cands tgts = map (\<lambda>i. int (match_len n (cands ! i) (tgts ! i))) [0..<length cands]"
    using assms by (intro nth_equalityI) (auto simp: accept_len_row_match)
  moreover have "map2 (\<lambda>t a. t ! nat a) tgts (map (\<lambda>i. int (match_len n (cands ! i) (tgts ! i))) [0..<length cands]) =
      map (\<lambda>i. tgts ! i ! match_len n (cands ! i) (tgts ! i)) [0..<length cands]"
    using assms by (intro nth_equalityI) auto
  moreover have "\<not> (length tgts \<noteq> length cands \<or> (\<exists>r \<in> set tgts. length r \<noteq> n))" using assms by auto
  ultimately show ?thesis using assms by (simp add: compute_dflash_accept_len_and_bonus_def Let_def)
qed

section \<open>Appending the proposed tokens\<close>

text \<open>
  How many proposed tokens a request takes: at least one, all of them unless it finishes, and its output grows by as many.
\<close>

lemma grammar_accept_keeps:
  "grammar_accept G t r = Inr r' \<Longrightarrow> sq_output_ids r' = sq_output_ids r \<and> req_finished r' = req_finished r"
  by (auto simp: grammar_accept_def req_finished_def split: option.splits prod.splits)

lemma append_proposed_bounds:
  "append_proposed G re_search ts r k = Inr (m, r') \<Longrightarrow>
     k \<le> m \<and> m \<le> k + length ts \<and> (ts \<noteq> [] \<longrightarrow> k < m) \<and> (m < k + length ts \<longrightarrow> req_finished r') \<and>
     length (sq_output_ids r') = length (sq_output_ids r) + (m - k)"
proof (induction ts arbitrary: r k)
  case (Cons t ts)
  let ?r = "r\<lparr>sq_output_ids := sq_output_ids r @ [t]\<rparr>"
  obtain r1 where c: "check_finished G re_search 1 ?r = Inr r1" using Cons.prems by (auto simp: py_bind_eq_Inr)
  have l: "length (sq_output_ids r1) = Suc (length (sq_output_ids r))" using check_finished_length [OF c] by simp
  show ?case
  proof (cases "req_finished r1")
    case True
    then show ?thesis using Cons.prems c l by auto
  next
    case False
    then obtain r2 where g: "grammar_accept G t r1 = Inr r2" and a: "append_proposed G re_search ts r2 (Suc k) = Inr (m, r')"
      using Cons.prems c by (auto simp: py_bind_eq_Inr)
    then show ?thesis using Cons.IH [OF a] grammar_accept_keeps [OF g] l by auto
  qed
qed auto

text \<open>Without a grammar the loop is decoding one token at a time (\<open>DFlashVerifyInput.verify\<close> counts no reasoning tokens).\<close>

lemma append_proposed_each:
  "sq_grammar r = None \<Longrightarrow> map_sum id snd (append_proposed G re_search ts r k) = process_each G re_search None False ts r"
proof (induction ts arbitrary: r k)
  case (Cons t ts)
  let ?r = "r\<lparr>sq_output_ids := sq_output_ids r @ [t]\<rparr>"
  have p: "process_decode_req G re_search None False (OneToken t) r = check_finished G re_search 1 ?r"
    using process_one_plain [OF Cons.prems, of G re_search None t] by (simp add: reason_with_def)
  show ?case
  proof (cases "check_finished G re_search 1 ?r")
    case (Inr r1)
    then have g: "sq_grammar r1 = None" using check_finished_grammar [OF Inr] Cons.prems by simp
    then show ?thesis using Inr p Cons.IH [OF g] by (simp add: grammar_accept_def)
  qed (simp add: p)
qed simp

lemma verify_req_ok:
  fixes cand :: "int list"
  assumes v: "verify_req G re_search cand acc bonus r = Inr (m, tok, r')" and ts: "ts = take (nat acc) (drop 1 cand) @ [bonus]"
  shows "1 \<le> m \<and> m \<le> length ts \<and> (m < length ts \<longrightarrow> req_finished (dr_req r')) \<and>
    length (sq_output_ids (dr_req r')) = length (sq_output_ids (dr_req r)) + m \<and> tok = last (sq_output_ids (dr_req r')) \<and>
    kv_committed_len r' = kv_committed_len r \<and> spec_verify_ct r' = spec_verify_ct r + 1 \<and>
    spec_accepted_drafts r' = spec_accepted_drafts r + int (m - 1)"
proof -
  obtain q where a: "append_proposed G re_search ts (dr_req r) 0 = Inr (m, q)" and
    r': "(if sq_output_ids q \<noteq> [] then Inr (last (sq_output_ids q)) else if origin_input_ids r \<noteq> [] then Inr (last (origin_input_ids r))
      else Inl RuntimeError) = Inr tok" "r' = r\<lparr>dr_req := q, spec_verify_ct := spec_verify_ct r + 1, spec_accepted_drafts := spec_accepted_drafts r + max 0 (int m - 1)\<rparr>"
    using v unfolding verify_req_def ts [symmetric] by (auto simp: py_bind_eq_Inr split: prod.splits)
  have b: "1 \<le> m" "m \<le> length ts" "m < length ts \<longrightarrow> req_finished q" "length (sq_output_ids q) = length (sq_output_ids (dr_req r)) + m"
    using append_proposed_bounds [OF a] ts by auto
  then have "sq_output_ids q \<noteq> []" by auto
  then show ?thesis using b r' by (simp add: of_nat_diff)
qed

lemma verify_req_each:
  assumes "sq_grammar (dr_req r) = None"
  shows "map_sum id (\<lambda>(m, tok, r'). dr_req r') (verify_req G re_search cand acc bonus r) =
    process_each G re_search None False (take (nat acc) (drop 1 cand) @ [bonus]) (dr_req r)"
proof -
  let ?ts = "take (nat acc) (drop 1 cand) @ [bonus]"
  note e = append_proposed_each [OF assms, of G re_search ?ts 0]
  show ?thesis
  proof (cases "append_proposed G re_search ?ts (dr_req r) 0")
    case (Inr mq)
    obtain m q where mq: "mq = (m, q)" by force
    have "sq_output_ids q \<noteq> []" using append_proposed_bounds [OF Inr [unfolded mq]] by auto
    then show ?thesis using e Inr mq by (simp add: verify_req_def)
  qed (use e in \<open>simp add: verify_req_def\<close>)
qed

section \<open>Batches as lists of requests\<close>

text \<open>
  What a draft input is about: per request its current token, the context rows that are still to be
  appended to the draft cache, and its draft length.
\<close>

definition segments :: "int list \<Rightarrow> 'h list \<Rightarrow> 'h list list" where
  "segments lens hs = map (\<lambda>i. take (nat (lens ! i)) (drop (nat (seg_start lens i)) hs)) [0..<length lens]"

definition draft_ok :: "'h dflash_draft_input \<Rightarrow> bool" where
  "draft_ok d \<longleftrightarrow> length (verified_id d) = length (ctx_lens d) \<and> length (draft_seq_lens d) = length (ctx_lens d) \<and>
     (\<forall>l \<in> set (ctx_lens d). 0 \<le> l) \<and>
     int (length (case target_hidden d of None \<Rightarrow> [] | Some h \<Rightarrow> h)) = sum_list (ctx_lens d)"

definition draft_reqs :: "'h dflash_draft_input \<Rightarrow> (int \<times> 'h list \<times> int) list" where
  "draft_reqs d = zip (verified_id d)
     (zip (segments (ctx_lens d) (case target_hidden d of None \<Rightarrow> [] | Some h \<Rightarrow> h)) (draft_seq_lens d))"

lemma length_segments [simp]: "length (segments lens hs) = length lens"
  by (simp add: segments_def)

lemma length_draft_reqs: "draft_ok d \<Longrightarrow> length (draft_reqs d) = length (ctx_lens d)"
  by (simp add: draft_reqs_def draft_ok_def)

lemma gather_ok:
  assumes "\<forall>i \<in> set idxs. i < length xs"
  shows "gather xs (map int idxs) = Inr (map (\<lambda>i. xs ! i) idxs)"
proof -
  have "py_for (\<lambda>i acc. py_bind (py_index xs i) (\<lambda>v. Inr (acc @ [v]))) (map int idxs) acc =
      Inr (acc @ map (\<lambda>i. xs ! i) idxs)" for acc
    using assms by (induction idxs arbitrary: acc) auto
  from this [of "[]"] show ?thesis by (simp add: gather_def)
qed

lemma segment_length:
  assumes "\<forall>l \<in> set lens. 0 \<le> l" "int (length hs) = sum_list lens" "i < length lens"
  shows "length (segments lens hs ! i) = nat (lens ! i)" "seg_start lens i + lens ! i \<le> int (length hs)" "0 \<le> seg_start lens i"
proof -
  show nn: "0 \<le> seg_start lens i" using seg_start_mono [OF assms(1), of 0 i] by (simp add: seg_start_def)
  have "seg_start lens (Suc i) \<le> seg_start lens (length lens)" using seg_start_mono [OF assms(1)] assms(3) by simp
  then show le: "seg_start lens i + lens ! i \<le> int (length hs)"
    using seg_start_Suc [OF assms(3)] assms(2) by (simp add: seg_start_def)
  show "length (segments lens hs ! i) = nat (lens ! i)" using assms(3) nn le by (simp add: segments_def)
qed

lemma concat_segments:
  assumes "\<forall>l \<in> set lens. 0 \<le> l" "int (length hs) = sum_list lens"
  shows "concat (segments lens hs) = hs"
proof -
  have "concat (map (\<lambda>i. take (nat (lens ! i)) (drop (nat (seg_start lens i)) hs)) [0..<k]) =
      take (nat (seg_start lens k)) hs" if "k \<le> length lens" for k
    using that
  proof (induction k)
    case (Suc k)
    then have k: "k < length lens" by simp
    have "0 \<le> lens ! k" using assms(1) k by simp
    then have "nat (seg_start lens (Suc k)) = nat (seg_start lens k) + nat (lens ! k)"
      using seg_start_Suc [OF k] segment_length(3) [OF assms k] by (simp add: nat_add_distrib)
    then show ?case using Suc by (simp add: take_add)
  qed (simp add: seg_start_def)
  moreover have "nat (seg_start lens (length lens)) = length hs" using assms(2) [symmetric] by (simp add: seg_start_def)
  ultimately show ?thesis by (simp add: segments_def)
qed

lemma segments_concat:
  assumes "\<forall>i < length xss. length (xss ! i) = nat (lens ! i)" "length lens = length xss" "\<forall>l \<in> set lens. 0 \<le> l"
  shows "segments lens (concat xss) = xss"
proof (rule nth_equalityI)
  fix i assume "i < length (segments lens (concat xss))"
  then have i: "i < length xss" using assms(2) by simp
  have st: "nat (seg_start lens k) = length (concat (take k xss))" if "k \<le> length xss" for k
    using that
  proof (induction k)
    case (Suc k)
    then have k: "k < length lens" using assms(2) by simp
    have "0 \<le> seg_start lens k" "0 \<le> lens ! k"
      using seg_start_mono [OF assms(3), of 0 k] assms(3) k by (simp_all add: seg_start_def)
    then show ?case using Suc assms(1,2) seg_start_Suc [OF k]
      by (simp add: nat_add_distrib take_Suc_conv_app_nth)
  qed (simp add: seg_start_def)
  have "concat xss = concat (take i xss) @ xss ! i @ concat (drop (Suc i) xss)"
    using i by (metis append_take_drop_id concat.simps(2) concat_append Cons_nth_drop_Suc)
  then show "segments lens (concat xss) ! i = xss ! i"
    using i assms(1,2) st [of i] by (simp add: segments_def)
qed (use assms(2) in simp)

lemma filter_positions:
  assumes nn: "0 \<le> s" "0 \<le> l" "l \<le> M" "s + l \<le> int (length old)"
  shows "gather old (map (\<lambda>r. s + int r) (filter (\<lambda>r. int r < l) [0..<nat M])) =
    Inr (take (nat l) (drop (nat s) old))"
    and "map (\<lambda>r. s + int r) (filter (\<lambda>r. int r < l) [0..<nat M]) = map int [nat s..<nat s + nat l]"
proof -
  have "filter (\<lambda>r. int r < l) [0..<nat M] = [0..<nat l]"
  proof -
    have "[0..<nat M] = [0..<nat l] @ [nat l..<nat M]" using nn upt_add_eq_append [of 0 "nat l" "nat M - nat l"] by simp
    moreover have "filter (\<lambda>r. int r < l) [0..<nat l] = [0..<nat l]" by (rule filter_True) auto
    moreover have "filter (\<lambda>r. int r < l) [nat l..<nat M] = []" by (rule filter_False) auto
    ultimately show ?thesis by simp
  qed
  then show e: "map (\<lambda>r. s + int r) (filter (\<lambda>r. int r < l) [0..<nat M]) = map int [nat s..<nat s + nat l]"
    using nn by (intro nth_equalityI) auto
  have "gather old (map int [nat s..<nat s + nat l]) = Inr (map (\<lambda>i. old ! i) [nat s..<nat s + nat l])"
    using nn by (intro gather_ok) auto
  also have "map (\<lambda>i. old ! i) [nat s..<nat s + nat l] = take (nat l) (drop (nat s) old)"
    using nn by (intro nth_equalityI) auto
  finally show "gather old (map (\<lambda>r. s + int r) (filter (\<lambda>r. int r < l) [0..<nat M])) =
      Inr (take (nat l) (drop (nat s) old))" unfolding e .
qed

lemma filter_batch_hidden:
  fixes old :: "'h list"
  assumes lens: "\<forall>l \<in> set lens. 0 \<le> l" "int (length old) = sum_list lens" and idxs: "\<forall>i \<in> set idxs. i < length lens"
    and cl: "cl = map (\<lambda>i. lens ! i) idxs" and starts: "starts = map (seg_start lens) idxs"
    and M: "\<forall>l \<in> set cl. l \<le> M"
  shows "gather old (concat (map2 (\<lambda>s l. map (\<lambda>r. s + int r) (filter (\<lambda>r. int r < l) [0..<nat M])) starts cl)) =
    Inr (concat (map (\<lambda>i. segments lens old ! i) idxs))"
proof -
  let ?pos = "\<lambda>i. [nat (seg_start lens i)..<nat (seg_start lens i) + nat (lens ! i)]"
  have pos: "map (\<lambda>r. seg_start lens i + int r) (filter (\<lambda>r. int r < lens ! i) [0..<nat M]) = map int (?pos i)"
    if "i \<in> set idxs" for i
  proof (rule filter_positions(2))
    show "0 \<le> seg_start lens i" "seg_start lens i + lens ! i \<le> int (length old)"
      using segment_length [OF lens] idxs that by auto
    show "0 \<le> lens ! i" "lens ! i \<le> M" using lens(1) idxs M cl that by auto
  qed
  have "concat (map2 (\<lambda>s l. map (\<lambda>r. s + int r) (filter (\<lambda>r. int r < l) [0..<nat M])) starts cl) =
      map int (concat (map ?pos idxs))"
    unfolding starts cl using pos by (induction idxs) auto
  moreover have "gather old (map int (concat (map ?pos idxs))) = Inr (map (\<lambda>i. old ! i) (concat (map ?pos idxs)))"
  proof (rule gather_ok)
    have "j < length old" if "i \<in> set idxs" "j < nat (seg_start lens i) + nat (lens ! i)" for i j
    proof -
      have "i < length lens" "0 \<le> lens ! i" using idxs lens(1) that(1) by auto
      then show ?thesis using segment_length(2,3) [OF lens, of i] that(2) by linarith
    qed
    then show "\<forall>j \<in> set (concat (map ?pos idxs)). j < length old" by auto
  qed
  moreover have "map (\<lambda>i. old ! i) (?pos i) = segments lens old ! i" if "i \<in> set idxs" for i
    using segment_length [OF lens, of i] idxs that by (intro nth_equalityI) (auto simp: segments_def)
  then have "map (\<lambda>i. old ! i) (concat (map ?pos idxs)) = concat (map (\<lambda>i. segments lens old ! i) idxs)"
    by (induction idxs) auto
  ultimately show ?thesis by simp
qed


abbreviation hid :: "'h dflash_draft_input \<Rightarrow> 'h list" where
  "hid d \<equiv> (case target_hidden d of None \<Rightarrow> [] | Some h \<Rightarrow> h)"

lemma draft_okD:
  assumes "draft_ok d"
  shows "length (verified_id d) = length (ctx_lens d)" "length (draft_seq_lens d) = length (ctx_lens d)"
    "\<forall>l \<in> set (ctx_lens d). 0 \<le> l" "int (length (hid d)) = sum_list (ctx_lens d)"
  using assms by (simp_all add: draft_ok_def)

lemma draft_of_segments:
  assumes "length (verified_id d) = length xss" "length (draft_seq_lens d) = length xss"
    "ctx_lens d = map (\<lambda>xs. int (length xs)) xss" "hid d = concat xss"
  shows "draft_ok d \<and> draft_reqs d = zip (verified_id d) (zip xss (draft_seq_lens d))"
proof
  show "draft_ok d" using assms by (auto simp: draft_ok_def length_concat comp_def sum_list_of_nat [symmetric])
  have "segments (ctx_lens d) (hid d) = xss" unfolding assms(4) by (rule segments_concat) (auto simp: assms(3))
  then show "draft_reqs d = zip (verified_id d) (zip xss (draft_seq_lens d))" by (simp add: draft_reqs_def)
qed

lemma segments_lens:
  assumes "draft_ok d"
  shows "map (\<lambda>xs. int (length xs)) (segments (ctx_lens d) (hid d)) = ctx_lens d"
  using draft_okD [OF assms] segment_length(1) [OF draft_okD(3,4) [OF assms]]
  by (intro nth_equalityI) simp_all

lemma starts_eq: "i < length lens \<Longrightarrow> (take (length lens) (0 # cumsum lens)) ! i = seg_start lens i"
  by (cases i) (simp_all add: cumsum_nth seg_start_def)

lemma gather_Nil [simp]: "gather xs [] = Inr []"
  by (simp add: gather_def)

lemma filter_batch_eq:
  assumes ok: "draft_ok d" and idxs: "\<forall>i \<in> set idxs. i < length (ctx_lens d)"
  shows "\<exists>d'. filter_batch (map int idxs) d = Inr d' \<and>
    verified_id d' = map (\<lambda>i. verified_id d ! i) idxs \<and> ctx_lens d' = map (\<lambda>i. ctx_lens d ! i) idxs \<and>
    draft_seq_lens d' = map (\<lambda>i. draft_seq_lens d ! i) idxs \<and>
    hid d' = concat (map (\<lambda>i. segments (ctx_lens d) (hid d) ! i) idxs)"
proof -
  let ?cl = "map (\<lambda>i. ctx_lens d ! i) idxs" and ?segs = "map (\<lambda>i. segments (ctx_lens d) (hid d) ! i) idxs"
  let ?d1 = "d\<lparr>verified_id := map (\<lambda>i. verified_id d ! i) idxs, ctx_lens := ?cl,
               draft_seq_lens := map (\<lambda>i. draft_seq_lens d ! i) idxs\<rparr>"
  let ?starts = "map (seg_start (ctx_lens d)) idxs"
  note l = draft_okD [OF ok]
  have len: "length (segments (ctx_lens d) (hid d) ! i) = nat (ctx_lens d ! i)" if "i \<in> set idxs" for i
    using segment_length(1) [OF l(3,4)] idxs that by blast
  have g: "gather (verified_id d) (map int idxs) = Inr (map (\<lambda>i. verified_id d ! i) idxs)"
    "gather (ctx_lens d) (map int idxs) = Inr ?cl"
    "gather (draft_seq_lens d) (map int idxs) = Inr (map (\<lambda>i. draft_seq_lens d ! i) idxs)"
    using idxs l by (simp_all add: gather_ok)
  show ?thesis
  proof (cases "hid d = []")
    case True
    have "concat ?segs = []" using True idxs by (auto simp: segments_def)
    moreover have "filter_batch (map int idxs) d = Inr ?d1"
      using True by (auto simp: filter_batch_def g split: option.splits list.splits)
    ultimately show ?thesis using True by (intro exI [of _ ?d1]) simp
  next
    case False
    then obtain x xs where old: "target_hidden d = Some (x # xs)" by (cases "target_hidden d"; cases "hid d") auto
    let ?M = "if ?cl = [] then 0 else Max (set ?cl)"
    have st: "gather (take (length (ctx_lens d)) (0 # cumsum (ctx_lens d))) (map int idxs) = Inr ?starts"
      using idxs starts_eq by (subst gather_ok) (auto simp: cumsum_def)
    let ?flat = "concat (map2 (\<lambda>s l. map (\<lambda>r. s + int r) (filter (\<lambda>r. int r < l) [0..<nat ?M])) ?starts ?cl)"
    have pos: "gather (hid d) ?flat = Inr (concat ?segs)"
      using idxs by (intro filter_batch_hidden [OF l(3,4)]) auto
    have small: "concat ?segs = []" if "?M \<le> 0"
    proof -
      have "ctx_lens d ! i \<le> 0" if i: "i \<in> set idxs" for i
      proof -
        have "ctx_lens d ! i \<le> Max (set ?cl)" "?cl \<noteq> []" using i by (auto intro!: Max_ge)
        then show ?thesis using \<open>?M \<le> 0\<close> i by simp
      qed
      then show ?thesis using len by simp
    qed
    show ?thesis
    proof (cases "concat ?segs = []")
      case True
      then have "filter_batch (map int idxs) d = Inr (?d1\<lparr>target_hidden := Some []\<rparr>)"
        using old pos st by (auto simp: filter_batch_def g Let_def)
      then show ?thesis unfolding True by (intro exI [of _ "?d1\<lparr>target_hidden := Some []\<rparr>"]) simp
    next
      case False
      then have M: "\<not> ?M \<le> 0" using small by blast
      have ne: "?flat \<noteq> []"
      proof
        assume "?flat = []"
        from pos [unfolded this] show False using False by simp
      qed
      have "filter_batch (map int idxs) d = Inr (?d1\<lparr>target_hidden := Some (concat ?segs)\<rparr>)"
        using old pos st ne M
        by (simp add: filter_batch_def g Let_def del: concat_eq_Nil_conv Max_le_iff cong: if_cong)
      then show ?thesis by (intro exI [of _ "?d1\<lparr>target_hidden := Some (concat ?segs)\<rparr>"]) simp
    qed
  qed
qed

lemma filter_batch_reqs:
  assumes ok: "draft_ok d" and idxs: "\<forall>i \<in> set idxs. i < length (draft_reqs d)"
  shows "\<exists>d'. filter_batch (map int idxs) d = Inr d' \<and> draft_ok d' \<and>
    draft_reqs d' = map (\<lambda>i. draft_reqs d ! i) idxs"
proof -
  have idxs': "\<forall>i \<in> set idxs. i < length (ctx_lens d)" using idxs length_draft_reqs [OF ok] by simp
  obtain d' where d': "filter_batch (map int idxs) d = Inr d'"
    "verified_id d' = map (\<lambda>i. verified_id d ! i) idxs" "ctx_lens d' = map (\<lambda>i. ctx_lens d ! i) idxs"
    "draft_seq_lens d' = map (\<lambda>i. draft_seq_lens d ! i) idxs"
    "hid d' = concat (map (\<lambda>i. segments (ctx_lens d) (hid d) ! i) idxs)"
    using filter_batch_eq [OF ok idxs'] by blast
  have "ctx_lens d ! i = int (length (segments (ctx_lens d) (hid d) ! i))" if "i < length (ctx_lens d)" for i
    using arg_cong [OF segments_lens [OF ok], of "\<lambda>xs. xs ! i"] that by simp
  then have "draft_ok d' \<and> draft_reqs d' = zip (verified_id d')
      (zip (map (\<lambda>i. segments (ctx_lens d) (hid d) ! i) idxs) (draft_seq_lens d'))"
    using d' idxs' by (intro draft_of_segments) auto
  moreover have "zip (verified_id d') (zip (map (\<lambda>i. segments (ctx_lens d) (hid d) ! i) idxs) (draft_seq_lens d')) =
      map (\<lambda>i. draft_reqs d ! i) idxs"
    using d'(2,4) idxs' draft_okD(1,2) [OF ok] by (intro nth_equalityI) (simp_all add: draft_reqs_def)
  ultimately show ?thesis using d'(1) by (intro exI [of _ d']) simp
qed

lemma merge_batch_reqs:
  assumes "draft_ok d" "draft_ok e"
  shows "draft_ok (merge_batch d e) \<and> draft_reqs (merge_batch d e) = draft_reqs d @ draft_reqs e"
proof -
  let ?m = "merge_batch d e" and ?s = "\<lambda>d. segments (ctx_lens d) (hid d)"
  have f: "verified_id ?m = verified_id d @ verified_id e" "ctx_lens ?m = ctx_lens d @ ctx_lens e"
    "draft_seq_lens ?m = draft_seq_lens d @ draft_seq_lens e" "hid ?m = hid d @ hid e"
    by (simp_all add: merge_batch_def Let_def split: option.split list.split)
  note l = draft_okD [OF assms(1)] draft_okD [OF assms(2)]
  have "draft_ok ?m \<and> draft_reqs ?m = zip (verified_id ?m) (zip (?s d @ ?s e) (draft_seq_lens ?m))"
    using f l by (intro draft_of_segments) (simp_all add: segments_lens assms concat_segments)
  then show ?thesis using f l by (simp add: draft_reqs_def zip_append)
qed

section \<open>Batch states\<close>

text \<open>
  What the scheduler relies on when it filters and merges running batches: the per-request contents follow
  the selected indices, and merging appends them.
\<close>

locale batch_state =
  fixes ok :: "'s \<Rightarrow> bool" and items :: "'s \<Rightarrow> 'i list"
    and filt :: "int list \<Rightarrow> 's \<Rightarrow> 's py" and merge :: "'s \<Rightarrow> 's \<Rightarrow> 's py"
  assumes filt_items: "ok s \<Longrightarrow> \<forall>i \<in> set idxs. i < length (items s) \<Longrightarrow>
      \<exists>s'. filt (map int idxs) s = Inr s' \<and> ok s' \<and> items s' = map (\<lambda>i. items s ! i) idxs"
    and merge_items: "ok s \<Longrightarrow> ok t \<Longrightarrow> \<exists>m. merge s t = Inr m \<and> ok m \<and> items m = items s @ items t"
begin

lemma filt_compose:
  assumes "ok s" "\<forall>i \<in> set idxs. i < length (items s)" "\<forall>j \<in> set js. j < length idxs"
  shows "\<exists>s1 s2. filt (map int idxs) s = Inr s1 \<and> filt (map int js) s1 = Inr s2 \<and> ok s2 \<and>
    items s2 = map (\<lambda>j. items s ! (idxs ! j)) js"
proof -
  obtain s1 where s1: "filt (map int idxs) s = Inr s1" "ok s1" "items s1 = map (\<lambda>i. items s ! i) idxs"
    using filt_items [OF assms(1,2)] by blast
  have "\<forall>j \<in> set js. j < length (items s1)" using s1(3) assms(3) by simp
  then obtain s2 where "filt (map int js) s1 = Inr s2" "ok s2" "items s2 = map (\<lambda>j. items s1 ! j) js"
    using filt_items [OF s1(2)] by blast
  then show ?thesis using s1 assms(3) by (intro exI [of _ s1] exI [of _ s2]) simp
qed

lemma filt_merge_left:
  assumes "ok s" "ok t" "n = length (items s)"
  shows "\<exists>m s'. merge s t = Inr m \<and> filt (map int [0..<n]) m = Inr s' \<and> ok s' \<and> items s' = items s"
proof -
  obtain m where m: "merge s t = Inr m" "ok m" "items m = items s @ items t" using merge_items assms by blast
  then obtain s' where "filt (map int [0..<n]) m = Inr s'" "ok s'" "items s' = map (\<lambda>i. items m ! i) [0..<n]"
    using filt_items [OF m(2), of "[0..<n]"] assms(3) by auto
  moreover have "map (\<lambda>i. (items s @ items t) ! i) [0..<n] = items s"
    using assms(3) by (intro nth_equalityI) (simp_all add: nth_append)
  ultimately show ?thesis using m by (intro exI [of _ m] exI [of _ s']) simp
qed

lemma filt_merge_right:
  assumes "ok s" "ok t" "n = length (items s)" "k = n + length (items t)"
  shows "\<exists>m s'. merge s t = Inr m \<and> filt (map int [n..<k]) m = Inr s' \<and> ok s' \<and> items s' = items t"
proof -
  obtain m where m: "merge s t = Inr m" "ok m" "items m = items s @ items t" using merge_items assms by blast
  then obtain s' where "filt (map int [n..<k]) m = Inr s'" "ok s'" "items s' = map (\<lambda>i. items m ! i) [n..<k]"
    using filt_items [OF m(2), of "[n..<k]"] assms(3,4) by auto
  moreover have "map (\<lambda>i. (items s @ items t) ! i) [n..<k] = items t"
    using assms(3,4) by (intro nth_equalityI) (simp_all add: nth_append)
  ultimately show ?thesis using m by (intro exI [of _ m] exI [of _ s']) simp
qed

end

interpretation dflash_draft: batch_state draft_ok draft_reqs filter_batch "\<lambda>d e. Inr (merge_batch d e)"
  by unfold_locales (simp_all add: filter_batch_reqs merge_batch_reqs)


section \<open>Verification of whole batches\<close>

lemma greedy_decode_take: "m \<le> k \<Longrightarrow> take m (greedy_decode model ctx k) = greedy_decode model ctx m"
proof (induction k arbitrary: ctx m)
  case (Suc k)
  then show ?case by (cases m) simp_all
qed simp

lemma verify_reqs_cases:
  assumes "length cs = length rs" "length acc = length rs" "length bonus = length rs"
  shows "case verify_reqs G re_search cs acc bonus rs of
      Inl e \<Rightarrow> \<exists>i < length rs. verify_req G re_search (cs ! i) (acc ! i) (bonus ! i) (rs ! i) = Inl e
    | Inr res \<Rightarrow> length res = length rs \<and> (\<forall>i < length rs. verify_req G re_search (cs ! i) (acc ! i) (bonus ! i) (rs ! i) = Inr (res ! i))"
  using assms
proof (induction G re_search cs acc bonus rs rule: verify_reqs.induct)
  case (1 G re_search c cs a as b bs r rs)
  show ?case
  proof (cases "verify_req G re_search c a b r")
    case (Inl e)
    then show ?thesis by (auto intro!: exI [of _ 0])
  next
    case (Inr x)
    have IH: "case verify_reqs G re_search cs as bs rs of
        Inl e \<Rightarrow> \<exists>i < length rs. verify_req G re_search (cs ! i) (as ! i) (bs ! i) (rs ! i) = Inl e
      | Inr res \<Rightarrow> length res = length rs \<and> (\<forall>i < length rs. verify_req G re_search (cs ! i) (as ! i) (bs ! i) (rs ! i) = Inr (res ! i))"
      using 1 Inr by simp
    show ?thesis
    proof (cases "verify_reqs G re_search cs as bs rs")
      case (Inl e)
      then obtain i where "i < length rs" "verify_req G re_search (cs ! i) (as ! i) (bs ! i) (rs ! i) = Inl e" using IH by auto
      then show ?thesis using Inr Inl by (auto intro!: exI [of _ "Suc i"])
    next
      case R: (Inr res)
      then have "verify_req G re_search ((c # cs) ! i) ((a # as) ! i) ((b # bs) ! i) ((r # rs) ! i) = Inr ((x # res) ! i)" if "i < Suc (length rs)" for i
        using IH Inr that by (cases i) auto
      then show ?thesis using IH Inr R by simp
    qed
  qed
qed auto


definition demo_dreq :: "unit dreq" where
  "demo_dreq = \<lparr>dr_req = demo_sreq [''aa''], origin_input_ids = [4], kv_committed_len = 3, kv_allocated_len = 7, spec_verify_ct = 0, spec_accepted_drafts = 0\<rparr>"

lemma demo_append:
  "append_proposed demo_grammar (\<lambda>p t. False) [6, 7] (demo_sreq [''aa'']) 0 = Inr (2, (demo_sreq [''aa''])\<lparr>sq_output_ids := [6, 7]\<rparr>)"
  by (simp add: check_finished_def req_finished_def demo_sreq_def py_from_def py_bound_def check_token_based_finish_def is_stop_token_def
      check_vocab_boundary_finish_def check_str_based_finish_def tail_str_def grammar_accept_def Let_def sublist_code)


text \<open>
  The part of a request's block that verification gives back: in pages it is what lies after the page of the
  last committed token.
\<close>

lemma keep_len_bounds:
  fixes ps :: int
  assumes "1 < ps" "0 \<le> p" "1 \<le> c" "c \<le> n"
    and k: "k = min (max (min ((p + c + ps - 1) div ps * ps) (p + n) - p) 0) n"
  shows "c \<le> k" "k \<le> n" "\<And>j. k \<le> j \<Longrightarrow> j < n \<Longrightarrow> (p + c - 1) div ps < (p + j) div ps"
    "\<And>j. c \<le> j \<Longrightarrow> j < k \<Longrightarrow> (p + j) div ps = (p + c - 1) div ps"
proof -
  let ?q = "(p + c + ps - 1) div ps"
  have q: "?q = (p + c - 1) div ps + 1" using assms(1) div_add_self2 [of ps "p + c - 1"] by (simp add: algebra_simps)
  have lo: "p + c \<le> ?q * ps" "?q * ps < p + c + ps"
    using assms(1) div_mult_mod_eq [of "p + c + ps - 1" ps] pos_mod_bound [of ps "p + c + ps - 1"]
      pos_mod_sign [of ps "p + c + ps - 1"] by linarith+
  then show ck: "c \<le> k" "k \<le> n" using k assms by auto
  fix j
  { assume j: "k \<le> j" "j < n"
    then have "?q * ps \<le> p + j" using k lo assms by auto
    then show "(p + c - 1) div ps < (p + j) div ps" using q le_div_iff [of ps ?q "p + j"] assms(1) by simp }
  { assume j: "c \<le> j" "j < k"
    then have "p + j < ?q * ps" using k lo assms by auto
    then have "\<not> ?q \<le> (p + j) div ps" using le_div_iff [of ps ?q "p + j"] assms(1) by simp
    moreover have "(p + c - 1) div ps \<le> (p + j) div ps" using j assms(1) by (intro zdiv_mono1) auto
    ultimately show "(p + j) div ps = (p + c - 1) div ps" using q by simp }
qed


lemma map2_maps: "map2 f (map g xs) (map h xs) = map (\<lambda>x. f (g x) (h x)) xs"
  by (induction xs) simp_all

lemma map2_nth_maps: "length xs = k \<Longrightarrow> map2 f xs (map h [0..<k]) = map (\<lambda>i. f (xs ! i) (h i)) [0..<k]"
  by (intro nth_equalityI) simp_all

definition block_row :: "nat \<Rightarrow> int list \<Rightarrow> nat \<Rightarrow> int list" where
  "block_row n locs i = take n (drop (i * n) locs)"

definition keep_of :: "int \<Rightarrow> nat \<Rightarrow> int \<Rightarrow> nat \<Rightarrow> nat" where
  "keep_of ps n p c = (if ps = 1 then c
     else nat (min (max (min ((p + int c + ps - 1) div ps * ps) (p + int n) - p) 0) (int n)))"

lemma keep_of_pages:
  assumes "1 \<le> ps" "0 \<le> p" "1 \<le> c" "c \<le> n"
  shows "c \<le> keep_of ps n p c" "keep_of ps n p c \<le> n"
    "\<And>j. keep_of ps n p c \<le> j \<Longrightarrow> j < n \<Longrightarrow> (p + int c - 1) div ps < (p + int j) div ps"
    "\<And>j. c \<le> j \<Longrightarrow> j < keep_of ps n p c \<Longrightarrow> (p + int j) div ps = (p + int c - 1) div ps"
proof -
  note k = keep_len_bounds [of ps p "int c" "int n", OF _ assms(2) _ _ refl]
  show "c \<le> keep_of ps n p c" "keep_of ps n p c \<le> n" using k(1,2) assms by (auto simp: keep_of_def)
  fix j
  { assume "keep_of ps n p c \<le> j" "j < n"
    then show "(p + int c - 1) div ps < (p + int j) div ps"
      using k(3) [of "int j"] assms by (cases "ps = 1") (simp_all add: keep_of_def) }
  { assume "c \<le> j" "j < keep_of ps n p c"
    then show "(p + int j) div ps = (p + int c - 1) div ps"
      using k(4) [of "int j"] assms by (cases "ps = 1") (simp_all add: keep_of_def) }
qed

lemma keep_of_iff:
  assumes "1 \<le> ps" "0 \<le> p" "1 \<le> c" "c \<le> n" "j < n"
  shows "keep_of ps n p c \<le> j \<longleftrightarrow> (p + int c - 1) div ps < (p + int j) div ps"
proof -
  have "\<not> (p + int c - 1) div ps < (p + int j) div ps" if "j < keep_of ps n p c"
  proof (cases "c \<le> j")
    case False
    then show ?thesis using zdiv_mono1 [of "p + int j" "p + int c - 1" ps] assms(1) by simp
  qed (use keep_of_pages(4) [OF assms(1-4)] that in simp)
  then show ?thesis using keep_of_pages(3) [OF assms(1-4) _ assms(5)] by (meson not_le)
qed

lemma length_block_row: "i < bs \<Longrightarrow> length locs = bs * n \<Longrightarrow> length (block_row n locs i) = n"
  using mult_le_mono1 [of "Suc i" bs n] by (simp add: block_row_def)

lemma dflash_verify_eq:
  assumes len: "length acc = bs" "length bonus = bs" "length (reqs B) = bs" "length (seq_lens B) = bs" and ps: "1 \<le> ps"
    and v: "verify_reqs G re_search (view_rows bs n draft) acc bonus (reqs B) = Inr vs"
    and m: "\<And>i. m i = fst (vs ! i)" and r': "\<And>i. r' i = snd (snd (vs ! i))"
  shows "\<exists>res h' B'. dflash_verify free order G re_search n ps draft (Inr (acc, bonus)) (Some h) B = Inr (res, h', B') \<and>
    commit_lens res = map m [0..<bs] \<and>
    allocator B' = free (allocator B) (concat (map (\<lambda>i. drop (keep_of ps n (seq_lens B ! i) (m i)) (block_row n (out_cache_loc B) i)) [0..<bs])) \<and>
    out_cache_loc B' = concat (map (\<lambda>i. take (m i) (block_row n (out_cache_loc B) i)) [0..<bs]) \<and>
    seq_lens B' = map (\<lambda>i. seq_lens B ! i + int (m i)) [0..<bs] \<and> length (reqs B') = bs \<and>
    req_to_token B' = assign_req_to_token_pool_func (req_pool_indices B) (seq_lens B) (seq_lens B') (out_cache_loc B') (pool_len B)
                          bs order (req_to_token B) \<and>
    (\<forall>i < bs. dr_req (reqs B' ! i) = dr_req (r' i) \<and> kv_committed_len (reqs B' ! i) = kv_committed_len (r' i) + int (m i) \<and>
      kv_allocated_len (reqs B' ! i) = kv_committed_len (reqs B' ! i))"
proof -
  have "length vs = bs" using verify_reqs_cases [of "view_rows bs n draft" "reqs B" acc bonus G re_search] v len by (simp add: view_rows_def)
  moreover define tok where "tok i = fst (snd (vs ! i))" for i
  ultimately have "vs = map (\<lambda>i. (m i, tok i, r' i)) [0..<bs]" by (intro nth_equalityI) (simp_all add: m r')
  note vr = v [unfolded this]
  have rows: "view_rows bs n (out_cache_loc B) = map (block_row n (out_cache_loc B)) [0..<bs]"
    by (simp add: view_rows_def block_row_def)
  have keep: "(if ps = 1 then Inr (free (allocator B) (concat (map2 (\<lambda>row c. drop c row) (map (block_row n (out_cache_loc B)) [0..<bs]) (map m [0..<bs]))))
       else py_bind (compute_paged_keep_slots (seq_lens B) (map int (map m [0..<bs])) (int n) ps) (\<lambda>keep.
              Inr (free (allocator B) (concat (map2 (\<lambda>row k. drop (nat k) row) (map (block_row n (out_cache_loc B)) [0..<bs]) keep))))) =
      Inr (free (allocator B) (concat (map (\<lambda>i. drop (keep_of ps n (seq_lens B ! i) (m i)) (block_row n (out_cache_loc B) i)) [0..<bs])))"
    using ps len(4)
    by (auto simp: compute_paged_keep_slots_def map2_maps map2_nth_maps keep_of_def Let_def comp_def)
  show ?thesis
    unfolding dflash_verify_def len(3) Let_def vr rows py_bind_simps prod.case map_map comp_def fst_conv
      keep [unfolded map_map comp_def map2_maps] map2_maps
    using len(4) by (simp add: map2_nth_maps comp_def)
qed

lemma concat_rows_nth:
  assumes "i < k" "j < length (f i)"
  shows "tl_load (concat (map f [0..<k])) (sum_list (map (\<lambda>x. int (length (f x))) [0..<i]) + int j) = Some (f i ! j)"
proof -
  let ?s = "length (concat (map f [0..<i]))"
  have u: "[0..<k] = [0..<i] @ i # [Suc i..<k]" using assms(1) upt_add_eq_append [of 0 i "k - i"] by (simp add: upt_conv_Cons)
  then have c: "concat (map f [0..<k]) = concat (map f [0..<i]) @ f i @ concat (map f [Suc i..<k])" by simp
  have "sum_list (map (\<lambda>x. int (length (f x))) [0..<i]) = int ?s"
    by (simp add: length_concat comp_def sum_list_of_nat [symmetric])
  then show ?thesis using assms(2) unfolding c tl_load_def by (simp add: nat_add_distrib nth_append)
qed

text \<open>
  C26. One DFlash verification step of a batch. It raises exactly what the stop checks and grammars of the requests raise; otherwise, with
  \<open>c\<close> the number of tokens a request takes (between one and the accepted drafts and the bonus token): its output, its sequence length and its committed and allocated KV
  length grow by \<open>c\<close>, its row of the request-to-token table maps the new positions to the first \<open>c\<close> slots of its
  block, and of the block exactly the slots whose pages hold no committed token are given back to the allocator
  (with pages of one token, exactly the slots after the first \<open>c\<close>).
\<close>

theorem dflash_verify_step:
  assumes len: "length acc = bs" "length bonus = bs" "length (reqs B) = bs" "length (seq_lens B) = bs"
      "length (req_pool_indices B) = bs" "length (out_cache_loc B) = bs * n"
    and ps: "1 \<le> ps" and acc: "\<forall>i < bs. 0 \<le> acc ! i \<and> acc ! i < int n"
    and rows: "distinct (req_pool_indices B)" "distinct order" "set order = {0..<bs}" "0 < pool_len B"
      "\<forall>i < bs. 0 \<le> seq_lens B ! i \<and> seq_lens B ! i + int n \<le> pool_len B"
  shows "case verify_reqs G re_search (view_rows bs n draft) acc bonus (reqs B) of
    Inl e \<Rightarrow> dflash_verify free order G re_search n ps draft (Inr (acc, bonus)) (Some h) B = Inl e
  | Inr vs \<Rightarrow> (\<exists>res h' B' k. dflash_verify free order G re_search n ps draft (Inr (acc, bonus)) (Some h) B = Inr (res, h', B') \<and>
    allocator B' = free (allocator B) (concat (map (\<lambda>i. drop (k i) (block_row n (out_cache_loc B) i)) [0..<bs])) \<and>
    (\<forall>i < bs. let c = commit_lens res ! i; p = seq_lens B ! i in
       1 \<le> c \<and> int c \<le> acc ! i + 1 \<and> seq_lens B' ! i = p + int c \<and>
       length (sq_output_ids (dr_req (reqs B' ! i))) = length (sq_output_ids (dr_req (reqs B ! i))) + c \<and>
       kv_committed_len (reqs B' ! i) = kv_committed_len (reqs B ! i) + int c \<and>
       kv_allocated_len (reqs B' ! i) = kv_committed_len (reqs B' ! i) \<and>
       (\<forall>j < c. req_to_token B' (req_pool_indices B ! i * pool_len B + p + int j) = Some (block_row n (out_cache_loc B) i ! j)) \<and>
       c \<le> k i \<and> k i \<le> n \<and>
       (\<forall>j < n. k i \<le> j \<longleftrightarrow> (p + int c - 1) div ps < (p + int j) div ps)))"
proof (cases "verify_reqs G re_search (view_rows bs n draft) acc bonus (reqs B)")
  case (Inl e)
  then show ?thesis by (simp add: dflash_verify_def len(3) Let_def)
next
  case (Inr vs)
  define ts where "ts i = take (nat (acc ! i)) (drop 1 (view_rows bs n draft ! i)) @ [bonus ! i]" for i
  define m where "m i = fst (vs ! i)" for i
  define r' where "r' i = snd (snd (vs ! i))" for i
  define k where "k i = keep_of ps n (seq_lens B ! i) (m i)" for i
  let ?row = "block_row n (out_cache_loc B)"
  have lv: "length (view_rows bs n draft) = length (reqs B)" "length acc = length (reqs B)" "length bonus = length (reqs B)"
    using len by (simp_all add: view_rows_def)
  have one: "1 \<le> m i \<and> m i \<le> length (ts i) \<and>
      length (sq_output_ids (dr_req (r' i))) = length (sq_output_ids (dr_req (reqs B ! i))) + m i \<and> kv_committed_len (r' i) = kv_committed_len (reqs B ! i)" if "i < bs" for i
  proof -
    have "verify_req G re_search (view_rows bs n draft ! i) (acc ! i) (bonus ! i) (reqs B ! i) = Inr (m i, fst (snd (vs ! i)), r' i)"
      using verify_reqs_cases [OF lv, of G re_search] Inr that len(3) by (simp add: m_def r'_def)
    from verify_req_ok [OF this ts_def] show ?thesis by blast
  qed
  obtain res h' B' where v: "dflash_verify free order G re_search n ps draft (Inr (acc, bonus)) (Some h) B = Inr (res, h', B')"
    and c: "commit_lens res = map m [0..<bs]"
    and al: "allocator B' = free (allocator B) (concat (map (\<lambda>i. drop (k i) (?row i)) [0..<bs]))"
    and out: "out_cache_loc B' = concat (map (\<lambda>i. take (m i) (?row i)) [0..<bs])"
    and sl: "seq_lens B' = map (\<lambda>i. seq_lens B ! i + int (m i)) [0..<bs]"
    and tab: "req_to_token B' = assign_req_to_token_pool_func (req_pool_indices B) (seq_lens B) (seq_lens B') (out_cache_loc B')
      (pool_len B) bs order (req_to_token B)"
    and rq: "\<And>i. i < bs \<Longrightarrow> dr_req (reqs B' ! i) = dr_req (r' i)"
      "\<And>i. i < bs \<Longrightarrow> kv_committed_len (reqs B' ! i) = kv_committed_len (r' i) + int (m i)"
      "\<And>i. i < bs \<Longrightarrow> kv_allocated_len (reqs B' ! i) = kv_committed_len (reqs B' ! i)"
    unfolding k_def using dflash_verify_eq [OF len(1-4) ps Inr m_def r'_def, of free order h] by blast
  have m1: "1 \<le> m i" if "i < bs" for i using one [OF that] by blast
  have ma: "int (m i) \<le> acc ! i + 1" "m i \<le> n" if "i < bs" for i
    using one [OF that] acc that by (force simp: ts_def)+
  have rl: "length (?row i) = n" if "i < bs" for i using length_block_row [OF that len(6)] .
  have table: "req_to_token B' (req_pool_indices B ! i * pool_len B + seq_lens B ! i + int j) = Some (?row i ! j)"
    if i: "i < bs" and j: "j < m i" for i j
  proof -
    have d: "map2 (-) (seq_lens B') (seq_lens B) = map (\<lambda>i. int (m i)) [0..<bs]"
      using sl len(4) by (intro nth_equalityI) simp_all
    have bd: "\<forall>i < bs. 0 \<le> seq_lens B ! i \<and> seq_lens B ! i \<le> seq_lens B' ! i \<and> seq_lens B' ! i \<le> pool_len B"
      using rows(5) ma(2) by (force simp: sl)
    have "req_to_token B' (req_pool_indices B ! i * pool_len B + (seq_lens B ! i + int j)) =
        tl_load (out_cache_loc B') (sum_list (take i (map2 (-) (seq_lens B') (seq_lens B))) + (seq_lens B ! i + int j - seq_lens B ! i))"
      unfolding tab using assign_pool_writes [OF len(5,4) _ rows(4,1,2,3) bd] i j by (simp add: sl)
    moreover have "tl_load (out_cache_loc B') (sum_list (map (\<lambda>x. int (length (take (m x) (?row x)))) [0..<i]) + int j) =
        Some (take (m i) (?row i) ! j)"
      unfolding out using i j ma(2) rl by (intro concat_rows_nth) simp_all
    moreover have "sum_list (map (\<lambda>x. int (length (take (m x) (?row x)))) [0..<i]) = sum_list (map (\<lambda>x. int (m x)) [0..<i])"
      using i ma(2) rl by (intro arg_cong [of _ _ sum_list] map_cong) auto
    ultimately show ?thesis using i j unfolding d by (simp add: take_map add.assoc)
  qed
  have pages: "m i \<le> k i" "k i \<le> n"
      "\<forall>j < n. k i \<le> j \<longleftrightarrow> (seq_lens B ! i + int (m i) - 1) div ps < (seq_lens B ! i + int j) div ps"
    if i: "i < bs" for i
    using keep_of_pages(1,2) [OF ps _ m1 [OF i] ma(2) [OF i]] keep_of_iff [OF ps _ m1 [OF i] ma(2) [OF i]] rows(5) i
    by (simp_all add: k_def)
  show ?thesis unfolding Inr sum.case
    by (intro exI conjI allI impI, rule v, rule al) (use c one ma sl rq table pages in \<open>simp add: Let_def\<close>)
qed

theorem dflash_verify_step_witness:
  "\<exists>res h' B' k. dflash_verify (\<lambda>al locs. al @ locs) [0] demo_grammar (\<lambda>p t. False) 4 2 [5, 6, 7, 8] (Inr ([1], [7])) (Some [[1, 2, 3, 4 :: nat]])
     \<lparr>reqs = [demo_dreq], seq_lens = [3], seq_lens_cpu = [3], seq_lens_sum = 3, out_cache_loc = [10, 11, 12, 13], req_pool_indices = [0],
       req_to_token = Map.empty, pool_len = 8, allocator = []\<rparr> = Inr (res, h', B') \<and>
     allocator B' = concat (map (\<lambda>i. drop (k i) (block_row 4 [10, 11, 12, 13] i)) [0..<1]) \<and> 1 \<le> commit_lens res ! 0 \<and> commit_lens res ! 0 \<le> k 0"
proof -
  let ?B = "\<lparr>reqs = [demo_dreq], seq_lens = [3], seq_lens_cpu = [3], seq_lens_sum = 3, out_cache_loc = [10, 11, 12, 13], req_pool_indices = [0],
       req_to_token = Map.empty, pool_len = 8, allocator = [] :: int list\<rparr>"
  have v: "verify_reqs demo_grammar (\<lambda>p t. False) (view_rows 1 4 [5, 6, 7, 8]) [1] [7] (reqs ?B) =
      Inr [(2, 7, demo_dreq\<lparr>dr_req := (demo_sreq [''aa''])\<lparr>sq_output_ids := [6, 7]\<rparr>, spec_verify_ct := 1, spec_accepted_drafts := 1\<rparr>)]"
    using demo_append by (simp add: verify_req_def view_rows_def demo_dreq_def)
  from dflash_verify_step [where acc = "[1]" and bs = 1 and bonus = "[7]" and B = ?B and n = 4 and ps = 2 and order = "[0]" and G = demo_grammar
      and re_search = "\<lambda>p t. False" and draft = "[5, 6, 7, 8]" and free = "\<lambda>al locs. al @ locs" and h = "[[1, 2, 3, 4 :: nat]]", unfolded v]
  obtain res h' B' k where
    "dflash_verify (\<lambda>al locs. al @ locs) [0] demo_grammar (\<lambda>p t. False) 4 2 [5, 6, 7, 8] (Inr ([1], [7])) (Some [[1, 2, 3, 4 :: nat]]) ?B = Inr (res, h', B')"
    "allocator B' = concat (map (\<lambda>i. drop (k i) (block_row 4 [10, 11, 12, 13] i)) [0..<1])" "1 \<le> commit_lens res ! 0" "commit_lens res ! 0 \<le> k 0"
    by (auto simp: Let_def)
  then show ?thesis by blast
qed

text \<open>
  C27. The draft input follows its batch: filtering by indices keeps exactly the token, context features and draft
  length of the selected requests, merging appends those of the second batch, and filtering a merged state back
  to either half restores that half's requests.
\<close>

theorem draft_filter_merge:
  assumes "draft_ok d" "draft_ok e" "\<forall>i \<in> set idxs. i < length (draft_reqs d)" "n = length (draft_reqs d)"
  shows "(\<exists>d'. filter_batch (map int idxs) d = Inr d' \<and> draft_ok d' \<and> draft_reqs d' = map (\<lambda>i. draft_reqs d ! i) idxs) \<and>
    draft_ok (merge_batch d e) \<and> draft_reqs (merge_batch d e) = draft_reqs d @ draft_reqs e \<and>
    (\<exists>d'. filter_batch (map int [0..<n]) (merge_batch d e) = Inr d' \<and> draft_reqs d' = draft_reqs d) \<and>
    (\<exists>e'. filter_batch (map int [n..<n + length (draft_reqs e)]) (merge_batch d e) = Inr e' \<and> draft_reqs e' = draft_reqs e)"
  using dflash_draft.filt_items [OF assms(1,3)] dflash_draft.merge_items [OF assms(1,2)]
    dflash_draft.filt_merge_left [OF assms(1,2,4)] dflash_draft.filt_merge_right [OF assms(1,2,4) refl]
  by (intro conjI) auto

theorem draft_filter_merge_witness:
  "(\<exists>d'. filter_batch (map int [1]) \<lparr>verified_id = [7, 8], target_hidden = Some [''a'', ''b'', ''c''], ctx_lens = [1, 2],
      draft_seq_lens = [4, 5]\<rparr> = Inr d' \<and> draft_ok d' \<and> draft_reqs d' = [(8, [''b'', ''c''], 5)])"
proof -
  let ?d = "\<lparr>verified_id = [7, 8], target_hidden = Some [''a'', ''b'', ''c''], ctx_lens = [1, 2], draft_seq_lens = [4, 5]\<rparr>"
  have "draft_ok ?d" "draft_reqs ?d = [(7, [''a''], 4), (8, [''b'', ''c''], 5)]" by code_simp+
  then show ?thesis using draft_filter_merge [of ?d ?d "[1]" 2] by simp
qed


section \<open>The chain buffers are chains\<close>

definition chain_ok :: "nat \<Rightarrow> nat \<Rightarrow> chain_buffers \<Rightarrow> bool" where
  "chain_ok rows n c \<longleftrightarrow> cb_retrieve_index c = index_rows rows n \<and>
     cb_next_token c = replicate rows (map int [1..<n] @ [-1]) \<and>
     cb_next_sibling c = replicate rows (replicate n (-1)) \<and>
     cb_predicts c = rows * n \<and> cb_accept_index c = rows \<and> cb_accept_num c = rows"

definition chain_cache_ok :: "chain_cache \<Rightarrow> bool" where
  "chain_cache_ok cache \<longleftrightarrow> (\<forall>dev n c. cache (dev, n) = Some c \<longrightarrow> chain_ok (cap_bs c) n c)"

lemma chain_row: "0 < n \<Longrightarrow> py_set (map int [1..<Suc n]) (-1) (-1) = Inr (map int [1..<n] @ [-1])"
  using zmod_minus1 [of "int n"] by (simp add: py_set_def list_update_append nat_diff_distrib split: nat.split)

lemma take_index_rows: "k \<le> rows \<Longrightarrow> take k (index_rows rows n) = index_rows k n"
  by (simp add: index_rows_def take_map)

text \<open>
  The cached verify buffers: whatever was cached before, a call returns, for exactly the requested batch size,
  the buffers that describe one chain per request (each node's successor is the next node, no siblings), the
  cache keeps this invariant, and a buffer that is too small is replaced by one at least twice as large.
\<close>

lemma chain_buffers_correct:
  assumes "chain_cache_ok cache" "1 \<le> n" "1 \<le> bs"
  shows "\<exists>bufs cache'. get_or_create_chain_verify_buffers cache bs n dev = Inr (bufs, cache') \<and>
    chain_ok bs n bufs \<and> chain_cache_ok cache' \<and> bs \<le> cap_bs bufs \<and>
    (case cache (dev, n) of None \<Rightarrow> cap_bs bufs = bs
     | Some c \<Rightarrow> if bs \<le> cap_bs c then cache' = cache else 2 * cap_bs c \<le> cap_bs bufs)"
proof (cases "bs \<le> (case cache (dev, n) of None \<Rightarrow> 0 | Some c \<Rightarrow> cap_bs c)")
  case True
  then obtain c where c: "cache (dev, n) = Some c" "bs \<le> cap_bs c" using assms(3) by (cases "cache (dev, n)") auto
  then have "chain_ok (cap_bs c) n c" using assms(1) by (simp add: chain_cache_ok_def)
  then show ?thesis using c assms
    by (simp add: get_or_create_chain_verify_buffers_def Let_def chain_ok_def take_index_rows)
next
  case False
  define cap where "cap = (case cache (dev, n) of None \<Rightarrow> 0 | Some c \<Rightarrow> cap_bs c)"
  define new where "new = max bs (if cap > 0 then cap * 2 else bs)"
  define c where "c = \<lparr>cap_bs = new, cb_retrieve_index = index_rows new n,
      cb_next_token = replicate new (map int [1..<n] @ [-1]), cb_next_sibling = replicate new (replicate n (-1)),
      cb_predicts = new * n, cb_accept_index = new, cb_accept_num = new\<rparr>"
  have ok: "chain_ok (cap_bs c) n c" by (simp add: c_def chain_ok_def)
  have "chain_cache_ok (cache((dev, n) \<mapsto> c))" using assms(1) ok by (simp add: chain_cache_ok_def)
  moreover have "bs \<le> new" "2 * cap \<le> new" "cap = 0 \<Longrightarrow> new = bs" by (auto simp: new_def)
  moreover have "get_or_create_chain_verify_buffers cache bs n dev =
      Inr (\<lparr>cap_bs = new, cb_retrieve_index = take bs (cb_retrieve_index c), cb_next_token = take bs (cb_next_token c),
            cb_next_sibling = take bs (cb_next_sibling c), cb_predicts = min (bs * n) (cb_predicts c),
            cb_accept_index = min bs (cb_accept_index c), cb_accept_num = min bs (cb_accept_num c)\<rparr>, cache((dev, n) \<mapsto> c))"
    using False assms(2)
    unfolding get_or_create_chain_verify_buffers_def Let_def cap_def [symmetric] new_def [symmetric]
    by (simp add: chain_row [unfolded One_nat_def] c_def del: upt_Suc)
  ultimately show ?thesis using False
    by (simp add: cap_def c_def chain_ok_def take_index_rows split: option.splits)
qed

lemma chain_buffers_correct_witness:
  "\<exists>bufs cache'. get_or_create_chain_verify_buffers Map.empty 2 3 None = Inr (bufs, cache') \<and> chain_ok 2 3 bufs"
  using chain_buffers_correct [of Map.empty 3 2 None] by (auto simp: chain_cache_ok_def)

end
