(* ===== verification/Radix_Key.thy ===== *)
theory Radix_Key
  imports SD_Prelude
begin

text \<open>
  The keys of the radix cache, \<open>RadixKey\<close> of \<open>srt/mem_cache/radix_cache.py\<close>: a list of token ids with an
  optional namespace (\<open>extra_key\<close>), seen either as a list of tokens or, for EAGLE, as the list of its
  overlapping pairs of neighbouring tokens (the bigram view). The theorems state every operation in terms of
  the units of a key: slicing slices them, and matching finds their longest common prefix of whole pages.
\<close>

section \<open>Keys and their units\<close>

record radix_key =
  token_ids :: "int list"
  extra_key :: "string option"
  is_bigram :: bool

datatype key_unit = Tok int | Pair int int

definition key_len :: "radix_key \<Rightarrow> nat" where
  "key_len k = (if is_bigram k
     then (let n = length (token_ids k) in if n > 0 then n - 1 else 0)
     else length (token_ids k))"

definition key_iter :: "radix_key \<Rightarrow> key_unit list" where
  "key_iter k = (if is_bigram k
     then map (\<lambda>i. Pair (token_ids k ! i) (token_ids k ! Suc i)) [0..<length (token_ids k) - 1]
     else map Tok (token_ids k))"

text \<open>Subscripts: an index or a slice (start, stop, step).\<close>

datatype key_subscript = Idx int | Slice "int option" "int option" "int option"

definition key_sub :: "radix_key \<Rightarrow> nat \<Rightarrow> nat \<Rightarrow> radix_key" where
  "key_sub k start stop = (if is_bigram k
     then \<lparr>token_ids = (if start < stop then drop start (take (stop + 1) (token_ids k)) else []),
           extra_key = extra_key k, is_bigram = True\<rparr>
     else \<lparr>token_ids = drop start (take stop (token_ids k)), extra_key = extra_key k, is_bigram = False\<rparr>)"

definition key_getitem :: "radix_key \<Rightarrow> key_subscript \<Rightarrow> radix_key py" where
  "key_getitem k idx = (case idx of
     Idx i \<Rightarrow> (let j = (if i < 0 then i + int (key_len k) else i)
               in if j < 0 \<or> j \<ge> int (key_len k) then Inl IndexError
                  else Inr (key_sub k (nat j) (nat j + 1)))
   | Slice a b st \<Rightarrow>
       (if st \<noteq> None \<and> st \<noteq> Some 1 then Inl ValueError
        else Inr (key_sub k (case a of None \<Rightarrow> 0 | Some i \<Rightarrow> py_bound (key_len k) i)
                            (case b of None \<Rightarrow> key_len k | Some i \<Rightarrow> py_bound (key_len k) i))))"

text \<open>\<open>key[n:]\<close> and \<open>key[:n]\<close> for a bound that is not negative.\<close>

definition key_from :: "radix_key \<Rightarrow> nat \<Rightarrow> radix_key" where
  "key_from k n = key_sub k (min (key_len k) n) (key_len k)"

definition key_upto :: "radix_key \<Rightarrow> nat \<Rightarrow> radix_key" where
  "key_upto k n = key_sub k 0 (min (key_len k) n)"

definition page_aligned :: "nat \<Rightarrow> radix_key \<Rightarrow> radix_key" where
  "page_aligned ps k = (if ps = 1 then k else key_upto k (key_len k div ps * ps))"

definition maybe_to_bigram_view :: "bool \<Rightarrow> radix_key \<Rightarrow> 'a list option \<Rightarrow> radix_key \<times> 'a list option" where
  "maybe_to_bigram_view is_eagle k v =
     (if is_eagle \<and> \<not> is_bigram k
      then (let k' = k\<lparr>is_bigram := True\<rparr> in (k', map_option (take (key_len k')) v))
      else (k, v))"

section \<open>Matching\<close>

definition check_compatible :: "radix_key \<Rightarrow> radix_key \<Rightarrow> unit py" where
  "check_compatible k k' = (if extra_key k \<noteq> extra_key k' then Inl ValueError else Inr ())"

text \<open>The loop over \<open>zip(t0, t1)\<close> that counts equal leading elements.\<close>

fun match_tokens :: "'a list \<Rightarrow> 'a list \<Rightarrow> nat" where
  "match_tokens (a # as) (b # bs) = (if a \<noteq> b then 0 else Suc (match_tokens as bs))"
| "match_tokens _ _ = 0"

text \<open>The loop over whole pages; the fuel bounds its rounds.\<close>

fun match_pages :: "nat \<Rightarrow> nat \<Rightarrow> int list \<Rightarrow> int list \<Rightarrow> nat \<Rightarrow> nat \<Rightarrow> nat py" where
  "match_pages fuel ps t0 t1 min_len i =
     (if i < min_len
      then (if take ps (drop i t0) \<noteq> take ps (drop i t1) then Inr i
            else (case fuel of 0 \<Rightarrow> Inl OutOfFuel
                  | Suc f \<Rightarrow> match_pages f ps t0 t1 min_len (i + ps)))
      else Inr i)"

definition key_match :: "nat \<Rightarrow> radix_key \<Rightarrow> radix_key \<Rightarrow> nat py" where
  "key_match ps k k' =
     py_bind (check_compatible k k') (\<lambda>_.
     let t0 = token_ids k; t1 = token_ids k'
     in if is_bigram k
        then (let i = match_tokens t0 t1;
                  matched = min (i - 1) (min (key_len k) (key_len k'))
              in Inr (if ps > 1 then matched div ps * ps else matched))
        else if ps = 1 then Inr (match_tokens t0 t1)
        else match_pages (min (key_len k) (key_len k')) ps t0 t1 (min (key_len k) (key_len k')) 0)"

text \<open>The dictionary key of the first page of a key, in its namespace.\<close>

type_synonym child_id = "string option \<times> key_unit list"

definition child_key :: "nat \<Rightarrow> radix_key \<Rightarrow> child_id py" where
  "child_key ps k =
     (let t = token_ids k
      in py_bind
          (if is_bigram k
           then (if ps = 1
                 then py_bind (py_index t 0) (\<lambda>a. py_bind (py_index t 1) (\<lambda>b. Inr [Pair a b]))
                 else py_for (\<lambda>j acc. py_bind (py_index t (int j)) (\<lambda>a. py_bind (py_index t (int j + 1)) (\<lambda>b.
                        Inr (acc @ [Pair a b])))) [0..<ps] [])
           else if ps = 1 then py_bind (py_index t 0) (\<lambda>a. Inr [Tok a])
           else Inr (map Tok (take ps t)))
          (\<lambda>plain. Inr (extra_key k, plain)))"

section \<open>Hashes of pages\<close>

text \<open>
  A digest is the list of its bytes (its text form is the hexadecimal spelling of them); \<open>sha256\<close> maps the
  bytes fed to the hasher to the digest. A token is fed as four bytes, little end first.
\<close>

type_synonym digest = "nat list"

definition to_bytes4 :: "int \<Rightarrow> nat list py" where
  "to_bytes4 x = (if 0 \<le> x \<and> x < 2 ^ 32
     then Inr (map (\<lambda>i. nat (x div 256 ^ i mod 256)) [0..<4]) else Inl OverflowError)"

definition hash_page :: "(nat list \<Rightarrow> digest) \<Rightarrow> radix_key \<Rightarrow> nat \<Rightarrow> nat \<Rightarrow> digest option \<Rightarrow> digest py" where
  "hash_page sha256 k start stop prior_hash =
     (let t = token_ids k;
          init = (case prior_hash of None \<Rightarrow> [] | Some h \<Rightarrow> h);
          feed = (\<lambda>j acc. py_bind (py_index t (int j)) (\<lambda>a. py_bind (to_bytes4 a) (\<lambda>bs. Inr (acc @ bs))))
      in py_bind (if is_bigram k
                  then py_for (\<lambda>j acc. py_bind (feed j acc) (feed (j + 1))) [start..<stop] init
                  else py_for feed [start..<stop] init)
          (\<lambda>bytes. Inr (sha256 bytes)))"

text \<open>The pages of a node's key are hashed in a chain that starts with the last hash of its parent.\<close>

definition hash_pages :: "(nat list \<Rightarrow> digest) \<Rightarrow> nat \<Rightarrow> radix_key \<Rightarrow> digest option \<Rightarrow> digest list py" where
  "hash_pages sha256 ps k parent_hash =
     py_bind (py_for (\<lambda>p (hs, prev).
         let start = p * ps; stop = min (start + ps) (key_len k)
         in py_bind (hash_page sha256 k start stop prev) (\<lambda>h. Inr (hs @ [h], Some h)))
       [0..<(key_len k + ps - 1) div ps] ([], parent_hash)) (\<lambda>(hs, _). Inr hs)"

definition split_node_hash_value :: "digest list option \<Rightarrow> nat \<Rightarrow> nat \<Rightarrow> digest list option \<times> digest list option" where
  "split_node_hash_value child_hash split_len ps = (case child_hash of None \<Rightarrow> (None, None)
     | Some hs \<Rightarrow> (let split_pages = (if ps = 1 then split_len else split_len div ps)
                  in (Some (take split_pages hs), Some (drop split_pages hs))))"

section \<open>Slices of keys\<close>

lemma length_key_iter [simp]: "length (key_iter k) = key_len k"
  by (simp add: key_iter_def key_len_def)

lemma key_getitem_slices:
  "key_getitem k (Slice (Some (int n)) None None) = Inr (key_from k n)"
  "key_getitem k (Slice None (Some (int n)) None) = Inr (key_upto k n)"
  by (simp_all add: key_getitem_def key_from_def key_upto_def py_bound_def)

lemma key_sub_fields [simp]:
  "extra_key (key_sub k a b) = extra_key k" "is_bigram (key_sub k a b) = is_bigram k"
  "extra_key (key_from k n) = extra_key k" "is_bigram (key_from k n) = is_bigram k"
  "extra_key (key_upto k n) = extra_key k" "is_bigram (key_upto k n) = is_bigram k"
  by (simp_all add: key_sub_def key_from_def key_upto_def)

lemma key_iter_sub:
  assumes "a \<le> b" "b \<le> key_len k"
  shows "key_iter (key_sub k a b) = take (b - a) (drop a (key_iter k))"
proof (cases "is_bigram k")
  case True
  then show ?thesis using assms
    by (intro nth_equalityI) (auto simp: key_iter_def key_sub_def key_len_def Let_def split: if_splits)
next
  case False
  then show ?thesis using assms by (simp add: key_iter_def key_sub_def key_len_def take_map drop_map take_drop)
qed

lemma key_iter_from [simp]: "key_iter (key_from k n) = drop n (key_iter k)"
  unfolding key_from_def by (subst key_iter_sub) (auto simp: min_def)

lemma key_iter_upto [simp]: "key_iter (key_upto k n) = take n (key_iter k)"
  unfolding key_upto_def by (subst key_iter_sub) (auto simp: min_def)

lemma key_len_slices [simp]: "key_len (key_from k n) = key_len k - n" "key_len (key_upto k n) = min (key_len k) n"
  by (simp_all only: length_key_iter [symmetric] key_iter_from key_iter_upto length_drop length_take)

lemma key_iter_aligned: "key_iter (page_aligned ps k) = take (key_len k div ps * ps) (key_iter k)"
  by (simp add: page_aligned_def)

lemma aligned_fields [simp]:
  "extra_key (page_aligned ps k) = extra_key k" "is_bigram (page_aligned ps k) = is_bigram k"
  by (simp_all add: page_aligned_def)

lemma key_len_aligned [simp]: "key_len (page_aligned ps k) = key_len k div ps * ps"
  by (auto simp: page_aligned_def)

section \<open>Matching finds the longest common prefix of pages\<close>

lemma match_tokens_iff:
  "n \<le> match_tokens xs ys \<longleftrightarrow> n \<le> length xs \<and> n \<le> length ys \<and> take n xs = take n ys"
proof (induction xs ys arbitrary: n rule: match_tokens.induct)
  case (1 a as b bs)
  then show ?case by (cases n) auto
qed auto

lemma match_tokens_eqI:
  assumes "\<And>n. n \<le> m \<longleftrightarrow> n \<le> length xs \<and> n \<le> length ys \<and> take n xs = take n ys"
  shows "m = match_tokens xs ys"
  using assms match_tokens_iff [of _ xs ys] by (metis le_antisym order_refl)

lemma match_tokens_map: "inj f \<Longrightarrow> match_tokens (map f xs) (map f ys) = match_tokens xs ys"
  by (induction xs ys rule: match_tokens.induct) (auto dest: injD)

lemma bigram_take_eq:
  assumes "n < length t0" "n < length t1" "0 < n"
  shows "map (\<lambda>i. Pair (t0 ! i) (t0 ! Suc i)) [0..<n] = map (\<lambda>i. Pair (t1 ! i) (t1 ! Suc i)) [0..<n] \<longleftrightarrow>
    take (Suc n) t0 = take (Suc n) t1" (is "?L \<longleftrightarrow> ?R")
proof
  assume l: ?L
  have "t0 ! i = t1 ! i" if "i < Suc n" for i
  proof (cases i)
    case 0
    then show ?thesis using l assms(3) by (simp add: map_eq_conv)
  next
    case (Suc j)
    then show ?thesis using l that by (simp add: map_eq_conv)
  qed
  then show ?R using assms by (intro nth_equalityI) auto
next
  assume r: ?R
  have "t0 ! i = t1 ! i" if "i \<le> n" for i using arg_cong [OF r, of "\<lambda>xs. xs ! i"] that by simp
  then show ?L by simp
qed

lemma match_bigrams:
  assumes "is_bigram k" "is_bigram k'"
  shows "min (match_tokens (token_ids k) (token_ids k') - 1) (min (key_len k) (key_len k')) =
    match_tokens (key_iter k) (key_iter k')"
proof (rule match_tokens_eqI)
  fix n
  let ?t0 = "token_ids k" and ?t1 = "token_ids k'"
  show "n \<le> min (match_tokens ?t0 ?t1 - 1) (min (key_len k) (key_len k')) \<longleftrightarrow>
      n \<le> length (key_iter k) \<and> n \<le> length (key_iter k') \<and> take n (key_iter k) = take n (key_iter k')"
  proof (cases n)
    case (Suc m)
    have tk: "take n (key_iter j) = map (\<lambda>i. Pair (token_ids j ! i) (token_ids j ! Suc i)) [0..<n]"
      if "is_bigram j" "n \<le> key_len j" for j
      using that by (simp add: key_iter_def key_len_def take_map Let_def split: if_splits)
    show ?thesis
    proof (cases "n \<le> key_len k \<and> n \<le> key_len k'")
      case True
      then have l: "n < length ?t0" "n < length ?t1"
        using assms Suc by (auto simp: key_len_def Let_def split: if_splits)
      have "n \<le> match_tokens ?t0 ?t1 - 1 \<longleftrightarrow> Suc n \<le> match_tokens ?t0 ?t1" using Suc by auto
      then show ?thesis using True l tk assms bigram_take_eq [OF l] Suc match_tokens_iff [of "Suc n" ?t0 ?t1] by simp
    qed auto
  qed simp
qed

lemma page_eq_iff:
  assumes "take i t0 = take i t1" "i + ps \<le> length t0" "i + ps \<le> length t1"
  shows "take ps (drop i t0) = take ps (drop i t1) \<longleftrightarrow> i + ps \<le> match_tokens t0 t1"
  using assms by (simp add: match_tokens_iff take_add)

lemma match_pages_eq:
  assumes "1 \<le> ps" "ps dvd length t0" "ps dvd length t1" "m = min (length t0) (length t1)"
    "ps dvd i" "i \<le> match_tokens t0 t1" "m \<le> i + fuel"
  shows "match_pages fuel ps t0 t1 m i = Inr (match_tokens t0 t1 div ps * ps)"
  using assms(5-7)
proof (induction fuel arbitrary: i)
  case (0 i)
  then have "i = match_tokens t0 t1" using assms(4) match_tokens_iff [of "match_tokens t0 t1" t0 t1] by auto
  then show ?case using 0 by simp
next
  case (Suc fuel i)
  let ?l = "match_tokens t0 t1"
  have lm: "?l \<le> m" using match_tokens_iff [of ?l t0 t1] assms(4) by simp
  have m_dvd: "ps dvd m" using assms(2-4) by (simp add: min_def)
  have step: "i + ps \<le> m" if "i < m"
  proof -
    have "ps dvd m - i" "0 < m - i" using m_dvd Suc.prems(1) that by simp_all
    then show ?thesis using dvd_imp_le [of ps "m - i"] by simp
  qed
  have stop: "i = ?l div ps * ps" if "\<not> i + ps \<le> ?l"
  proof -
    obtain q where "i = ps * q" using Suc.prems(1) by blast
    then have "?l div ps = q" using Suc.prems(2) that assms(1) by (intro div_nat_eqI) (simp_all add: algebra_simps)
    then show ?thesis using \<open>i = ps * q\<close> by simp
  qed
  show ?case
  proof (cases "i < m")
    case True
    note pe = page_eq_iff [of i t0 t1 ps] and s = step [OF True]
    show ?thesis
    proof (cases "i + ps \<le> ?l")
      case True
      then have "match_pages fuel ps t0 t1 m (i + ps) = Inr (?l div ps * ps)"
        using Suc.prems assms(1) by (intro Suc.IH) simp_all
      then show ?thesis using \<open>i < m\<close> True pe s assms(4) match_tokens_iff [of i t0 t1] Suc.prems(2) by simp
    next
      case False
      then show ?thesis using \<open>i < m\<close> pe s assms(4) match_tokens_iff [of i t0 t1] Suc.prems(2) stop by simp
    qed
  next
    case False
    then have "i = ?l" using lm Suc.prems(2) by simp
    then show ?thesis using False Suc.prems(1) by simp
  qed
qed

lemma key_match_eq:
  assumes "extra_key k = extra_key k'" "is_bigram k = is_bigram k'" "1 \<le> ps" "ps dvd key_len k" "ps dvd key_len k'"
  shows "key_match ps k k' = Inr (match_tokens (key_iter k) (key_iter k') div ps * ps)"
proof (cases "is_bigram k")
  case True
  then show ?thesis using assms match_bigrams [of k k']
    by (cases "ps = 1") (simp_all add: key_match_def check_compatible_def Let_def)
next
  case False
  have "match_tokens (key_iter k) (key_iter k') = match_tokens (token_ids k) (token_ids k')"
    using False assms(2) match_tokens_map [of Tok] by (simp add: key_iter_def inj_def)
  moreover have "key_len k = length (token_ids k)" "key_len k' = length (token_ids k')"
    using False assms(2) by (simp_all add: key_len_def)
  ultimately show ?thesis
    using False assms match_pages_eq [of ps "token_ids k" "token_ids k'" _ 0]
    by (simp add: key_match_def check_compatible_def Let_def del: match_pages.simps)
qed

section \<open>Dictionary keys\<close>

lemma child_key_eq:
  assumes "1 \<le> ps" "ps \<le> key_len k"
  shows "child_key ps k = Inr (extra_key k, take ps (key_iter k))"
proof (cases "is_bigram k")
  case False
  then show ?thesis using assms
    by (cases "token_ids k") (auto simp: child_key_def key_iter_def key_len_def Let_def take_map [symmetric] py_index_def)
next
  case True
  let ?t = "token_ids k"
  have l: "ps < length ?t" using assms True by (auto simp: key_len_def Let_def split: if_splits)
  have loop: "py_for (\<lambda>j acc. py_bind (py_index ?t (int j)) (\<lambda>a. py_bind (py_index ?t (int j + 1)) (\<lambda>b.
        Inr (acc @ [Pair a b])))) [0..<n] [] = Inr (map (\<lambda>i. Pair (?t ! i) (?t ! Suc i)) [0..<n])" if "n < length ?t" for n
    using that
  proof (induction n)
    case (Suc n)
    then show ?case using py_index_nat [of "Suc n" ?t] by (simp add: py_for_append add.commute)
  qed simp
  have "take ps (key_iter k) = map (\<lambda>i. Pair (?t ! i) (?t ! Suc i)) [0..<ps]"
    using True l by (simp add: key_iter_def take_map)
  moreover have "py_index ?t 0 = Inr (?t ! 0)" using l by (auto simp: py_index_def)
  moreover have "ps = 1 \<Longrightarrow> py_index ?t 1 = Inr (?t ! 1)" using l by (auto simp: py_index_def)
  ultimately show ?thesis
    using loop [OF l] l True assms(1)
    by (cases "ps = 1") (simp_all add: child_key_def Let_def)
qed

end
