(* ===== verification/Radix_Cache.thy ===== *)
theory Radix_Cache
  imports Radix_Key "HOL-Library.AList"
begin

text \<open>
  The radix cache of \<open>srt/mem_cache/radix_cache.py\<close> with the eviction strategies of
  \<open>srt/mem_cache/evict_policy.py\<close>. Tree nodes are objects in a store, addressed by the number
  \<open>TreeNode.counter\<close> has when they are made; a node that is cut off the tree stays in the store. Dictionaries
  are association lists in insertion order. \<open>time.monotonic()\<close> reads the next value of a clock, a function of
  the number of reads. The allocator is a parameter with its \<open>free\<close>.
\<close>

section \<open>Nodes and the state of the cache\<close>

record tree_node =
  children :: "(child_id \<times> nat) list"
  parent :: "nat option"
  node_key :: radix_key
  node_value :: "int list option"
  lock_ref :: int
  last_access_time :: int
  creation_time :: int
  hit_count :: int
  host_ref_counter :: int
  host_value :: "int list option"
  hash_value :: "digest list option"
  priority :: int
  node_id :: nat

datatype eviction_policy = LRU | LFU | FIFO | MRU | FILO | PRIORITY | SLRU

datatype medium = GPU | CPU

datatype kv_event =
    BlockStored "int list" "int option" "key_unit list" nat medium
  | BlockRemoved "int list" medium
  | AllBlocksCleared

record 'al radix_cache =
  disable :: bool
  rc_page_size :: nat
  is_eagle :: bool
  disable_finished_insert :: bool
  eviction_strategy :: eviction_policy
  enable_kv_cache_events :: bool
  sha256 :: "nat list \<Rightarrow> digest"
  monotonic :: "nat \<Rightarrow> int"
  clock_reads :: nat
  nodes :: "nat \<Rightarrow> tree_node option"
  counter :: nat
  root_node :: nat
  evictable_size :: int
  protected_size :: int
  evictable_leaves :: "nat list"
  kv_event_queue :: "kv_event list"
  kv_allocator :: 'al

definition get_node :: "'al radix_cache \<Rightarrow> nat \<Rightarrow> tree_node py" where
  "get_node s a = (case nodes s a of None \<Rightarrow> Inl AttributeError | Some n \<Rightarrow> Inr n)"

definition upd_node :: "nat \<Rightarrow> (tree_node \<Rightarrow> tree_node) \<Rightarrow> 'al radix_cache \<Rightarrow> 'al radix_cache" where
  "upd_node a f s = s\<lparr>nodes := (nodes s)(a := map_option f (nodes s a))\<rparr>"

definition read_clock :: "'al radix_cache \<Rightarrow> int \<times> 'al radix_cache" where
  "read_clock s = (monotonic s (clock_reads s), s\<lparr>clock_reads := Suc (clock_reads s)\<rparr>)"

definition attr :: "'a option \<Rightarrow> 'a py" where
  "attr x = (case x of None \<Rightarrow> Inl AttributeError | Some v \<Rightarrow> Inr v)"

text \<open>\<open>TreeNode(priority)\<close>: the clock is read for the access time and again for the creation time.\<close>

definition TreeNode :: "int \<Rightarrow> 'al radix_cache \<Rightarrow> nat \<times> 'al radix_cache" where
  "TreeNode prio s =
     (case read_clock s of (t1, s1) \<Rightarrow> case read_clock s1 of (t2, s2) \<Rightarrow>
      (counter s2,
       s2\<lparr>counter := Suc (counter s2),
          nodes := (nodes s2)(counter s2 \<mapsto>
            \<lparr>children = [], parent = None,
             node_key = \<lparr>token_ids = [], extra_key = None, is_bigram = False\<rparr>,
             node_value = None, lock_ref = 0, last_access_time = t1, creation_time = t2, hit_count = 0,
             host_ref_counter = 0, host_value = None, hash_value = None, priority = prio,
             node_id = counter s2\<rparr>)\<rparr>))"

definition evicted :: "tree_node \<Rightarrow> bool" where
  "evicted n \<longleftrightarrow> node_value n = None"

definition backuped :: "tree_node \<Rightarrow> bool" where
  "backuped n \<longleftrightarrow> host_value n \<noteq> None"

definition protect_host :: "tree_node \<Rightarrow> tree_node" where
  "protect_host n = n\<lparr>host_ref_counter := host_ref_counter n + 1\<rparr>"

definition release_host :: "tree_node \<Rightarrow> tree_node py" where
  "release_host n = (if host_ref_counter n > 0 then Inr (n\<lparr>host_ref_counter := host_ref_counter n - 1\<rparr>)
     else Inl RuntimeError)"

definition get_last_hash_value :: "tree_node \<Rightarrow> digest option" where
  "get_last_hash_value n = (case hash_value n of None \<Rightarrow> None | Some hs \<Rightarrow> if hs = [] then None else Some (last hs))"

definition compute_node_hash_values :: "'al radix_cache \<Rightarrow> tree_node \<Rightarrow> digest list py" where
  "compute_node_hash_values s n =
     py_bind (case parent n of None \<Rightarrow> Inr None
              | Some p \<Rightarrow> py_bind (get_node s p) (\<lambda>pn.
                  Inr (if hash_value pn \<noteq> None \<and> key_len (node_key pn) > 0 then get_last_hash_value pn else None)))
       (\<lambda>parent_hash. hash_pages (sha256 s) (rc_page_size s) (node_key n) parent_hash)"

section \<open>Eviction strategies\<close>

definition get_priority :: "eviction_policy \<Rightarrow> tree_node \<Rightarrow> int \<times> int" where
  "get_priority pol n = (case pol of
       LRU \<Rightarrow> (last_access_time n, 0)
     | LFU \<Rightarrow> (hit_count n, last_access_time n)
     | FIFO \<Rightarrow> (creation_time n, 0)
     | MRU \<Rightarrow> (- last_access_time n, 0)
     | FILO \<Rightarrow> (- creation_time n, 0)
     | PRIORITY \<Rightarrow> (priority n, last_access_time n)
     | SLRU \<Rightarrow> (if hit_count n \<ge> 2 then 1 else 0, last_access_time n))"

definition lower_char :: "char \<Rightarrow> char" where
  "lower_char c = (let n = of_char c :: nat in if 65 \<le> n \<and> n \<le> 90 then char_of (n + 32) else c)"

definition parse_policy :: "string \<Rightarrow> eviction_policy py" where
  "parse_policy name = (let p = map lower_char name in
     if p = ''lru'' then Inr LRU else if p = ''lfu'' then Inr LFU else if p = ''fifo'' then Inr FIFO
     else if p = ''mru'' then Inr MRU else if p = ''filo'' then Inr FILO
     else if p = ''priority'' then Inr PRIORITY else if p = ''slru'' then Inr SLRU
     else Inl ValueError)"

section \<open>Events\<close>

definition hash_str_to_int64 :: "digest \<Rightarrow> int" where
  "hash_str_to_int64 h =
     (let v = foldl (\<lambda>acc b. acc * 256 + int b) 0 (take 8 h)
      in if v \<ge> 2 ^ 63 then v - 2 ^ 64 else v)"

text \<open>The hash values of a node, computed when it has none yet.\<close>

definition ensure_hashes :: "nat \<Rightarrow> 'al radix_cache \<Rightarrow> (digest list \<times> 'al radix_cache) py" where
  "ensure_hashes a s = py_bind (get_node s a) (\<lambda>n.
     case hash_value n of
       Some hs \<Rightarrow> Inr (hs, s)
     | None \<Rightarrow> py_bind (compute_node_hash_values s n) (\<lambda>hs.
                Inr (hs, upd_node a (\<lambda>n. n\<lparr>hash_value := Some hs\<rparr>) s)))"

definition page_starts :: "nat \<Rightarrow> nat \<Rightarrow> nat list" where
  "page_starts ps len = map (\<lambda>p. p * ps) [0..<(len + ps - 1) div ps]"

definition record_store_event :: "nat \<Rightarrow> 'al radix_cache \<Rightarrow> 'al radix_cache py" where
  "record_store_event a s = (if \<not> enable_kv_cache_events s then Inr s else
     py_bind (ensure_hashes a s) (\<lambda>(hs, s1).
     py_bind (get_node s1 a) (\<lambda>n.
     py_bind (case parent n of None \<Rightarrow> Inr None
              | Some p \<Rightarrow> if p = root_node s1 then Inr None
                  else py_bind (get_node s1 p) (\<lambda>pn. Inr (map_option hash_str_to_int64 (get_last_hash_value pn)))) (\<lambda>parent_hash.
     let ps = rc_page_size s1; len = key_len (node_key n); units = key_iter (node_key n)
     in py_bind (py_for (\<lambda>(i, start) (prev, q).
            let stop = min (start + ps) len; toks = take (stop - start) (drop start units)
            in py_bind (py_index hs (int i)) (\<lambda>h.
               let b = hash_str_to_int64 h
               in Inr (Some b, q @ [BlockStored [b] prev toks (length toks) GPU])))
          (enumerate 0 (page_starts ps len)) (parent_hash, kv_event_queue s1))
        (\<lambda>(_, q). Inr (s1\<lparr>kv_event_queue := q\<rparr>))))))"

definition record_remove_event :: "nat \<Rightarrow> 'al radix_cache \<Rightarrow> 'al radix_cache py" where
  "record_remove_event a s = (if \<not> enable_kv_cache_events s then Inr s else
     py_bind (ensure_hashes a s) (\<lambda>(hs, s1).
     py_bind (get_node s1 a) (\<lambda>n.
     py_bind (py_for (\<lambda>(i, start) q.
            py_bind (py_index hs (int i)) (\<lambda>h. Inr (q @ [BlockRemoved [hash_str_to_int64 h] GPU])))
          (enumerate 0 (page_starts (rc_page_size s1) (key_len (node_key n)))) (kv_event_queue s1))
        (\<lambda>q. Inr (s1\<lparr>kv_event_queue := q\<rparr>)))))"

definition record_all_cleared_event :: "'al radix_cache \<Rightarrow> 'al radix_cache" where
  "record_all_cleared_event s = (if enable_kv_cache_events s
     then s\<lparr>kv_event_queue := kv_event_queue s @ [AllBlocksCleared]\<rparr> else s)"

definition take_events :: "'al radix_cache \<Rightarrow> kv_event list \<times> 'al radix_cache" where
  "take_events s = (if \<not> enable_kv_cache_events s then ([], s)
     else (kv_event_queue s, s\<lparr>kv_event_queue := []\<rparr>))"

section \<open>Reset and leaf status\<close>

definition MAXSIZE :: int where
  "MAXSIZE = 2 ^ 63 - 1"

definition reset :: "'al radix_cache \<Rightarrow> 'al radix_cache" where
  "reset s = (case TreeNode (- MAXSIZE) s of (r, s1) \<Rightarrow>
     record_all_cleared_event
       ((upd_node r (\<lambda>n. n\<lparr>node_value := Some [], host_value := Some [], lock_ref := 1, hash_value := Some []\<rparr>) s1)
        \<lparr>root_node := r, evictable_size := 0, protected_size := 0, evictable_leaves := []\<rparr>))"

definition add_leaf :: "nat \<Rightarrow> 'al radix_cache \<Rightarrow> 'al radix_cache" where
  "add_leaf a s = (if a \<in> set (evictable_leaves s) then s else s\<lparr>evictable_leaves := evictable_leaves s @ [a]\<rparr>)"

definition drop_leaf :: "nat \<Rightarrow> 'al radix_cache \<Rightarrow> 'al radix_cache" where
  "drop_leaf a s = s\<lparr>evictable_leaves := filter (\<lambda>b. b \<noteq> a) (evictable_leaves s)\<rparr>"

definition update_leaf_status :: "nat \<Rightarrow> 'al radix_cache \<Rightarrow> 'al radix_cache py" where
  "update_leaf_status a s = py_bind (get_node s a) (\<lambda>n.
     if evicted n \<or> lock_ref n > 0 then Inr (drop_leaf a s)
     else py_bind (py_for (\<lambda>(_, c) found. if found then Inr found
              else py_bind (get_node s c) (\<lambda>cn. Inr (\<not> evicted cn))) (children n) False)
       (\<lambda>found. Inr (if found then drop_leaf a s else add_leaf a s)))"

section \<open>Splitting a node\<close>

definition split_node :: "radix_key \<Rightarrow> nat \<Rightarrow> nat \<Rightarrow> 'al radix_cache \<Rightarrow> (nat \<times> 'al radix_cache) py" where
  "split_node key child split_len s =
     (let ps = rc_page_size s
      in py_bind (get_node s child) (\<lambda>c.
      case TreeNode (priority c) s of (nn, s1) \<Rightarrow>
      py_bind (child_key ps (key_from key split_len)) (\<lambda>ck1.
      py_bind (case node_value c of None \<Rightarrow> Inl TypeError | Some v \<Rightarrow> Inr v) (\<lambda>v.
      let hs = split_node_hash_value (hash_value c) split_len ps;
          s2 = upd_node nn (\<lambda>n. n\<lparr>hit_count := hit_count c, children := [(ck1, child)], parent := parent c,
                 lock_ref := lock_ref c, node_key := key_upto (node_key c) split_len,
                 node_value := Some (take split_len v), hash_value := fst hs\<rparr>) s1;
          s3 = upd_node child (\<lambda>n. n\<lparr>parent := Some nn, node_key := key_from (node_key c) split_len,
                 node_value := Some (drop split_len v), hash_value := snd hs\<rparr>) s2
      in py_bind (child_key ps key) (\<lambda>ck2.
         py_bind (attr (parent c)) (\<lambda>p.
         py_bind (get_node s3 p) (\<lambda>_.
         Inr (nn, upd_node p (\<lambda>n. n\<lparr>children := AList.update ck2 nn (children n)\<rparr>) s3))))))))"

section \<open>Matching a prefix\<close>

fun match_loop ::
  "nat \<Rightarrow> int \<Rightarrow> nat \<Rightarrow> radix_key \<Rightarrow> child_id \<Rightarrow> int list list \<Rightarrow> 'al radix_cache \<Rightarrow>
     (int list list \<times> nat \<times> 'al radix_cache) py" where
  "match_loop fuel t node key ck acc s =
     py_bind (get_node s node) (\<lambda>n.
     case (if key_len key > 0 then map_of (children n) ck else None) of
       None \<Rightarrow> Inr (acc, node, s)
     | Some child \<Rightarrow>
         py_bind (get_node s child) (\<lambda>c.
         let s1 = upd_node child (\<lambda>n. n\<lparr>last_access_time := t\<rparr>) s
         in py_bind (key_match (rc_page_size s) (node_key c) key) (\<lambda>prefix_len.
            if prefix_len < key_len (node_key c)
            then py_bind (split_node (node_key c) child prefix_len s1) (\<lambda>(nn, s2).
                 py_bind (get_node s2 nn) (\<lambda>new.
                 py_bind (attr (node_value new)) (\<lambda>v. Inr (acc @ [v], nn, s2))))
            else py_bind (attr (node_value c)) (\<lambda>v.
                 let key' = key_from key prefix_len
                 in py_bind (if key_len key' > 0 then child_key (rc_page_size s) key' else Inr ck) (\<lambda>ck'.
                    case fuel of 0 \<Rightarrow> Inl OutOfFuel
                    | Suc f \<Rightarrow> match_loop f t child key' ck' (acc @ [v]) s1)))))"

definition match_prefix_helper ::
  "nat \<Rightarrow> radix_key \<Rightarrow> 'al radix_cache \<Rightarrow> (int list list \<times> nat \<times> 'al radix_cache) py" where
  "match_prefix_helper node key s =
     (case read_clock s of (t, s1) \<Rightarrow>
      let s2 = upd_node node (\<lambda>n. n\<lparr>last_access_time := t\<rparr>) s1
      in py_bind (child_key (rc_page_size s) key) (\<lambda>ck. match_loop (key_len key) t node key ck [] s2))"

definition match_prefix :: "radix_key \<Rightarrow> 'al radix_cache \<Rightarrow> (int list \<times> nat \<times> 'al radix_cache) py" where
  "match_prefix key0 s =
     (case maybe_to_bigram_view (is_eagle s) key0 (None :: int list option) of (key, _) \<Rightarrow>
      if disable s \<or> key_len key = 0 then Inr ([], root_node s, s)
      else (let key' = page_aligned (rc_page_size s) key
            in if key_len key' = 0 then Inr ([], root_node s, s)
               else py_bind (match_prefix_helper (root_node s) key' s) (\<lambda>(value, last_node, s').
                    Inr (concat value, last_node, s'))))"

section \<open>Insertion\<close>

definition inc_hit_count :: "bool \<Rightarrow> nat \<Rightarrow> 'al radix_cache \<Rightarrow> 'al radix_cache" where
  "inc_hit_count chunked a s = (if chunked then s else upd_node a (\<lambda>n. n\<lparr>hit_count := hit_count n + 1\<rparr>) s)"

fun insert_loop ::
  "nat \<Rightarrow> int \<Rightarrow> int \<Rightarrow> bool \<Rightarrow> nat \<Rightarrow> radix_key \<Rightarrow> int list \<Rightarrow> child_id \<Rightarrow> nat \<Rightarrow> 'al radix_cache \<Rightarrow>
     (nat \<times> radix_key \<times> int list \<times> child_id \<times> nat \<times> 'al radix_cache) py" where
  "insert_loop fuel t prio chunked node key value ck tot s =
     py_bind (get_node s node) (\<lambda>n.
     case (if key_len key > 0 then map_of (children n) ck else None) of
       None \<Rightarrow> Inr (node, key, value, ck, tot, s)
     | Some child \<Rightarrow>
         py_bind (get_node s child) (\<lambda>c.
         let s1 = upd_node child (\<lambda>n. n\<lparr>last_access_time := t\<rparr>) s
         in py_bind (key_match (rc_page_size s) (node_key c) key) (\<lambda>prefix_len.
            let key' = key_from key prefix_len; value' = drop prefix_len value
            in py_bind
                (if prefix_len < key_len (node_key c)
                 then py_bind (split_node (node_key c) child prefix_len s1) (\<lambda>(nn, s2).
                      Inr (nn, inc_hit_count chunked nn (upd_node nn (\<lambda>n. n\<lparr>priority := max (priority n) prio\<rparr>) s2)))
                 else Inr (child, inc_hit_count chunked child (upd_node child (\<lambda>n. n\<lparr>priority := max (priority n) prio\<rparr>) s1)))
                (\<lambda>(node', s3).
                 py_bind (if key_len key' > 0 then child_key (rc_page_size s) key' else Inr ck) (\<lambda>ck'.
                 case fuel of 0 \<Rightarrow> Inl OutOfFuel
                 | Suc f \<Rightarrow> insert_loop f t prio chunked node' key' value' ck' (tot + prefix_len) s3)))))"

text \<open>The new leaf for what the tree does not have yet.\<close>

definition insert_leaf ::
  "int \<Rightarrow> bool \<Rightarrow> nat \<Rightarrow> radix_key \<Rightarrow> int list \<Rightarrow> child_id \<Rightarrow> 'al radix_cache \<Rightarrow> 'al radix_cache py" where
  "insert_leaf prio chunked node key value ck s =
     (case TreeNode prio s of (nn, s1) \<Rightarrow>
      let s2 = inc_hit_count chunked nn
                 (upd_node nn (\<lambda>n. n\<lparr>parent := Some node, node_key := key, node_value := Some value\<rparr>) s1);
          s3 = upd_node node (\<lambda>n. n\<lparr>children := AList.update ck nn (children n)\<rparr>) s2;
          s4 = s3\<lparr>evictable_size := evictable_size s3 + int (key_len key)\<rparr>
      in py_bind (update_leaf_status node s4) (\<lambda>s5.
         py_bind (update_leaf_status nn s5) (\<lambda>s6. record_store_event nn s6)))"

definition insert_helper ::
  "nat \<Rightarrow> radix_key \<Rightarrow> int list \<Rightarrow> int option \<Rightarrow> bool \<Rightarrow> 'al radix_cache \<Rightarrow> (nat \<times> 'al radix_cache) py" where
  "insert_helper node key value prio0 chunked s =
     (let prio = (case prio0 of None \<Rightarrow> 0 | Some p \<Rightarrow> p)
      in case read_clock s of (t, s1) \<Rightarrow>
         let s2 = upd_node node (\<lambda>n. n\<lparr>last_access_time := t, priority := max (priority n) prio\<rparr>) s1
         in if key_len key = 0 then Inr (0, s2)
            else py_bind (child_key (rc_page_size s) key) (\<lambda>ck.
                 py_bind (insert_loop (key_len key) t prio chunked node key value ck 0 s2)
                   (\<lambda>(node', key', value', ck', tot, s3).
                    if key_len key' > 0
                    then py_bind (insert_leaf prio chunked node' key' value' ck' s3) (\<lambda>s4. Inr (tot, s4))
                    else Inr (tot, s3))))"

definition insert_cache ::
  "radix_key \<Rightarrow> int list option \<Rightarrow> int option \<Rightarrow> bool \<Rightarrow> 'al radix_cache \<Rightarrow> (nat \<times> 'al radix_cache) py" where
  "insert_cache key0 value0 prio chunked s =
     (if disable s then Inr (0, s)
      else (case maybe_to_bigram_view (is_eagle s) key0 value0 of (key1, value1) \<Rightarrow>
            let key = page_aligned (rc_page_size s) key1;
                value = (case value1 of Some v \<Rightarrow> take (key_len key) v
                         | None \<Rightarrow> take (key_len key) (token_ids key))
            in insert_helper (root_node s) key value prio chunked s))"

section \<open>Locking\<close>

fun inc_lock_loop :: "nat \<Rightarrow> nat \<Rightarrow> int \<Rightarrow> 'al radix_cache \<Rightarrow> (int \<times> 'al radix_cache) py" where
  "inc_lock_loop fuel node delta s =
     (if node = root_node s then Inr (delta, s)
      else py_bind (get_node s node) (\<lambda>n.
        let k = int (key_len (node_key n));
            (s1, delta1) = (if lock_ref n = 0
              then (s\<lparr>evictable_size := evictable_size s - k, protected_size := protected_size s + k\<rparr>, delta - k)
              else (s, delta));
            s2 = upd_node node (\<lambda>n. n\<lparr>lock_ref := lock_ref n + 1\<rparr>) s1
        in py_bind (update_leaf_status node s2) (\<lambda>s3.
           py_bind (attr (parent n)) (\<lambda>p.
           case fuel of 0 \<Rightarrow> Inl OutOfFuel | Suc f \<Rightarrow> inc_lock_loop f p delta1 s3))))"

definition inc_lock_ref :: "nat \<Rightarrow> 'al radix_cache \<Rightarrow> (int \<times> 'al radix_cache) py" where
  "inc_lock_ref node s = (if disable s then Inr (0, s) else inc_lock_loop (counter s) node 0 s)"

fun dec_lock_loop :: "nat \<Rightarrow> nat \<Rightarrow> int \<Rightarrow> 'al radix_cache \<Rightarrow> (int \<times> 'al radix_cache) py" where
  "dec_lock_loop fuel node delta s =
     (if node = root_node s then Inr (delta, s)
      else py_bind (get_node s node) (\<lambda>n.
        let k = int (key_len (node_key n));
            (s1, delta1) = (if lock_ref n = 1
              then (s\<lparr>evictable_size := evictable_size s + k, protected_size := protected_size s - k\<rparr>, delta + k)
              else (s, delta));
            s2 = upd_node node (\<lambda>n. n\<lparr>lock_ref := lock_ref n - 1\<rparr>) s1
        in py_bind (update_leaf_status node s2) (\<lambda>s3.
           case parent n of None \<Rightarrow> Inl AssertionError
           | Some p \<Rightarrow> (case fuel of 0 \<Rightarrow> Inl OutOfFuel | Suc f \<Rightarrow> dec_lock_loop f p delta1 s3))))"

definition dec_lock_ref :: "nat \<Rightarrow> 'al radix_cache \<Rightarrow> (int \<times> 'al radix_cache) py" where
  "dec_lock_ref node s = (if disable s then Inr (0, s) else dec_lock_loop (counter s) node 0 s)"

section \<open>Eviction\<close>

definition delete_leaf :: "nat \<Rightarrow> 'al radix_cache \<Rightarrow> 'al radix_cache py" where
  "delete_leaf a s = py_bind (get_node s a) (\<lambda>n.
     py_bind (child_key (rc_page_size s) (node_key n)) (\<lambda>ck.
     py_bind (attr (parent n)) (\<lambda>p.
     py_bind (get_node s p) (\<lambda>pn.
     let s1 = upd_node p (\<lambda>m. m\<lparr>children := AList.delete ck (children m)\<rparr>) s
     in py_assert (map_of (children pn) ck = Some a)
          (update_leaf_status p (drop_leaf a
             (s1\<lparr>evictable_size := evictable_size s1 - int (key_len (node_key n))\<rparr>)))))))"

text \<open>
  The heap: entries are compared by priority and then by access time (\<open>TreeNode.__lt__\<close>); \<open>heappop\<close> takes
  out a least entry.
\<close>

type_synonym heap_entry = "(int \<times> int) \<times> int \<times> nat"

definition entry_le :: "heap_entry \<Rightarrow> heap_entry \<Rightarrow> bool" where
  "entry_le e f = (case (e, f) of (((a, b), c, _), ((a', b'), c', _)) \<Rightarrow>
     a < a' \<or> a = a' \<and> (b < b' \<or> b = b' \<and> c \<le> c'))"

fun least_entry :: "heap_entry \<Rightarrow> heap_entry list \<Rightarrow> heap_entry" where
  "least_entry e [] = e"
| "least_entry e (f # fs) = least_entry (if entry_le e f then e else f) fs"

definition heap_entry_of :: "'al radix_cache \<Rightarrow> nat \<Rightarrow> heap_entry py" where
  "heap_entry_of s a = py_bind (get_node s a) (\<lambda>n.
     Inr (get_priority (eviction_strategy s) n, last_access_time n, a))"

fun evict_loop ::
  "('al \<Rightarrow> int list \<Rightarrow> 'al) \<Rightarrow> nat \<Rightarrow> int \<Rightarrow> int \<Rightarrow> heap_entry list \<Rightarrow> 'al radix_cache \<Rightarrow> (int \<times> 'al radix_cache) py" where
  "evict_loop free fuel num_tokens num_evicted heap s =
     (if num_evicted < num_tokens
      then (case heap of [] \<Rightarrow> Inr (num_evicted, s)
        | e # es \<Rightarrow>
          (let m = least_entry e es; x = snd (snd m); heap1 = remove1 m heap
           in py_bind (get_node s x) (\<lambda>n.
              py_bind (attr (node_value n)) (\<lambda>v.
              py_bind (delete_leaf x (s\<lparr>kv_allocator := free (kv_allocator s) v\<rparr>)) (\<lambda>s1.
              py_bind (attr (parent n)) (\<lambda>p.
              py_bind (get_node s1 p) (\<lambda>pn.
              py_bind (if children pn = [] \<and> lock_ref pn = 0
                       then py_bind (heap_entry_of s1 p) (\<lambda>e'. Inr (heap1 @ [e'])) else Inr heap1) (\<lambda>heap2.
              py_bind (record_remove_event x s1) (\<lambda>s2.
              case fuel of 0 \<Rightarrow> Inl OutOfFuel
              | Suc f \<Rightarrow> evict_loop free f num_tokens (num_evicted + int (length v)) heap2 s2)))))))))
      else Inr (num_evicted, s))"

definition evict :: "('al \<Rightarrow> int list \<Rightarrow> 'al) \<Rightarrow> int \<Rightarrow> 'al radix_cache \<Rightarrow> (int \<times> 'al radix_cache) py" where
  "evict free num_tokens s =
     (if disable s then Inr (0, s)
      else py_bind (py_for (\<lambda>a h. py_bind (heap_entry_of s a) (\<lambda>e. Inr (h @ [e]))) (evictable_leaves s) [])
        (\<lambda>heap. evict_loop free (counter s) num_tokens 0 heap s))"

section \<open>Walks over the tree\<close>

fun total_size_loop :: "nat \<Rightarrow> nat list \<Rightarrow> int \<Rightarrow> 'al radix_cache \<Rightarrow> int py" where
  "total_size_loop fuel stack tot s = (case stack of [] \<Rightarrow> Inr tot
     | _ # _ \<Rightarrow>
       py_bind (get_node s (last stack)) (\<lambda>n.
       py_bind (attr (node_value n)) (\<lambda>v.
       py_bind (py_for (\<lambda>(_, c) st. py_bind (get_node s c) (\<lambda>cn. Inr (if evicted cn then st else st @ [c])))
                  (children n) (butlast stack)) (\<lambda>stack'.
       case fuel of 0 \<Rightarrow> Inl OutOfFuel | Suc f \<Rightarrow> total_size_loop f stack' (tot + int (length v)) s))))"

definition total_size :: "'al radix_cache \<Rightarrow> int py" where
  "total_size s = total_size_loop (counter s) [root_node s] 0 s"

text \<open>The equations of the loops with fuel are used one round at a time.\<close>

declare match_loop.simps [simp del] insert_loop.simps [simp del] inc_lock_loop.simps [simp del]
  dec_lock_loop.simps [simp del] evict_loop.simps [simp del] total_size_loop.simps [simp del]

end
