(* ===== verification/Radix_Tree.thy ===== *)
theory Radix_Tree
  imports Radix_Cache
begin

text \<open>
  The shape of the radix tree, apart from access times, priorities, hit counts and hashes: what the store holds
  of each node's children, parent, key, slots and lock count, when such a store is a tree, and which prefixes with
  which slots it caches. The content is stated by walks from the root, so that it does not depend on where keys
  are cut into nodes.
\<close>

section \<open>Shapes\<close>

record cell =
  c_children :: "(child_id \<times> nat) list"
  c_parent :: "nat option"
  c_key :: radix_key
  c_value :: "int list option"
  c_lock :: int

definition cell_of :: "tree_node \<Rightarrow> cell" where
  "cell_of n = \<lparr>c_children = children n, c_parent = parent n, c_key = node_key n, c_value = node_value n, c_lock = lock_ref n\<rparr>"

definition shape :: "'al radix_cache \<Rightarrow> nat \<Rightarrow> cell option" where
  "shape s a = map_option cell_of (nodes s a)"

lemma cell_of_simps [simp]:
  "c_children (cell_of n) = children n" "c_parent (cell_of n) = parent n" "c_key (cell_of n) = node_key n"
  "c_value (cell_of n) = node_value n" "c_lock (cell_of n) = lock_ref n"
  by (simp_all add: cell_of_def)

lemma get_node_shape:
  assumes "shape s a = Some c"
  obtains n where "get_node s a = Inr n" "nodes s a = Some n" "cell_of n = c"
  using assms by (auto simp: shape_def get_node_def)

lemma shape_upd_same: "(\<And>n. cell_of (f n) = cell_of n) \<Longrightarrow> shape (upd_node a f s) = shape s"
  by (auto simp: shape_def upd_node_def fun_eq_iff option.map_comp comp_def)

lemma shape_upd:
  "(\<And>n. cell_of (f n) = g (cell_of n)) \<Longrightarrow> shape (upd_node a f s) = (shape s)(a := map_option g (shape s a))"
  by (auto simp: shape_def upd_node_def fun_eq_iff option.map_comp comp_def)

lemma upd_node_fields [simp]:
  "rc_page_size (upd_node a f s) = rc_page_size s" "is_eagle (upd_node a f s) = is_eagle s"
  "root_node (upd_node a f s) = root_node s" "counter (upd_node a f s) = counter s"
  "evictable_size (upd_node a f s) = evictable_size s" "protected_size (upd_node a f s) = protected_size s"
  "evictable_leaves (upd_node a f s) = evictable_leaves s" "disable (upd_node a f s) = disable s"
  "kv_allocator (upd_node a f s) = kv_allocator s" "enable_kv_cache_events (upd_node a f s) = enable_kv_cache_events s"
  "eviction_strategy (upd_node a f s) = eviction_strategy s"
  by (simp_all add: upd_node_def)

lemma shape_fields [simp]:
  "shape (s\<lparr>evictable_size := e\<rparr>) = shape s" "shape (s\<lparr>protected_size := e\<rparr>) = shape s"
  "shape (s\<lparr>evictable_leaves := ls\<rparr>) = shape s" "shape (s\<lparr>clock_reads := t\<rparr>) = shape s"
  "shape (s\<lparr>kv_allocator := al\<rparr>) = shape s" "shape (s\<lparr>kv_event_queue := q\<rparr>) = shape s"
  "shape (s\<lparr>counter := n\<rparr>) = shape s"
  by (simp_all add: shape_def fun_eq_iff)

section \<open>Trees\<close>

type_synonym heap = "nat \<Rightarrow> cell option"

abbreviation cells :: "heap \<Rightarrow> nat \<Rightarrow> cell" where
  "cells h a \<equiv> the (h a)"

definition dict_key :: "nat \<Rightarrow> radix_key \<Rightarrow> child_id" where
  "dict_key ps k = (extra_key k, take ps (key_iter k))"

text \<open>
  \<open>D\<close> are the nodes of the tree, \<open>rk\<close> ranks every node above its parent: there are no cycles. Keys are whole
  pages, every node but the root has one slot per unit of its key, children are filed under their first page, and
  below the first level the namespace is that of the parent.
\<close>

definition tree_ok :: "nat \<Rightarrow> bool \<Rightarrow> nat \<Rightarrow> heap \<Rightarrow> nat set \<Rightarrow> (nat \<Rightarrow> nat) \<Rightarrow> bool" where
  "tree_ok ps eagle root h D rk \<longleftrightarrow>
     1 \<le> ps \<and> finite D \<and> root \<in> D \<and> (\<forall>a \<in> D. h a \<noteq> None) \<and>
     c_parent (cells h root) = None \<and> c_value (cells h root) = Some [] \<and>
     (\<forall>p \<in> D. distinct (map fst (c_children (cells h p)))) \<and>
     (\<forall>p \<in> D. \<forall>(k, a) \<in> set (c_children (cells h p)).
        a \<in> D \<and> a \<noteq> root \<and> c_parent (cells h a) = Some p \<and> k = dict_key ps (c_key (cells h a))) \<and>
     (\<forall>a \<in> D - {root}. \<exists>p \<in> D. c_parent (cells h a) = Some p \<and> rk p < rk a \<and>
        (dict_key ps (c_key (cells h a)), a) \<in> set (c_children (cells h p)) \<and>
        (p \<noteq> root \<longrightarrow> extra_key (c_key (cells h p)) = extra_key (c_key (cells h a)))) \<and>
     (\<forall>a \<in> D - {root}. let k = c_key (cells h a) in 0 < key_len k \<and> ps dvd key_len k \<and> is_bigram k = eagle \<and>
        (\<exists>v. c_value (cells h a) = Some v \<and> length v = key_len k))"

lemma tree_okD:
  assumes "tree_ok ps eagle root h D rk"
  shows "1 \<le> ps" "finite D" "root \<in> D" "\<And>a. a \<in> D \<Longrightarrow> h a \<noteq> None"
    "c_parent (cells h root) = None" "c_value (cells h root) = Some []"
    "\<And>p. p \<in> D \<Longrightarrow> distinct (map fst (c_children (cells h p)))"
    "\<And>p k a. p \<in> D \<Longrightarrow> (k, a) \<in> set (c_children (cells h p)) \<Longrightarrow>
        a \<in> D \<and> a \<noteq> root \<and> c_parent (cells h a) = Some p \<and> k = dict_key ps (c_key (cells h a))"
    "\<And>a. a \<in> D \<Longrightarrow> a \<noteq> root \<Longrightarrow> \<exists>p \<in> D. c_parent (cells h a) = Some p \<and> rk p < rk a \<and>
        (dict_key ps (c_key (cells h a)), a) \<in> set (c_children (cells h p)) \<and>
        (p \<noteq> root \<longrightarrow> extra_key (c_key (cells h p)) = extra_key (c_key (cells h a)))"
    "\<And>a. a \<in> D \<Longrightarrow> a \<noteq> root \<Longrightarrow> 0 < key_len (c_key (cells h a))"
    "\<And>a. a \<in> D \<Longrightarrow> a \<noteq> root \<Longrightarrow> ps dvd key_len (c_key (cells h a))"
    "\<And>a. a \<in> D \<Longrightarrow> a \<noteq> root \<Longrightarrow> is_bigram (c_key (cells h a)) = eagle"
    "\<And>a. a \<in> D \<Longrightarrow> a \<noteq> root \<Longrightarrow> \<exists>v. c_value (cells h a) = Some v \<and> length v = key_len (c_key (cells h a))"
  using assms unfolding tree_ok_def Let_def by blast+

lemma parent_in_tree:
  assumes "tree_ok ps eagle root h D rk" "a \<in> D" "h a = Some c" "c_parent c = Some p"
  shows "p \<in> D"
proof -
  have "a \<noteq> root" using assms(3,4) tree_okD(5) [OF assms(1)] by auto
  then show ?thesis using tree_okD(9) [OF assms(1,2)] assms(3,4) by auto
qed

text \<open>The nodes from a node up to the root.\<close>

inductive up :: "heap \<Rightarrow> nat \<Rightarrow> nat \<Rightarrow> bool" for h where
  up_refl: "up h a a"
| up_step: "h a = Some c \<Longrightarrow> c_parent c = Some p \<Longrightarrow> up h p b \<Longrightarrow> up h a b"

lemma up_unfold: "up h a b \<longleftrightarrow> a = b \<or> (\<exists>c p. h a = Some c \<and> c_parent c = Some p \<and> up h p b)"
  by (subst up.simps) blast

lemma up_cong:
  assumes "\<And>x. map_option c_parent (h x) = map_option c_parent (h' x)"
  shows "up h a b \<longleftrightarrow> up h' a b"
proof -
  have "up h2 a b" if u: "up h1 a b" and eq: "\<And>x. map_option c_parent (h1 x) = map_option c_parent (h2 x)" for h1 h2
    using u
  proof induction
    case (up_step a c p b)
    then obtain c' where "h2 a = Some c'" "c_parent c' = Some p" using eq [of a] by (cases "h2 a") auto
    then show ?case using up_step.IH by (rule up.up_step)
  qed (rule up_refl)
  then show ?thesis using assms by metis
qed

lemma up_in_tree:
  assumes "up h a b" "tree_ok ps eagle root h D rk" "a \<in> D"
  shows "b \<in> D \<and> (b = a \<or> rk b < rk a)"
  using assms
proof induction
  case (up_step a c p b)
  have "a \<noteq> root" using up_step.hyps tree_okD(5) [OF up_step.prems(1)] by auto
  then have "p \<in> D \<and> rk p < rk a" using tree_okD(9) [OF up_step.prems(1) up_step.prems(2)] up_step.hyps by auto
  then show ?case using up_step.IH [OF up_step.prems(1)] by auto
qed simp

section \<open>What the tree caches\<close>

inductive walk :: "heap \<Rightarrow> string option \<Rightarrow> nat \<Rightarrow> key_unit list \<Rightarrow> int list \<Rightarrow> nat \<Rightarrow> bool" for h ek where
  walk_nil: "walk h ek a [] [] a"
| walk_cons: "h a = Some p \<Longrightarrow> (k, x) \<in> set (c_children p) \<Longrightarrow> h x = Some c \<Longrightarrow> extra_key (c_key c) = ek \<Longrightarrow>
    c_value c = Some v \<Longrightarrow> walk h ek x us vs b \<Longrightarrow> walk h ek a (key_iter (c_key c) @ us) (v @ vs) b"

inductive_cases walk_consE: "walk h ek a (u # us) vs b"

definition cached :: "nat \<Rightarrow> nat \<Rightarrow> heap \<Rightarrow> string option \<Rightarrow> key_unit list \<Rightarrow> int list \<Rightarrow> bool" where
  "cached ps root h ek us vs \<longleftrightarrow> ps dvd length us \<and>
     (\<exists>u v b. walk h ek root u v b \<and> length us \<le> length u \<and> us = take (length us) u \<and> vs = take (length us) v)"

lemma walk_append: "walk h ek a u v b \<Longrightarrow> walk h ek b u' v' c \<Longrightarrow> walk h ek a (u @ u') (v @ v') c"
proof (induction rule: walk.induct)
  case (walk_cons a p k x c v us vs b)
  then show ?case using walk.walk_cons [of h a p k x c ek v "us @ u'" "vs @ v'"] by simp
qed simp

lemma walk_snoc:
  assumes "walk h ek a u v b" "h b = Some p" "(k, x) \<in> set (c_children p)" "h x = Some c" "extra_key (c_key c) = ek"
    "c_value c = Some w"
  shows "walk h ek a (u @ key_iter (c_key c)) (v @ w) x"
  using walk_append [OF assms(1) walk_cons [OF assms(2-6) walk_nil]] by simp

lemma child_facts:
  assumes "tree_ok ps eagle root h D rk" "a \<in> D" "h a = Some p" "(k, x) \<in> set (c_children p)" "h x = Some c" "c_value c = Some v"
  shows "x \<in> D" "x \<noteq> root" "k = dict_key ps (c_key c)" "length v = key_len (c_key c)" "0 < key_len (c_key c)"
    "ps \<le> key_len (c_key c)" "ps dvd key_len (c_key c)" "c_parent c = Some a" "is_bigram (c_key c) = eagle"
proof -
  have x: "x \<in> D" "x \<noteq> root" "c_parent (cells h x) = Some a" "k = dict_key ps (c_key (cells h x))"
    using tree_okD(8) [OF assms(1,2), of k x] assms(3,4) by auto
  then show "x \<in> D" "x \<noteq> root" "k = dict_key ps (c_key c)" "c_parent c = Some a" using assms(5) by simp_all
  have c: "cells h x = c" using assms(5) by simp
  show "0 < key_len (c_key c)" "ps dvd key_len (c_key c)" "is_bigram (c_key c) = eagle"
    using tree_okD(10-12) [OF assms(1) x(1,2)] unfolding c .
  then show "ps \<le> key_len (c_key c)" by (intro dvd_imp_le)
  show "length v = key_len (c_key c)" using tree_okD(13) [OF assms(1) x(1,2)] assms(6) unfolding c by simp
qed

lemma walk_facts:
  assumes "walk h ek a u v b" "tree_ok ps eagle root h D rk" "a \<in> D"
  shows "b \<in> D" "length v = length u" "ps dvd length u" "u \<noteq> [] \<Longrightarrow> ps \<le> length u"
proof -
  have "b \<in> D \<and> length v = length u \<and> ps dvd length u"
    using assms
  proof (induction rule: walk.induct)
    case (walk_cons a p k x c v us vs b)
    note f = child_facts [OF walk_cons.prems(1,2) walk_cons.hyps(1-3,5)]
    then show ?case using walk_cons.IH [OF walk_cons.prems(1) f(1)] by simp
  qed simp
  then show "b \<in> D" "length v = length u" "ps dvd length u" by simp_all
  then show "u \<noteq> [] \<Longrightarrow> ps \<le> length u" by (intro dvd_imp_le) auto
qed

lemma walk_first:
  assumes "walk h ek a u v b" "u \<noteq> []" "tree_ok ps eagle root h D rk" "a \<in> D"
  obtains p k x c w us vs where "h a = Some p" "(k, x) \<in> set (c_children p)" "h x = Some c" "extra_key (c_key c) = ek"
    "c_value c = Some w" "walk h ek x us vs b" "u = key_iter (c_key c) @ us" "v = w @ vs" "k = (ek, take ps u)"
  using assms(1)
proof (cases rule: walk.cases)
  case (walk_cons p k x c w us vs)
  note f = child_facts(3,6) [OF assms(3,4) walk_cons(3,4,5,7)]
  have "k = (ek, take ps u)" using f walk_cons(1,6) by (simp add: dict_key_def)
  then show ?thesis using that [OF walk_cons(3-8,1,2)] by simp
qed (use assms(2) in simp)

lemma child_unique:
  assumes "tree_ok ps eagle root h D rk" "a \<in> D" "h a = Some p" "(k, x) \<in> set (c_children p)" "(k, y) \<in> set (c_children p)"
  shows "x = y"
  using tree_okD(7) [OF assms(1,2)] assms(3-5) eq_key_imp_eq_value by fastforce

text \<open>A walk that reads a prefix of what another walk reads is a part of it.\<close>

lemma walk_prefix:
  assumes "walk h ek a u v b" "walk h ek a u' v' c" "take (length u) u' = u" "tree_ok ps eagle root h D rk" "a \<in> D"
  shows "\<exists>w z. u' = u @ w \<and> v' = v @ z \<and> walk h ek b w z c"
  using assms
proof (induction arbitrary: u' v' rule: walk.induct)
  case (walk_cons a p k x c1 w us vs b)
  note f = child_facts [OF walk_cons.prems(3,4) walk_cons.hyps(1-3,5)]
  have ne: "u' \<noteq> []" using walk_cons.prems(2) f(5) by (metis append_is_Nil_conv length_greater_0_conv length_key_iter take_Nil)
  from walk_first [OF walk_cons.prems(1) ne walk_cons.prems(3,4)]
  obtain p' k' x' c' w' us' vs' where g: "h a = Some p'" "(k', x') \<in> set (c_children p')" "h x' = Some c'"
    "c_value c' = Some w'" "walk h ek x' us' vs' c" "u' = key_iter (c_key c') @ us'" "v' = w' @ vs'" "k' = (ek, take ps u')"
    by metis
  have "take ps u' = take ps (take (length (key_iter (c_key c1) @ us)) u')"
    using f(6) by (simp add: min_def)
  also have "\<dots> = take ps (key_iter (c_key c1))" using walk_cons.prems(2) f(6) by simp
  finally have "k' = k" using g(8) f(3) walk_cons.hyps(4) by (simp add: dict_key_def)
  then have x: "x' = x" using child_unique [OF walk_cons.prems(3,4) walk_cons.hyps(1,2)] g(1,2) walk_cons.hyps(1) by auto
  then have c': "c' = c1" "w' = w" using g(3,4) walk_cons.hyps(3,5) by simp_all
  have "take (length us) us' = us" using walk_cons.prems(2) g(6) c' by simp
  then obtain w1 z1 where "us' = us @ w1" "vs' = vs @ z1" "walk h ek b w1 z1 c"
    using walk_cons.IH [OF _ _ walk_cons.prems(3) f(1)] g(5) x by blast
  then show ?case using g(6,7) c' by simp
qed (auto intro: walk_nil)

text \<open>Walks that read the same pages read the same slots.\<close>

lemma walk_slots:
  assumes "walk h ek a u v b" "walk h ek a u' v' c" "take m u = take m u'" "m \<le> length u" "m \<le> length u'" "ps dvd m"
    "tree_ok ps eagle root h D rk" "a \<in> D"
  shows "take m v = take m v'"
  using assms
proof (induction arbitrary: u' v' m rule: walk.induct)
  case (walk_cons a p k x c1 w us vs b)
  show ?case
  proof (cases "m = 0")
    case False
    note f = child_facts [OF walk_cons.prems(6,7) walk_cons.hyps(1-3,5)]
    have pm: "ps \<le> m" using False walk_cons.prems(5) by (simp add: dvd_imp_le)
    then have ne: "u' \<noteq> []" using False walk_cons.prems(4) by auto
    from walk_first [OF walk_cons.prems(1) ne walk_cons.prems(6,7)]
    obtain p' k' x' c' w' us' vs' where g: "h a = Some p'" "(k', x') \<in> set (c_children p')" "h x' = Some c'"
      "c_value c' = Some w'" "walk h ek x' us' vs' c" "u' = key_iter (c_key c') @ us'" "v' = w' @ vs'" "k' = (ek, take ps u')"
      by metis
    have "take ps u' = take ps (take m u')" using pm by (simp add: min_def)
    also have "\<dots> = take ps (take m (key_iter (c_key c1) @ us))" using walk_cons.prems(2) by simp
    also have "\<dots> = take ps (key_iter (c_key c1))" using pm f(6) by (simp add: min_def)
    finally have "k' = k" using g(8) f(3) walk_cons.hyps(4) by (simp add: dict_key_def)
    then have x: "x' = x" using child_unique [OF walk_cons.prems(6,7) walk_cons.hyps(1,2)] g(1,2) walk_cons.hyps(1) by auto
    then have c': "c' = c1" "w' = w" using g(3,4) walk_cons.hyps(3,5) by simp_all
    let ?n = "m - key_len (c_key c1)"
    have "take ?n us = take ?n us'" using walk_cons.prems(2) g(6) c' by (simp add: take_append)
    moreover have "ps dvd ?n" using walk_cons.prems(5) f(7) by simp
    ultimately have "take ?n vs = take ?n vs'"
      using walk_cons.IH [of us' vs' ?n, OF _ _ _ _ _ walk_cons.prems(6) f(1)] g(5,6) x c' walk_cons.prems(3,4) by simp
    then show ?thesis using g(7) c' f(4) by (simp add: take_append)
  qed simp
qed (simp)

lemma cached_unique:
  assumes "cached ps root h ek us vs" "cached ps root h ek us vs'" "tree_ok ps eagle root h D rk"
  shows "vs = vs'"
  using assms tree_okD(3) [OF assms(3)] walk_slots [of h ek root _ _ _ _ _ _ "length us", OF _ _ _ _ _ _ assms(3)]
  unfolding cached_def by metis

end
