(* ===== verification/Radix_Locks.thy ===== *)
theory Radix_Locks
  imports Radix_Tree
begin

text \<open>
  Lock references of the radix cache: the bookkeeping that follows them (the sizes of the evictable and the
  protected part, the set of evictable leaves), and that \<open>inc_lock_ref\<close> and \<open>dec_lock_ref\<close> end and keep it.
\<close>

section \<open>The bookkeeping\<close>

definition acct :: "nat \<Rightarrow> heap \<Rightarrow> nat set \<Rightarrow> int \<Rightarrow> int \<Rightarrow> nat list \<Rightarrow> bool" where
  "acct root h D ev pr ls \<longleftrightarrow>
     ev = (\<Sum>a \<in> D - {root}. if c_lock (cells h a) = 0 then int (key_len (c_key (cells h a))) else 0) \<and>
     pr = (\<Sum>a \<in> D - {root}. if c_lock (cells h a) = 0 then 0 else int (key_len (c_key (cells h a)))) \<and>
     distinct ls \<and> set ls = {a \<in> D - {root}. c_lock (cells h a) = 0 \<and> c_children (cells h a) = []}"

definition locks_ok :: "nat \<Rightarrow> heap \<Rightarrow> nat set \<Rightarrow> nat multiset \<Rightarrow> bool" where
  "locks_ok root h D H \<longleftrightarrow> set_mset H \<subseteq> D \<and> 0 < c_lock (cells h root) \<and>
     (\<forall>a \<in> D - {root}. c_lock (cells h a) = int (size {#x \<in># H. up h x a#}))"

definition radix_inv :: "nat set \<Rightarrow> (nat \<Rightarrow> nat) \<Rightarrow> nat multiset \<Rightarrow> 'al radix_cache \<Rightarrow> bool" where
  "radix_inv D rk H s \<longleftrightarrow>
     tree_ok (rc_page_size s) (is_eagle s) (root_node s) (shape s) D rk \<and> (\<forall>a \<in> D. a < counter s) \<and>
     acct (root_node s) (shape s) D (evictable_size s) (protected_size s) (evictable_leaves s) \<and>
     locks_ok (root_node s) (shape s) D H"

definition set_lock :: "nat \<Rightarrow> int \<Rightarrow> heap \<Rightarrow> heap" where
  "set_lock a l h = h(a := map_option (\<lambda>c. c\<lparr>c_lock := l\<rparr>) (h a))"

lemma set_lock_cells [simp]:
  "h a \<noteq> None \<Longrightarrow> cells (set_lock a l h) a = (cells h a)\<lparr>c_lock := l\<rparr>"
  "b \<noteq> a \<Longrightarrow> cells (set_lock a l h) b = cells h b"
  "set_lock a l h b = None \<longleftrightarrow> h b = None"
  by (auto simp: set_lock_def)

lemma set_lock_fields [simp]:
  "h a \<noteq> None \<Longrightarrow> c_children (cells (set_lock a l h) b) = c_children (cells h b)"
  "h a \<noteq> None \<Longrightarrow> c_parent (cells (set_lock a l h) b) = c_parent (cells h b)"
  "h a \<noteq> None \<Longrightarrow> c_key (cells (set_lock a l h) b) = c_key (cells h b)"
  "h a \<noteq> None \<Longrightarrow> c_value (cells (set_lock a l h) b) = c_value (cells h b)"
  by (cases "b = a"; simp)+

lemma tree_ok_set_lock: "h a \<noteq> None \<Longrightarrow> tree_ok ps eagle root (set_lock a l h) D rk \<longleftrightarrow> tree_ok ps eagle root h D rk"
  by (simp add: tree_ok_def Let_def del: split_paired_All)

lemma up_set_lock: "up (set_lock a l h) x y \<longleftrightarrow> up h x y"
  by (rule up_cong) (auto simp: set_lock_def option.map_comp comp_def)

lemma sum_change:
  fixes f g :: "nat \<Rightarrow> int"
  assumes "finite A" "a \<in> A" "\<And>b. b \<in> A \<Longrightarrow> b \<noteq> a \<Longrightarrow> g b = f b"
  shows "sum g A = sum f A - f a + g a"
proof -
  have "sum g (A - {a}) = sum f (A - {a})" using assms(3) by (intro sum.cong) auto
  then show ?thesis using sum.remove [OF assms(1,2), of f] sum.remove [OF assms(1,2), of g] by simp
qed

lemma acct_set_lock:
  assumes acct: "acct root h D ev pr ls" and D: "finite D" "a \<in> D" "a \<noteq> root" "h a \<noteq> None" and c: "c = cells h a"
    and k: "k = int (key_len (c_key c))"
    and ls': "distinct ls'" "set ls' = (if l = 0 \<and> c_children c = [] then insert a (set ls) else set ls - {a})"
  shows "acct root (set_lock a l h) D
    (ev - (if c_lock c = 0 then k else 0) + (if l = 0 then k else 0))
    (pr - (if c_lock c = 0 then 0 else k) + (if l = 0 then 0 else k)) ls'"
proof -
  let ?h = "set_lock a l h"
  have A: "finite (D - {root})" "a \<in> D - {root}" using D by auto
  have ev: "(\<Sum>b \<in> D - {root}. if c_lock (cells ?h b) = 0 then int (key_len (c_key (cells ?h b))) else 0) =
      ev - (if c_lock c = 0 then k else 0) + (if l = 0 then k else 0)"
    using acct D sum_change [OF A, of "\<lambda>b. if c_lock (cells ?h b) = 0 then int (key_len (c_key (cells ?h b))) else 0"
      "\<lambda>b. if c_lock (cells h b) = 0 then int (key_len (c_key (cells h b))) else 0"]
    by (simp add: acct_def c k)
  have pr: "(\<Sum>b \<in> D - {root}. if c_lock (cells ?h b) = 0 then 0 else int (key_len (c_key (cells ?h b)))) =
      pr - (if c_lock c = 0 then 0 else k) + (if l = 0 then 0 else k)"
    using acct D sum_change [OF A, of "\<lambda>b. if c_lock (cells ?h b) = 0 then 0 else int (key_len (c_key (cells ?h b)))"
      "\<lambda>b. if c_lock (cells h b) = 0 then 0 else int (key_len (c_key (cells h b)))"]
    by (simp add: acct_def c k)
  have s: "set ls = {b \<in> D - {root}. c_lock (cells h b) = 0 \<and> c_children (cells h b) = []}" using acct by (simp add: acct_def)
  have "b \<in> set ls' \<longleftrightarrow> b \<in> {b \<in> D - {root}. c_lock (cells ?h b) = 0 \<and> c_children (cells ?h b) = []}" for b
    using D c s by (cases "b = a") (simp_all add: ls'(2))
  then have "set ls' = {b \<in> D - {root}. c_lock (cells ?h b) = 0 \<and> c_children (cells ?h b) = []}" by blast
  then show ?thesis unfolding acct_def ev pr using ls'(1) by simp
qed

section \<open>Leaf status\<close>

lemma leaf_list:
  "evictable_leaves (drop_leaf a s) = filter (\<lambda>b. b \<noteq> a) (evictable_leaves s)"
  "distinct (evictable_leaves s) \<Longrightarrow> distinct (evictable_leaves (add_leaf a s))"
  "set (evictable_leaves (add_leaf a s)) = insert a (set (evictable_leaves s))"
  by (auto simp: drop_leaf_def add_leaf_def)

lemma leaf_fields [simp]:
  "nodes (drop_leaf a s) = nodes s" "nodes (add_leaf a s) = nodes s"
  "shape (drop_leaf a s) = shape s" "shape (add_leaf a s) = shape s"
  "root_node (drop_leaf a s) = root_node s" "root_node (add_leaf a s) = root_node s"
  "rc_page_size (drop_leaf a s) = rc_page_size s" "rc_page_size (add_leaf a s) = rc_page_size s"
  "is_eagle (drop_leaf a s) = is_eagle s" "is_eagle (add_leaf a s) = is_eagle s"
  "counter (drop_leaf a s) = counter s" "counter (add_leaf a s) = counter s"
  "disable (drop_leaf a s) = disable s" "disable (add_leaf a s) = disable s"
  "evictable_size (drop_leaf a s) = evictable_size s" "evictable_size (add_leaf a s) = evictable_size s"
  "protected_size (drop_leaf a s) = protected_size s" "protected_size (add_leaf a s) = protected_size s"
  "kv_allocator (drop_leaf a s) = kv_allocator s" "kv_allocator (add_leaf a s) = kv_allocator s"
  "enable_kv_cache_events (drop_leaf a s) = enable_kv_cache_events s" "enable_kv_cache_events (add_leaf a s) = enable_kv_cache_events s"
  "eviction_strategy (drop_leaf a s) = eviction_strategy s" "eviction_strategy (add_leaf a s) = eviction_strategy s"
  by (simp_all add: drop_leaf_def add_leaf_def)

text \<open>Whether the evictable leaves change when the status of a node is updated.\<close>

definition leaf_status :: "nat \<Rightarrow> cell \<Rightarrow> 'al radix_cache \<Rightarrow> 'al radix_cache" where
  "leaf_status a c s = (if c_lock c > 0 \<or> c_children c \<noteq> [] then drop_leaf a s else add_leaf a s)"

lemma leaf_status_fields [simp]:
  "nodes (leaf_status a c s) = nodes s" "shape (leaf_status a c s) = shape s"
  "root_node (leaf_status a c s) = root_node s" "rc_page_size (leaf_status a c s) = rc_page_size s"
  "is_eagle (leaf_status a c s) = is_eagle s" "counter (leaf_status a c s) = counter s"
  "disable (leaf_status a c s) = disable s" "evictable_size (leaf_status a c s) = evictable_size s"
  "protected_size (leaf_status a c s) = protected_size s" "kv_allocator (leaf_status a c s) = kv_allocator s"
  "enable_kv_cache_events (leaf_status a c s) = enable_kv_cache_events s"
  "eviction_strategy (leaf_status a c s) = eviction_strategy s"
  by (simp_all add: leaf_status_def)

lemma update_leaf_status_eq:
  assumes "tree_ok ps eagle root (shape s) D rk" "a \<in> D" "shape s a = Some c"
  shows "update_leaf_status a s = Inr (leaf_status a c s)"
proof -
  obtain n where n: "get_node s a = Inr n" "cell_of n = c" using get_node_shape [OF assms(3)] by blast
  have val: "\<exists>v. c_value (cells (shape s) b) = Some v" if "b \<in> D" for b
    using tree_okD(6,13) [OF assms(1)] that by (cases "b = root") auto
  have nv: "\<not> evicted n" using val [OF assms(2)] assms(3) n(2) by (auto simp: evicted_def)
  have ch: "\<exists>m. get_node s b = Inr m \<and> \<not> evicted m" if "(k, b) \<in> set (children n)" for k b
  proof -
    have b: "b \<in> D" using tree_okD(8) [OF assms(1,2)] that assms(3) n(2) by (metis cell_of_simps(1) option.sel)
    then obtain d where "shape s b = Some d" using tree_okD(4) [OF assms(1)] by blast
    then obtain m where "get_node s b = Inr m" "cell_of m = d" using get_node_shape by metis
    then show ?thesis using val [OF b] \<open>shape s b = Some d\<close> by (auto simp: evicted_def)
  qed
  have found: "py_for (\<lambda>(_, b) found. if found then Inr found else py_bind (get_node s b) (\<lambda>m. Inr (\<not> evicted m))) cs f =
      Inr (f \<or> cs \<noteq> [])" if "set cs \<subseteq> set (children n)" for cs f
    using that
  proof (induction cs arbitrary: f)
    case (Cons x cs)
    obtain k b where x: "x = (k, b)" by (cases x)
    then obtain m where "get_node s b = Inr m" "\<not> evicted m" using ch [of k b] Cons.prems by auto
    then show ?case using Cons x by (cases f) auto
  qed simp
  show ?thesis
    using found [of "children n" False] n nv by (auto simp: update_leaf_status_def leaf_status_def)
qed

lemma acct_leaf_status:
  assumes "acct root h D ev pr (evictable_leaves s)" "a \<in> D" "a \<noteq> root" "c = cells h a" "0 \<le> c_lock c"
  shows "distinct (evictable_leaves (leaf_status a c' s))"
    "set (evictable_leaves (leaf_status a (c\<lparr>c_lock := l\<rparr>) s)) =
      (if \<not> 0 < l \<and> c_children c = [] then insert a (set (evictable_leaves s)) else set (evictable_leaves s) - {a})"
  using assms by (auto simp: leaf_status_def leaf_list acct_def)

section \<open>Walking up with a lock\<close>

definition base_ok :: "nat set \<Rightarrow> (nat \<Rightarrow> nat) \<Rightarrow> 'al radix_cache \<Rightarrow> bool" where
  "base_ok D rk s \<longleftrightarrow>
     tree_ok (rc_page_size s) (is_eagle s) (root_node s) (shape s) D rk \<and> (\<forall>a \<in> D. a < counter s) \<and>
     acct (root_node s) (shape s) D (evictable_size s) (protected_size s) (evictable_leaves s) \<and>
     (\<forall>a \<in> D. 0 \<le> c_lock (cells (shape s) a))"

text \<open>What locking changes of the state.\<close>

definition lock_frame :: "'al radix_cache \<Rightarrow> 'al radix_cache \<Rightarrow> bool" where
  "lock_frame s s' \<longleftrightarrow> (\<exists>ns e p l. s' = s\<lparr>nodes := ns, evictable_size := e, protected_size := p, evictable_leaves := l\<rparr>)"

lemma lock_frame_refl [simp]: "lock_frame s s"
  unfolding lock_frame_def
  by (intro exI [of _ "nodes s"] exI [of _ "evictable_size s"] exI [of _ "protected_size s"] exI [of _ "evictable_leaves s"]) simp

lemma lock_frame_trans: "lock_frame s s1 \<Longrightarrow> lock_frame s1 s2 \<Longrightarrow> lock_frame s s2"
  unfolding lock_frame_def by fastforce

lemma lock_frameD:
  assumes "lock_frame s s'"
  shows "rc_page_size s' = rc_page_size s" "is_eagle s' = is_eagle s" "root_node s' = root_node s" "counter s' = counter s"
    "disable s' = disable s" "kv_allocator s' = kv_allocator s" "enable_kv_cache_events s' = enable_kv_cache_events s"
    "eviction_strategy s' = eviction_strategy s"
  using assms by (auto simp: lock_frame_def)

lemma lock_frame_step: "lock_frame s (leaf_status a c (upd_node a f (s\<lparr>evictable_size := e, protected_size := p\<rparr>)))"
  unfolding lock_frame_def leaf_status_def drop_leaf_def add_leaf_def upd_node_def
  by (cases s) (auto intro!: exI)

text \<open>One round: the node's lock count becomes \<open>l\<close>, the sizes follow when it leaves or reaches zero.\<close>

lemma lock_round:
  assumes ok: "base_ok D rk s" and a: "a \<in> D" "a \<noteq> root_node s" "shape s a = Some c" and l: "0 \<le> l"
    and k: "k = int (key_len (c_key c))"
    and e: "e = evictable_size s - (if c_lock c = 0 then k else 0) + (if l = 0 then k else 0)"
    and p: "p = protected_size s - (if c_lock c = 0 then 0 else k) + (if l = 0 then 0 else k)"
    and f: "\<And>n. cell_of n = c \<Longrightarrow> cell_of (f n) = c\<lparr>c_lock := l\<rparr>"
  shows "\<exists>s'. update_leaf_status a (upd_node a f (s\<lparr>evictable_size := e, protected_size := p\<rparr>)) = Inr s' \<and>
    shape s' = set_lock a l (shape s) \<and> base_ok D rk s' \<and> lock_frame s s' \<and> evictable_size s' = e \<and> protected_size s' = p"
proof -
  let ?s = "upd_node a f (s\<lparr>evictable_size := e, protected_size := p\<rparr>)" and ?c = "c\<lparr>c_lock := l\<rparr>"
  let ?s' = "leaf_status a ?c ?s"
  have t: "tree_ok (rc_page_size s) (is_eagle s) (root_node s) (shape s) D rk" and lt: "\<forall>a \<in> D. a < counter s"
    and ac: "acct (root_node s) (shape s) D (evictable_size s) (protected_size s) (evictable_leaves s)"
    and nn: "\<forall>a \<in> D. 0 \<le> c_lock (cells (shape s) a)"
    using ok by (auto simp: base_ok_def)
  have sh: "shape ?s = set_lock a l (shape s)"
    using a(3) f by (auto simp: shape_def upd_node_def set_lock_def fun_eq_iff)
  have t': "tree_ok (rc_page_size s) (is_eagle s) (root_node s) (shape ?s) D rk"
    unfolding sh using t a(3) by (simp add: tree_ok_set_lock)
  have "shape ?s a = Some ?c" unfolding sh using a(3) by (simp add: set_lock_def)
  then have u: "update_leaf_status a ?s = Inr ?s'" using update_leaf_status_eq [OF t' a(1)] by blast
  have c: "c = cells (shape s) a" "shape s a \<noteq> None" using a(3) by simp_all
  have "acct (root_node s) (set_lock a l (shape s)) D (evictable_size s - (if c_lock c = 0 then k else 0) + (if l = 0 then k else 0))
      (protected_size s - (if c_lock c = 0 then 0 else k) + (if l = 0 then 0 else k)) (evictable_leaves ?s')"
  proof (rule acct_set_lock [OF ac _ a(1,2) c(2) c(1) k])
    show "finite D" using tree_okD(2) [OF t] .
    have ac': "acct (root_node s) (shape s) D (evictable_size s) (protected_size s) (evictable_leaves ?s)" using ac by simp
    have "0 \<le> c_lock c" using nn a(1) c(1) by simp
    note al = acct_leaf_status [OF ac' a(1,2) c(1) this]
    show "distinct (evictable_leaves ?s')" by (rule al(1))
    show "set (evictable_leaves ?s') = (if l = 0 \<and> c_children c = [] then insert a (set (evictable_leaves s)) else set (evictable_leaves s) - {a})"
      using al(2) [of l] l by auto
  qed
  note this [folded e p]
  moreover have "0 \<le> c_lock (cells (set_lock a l (shape s)) b)" if "b \<in> D" for b
    using nn that l c(2) by (cases "b = a") simp_all
  ultimately have "base_ok D rk ?s'" using t' lt sh by (simp add: base_ok_def)
  then show ?thesis using u sh lock_frame_step by (intro exI [of _ ?s']) simp
qed

definition add_locks :: "nat \<Rightarrow> int \<Rightarrow> (nat \<Rightarrow> bool) \<Rightarrow> heap \<Rightarrow> heap" where
  "add_locks root d P h = (\<lambda>b. map_option (\<lambda>c. c\<lparr>c_lock := c_lock c + (if P b \<and> b \<noteq> root then d else 0)\<rparr>) (h b))"

lemma up_root: "tree_ok ps eagle root h D rk \<Longrightarrow> up h root b \<longleftrightarrow> b = root"
  using tree_okD(3,4,5) [of ps eagle root h D rk] by (subst up_unfold) auto

lemma parent_facts:
  assumes "tree_ok ps eagle root h D rk" "a \<in> D" "a \<noteq> root" "h a = Some c"
  obtains p where "c_parent c = Some p" "p \<in> D" "rk p < rk a" "\<not> up h p a" "\<And>b. up h a b \<longleftrightarrow> b = a \<or> up h p b"
proof -
  obtain p where p: "p \<in> D" "c_parent c = Some p" "rk p < rk a" using tree_okD(9) [OF assms(1-3)] assms(4) by auto
  moreover have "\<not> up h p a" using up_in_tree [OF _ assms(1) p(1), of a] p(3) by auto
  moreover have "up h a b \<longleftrightarrow> b = a \<or> up h p b" for b using up_unfold [of h a b] assms(4) p(2) by auto
  ultimately show ?thesis using that by blast
qed

lemma rank_card:
  assumes "finite D" "p \<in> D" "rk p < (rk a :: nat)" "card {b \<in> D. rk b < rk a} \<le> Suc fuel"
  shows "card {b \<in> D. rk b < rk p} \<le> fuel"
proof -
  let ?A = "{b \<in> D. rk b < rk a}"
  have f: "finite ?A" "p \<in> ?A" using assms(1-3) by simp_all
  have "card {b \<in> D. rk b < rk p} \<le> card (?A - {p})"
  proof (rule card_mono)
    show "finite (?A - {p})" using f(1) by simp
    show "{b \<in> D. rk b < rk p} \<subseteq> ?A - {p}" using assms(3) less_trans by blast
  qed
  also have "\<dots> = card ?A - 1" by (rule card_Diff_singleton [OF f(2)])
  finally show ?thesis using assms(4) by linarith
qed

lemma add_locks_step:
  assumes "h a = Some c" "a \<noteq> root" "\<not> up h p a" "\<And>b. up h a b \<longleftrightarrow> b = a \<or> up h p b"
  shows "add_locks root d (up (set_lock a (c_lock c + d) h) p) (set_lock a (c_lock c + d) h) = add_locks root d (up h a) h"
proof
  fix b
  show "add_locks root d (up (set_lock a (c_lock c + d) h) p) (set_lock a (c_lock c + d) h) b = add_locks root d (up h a) h b"
  proof (cases "b = a")
    case True
    then show ?thesis unfolding add_locks_def up_set_lock using assms(1-3) assms(4) [of a] by (simp add: set_lock_def)
  next
    case False
    then show ?thesis unfolding add_locks_def up_set_lock using assms(4) [of b] by (simp add: set_lock_def)
  qed
qed

lemma add_locks_root: "tree_ok ps eagle root h D rk \<Longrightarrow> add_locks root d (up h root) h = h"
  by (auto simp: add_locks_def fun_eq_iff up_root option.map_ident cong: option.map_cong)

lemma rank_root:
  assumes "tree_ok ps eagle root h D rk" "a \<in> D" "card {b \<in> D. rk b < rk a} \<le> 0"
  shows "a = root"
proof (rule ccontr)
  assume "a \<noteq> root"
  then obtain p where "p \<in> D" "rk p < rk a" using tree_okD(9) [OF assms(1,2)] by blast
  then show False using assms(3) tree_okD(2) [OF assms(1)] by auto
qed

lemma inc_lock_loop_ok:
  assumes "base_ok D rk s" "a \<in> D" "card {b \<in> D. rk b < rk a} \<le> fuel"
  shows "\<exists>s'. inc_lock_loop fuel a delta s = Inr (delta + (evictable_size s' - evictable_size s), s') \<and>
    base_ok D rk s' \<and> lock_frame s s' \<and> evictable_size s' + protected_size s' = evictable_size s + protected_size s \<and>
    shape s' = add_locks (root_node s) 1 (up (shape s) a) (shape s)"
  using assms
proof (induction fuel arbitrary: a delta s)
  case 0
  have t: "tree_ok (rc_page_size s) (is_eagle s) (root_node s) (shape s) D rk" using 0 by (simp add: base_ok_def)
  show ?case using 0(1) rank_root [OF t 0(2,3)] add_locks_root [OF t]
    by (intro exI [of _ s]) (simp add: inc_lock_loop.simps)
next
  case (Suc fuel)
  have t: "tree_ok (rc_page_size s) (is_eagle s) (root_node s) (shape s) D rk"
    and nn: "0 \<le> c_lock (cells (shape s) a)" using Suc.prems by (simp_all add: base_ok_def)
  show ?case
  proof (cases "a = root_node s")
    case True
    then show ?thesis using Suc.prems(1) add_locks_root [OF t] by (intro exI [of _ s]) (simp add: inc_lock_loop.simps)
  next
    case False
    obtain c where c: "shape s a = Some c" using tree_okD(4) [OF t Suc.prems(2)] by blast
    obtain p where p: "c_parent c = Some p" "p \<in> D" "rk p < rk a" "\<not> up (shape s) p a"
      "\<And>b. up (shape s) a b \<longleftrightarrow> b = a \<or> up (shape s) p b" using parent_facts [OF t Suc.prems(2) False c] by metis
    obtain n where n: "get_node s a = Inr n" "cell_of n = c" using get_node_shape [OF c] by blast
    have f: "lock_ref n = c_lock c" "node_key n = c_key c" "parent n = Some p" using n(2) p(1) by auto
    let ?k = "int (key_len (c_key c))" and ?l = "c_lock c + 1"
    define e q where "e = (if c_lock c = 0 then evictable_size s - ?k else evictable_size s)"
      and "q = (if c_lock c = 0 then protected_size s + ?k else protected_size s)"
    have lp: "0 \<le> c_lock c" using nn c by simp
    have ff: "\<And>n. cell_of n = c \<Longrightarrow> cell_of (n\<lparr>lock_ref := lock_ref n + 1\<rparr>) = c\<lparr>c_lock := ?l\<rparr>" by (auto simp: cell_of_def)
    have ee: "e = evictable_size s - (if c_lock c = 0 then ?k else 0) + (if ?l = 0 then ?k else 0)"
      and qq: "q = protected_size s - (if c_lock c = 0 then 0 else ?k) + (if ?l = 0 then 0 else ?k)"
      using lp by (simp_all add: e_def q_def)
    obtain s3 where s3: "update_leaf_status a (upd_node a (\<lambda>n. n\<lparr>lock_ref := lock_ref n + 1\<rparr>) (s\<lparr>evictable_size := e, protected_size := q\<rparr>)) = Inr s3"
      "shape s3 = set_lock a ?l (shape s)" "base_ok D rk s3" "lock_frame s s3" "evictable_size s3 = e" "protected_size s3 = q"
      using lock_round [OF Suc.prems(1,2) False c _ refl ee qq, of "\<lambda>n. n\<lparr>lock_ref := lock_ref n + 1\<rparr>"] ff lp by auto
    note ih = Suc.IH [OF s3(3) p(2) rank_card [OF tree_okD(2) [OF t] p(2,3) Suc.prems(3)],
        of "delta + (e - evictable_size s)", unfolded s3(5,6) lock_frameD(3) [OF s3(4)]]
    then obtain s' where s': "inc_lock_loop fuel p (delta + (e - evictable_size s)) s3 =
        Inr (delta + (e - evictable_size s) + (evictable_size s' - e), s')" "base_ok D rk s'" "lock_frame s3 s'"
      "evictable_size s' + protected_size s' = e + q"
      "shape s' = add_locks (root_node s) 1 (up (shape s3) p) (shape s3)"
      by blast
    have st: "inc_lock_loop (Suc fuel) a delta s = inc_lock_loop fuel p (delta + (e - evictable_size s)) s3"
    proof (cases "c_lock c = 0")
      case True
      then show ?thesis using False n(1) f s3(1) unfolding inc_lock_loop.simps [of "Suc fuel"]
        by (simp add: e_def q_def attr_def)
    next
      case nz: False
      then have "s\<lparr>evictable_size := e, protected_size := q\<rparr> = s" by (simp add: e_def q_def)
      then show ?thesis using nz False n(1) f s3(1) unfolding inc_lock_loop.simps [of "Suc fuel"]
        by (simp add: e_def attr_def)
    qed
    have "shape s' = add_locks (root_node s) 1 (up (shape s) a) (shape s)"
      unfolding s'(5) s3(2) by (rule add_locks_step [OF c False p(4,5)])
    moreover have "e + q = evictable_size s + protected_size s" by (simp add: e_def q_def)
    ultimately show ?thesis using st s' lock_frame_trans [OF s3(4) s'(3)] by (intro exI [of _ s']) simp
  qed
qed

lemma dec_lock_loop_ok:
  assumes "base_ok D rk s" "a \<in> D" "card {b \<in> D. rk b < rk a} \<le> fuel"
    "\<And>b. up (shape s) a b \<Longrightarrow> b \<noteq> root_node s \<Longrightarrow> 1 \<le> c_lock (cells (shape s) b)"
  shows "\<exists>s'. dec_lock_loop fuel a delta s = Inr (delta + (evictable_size s' - evictable_size s), s') \<and>
    base_ok D rk s' \<and> lock_frame s s' \<and> evictable_size s' + protected_size s' = evictable_size s + protected_size s \<and>
    shape s' = add_locks (root_node s) (-1) (up (shape s) a) (shape s)"
  using assms
proof (induction fuel arbitrary: a delta s)
  case 0
  have t: "tree_ok (rc_page_size s) (is_eagle s) (root_node s) (shape s) D rk" using 0 by (simp add: base_ok_def)
  show ?case using 0(1) rank_root [OF t 0(2,3)] add_locks_root [OF t]
    by (intro exI [of _ s]) (simp add: dec_lock_loop.simps)
next
  case (Suc fuel)
  have t: "tree_ok (rc_page_size s) (is_eagle s) (root_node s) (shape s) D rk"
    using Suc.prems by (simp add: base_ok_def)
  show ?case
  proof (cases "a = root_node s")
    case True
    then show ?thesis using Suc.prems(1) add_locks_root [OF t] by (intro exI [of _ s]) (simp add: dec_lock_loop.simps)
  next
    case False
    obtain c where c: "shape s a = Some c" using tree_okD(4) [OF t Suc.prems(2)] by blast
    obtain p where p: "c_parent c = Some p" "p \<in> D" "rk p < rk a" "\<not> up (shape s) p a"
      "\<And>b. up (shape s) a b \<longleftrightarrow> b = a \<or> up (shape s) p b" using parent_facts [OF t Suc.prems(2) False c] by metis
    obtain n where n: "get_node s a = Inr n" "cell_of n = c" using get_node_shape [OF c] by blast
    have f: "lock_ref n = c_lock c" "node_key n = c_key c" "parent n = Some p" using n(2) p(1) by auto
    let ?k = "int (key_len (c_key c))" and ?l = "c_lock c - 1"
    define e q where "e = (if c_lock c = 1 then evictable_size s + ?k else evictable_size s)"
      and "q = (if c_lock c = 1 then protected_size s - ?k else protected_size s)"
    have lp: "1 \<le> c_lock c" using Suc.prems(4) [OF up_refl False] c by simp
    have ff: "\<And>n. cell_of n = c \<Longrightarrow> cell_of (n\<lparr>lock_ref := lock_ref n - 1\<rparr>) = c\<lparr>c_lock := ?l\<rparr>" by (auto simp: cell_of_def)
    have ee: "e = evictable_size s - (if c_lock c = 0 then ?k else 0) + (if ?l = 0 then ?k else 0)"
      and qq: "q = protected_size s - (if c_lock c = 0 then 0 else ?k) + (if ?l = 0 then 0 else ?k)"
      using lp by (simp_all add: e_def q_def)
    obtain s3 where s3: "update_leaf_status a (upd_node a (\<lambda>n. n\<lparr>lock_ref := lock_ref n - 1\<rparr>) (s\<lparr>evictable_size := e, protected_size := q\<rparr>)) = Inr s3"
      "shape s3 = set_lock a ?l (shape s)" "base_ok D rk s3" "lock_frame s s3" "evictable_size s3 = e" "protected_size s3 = q"
      using lock_round [OF Suc.prems(1,2) False c _ refl ee qq, of "\<lambda>n. n\<lparr>lock_ref := lock_ref n - 1\<rparr>"] ff lp by auto
    have lks: "1 \<le> c_lock (cells (shape s3) b)" if "up (shape s3) p b" "b \<noteq> root_node s3" for b
    proof -
      have u: "up (shape s) p b" using that(1) unfolding s3(2) up_set_lock .
      then have "b \<noteq> a" using p(4) by auto
      then show ?thesis using Suc.prems(4) [of b] p(5) [of b] u that(2) lock_frameD(3) [OF s3(4)] unfolding s3(2) by simp
    qed
    note ih = Suc.IH [OF s3(3) p(2) rank_card [OF tree_okD(2) [OF t] p(2,3) Suc.prems(3)] lks,
        of "delta + (e - evictable_size s)", unfolded s3(5,6) lock_frameD(3) [OF s3(4)]]
    then obtain s' where s': "dec_lock_loop fuel p (delta + (e - evictable_size s)) s3 =
        Inr (delta + (e - evictable_size s) + (evictable_size s' - e), s')" "base_ok D rk s'" "lock_frame s3 s'"
      "evictable_size s' + protected_size s' = e + q"
      "shape s' = add_locks (root_node s) (-1) (up (shape s3) p) (shape s3)"
      by blast
    have st: "dec_lock_loop (Suc fuel) a delta s = dec_lock_loop fuel p (delta + (e - evictable_size s)) s3"
    proof (cases "c_lock c = 1")
      case True
      then show ?thesis using False n(1) f s3(1) unfolding dec_lock_loop.simps [of "Suc fuel"]
        by (simp add: e_def q_def attr_def)
    next
      case nz: False
      then have "s\<lparr>evictable_size := e, protected_size := q\<rparr> = s" by (simp add: e_def q_def)
      then show ?thesis using nz False n(1) f s3(1) unfolding dec_lock_loop.simps [of "Suc fuel"]
        by (simp add: e_def attr_def)
    qed
    have "shape s' = add_locks (root_node s) (-1) (up (shape s) a) (shape s)"
      unfolding s'(5) s3(2) by (rule add_locks_step [OF c False p(4,5), of "-1", simplified])
    moreover have "e + q = evictable_size s + protected_size s" by (simp add: e_def q_def)
    ultimately show ?thesis using st s' lock_frame_trans [OF s3(4) s'(3)] by (intro exI [of _ s']) simp
  qed
qed

section \<open>Taking and releasing a reference\<close>

lemma radix_inv_base: "radix_inv D rk H s \<Longrightarrow> base_ok D rk s"
  by (force simp: radix_inv_def base_ok_def locks_ok_def)

lemma radix_invD:
  assumes "radix_inv D rk H s"
  shows "tree_ok (rc_page_size s) (is_eagle s) (root_node s) (shape s) D rk" "\<And>a. a \<in> D \<Longrightarrow> a < counter s"
    "acct (root_node s) (shape s) D (evictable_size s) (protected_size s) (evictable_leaves s)"
    "locks_ok (root_node s) (shape s) D H"
  using assms by (simp_all add: radix_inv_def)

lemma radix_inv_of_base:
  "base_ok D rk s \<Longrightarrow> locks_ok (root_node s) (shape s) D H \<Longrightarrow> radix_inv D rk H s"
  by (simp add: radix_inv_def base_ok_def)

lemma card_rank_le_counter:
  assumes "base_ok D rk s"
  shows "card {b \<in> D. rk b < rk a} \<le> counter s"
proof -
  have "{b \<in> D. rk b < rk a} \<subseteq> {..<counter s}" using assms by (auto simp: base_ok_def)
  then show ?thesis using card_mono [of "{..<counter s}"] by simp
qed

lemma up_add_locks: "up (add_locks root d P h) x y \<longleftrightarrow> up h x y"
  by (rule up_cong) (simp add: add_locks_def option.map_comp comp_def)

lemma add_locks_cells: "h b \<noteq> None \<Longrightarrow>
    c_lock (cells (add_locks root d P h) b) = c_lock (cells h b) + (if P b \<and> b \<noteq> root then d else 0)"
  by (auto simp: add_locks_def)

lemma add_locks_inverse: "add_locks root (- d) P (add_locks root d P h) = h"
  by (auto simp: add_locks_def fun_eq_iff option.map_comp comp_def option.map_ident cong: option.map_cong)

lemma locks_add:
  assumes "locks_ok root h D H" "a \<in> D" "\<forall>b \<in> D. h b \<noteq> None" "root \<in> D"
  shows "locks_ok root (add_locks root 1 (up h a) h) D (add_mset a H)"
  using assms by (auto simp: locks_ok_def add_locks_cells up_add_locks)

lemma locks_remove:
  assumes "locks_ok root h D H" "a \<in># H" "\<forall>b \<in> D. h b \<noteq> None" "root \<in> D"
  shows "locks_ok root (add_locks root (-1) (up h a) h) D (H - {#a#})"
proof -
  obtain H' where H: "H = add_mset a H'" using assms(2) by (metis insert_DiffM)
  then show ?thesis using assms(1,3,4) by (auto simp: locks_ok_def add_locks_cells up_add_locks)
qed

lemma inc_lock_ref_ok:
  assumes inv: "radix_inv D rk H s" and a: "a \<in> D" and dis: "\<not> disable s"
  shows "\<exists>s'. inc_lock_ref a s = Inr (evictable_size s' - evictable_size s, s') \<and> radix_inv D rk (add_mset a H) s' \<and>
    lock_frame s s' \<and> evictable_size s' + protected_size s' = evictable_size s + protected_size s \<and>
    shape s' = add_locks (root_node s) 1 (up (shape s) a) (shape s)"
proof -
  note b = radix_inv_base [OF inv]
  obtain s' where s': "inc_lock_loop (counter s) a 0 s = Inr (0 + (evictable_size s' - evictable_size s), s')" "base_ok D rk s'"
    "lock_frame s s'" "evictable_size s' + protected_size s' = evictable_size s + protected_size s"
    "shape s' = add_locks (root_node s) 1 (up (shape s) a) (shape s)"
    using inc_lock_loop_ok [OF b a card_rank_le_counter [OF b], of 0] by blast
  have "locks_ok (root_node s') (shape s') D (add_mset a H)"
    unfolding s'(5) lock_frameD(3) [OF s'(3)]
    using tree_okD(3,4) [OF radix_invD(1) [OF inv]] by (intro locks_add [OF radix_invD(4) [OF inv] a]) auto
  from radix_inv_of_base [OF s'(2) this] show ?thesis using s' dis by (intro exI [of _ s']) (simp add: inc_lock_ref_def)
qed

lemma dec_lock_ref_ok:
  assumes inv: "radix_inv D rk H s" and a: "a \<in># H" and dis: "\<not> disable s"
  shows "\<exists>s'. dec_lock_ref a s = Inr (evictable_size s' - evictable_size s, s') \<and> radix_inv D rk (H - {#a#}) s' \<and>
    lock_frame s s' \<and> evictable_size s' + protected_size s' = evictable_size s + protected_size s \<and>
    shape s' = add_locks (root_node s) (-1) (up (shape s) a) (shape s)"
proof -
  note b = radix_inv_base [OF inv] and t = radix_invD(1) [OF inv] and l = radix_invD(4) [OF inv]
  have aD: "a \<in> D" using l a by (auto simp: locks_ok_def)
  have lk: "1 \<le> c_lock (cells (shape s) x)" if "up (shape s) a x" "x \<noteq> root_node s" for x
  proof -
    have "x \<in> D" using up_in_tree [OF that(1) t aD] by blast
    moreover have "a \<in># {#y \<in># H. up (shape s) y x#}" using a that(1) by simp
    then have "1 \<le> size {#y \<in># H. up (shape s) y x#}" by (metis One_nat_def Suc_leI nonempty_has_size empty_iff set_mset_empty)
    ultimately show ?thesis using l that(2) by (simp add: locks_ok_def)
  qed
  obtain s' where s': "dec_lock_loop (counter s) a 0 s = Inr (0 + (evictable_size s' - evictable_size s), s')" "base_ok D rk s'"
    "lock_frame s s'" "evictable_size s' + protected_size s' = evictable_size s + protected_size s"
    "shape s' = add_locks (root_node s) (-1) (up (shape s) a) (shape s)"
    using dec_lock_loop_ok [OF b aD card_rank_le_counter [OF b] lk, of 0] by blast
  have "locks_ok (root_node s') (shape s') D (H - {#a#})"
    unfolding s'(5) lock_frameD(3) [OF s'(3)]
    using tree_okD(3,4) [OF t] by (intro locks_remove [OF l a]) auto
  from radix_inv_of_base [OF s'(2) this] show ?thesis using s' dis by (intro exI [of _ s']) (simp add: dec_lock_ref_def)
qed

text \<open>
  C14. Lock references of the radix cache. From a tree whose bookkeeping is right (sizes, evictable leaves, and lock
  counts that count the held nodes \<open>H\<close> at or below a node), \<open>inc_lock_ref\<close> on a node reaches the root, keeps the
  bookkeeping for one more held node, moves exactly the returned amount from the evictable to the protected size, and
  \<open>dec_lock_ref\<close> on the node afterwards gives it back and restores the tree.
\<close>

theorem lock_ref_roundtrip:
  assumes "radix_inv D rk H s" "a \<in> D" "\<not> disable s"
  shows "\<exists>delta s' s''. inc_lock_ref a s = Inr (delta, s') \<and> radix_inv D rk (add_mset a H) s' \<and>
    evictable_size s' = evictable_size s + delta \<and> protected_size s' = protected_size s - delta \<and>
    dec_lock_ref a s' = Inr (- delta, s'') \<and> radix_inv D rk H s'' \<and> shape s'' = shape s \<and>
    evictable_size s'' = evictable_size s \<and> protected_size s'' = protected_size s"
proof -
  obtain s' where s': "inc_lock_ref a s = Inr (evictable_size s' - evictable_size s, s')" "radix_inv D rk (add_mset a H) s'"
    "lock_frame s s'" "evictable_size s' + protected_size s' = evictable_size s + protected_size s"
    "shape s' = add_locks (root_node s) 1 (up (shape s) a) (shape s)"
    using inc_lock_ref_ok [OF assms] by blast
  obtain s'' where s'': "dec_lock_ref a s' = Inr (evictable_size s'' - evictable_size s', s'')" "radix_inv D rk H s''"
    "lock_frame s' s''" "evictable_size s'' + protected_size s'' = evictable_size s' + protected_size s'"
    "shape s'' = add_locks (root_node s') (-1) (up (shape s') a) (shape s')"
    using dec_lock_ref_ok [OF s'(2), of a] assms(3) lock_frameD(5) [OF s'(3)] by auto
  have "up (shape s') a = up (shape s) a" unfolding s'(5) up_add_locks by (rule refl)
  then have sh: "shape s'' = shape s" using s''(5) lock_frameD(3) [OF s'(3)] by (simp add: s'(5) add_locks_inverse)
  have r: "root_node s'' = root_node s" using lock_frameD(3) [OF s'(3)] lock_frameD(3) [OF s''(3)] by simp
  have "acct (root_node s) (shape s) D (evictable_size s'') (protected_size s'') (evictable_leaves s'')"
    using radix_invD(3) [OF s''(2)] unfolding sh r .
  then have e: "evictable_size s'' = evictable_size s" "protected_size s'' = protected_size s"
    using radix_invD(3) [OF assms(1)] by (simp_all add: acct_def)
  show ?thesis
    using s'(1,2,4) s''(1,2,4) e sh by (intro exI [of _ "evictable_size s' - evictable_size s"] exI [of _ s'] exI [of _ s'']) simp
qed

section \<open>The empty cache\<close>

definition radix_init :: "nat \<Rightarrow> bool \<Rightarrow> eviction_policy \<Rightarrow> 'al \<Rightarrow> 'al radix_cache" where
  "radix_init ps eagle pol al = reset
     \<lparr>disable = False, rc_page_size = ps, is_eagle = eagle, disable_finished_insert = False, eviction_strategy = pol,
      enable_kv_cache_events = False, sha256 = (\<lambda>_. []), monotonic = int, clock_reads = 0, nodes = Map.empty, counter = 0,
      root_node = 0, evictable_size = 0, protected_size = 0, evictable_leaves = [], kv_event_queue = [], kv_allocator = al\<rparr>"

lemma radix_init_inv:
  assumes "1 \<le> ps"
  shows "radix_inv {0} id {#} (radix_init ps eagle pol al)"
  using assms
  by (simp add: radix_init_def reset_def TreeNode_def read_clock_def record_all_cleared_event_def upd_node_def
      radix_inv_def tree_ok_def acct_def locks_ok_def shape_def)

theorem lock_ref_roundtrip_witness:
  "\<exists>delta s' s''. inc_lock_ref 0 (radix_init 4 False LRU ()) = Inr (delta, s') \<and> radix_inv {0} id {#0#} s' \<and>
    dec_lock_ref 0 s' = Inr (- delta, s'') \<and> radix_inv {0} id {#} s''"
proof -
  have "\<not> disable (radix_init 4 False LRU ())"
    by (simp add: radix_init_def reset_def TreeNode_def read_clock_def record_all_cleared_event_def upd_node_def)
  from lock_ref_roundtrip [OF radix_init_inv [of 4 False LRU "()"] _ this, of 0] show ?thesis by auto
qed

end
