(* ===== verification/Radix_Split.thy ===== *)
theory Radix_Split
  imports Radix_Locks
begin

text \<open>
  Splitting a node of the radix tree at a page boundary: \<open>_split_node\<close> puts a new node with the first part of the
  key above the node. The tree stays a tree, the bookkeeping stays right, and the cached prefixes do not change.
\<close>

section \<open>Dictionaries\<close>

lemma alist_update_set:
  assumes "distinct (map fst al)"
  shows "(k', v') \<in> set (AList.update k v al) \<longleftrightarrow> (if k' = k then v' = v else (k', v') \<in> set al)"
proof -
  have "(k', v') \<in> set (AList.update k v al) \<longleftrightarrow> map_of (AList.update k v al) k' = Some v'"
    using distinct_update [OF assms, of k v] by (simp add: map_of_eq_Some_iff)
  also have "\<dots> \<longleftrightarrow> (if k' = k then v' = v else (k', v') \<in> set al)"
    using assms by (auto simp: update_conv' map_of_eq_Some_iff)
  finally show ?thesis .
qed

lemma alist_delete_set: "(k', v') \<in> set (AList.delete k al) \<longleftrightarrow> k' \<noteq> k \<and> (k', v') \<in> set al"
  by (auto simp: AList.delete_eq)

section \<open>The split of a shape\<close>

definition split_heap :: "nat \<Rightarrow> nat \<Rightarrow> nat \<Rightarrow> nat \<Rightarrow> nat \<Rightarrow> heap \<Rightarrow> heap" where
  "split_heap ps p c nn n h =
     (let C = cells h c; v = the (c_value C)
      in h(nn \<mapsto> \<lparr>c_children = [(dict_key ps (key_from (c_key C) n), c)], c_parent = Some p, c_key = key_upto (c_key C) n,
                  c_value = Some (take n v), c_lock = c_lock C\<rparr>,
           c \<mapsto> C\<lparr>c_parent := Some nn, c_key := key_from (c_key C) n, c_value := Some (drop n v)\<rparr>,
           p \<mapsto> (cells h p)\<lparr>c_children := AList.update (dict_key ps (c_key C)) nn (c_children (cells h p))\<rparr>))"

definition split_rank :: "nat \<Rightarrow> nat \<Rightarrow> (nat \<Rightarrow> nat) \<Rightarrow> nat \<Rightarrow> nat" where
  "split_rank c nn rk = (\<lambda>x. 2 * rk x)(nn := 2 * rk c - 1)"

definition split_pre :: "nat \<Rightarrow> bool \<Rightarrow> nat \<Rightarrow> heap \<Rightarrow> nat set \<Rightarrow> (nat \<Rightarrow> nat) \<Rightarrow> nat \<Rightarrow> nat \<Rightarrow> nat \<Rightarrow> nat \<Rightarrow> bool" where
  "split_pre ps eagle root h D rk p c nn n \<longleftrightarrow> tree_ok ps eagle root h D rk \<and> c \<in> D \<and> c \<noteq> root \<and> nn \<notin> D \<and>
     c_parent (cells h c) = Some p \<and> 0 < n \<and> n < key_len (c_key (cells h c)) \<and> ps dvd n"

lemma split_preD:
  assumes "split_pre ps eagle root h D rk p c nn n"
  shows "tree_ok ps eagle root h D rk" "c \<in> D" "c \<noteq> root" "nn \<notin> D" "c_parent (cells h c) = Some p" "0 < n"
    "n < key_len (c_key (cells h c))" "ps dvd n" "p \<in> D" "rk p < rk c" "p \<noteq> c" "nn \<noteq> p" "nn \<noteq> c" "nn \<noteq> root" "1 \<le> ps" "ps \<le> n"
    "(dict_key ps (c_key (cells h c)), c) \<in> set (c_children (cells h p))"
proof -
  show t: "tree_ok ps eagle root h D rk" and c: "c \<in> D" "c \<noteq> root" and nn: "nn \<notin> D"
    and p: "c_parent (cells h c) = Some p" and n: "0 < n" "n < key_len (c_key (cells h c))" "ps dvd n"
    using assms by (auto simp: split_pre_def)
  show q: "p \<in> D" "rk p < rk c" "(dict_key ps (c_key (cells h c)), c) \<in> set (c_children (cells h p))"
    using tree_okD(9) [OF t c] p by auto
  then show "p \<noteq> c" "nn \<noteq> p" "nn \<noteq> c" "nn \<noteq> root" using c nn tree_okD(3) [OF t] by auto
  show "1 \<le> ps" using tree_okD(1) [OF t] .
  show "ps \<le> n" using n by (simp add: dvd_imp_le)
qed

lemma split_cells:
  assumes "split_pre ps eagle root h D rk p c nn n"
  defines "h' \<equiv> split_heap ps p c nn n h" and "C \<equiv> cells h c"
  shows "cells h' nn = \<lparr>c_children = [(dict_key ps (key_from (c_key C) n), c)], c_parent = Some p, c_key = key_upto (c_key C) n,
      c_value = Some (take n (the (c_value C))), c_lock = c_lock C\<rparr>"
    "cells h' c = C\<lparr>c_parent := Some nn, c_key := key_from (c_key C) n, c_value := Some (drop n (the (c_value C)))\<rparr>"
    "cells h' p = (cells h p)\<lparr>c_children := AList.update (dict_key ps (c_key C)) nn (c_children (cells h p))\<rparr>"
    "\<And>x. x \<noteq> nn \<Longrightarrow> x \<noteq> c \<Longrightarrow> x \<noteq> p \<Longrightarrow> cells h' x = cells h x"
    "\<And>x. x \<in> insert nn D \<Longrightarrow> h' x = Some (cells h' x)"
  using split_preD(11-13) [OF assms(1)] tree_okD(4) [OF split_preD(1) [OF assms(1)]]
  by (auto simp: h'_def C_def split_heap_def Let_def)

lemma split_fields:
  assumes "split_pre ps eagle root h D rk p c nn n" "x \<in> D"
  defines "h' \<equiv> split_heap ps p c nn n h"
  shows "c_lock (cells h' x) = c_lock (cells h x)"
    "x \<noteq> c \<Longrightarrow> c_parent (cells h' x) = c_parent (cells h x)"
    "x \<noteq> c \<Longrightarrow> c_key (cells h' x) = c_key (cells h x)"
    "x \<noteq> c \<Longrightarrow> c_value (cells h' x) = c_value (cells h x)"
    "(k, y) \<in> set (c_children (cells h' x)) \<longleftrightarrow>
      (if x = p \<and> k = dict_key ps (c_key (cells h c)) then y = nn else (k, y) \<in> set (c_children (cells h x)))"
    "c_children (cells h' x) = [] \<longleftrightarrow> c_children (cells h x) = []"
proof -
  note d = split_preD [OF assms(1)] and cl = split_cells [OF assms(1), folded h'_def]
  have xn: "x \<noteq> nn" using assms(2) d(4) by auto
  have cs: "x = c \<or> x = p \<or> cells h' x = cells h x" using cl(4) xn by blast
  show "c_lock (cells h' x) = c_lock (cells h x)" "x \<noteq> c \<Longrightarrow> c_parent (cells h' x) = c_parent (cells h x)"
    "x \<noteq> c \<Longrightarrow> c_key (cells h' x) = c_key (cells h x)" "x \<noteq> c \<Longrightarrow> c_value (cells h' x) = c_value (cells h x)"
    using cs cl(2,3) by auto
  have dist: "distinct (map fst (c_children (cells h p)))" using tree_okD(7) [OF d(1,9)] .
  show "(k, y) \<in> set (c_children (cells h' x)) \<longleftrightarrow>
      (if x = p \<and> k = dict_key ps (c_key (cells h c)) then y = nn else (k, y) \<in> set (c_children (cells h x)))"
    using cs cl(2,3) d(11) alist_update_set [OF dist, of k y "dict_key ps (c_key (cells h c))" nn] by auto
  show "c_children (cells h' x) = [] \<longleftrightarrow> c_children (cells h x) = []"
    using cs cl(2,3) d(11,17) by (auto simp: update_nonempty)
qed

lemma split_dict_key:
  assumes "split_pre ps eagle root h D rk p c nn n"
  shows "dict_key ps (key_upto (c_key (cells h c)) n) = dict_key ps (c_key (cells h c))"
  using split_preD(16) [OF assms] by (simp add: dict_key_def min_def)

section \<open>The tree stays a tree\<close>

lemma split_child_facts:
  assumes pre: "split_pre ps eagle root h D rk p c nn n" and x: "x \<in> insert nn D" and ky: "(k, y) \<in> set (c_children (cells (split_heap ps p c nn n h) x))"
  shows "y \<in> insert nn D \<and> y \<noteq> root \<and> c_parent (cells (split_heap ps p c nn n h) y) = Some x \<and>
    k = dict_key ps (c_key (cells (split_heap ps p c nn n h) y))"
proof -
  let ?h = "split_heap ps p c nn n h"
  note d = split_preD [OF pre] and cl = split_cells [OF pre] and f = split_fields [OF pre]
  show ?thesis
  proof (cases "x = nn")
    case True
    then have "k = dict_key ps (key_from (c_key (cells h c)) n)" "y = c" using ky cl(1) by auto
    then show ?thesis using True d(2,3) cl(2) by simp
  next
    case False
    then have xD: "x \<in> D" using x by simp
    show ?thesis
    proof (cases "x = p \<and> k = dict_key ps (c_key (cells h c))")
      case True
      then have "y = nn" using ky f(5) [OF xD] by simp
      then show ?thesis using True d(14) cl(1) split_dict_key [OF pre] by simp
    next
      case nt: False
      then have old: "(k, y) \<in> set (c_children (cells h x))" using ky f(5) [OF xD] by (simp split: if_splits)
      note g = tree_okD(8) [OF d(1) xD old]
      have "y \<noteq> c"
      proof
        assume "y = c"
        then have "x = p" "k = dict_key ps (c_key (cells h c))" using g d(5) by auto
        then show False using nt by simp
      qed
      then show ?thesis using g f(2,3) [of y] by simp
    qed
  qed
qed

lemma split_parent_facts:
  assumes pre: "split_pre ps eagle root h D rk p c nn n" and x: "x \<in> insert nn D" "x \<noteq> root"
  defines "h' \<equiv> split_heap ps p c nn n h"
  shows "\<exists>q \<in> insert nn D. c_parent (cells h' x) = Some q \<and> split_rank c nn rk q < split_rank c nn rk x \<and>
    (dict_key ps (c_key (cells h' x)), x) \<in> set (c_children (cells h' q)) \<and>
    (q \<noteq> root \<longrightarrow> extra_key (c_key (cells h' q)) = extra_key (c_key (cells h' x)))"
proof -
  note d = split_preD [OF pre] and cl = split_cells [OF pre, folded h'_def] and f = split_fields [OF pre, folded h'_def]
  have pc: "p \<noteq> root \<longrightarrow> extra_key (c_key (cells h p)) = extra_key (c_key (cells h c))"
    using tree_okD(9) [OF d(1-3)] d(5) by auto
  consider "x = nn" | "x = c" | "x \<in> D" "x \<noteq> c" "x \<noteq> nn" using x(1) by auto
  then show ?thesis
  proof cases
    case 1
    have "(dict_key ps (c_key (cells h' nn)), nn) \<in> set (c_children (cells h' p))"
      using f(5) [OF d(9)] cl(1) split_dict_key [OF pre] by simp
    moreover have "split_rank c nn rk p < split_rank c nn rk nn" using d(10,12) by (simp add: split_rank_def)
    ultimately show ?thesis using 1 d(9,11) cl(1) pc f(3) [OF d(9)] by (intro bexI [of _ p]) auto
  next
    case 2
    have "split_rank c nn rk nn < split_rank c nn rk c" using d(10,13) by (simp add: split_rank_def)
    then show ?thesis using 2 cl(1,2) by (intro bexI [of _ nn]) auto
  next
    case 3
    obtain q where q: "q \<in> D" "c_parent (cells h x) = Some q" "rk q < rk x"
      "(dict_key ps (c_key (cells h x)), x) \<in> set (c_children (cells h q))"
      "q \<noteq> root \<longrightarrow> extra_key (c_key (cells h q)) = extra_key (c_key (cells h x))"
      using tree_okD(9) [OF d(1) 3(1) x(2)] by blast
    have qn: "q \<noteq> nn" using q(1) d(4) by auto
    have "\<not> (q = p \<and> dict_key ps (c_key (cells h x)) = dict_key ps (c_key (cells h c)))"
      using child_unique [OF d(1,9), of "cells h p" "dict_key ps (c_key (cells h c))" x c] tree_okD(4) [OF d(1,9)] q(4) d(17) 3(2) by auto
    then have "(dict_key ps (c_key (cells h' x)), x) \<in> set (c_children (cells h' q))"
      using q(4) f(5) [OF q(1)] f(3) [OF 3(1,2)] by auto
    moreover have "extra_key (c_key (cells h' q)) = extra_key (c_key (cells h q))"
      using f(3) [OF q(1)] cl(2) by (cases "q = c") simp_all
    ultimately show ?thesis using q qn 3 f(2,3) [OF 3(1,2)] by (intro bexI [of _ q]) (auto simp: split_rank_def)
  qed
qed

lemma tree_ok_split:
  assumes pre: "split_pre ps eagle root h D rk p c nn n"
  shows "tree_ok ps eagle root (split_heap ps p c nn n h) (insert nn D) (split_rank c nn rk)"
proof -
  let ?h = "split_heap ps p c nn n h"
  note d = split_preD [OF pre] and cl = split_cells [OF pre] and f = split_fields [OF pre] and t = tree_okD [OF split_preD(1) [OF pre]]
  obtain v where v: "c_value (cells h c) = Some v" "length v = key_len (c_key (cells h c))" using t(13) [OF d(2,3)] by blast
  have vals: "let k = c_key (cells ?h x) in 0 < key_len k \<and> ps dvd key_len k \<and> is_bigram k = eagle \<and>
      (\<exists>v. c_value (cells ?h x) = Some v \<and> length v = key_len k)" if xD: "x \<in> insert nn D" and xr: "x \<noteq> root" for x
  proof -
    consider "x = nn" | "x = c" | "x \<in> D" "x \<noteq> c" using xD by auto
    then show ?thesis
    proof cases
      case 1
      then show ?thesis using cl(1) d(6-8) v t(12) [OF d(2,3)] by simp
    next
      case 2
      then show ?thesis using cl(2) d(6-8) v t(11,12) [OF d(2,3)] by simp
    next
      case 3
      then show ?thesis using f(3,4) [OF 3] t(10-13) [OF 3(1) xr] by simp
    qed
  qed
  have dist: "distinct (map fst (c_children (cells ?h x)))" if xD: "x \<in> insert nn D" for x
  proof -
    consider "x = nn" | "x = c" | "x = p" | "x \<in> D" "x \<noteq> c" "x \<noteq> p" "x \<noteq> nn" using xD by auto
    then show ?thesis
    proof cases
      case 3
      then show ?thesis using cl(3) t(7) [OF d(9)] by (simp add: distinct_update)
    qed (use cl(1,2,4) t(7) d(2) in auto)
  qed
  have root: "root \<noteq> c" "root \<noteq> nn" "root \<in> D" using d(3,14) t(3) by auto
  show ?thesis
    unfolding tree_ok_def
  proof (intro conjI ballI)
    show "c_parent (cells ?h root) = None" "c_value (cells ?h root) = Some []" using f(2,4) [OF root(3) root(1)] t(5,6) by simp_all
    show "case z of (k, a) \<Rightarrow> a \<in> insert nn D \<and> a \<noteq> root \<and> c_parent (cells ?h a) = Some x \<and> k = dict_key ps (c_key (cells ?h a))"
      if "x \<in> insert nn D" "z \<in> set (c_children (cells ?h x))" for x z
      using split_child_facts [OF pre that(1)] that(2) by (cases z) simp
    show "\<exists>q \<in> insert nn D. c_parent (cells ?h x) = Some q \<and> split_rank c nn rk q < split_rank c nn rk x \<and>
        (dict_key ps (c_key (cells ?h x)), x) \<in> set (c_children (cells ?h q)) \<and>
        (q \<noteq> root \<longrightarrow> extra_key (c_key (cells ?h q)) = extra_key (c_key (cells ?h x)))" if "x \<in> insert nn D - {root}" for x
      using split_parent_facts [OF pre, of x] that by simp
    show "let k = c_key (cells ?h x) in 0 < key_len k \<and> ps dvd key_len k \<and> is_bigram k = eagle \<and>
        (\<exists>v. c_value (cells ?h x) = Some v \<and> length v = key_len k)" if "x \<in> insert nn D - {root}" for x
      using vals that by simp
    show "?h x \<noteq> None" if "x \<in> insert nn D" for x using cl(5) [OF that] by (metis option.distinct(1))
  qed (use t(1-3) dist in auto)
qed

section \<open>Locks and bookkeeping after a split\<close>

lemma split_up:
  assumes pre: "split_pre ps eagle root h D rk p c nn n"
  defines "h' \<equiv> split_heap ps p c nn n h"
  shows "x \<in> D \<Longrightarrow> up h' x y \<longleftrightarrow> (if y = nn then up h x c else up h x y)"
proof -
  note d = split_preD [OF pre] and cl = split_cells [OF pre, folded h'_def] and f = split_fields [OF pre, folded h'_def]
  have t': "tree_ok ps eagle root h' (insert nn D) (split_rank c nn rk)" unfolding h'_def by (rule tree_ok_split [OF pre])
  have to: "up h' x y" if "up h x y" "x \<in> D" for x y
    using that
  proof induction
    case (up_step x C q y)
    have q: "q \<in> D" using parent_in_tree [OF d(1) up_step.prems up_step.hyps(1,2)] .
    have hx: "h' x = Some (cells h' x)" using cl(5) up_step.prems by simp
    show ?case
    proof (cases "x = c")
      case True
      then have "q = p" using up_step.hyps d(5) by simp
      have "h' nn = Some (cells h' nn)" using cl(5) by simp
      then have "up h' nn y" using up_step.IH [OF q] cl(1) \<open>q = p\<close> up.up_step [of h' nn _ p y] by simp
      then show ?thesis using True hx cl(2) up.up_step [of h' c _ nn y] by simp
    next
      case False
      then have "c_parent (cells h' x) = Some q" using f(2) [OF up_step.prems] up_step.hyps by simp
      then show ?thesis using up.up_step [OF hx _ up_step.IH [OF q]] by simp
    qed
  qed (rule up_refl)
  have fro: "(x \<in> D \<longrightarrow> (if y = nn then up h x c else up h x y)) \<and> (x = nn \<longrightarrow> y = nn \<or> up h p y)" if "up h' x y" "y \<in> insert nn D" for x y
    using that
  proof induction
    case (up_refl x)
    then show ?case using d(4) up.up_refl by auto
  next
    case (up_step x C q y)
    have C: "C = cells h' x" using up_step.hyps(1) by simp
    have IH: "(q \<in> D \<longrightarrow> (if y = nn then up h q c else up h q y)) \<and> (q = nn \<longrightarrow> y = nn \<or> up h p y)" using up_step by simp
    obtain Cc where "h c = Some Cc" using tree_okD(4) [OF d(1,2)] by blast
    then have upp: "up h c z" if "up h p z" for z using that d(5) by (auto intro: up.up_step)
    have "if y = nn then up h x c else up h x y" if xD: "x \<in> D"
    proof (cases "x = c")
      case True
      then show ?thesis using IH C cl(2) up_step.hyps(2) upp up.up_refl by auto
    next
      case False
      then have q: "c_parent (cells h x) = Some q" using f(2) [OF xD] up_step.hyps(2) C by simp
      then have "q \<in> D" using parent_in_tree [OF d(1) xD] tree_okD(4) [OF d(1) xD] by auto
      moreover obtain X where "h x = Some X" using tree_okD(4) [OF d(1) xD] by blast
      ultimately show ?thesis using IH q by (auto intro: up.up_step)
    qed
    moreover have "y = nn \<or> up h p y" if "x = nn"
    proof -
      have "q = p" using that C cl(1) up_step.hyps(2) by simp
      then show ?thesis using IH d(9) by (auto split: if_splits)
    qed
    ultimately show ?case by blast
  qed
  assume x: "x \<in> D"
  show ?thesis
  proof
    assume u: "up h' x y"
    then have "y \<in> insert nn D" using up_in_tree [OF u t'] x by simp
    then show "if y = nn then up h x c else up h x y" using fro [OF u] x by simp
  next
    assume r: "if y = nn then up h x c else up h x y"
    show "up h' x y"
    proof (cases "y = nn")
      case True
      have "h' c = Some (cells h' c)" using cl(5) d(2) by blast
      moreover have "c_parent (cells h' c) = Some nn" using cl(2) by simp
      ultimately have "up h' c nn" using up.up_step up.up_refl by metis
      moreover have "up h' a e" if "up h' a b" "up h' b e" for a b e
        using that by (induction rule: up.induct) (auto intro: up.up_step)
      ultimately show ?thesis using True r to x by (metis (full_types))
    qed (use r to x in simp)
  qed
qed

lemma locks_split:
  assumes pre: "split_pre ps eagle root h D rk p c nn n" and l: "locks_ok root h D H"
  shows "locks_ok root (split_heap ps p c nn n h) (insert nn D) H"
proof -
  let ?h = "split_heap ps p c nn n h"
  note d = split_preD [OF pre] and cl = split_cells [OF pre] and f = split_fields [OF pre]
  have sub: "set_mset H \<subseteq> D" using l by (simp add: locks_ok_def)
  have same: "{#x \<in># H. up ?h x a#} = {#x \<in># H. up h x (if a = nn then c else a)#}" for a
    using split_up [OF pre] sub by (intro filter_mset_cong) auto
  have "c_lock (cells ?h a) = int (size {#x \<in># H. up ?h x a#})" if "a \<in> insert nn D - {root}" for a
    using that l d(2,3) cl(1) f(1) [of a] unfolding same locks_ok_def by (cases "a = nn") auto
  moreover have "0 < c_lock (cells ?h root)" using l f(1) [OF tree_okD(3) [OF d(1)]] by (simp add: locks_ok_def)
  ultimately show ?thesis using sub by (auto simp: locks_ok_def)
qed

lemma acct_split:
  assumes pre: "split_pre ps eagle root h D rk p c nn n" and a: "acct root h D ev pr ls"
  shows "acct root (split_heap ps p c nn n h) (insert nn D) ev pr ls"
proof -
  let ?h = "split_heap ps p c nn n h"
  note d = split_preD [OF pre] and cl = split_cells [OF pre] and f = split_fields [OF pre]
  have fin: "finite (D - {root})" "c \<in> D - {root}" "nn \<notin> D - {root}" using tree_okD(2) [OF d(1)] d(2-4) by auto
  have sums: "(\<Sum>x \<in> insert nn D - {root}. if P (c_lock (cells ?h x)) then int (key_len (c_key (cells ?h x))) else 0) =
      (\<Sum>x \<in> D - {root}. if P (c_lock (cells h x)) then int (key_len (c_key (cells h x))) else 0)" for P
  proof -
    let ?g = "\<lambda>x. if P (c_lock (cells ?h x)) then int (key_len (c_key (cells ?h x))) else 0"
    let ?f = "\<lambda>x. if P (c_lock (cells h x)) then int (key_len (c_key (cells h x))) else 0"
    have "sum ?g (insert nn D - {root}) = ?g nn + sum ?g (D - {root})"
      using fin d(14) by (subst insert_Diff_if) simp
    also have "sum ?g (D - {root}) = sum ?f (D - {root}) - ?f c + ?g c"
      using f(1,3) by (intro sum_change [OF fin(1,2)]) auto
    also have "?g nn + (sum ?f (D - {root}) - ?f c + ?g c) = sum ?f (D - {root})"
      using cl(1,2) d(6,7) by (simp add: of_nat_diff)
    finally show ?thesis .
  qed
  have leaves: "{x \<in> insert nn D - {root}. c_lock (cells ?h x) = 0 \<and> c_children (cells ?h x) = []} =
      {x \<in> D - {root}. c_lock (cells h x) = 0 \<and> c_children (cells h x) = []}"
    using f(1,6) cl(1) by auto
  have conv: "(\<Sum>x \<in> A. if c_lock (cells hh x) = 0 then 0 else int (key_len (c_key (cells hh x)))) =
      (\<Sum>x \<in> A. if c_lock (cells hh x) \<noteq> 0 then int (key_len (c_key (cells hh x))) else 0)" for A hh
    by (rule sum.cong) auto
  show ?thesis using a unfolding acct_def conv sums [of "\<lambda>l. l = 0"] sums [of "\<lambda>l. l \<noteq> 0"] leaves .
qed

section \<open>The cached prefixes do not change\<close>

lemma walk_split_to:
  assumes "walk h ek a u v b" and pre: "split_pre ps eagle root h D rk p c nn n" "a \<in> D"
  shows "walk (split_heap ps p c nn n h) ek a u v b"
  using assms
proof (induction rule: walk.induct)
  case (walk_cons a P k x X w us vs b)
  let ?h = "split_heap ps p c nn n h"
  note d = split_preD [OF pre(1)] and cl = split_cells [OF pre(1)] and f = split_fields [OF pre(1)]
  have aD: "a \<in> D" using walk_cons.prems by simp
  note ch = child_facts [OF d(1) aD walk_cons.hyps(1-3,5)]
  have IH: "walk ?h ek x us vs b" using walk_cons.IH pre ch(1) by simp
  have ha: "?h a = Some (cells ?h a)" using cl(5) aD by simp
  show ?case
  proof (cases "x = c")
    case True
    have ap: "a = p" "X = cells h c" using True ch(8) d(5) walk_cons.hyps(3) by auto
    have hc: "?h c = Some (cells ?h c)" and hn: "?h nn = Some (cells ?h nn)" using cl(5) d(2) by simp_all
    have e: "extra_key (c_key (cells h c)) = ek" "c_value (cells h c) = Some w" using ap walk_cons.hyps by simp_all
    have "walk ?h ek nn (key_iter (c_key (cells ?h c)) @ us) (drop n w @ vs) b"
      using walk.walk_cons [OF hn _ hc _ _ IH [unfolded True], of "dict_key ps (key_from (c_key (cells h c)) n)"] cl(1,2) e by simp
    then have "walk ?h ek p (key_iter (c_key (cells ?h nn)) @ (key_iter (c_key (cells ?h c)) @ us)) (take n w @ (drop n w @ vs)) b"
      using walk.walk_cons [OF ha [unfolded ap(1)] _ hn, of "dict_key ps (c_key (cells h c))"] f(5) [OF d(9)] cl(1) e by simp
    moreover have "key_iter (c_key (cells ?h nn)) = take n (key_iter (c_key X))" "key_iter (c_key (cells ?h c)) = drop n (key_iter (c_key X))"
      using cl(1,2) ap by simp_all
    ultimately show ?thesis unfolding ap(1) by (simp only: append_assoc [symmetric] append_take_drop_id)
  next
    case False
    have "(k, x) \<in> set (c_children (cells ?h a))"
    proof -
      have "\<not> (a = p \<and> k = dict_key ps (c_key (cells h c)))"
        using child_unique [OF d(1) aD walk_cons.hyps(1,2), of c] d(17) walk_cons.hyps(1) False by auto
      then show ?thesis using f(5) [OF aD] walk_cons.hyps(1,2) by auto
    qed
    moreover have "?h x = Some (cells ?h x)" using cl(5) ch(1) by simp
    moreover have "c_key (cells ?h x) = c_key X" "c_value (cells ?h x) = Some w"
      using f(3,4) [OF ch(1) False] walk_cons.hyps(3,5) by simp_all
    ultimately show ?thesis using walk.walk_cons [OF ha _ _ _ _ IH, of k] walk_cons.hyps(4) by metis
  qed
qed (rule walk_nil)

lemma walk_split_from:
  fixes ps eagle root h D rk p c nn n ek
  defines "h' \<equiv> split_heap ps p c nn n h"
  defines "Q \<equiv> (\<lambda>a u v b. if b = nn
      then walk h ek a (u @ drop n (key_iter (c_key (cells h c)))) (v @ drop n (the (c_value (cells h c)))) c
      else walk h ek a u v b)"
  assumes pre: "split_pre ps eagle root h D rk p c nn n"
  shows "walk h' ek a u v b \<Longrightarrow> (a \<in> D \<longrightarrow> Q a u v b) \<and>
    (a = nn \<longrightarrow> u = [] \<and> v = [] \<and> b = nn \<or>
      (\<exists>us vs. u = drop n (key_iter (c_key (cells h c))) @ us \<and> v = drop n (the (c_value (cells h c))) @ vs \<and>
         extra_key (c_key (cells h c)) = ek \<and> Q c us vs b))"
proof (induction rule: walk.induct)
  case (walk_nil a)
  note d = split_preD [OF pre]
  show ?case using d(4) walk.walk_nil by (auto simp: Q_def)
next
  case (walk_cons a P k x X w us vs b)
  note d = split_preD [OF pre] and cl = split_cells [OF pre, folded h'_def] and f = split_fields [OF pre, folded h'_def]
  let ?K = "key_iter (c_key (cells h c))" and ?V = "the (c_value (cells h c))"
  obtain V where V: "c_value (cells h c) = Some V" using tree_okD(13) [OF d(1-3)] by blast
  have PX: "P = cells h' a" "X = cells h' x" using walk_cons.hyps(1,3) by simp_all
  have hp: "h p = Some (cells h p)" and hc: "h c = Some (cells h c)" using tree_okD(4) [OF d(1,9)] tree_okD(4) [OF d(1,2)] by auto
  have inD: "Q a (key_iter (c_key X) @ us) (w @ vs) b" if a: "a \<in> D"
  proof (cases "a = p \<and> k = dict_key ps (c_key (cells h c))")
    case True
    then have x: "x = nn" using walk_cons.hyps(2) PX(1) f(5) [OF a] by simp
    then have X: "key_iter (c_key X) = take n ?K" "w = take n ?V" "extra_key (c_key (cells h c)) = ek"
      using PX(2) cl(1) walk_cons.hyps(4,5) by simp_all
    from walk_cons.IH x consider "us = []" "vs = []" "b = nn" | us' vs' where "us = drop n ?K @ us'" "vs = drop n ?V @ vs'" "Q c us' vs' b" by blast
    then show ?thesis
    proof cases
      case 1
      have "walk h ek p (?K @ []) (V @ []) c" using walk.walk_cons [OF hp d(17) hc X(3) V walk.walk_nil] .
      then show ?thesis using 1 True X V by (simp add: Q_def)
    next
      case 2
      have "walk h ek p (?K @ u1) (V @ v1) b1" if "walk h ek c u1 v1 b1" for u1 v1 b1
        using walk.walk_cons [OF hp d(17) hc X(3) V that] .
      moreover have "key_iter (c_key X) @ us = ?K @ us'" "w @ vs = V @ vs'"
        using 2(1,2) X(1,2) V by (simp_all only: append_assoc [symmetric] append_take_drop_id option.sel)
      ultimately show ?thesis using 2(3) True by (simp add: Q_def split: if_splits)
    qed
  next
    case False
    then have old: "(k, x) \<in> set (c_children (cells h a))" using walk_cons.hyps(2) PX(1) f(5) [OF a] by (simp split: if_splits)
    note g = tree_okD(8) [OF d(1) a old]
    have "x \<noteq> c" using g False d(5) by auto
    then have X: "c_key X = c_key (cells h x)" "c_value (cells h x) = Some w" using f(3,4) [of x] g PX(2) walk_cons.hyps(5) by auto
    have hh: "h a = Some (cells h a)" "h x = Some (cells h x)" using tree_okD(4) [OF d(1)] a g by auto
    have "walk h ek a (key_iter (c_key X) @ u1) (w @ v1) b1" if "walk h ek x u1 v1 b1" for u1 v1 b1
      using walk.walk_cons [OF hh(1) old hh(2) _ X(2) that] X(1) walk_cons.hyps(4) by simp
    then show ?thesis using walk_cons.IH g by (simp add: Q_def split: if_splits)
  qed
  have "\<exists>us' vs'. key_iter (c_key X) @ us = drop n ?K @ us' \<and> w @ vs = drop n ?V @ vs' \<and> extra_key (c_key (cells h c)) = ek \<and> Q c us' vs' b"
    if "a = nn"
  proof -
    have "x = c" using that walk_cons.hyps(2) PX(1) cl(1) by simp
    then have "key_iter (c_key X) = drop n ?K" "w = drop n ?V" "extra_key (c_key (cells h c)) = ek" "Q c us vs b"
      using PX(2) cl(2) walk_cons.hyps(4,5) walk_cons.IH d(2) by auto
    then show ?thesis by blast
  qed
  then show ?case using inD by blast
qed

lemma cached_split:
  assumes pre: "split_pre ps eagle root h D rk p c nn n"
  shows "cached ps root (split_heap ps p c nn n h) ek us vs \<longleftrightarrow> cached ps root h ek us vs"
proof
  note d = split_preD [OF pre]
  have r: "root \<in> D" using tree_okD(3) [OF d(1)] .
  show "cached ps root (split_heap ps p c nn n h) ek us vs" if "cached ps root h ek us vs"
    using that walk_split_to [OF _ pre r] unfolding cached_def by blast
  assume "cached ps root (split_heap ps p c nn n h) ek us vs"
  then obtain u v b where w: "ps dvd length us" "walk (split_heap ps p c nn n h) ek root u v b" "length us \<le> length u"
    "us = take (length us) u" "vs = take (length us) v" unfolding cached_def by blast
  have "length v = length u" using walk_facts(2) [OF w(2) tree_ok_split [OF pre]] r by simp
  then have l: "length us \<le> length v" using w(3) by simp
  show "cached ps root h ek us vs"
  proof (cases "b = nn")
    case True
    have "walk h ek root (u @ drop n (key_iter (c_key (cells h c)))) (v @ drop n (the (c_value (cells h c)))) c"
      using walk_split_from [OF pre w(2)] r True by simp
    then show ?thesis unfolding cached_def using w(1,3-5) l
      by (intro conjI exI [of _ "u @ drop n (key_iter (c_key (cells h c)))"] exI [of _ "v @ drop n (the (c_value (cells h c)))"] exI [of _ c])
        simp_all
  next
    case False
    then have "walk h ek root u v b" using walk_split_from [OF pre w(2)] r by simp
    then show ?thesis unfolding cached_def using w by blast
  qed
qed


section \<open>The slots of a tree\<close>

definition tree_slots :: "nat set \<Rightarrow> heap \<Rightarrow> int multiset" where
  "tree_slots D h = (\<Sum>a \<in> D. mset (the (c_value (cells h a))))"

lemma slots_split:
  assumes pre: "split_pre ps eagle root h D rk p c nn n"
  shows "tree_slots (insert nn D) (split_heap ps p c nn n h) = tree_slots D h"
proof -
  let ?h = "split_heap ps p c nn n h" and ?V = "the (c_value (cells h c))"
  note d = split_preD [OF pre] and cl = split_cells [OF pre] and f = split_fields [OF pre]
  have fin: "finite D" using tree_okD(2) [OF d(1)] .
  have other: "(\<Sum>a \<in> D - {c}. mset (the (c_value (cells ?h a)))) = (\<Sum>a \<in> D - {c}. mset (the (c_value (cells h a))))"
    using f(4) by (intro sum.cong) auto
  have "tree_slots (insert nn D) ?h = mset (take n ?V) + (mset (drop n ?V) + (\<Sum>a \<in> D - {c}. mset (the (c_value (cells h a)))))"
    unfolding tree_slots_def sum.insert [OF fin d(4)] sum.remove [OF fin d(2)] other using cl(1,2) by simp
  also have "\<dots> = mset ?V + (\<Sum>a \<in> D - {c}. mset (the (c_value (cells h a))))"
    unfolding mset_take_drop [of n ?V, symmetric] by (simp only: add.assoc)
  finally show ?thesis unfolding tree_slots_def sum.remove [OF fin d(2)] .
qed

section \<open>Splitting in the store\<close>

text \<open>What the tree operations leave alone.\<close>

definition config :: "'al radix_cache \<Rightarrow> bool \<times> nat \<times> bool \<times> bool \<times> eviction_policy \<times> bool \<times> nat \<times> 'al" where
  "config s = (disable s, rc_page_size s, is_eagle s, disable_finished_insert s, eviction_strategy s,
     enable_kv_cache_events s, root_node s, kv_allocator s)"

lemma configD:
  assumes "config s' = config s"
  shows "disable s' = disable s" "rc_page_size s' = rc_page_size s" "is_eagle s' = is_eagle s"
    "disable_finished_insert s' = disable_finished_insert s" "eviction_strategy s' = eviction_strategy s"
    "enable_kv_cache_events s' = enable_kv_cache_events s" "root_node s' = root_node s" "kv_allocator s' = kv_allocator s"
  using assms by (simp_all add: config_def)

lemma config_upd [simp]: "config (upd_node a f s) = config s"
  by (simp add: config_def upd_node_def)

definition sizes :: "'al radix_cache \<Rightarrow> int \<times> int \<times> nat list" where
  "sizes s = (evictable_size s, protected_size s, evictable_leaves s)"

lemma sizes_upd [simp]: "sizes (upd_node a f s) = sizes s"
  by (simp add: sizes_def upd_node_def)

lemma radix_inv_shape:
  assumes "radix_inv D rk H s" "shape s' = shape s" "config s' = config s" "sizes s' = sizes s" "counter s' = counter s"
  shows "radix_inv D rk H s'"
  using assms by (simp add: radix_inv_def config_def sizes_def)

definition fresh_cell :: cell where
  "fresh_cell = \<lparr>c_children = [], c_parent = None, c_key = \<lparr>token_ids = [], extra_key = None, is_bigram = False\<rparr>,
     c_value = None, c_lock = 0\<rparr>"

lemma TreeNode_facts:
  "TreeNode prio s = (counter s, snd (TreeNode prio s))"
  "shape (snd (TreeNode prio s)) = (shape s)(counter s \<mapsto> fresh_cell)"
  "config (snd (TreeNode prio s)) = config s" "sizes (snd (TreeNode prio s)) = sizes s"
  "counter (snd (TreeNode prio s)) = Suc (counter s)"
  "\<And>a. a \<noteq> counter s \<Longrightarrow> nodes (snd (TreeNode prio s)) a = nodes s a"
  by (auto simp: TreeNode_def read_clock_def config_def sizes_def fresh_cell_def shape_def cell_of_def fun_eq_iff)

lemma split_node_eq:
  assumes pre: "split_pre (rc_page_size s) eagle root (shape s) D rk p c (counter s) n"
  shows "\<exists>s'. split_node (c_key (cells (shape s) c)) c n s = Inr (counter s, s') \<and>
    shape s' = split_heap (rc_page_size s) p c (counter s) n (shape s) \<and> config s' = config s \<and> sizes s' = sizes s \<and>
    counter s' = Suc (counter s)"
proof -
  note d = split_preD [OF pre] and t = tree_okD [OF split_preD(1) [OF pre]]
  let ?ps = "rc_page_size s" and ?nn = "counter s" and ?C = "cells (shape s) c"
  have shC: "shape s c = Some ?C" using t(4) [OF d(2)] by auto
  obtain nd where nd: "get_node s c = Inr nd" "nodes s c = Some nd" "cell_of nd = ?C" using get_node_shape [OF shC] by blast
  obtain v where v: "c_value ?C = Some v" "length v = key_len (c_key ?C)" using t(13) [OF d(2,3)] by blast
  have f: "node_key nd = c_key ?C" "node_value nd = Some v" "parent nd = Some p" "lock_ref nd = c_lock ?C"
    using nd(3) v(1) d(5) by (metis cell_of_simps)+
  obtain s1 where s1: "TreeNode (priority nd) s = (?nn, s1)" "shape s1 = (shape s)(?nn \<mapsto> fresh_cell)" "config s1 = config s"
    "sizes s1 = sizes s" "counter s1 = Suc ?nn"
    using that [OF TreeNode_facts(1-5)] .
  have "?ps dvd key_len (c_key ?C) - n" "0 < key_len (c_key ?C) - n" using t(11) [OF d(2,3)] d(7,8) by simp_all
  then have "?ps \<le> key_len (c_key ?C) - n" by (rule dvd_imp_le)
  then have ck1: "child_key ?ps (key_from (c_key ?C) n) = Inr (dict_key ?ps (key_from (c_key ?C) n))"
    using child_key_eq [OF d(15), of "key_from (c_key ?C) n"] by (simp add: dict_key_def)
  have ck2: "child_key ?ps (c_key ?C) = Inr (dict_key ?ps (c_key ?C))"
    using child_key_eq [OF d(15), of "c_key ?C"] d(7,16) by (simp add: dict_key_def)
  define hs where "hs = split_node_hash_value (hash_value nd) n ?ps"
  let ?f2 = "\<lambda>m. m\<lparr>hit_count := hit_count nd, children := [(dict_key ?ps (key_from (c_key ?C) n), c)], parent := Some p,
      lock_ref := c_lock ?C, node_key := key_upto (c_key ?C) n, node_value := Some (take n v), hash_value := fst hs\<rparr>"
  let ?f3 = "\<lambda>m. m\<lparr>parent := Some ?nn, node_key := key_from (c_key ?C) n, node_value := Some (drop n v), hash_value := snd hs\<rparr>"
  let ?f4 = "\<lambda>m. m\<lparr>children := AList.update (dict_key ?ps (c_key ?C)) ?nn (children m)\<rparr>"
  let ?s3 = "upd_node c ?f3 (upd_node ?nn ?f2 s1)"
  let ?g2 = "\<lambda>_ :: cell. \<lparr>c_children = [(dict_key ?ps (key_from (c_key ?C) n), c)], c_parent = Some p, c_key = key_upto (c_key ?C) n,
      c_value = Some (take n v), c_lock = c_lock ?C\<rparr>"
  let ?g3 = "\<lambda>x. x\<lparr>c_parent := Some ?nn, c_key := key_from (c_key ?C) n, c_value := Some (drop n v)\<rparr>"
  let ?g4 = "\<lambda>x. x\<lparr>c_children := AList.update (dict_key ?ps (c_key ?C)) ?nn (c_children x)\<rparr>"
  have sh2: "shape (upd_node ?nn ?f2 s1) = (shape s1)(?nn := map_option ?g2 (shape s1 ?nn))"
    by (rule shape_upd) (simp add: cell_of_def)
  have sh3: "shape ?s3 = (shape (upd_node ?nn ?f2 s1))(c := map_option ?g3 (shape (upd_node ?nn ?f2 s1) c))"
    by (rule shape_upd) (simp add: cell_of_def)
  have sh4: "shape (upd_node p ?f4 ?s3) = (shape ?s3)(p := map_option ?g4 (shape ?s3 p))"
    by (rule shape_upd) (simp add: cell_of_def)
  have shp: "shape s p = Some (cells (shape s) p)" using t(4) [OF d(9)] by auto
  have sh: "shape (upd_node p ?f4 ?s3) = split_heap ?ps p c ?nn n (shape s)"
    unfolding sh4 sh3 sh2 s1(2) using d(11-13) shC shp v(1) by (auto simp: split_heap_def Let_def fun_eq_iff)
  have "shape ?s3 p \<noteq> None" unfolding sh3 sh2 s1(2) using d(11-13) shp by auto
  then obtain pn where pn: "get_node ?s3 p = Inr pn" by (auto simp: shape_def get_node_def)
  have "split_node (c_key ?C) c n s = Inr (?nn, upd_node p ?f4 ?s3)"
    unfolding split_node_def Let_def nd(1) py_bind_simps s1(1) prod.case ck1 f option.case ck2 attr_def hs_def [symmetric] pn by simp
  then show ?thesis using sh s1(3-5) by (intro exI [of _ "upd_node p ?f4 ?s3"]) simp
qed

lemma split_inv:
  assumes inv: "radix_inv D rk H s" and sh: "shape s' = split_heap (rc_page_size s) p c (counter s) n (shape s)"
    and fr: "config s' = config s" "sizes s' = sizes s" "counter s' = Suc (counter s)"
    and pre: "split_pre (rc_page_size s) (is_eagle s) (root_node s) (shape s) D rk p c (counter s) n"
  shows "radix_inv (insert (counter s) D) (split_rank c (counter s) rk) H s'"
  using tree_ok_split [OF pre] acct_split [OF pre radix_invD(3) [OF inv]] locks_split [OF pre radix_invD(4) [OF inv]]
    radix_invD(2) [OF inv] configD [OF fr(1)] fr(2,3) sh
  by (auto simp: radix_inv_def sizes_def less_Suc_eq)

end
