(* ===== verification/Radix_Match.thy ===== *)
theory Radix_Match
  imports Radix_Split
begin

text \<open>
  Searching the radix tree: one step down (a whole child, or a child split where it stops agreeing with the key) as
  lemmas that \<open>match_prefix\<close> and \<open>insert\<close> share, and that \<open>match_prefix\<close> finds the longest cached prefix.
\<close>

section \<open>The longest cached prefix\<close>

text \<open>One cache holds what another holds: the tree may be cut differently.\<close>

definition same_cache :: "'al radix_cache \<Rightarrow> 'al radix_cache \<Rightarrow> bool" where
  "same_cache s s' \<longleftrightarrow> config s' = config s \<and> sizes s' = sizes s \<and>
     (\<forall>ek us vs. cached (rc_page_size s) (root_node s) (shape s') ek us vs \<longleftrightarrow>
        cached (rc_page_size s) (root_node s) (shape s) ek us vs)"

lemma same_cache_refl: "same_cache s s"
  by (simp add: same_cache_def)

lemma same_cache_trans: "same_cache s s1 \<Longrightarrow> same_cache s1 s2 \<Longrightarrow> same_cache s s2"
  using configD(2,7) [of s1 s] by (simp add: same_cache_def)

lemma same_cache_shape: "shape s' = shape s \<Longrightarrow> config s' = config s \<Longrightarrow> sizes s' = sizes s \<Longrightarrow> same_cache s s'"
  by (simp add: same_cache_def)

lemma cached_past_node:
  assumes t: "tree_ok ps eagle root h D rk" and w: "walk h ek root u v a" and c: "cached ps root h ek (take m (u @ K)) vs"
    and m: "length u < m" "m \<le> length (u @ K)"
  obtains P k x C j w where "h a = Some P" "(k, x) \<in> set (c_children P)" "h x = Some C" "k = (ek, take ps K)"
    "j = m - length u" "ps dvd j" "0 < j" "j \<le> length (key_iter (c_key C) @ w)" "take j K = take j (key_iter (c_key C) @ w)"
proof -
  have r: "root \<in> D" using tree_okD(3) [OF t] .
  have l: "length (take m (u @ K)) = m" using m by simp
  from c obtain u' v' b where c': "ps dvd m" "walk h ek root u' v' b" "m \<le> length u'" "take m (u @ K) = take m u'"
    unfolding cached_def l by blast
  have "take (length u) u' = take (length u) (take m u')" using m by (simp add: min_def)
  also have "\<dots> = u" unfolding c'(4) [symmetric] using m by (simp add: min_def)
  finally obtain w z where wz: "u' = u @ w" "walk h ek a w z b" using walk_prefix [OF w c'(2) _ t r] by blast
  have aD: "a \<in> D" using walk_facts(1) [OF w t r] .
  let ?j = "m - length u"
  have dv: "ps dvd ?j" "0 < ?j" using c'(1) walk_facts(3) [OF w t r] m by simp_all
  have tk: "take ?j K = take ?j w" using c'(4) wz(1) m by simp
  have jw: "?j \<le> length w" using c'(3) wz(1) by simp
  then have "w \<noteq> []" using dv by auto
  from walk_first [OF wz(2) this t aD] obtain P k x C us where g: "h a = Some P" "(k, x) \<in> set (c_children P)" "h x = Some C"
    "w = key_iter (c_key C) @ us" "k = (ek, take ps w)" by metis
  have "ps \<le> ?j" using dv by (rule dvd_imp_le)
  then have "take ps w = take ps K" using tk by (metis min.absorb1 take_take)
  then show ?thesis using that [OF g(1-3) _ refl dv, of us] g(4,5) jw tk by simp
qed

lemma none_past_node:
  assumes "tree_ok ps eagle root h D rk" "walk h ek root u v a" "h a = Some P" "map_of (c_children P) (ek, take ps K) = None"
    "length u < m" "m \<le> length (u @ K)"
  shows "\<not> cached ps root h ek (take m (u @ K)) vs"
proof
  assume "cached ps root h ek (take m (u @ K)) vs"
  from cached_past_node [OF assms(1,2) this assms(5,6)] obtain x where "((ek, take ps K), x) \<in> set (c_children P)"
    using assms(3) by (metis option.sel)
  then show False using assms(4) by (auto simp: map_of_eq_None_iff intro: rev_image_eqI)
qed

lemma none_past_match:
  assumes t: "tree_ok ps eagle root h D rk" and w: "walk h ek root u v a" and h: "h a = Some P" "((ek, take ps K), x) \<in> set (c_children P)" "h x = Some C"
    and n: "n = match_tokens (key_iter (c_key C)) K div ps * ps" "n < key_len (c_key C)"
    and m: "length u + n < m" "m \<le> length (u @ K)"
  shows "\<not> cached ps root h ek (take m (u @ K)) vs"
proof
  assume c: "cached ps root h ek (take m (u @ K)) vs"
  have lm: "length u < m" using m by simp
  from cached_past_node [OF t w c lm m(2)] obtain P' k y C' j z where g: "h a = Some P'" "(k, y) \<in> set (c_children P')" "h y = Some C'"
    "k = (ek, take ps K)" "j = m - length u" "ps dvd j" "0 < j" "j \<le> length (key_iter (c_key C') @ z)"
    "take j K = take j (key_iter (c_key C') @ z)" by metis
  have aD: "a \<in> D" using walk_facts(1) [OF w t tree_okD(3) [OF t]] .
  have "P' = P" "y = x" using child_unique [OF t aD h(1,2), of y] g(1,2,4) h(1) by auto
  then have "C' = C" using g(3) h(3) by simp
  let ?i = "min j (key_len (c_key C))"
  obtain V where "c_value C = Some V" using tree_okD(8,13) [OF t] aD h by (metis option.sel)
  then have "ps dvd ?i" using g(6) child_facts(7) [OF t aD h] by (simp add: min_def)
  have "take ?i K = take ?i (take j K)" by (simp add: min_def)
  also have "\<dots> = take ?i (key_iter (c_key C))" unfolding g(9) \<open>C' = C\<close> by (simp add: min_def)
  finally have "?i \<le> match_tokens (key_iter (c_key C)) K" using m g(5) by (auto simp: match_tokens_iff)
  then have "?i div ps * ps \<le> n" unfolding n(1) by (intro mult_le_mono1 div_le_mono)
  then show False using \<open>ps dvd ?i\<close> n(2) m(1) g(5) by (auto simp: min_def split: if_splits)
qed

section \<open>One step down the tree\<close>

text \<open>
  Where a search stands: at node \<open>a\<close>, having read \<open>u\<close> with slots \<open>v\<close>, with \<open>key\<close> left to read.
\<close>

definition search_at :: "nat set \<Rightarrow> (nat \<Rightarrow> nat) \<Rightarrow> nat multiset \<Rightarrow> key_unit list \<Rightarrow> int list \<Rightarrow> nat \<Rightarrow> radix_key \<Rightarrow> child_id \<Rightarrow>
    'al radix_cache \<Rightarrow> bool" where
  "search_at D rk H u v a key ck s \<longleftrightarrow> radix_inv D rk H s \<and> walk (shape s) (extra_key key) (root_node s) u v a \<and>
     is_bigram key = is_eagle s \<and> rc_page_size s dvd key_len key \<and> (0 < key_len key \<longrightarrow> ck = dict_key (rc_page_size s) key)"

lemma search_atD:
  assumes "search_at D rk H u v a key ck s"
  shows "radix_inv D rk H s" "tree_ok (rc_page_size s) (is_eagle s) (root_node s) (shape s) D rk"
    "walk (shape s) (extra_key key) (root_node s) u v a" "is_bigram key = is_eagle s"
    "rc_page_size s dvd key_len key" "0 < key_len key \<Longrightarrow> ck = dict_key (rc_page_size s) key" "a \<in> D" "1 \<le> rc_page_size s"
proof -
  show i: "radix_inv D rk H s" and w: "walk (shape s) (extra_key key) (root_node s) u v a" and "is_bigram key = is_eagle s"
    "rc_page_size s dvd key_len key" "0 < key_len key \<Longrightarrow> ck = dict_key (rc_page_size s) key"
    using assms by (auto simp: search_at_def)
  show t: "tree_ok (rc_page_size s) (is_eagle s) (root_node s) (shape s) D rk" using radix_invD(1) [OF i] .
  show "a \<in> D" using walk_facts(1) [OF w t tree_okD(3) [OF t]] .
  show "1 \<le> rc_page_size s" using tree_okD(1) [OF t] .
qed

text \<open>Changes that leave the shape alone: access times, priorities, hit counts.\<close>

definition touched :: "'al radix_cache \<Rightarrow> 'al radix_cache \<Rightarrow> bool" where
  "touched s s' \<longleftrightarrow> shape s' = shape s \<and> config s' = config s \<and> sizes s' = sizes s \<and> counter s' = counter s"

lemma touched_upd: "(\<And>n. cell_of (f n) = cell_of n) \<Longrightarrow> touched s s' \<Longrightarrow> touched s (upd_node a f s')"
  by (simp add: touched_def shape_upd_same)

lemma touched_refl: "touched s s"
  by (simp add: touched_def)

lemma touchedD:
  assumes "touched s s'"
  shows "shape s' = shape s" "config s' = config s" "sizes s' = sizes s" "counter s' = counter s" "same_cache s s'"
    "radix_inv D rk H s \<Longrightarrow> radix_inv D rk H s'" "search_at D rk H u v a key ck s \<Longrightarrow> search_at D rk H u v a key ck s'"
  using assms configD [of s' s] radix_inv_shape [of D rk H s s']
  by (auto simp: touched_def same_cache_def search_at_def)

lemma next_search:
  assumes "1 \<le> ps" "ps dvd key_len key" "ps dvd n" "n \<le> key_len key"
  shows "(if key_len (key_from key n) > 0 then child_key ps (key_from key n) else Inr ck) =
    Inr (if key_len (key_from key n) > 0 then dict_key ps (key_from key n) else ck)"
proof (cases "key_len (key_from key n) > 0")
  case True
  have "ps \<le> key_len (key_from key n)" using True assms by (intro dvd_imp_le) simp_all
  then show ?thesis using True child_key_eq [OF assms(1)] by (simp add: dict_key_def)
qed simp

lemma child_found:
  assumes st: "search_at D rk H u v a key ck s" and P: "shape s a = Some P" and x: "0 < key_len key" "map_of (c_children P) ck = Some x"
  obtains C V n where "shape s x = Some C" "c_value C = Some V" "x \<in> D" "x \<noteq> root_node s" "c_parent C = Some a" "extra_key (c_key C) = extra_key key"
    "length V = key_len (c_key C)" "((extra_key key, take (rc_page_size s) (key_iter key)), x) \<in> set (c_children P)"
    "key_match (rc_page_size s) (c_key C) key = Inr n" "n = match_tokens (key_iter (c_key C)) (key_iter key) div rc_page_size s * rc_page_size s"
    "0 < n" "n \<le> key_len (c_key C)" "n \<le> key_len key" "rc_page_size s dvd n" "take n (key_iter (c_key C)) = take n (key_iter key)"
proof -
  let ?ps = "rc_page_size s"
  note d = search_atD [OF st]
  have ck: "ck = dict_key ?ps key" using d(6) x by simp
  have mem: "(ck, x) \<in> set (c_children P)" using map_of_SomeD [OF x(2)] .
  have "x \<in> D" using tree_okD(8) [OF d(2,7)] mem P by simp
  then obtain C where C: "shape s x = Some C" using tree_okD(4) [OF d(2)] by blast
  obtain V where V: "c_value C = Some V" using tree_okD(8,13) [OF d(2,7)] d(2) mem P C by (metis option.sel tree_okD(13))
  note f = child_facts [OF d(2,7) P mem C V]
  have dk: "extra_key (c_key C) = extra_key key" "take ?ps (key_iter (c_key C)) = take ?ps (key_iter key)"
    using ck f(3) by (simp_all add: dict_key_def)
  define l where "l = match_tokens (key_iter (c_key C)) (key_iter key)"
  have psk: "?ps \<le> key_len key" using d(5) x by (intro dvd_imp_le)
  have "?ps \<le> l" unfolding l_def match_tokens_iff using f(6) psk dk(2) by simp
  then have n: "0 < l div ?ps * ?ps" using d(8) by (simp add: div_greater_zero_iff)
  have ll: "l \<le> key_len (c_key C)" "l \<le> key_len key" "take l (key_iter (c_key C)) = take l (key_iter key)"
    using match_tokens_iff [of l "key_iter (c_key C)" "key_iter key"] by (simp_all add: l_def)
  have nl: "l div ?ps * ?ps \<le> l" by simp
  have "take (l div ?ps * ?ps) (key_iter (c_key C)) = take (l div ?ps * ?ps) (key_iter key)"
    using ll(3) nl by (metis min.absorb1 take_take)
  moreover have "key_match ?ps (c_key C) key = Inr (l div ?ps * ?ps)"
    unfolding l_def using key_match_eq [OF dk(1) _ d(8) f(7) d(5)] f(9) d(4) by simp
  ultimately show ?thesis
    using that [OF C V f(1,2,8) dk(1) f(4) _ _ _ n] mem ck le_trans [OF nl ll(1)] le_trans [OF nl ll(2)]
    by (simp add: dict_key_def l_def)
qed

lemma descend_whole:
  assumes st: "search_at D rk H u v a key ck s" and P: "shape s a = Some P" "((extra_key key, take (rc_page_size s) (key_iter key)), x) \<in> set (c_children P)"
    and C: "shape s x = Some C" "c_value C = Some V" "extra_key (c_key C) = extra_key key" "take n (key_iter (c_key C)) = take n (key_iter key)"
    and n: "n = key_len (c_key C)" "n \<le> key_len key" "rc_page_size s dvd n"
    and ck': "ck' = (if key_len (key_from key n) > 0 then dict_key (rc_page_size s) (key_from key n) else ck)"
  shows "search_at D rk H (u @ take n (key_iter key)) (v @ V) x (key_from key n) ck' s"
proof -
  note d = search_atD [OF st]
  have "key_iter (c_key C) = take n (key_iter key)" using C(4) n(1) by simp
  then have "walk (shape s) (extra_key key) (root_node s) (u @ take n (key_iter key)) (v @ V) x"
    using walk_snoc [OF d(3) P C(1,3,2)] by simp
  then show ?thesis using d(1,4,5) n ck' by (simp add: search_at_def)
qed

text \<open>Splitting a child: the first part of its key is a node of its own then, and the search goes on there.\<close>

lemma descend_split:
  assumes st: "search_at D rk H u v a key ck s" and P: "shape s a = Some P" "((extra_key key, take (rc_page_size s) (key_iter key)), x) \<in> set (c_children P)"
    and C: "shape s x = Some C" "c_value C = Some V" "extra_key (c_key C) = extra_key key" "x \<in> D" "x \<noteq> root_node s" "c_parent C = Some a"
      "take n (key_iter (c_key C)) = take n (key_iter key)"
    and n: "0 < n" "n < key_len (c_key C)" "n \<le> key_len key" "rc_page_size s dvd n"
    and ck': "ck' = (if key_len (key_from key n) > 0 then dict_key (rc_page_size s) (key_from key n) else ck)"
  shows "\<exists>s' rk'. split_node (c_key C) x n s = Inr (counter s, s') \<and> same_cache s s' \<and> counter s \<notin> D \<and>
    shape s' (counter s) \<noteq> None \<and> c_value (cells (shape s') (counter s)) = Some (take n V) \<and>
    tree_slots (insert (counter s) D) (shape s') = tree_slots D (shape s) \<and>
    search_at (insert (counter s) D) rk' H (u @ take n (key_iter key)) (v @ take n V) (counter s) (key_from key n) ck' s'"
proof -
  note d = search_atD [OF st]
  let ?nn = "counter s" and ?ps = "rc_page_size s"
  have nn: "?nn \<notin> D" using radix_invD(2) [OF d(1)] by blast
  have CC: "cells (shape s) x = C" using C(1) by simp
  have pre: "split_pre ?ps (is_eagle s) (root_node s) (shape s) D rk a x ?nn n"
    using d(2) C(4,5,6) n nn CC by (simp add: split_pre_def)
  obtain s' where s': "split_node C_key x n s = Inr (?nn, s')" "shape s' = split_heap ?ps a x ?nn n (shape s)" "config s' = config s"
    "sizes s' = sizes s" "counter s' = Suc ?nn" if "C_key = c_key C" for C_key
    using split_node_eq [OF pre] unfolding CC by metis
  note s' = s' [OF refl]
  note cl = split_cells [OF pre, folded s'(2), unfolded CC]
  note inv = split_inv [OF d(1) s'(2-5) pre]
  have "walk (shape s') (extra_key key) (root_node s) u v a"
    unfolding s'(2) by (rule walk_split_to [OF d(3) pre tree_okD(3) [OF d(2)]])
  moreover have A: "shape s' a = Some (cells (shape s') a)" "shape s' ?nn = Some (cells (shape s') ?nn)" using cl(5) d(7) by blast+
  moreover have "(dict_key ?ps (c_key C), ?nn) \<in> set (c_children (cells (shape s') a))"
    using split_fields(5) [OF pre d(7), folded s'(2)] CC by simp
  ultimately have "walk (shape s') (extra_key key) (root_node s) (u @ key_iter (c_key (cells (shape s') ?nn))) (v @ take n V) ?nn"
    using walk_snoc [OF _ A(1) _ A(2), of "extra_key key" "root_node s" u v "dict_key ?ps (c_key C)" "take n V"] cl(1) C(2,3) by simp
  moreover have "key_iter (c_key (cells (shape s') ?nn)) = take n (key_iter key)" using cl(1) C(7) by simp
  ultimately have "search_at (insert ?nn D) (split_rank x ?nn rk) H (u @ take n (key_iter key)) (v @ take n V) ?nn (key_from key n) ck' s'"
    using inv configD [OF s'(3)] d(4,5) n(3,4) ck' by (simp add: search_at_def)
  moreover have "same_cache s s'"
    using cached_split [OF pre] s'(2,3,4) by (simp add: same_cache_def)
  moreover have "tree_slots (insert ?nn D) (shape s') = tree_slots D (shape s)" unfolding s'(2) by (rule slots_split [OF pre])
  ultimately show ?thesis using s'(1) nn cl(1) A(2) C(2) by (intro exI [of _ s'] exI [of _ "split_rank x ?nn rk"]) simp
qed

section \<open>Matching a prefix\<close>

definition none_cached_past :: "'al radix_cache \<Rightarrow> string option \<Rightarrow> nat \<Rightarrow> key_unit list \<Rightarrow> bool" where
  "none_cached_past s ek n us \<longleftrightarrow> n \<le> length us \<and>
     (\<forall>m vs. n < m \<longrightarrow> m \<le> length us \<longrightarrow> \<not> cached (rc_page_size s) (root_node s) (shape s) ek (take m us) vs)"

lemma none_cached_same: "same_cache s s' \<Longrightarrow> none_cached_past s' ek n us \<longleftrightarrow> none_cached_past s ek n us"
  using configD(2,7) [of s' s] by (simp add: none_cached_past_def same_cache_def)

lemma match_loop_end:
  assumes st: "search_at D rk H u v a key ck s" and P: "shape s a = Some P"
    and none: "(if key_len key > 0 then map_of (c_children P) ck else None) = None"
  shows "match_loop fuel t a key ck acc s = Inr (acc, a, s)" "none_cached_past s (extra_key key) (length u) (u @ key_iter key)"
proof -
  note d = search_atD [OF st]
  obtain n where "get_node s a = Inr n" "cell_of n = P" using get_node_shape [OF P] by blast
  then show "match_loop fuel t a key ck acc s = Inr (acc, a, s)" using none by (subst match_loop.simps) (auto simp: split: if_splits)
  show "none_cached_past s (extra_key key) (length u) (u @ key_iter key)"
  proof (cases "0 < key_len key")
    case True
    then have "map_of (c_children P) (extra_key key, take (rc_page_size s) (key_iter key)) = None"
      using none d(6) by (simp add: dict_key_def)
    from none_past_node [OF d(2,3) P this] show ?thesis by (simp add: none_cached_past_def)
  qed (simp add: none_cached_past_def)
qed

text \<open>The loop ends, and where it ends the walk is the longest there is.\<close>

lemma match_loop_ok:
  assumes "search_at D rk H u v a key ck s" "key_len key \<le> fuel"
  shows "\<exists>vs b s' D' rk' n w. match_loop fuel t a key ck acc s = Inr (vs, b, s') \<and> same_cache s s' \<and> D \<subseteq> D' \<and>
    radix_inv D' rk' H s' \<and> tree_slots D' (shape s') = tree_slots D (shape s) \<and> concat vs = concat acc @ w \<and> length w = n \<and>
    walk (shape s') (extra_key key) (root_node s) (u @ take n (key_iter key)) (v @ w) b \<and>
    none_cached_past s (extra_key key) (length u + n) (u @ key_iter key)"
  using assms
proof (induction fuel arbitrary: a key ck acc s u v)
  case (0 a key ck acc s u v)
  note st = 0(1) and d = search_atD [OF 0(1)]
  obtain P where P: "shape s a = Some P" using tree_okD(4) [OF d(2,7)] by blast
  have "(if key_len key > 0 then map_of (c_children P) ck else None) = None" using 0(2) by simp
  note e = match_loop_end [OF st P this]
  show ?case using e d(1,3) same_cache_refl
    by (intro exI [of _ acc] exI [of _ a] exI [of _ s] exI [of _ D] exI [of _ rk] exI [of _ 0] exI [of _ "[]"]) simp
next
  case (Suc fuel a key ck acc s u v)
  note st = Suc.prems(1) and d = search_atD [OF Suc.prems(1)]
  let ?ps = "rc_page_size s" and ?K = "key_iter key"
  obtain P where P: "shape s a = Some P" using tree_okD(4) [OF d(2,7)] by blast
  obtain pn where nd: "get_node s a = Inr pn" "cell_of pn = P" using get_node_shape [OF P] by blast
  show ?case
  proof (cases "if key_len key > 0 then map_of (c_children P) ck else None")
    case None
    note e = match_loop_end [OF st P this]
    show ?thesis using e d(1,3) same_cache_refl
      by (intro exI [of _ acc] exI [of _ a] exI [of _ s] exI [of _ D] exI [of _ rk] exI [of _ 0] exI [of _ "[]"]) simp
  next
    case (Some x)
    then have x: "0 < key_len key" "map_of (c_children P) ck = Some x" by (auto split: if_splits)
    obtain C V n where c: "shape s x = Some C" "c_value C = Some V" "x \<in> D" "x \<noteq> root_node s" "c_parent C = Some a" "extra_key (c_key C) = extra_key key"
      "length V = key_len (c_key C)" "((extra_key key, take ?ps ?K), x) \<in> set (c_children P)" "key_match ?ps (c_key C) key = Inr n"
      "n = match_tokens (key_iter (c_key C)) ?K div ?ps * ?ps" "0 < n" "n \<le> key_len (c_key C)" "n \<le> key_len key" "?ps dvd n"
      "take n (key_iter (c_key C)) = take n ?K"
      by (rule child_found [OF st P x])
    obtain m where m: "get_node s x = Inr m" "cell_of m = C" using get_node_shape [OF c(1)] by blast
    define s1 where "s1 = upd_node x (\<lambda>n. n\<lparr>last_access_time := t\<rparr>) s"
    have to: "touched s s1" unfolding s1_def by (intro touched_upd touched_refl) (simp add: cell_of_def)
    note q = touchedD [OF to] and cf = configD [OF touchedD(2) [OF to]]
    have st1: "search_at D rk H u v a key ck s1" by (rule q(7) [OF st])
    define ck' where "ck' = (if key_len (key_from key n) > 0 then dict_key ?ps (key_from key n) else ck)"
    note nx = next_search [OF d(8,5) c(14,13), of ck, folded ck'_def]
    have f: "node_key m = c_key C" "node_value m = Some V" "children (the (nodes s a)) = c_children P"
      using m(2) c(2) P by (auto simp: shape_def)
    note ml = match_loop.simps [of "Suc fuel" t a key ck acc s]
    show ?thesis
    proof (cases "n < key_len (c_key C)")
      case True
      obtain s2 rk' where s2: "split_node (c_key C) x n s1 = Inr (counter s, s2)" "same_cache s1 s2" "shape s2 (counter s) \<noteq> None"
        "c_value (cells (shape s2) (counter s)) = Some (take n V)"
        "search_at (insert (counter s) D) rk' H (u @ take n ?K) (v @ take n V) (counter s) (key_from key n) ck' s2"
        "tree_slots (insert (counter s) D) (shape s2) = tree_slots D (shape s)"
        using descend_split [OF st1, unfolded q(1,4) cf(2,7), OF P c(8,1,2,6,3,4,5,15,11) True c(13,14) ck'_def] by blast
      obtain m2 where m2: "get_node s2 (counter s) = Inr m2" "node_value m2 = Some (take n V)"
        using s2(3,4) by (auto simp: shape_def get_node_def)
      have sc: "same_cache s s2" using same_cache_trans [OF q(5) s2(2)] .
      note d2 = search_atD [OF s2(5)] and cf2 = configD [OF conjunct1 [OF sc [unfolded same_cache_def]]]
      have "match_loop (Suc fuel) t a key ck acc s = Inr (acc @ [take n V], counter s, s2)"
        unfolding ml using nd m(1) x c(9) True s2(1) m2 f by (auto simp: s1_def Let_def attr_def)
      moreover have "none_cached_past s (extra_key key) (length u + n) (u @ ?K)"
        using none_past_match [OF d(2,3) P c(8,1,10) True] c(13) by (simp add: none_cached_past_def)
      ultimately show ?thesis using sc d2(1,3) cf2(7) c(7,12) s2(6)
        by (intro exI [of _ "acc @ [take n V]"] exI [of _ "counter s"] exI [of _ s2] exI [of _ "insert (counter s) D"] exI [of _ rk'] exI [of _ n]
            exI [of _ "take n V"]) auto
    next
      case False
      then have n: "n = key_len (c_key C)" using c(12) by simp
      have st2: "search_at D rk H (u @ take n ?K) (v @ V) x (key_from key n) ck' s1"
        by (rule q(7) [OF descend_whole [OF st P c(8,1,2,6,15) n c(13,14) ck'_def]])
      have "key_len (key_from key n) \<le> fuel" using Suc.prems(2) c(11) by simp
      from Suc.IH [OF st2 this, of "acc @ [V]"]
      obtain vs b s' D' rk' k w where ih: "match_loop fuel t x (key_from key n) ck' (acc @ [V]) s1 = Inr (vs, b, s')" "same_cache s1 s'" "D \<subseteq> D'"
        "radix_inv D' rk' H s'" "tree_slots D' (shape s') = tree_slots D (shape s1)" "concat vs = concat (acc @ [V]) @ w" "length w = k"
        "walk (shape s') (extra_key key) (root_node s1) ((u @ take n ?K) @ take k (drop n ?K)) ((v @ V) @ w) b"
        "none_cached_past s1 (extra_key key) (length (u @ take n ?K) + k) ((u @ take n ?K) @ drop n ?K)" by auto
      have "match_loop (Suc fuel) t a key ck acc s = Inr (vs, b, s')"
        unfolding ml using nd m(1) x c(9) False nx ih(1) f by (auto simp: s1_def Let_def attr_def)
      moreover have "none_cached_past s (extra_key key) (length u + (n + k)) (u @ ?K)"
        using ih(9) c(13) unfolding none_cached_same [OF q(5)] by (simp add: add.assoc)
      ultimately show ?thesis using ih same_cache_trans [OF q(5) ih(2)] cf(7) c(7) n q(1)
        by (intro exI [of _ vs] exI [of _ b] exI [of _ s'] exI [of _ D'] exI [of _ rk'] exI [of _ "n + k"] exI [of _ "V @ w"])
          (simp add: take_add)
    qed
  qed
qed

lemma aligned_prefix:
  assumes "1 \<le> ps" "ps dvd m" "m \<le> length us"
  shows "m \<le> length us div ps * ps"
proof -
  have "m div ps * ps \<le> length us div ps * ps" using assms(3) by (intro mult_le_mono1 div_le_mono)
  then show ?thesis using assms(2) by simp
qed

lemma none_cached_aligned:
  assumes "none_cached_past s ek n (take (length us div rc_page_size s * rc_page_size s) us)" "1 \<le> rc_page_size s"
  shows "none_cached_past s ek n us"
  unfolding none_cached_past_def
proof (intro conjI allI impI notI)
  let ?ps = "rc_page_size s" and ?l = "length us div rc_page_size s * rc_page_size s"
  have l: "?l \<le> length us" by simp
  have "n \<le> ?l" using assms(1) by (simp add: none_cached_past_def)
  then show "n \<le> length us" using l by (rule le_trans)
  fix m vs assume m: "n < m" "m \<le> length us" and c: "cached ?ps (root_node s) (shape s) ek (take m us) vs"
  have "length (take m us) = m" using m(2) by simp
  then have "?ps dvd m" using c by (simp add: cached_def)
  then have "m \<le> ?l" using aligned_prefix assms(2) m(2) by blast
  then have "take m us = take m (take ?l us)" "m \<le> length (take ?l us)" using l m(2) by (simp_all add: min_def)
  then show False using assms(1) m(1) c by (metis none_cached_past_def)
qed

definition bigram_view :: "bool \<Rightarrow> radix_key \<Rightarrow> radix_key" where
  "bigram_view eagle key = (if eagle then key\<lparr>is_bigram := True\<rparr> else key)"

lemma bigram_view_facts:
  "maybe_to_bigram_view eagle key v = (bigram_view eagle key, if eagle \<and> \<not> is_bigram key then map_option (take (key_len (bigram_view eagle key))) v else v)"
  "extra_key (bigram_view eagle key) = extra_key key" "(is_bigram key \<Longrightarrow> eagle) \<Longrightarrow> is_bigram (bigram_view eagle key) = eagle"
  by (cases key; auto simp: maybe_to_bigram_view_def bigram_view_def Let_def)+

lemma search_from_root:
  assumes "radix_inv D rk H s" "is_bigram key = is_eagle s" "rc_page_size s dvd key_len key"
  shows "search_at D rk H [] [] (root_node s) key (dict_key (rc_page_size s) key) s"
  using assms walk_nil by (simp add: search_at_def)

lemma touched_clock: "touched s (snd (read_clock s))"
  by (simp add: touched_def read_clock_def config_def sizes_def)

text \<open>The whole operation, for the clients of the cache.\<close>

lemma match_prefix_ok:
  assumes inv: "radix_inv D rk H s" and en: "\<not> disable s" and big: "is_bigram key \<longrightarrow> is_eagle s"
  shows "\<exists>slots node s' D' rk'. match_prefix key s = Inr (slots, node, s') \<and> radix_inv D' rk' H s' \<and> D \<subseteq> D' \<and> same_cache s s' \<and>
    tree_slots D' (shape s') = tree_slots D (shape s) \<and>
    (let units = key_iter (bigram_view (is_eagle s) key) in
       cached (rc_page_size s) (root_node s) (shape s) (extra_key key) (take (length slots) units) slots \<and>
       none_cached_past s (extra_key key) (length slots) units \<and>
       walk (shape s') (extra_key key) (root_node s) (take (length slots) units) slots node)"
proof -
  let ?ps = "rc_page_size s" and ?k = "bigram_view (is_eagle s) key"
  define k' where "k' = page_aligned ?ps ?k"
  note bv = bigram_view_facts(1) [of "is_eagle s" key "None :: int list option"] bigram_view_facts(2,3) [where key = key]
  have t: "tree_ok ?ps (is_eagle s) (root_node s) (shape s) D rk" using radix_invD(1) [OF inv] .
  have ps: "1 \<le> ?ps" using tree_okD(1) [OF t] .
  have kk: "key_iter k' = take (length (key_iter ?k) div ?ps * ?ps) (key_iter ?k)" "extra_key k' = extra_key key"
    "is_bigram k' = is_eagle s" "?ps dvd key_len k'" "key_len k' = key_len ?k div ?ps * ?ps"
    using big bv(2,3) by (auto simp: k'_def key_iter_aligned)
  have root: "cached ?ps (root_node s) (shape s) ek [] []" for ek
    unfolding cached_def by (intro conjI exI [of _ "[]"] exI [of _ "root_node s"] walk_nil) simp_all
  show ?thesis
  proof (cases "key_len k' = 0")
    case True
    then have "match_prefix key s = Inr ([], root_node s, s)" unfolding match_prefix_def bv(1) prod.case Let_def k'_def [symmetric] by simp
    moreover have "none_cached_past s (extra_key key) 0 (key_iter ?k)"
      by (rule none_cached_aligned [OF _ ps]) (use True kk(5) in \<open>auto simp: none_cached_past_def\<close>)
    ultimately show ?thesis using inv root
      by (intro exI [of _ "[]"] exI [of _ "root_node s"] exI [of _ s] exI [of _ D] exI [of _ rk]) (simp add: Let_def same_cache_refl walk_nil)
  next
    case False
    define t0 where "t0 = fst (read_clock s)"
    define s1 where "s1 = upd_node (root_node s) (\<lambda>n. n\<lparr>last_access_time := t0\<rparr>) (snd (read_clock s))"
    have to: "touched s s1" unfolding s1_def by (intro touched_upd touched_clock) (simp add: cell_of_def)
    note q = touchedD [OF to] and cf = configD [OF touchedD(2) [OF to]]
    have psk: "?ps \<le> key_len k'" using False kk(4) by (intro dvd_imp_le) simp_all
    have ck: "child_key ?ps k' = Inr (dict_key ?ps k')" using child_key_eq [OF ps psk] by (simp add: dict_key_def)
    have mp: "match_prefix key s = py_bind (match_loop (key_len k') t0 (root_node s) k' (dict_key ?ps k') [] s1)
        (\<lambda>(value, last_node, s'). Inr (concat value, last_node, s'))"
      unfolding match_prefix_def bv(1) prod.case Let_def k'_def [symmetric] using False en kk(5) ck
      by (auto simp: match_prefix_helper_def s1_def t0_def split_beta)
    obtain vs b s' D' rk' w where r: "match_loop (key_len k') t0 (root_node s) k' (dict_key ?ps k') [] s1 = Inr (vs, b, s')"
      "same_cache s1 s'" "D \<subseteq> D'" "radix_inv D' rk' H s'" "concat vs = w"
      "walk (shape s') (extra_key key) (root_node s) (take (length w) (key_iter k')) w b"
      "none_cached_past s1 (extra_key key) (length w) (key_iter k')" "tree_slots D' (shape s') = tree_slots D (shape s)"
      using match_loop_ok [OF q(7) [OF search_from_root [OF inv kk(3,4)]] order_refl, of t0 "[]"] unfolding cf(7) kk(2) q(1) by auto
    have sc: "same_cache s s'" using same_cache_trans [OF q(5) r(2)] .
    have np: "none_cached_past s (extra_key key) (length w) (key_iter k')" using r(7) unfolding none_cached_same [OF q(5)] .
    then have lw: "length w \<le> key_len k'" by (simp add: none_cached_past_def)
    have tk: "take (length w) (key_iter k') = take (length w) (key_iter ?k)" using lw kk(1,5) by (simp add: min_def)
    have t': "tree_ok ?ps (is_eagle s) (root_node s) (shape s') D' rk'"
      using radix_invD(1) [OF r(4)] configD [of s' s] sc by (simp add: same_cache_def)
    have "cached ?ps (root_node s) (shape s') (extra_key key) (take (length w) (key_iter k')) w"
      using r(6) walk_facts(3) [OF r(6) t' tree_okD(3) [OF t']] lw unfolding cached_def
      by (intro conjI exI [of _ "take (length w) (key_iter k')"] exI [of _ w] exI [of _ b]) simp_all
    then have "cached ?ps (root_node s) (shape s) (extra_key key) (take (length w) (key_iter ?k)) w"
      using sc tk by (simp add: same_cache_def)
    moreover have "none_cached_past s (extra_key key) (length w) (key_iter ?k)"
      using np unfolding kk(1) by (rule none_cached_aligned [OF _ ps])
    ultimately show ?thesis using mp r(1,3-6,8) sc tk
      by (intro exI [of _ w] exI [of _ b] exI [of _ s'] exI [of _ D'] exI [of _ rk']) (simp add: Let_def)
  qed
qed

text \<open>
  C8. \<open>match_prefix\<close> returns: the slots it hands out are those that the cache holds for the longest cached prefix of
  the key (in whole pages, in the namespace of the key, in the bigram view under EAGLE), the node it hands out is
  where this prefix ends, and whatever nodes it split the cache holds the same prefixes with the same slots
  afterwards, with all invariants and lock references kept.
\<close>

theorem match_prefix_longest:
  assumes inv: "radix_inv D rk H s" and en: "\<not> disable s" and big: "is_bigram key \<longrightarrow> is_eagle s"
  shows "\<exists>slots node s' D' rk'. match_prefix key s = Inr (slots, node, s') \<and> radix_inv D' rk' H s' \<and> D \<subseteq> D' \<and> same_cache s s' \<and>
    tree_slots D' (shape s') = tree_slots D (shape s) \<and>
    (let units = key_iter (bigram_view (is_eagle s) key) in
       cached (rc_page_size s) (root_node s) (shape s) (extra_key key) (take (length slots) units) slots \<and>
       none_cached_past s (extra_key key) (length slots) units \<and>
       walk (shape s') (extra_key key) (root_node s) (take (length slots) units) slots node)"
  using match_prefix_ok [OF assms] .

text \<open>A cache with one cached sequence of three tokens.\<close>

definition demo_cache :: "unit radix_cache" where
  "demo_cache = (radix_init 1 False LRU ())
     \<lparr>nodes := (\<lambda>a. if a = 0 then Some \<lparr>children = [((None, [Tok 7]), 1)], parent = None,
           node_key = \<lparr>token_ids = [], extra_key = None, is_bigram = False\<rparr>, node_value = Some [], lock_ref = 1,
           last_access_time = 0, creation_time = 0, hit_count = 0, host_ref_counter = 0, host_value = Some [], hash_value = Some [],
           priority = - MAXSIZE, node_id = 0\<rparr>
         else if a = 1 then Some \<lparr>children = [], parent = Some 0,
           node_key = \<lparr>token_ids = [7, 8, 9], extra_key = None, is_bigram = False\<rparr>, node_value = Some [4, 5, 6], lock_ref = 0,
           last_access_time = 1, creation_time = 1, hit_count = 0, host_ref_counter = 0, host_value = None, hash_value = None,
           priority = 0, node_id = 1\<rparr>
         else None),
       counter := 2, evictable_size := 3, evictable_leaves := [1]\<rparr>"

lemma demo_cache_fields [simp]:
  "rc_page_size demo_cache = 1" "is_eagle demo_cache = False" "root_node demo_cache = 0" "disable demo_cache = False"
  "counter demo_cache = 2" "evictable_size demo_cache = 3" "protected_size demo_cache = 0" "evictable_leaves demo_cache = [1]"
  "enable_kv_cache_events demo_cache = False"
  by (simp_all add: demo_cache_def radix_init_def reset_def TreeNode_def read_clock_def record_all_cleared_event_def upd_node_def)

lemma demo_cache_inv: "radix_inv {0, 1} id {#} demo_cache"
proof -
  have "shape demo_cache = (\<lambda>a. if a = 0 then Some \<lparr>c_children = [((None, [Tok 7]), 1)], c_parent = None,
        c_key = \<lparr>token_ids = [], extra_key = None, is_bigram = False\<rparr>, c_value = Some [], c_lock = 1\<rparr>
      else if a = 1 then Some \<lparr>c_children = [], c_parent = Some 0, c_key = \<lparr>token_ids = [7, 8, 9], extra_key = None, is_bigram = False\<rparr>,
        c_value = Some [4, 5, 6], c_lock = 0\<rparr> else None)"
    by (simp add: demo_cache_def shape_def cell_of_def fun_eq_iff)
  then show ?thesis
    by (simp add: radix_inv_def tree_ok_def acct_def locks_ok_def dict_key_def key_iter_def key_len_def insert_Diff_if
        insert_commute) auto
qed

theorem match_prefix_longest_witness:
  "radix_inv {0, 1} id {#} demo_cache \<and>
   (\<exists>slots node s'. match_prefix \<lparr>token_ids = [7, 8, 1], extra_key = None, is_bigram = False\<rparr> demo_cache = Inr (slots, node, s') \<and>
      same_cache demo_cache s' \<and> none_cached_past demo_cache None (length slots) [Tok 7, Tok 8, Tok 1])"
proof -
  have "\<not> disable demo_cache" by simp
  note match_prefix_longest [OF demo_cache_inv this, of "\<lparr>token_ids = [7, 8, 1], extra_key = None, is_bigram = False\<rparr>"]
  then show ?thesis using demo_cache_inv by (auto simp: Let_def bigram_view_def key_iter_def)
qed

end
