(* ===== verification/Radix_Insert.thy ===== *)
theory Radix_Insert
  imports Radix_Match
begin

text \<open>
  Insertion into the radix tree: what a new leaf does to the tree, the bookkeeping and the cached prefixes, and that
  \<open>insert\<close> adds exactly the prefixes of the key to the cache.
\<close>

section \<open>Walks to the same node\<close>

lemma walk_last:
  assumes "walk h ek a u v b"
  shows "a = b \<and> u = [] \<and> v = [] \<or>
    (\<exists>p P k C w u' v'. walk h ek a u' v' p \<and> h p = Some P \<and> (k, b) \<in> set (c_children P) \<and> h b = Some C \<and> extra_key (c_key C) = ek \<and>
       c_value C = Some w \<and> u = u' @ key_iter (c_key C) \<and> v = v' @ w)"
  using assms
proof induction
  case (walk_cons a P k x C w us vs b)
  note step = walk.walk_cons [OF walk_cons.hyps(1-5)]
  from walk_cons.IH show ?case
  proof
    assume "x = b \<and> us = [] \<and> vs = []"
    then show ?thesis using walk_cons.hyps walk_nil [of h ek a]
      by (intro disjI2 exI [of _ a] exI [of _ P] exI [of _ k] exI [of _ C] exI [of _ w] exI [of _ "[]"]) simp
  next
    assume "\<exists>p P k C w u' v'. walk h ek x u' v' p \<and> h p = Some P \<and> (k, b) \<in> set (c_children P) \<and> h b = Some C \<and> extra_key (c_key C) = ek \<and>
       c_value C = Some w \<and> us = u' @ key_iter (c_key C) \<and> vs = v' @ w"
    then obtain p P' k' C' w' u' v' where g: "walk h ek x u' v' p" "h p = Some P'" "(k', b) \<in> set (c_children P')" "h b = Some C'" "extra_key (c_key C') = ek"
       "c_value C' = Some w'" "us = u' @ key_iter (c_key C')" "vs = v' @ w'" by blast
    then show ?thesis using step [OF g(1)]
      by (intro disjI2 exI [of _ p] exI [of _ P'] exI [of _ k'] exI [of _ C'] exI [of _ w'] exI [of _ "key_iter (c_key C) @ u'"] exI [of _ "w @ v'"]) simp
  qed
qed simp

lemma walk_end_extra:
  assumes "walk h ek a u v b" "a \<noteq> b"
  shows "extra_key (c_key (cells h b)) = ek"
  using walk_last [OF assms(1)] assms(2) by auto

lemma walk_up: "walk h ek a u v b \<Longrightarrow> tree_ok ps eagle root h D rk \<Longrightarrow> a \<in> D \<Longrightarrow> up h b a"
proof (induction rule: walk.induct)
  case (walk_cons a P k x C w us vs b)
  note f = child_facts [OF walk_cons.prems(1,2) walk_cons.hyps(1-3,5)]
  have "up h x a" using up_step [of h x C a a] walk_cons.hyps(3) f(8) up_refl by blast
  moreover have "up h c e" if "up h c d" "up h d e" for c d e using that by (induction rule: up.induct) (auto intro: up.up_step)
  ultimately show ?case using walk_cons.IH [OF walk_cons.prems(1) f(1)] by blast
qed (rule up_refl)

lemma walk_rank: "walk h ek a u v b \<Longrightarrow> tree_ok ps eagle root h D rk \<Longrightarrow> a \<in> D \<Longrightarrow> b \<noteq> a \<Longrightarrow> rk a < rk b"
  using walk_up walk_facts(1) up_in_tree by metis

lemma walk_end_unique:
  assumes "walk h ek root u v b" "walk h ek root u' v' b" "tree_ok ps eagle root h D rk" "root \<in> D"
  shows "u = u' \<and> v = v'"
  using assms(1,2)
proof (induction "rk b" arbitrary: b u v u' v' rule: less_induct)
  case (less b u v u' v')
  show ?case
  proof (cases "b = root")
    case True
    have "(k, root) \<notin> set (c_children P)" if "h p = Some P" "p \<in> D" for p P k
      using tree_okD(8) [OF assms(3) that(2)] that(1) by fastforce
    then show ?thesis using walk_last [OF less.prems(1)] walk_last [OF less.prems(2)] True walk_facts(1) [OF _ assms(3,4)] by metis
  next
    case False
    from walk_last [OF less.prems(1)] False obtain p P k C w u1 v1 where g: "walk h ek root u1 v1 p" "h p = Some P" "(k, b) \<in> set (c_children P)" "h b = Some C"
      "c_value C = Some w" "u = u1 @ key_iter (c_key C)" "v = v1 @ w" by blast
    from walk_last [OF less.prems(2)] False obtain p' P' k' C' w' u1' v1' where g': "walk h ek root u1' v1' p'" "h p' = Some P'" "(k', b) \<in> set (c_children P')"
      "h b = Some C'" "c_value C' = Some w'" "u' = u1' @ key_iter (c_key C')" "v' = v1' @ w'" by blast
    note f = child_facts [OF assms(3) walk_facts(1) [OF g(1) assms(3,4)] g(2-5)]
      and f' = child_facts [OF assms(3) walk_facts(1) [OF g'(1) assms(3,4)] g'(2-5)]
    have "C' = C" "w' = w" "p' = p" using g g' f(8) f'(8) by auto
    moreover have "rk p < rk b" using tree_okD(9) [OF assms(3) f(1,2)] g(4) f(8) by auto
    ultimately show ?thesis using less.hyps [of p u1 v1 u1' v1'] g g' by simp
  qed
qed

section \<open>A new leaf in a shape\<close>

definition leaf_cell :: "nat \<Rightarrow> radix_key \<Rightarrow> int list \<Rightarrow> cell" where
  "leaf_cell b key value = \<lparr>c_children = [], c_parent = Some b, c_key = key, c_value = Some value, c_lock = 0\<rparr>"

definition add_leaf_heap :: "nat \<Rightarrow> nat \<Rightarrow> nat \<Rightarrow> radix_key \<Rightarrow> int list \<Rightarrow> heap \<Rightarrow> heap" where
  "add_leaf_heap ps b nn key value h =
     h(nn \<mapsto> leaf_cell b key value,
       b \<mapsto> (cells h b)\<lparr>c_children := AList.update (dict_key ps key) nn (c_children (cells h b))\<rparr>)"

definition leaf_pre :: "nat \<Rightarrow> bool \<Rightarrow> nat \<Rightarrow> heap \<Rightarrow> nat set \<Rightarrow> (nat \<Rightarrow> nat) \<Rightarrow> nat \<Rightarrow> nat \<Rightarrow> radix_key \<Rightarrow> int list \<Rightarrow> bool" where
  "leaf_pre ps eagle root h D rk b nn key value \<longleftrightarrow> tree_ok ps eagle root h D rk \<and> b \<in> D \<and> nn \<notin> D \<and>
     0 < key_len key \<and> ps dvd key_len key \<and> is_bigram key = eagle \<and> length value = key_len key \<and>
     (b \<noteq> root \<longrightarrow> extra_key (c_key (cells h b)) = extra_key key) \<and>
     map_of (c_children (cells h b)) (dict_key ps key) = None"

lemma leaf_preD:
  assumes "leaf_pre ps eagle root h D rk b nn key value"
  shows "tree_ok ps eagle root h D rk" "b \<in> D" "nn \<notin> D" "0 < key_len key" "ps dvd key_len key" "is_bigram key = eagle"
    "length value = key_len key" "b \<noteq> root \<longrightarrow> extra_key (c_key (cells h b)) = extra_key key"
    "\<And>x. (dict_key ps key, x) \<notin> set (c_children (cells h b))" "nn \<noteq> b" "nn \<noteq> root"
proof -
  show t: "tree_ok ps eagle root h D rk" and b: "b \<in> D" and n: "nn \<notin> D" and "0 < key_len key" "ps dvd key_len key" "is_bigram key = eagle"
    "length value = key_len key" "b \<noteq> root \<longrightarrow> extra_key (c_key (cells h b)) = extra_key key"
    using assms by (auto simp: leaf_pre_def)
  show "(dict_key ps key, x) \<notin> set (c_children (cells h b))" for x
    using assms by (auto simp: leaf_pre_def map_of_eq_None_iff intro: rev_image_eqI)
  show "nn \<noteq> b" "nn \<noteq> root" using b n tree_okD(3) [OF t] by auto
qed

lemma leaf_cells:
  assumes "leaf_pre ps eagle root h D rk b nn key value"
  defines "h' \<equiv> add_leaf_heap ps b nn key value h"
  shows "cells h' nn = leaf_cell b key value"
    "\<And>x. x \<in> D \<Longrightarrow> c_parent (cells h' x) = c_parent (cells h x) \<and> c_key (cells h' x) = c_key (cells h x) \<and>
       c_value (cells h' x) = c_value (cells h x) \<and> c_lock (cells h' x) = c_lock (cells h x)"
    "\<And>x k y. x \<in> D \<Longrightarrow> (k, y) \<in> set (c_children (cells h' x)) \<longleftrightarrow>
       x = b \<and> k = dict_key ps key \<and> y = nn \<or> (k, y) \<in> set (c_children (cells h x))"
    "\<And>x. x \<in> D \<Longrightarrow> distinct (map fst (c_children (cells h' x)))"
    "\<And>x. x \<in> D \<Longrightarrow> c_children (cells h' x) = [] \<longleftrightarrow> x \<noteq> b \<and> c_children (cells h x) = []"
    "\<And>x. x \<in> insert nn D \<Longrightarrow> h' x = Some (cells h' x)"
proof -
  note d = leaf_preD [OF assms(1)] and t = tree_okD [OF leaf_preD(1) [OF assms(1)]]
  have bb: "cells h' b = (cells h b)\<lparr>c_children := AList.update (dict_key ps key) nn (c_children (cells h b))\<rparr>"
    by (simp add: h'_def add_leaf_heap_def)
  have other: "cells h' x = cells h x" if "x \<in> D" "x \<noteq> b" for x
    using that d(3) by (auto simp: h'_def add_leaf_heap_def)
  show "cells h' nn = leaf_cell b key value" using d(10) by (simp add: h'_def add_leaf_heap_def)
  show "c_parent (cells h' x) = c_parent (cells h x) \<and> c_key (cells h' x) = c_key (cells h x) \<and>
       c_value (cells h' x) = c_value (cells h x) \<and> c_lock (cells h' x) = c_lock (cells h x)" if "x \<in> D" for x
    using other [OF that] bb by (cases "x = b") simp_all
  show "(k, y) \<in> set (c_children (cells h' x)) \<longleftrightarrow> x = b \<and> k = dict_key ps key \<and> y = nn \<or> (k, y) \<in> set (c_children (cells h x))"
    if "x \<in> D" for x k y
    using other [OF that] bb d(9) alist_update_set [OF t(7) [OF d(2)]] by (cases "x = b") auto
  show "distinct (map fst (c_children (cells h' x)))" if "x \<in> D" for x
    using other [OF that] bb distinct_update [OF t(7) [OF d(2)]] t(7) [OF that] by (cases "x = b") simp_all
  show "c_children (cells h' x) = [] \<longleftrightarrow> x \<noteq> b \<and> c_children (cells h x) = []" if "x \<in> D" for x
    using other [OF that] bb by (cases "x = b") (simp_all add: update_nonempty)
  show "h' x = Some (cells h' x)" if "x \<in> insert nn D" for x
    using that t(4) by (auto simp: h'_def add_leaf_heap_def)
qed

lemma tree_ok_leaf:
  assumes pre: "leaf_pre ps eagle root h D rk b nn key value"
  shows "tree_ok ps eagle root (add_leaf_heap ps b nn key value h) (insert nn D) (rk(nn := Suc (rk b)))"
proof -
  let ?h = "add_leaf_heap ps b nn key value h" and ?rk = "rk(nn := Suc (rk b))"
  note d = leaf_preD [OF pre] and cl = leaf_cells [OF pre] and t = tree_okD [OF leaf_preD(1) [OF pre]]
  have nn: "c_children (cells ?h nn) = []" "c_parent (cells ?h nn) = Some b" "c_key (cells ?h nn) = key" "c_value (cells ?h nn) = Some value"
    using cl(1) by (simp_all add: leaf_cell_def)
  have rkD: "?rk x = rk x" if "x \<in> D" for x using that d(3) by auto
  show ?thesis
    unfolding tree_ok_def
  proof (intro conjI ballI)
    show "?h x \<noteq> None" if "x \<in> insert nn D" for x using cl(6) [OF that] by (metis option.distinct(1))
    show "distinct (map fst (c_children (cells ?h x)))" if "x \<in> insert nn D" for x using that cl(4) nn(1) by auto
    show "case e of (k, y) \<Rightarrow> y \<in> insert nn D \<and> y \<noteq> root \<and> c_parent (cells ?h y) = Some x \<and> k = dict_key ps (c_key (cells ?h y))"
      if x: "x \<in> insert nn D" and e: "e \<in> set (c_children (cells ?h x))" for x e
    proof -
      obtain k y where ky: "e = (k, y)" by (cases e)
      have xD: "x \<in> D" using x e nn(1) by auto
      from e [unfolded ky] consider "x = b" "k = dict_key ps key" "y = nn" | "(k, y) \<in> set (c_children (cells h x))"
        unfolding cl(3) [OF xD] by blast
      then show ?thesis
      proof cases
        case 1
        then show ?thesis using ky nn d(11) by simp
      next
        case 2
        note g = t(8) [OF xD 2]
        then show ?thesis using ky cl(2) [of y] by simp
      qed
    qed
    show "\<exists>p \<in> insert nn D. c_parent (cells ?h x) = Some p \<and> ?rk p < ?rk x \<and> (dict_key ps (c_key (cells ?h x)), x) \<in> set (c_children (cells ?h p)) \<and>
        (p \<noteq> root \<longrightarrow> extra_key (c_key (cells ?h p)) = extra_key (c_key (cells ?h x)))" if x: "x \<in> insert nn D - {root}" for x
    proof (cases "x = nn")
      case True
      have "(dict_key ps key, nn) \<in> set (c_children (cells ?h b))" using cl(3) [OF d(2)] by simp
      then show ?thesis using True nn d(2,8) rkD [OF d(2)] cl(2) [OF d(2)] by (intro bexI [of _ b]) simp_all
    next
      case False
      then have xD: "x \<in> D" "x \<noteq> root" using x by auto
      obtain p where p: "p \<in> D" "c_parent (cells h x) = Some p" "rk p < rk x" "(dict_key ps (c_key (cells h x)), x) \<in> set (c_children (cells h p))"
        "p \<noteq> root \<longrightarrow> extra_key (c_key (cells h p)) = extra_key (c_key (cells h x))" using t(9) [OF xD] by blast
      then show ?thesis using rkD xD cl(2) [OF xD(1)] cl(2) [OF p(1)] cl(3) [OF p(1)] by (intro bexI [of _ p]) simp_all
    qed
    show "let k = c_key (cells ?h x) in 0 < key_len k \<and> ps dvd key_len k \<and> is_bigram k = eagle \<and>
        (\<exists>v. c_value (cells ?h x) = Some v \<and> length v = key_len k)" if x: "x \<in> insert nn D - {root}" for x
      using x nn d(4-7) t(10-13) [of x] cl(2) [of x] by (cases "x = nn") (auto simp: Let_def)
  qed (use t(1-3,5,6) cl(2) [OF t(3)] in auto)
qed

lemma leaf_up:
  assumes pre: "leaf_pre ps eagle root h D rk b nn key value"
  shows "x \<in> D \<Longrightarrow> up (add_leaf_heap ps b nn key value h) x y \<longleftrightarrow> up h x y"
proof -
  let ?h = "add_leaf_heap ps b nn key value h"
  note d = leaf_preD [OF pre] and cl = leaf_cells [OF pre] and t = tree_okD [OF leaf_preD(1) [OF pre]]
  have to: "up ?h x y" if "up h x y" "x \<in> D" for x y
    using that
  proof induction
    case (up_step x C q y)
    have "q \<in> D" using parent_in_tree [OF d(1) up_step.prems up_step.hyps(1,2)] .
    moreover have "?h x = Some (cells ?h x)" "c_parent (cells ?h x) = Some q" using cl(6) cl(2) [of x] up_step by auto
    ultimately show ?case using up_step.IH up.up_step by metis
  qed (rule up_refl)
  have fro: "up h x y" if "up ?h x y" "x \<in> D" for x y
    using that
  proof induction
    case (up_step x C q y)
    have hx: "h x = Some (cells h x)" using t(4) [OF up_step.prems] by auto
    have q: "c_parent (cells h x) = Some q" using up_step.hyps cl(2) [OF up_step.prems] by auto
    then have "q \<in> D" using parent_in_tree [OF d(1) up_step.prems hx] by simp
    then show ?case using up.up_step [OF hx q up_step.IH] by simp
  qed (rule up_refl)
  show "x \<in> D \<Longrightarrow> up ?h x y \<longleftrightarrow> up h x y" using to fro by blast
qed

lemma locks_leaf:
  assumes pre: "leaf_pre ps eagle root h D rk b nn key value" and l: "locks_ok root h D H"
  shows "locks_ok root (add_leaf_heap ps b nn key value h) (insert nn D) H"
proof -
  let ?h = "add_leaf_heap ps b nn key value h"
  note d = leaf_preD [OF pre] and cl = leaf_cells [OF pre] and t = tree_okD [OF leaf_preD(1) [OF pre]]
  have sub: "set_mset H \<subseteq> D" using l by (simp add: locks_ok_def)
  have same: "{#x \<in># H. up ?h x a#} = {#x \<in># H. up h x a#}" for a
    using leaf_up [OF pre] sub by (intro filter_mset_cong) auto
  have none: "{#x \<in># H. up h x nn#} = {#}"
    using up_in_tree [OF _ d(1)] sub d(3) by auto
  have "c_lock (cells ?h a) = int (size {#x \<in># H. up ?h x a#})" if "a \<in> insert nn D - {root}" for a
    using that l d(3) cl(1) cl(2) [of a] none unfolding same locks_ok_def by (cases "a = nn") (auto simp: leaf_cell_def)
  then show ?thesis using sub l cl(2) [OF t(3)] by (auto simp: locks_ok_def)
qed

lemma acct_leaf:
  assumes pre: "leaf_pre ps eagle root h D rk b nn key value" and a: "acct root h D ev pr ls"
    and ls': "distinct ls'" "set ls' = insert nn (set ls - {b})"
  shows "acct root (add_leaf_heap ps b nn key value h) (insert nn D) (ev + int (key_len key)) pr ls'"
proof -
  let ?h = "add_leaf_heap ps b nn key value h"
  note d = leaf_preD [OF pre] and cl = leaf_cells [OF pre] and t = tree_okD [OF leaf_preD(1) [OF pre]]
  have D: "insert nn D - {root} = insert nn (D - {root})" "nn \<notin> D - {root}" "finite (D - {root})" using d(3,11) t(2) by auto
  have c: "c_lock (cells ?h x) = c_lock (cells h x)" "c_key (cells ?h x) = c_key (cells h x)" if "x \<in> D - {root}" for x
    using cl(2) [of x] that by auto
  have nn: "c_lock (cells ?h nn) = 0" "c_key (cells ?h nn) = key" "c_children (cells ?h nn) = []" using cl(1) by (simp_all add: leaf_cell_def)
  have "{x \<in> insert nn D - {root}. c_lock (cells ?h x) = 0 \<and> c_children (cells ?h x) = []} = set ls'"
    unfolding ls'(2) using a d(3,11) nn cl(5) c(1) by (auto simp: acct_def)
  moreover have "(\<Sum>x \<in> D - {root}. g (c_lock (cells ?h x)) (c_key (cells ?h x))) = (\<Sum>x \<in> D - {root}. g (c_lock (cells h x)) (c_key (cells h x)))"
    for g :: "int \<Rightarrow> radix_key \<Rightarrow> int"
    using c by (intro sum.cong) simp_all
  note s1 = this [of "\<lambda>l k. if l = 0 then int (key_len k) else 0"] and s2 = this [of "\<lambda>l k. if l = 0 then 0 else int (key_len k)"]
  ultimately show ?thesis using a ls'(1) D(2,3) nn(1,2) s1 s2 unfolding acct_def D(1) by simp
qed

section \<open>What a new leaf adds to the cache\<close>

lemma walk_leaf_to:
  assumes "walk h ek a u v c" "leaf_pre ps eagle root h D rk b nn key value" "a \<in> D"
  shows "walk (add_leaf_heap ps b nn key value h) ek a u v c"
  using assms
proof (induction rule: walk.induct)
  case (walk_cons a P k x X w us vs c)
  let ?h = "add_leaf_heap ps b nn key value h"
  note d = leaf_preD [OF walk_cons.prems(1)] and cl = leaf_cells [OF walk_cons.prems(1)]
  note ch = child_facts [OF d(1) walk_cons.prems(2) walk_cons.hyps(1-3,5)]
  have "?h a = Some (cells ?h a)" "?h x = Some (cells ?h x)" using cl(6) walk_cons.prems(2) ch(1) by auto
  moreover have "(k, x) \<in> set (c_children (cells ?h a))" using cl(3) [OF walk_cons.prems(2)] walk_cons.hyps(1,2) by simp
  moreover have "c_key (cells ?h x) = c_key X" "c_value (cells ?h x) = Some w" using cl(2) [OF ch(1)] walk_cons.hyps(3,5) by auto
  ultimately show ?case using walk.walk_cons [of ?h a _ k x _ ek w, OF _ _ _ _ _ walk_cons.IH [OF walk_cons.prems(1) ch(1)]] walk_cons.hyps(4) by metis
qed (rule walk_nil)

lemma walk_leaf_from:
  assumes "walk (add_leaf_heap ps b nn key value h) ek a u v c" "leaf_pre ps eagle root h D rk b nn key value" "a \<in> insert nn D"
  shows "if a = nn then u = [] \<and> v = [] \<and> c = nn
    else if c = nn then \<exists>u' v'. walk h ek a u' v' b \<and> u = u' @ key_iter key \<and> v = v' @ value \<and> ek = extra_key key
    else walk h ek a u v c"
  using assms
proof (induction rule: walk.induct)
  case (walk_nil a)
  then show ?case using walk.walk_nil by auto
next
  case (walk_cons a P k x X w us vs c)
  let ?h = "add_leaf_heap ps b nn key value h"
  note d = leaf_preD [OF walk_cons.prems(1)] and cl = leaf_cells [OF walk_cons.prems(1)]
  have PX: "P = cells ?h a" "X = cells ?h x" using walk_cons.hyps(1,3) by simp_all
  have an: "a \<noteq> nn" using walk_cons.hyps(2) PX(1) cl(1) by (auto simp: leaf_cell_def)
  then have aD: "a \<in> D" using walk_cons.prems(2) by simp
  show ?case
  proof (cases "x = nn")
    case True
    then have "c = nn" "us = []" "vs = []" using walk_cons.IH [OF walk_cons.prems(1)] by simp_all
    moreover have "a = b" using walk_cons.hyps(2) tree_okD(8) [OF d(1) aD] d(3) True unfolding PX(1) cl(3) [OF aD] by blast
    ultimately show ?thesis using an walk.walk_nil [of h ek b] True PX(2) cl(1) walk_cons.hyps(4,5) by (auto simp: leaf_cell_def intro!: exI [of _ "[]"])
  next
    case False
    then have old: "(k, x) \<in> set (c_children (cells h a))" using walk_cons.hyps(2) unfolding PX(1) cl(3) [OF aD] by blast
    note g = tree_okD(8) [OF d(1) aD old]
    then have xD: "x \<in> D" by simp
    have h: "h a = Some (cells h a)" "h x = Some (cells h x)" using tree_okD(4) [OF d(1)] aD xD by auto
    have X: "c_key (cells h x) = c_key X" "c_value (cells h x) = Some w" using cl(2) [OF xD] PX(2) walk_cons.hyps(5) by auto
    have st: "walk h ek a (key_iter (c_key X) @ u1) (w @ v1) c1" if "walk h ek x u1 v1 c1" for u1 v1 c1
      using walk.walk_cons [OF h(1) old h(2) _ X(2) that] X(1) walk_cons.hyps(4) by simp
    note ih = walk_cons.IH [OF walk_cons.prems(1)]
    show ?thesis
    proof (cases "c = nn")
      case True
      then obtain u' v' where "walk h ek x u' v' b" "us = u' @ key_iter key" "vs = v' @ value" "ek = extra_key key" using ih False xD by auto
      then show ?thesis using an True st [of u' v' b] by (auto intro!: exI [of _ "key_iter (c_key X) @ u'"] exI [of _ "w @ v'"])
    qed (use ih False xD an st in auto)
  qed
qed

lemma cached_leaf:
  assumes pre: "leaf_pre ps eagle root h D rk b nn key value" and w: "walk h (extra_key key) root u v b"
  shows "cached ps root (add_leaf_heap ps b nn key value h) ek us vs \<longleftrightarrow> cached ps root h ek us vs \<or>
    ek = extra_key key \<and> ps dvd length us \<and> length us \<le> length u + key_len key \<and>
    us = take (length us) (u @ key_iter key) \<and> vs = take (length us) (v @ value)" (is "?L \<longleftrightarrow> ?O \<or> ?N")
proof
  let ?h = "add_leaf_heap ps b nn key value h"
  note d = leaf_preD [OF pre] and cl = leaf_cells [OF pre]
  have r: "root \<in> D" using tree_okD(3) [OF d(1)] .
  show ?L if "?O \<or> ?N"
    using that
  proof
    assume ?O
    then show ?L using walk_leaf_to [OF _ pre r] unfolding cached_def by blast
  next
    assume N: ?N
    have hb: "?h b = Some (cells ?h b)" "?h nn = Some (cells ?h nn)" using cl(6) d(2) by auto
    have nn: "extra_key (c_key (cells ?h nn)) = extra_key key" "c_value (cells ?h nn) = Some value" "c_key (cells ?h nn) = key"
      using cl(1) by (simp_all add: leaf_cell_def)
    have "(dict_key ps key, nn) \<in> set (c_children (cells ?h b))" using cl(3) [OF d(2)] by simp
    from walk_snoc [OF walk_leaf_to [OF w pre r] hb(1) this hb(2) nn(1,2)] nn(3)
    have "walk ?h (extra_key key) root (u @ key_iter key) (v @ value) nn" by simp
    then show ?L unfolding cached_def using N
      by (intro conjI exI [of _ "u @ key_iter key"] exI [of _ "v @ value"] exI [of _ nn]) simp_all
  qed
  assume ?L
  then obtain u1 v1 c where c: "ps dvd length us" "walk ?h ek root u1 v1 c" "length us \<le> length u1" "us = take (length us) u1" "vs = take (length us) v1"
    unfolding cached_def by blast
  note f = walk_leaf_from [OF c(2) pre]
  show "?O \<or> ?N"
  proof (cases "c = nn")
    case True
    then obtain u' v' where u': "walk h ek root u' v' b" "u1 = u' @ key_iter key" "v1 = v' @ value" "ek = extra_key key"
      using f r d(11) by auto
    have "u' = u \<and> v' = v" using walk_end_unique [OF u'(1) [unfolded u'(4)] w d(1) r] .
    then show ?thesis using c u' by simp
  next
    case False
    then have "walk h ek root u1 v1 c" using f r d(11) by auto
    then show ?thesis using c unfolding cached_def by blast
  qed
qed

lemma slots_leaf:
  assumes pre: "leaf_pre ps eagle root h D rk b nn key value"
  shows "tree_slots (insert nn D) (add_leaf_heap ps b nn key value h) = tree_slots D h + mset value"
proof -
  let ?h = "add_leaf_heap ps b nn key value h"
  note d = leaf_preD [OF pre] and cl = leaf_cells [OF pre]
  have "(\<Sum>a \<in> D. mset (the (c_value (cells ?h a)))) = (\<Sum>a \<in> D. mset (the (c_value (cells h a))))"
    using cl(2) by (intro sum.cong) simp_all
  then show ?thesis unfolding tree_slots_def sum.insert [OF tree_okD(2) [OF d(1)] d(3)] using cl(1) by (simp add: leaf_cell_def add.commute)
qed

section \<open>The new leaf in the store\<close>

lemma inc_hit_touched: "touched s s' \<Longrightarrow> touched s (inc_hit_count chunked a s')"
  by (simp add: inc_hit_count_def touched_upd cell_of_def)

lemma inc_hit_fields [simp]:
  "shape (inc_hit_count chunked a s) = shape s" "config (inc_hit_count chunked a s) = config s" "sizes (inc_hit_count chunked a s) = sizes s"
  "counter (inc_hit_count chunked a s) = counter s"
  by (rule touchedD(1-4) [OF inc_hit_touched [OF touched_refl]])+

lemma insert_leaf_ok:
  assumes pre: "leaf_pre (rc_page_size s) (is_eagle s) (root_node s) (shape s) D rk b (counter s) key value"
    and inv: "radix_inv D rk H s" and ev: "\<not> enable_kv_cache_events s" and ck: "ck = dict_key (rc_page_size s) key"
  shows "\<exists>s'. insert_leaf prio chunked b key value ck s = Inr s' \<and> radix_inv (insert (counter s) D) (rk(counter s := Suc (rk b))) H s' \<and>
    config s' = config s \<and> evictable_size s' = evictable_size s + int (key_len key) \<and> protected_size s' = protected_size s \<and>
    shape s' = add_leaf_heap (rc_page_size s) b (counter s) key value (shape s)"
proof -
  note d = leaf_preD [OF pre] and cl = leaf_cells [OF pre] and tl = tree_ok_leaf [OF pre]
  let ?ps = "rc_page_size s" and ?nn = "counter s"
  let ?h = "add_leaf_heap ?ps b ?nn key value (shape s)"
  obtain s1 where s1: "TreeNode prio s = (?nn, s1)" "shape s1 = (shape s)(?nn \<mapsto> fresh_cell)" "config s1 = config s"
    "sizes s1 = sizes s" "counter s1 = Suc ?nn"
    using that [OF TreeNode_facts(1-5)] .
  let ?f = "\<lambda>n. n\<lparr>parent := Some b, node_key := key, node_value := Some value\<rparr>"
  let ?f3 = "\<lambda>n. n\<lparr>children := AList.update ck ?nn (children n)\<rparr>"
  define s2 where "s2 = inc_hit_count chunked ?nn (upd_node ?nn ?f s1)"
  define s3 where "s3 = upd_node b ?f3 s2"
  define s4 where "s4 = s3\<lparr>evictable_size := evictable_size s3 + int (key_len key)\<rparr>"
  have sh2: "shape s2 = (shape s)(?nn \<mapsto> leaf_cell b key value)"
  proof -
    have "shape (upd_node ?nn ?f s1) = (shape s1)(?nn := map_option (\<lambda>c. c\<lparr>c_parent := Some b, c_key := key, c_value := Some value\<rparr>) (shape s1 ?nn))"
      by (rule shape_upd) (simp add: cell_of_def)
    then show ?thesis using s1(2) by (simp add: s2_def fresh_cell_def leaf_cell_def fun_eq_iff)
  qed
  have "shape s3 = (shape s2)(b := map_option (\<lambda>c. c\<lparr>c_children := AList.update ck ?nn (c_children c)\<rparr>) (shape s2 b))"
    unfolding s3_def by (rule shape_upd) (simp add: cell_of_def)
  moreover have "shape s b = Some (cells (shape s) b)" using tree_okD(4) [OF d(1,2)] by auto
  ultimately have sh4: "shape s4 = ?h" using sh2 d(10) by (auto simp: s4_def ck add_leaf_heap_def fun_eq_iff)
  have cf4: "config s4 = config s" "counter s4 = Suc ?nn" "evictable_size s4 = evictable_size s + int (key_len key)"
    "protected_size s4 = protected_size s" "evictable_leaves s4 = evictable_leaves s"
  proof -
    have "config s3 = config s" "sizes s3 = sizes s" "counter s3 = Suc ?nn" using s1(3-5) by (simp_all add: s3_def s2_def)
    then show "config s4 = config s" "counter s4 = Suc ?nn" "evictable_size s4 = evictable_size s + int (key_len key)"
      "protected_size s4 = protected_size s" "evictable_leaves s4 = evictable_leaves s"
      by (simp_all add: s4_def config_def sizes_def)
  qed
  let ?B = "cells ?h b"
  have hb: "?h b = Some ?B" "?h ?nn = Some (leaf_cell b key value)" using cl(1) cl(6) [of b] cl(6) [of ?nn] d(2) by auto
  have tl4: "tree_ok ?ps (is_eagle s) (root_node s) (shape s4) (insert ?nn D) (rk(?nn := Suc (rk b)))" using tl sh4 by simp
  have u1: "update_leaf_status b s4 = Inr (leaf_status b ?B s4)" using update_leaf_status_eq [OF tl4] d(2) hb(1) sh4 by simp
  have tl5: "tree_ok ?ps (is_eagle s) (root_node s) (shape (leaf_status b ?B s4)) (insert ?nn D) (rk(?nn := Suc (rk b)))" using tl4 by simp
  let ?s6 = "leaf_status ?nn (leaf_cell b key value) (leaf_status b ?B s4)"
  have u2: "update_leaf_status ?nn (leaf_status b ?B s4) = Inr ?s6" using update_leaf_status_eq [OF tl5] hb(2) sh4 by simp
  have cfg: "config ?s6 = config s" using cf4(1) by (simp add: config_def leaf_status_def drop_leaf_def add_leaf_def)
  have "insert_leaf prio chunked b key value ck s = Inr ?s6"
    unfolding insert_leaf_def s1(1) prod.case Let_def s2_def [symmetric] s3_def [symmetric] s4_def [symmetric] u1 py_bind_simps u2 record_store_event_def
    using ev configD(6) [OF cfg] by simp
  moreover have "acct (root_node s) ?h (insert ?nn D) (evictable_size s + int (key_len key)) (protected_size s) (evictable_leaves ?s6)"
  proof (rule acct_leaf [OF pre radix_invD(3) [OF inv]])
    have "c_children ?B \<noteq> []" using cl(5) [OF d(2)] by simp
    moreover have "distinct (evictable_leaves s)" using radix_invD(3) [OF inv] by (simp add: acct_def)
    ultimately show "distinct (evictable_leaves ?s6)" "set (evictable_leaves ?s6) = insert ?nn (set (evictable_leaves s) - {b})"
      using cf4(5) by (auto simp: leaf_status_def leaf_list leaf_cell_def intro!: leaf_list(2))
  qed
  moreover have "radix_inv (insert ?nn D) (rk(?nn := Suc (rk b))) H ?s6"
    using tl4 calculation(2) locks_leaf [OF pre radix_invD(4) [OF inv]] radix_invD(2) [OF inv] sh4 configD [OF cfg] cf4
    by (auto simp: radix_inv_def less_Suc_eq)
  ultimately show ?thesis using cfg cf4 sh4 by (intro exI [of _ ?s6]) simp
qed

section \<open>Insertion\<close>

lemma search_priority:
  "search_at D rk H u v a key ck s \<Longrightarrow>
   search_at D rk H u v a key ck (inc_hit_count chunked b (upd_node b (\<lambda>n. n\<lparr>priority := max (priority n) prio\<rparr>) s))"
  "same_cache s (inc_hit_count chunked b (upd_node b (\<lambda>n. n\<lparr>priority := max (priority n) prio\<rparr>) s))"
  "shape (inc_hit_count chunked b (upd_node b (\<lambda>n. n\<lparr>priority := max (priority n) prio\<rparr>) s)) = shape s"
proof -
  have "touched s (inc_hit_count chunked b (upd_node b (\<lambda>n. n\<lparr>priority := max (priority n) prio\<rparr>) s))"
    by (intro inc_hit_touched touched_upd touched_refl) (simp add: cell_of_def)
  note q = touchedD [OF this]
  show "search_at D rk H u v a key ck s \<Longrightarrow>
     search_at D rk H u v a key ck (inc_hit_count chunked b (upd_node b (\<lambda>n. n\<lparr>priority := max (priority n) prio\<rparr>) s))"
    "same_cache s (inc_hit_count chunked b (upd_node b (\<lambda>n. n\<lparr>priority := max (priority n) prio\<rparr>) s))"
    "shape (inc_hit_count chunked b (upd_node b (\<lambda>n. n\<lparr>priority := max (priority n) prio\<rparr>) s)) = shape s"
    by (fact q)+
qed

text \<open>Where the insertion loop stops: no child of \<open>b\<close> goes on with the rest of the key.\<close>

definition search_stuck :: "nat \<Rightarrow> radix_key \<Rightarrow> child_id \<Rightarrow> 'al radix_cache \<Rightarrow> bool" where
  "search_stuck b key ck s \<longleftrightarrow> (if key_len key > 0 then map_of (c_children (cells (shape s) b)) ck else None) = None"

lemma insert_loop_end:
  assumes st: "search_at D rk H u v a key ck s" and none: "search_stuck a key ck s"
  shows "insert_loop fuel t prio chunked a key vals ck tot s = Inr (a, key, vals, ck, tot, s)"
    "none_cached_past s (extra_key key) (length u) (u @ key_iter key)"
proof -
  note d = search_atD [OF st]
  obtain P where P: "shape s a = Some P" using tree_okD(4) [OF d(2,7)] by blast
  then have no: "(if key_len key > 0 then map_of (c_children P) ck else None) = None" using none P by (simp add: search_stuck_def split: if_splits)
  show "none_cached_past s (extra_key key) (length u) (u @ key_iter key)" by (rule match_loop_end(2) [OF st P no])
  obtain n where "get_node s a = Inr n" "cell_of n = P" using get_node_shape [OF P] by blast
  then show "insert_loop fuel t prio chunked a key vals ck tot s = Inr (a, key, vals, ck, tot, s)"
    using no by (subst insert_loop.simps) (auto split: if_splits)
qed

lemma insert_loop_ok:
  assumes "search_at D rk H u v a key ck s" "key_len key \<le> fuel"
  shows "\<exists>b key' ck' n w s' D' rk'.
    insert_loop fuel t prio chunked a key vals ck tot s = Inr (b, key', drop n vals, ck', tot + n, s') \<and>
    search_at D' rk' H (u @ take n (key_iter key)) (v @ w) b key' ck' s' \<and> search_stuck b key' ck' s' \<and> length w = n \<and> n \<le> key_len key \<and>
    key_iter key' = drop n (key_iter key) \<and> extra_key key' = extra_key key \<and> same_cache s s' \<and> D \<subseteq> D' \<and>
    tree_slots D' (shape s') = tree_slots D (shape s) \<and> none_cached_past s (extra_key key) (length u + n) (u @ key_iter key)"
  using assms
proof (induction fuel arbitrary: D rk a key ck vals tot s u v)
  case (0 D rk a key ck vals tot s u v)
  have st: "search_stuck a key ck s" using 0(2) by (simp add: search_stuck_def)
  note e = insert_loop_end [OF 0(1) st]
  show ?case using e 0(1) st same_cache_refl
    by (intro exI [of _ a] exI [of _ key] exI [of _ ck] exI [of _ 0] exI [of _ "[]"] exI [of _ s] exI [of _ D] exI [of _ rk]) simp
next
  case (Suc fuel D rk a key ck vals tot s u v)
  note st = Suc.prems(1) and d = search_atD [OF Suc.prems(1)]
  let ?ps = "rc_page_size s" and ?K = "key_iter key"
  show ?case
  proof (cases "search_stuck a key ck s")
    case True
    note e = insert_loop_end [OF st True]
    show ?thesis using e st True same_cache_refl
      by (intro exI [of _ a] exI [of _ key] exI [of _ ck] exI [of _ 0] exI [of _ "[]"] exI [of _ s] exI [of _ D] exI [of _ rk]) simp
  next
    case False
    obtain P where P: "shape s a = Some P" using tree_okD(4) [OF d(2,7)] by blast
    obtain pn where nd: "get_node s a = Inr pn" "cell_of pn = P" using get_node_shape [OF P] by blast
    from False P obtain x where x: "0 < key_len key" "map_of (c_children P) ck = Some x" by (auto simp: search_stuck_def split: if_splits)
    obtain C V n where c: "shape s x = Some C" "c_value C = Some V" "x \<in> D" "x \<noteq> root_node s" "c_parent C = Some a" "extra_key (c_key C) = extra_key key"
      "length V = key_len (c_key C)" "((extra_key key, take ?ps ?K), x) \<in> set (c_children P)" "key_match ?ps (c_key C) key = Inr n"
      "n = match_tokens (key_iter (c_key C)) ?K div ?ps * ?ps" "0 < n" "n \<le> key_len (c_key C)" "n \<le> key_len key" "?ps dvd n"
      "take n (key_iter (c_key C)) = take n ?K"
      by (rule child_found [OF st P x])
    obtain m where m: "get_node s x = Inr m" "cell_of m = C" using get_node_shape [OF c(1)] by blast
    define s1 where "s1 = upd_node x (\<lambda>n. n\<lparr>last_access_time := t\<rparr>) s"
    have to: "touched s s1" unfolding s1_def by (intro touched_upd touched_refl) (simp add: cell_of_def)
    note q = touchedD [OF to] and cf = configD [OF touchedD(2) [OF to]]
    have st1: "search_at D rk H u v a key ck s1" by (rule q(7) [OF st])
    define ck' where "ck' = (if key_len (key_from key n) > 0 then dict_key ?ps (key_from key n) else ck)"
    note nx = next_search [OF d(8,5) c(14,13), of ck, folded ck'_def]
    let ?touch = "\<lambda>b s. inc_hit_count chunked b (upd_node b (\<lambda>n. n\<lparr>priority := max (priority n) prio\<rparr>) s)"
    have step: "\<exists>y w s3 D3 rk3. insert_loop (Suc fuel) t prio chunked a key vals ck tot s =
          insert_loop fuel t prio chunked y (key_from key n) (drop n vals) ck' (tot + n) s3 \<and>
        search_at D3 rk3 H (u @ take n ?K) (v @ w) y (key_from key n) ck' s3 \<and> length w = n \<and> same_cache s s3 \<and> D \<subseteq> D3 \<and>
        tree_slots D3 (shape s3) = tree_slots D (shape s)"
    proof (cases "n < key_len (c_key C)")
      case True
      obtain s2 rk' where s2: "split_node (c_key C) x n s1 = Inr (counter s, s2)" "same_cache s1 s2"
        "search_at (insert (counter s) D) rk' H (u @ take n ?K) (v @ take n V) (counter s) (key_from key n) ck' s2"
        "tree_slots (insert (counter s) D) (shape s2) = tree_slots D (shape s)"
        using descend_split [OF st1, unfolded q(1,4) cf(2,7), OF P c(8,1,2,6,3,4,5,15,11) True c(13,14) ck'_def] by blast
      have "insert_loop (Suc fuel) t prio chunked a key vals ck tot s =
          insert_loop fuel t prio chunked (counter s) (key_from key n) (drop n vals) ck' (tot + n) (?touch (counter s) s2)"
        unfolding insert_loop.simps [of "Suc fuel" t prio chunked a key vals ck tot s]
        using nd m x c(9) True s2(1) nx by (auto simp: s1_def Let_def)
      moreover have "tree_slots (insert (counter s) D) (shape (?touch (counter s) s2)) = tree_slots D (shape s)"
        unfolding search_priority(3) by (rule s2(4))
      ultimately show ?thesis using c(7,12) search_priority(1) [OF s2(3)]
          same_cache_trans [OF q(5) same_cache_trans [OF s2(2) search_priority(2)]]
        by (intro exI [of _ "counter s"] exI [of _ "take n V"] exI [of _ "?touch (counter s) s2"] exI [of _ "insert (counter s) D"] exI [of _ rk']) auto
    next
      case False
      then have n: "n = key_len (c_key C)" using c(12) by simp
      have st2: "search_at D rk H (u @ take n ?K) (v @ V) x (key_from key n) ck' s1"
        by (rule q(7) [OF descend_whole [OF st P c(8,1,2,6,15) n c(13,14) ck'_def]])
      have "insert_loop (Suc fuel) t prio chunked a key vals ck tot s =
          insert_loop fuel t prio chunked x (key_from key n) (drop n vals) ck' (tot + n) (?touch x s1)"
        unfolding insert_loop.simps [of "Suc fuel" t prio chunked a key vals ck tot s]
        using nd m x c(9) False nx by (auto simp: s1_def Let_def)
      moreover have "tree_slots D (shape (?touch x s1)) = tree_slots D (shape s)" unfolding search_priority(3) q(1) ..
      ultimately show ?thesis using c(7) n search_priority(1) [OF st2] same_cache_trans [OF q(5) search_priority(2)]
        by (intro exI [of _ x] exI [of _ V] exI [of _ "?touch x s1"] exI [of _ D] exI [of _ rk]) auto
    qed
    then obtain y w s3 D3 rk3 where s3: "insert_loop (Suc fuel) t prio chunked a key vals ck tot s =
          insert_loop fuel t prio chunked y (key_from key n) (drop n vals) ck' (tot + n) s3"
        "search_at D3 rk3 H (u @ take n ?K) (v @ w) y (key_from key n) ck' s3" "length w = n" "same_cache s s3" "D \<subseteq> D3"
        "tree_slots D3 (shape s3) = tree_slots D (shape s)" by blast
    have "key_len (key_from key n) \<le> fuel" using Suc.prems(2) c(11) by simp
    from Suc.IH [OF s3(2) this, of "drop n vals" "tot + n"]
    obtain b key' ck2 k w' s' D' rk' where ih:
      "insert_loop fuel t prio chunked y (key_from key n) (drop n vals) ck' (tot + n) s3 = Inr (b, key', drop k (drop n vals), ck2, tot + n + k, s')"
      "search_at D' rk' H ((u @ take n ?K) @ take k (drop n ?K)) ((v @ w) @ w') b key' ck2 s'" "search_stuck b key' ck2 s'" "length w' = k"
      "k \<le> key_len key - n" "key_iter key' = drop k (drop n ?K)" "extra_key key' = extra_key key" "same_cache s3 s'" "D3 \<subseteq> D'"
      "tree_slots D' (shape s') = tree_slots D3 (shape s3)"
      "none_cached_past s3 (extra_key key) (length (u @ take n ?K) + k) ((u @ take n ?K) @ drop n ?K)" by (auto simp del: drop_drop)
    have "none_cached_past s (extra_key key) (length u + (n + k)) (u @ ?K)"
      using ih(11) c(13) unfolding none_cached_same [OF s3(4)] by (simp add: add.assoc)
    moreover have "search_at D' rk' H (u @ take (n + k) ?K) (v @ (w @ w')) b key' ck2 s'" using ih(2) by (simp add: take_add)
    ultimately show ?thesis
      using s3(1,3,6) ih(1,3-7,10) same_cache_trans [OF s3(4) ih(8)] c(13) subset_trans [OF s3(5) ih(9)]
      by - (rule exI [of _ b], rule exI [of _ key'], rule exI [of _ ck2], rule exI [of _ "n + k"], intro exI [of _ "w @ w'"]
          exI [of _ s'] exI [of _ D'] exI [of _ rk'], simp add: add.commute add.left_commute)
  qed
qed

text \<open>The insertion of a key in whole pages, with one slot per unit.\<close>

lemma insert_helper_ok:
  assumes inv: "radix_inv D rk H s" and ev: "\<not> enable_kv_cache_events s" and big: "is_bigram key = is_eagle s"
    and k: "rc_page_size s dvd key_len key" "length vals = key_len key"
  shows "\<exists>n s' D' rk' old. insert_helper (root_node s) key vals prio chunked s = Inr (n, s') \<and> radix_inv D' rk' H s' \<and> D \<subseteq> D' \<and>
    config s' = config s \<and> evictable_size s' = evictable_size s + int (key_len key - n) \<and> protected_size s' = protected_size s \<and>
    tree_slots D' (shape s') = tree_slots D (shape s) + mset (drop n vals) \<and>
    cached (rc_page_size s) (root_node s) (shape s) (extra_key key) (take n (key_iter key)) old \<and>
    none_cached_past s (extra_key key) n (key_iter key) \<and>
    (\<forall>ek us vs. cached (rc_page_size s) (root_node s) (shape s') ek us vs \<longleftrightarrow> cached (rc_page_size s) (root_node s) (shape s) ek us vs \<or>
       ek = extra_key key \<and> rc_page_size s dvd length us \<and> length us \<le> key_len key \<and> us = take (length us) (key_iter key) \<and>
       vs = take (length us) (old @ drop n vals))"
proof -
  let ?ps = "rc_page_size s" and ?r = "root_node s" and ?K = "key_iter key"
  define p where "p = (case prio of None \<Rightarrow> 0 | Some p \<Rightarrow> p)"
  define t where "t = fst (read_clock s)"
  define s2 where "s2 = upd_node ?r (\<lambda>n. n\<lparr>last_access_time := t, priority := max (priority n) p\<rparr>) (snd (read_clock s))"
  have to: "touched s s2" unfolding s2_def by (intro touched_upd touched_clock) (simp add: cell_of_def)
  note q = touchedD [OF to] and cf = configD [OF touchedD(2) [OF to]]
  have t0: "tree_ok ?ps (is_eagle s) ?r (shape s) D rk" using radix_invD(1) [OF inv] .
  have ps: "1 \<le> ?ps" using tree_okD(1) [OF t0] .
  have sz: "evictable_size s2 = evictable_size s" "protected_size s2 = protected_size s" using q(3) by (simp_all add: sizes_def)
  have root: "cached ?ps ?r (shape s) ek [] []" for ek
    unfolding cached_def by (intro conjI exI [of _ "[]"] exI [of _ ?r] walk_nil) simp_all
  show ?thesis
  proof (cases "key_len key = 0")
    case True
    then have "insert_helper ?r key vals prio chunked s = Inr (0, s2)" by (simp add: insert_helper_def s2_def t_def p_def split_beta Let_def)
    moreover have "cached ?ps ?r (shape s) ek us vs \<longleftrightarrow> cached ?ps ?r (shape s) ek us vs \<or>
       ek = extra_key key \<and> ?ps dvd length us \<and> length us \<le> key_len key \<and> us = take (length us) ?K \<and> vs = take (length us) ([] @ drop 0 vals)" for ek us vs
      using True root by auto
    ultimately show ?thesis using True k(2) q(1,2) q(6) [OF inv] sz root
      by (intro exI [of _ 0] exI [of _ s2] exI [of _ D] exI [of _ rk] exI [of _ "[]"]) (simp add: none_cached_past_def)
  next
    case False
    have psk: "?ps \<le> key_len key" using False k(1) by (intro dvd_imp_le) simp_all
    have ck: "child_key ?ps key = Inr (dict_key ?ps key)" using child_key_eq [OF ps psk] by (simp add: dict_key_def)
    obtain b key' ck' n w s3 D3 rk3 where L: "insert_loop (key_len key) t p chunked ?r key vals (dict_key ?ps key) 0 s2 = Inr (b, key', drop n vals, ck', n, s3)"
      "search_at D3 rk3 H (take n ?K) w b key' ck' s3" "search_stuck b key' ck' s3" "length w = n" "n \<le> key_len key"
      "key_iter key' = drop n ?K" "extra_key key' = extra_key key" "same_cache s2 s3" "D \<subseteq> D3" "tree_slots D3 (shape s3) = tree_slots D (shape s)"
      "none_cached_past s2 (extra_key key) n ?K"
      using insert_loop_ok [OF q(7) [OF search_from_root [OF inv big k(1)]] order_refl, of t p chunked vals 0] unfolding q(1) by auto
    have sc: "same_cache s s3" using same_cache_trans [OF q(5) L(8)] .
    note cf3 = configD [of s3 s] and d = search_atD [OF L(2)]
    have c3: "config s3 = config s" "sizes s3 = sizes s" "\<And>ek us vs. cached ?ps ?r (shape s3) ek us vs \<longleftrightarrow> cached ?ps ?r (shape s) ek us vs"
      using sc by (simp_all add: same_cache_def)
    have sz3: "evictable_size s3 = evictable_size s" "protected_size s3 = protected_size s" using c3(2) by (simp_all add: sizes_def)
    note cf3 = configD [OF c3(1)]
    have len: "key_len key' = key_len key - n" using arg_cong [OF L(6), of length] by simp
    have w: "walk (shape s3) (extra_key key) ?r (take n ?K) w b" using d(3) L(7) cf3(7) by simp
    have t3: "tree_ok ?ps (is_eagle s) ?r (shape s3) D3 rk3" using d(2) cf3 by simp
    have "?ps dvd n" using walk_facts(3) [OF w t3 tree_okD(3) [OF t3]] L(5) by simp
    then have old: "cached ?ps ?r (shape s) (extra_key key) (take n ?K) w"
      using w L(4,5) unfolding c3(3) [symmetric] unfolding cached_def by (intro conjI exI [of _ "take n ?K"] exI [of _ w] exI [of _ b]) simp_all
    have np: "none_cached_past s (extra_key key) n ?K" using L(11) unfolding none_cached_same [OF q(5)] .
    have ih: "insert_helper ?r key vals prio chunked s = (if key_len key' > 0
        then py_bind (insert_leaf p chunked b key' (drop n vals) ck' s3) (\<lambda>s4. Inr (n, s4)) else Inr (n, s3))"
      using False ck L(1) by (simp add: insert_helper_def s2_def t_def p_def split_beta Let_def)
    show ?thesis
    proof (cases "key_len key' = 0")
      case True
      then have n: "n = key_len key" using len L(5) by simp
      have "cached ?ps ?r (shape s) (extra_key key) us (take (length us) w)"
        if "?ps dvd length us" "length us \<le> key_len key" "us = take (length us) ?K" for us
        using w that L(4) n unfolding c3(3) [symmetric] unfolding cached_def by (intro conjI exI [of _ ?K] exI [of _ w] exI [of _ b]) simp_all
      then have "cached ?ps ?r (shape s3) ek us vs \<longleftrightarrow> cached ?ps ?r (shape s) ek us vs \<or>
         ek = extra_key key \<and> ?ps dvd length us \<and> length us \<le> key_len key \<and> us = take (length us) ?K \<and> vs = take (length us) (w @ drop n vals)" for ek us vs
        unfolding c3(3) using n k(2) by auto
      then show ?thesis using ih True n k(2) d(1) L(9,10) c3(1) sz3 old np
        by (intro exI [of _ n] exI [of _ s3] exI [of _ D3] exI [of _ rk3] exI [of _ w]) simp
    next
      case False
      then have ck': "ck' = dict_key (rc_page_size s3) key'" using d(6) by simp
      have none: "map_of (c_children (cells (shape s3) b)) (dict_key (rc_page_size s3) key') = None"
        using L(3) False ck' by (simp add: search_stuck_def)
      have bx: "b \<noteq> root_node s3 \<longrightarrow> extra_key (c_key (cells (shape s3) b)) = extra_key key'"
        using walk_end_extra [OF d(3)] by auto
      have nn: "counter s3 \<notin> D3" using radix_invD(2) [OF d(1)] by blast
      have pre: "leaf_pre (rc_page_size s3) (is_eagle s3) (root_node s3) (shape s3) D3 rk3 b (counter s3) key' (drop n vals)"
        using d(2,4,5,7) nn bx none False len k(2) by (simp add: leaf_pre_def)
      have ev3: "\<not> enable_kv_cache_events s3" using ev cf3(6) by simp
      obtain s4 where s4: "insert_leaf p chunked b key' (drop n vals) ck' s3 = Inr s4"
        "radix_inv (insert (counter s3) D3) (rk3(counter s3 := Suc (rk3 b))) H s4" "config s4 = config s3"
        "evictable_size s4 = evictable_size s3 + int (key_len key')" "protected_size s4 = protected_size s3"
        "shape s4 = add_leaf_heap (rc_page_size s3) b (counter s3) key' (drop n vals) (shape s3)"
        using insert_leaf_ok [OF pre d(1) ev3 ck', of p chunked] by blast
      have "cached ?ps ?r (shape s4) ek us vs \<longleftrightarrow> cached ?ps ?r (shape s) ek us vs \<or>
         ek = extra_key key \<and> ?ps dvd length us \<and> length us \<le> key_len key \<and> us = take (length us) ?K \<and> vs = take (length us) (w @ drop n vals)" for ek us vs
        using cached_leaf [OF pre d(3), of ek us vs] unfolding cf3(2,7) c3(3) L(6,7) len using L(5) s4(6) [unfolded cf3(2)] by simp
      moreover have "tree_slots (insert (counter s3) D3) (shape s4) = tree_slots D (shape s) + mset (drop n vals)"
        unfolding s4(6) slots_leaf [OF pre] L(10) ..
      ultimately show ?thesis using ih False s4(1-5) L(9) c3(1) sz3 old np len
        by (intro exI [of _ n] exI [of _ s4] exI [of _ "insert (counter s3) D3"] exI [of _ "rk3(counter s3 := Suc (rk3 b))"] exI [of _ w]) auto
    qed
  qed
qed

text \<open>The whole operation, for the clients of the cache.\<close>

lemma insert_cache_ok:
  fixes s :: "'al radix_cache"
  assumes inv: "radix_inv D rk H s" and en: "\<not> disable s" and ev: "\<not> enable_kv_cache_events s" and big: "is_bigram key \<longrightarrow> is_eagle s"
    and l: "l = key_len (bigram_view (is_eagle s) key) div rc_page_size s * rc_page_size s" and vals: "l \<le> length vals"
  shows "\<exists>n s' D' rk' old. insert_cache key (Some vals) prio chunked s = Inr (n, s') \<and> radix_inv D' rk' H s' \<and> D \<subseteq> D' \<and>
    config s' = config s \<and> evictable_size s' = evictable_size s + int (l - n) \<and> protected_size s' = protected_size s \<and>
    tree_slots D' (shape s') = tree_slots D (shape s) + mset (drop n (take l vals)) \<and>
    (let units = key_iter (bigram_view (is_eagle s) key) in
       cached (rc_page_size s) (root_node s) (shape s) (extra_key key) (take n units) old \<and>
       none_cached_past s (extra_key key) n units \<and>
       (\<forall>ek us vs. cached (rc_page_size s) (root_node s) (shape s') ek us vs \<longleftrightarrow> cached (rc_page_size s) (root_node s) (shape s) ek us vs \<or>
          ek = extra_key key \<and> rc_page_size s dvd length us \<and> length us \<le> length units \<and> us = take (length us) units \<and>
          vs = take (length us) (old @ drop n vals)))"
proof -
  let ?ps = "rc_page_size s" and ?k = "bigram_view (is_eagle s) key"
  let ?K = "key_iter ?k"
  define k' where "k' = page_aligned ?ps ?k"
  have ps: "1 \<le> ?ps" using tree_okD(1) [OF radix_invD(1) [OF inv]] .
  have kk: "key_iter k' = take l ?K" "extra_key k' = extra_key key" "is_bigram k' = is_eagle s" "?ps dvd key_len k'" "key_len k' = l"
    using big bigram_view_facts(2,3) [where key = key] l by (auto simp: k'_def key_iter_aligned)
  have lk: "l \<le> key_len ?k" using l by simp
  have val: "take l (if is_eagle s \<and> \<not> is_bigram key then take (key_len ?k) vals else vals) = take l vals" using lk by (cases "is_eagle s") (simp_all add: min_def)
  have ins: "insert_cache key (Some vals) prio chunked s = insert_helper (root_node s) k' (take l vals) prio chunked s"
    unfolding insert_cache_def bigram_view_facts(1) prod.case Let_def k'_def [symmetric] kk(5) using en val by (auto split: if_splits)
  obtain n s' D' rk' old where r: "insert_helper (root_node s) k' (take l vals) prio chunked s = Inr (n, s')" "radix_inv D' rk' H s'" "D \<subseteq> D'"
    "config s' = config s" "evictable_size s' = evictable_size s + int (l - n)" "protected_size s' = protected_size s"
    "tree_slots D' (shape s') = tree_slots D (shape s) + mset (drop n (take l vals))"
    "cached ?ps (root_node s) (shape s) (extra_key key) (take n (take l ?K)) old" "none_cached_past s (extra_key key) n (take l ?K)"
    "\<And>ek us vs. cached ?ps (root_node s) (shape s') ek us vs \<longleftrightarrow> cached ?ps (root_node s) (shape s) ek us vs \<or>
       ek = extra_key key \<and> ?ps dvd length us \<and> length us \<le> l \<and> us = take (length us) (take l ?K) \<and>
       vs = take (length us) (old @ drop n (take l vals))"
    using insert_helper_ok [OF inv ev kk(3,4), of "take l vals" prio chunked] vals unfolding kk(1,2,5) by auto
  have nl: "n \<le> l" using r(9) lk by (simp add: none_cached_past_def)
  have "none_cached_past s (extra_key key) n ?K" using none_cached_aligned [OF _ ps, of "extra_key key" n ?K] r(9) l by simp
  moreover have "cached ?ps (root_node s) (shape s) (extra_key key) (take n ?K) old" using r(8) nl by (simp add: min_def)
  moreover have lo: "length old = n" if "cached ?ps (root_node s) (shape s) (extra_key key) (take n ?K) old"
    using that walk_facts(2) [OF _ radix_invD(1) [OF inv] tree_okD(3) [OF radix_invD(1) [OF inv]]] nl lk unfolding cached_def by force
  moreover have "cached ?ps (root_node s) (shape s') ek us vs \<longleftrightarrow> cached ?ps (root_node s) (shape s) ek us vs \<or>
       ek = extra_key key \<and> ?ps dvd length us \<and> length us \<le> length ?K \<and> us = take (length us) ?K \<and>
       vs = take (length us) (old @ drop n vals)" for ek us vs
  proof -
    have "length us \<le> l \<and> us = take (length us) (take l ?K) \<and> vs = take (length us) (old @ drop n (take l vals)) \<longleftrightarrow>
        length us \<le> length ?K \<and> us = take (length us) ?K \<and> vs = take (length us) (old @ drop n vals)" if dv: "?ps dvd length us"
    proof -
      have iff: "length us \<le> l \<longleftrightarrow> length us \<le> length ?K" using aligned_prefix [OF ps dv, of ?K] lk l le_trans [of "length us" l] by (metis length_key_iter)
      have "take (length us) (take l ?K) = take (length us) ?K" "take (length us) (old @ drop n (take l vals)) = take (length us) (old @ drop n vals)"
        if "length us \<le> l" using that nl lo [OF calculation(2)] by (simp_all add: min_def drop_take)
      then show ?thesis using iff by auto
    qed
    then show ?thesis unfolding r(10) by blast
  qed
  ultimately show ?thesis using ins r(1-7)
    by (intro exI [of _ n] exI [of _ s'] exI [of _ D'] exI [of _ rk'] exI [of _ old]) (simp add: Let_def)
qed

text \<open>
  C9. \<open>insert\<close> returns, and it returns the length \<open>n\<close> of the longest prefix of the key the cache held already. Afterwards
  the cache holds what it held before and every prefix of whole pages of the key: with the slots it had for the first
  \<open>n\<close> units, and with the given slots after them. No other prefix is added, no slot of the tree is lost, the
  evictable size grows by the number of new slots, and all invariants and lock references are kept.
\<close>

theorem insert_adds_prefixes:
  fixes s :: "'al radix_cache"
  assumes inv: "radix_inv D rk H s" and en: "\<not> disable s" and ev: "\<not> enable_kv_cache_events s" and big: "is_bigram key \<longrightarrow> is_eagle s"
    and l: "l = key_len (bigram_view (is_eagle s) key) div rc_page_size s * rc_page_size s" and vals: "l \<le> length vals"
  shows "\<exists>n s' D' rk' old. insert_cache key (Some vals) prio chunked s = Inr (n, s') \<and> radix_inv D' rk' H s' \<and> D \<subseteq> D' \<and>
    config s' = config s \<and> evictable_size s' = evictable_size s + int (l - n) \<and> protected_size s' = protected_size s \<and>
    tree_slots D' (shape s') = tree_slots D (shape s) + mset (drop n (take l vals)) \<and>
    (let units = key_iter (bigram_view (is_eagle s) key) in
       cached (rc_page_size s) (root_node s) (shape s) (extra_key key) (take n units) old \<and>
       none_cached_past s (extra_key key) n units \<and>
       (\<forall>ek us vs. cached (rc_page_size s) (root_node s) (shape s') ek us vs \<longleftrightarrow> cached (rc_page_size s) (root_node s) (shape s) ek us vs \<or>
          ek = extra_key key \<and> rc_page_size s dvd length us \<and> length us \<le> length units \<and> us = take (length us) units \<and>
          vs = take (length us) (old @ drop n vals)))"
  using insert_cache_ok [OF assms] .

theorem insert_adds_prefixes_witness:
  "radix_inv {0, 1} id {#} demo_cache \<and>
   (\<exists>n s'. insert_cache \<lparr>token_ids = [7, 8, 1], extra_key = None, is_bigram = False\<rparr> (Some [20, 21, 22]) None False demo_cache = Inr (n, s') \<and>
      evictable_size s' = 3 + int (3 - n) \<and> none_cached_past demo_cache None n [Tok 7, Tok 8, Tok 1])"
proof -
  let ?key = "\<lparr>token_ids = [7, 8, 1], extra_key = None, is_bigram = False\<rparr>"
  have l: "3 = key_len (bigram_view (is_eagle demo_cache) ?key) div rc_page_size demo_cache * rc_page_size demo_cache"
    by (simp add: bigram_view_def key_len_def)
  have d: "\<not> disable demo_cache" "\<not> enable_kv_cache_events demo_cache" by simp_all
  from insert_adds_prefixes [OF demo_cache_inv d _ l, of "[20, 21, 22]" None False] demo_cache_inv show ?thesis
    by (auto simp: Let_def bigram_view_def key_iter_def)
qed

end
