(* ===== verification/Radix_Evict.thy ===== *)
theory Radix_Evict
  imports Radix_Insert
begin

text \<open>
  Eviction from the radix tree: what taking a leaf out does to the tree, the bookkeeping, the cached prefixes and the
  slots, and that \<open>evict\<close> frees as much as was asked for or all that is evictable, and nothing that is locked.
\<close>

section \<open>Taking a leaf out of a shape\<close>

definition del_leaf_heap :: "nat \<Rightarrow> nat \<Rightarrow> nat \<Rightarrow> heap \<Rightarrow> heap" where
  "del_leaf_heap ps x p h = h(p \<mapsto> (cells h p)\<lparr>c_children := AList.delete (dict_key ps (c_key (cells h x))) (c_children (cells h p))\<rparr>)"

definition del_pre :: "nat \<Rightarrow> bool \<Rightarrow> nat \<Rightarrow> heap \<Rightarrow> nat set \<Rightarrow> (nat \<Rightarrow> nat) \<Rightarrow> nat \<Rightarrow> nat \<Rightarrow> bool" where
  "del_pre ps eagle root h D rk x p \<longleftrightarrow> tree_ok ps eagle root h D rk \<and> x \<in> D \<and> x \<noteq> root \<and> c_parent (cells h x) = Some p \<and>
     c_children (cells h x) = []"

lemma del_preD:
  assumes "del_pre ps eagle root h D rk x p"
  shows "tree_ok ps eagle root h D rk" "x \<in> D" "x \<noteq> root" "c_parent (cells h x) = Some p" "c_children (cells h x) = []"
    "p \<in> D" "p \<noteq> x" "(dict_key ps (c_key (cells h x)), x) \<in> set (c_children (cells h p))" "root \<in> D - {x}"
proof -
  show t: "tree_ok ps eagle root h D rk" and x: "x \<in> D" "x \<noteq> root" and p: "c_parent (cells h x) = Some p" "c_children (cells h x) = []"
    using assms by (auto simp: del_pre_def)
  show "p \<in> D" "p \<noteq> x" "(dict_key ps (c_key (cells h x)), x) \<in> set (c_children (cells h p))" using tree_okD(9) [OF t x] p by auto
  show "root \<in> D - {x}" using x tree_okD(3) [OF t] by simp
qed

lemma del_cells:
  assumes "del_pre ps eagle root h D rk x p" "y \<in> D"
  defines "h' \<equiv> del_leaf_heap ps x p h"
  shows "c_parent (cells h' y) = c_parent (cells h y)" "c_key (cells h' y) = c_key (cells h y)"
    "c_value (cells h' y) = c_value (cells h y)" "c_lock (cells h' y) = c_lock (cells h y)" "h' y = Some (cells h' y)"
    "(k, z) \<in> set (c_children (cells h' y)) \<longleftrightarrow> z \<noteq> x \<and> (k, z) \<in> set (c_children (cells h y))"
    "distinct (map fst (c_children (cells h' y)))"
    "y \<noteq> p \<Longrightarrow> cells h' y = cells h y"
proof -
  note d = del_preD [OF assms(1)] and t = tree_okD [OF del_preD(1) [OF assms(1)]]
  have p: "cells h' p = (cells h p)\<lparr>c_children := AList.delete (dict_key ps (c_key (cells h x))) (c_children (cells h p))\<rparr>"
    by (simp add: h'_def del_leaf_heap_def)
  show o: "y \<noteq> p \<Longrightarrow> cells h' y = cells h y" by (simp add: h'_def del_leaf_heap_def)
  show "c_parent (cells h' y) = c_parent (cells h y)" "c_key (cells h' y) = c_key (cells h y)"
    "c_value (cells h' y) = c_value (cells h y)" "c_lock (cells h' y) = c_lock (cells h y)"
    using p o by (cases "y = p"; simp)+
  show "h' y = Some (cells h' y)" using t(4) [OF assms(2)] by (auto simp: h'_def del_leaf_heap_def)
  show "(k, z) \<in> set (c_children (cells h' y)) \<longleftrightarrow> z \<noteq> x \<and> (k, z) \<in> set (c_children (cells h y))"
  proof (cases "y = p")
    case True
    have "k = dict_key ps (c_key (cells h x)) \<longleftrightarrow> z = x" if kz: "(k, z) \<in> set (c_children (cells h p))"
      using t(8) [OF d(6) kz] eq_key_imp_eq_value [OF t(7) [OF d(6)] kz] d(8) by auto
    then show ?thesis using True p by (auto simp: alist_delete_set)
  next
    case False
    then show ?thesis using o t(8) [OF assms(2), of k z] d(4) by auto
  qed
  show "distinct (map fst (c_children (cells h' y)))"
    using p o t(7) [OF assms(2)] distinct_delete [of "c_children (cells h p)"] by (cases "y = p") auto
qed

lemma tree_ok_del:
  assumes pre: "del_pre ps eagle root h D rk x p"
  shows "tree_ok ps eagle root (del_leaf_heap ps x p h) (D - {x}) rk"
proof -
  let ?h = "del_leaf_heap ps x p h"
  note d = del_preD [OF pre] and cl = del_cells [OF pre] and t = tree_okD [OF del_preD(1) [OF pre]]
  show ?thesis
    unfolding tree_ok_def
  proof (intro conjI ballI)
    show "?h y \<noteq> None" if "y \<in> D - {x}" for y using cl(5) that by auto
    show "distinct (map fst (c_children (cells ?h y)))" if "y \<in> D - {x}" for y using cl(7) that by simp
    show "case e of (k, z) \<Rightarrow> z \<in> D - {x} \<and> z \<noteq> root \<and> c_parent (cells ?h z) = Some y \<and> k = dict_key ps (c_key (cells ?h z))"
      if y: "y \<in> D - {x}" and e: "e \<in> set (c_children (cells ?h y))" for y e
    proof -
      obtain k z where kz: "e = (k, z)" by (cases e)
      have "z \<noteq> x" "(k, z) \<in> set (c_children (cells h y))" using e kz cl(6) [of y k z] y by auto
      then show ?thesis using t(8) [of y k z] y kz cl(1,2) [of z] by simp
    qed
    show "\<exists>q \<in> D - {x}. c_parent (cells ?h y) = Some q \<and> rk q < rk y \<and> (dict_key ps (c_key (cells ?h y)), y) \<in> set (c_children (cells ?h q)) \<and>
        (q \<noteq> root \<longrightarrow> extra_key (c_key (cells ?h q)) = extra_key (c_key (cells ?h y)))" if y: "y \<in> D - {x} - {root}" for y
    proof -
      have yD: "y \<in> D" "y \<noteq> root" "y \<noteq> x" using y by auto
      obtain q where q: "q \<in> D" "c_parent (cells h y) = Some q" "rk q < rk y" "(dict_key ps (c_key (cells h y)), y) \<in> set (c_children (cells h q))"
        "q \<noteq> root \<longrightarrow> extra_key (c_key (cells h q)) = extra_key (c_key (cells h y))" using t(9) [OF yD(1,2)] by blast
      moreover have "q \<noteq> x" using q(4) d(5) by auto
      ultimately show ?thesis using yD cl(1,2) [OF yD(1)] cl(2) [OF q(1)] cl(6) [OF q(1)] by (intro bexI [of _ q]) simp_all
    qed
    show "let k = c_key (cells ?h y) in 0 < key_len k \<and> ps dvd key_len k \<and> is_bigram k = eagle \<and>
        (\<exists>v. c_value (cells ?h y) = Some v \<and> length v = key_len k)" if y: "y \<in> D - {x} - {root}" for y
      using y t(10-13) [of y] cl(2,3) [of y] by (auto simp: Let_def)
  qed (use t(1-3,5,6) d(3,9) cl(1,3) [OF t(3)] in auto)
qed

lemma del_up:
  assumes pre: "del_pre ps eagle root h D rk x p" and y: "y \<in> D"
  shows "up (del_leaf_heap ps x p h) y z \<longleftrightarrow> up h y z"
proof -
  let ?h = "del_leaf_heap ps x p h"
  note d = del_preD [OF pre] and cl = del_cells [OF pre] and t = tree_okD [OF del_preD(1) [OF pre]]
  have to: "up ?h y z" if "up h y z" "y \<in> D" for y z
    using that
  proof induction
    case (up_step y C q z)
    have "q \<in> D" using parent_in_tree [OF d(1) up_step.prems up_step.hyps(1,2)] .
    moreover have "?h y = Some (cells ?h y)" "c_parent (cells ?h y) = Some q" using cl(5) cl(1) [of y] up_step by auto
    ultimately show ?case using up_step.IH up.up_step by metis
  qed (rule up_refl)
  have fro: "up h y z" if "up ?h y z" "y \<in> D" for y z
    using that
  proof induction
    case (up_step y C q z)
    have hy: "h y = Some (cells h y)" using t(4) [OF up_step.prems] by auto
    have q: "c_parent (cells h y) = Some q" using up_step.hyps cl(1) [OF up_step.prems] by auto
    then have "q \<in> D" using parent_in_tree [OF d(1) up_step.prems hy] by simp
    then show ?case using up.up_step [OF hy q up_step.IH] by simp
  qed (rule up_refl)
  show ?thesis using to fro y by blast
qed

lemma walk_del:
  assumes pre: "del_pre ps eagle root h D rk x p"
  shows "walk (del_leaf_heap ps x p h) ek root u v b \<longleftrightarrow> walk h ek root u v b \<and> b \<noteq> x"
proof -
  let ?h = "del_leaf_heap ps x p h"
  note d = del_preD [OF pre] and cl = del_cells [OF pre] and t = tree_okD [OF del_preD(1) [OF pre]]
  have to: "walk ?h ek a u v b" if "walk h ek a u v b" "a \<in> D" "b \<noteq> x" for a
    using that
  proof (induction rule: walk.induct)
    case (walk_cons a P k y C w us vs b)
    note ch = child_facts [OF d(1) walk_cons.prems(1) walk_cons.hyps(1-3,5)]
    have IH: "walk ?h ek y us vs b" using walk_cons.IH ch(1) walk_cons.prems(2) by simp
    have hx: "h x = Some (cells h x)" using t(4) [OF d(2)] by auto
    have "y \<noteq> x"
    proof
      assume y: "y = x"
      then show False using walk_cons.hyps(6) walk_cons.prems(2) hx d(5) by (auto elim: walk.cases)
    qed
    then have "(k, y) \<in> set (c_children (cells ?h a))" using cl(6) [OF walk_cons.prems(1)] walk_cons.hyps(1,2) by simp
    moreover have "?h a = Some (cells ?h a)" "?h y = Some (cells ?h y)" using cl(5) walk_cons.prems(1) ch(1) by blast+
    moreover have "c_key (cells ?h y) = c_key C" "c_value (cells ?h y) = Some w" using cl(2,3) [OF ch(1)] walk_cons.hyps(3,5) by auto
    ultimately show ?case using walk.walk_cons [of ?h a _ k y _ ek w, OF _ _ _ _ _ IH] walk_cons.hyps(4) by metis
  qed (rule walk_nil)
  have fro: "walk h ek a u v b \<and> (a \<noteq> x \<longrightarrow> b \<noteq> x)" if "walk ?h ek a u v b" "a \<in> D" for a
    using that
  proof (induction rule: walk.induct)
    case (walk_cons a P k y C w us vs b)
    have PC: "P = cells ?h a" "C = cells ?h y" using walk_cons.hyps(1,3) by simp_all
    have old: "y \<noteq> x" "(k, y) \<in> set (c_children (cells h a))" using walk_cons.hyps(2) cl(6) [OF walk_cons.prems] PC(1) by auto
    then have yD: "y \<in> D" using t(8) [OF walk_cons.prems] by blast
    have h: "h a = Some (cells h a)" "h y = Some (cells h y)" using t(4) walk_cons.prems yD by auto
    have "c_key (cells h y) = c_key C" "c_value (cells h y) = Some w" using cl(2,3) [OF yD] PC(2) walk_cons.hyps(5) by auto
    then show ?case using walk.walk_cons [OF h(1) old(2) h(2), of ek w us vs b] walk_cons.IH [OF yD] old(1) walk_cons.hyps(4) by simp
  qed (auto intro: walk_nil)
  show ?thesis using to [of root] fro [of root] t(3) d(3) by blast
qed

section \<open>Locks, bookkeeping and slots without the leaf\<close>

lemma acct_leaves:
  assumes "acct root h D ev pr ls"
  shows "distinct ls" "a \<in> set ls \<longleftrightarrow> a \<in> D \<and> a \<noteq> root \<and> c_lock (cells h a) = 0 \<and> c_children (cells h a) = []"
  using assms unfolding acct_def by simp_all

lemma locks_nonneg: "locks_ok root h D H \<Longrightarrow> a \<in> D \<Longrightarrow> 0 \<le> c_lock (cells h a)"
  by (cases "a = root") (auto simp: locks_ok_def)

lemma locks_del:
  assumes pre: "del_pre ps eagle root h D rk x p" and l: "locks_ok root h D H" and x: "c_lock (cells h x) = 0"
  shows "locks_ok root (del_leaf_heap ps x p h) (D - {x}) H"
proof -
  let ?h = "del_leaf_heap ps x p h"
  note d = del_preD [OF pre] and cl = del_cells [OF pre]
  have sub: "set_mset H \<subseteq> D" using l by (simp add: locks_ok_def)
  have "{#y \<in># H. up h y x#} = {#}" using l x d(2,3) by (simp add: locks_ok_def)
  then have "x \<notin># H" using up_refl by auto
  have same: "{#y \<in># H. up ?h y a#} = {#y \<in># H. up h y a#}" for a
    using del_up [OF pre] sub by (intro filter_mset_cong) auto
  have "c_lock (cells ?h a) = int (size {#y \<in># H. up ?h y a#})" if "a \<in> D - {x} - {root}" for a
    using that l cl(4) [of a] unfolding same locks_ok_def by auto
  then show ?thesis using sub \<open>x \<notin># H\<close> l cl(4) [of root] d(9) by (auto simp: locks_ok_def)
qed

lemma acct_del:
  assumes pre: "del_pre ps eagle root h D rk x p" and a: "acct root h D ev pr ls" and x: "c_lock (cells h x) = 0"
    and ls': "distinct ls'" "set ls' = (if p \<noteq> root \<and> c_lock (cells h p) = 0 \<and> c_children (cells (del_leaf_heap ps x p h) p) = []
      then insert p (set ls - {x}) else set ls - {x} - {p})"
  shows "acct root (del_leaf_heap ps x p h) (D - {x}) (ev - int (key_len (c_key (cells h x)))) pr ls'"
proof -
  let ?h = "del_leaf_heap ps x p h"
  note d = del_preD [OF pre] and cl = del_cells [OF pre]
  have D: "D - {x} - {root} = D - {root} - {x}" "finite (D - {root})" "x \<in> D - {root}" using d(2,3) tree_okD(2) [OF d(1)] by auto
  have eq: "(\<Sum>y \<in> D - {x} - {root}. g (c_lock (cells ?h y)) (c_key (cells ?h y))) =
      (\<Sum>y \<in> D - {root}. g (c_lock (cells h y)) (c_key (cells h y))) - g 0 (c_key (cells h x))" for g :: "int \<Rightarrow> radix_key \<Rightarrow> int"
  proof -
    have "(\<Sum>y \<in> D - {root} - {x}. g (c_lock (cells ?h y)) (c_key (cells ?h y))) = (\<Sum>y \<in> D - {root} - {x}. g (c_lock (cells h y)) (c_key (cells h y)))"
      using cl(2,4) by (intro sum.cong) auto
    then show ?thesis unfolding D(1) sum.remove [OF D(2,3)] x by simp
  qed
  have "y \<in> {y \<in> D - {x} - {root}. c_lock (cells ?h y) = 0 \<and> c_children (cells ?h y) = []} \<longleftrightarrow> y \<in> set ls'" for y
  proof (cases "y = p")
    case True
    then show ?thesis unfolding ls'(2) using d(6,7) cl(4) [OF d(6)] by auto
  next
    case False
    note acct_leaves(2) [OF a, of y]
    moreover have "y \<in> D \<Longrightarrow> cells ?h y = cells h y" using cl(8) False by blast
    ultimately show ?thesis unfolding ls'(2) using False by (cases "y \<in> D") auto
  qed
  then have "set ls' = {y \<in> D - {x} - {root}. c_lock (cells ?h y) = 0 \<and> c_children (cells ?h y) = []}" by blast
  then show ?thesis
    using a ls'(1) eq [of "\<lambda>l k. if l = 0 then int (key_len k) else 0"] eq [of "\<lambda>l k. if l = 0 then 0 else int (key_len k)"]
    by (simp add: acct_def)
qed

lemma slots_del:
  assumes pre: "del_pre ps eagle root h D rk x p" and v: "c_value (cells h x) = Some v"
  shows "tree_slots D h = tree_slots (D - {x}) (del_leaf_heap ps x p h) + mset v"
proof -
  note d = del_preD [OF pre] and cl = del_cells [OF pre]
  have "(\<Sum>a \<in> D - {x}. mset (the (c_value (cells (del_leaf_heap ps x p h) a)))) = (\<Sum>a \<in> D - {x}. mset (the (c_value (cells h a))))"
    using cl(3) by (intro sum.cong) auto
  then show ?thesis unfolding tree_slots_def sum.remove [OF tree_okD(2) [OF d(1)] d(2)] using v by simp
qed

section \<open>Deleting a leaf in the store\<close>

lemma leaf_status_leaves:
  assumes "0 \<le> c_lock c" "distinct (evictable_leaves s)"
  shows "distinct (evictable_leaves (leaf_status a c s))"
    "set (evictable_leaves (leaf_status a c s)) = (if c_children c = [] \<and> c_lock c = 0
       then insert a (set (evictable_leaves s)) else set (evictable_leaves s) - {a})"
  using assms leaf_list(2) [OF assms(2), of a] by (auto simp: leaf_status_def leaf_list(1,3))

lemma delete_leaf_ok:
  assumes pre: "del_pre (rc_page_size s) (is_eagle s) (root_node s) (shape s) D rk x p" and inv: "radix_inv D rk H s"
    and x: "c_lock (cells (shape s) x) = 0"
  shows "\<exists>s'. delete_leaf x s = Inr s' \<and> radix_inv (D - {x}) rk H s' \<and> config s' = config s \<and> counter s' = counter s \<and>
    shape s' = del_leaf_heap (rc_page_size s) x p (shape s) \<and>
    evictable_size s' = evictable_size s - int (key_len (c_key (cells (shape s) x))) \<and> protected_size s' = protected_size s \<and>
    set (evictable_leaves s') = (if c_children (cells (shape s') p) = [] \<and> c_lock (cells (shape s') p) = 0
      then insert p (set (evictable_leaves s) - {x}) else set (evictable_leaves s) - {x})"
proof -
  note d = del_preD [OF pre] and cl = del_cells [OF pre] and td = tree_ok_del [OF pre]
  let ?ps = "rc_page_size s" and ?h = "del_leaf_heap (rc_page_size s) x p (shape s)" and ?X = "cells (shape s) x"
  let ?ck = "dict_key ?ps (c_key ?X)" and ?k = "int (key_len (c_key ?X))"
  obtain n where n: "get_node s x = Inr n" "cell_of n = ?X" using get_node_shape [of s x ?X] tree_okD(4) [OF d(1,2)] by auto
  have f: "node_key n = c_key ?X" "parent n = Some p" using n(2) d(4) by (metis cell_of_simps)+
  obtain pn where pn: "get_node s p = Inr pn" "cell_of pn = cells (shape s) p" using get_node_shape [of s p "cells (shape s) p"] tree_okD(4) [OF d(1,6)] by auto
  have "?ps \<le> key_len (c_key ?X)" using tree_okD(10,11) [OF d(1-3)] by (intro dvd_imp_le)
  then have ck: "child_key ?ps (c_key ?X) = Inr ?ck" using child_key_eq [OF tree_okD(1) [OF d(1)]] by (simp add: dict_key_def)
  have mem: "map_of (children pn) ?ck = Some x"
    using tree_okD(7) [OF d(1,6)] d(8) arg_cong [OF pn(2), of c_children] by simp
  define s1 where "s1 = upd_node p (\<lambda>m. m\<lparr>children := AList.delete ?ck (children m)\<rparr>) s"
  have "shape s1 = (shape s)(p := map_option (\<lambda>c. c\<lparr>c_children := AList.delete ?ck (c_children c)\<rparr>) (shape s p))"
    unfolding s1_def by (rule shape_upd) (simp add: cell_of_def)
  then have sh1: "shape s1 = ?h" using tree_okD(4) [OF d(1,6)] by (auto simp: del_leaf_heap_def)
  define s2 where "s2 = drop_leaf x (s1\<lparr>evictable_size := evictable_size s1 - ?k\<rparr>)"
  have sh2: "shape s2 = ?h" using sh1 by (simp add: s2_def)
  have cf2: "config s2 = config s" "counter s2 = counter s" "evictable_size s2 = evictable_size s - ?k" "protected_size s2 = protected_size s"
    "evictable_leaves s2 = filter (\<lambda>b. b \<noteq> x) (evictable_leaves s)"
    by (simp_all add: s2_def s1_def config_def drop_leaf_def upd_node_def)
  let ?P = "cells ?h p"
  have hp: "shape s2 p = Some ?P" unfolding sh2 by (rule cl(5) [OF d(6)])
  have t2: "tree_ok ?ps (is_eagle s) (root_node s) (shape s2) (D - {x}) rk" unfolding sh2 by (rule td)
  have u: "update_leaf_status p s2 = Inr (leaf_status p ?P s2)" using update_leaf_status_eq [OF t2 _ hp] d(6,7) by simp
  let ?s' = "leaf_status p ?P s2"
  have del: "delete_leaf x s = Inr ?s'"
    unfolding delete_leaf_def n(1) py_bind_simps f ck attr_def option.case pn(1) Let_def s1_def [symmetric] s2_def [symmetric] mem py_assert_def u by simp
  have cfg: "config ?s' = config s" using cf2(1) by (simp add: config_def leaf_status_def drop_leaf_def add_leaf_def)
  have ac: "acct (root_node s) (shape s) D (evictable_size s) (protected_size s) (evictable_leaves s)" using radix_invD(3) [OF inv] .
  have lk: "locks_ok (root_node s) (shape s) D H" using radix_invD(4) [OF inv] .
  have lp: "c_lock ?P = c_lock (cells (shape s) p)" "0 \<le> c_lock (cells (shape s) p)" using cl(4) [OF d(6)] locks_nonneg [OF lk d(6)] by simp_all
  have rt: "p = root_node s \<Longrightarrow> 0 < c_lock (cells (shape s) p)" using lk by (simp add: locks_ok_def)
  have dl: "distinct (evictable_leaves s)" by (rule acct_leaves(1) [OF ac])
  have pl: "p \<notin> set (evictable_leaves s)" unfolding acct_leaves(2) [OF ac] using d(8) by force
  have leaves: "distinct (evictable_leaves ?s')" "set (evictable_leaves ?s') = (if c_children ?P = [] \<and> c_lock ?P = 0
      then insert p (set (evictable_leaves s) - {x}) else set (evictable_leaves s) - {x})"
  proof -
    have ge: "0 \<le> c_lock ?P" using lp by simp
    have dl2: "distinct (evictable_leaves s2)" "set (evictable_leaves s2) = set (evictable_leaves s) - {x}" using dl unfolding cf2(5) by auto
    note ls = leaf_status_leaves [OF ge dl2(1), of p]
    show "distinct (evictable_leaves ?s')" by (rule ls(1))
    show "set (evictable_leaves ?s') = (if c_children ?P = [] \<and> c_lock ?P = 0
      then insert p (set (evictable_leaves s) - {x}) else set (evictable_leaves s) - {x})"
      unfolding ls(2) dl2(2) using pl by simp
  qed
  have "acct (root_node s) ?h (D - {x}) (evictable_size s - ?k) (protected_size s) (evictable_leaves ?s')"
    using leaves lp rt pl by (intro acct_del [OF pre ac x]) auto
  then have "radix_inv (D - {x}) rk H ?s'"
    using td locks_del [OF pre lk x] radix_invD(2) [OF inv] sh2 configD [OF cfg] cf2 by (auto simp: radix_inv_def)
  then show ?thesis using del cfg cf2 sh2 leaves by (intro exI [of _ ?s']) simp
qed

section \<open>Without an evictable leaf nothing is evictable\<close>

lemma up_trans: "up h a b \<Longrightarrow> up h b c \<Longrightarrow> up h a c"
  by (induction rule: up.induct) (auto intro: up.up_step)

lemma child_unlocked:
  assumes "tree_ok ps eagle root h D rk" "locks_ok root h D H" "a \<in> D" "a \<noteq> root" "c_lock (cells h a) = 0" "(k, y) \<in> set (c_children (cells h a))"
  shows "y \<in> D" "y \<noteq> root" "rk a < rk y" "c_lock (cells h y) = 0"
proof -
  have y: "y \<in> D" "y \<noteq> root" "c_parent (cells h y) = Some a" using tree_okD(8) [OF assms(1,3,6)] by auto
  then show "y \<in> D" "y \<noteq> root" "rk a < rk y" using tree_okD(9) [OF assms(1), of y] by auto
  have "h y = Some (cells h y)" using tree_okD(4) [OF assms(1) y(1)] by auto
  then have "up h y a" using y(3) up.up_step [of h y _ a a] up_refl by metis
  moreover have "{#x \<in># H. up h x a#} = {#}" using assms(2-5) by (simp add: locks_ok_def)
  ultimately have "{#x \<in># H. up h x y#} = {#}" using up_trans [of h _ y a] by auto
  then show "c_lock (cells h y) = 0" using assms(2) y(1,2) by (simp add: locks_ok_def)
qed

lemma no_leaf_no_evictable:
  assumes t: "tree_ok ps eagle root h D rk" and l: "locks_ok root h D H" and a: "acct root h D ev pr []"
  shows "ev = 0"
proof -
  let ?U = "{a \<in> D - {root}. c_lock (cells h a) = 0}"
  have fin: "finite ?U" using tree_okD(2) [OF t] by simp
  have "?U = {}"
  proof (rule ccontr)
    assume "?U \<noteq> {}"
    then have "Max (rk ` ?U) \<in> rk ` ?U" using fin by (intro Max_in) simp_all
    then obtain x where x: "x \<in> ?U" "rk x = Max (rk ` ?U)" by force
    have "c_children (cells h x) = []"
    proof (rule ccontr)
      assume "c_children (cells h x) \<noteq> []"
      then obtain k y where "(k, y) \<in> set (c_children (cells h x))" by (cases "c_children (cells h x)") auto
      from child_unlocked [OF t l _ _ _ this] x(1) have "y \<in> ?U" "rk x < rk y" by auto
      moreover have "rk y \<le> Max (rk ` ?U)" using fin calculation(1) by (intro Max_ge finite_imageI imageI)
      ultimately show False using x(2) by simp
    qed
    then show False using acct_leaves(2) [OF a, of x] x(1) by simp
  qed
  then have "c_lock (cells h b) \<noteq> 0" if "b \<in> D - {root}" for b using that by blast
  then show ?thesis using a unfolding acct_def by (simp add: sum.neutral)
qed

section \<open>The heap\<close>

lemma least_entry_mem: "least_entry e es \<in> set (e # es)"
  by (induction e es rule: least_entry.induct) (auto split: if_splits)

lemma entry_le_total: "\<not> entry_le e f \<Longrightarrow> entry_le f e"
  by (auto simp: entry_le_def split: prod.splits)

lemma entry_le_trans: "entry_le e f \<Longrightarrow> entry_le f g \<Longrightarrow> entry_le e g"
  by (auto simp: entry_le_def split: prod.splits)

lemma entry_le_refl [simp]: "entry_le e e"
  by (auto simp: entry_le_def split: prod.splits)

lemma least_entry_least: "x \<in> set (e # es) \<Longrightarrow> entry_le (least_entry e es) x"
proof (induction e es arbitrary: x rule: least_entry.induct)
  case (2 e f fs)
  let ?m = "if entry_le e f then e else f"
  have m: "entry_le ?m e" "entry_le ?m f" using entry_le_total by auto
  have lm: "entry_le (least_entry ?m fs) ?m" by (rule "2.IH") simp
  from "2.prems" consider "x = e" | "x = f" | "x \<in> set fs" by auto
  then have "entry_le (least_entry ?m fs) x"
  proof cases
    case 3
    then show ?thesis by (intro "2.IH") simp
  qed (use entry_le_trans [OF lm] m in blast)+
  then show ?case by simp
qed simp

definition heap_for :: "heap_entry list \<Rightarrow> 'al radix_cache \<Rightarrow> bool" where
  "heap_for heap s \<longleftrightarrow> distinct (map (snd \<circ> snd) heap) \<and> set (map (snd \<circ> snd) heap) = set (evictable_leaves s)"

lemma heap_for_remove:
  assumes "heap_for heap s" "m \<in> set heap"
  shows "distinct (map (snd \<circ> snd) (remove1 m heap))" "set (map (snd \<circ> snd) (remove1 m heap)) = set (evictable_leaves s) - {snd (snd m)}"
    "snd (snd m) \<in> set (evictable_leaves s)"
proof -
  have d: "distinct (map (snd \<circ> snd) heap)" using assms(1) by (simp add: heap_for_def)
  have dh: "distinct heap" using d by (simp add: distinct_map)
  have r: "set (remove1 m heap) = set heap - {m}" by (rule set_remove1_eq [OF dh])
  show "distinct (map (snd \<circ> snd) (remove1 m heap))" using d dh unfolding distinct_map r by (auto intro: inj_on_subset)
  have "(snd \<circ> snd) ` (set heap - {m}) = (snd \<circ> snd) ` set heap - {snd (snd m)}"
    using d assms(2) unfolding distinct_map by (auto simp: inj_on_def)
  then show "set (map (snd \<circ> snd) (remove1 m heap)) = set (evictable_leaves s) - {snd (snd m)}"
    using assms(1) unfolding heap_for_def set_map r by metis
  show "snd (snd m) \<in> set (evictable_leaves s)" using assms unfolding heap_for_def by auto
qed

section \<open>Eviction\<close>

text \<open>What eviction keeps: the tree shrinks to \<open>D'\<close>, the slots \<open>vs\<close> of the nodes taken out go to the allocator.\<close>

definition evicted_to :: "('al \<Rightarrow> int list \<Rightarrow> 'al) \<Rightarrow> nat set \<Rightarrow> (nat \<Rightarrow> nat) \<Rightarrow> nat multiset \<Rightarrow> 'al radix_cache \<Rightarrow> int list list \<Rightarrow> nat set \<Rightarrow>
    'al radix_cache \<Rightarrow> bool" where
  "evicted_to free D rk H s vs D' s' \<longleftrightarrow> radix_inv D' rk H s' \<and> D' \<subseteq> D \<and>
     config s' = config (s\<lparr>kv_allocator := foldl free (kv_allocator s) vs\<rparr>) \<and> counter s' = counter s \<and>
     tree_slots D (shape s) = tree_slots D' (shape s') + mset (concat vs) \<and>
     evictable_size s' = evictable_size s - int (length (concat vs)) \<and> protected_size s' = protected_size s \<and>
     (\<forall>ek u v b. walk (shape s') ek (root_node s) u v b \<longleftrightarrow> walk (shape s) ek (root_node s) u v b \<and> b \<in> D')"

lemma evicted_to_refl:
  assumes "radix_inv D rk H s"
  shows "evicted_to free D rk H s [] D s"
proof -
  have "walk (shape s) ek (root_node s) u v b \<Longrightarrow> b \<in> D" for ek u v b
    using walk_facts(1) radix_invD(1) [OF assms] tree_okD(3) [OF radix_invD(1) [OF assms]] by metis
  then show ?thesis using assms by (auto simp: evicted_to_def)
qed

lemma evicted_to_trans:
  assumes "evicted_to free D rk H s vs D1 s1" "evicted_to free D1 rk H s1 ws D2 s2"
  shows "evicted_to free D rk H s (vs @ ws) D2 s2"
proof -
  have c: "config s1 = config (s\<lparr>kv_allocator := foldl free (kv_allocator s) vs\<rparr>)" using assms(1) by (simp add: evicted_to_def)
  have c2: "config s2 = config (s1\<lparr>kv_allocator := foldl free (kv_allocator s1) ws\<rparr>)" using assms(2) by (simp add: evicted_to_def)
  have "config s2 = config (s\<lparr>kv_allocator := foldl free (kv_allocator s) (vs @ ws)\<rparr>)" using c c2 by (simp add: config_def)
  moreover have "root_node s1 = root_node s" using c by (simp add: config_def)
  ultimately show ?thesis using assms unfolding evicted_to_def by (auto simp: add.assoc)
qed

text \<open>One round of the loop: the least entry of the heap is evicted, and its parent may become evictable.\<close>

lemma evict_round:
  assumes inv: "radix_inv D rk H s" and hp: "heap_for (e # es) s" and ev: "\<not> enable_kv_cache_events s" and lt: "ne < nt"
  shows "\<exists>v heap' s' x. evict_loop free (Suc fuel) nt ne (e # es) s = evict_loop free fuel nt (ne + int (length v)) heap' s' \<and>
    heap_for heap' s' \<and> evicted_to free D rk H s [v] (D - {x}) s' \<and> x \<in> D \<and> \<not> enable_kv_cache_events s' \<and> v \<noteq> []"
proof -
  let ?ps = "rc_page_size s" and ?r = "root_node s" and ?h = "shape s"
  define m where "m = least_entry e es"
  define x where "x = snd (snd m)"
  have mm: "m \<in> set (e # es)" unfolding m_def by (rule least_entry_mem)
  note rm = heap_for_remove [OF hp mm, folded x_def]
  note t = radix_invD(1) [OF inv] and ac = radix_invD(3) [OF inv]
  have x: "x \<in> D" "x \<noteq> ?r" "c_lock (cells ?h x) = 0" "c_children (cells ?h x) = []" using rm(3) unfolding acct_leaves(2) [OF ac] by auto
  obtain p where p: "c_parent (cells ?h x) = Some p" "p \<in> D" using tree_okD(9) [OF t x(1,2)] by blast
  obtain v where v: "c_value (cells ?h x) = Some v" "length v = key_len (c_key (cells ?h x))" using tree_okD(13) [OF t x(1,2)] by blast
  have vne: "v \<noteq> []" using v(2) tree_okD(10) [OF t x(1,2)] by auto
  obtain n where n: "get_node s x = Inr n" "cell_of n = cells ?h x" using get_node_shape [of s x "cells ?h x"] tree_okD(4) [OF t x(1)] by auto
  have f: "node_value n = Some v" "parent n = Some p" using n(2) v(1) p(1) by (metis cell_of_simps)+
  define s0 where "s0 = s\<lparr>kv_allocator := free (kv_allocator s) v\<rparr>"
  have s0: "shape s0 = ?h" "rc_page_size s0 = ?ps" "is_eagle s0 = is_eagle s" "root_node s0 = ?r" "counter s0 = counter s"
    "evictable_size s0 = evictable_size s" "protected_size s0 = protected_size s" "evictable_leaves s0 = evictable_leaves s"
    by (simp_all add: s0_def)
  have inv0: "radix_inv D rk H s0" using inv s0 by (simp add: radix_inv_def)
  have pre: "del_pre (rc_page_size s0) (is_eagle s0) (root_node s0) (shape s0) D rk x p" using t x p(1) s0 by (simp add: del_pre_def)
  obtain s1 where s1: "delete_leaf x s0 = Inr s1" "radix_inv (D - {x}) rk H s1" "config s1 = config s0" "counter s1 = counter s0"
    "shape s1 = del_leaf_heap ?ps x p ?h" "evictable_size s1 = evictable_size s - int (length v)" "protected_size s1 = protected_size s"
    "set (evictable_leaves s1) = (if c_children (cells (shape s1) p) = [] \<and> c_lock (cells (shape s1) p) = 0
      then insert p (set (evictable_leaves s) - {x}) else set (evictable_leaves s) - {x})"
    using delete_leaf_ok [OF pre inv0] x(3) unfolding s0 v(2) by blast
  have px: "p \<in> D - {x}" using del_preD(6,7) [OF pre] by simp
  obtain pn where pn: "get_node s1 p = Inr pn" "cell_of pn = cells (shape s1) p"
    using get_node_shape [of s1 p "cells (shape s1) p"] tree_okD(4) [OF radix_invD(1) [OF s1(2)] px] by auto
  have fp: "children pn = c_children (cells (shape s1) p)" "lock_ref pn = c_lock (cells (shape s1) p)" using pn(2) by (metis cell_of_simps)+
  let ?e = "(get_priority (eviction_strategy s1) pn, last_access_time pn, p)"
  define heap' where "heap' = (if children pn = [] \<and> lock_ref pn = 0 then remove1 m (e # es) @ [?e] else remove1 m (e # es))"
  have hh: "(if children pn = [] \<and> lock_ref pn = 0 then py_bind (heap_entry_of s1 p) (\<lambda>e'. Inr (remove1 m (e # es) @ [e'])) else Inr (remove1 m (e # es)))
      = Inr heap'"
    using pn(1) by (simp add: heap'_def heap_entry_of_def)
  have ev1: "\<not> enable_kv_cache_events s1" using ev configD(6) [OF s1(3)] by (simp add: s0_def)
  have rr: "record_remove_event x s1 = Inr s1" using ev1 by (simp add: record_remove_event_def)
  have "evict_loop free (Suc fuel) nt ne (e # es) s = evict_loop free fuel nt (ne + int (length v)) heap' s1"
    unfolding evict_loop.simps [of free "Suc fuel" nt ne "e # es" s] list.case Let_def m_def [symmetric] x_def [symmetric] n(1) py_bind_simps f attr_def option.case
      s0_def [symmetric] s1(1) pn(1) hh rr
    using lt by simp
  moreover have "heap_for heap' s1"
  proof -
    have "p \<notin> set (map (snd \<circ> snd) (remove1 m (e # es)))"
      unfolding rm(2) acct_leaves(2) [OF ac] Diff_iff using del_preD(8) [OF pre] s0 by force
    then show ?thesis using rm(1,2) s1(8) fp by (auto simp: heap_for_def heap'_def)
  qed
  moreover have "evicted_to free D rk H s [v] (D - {x}) s1"
  proof -
    have "walk (shape s1) ek ?r u w b \<longleftrightarrow> walk ?h ek ?r u w b \<and> b \<in> D - {x}" for ek u w b
      using walk_del [OF pre, of ek u w b] walk_facts(1) [of ?h ek ?r u w b, OF _ t tree_okD(3) [OF t]] s0 s1(5) by auto
    then show ?thesis using s1 s0 slots_del [OF pre, of v] v(1) unfolding evicted_to_def s0_def by auto
  qed
  ultimately show ?thesis using x(1) ev1 vne by blast
qed

lemma evict_loop_ok:
  assumes "radix_inv D rk H s" "heap_for heap s" "\<not> enable_kv_cache_events s" "card D \<le> Suc fuel"
  shows "\<exists>vs D' s'. evict_loop free fuel nt ne heap s = Inr (ne + int (length (concat vs)), s') \<and> evicted_to free D rk H s vs D' s' \<and>
    (nt \<le> ne + int (length (concat vs)) \<or> evictable_leaves s' = []) \<and> (vs \<noteq> [] \<longrightarrow> ne + int (length (concat (butlast vs))) < nt)"
  using assms
proof (induction fuel arbitrary: D ne heap s)
  case (0 D ne heap s)
  note t = radix_invD(1) [OF 0(1)]
  have "D = {root_node s}" using 0(4) tree_okD(2,3) [OF t] card_le_Suc0_iff_eq [of D] by auto
  then have l: "evictable_leaves s = []" using acct_leaves(2) [OF radix_invD(3) [OF 0(1)]] by (metis insertE empty_iff last_in_set)
  then have "heap = []" using 0(2) by (simp add: heap_for_def)
  then show ?case using l evicted_to_refl [OF 0(1), of free]
    by (intro exI [of _ "[]"] exI [of _ D] exI [of _ s]) (simp add: evict_loop.simps)
next
  case (Suc fuel D ne heap s)
  show ?case
  proof (cases "ne < nt \<and> heap \<noteq> []")
    case False
    then have "evictable_leaves s = [] \<or> nt \<le> ne" using Suc.prems(2) by (auto simp: heap_for_def)
    moreover have "evict_loop free (Suc fuel) nt ne heap s = Inr (ne, s)" using False by (cases heap) (auto simp: evict_loop.simps [of free "Suc fuel"])
    ultimately show ?thesis using evicted_to_refl [OF Suc.prems(1), of free]
      by (intro exI [of _ "[]"] exI [of _ D] exI [of _ s]) auto
  next
    case True
    then obtain e es where h: "heap = e # es" by (cases heap) auto
    from evict_round [OF Suc.prems(1) Suc.prems(2) [unfolded h] Suc.prems(3), of ne nt free fuel] True
    obtain v heap' s1 x where r: "evict_loop free (Suc fuel) nt ne heap s = evict_loop free fuel nt (ne + int (length v)) heap' s1"
      "heap_for heap' s1" "evicted_to free D rk H s [v] (D - {x}) s1" "x \<in> D" "\<not> enable_kv_cache_events s1" unfolding h by blast
    have i1: "radix_inv (D - {x}) rk H s1" using r(3) by (simp add: evicted_to_def)
    have "card (D - {x}) \<le> Suc fuel" using Suc.prems(4) r(4) tree_okD(2) [OF radix_invD(1) [OF Suc.prems(1)]] by simp
    from Suc.IH [OF i1 r(2,5) this, of "ne + int (length v)"]
    obtain vs D' s' where ih: "evict_loop free fuel nt (ne + int (length v)) heap' s1 = Inr (ne + int (length v) + int (length (concat vs)), s')"
      "evicted_to free (D - {x}) rk H s1 vs D' s'" "nt \<le> ne + int (length v) + int (length (concat vs)) \<or> evictable_leaves s' = []"
      "vs \<noteq> [] \<longrightarrow> ne + int (length v) + int (length (concat (butlast vs))) < nt" by blast
    have "evicted_to free D rk H s (v # vs) D' s'" using evicted_to_trans [OF r(3) ih(2)] by simp
    then show ?thesis using r(1) ih(1,3,4) True by (intro exI [of _ "v # vs"] exI [of _ D'] exI [of _ s']) auto
  qed
qed

lemma build_heap:
  assumes "\<And>a. a \<in> set ls \<Longrightarrow> nodes s a \<noteq> None"
  shows "\<exists>heap. py_for (\<lambda>a h. py_bind (heap_entry_of s a) (\<lambda>e. Inr (h @ [e]))) ls acc = Inr (acc @ heap) \<and> map (snd \<circ> snd) heap = ls"
  using assms
proof (induction ls arbitrary: acc)
  case (Cons a ls)
  obtain n where n: "nodes s a = Some n" using Cons.prems by fastforce
  let ?e = "(get_priority (eviction_strategy s) n, last_access_time n, a)"
  have "heap_entry_of s a = Inr ?e" using n by (simp add: heap_entry_of_def get_node_def)
  moreover obtain heap where "py_for (\<lambda>a h. py_bind (heap_entry_of s a) (\<lambda>e. Inr (h @ [e]))) ls (acc @ [?e]) = Inr ((acc @ [?e]) @ heap)"
    "map (snd \<circ> snd) heap = ls" using Cons.IH [of "acc @ [?e]"] Cons.prems by auto
  ultimately show ?case by (intro exI [of _ "?e # heap"]) (simp add: comp_def)
qed simp

text \<open>The whole operation, for the clients of the cache.\<close>

lemma evict_ok:
  assumes inv: "radix_inv D rk H s" and en: "\<not> disable s" and ev: "\<not> enable_kv_cache_events s"
  shows "\<exists>vs s' D'. evict free num_tokens s = Inr (int (length (concat vs)), s') \<and> radix_inv D' rk H s' \<and> D' \<subseteq> D \<and>
    min num_tokens (evictable_size s) \<le> int (length (concat vs)) \<and> (vs \<noteq> [] \<longrightarrow> int (length (concat (butlast vs))) < num_tokens) \<and>
    config s' = config (s\<lparr>kv_allocator := foldl free (kv_allocator s) vs\<rparr>) \<and>
    tree_slots D (shape s) = tree_slots D' (shape s') + mset (concat vs) \<and>
    evictable_size s' = evictable_size s - int (length (concat vs)) \<and> protected_size s' = protected_size s \<and>
    (\<forall>a ek u v. a \<in># H \<longrightarrow> walk (shape s) ek (root_node s) u v a \<longrightarrow> walk (shape s') ek (root_node s) u v a)"
proof -
  note t = radix_invD(1) [OF inv] and ac = radix_invD(3) [OF inv]
  have nn: "nodes s a \<noteq> None" if "a \<in> set (evictable_leaves s)" for a
    using that tree_okD(4) [OF t, of a] unfolding acct_leaves(2) [OF ac] by (simp add: shape_def)
  obtain heap where heap: "py_for (\<lambda>a h. py_bind (heap_entry_of s a) (\<lambda>e. Inr (h @ [e]))) (evictable_leaves s) [] = Inr heap"
    "map (snd \<circ> snd) heap = evictable_leaves s" using build_heap [of "evictable_leaves s" s "[]"] nn by auto
  have hf: "heap_for heap s" unfolding heap_for_def heap(2) using acct_leaves(1) [OF ac] by simp
  have "D \<subseteq> {..<counter s}" using radix_invD(2) [OF inv] by auto
  then have "card D \<le> Suc (counter s)" using card_mono [of "{..<counter s}" D] by simp
  from evict_loop_ok [OF inv hf ev this, of free num_tokens 0]
  obtain vs D' s' where r: "evict_loop free (counter s) num_tokens 0 heap s = Inr (int (length (concat vs)), s')" "evicted_to free D rk H s vs D' s'"
    "num_tokens \<le> int (length (concat vs)) \<or> evictable_leaves s' = []" "vs \<noteq> [] \<longrightarrow> int (length (concat (butlast vs))) < num_tokens" by auto
  have i': "radix_inv D' rk H s'" using r(2) by (simp add: evicted_to_def)
  have "evictable_size s' = 0" if "evictable_leaves s' = []"
    using no_leaf_no_evictable [OF radix_invD(1,4) [OF i']] radix_invD(3) [OF i'] that by simp
  then have "min num_tokens (evictable_size s) \<le> int (length (concat vs))" using r(2,3) by (auto simp: evicted_to_def)
  moreover have "set_mset H \<subseteq> D'" using radix_invD(4) [OF i'] by (simp add: locks_ok_def)
  ultimately show ?thesis using r heap(1) en unfolding evicted_to_def
    by (intro exI [of _ vs] exI [of _ s'] exI [of _ D']) (auto simp: evict_def)
qed

text \<open>
  C10. \<open>evict\<close> returns. It gives the allocator back at least \<open>num_tokens\<close> slots, or every slot that is evictable; it stops
  with the first leaf that makes it enough. The slots freed are exactly the slots of the nodes taken out of the tree,
  so no slot is lost or freed twice. Every prefix that a request has locked is still cached with its slots, and the
  invariants are kept.
\<close>

theorem evict_frees_enough:
  assumes inv: "radix_inv D rk H s" and en: "\<not> disable s" and ev: "\<not> enable_kv_cache_events s"
  shows "\<exists>vs s' D'. evict free num_tokens s = Inr (int (length (concat vs)), s') \<and> radix_inv D' rk H s' \<and> D' \<subseteq> D \<and>
    min num_tokens (evictable_size s) \<le> int (length (concat vs)) \<and> (vs \<noteq> [] \<longrightarrow> int (length (concat (butlast vs))) < num_tokens) \<and>
    config s' = config (s\<lparr>kv_allocator := foldl free (kv_allocator s) vs\<rparr>) \<and>
    tree_slots D (shape s) = tree_slots D' (shape s') + mset (concat vs) \<and>
    evictable_size s' = evictable_size s - int (length (concat vs)) \<and> protected_size s' = protected_size s \<and>
    (\<forall>a ek u v. a \<in># H \<longrightarrow> walk (shape s) ek (root_node s) u v a \<longrightarrow> walk (shape s') ek (root_node s) u v a)"
  using evict_ok [OF assms] .

theorem evict_frees_enough_witness:
  "radix_inv {0, 1} id {#} demo_cache \<and>
   (\<exists>(vs :: int list list) s'. evict (\<lambda>_ _. ()) 2 demo_cache = Inr (int (length (concat vs)), s') \<and> 2 \<le> int (length (concat vs)))"
proof -
  have "\<not> disable demo_cache" "\<not> enable_kv_cache_events demo_cache" by simp_all
  from evict_frees_enough [OF demo_cache_inv this, of "\<lambda>_ _. ()" 2]
  obtain vs :: "int list list" and s' where "evict (\<lambda>_ _. ()) 2 demo_cache = Inr (int (length (concat vs)), s')" "min 2 (evictable_size demo_cache) \<le> int (length (concat vs))"
    by blast
  then show ?thesis using demo_cache_inv by (intro conjI exI [of _ vs] exI [of _ s']) simp_all
qed

end
