(* ===== verification/Req_Pool.thy ===== *)
theory Req_Pool
  imports Spec_Kernels
begin

text \<open>
  The request-to-token table: \<open>ReqToTokenPool\<close> of \<open>srt/mem_cache/memory_pool.py\<close> (the rows handed to
  requests) and the routines of \<open>srt/mem_cache/common.py\<close> that fill rows for a prefill batch, the Triton
  kernel and the loop that replaces it on backends without Triton. The table is a buffer of rows of
  \<open>max_context_len\<close> entries.
\<close>

section \<open>Rows\<close>

text \<open>The parts of a request that the pool reads and writes.\<close>

record pool_req =
  req_pool_idx :: "int option"
  is_chunked :: int
  committed_len :: int

record req_pool =
  rp_size :: int
  alloc_size :: int
  max_context_len :: int
  req_to_token_table :: mem
  free_slots :: "int list"

definition req_pool_init :: "int \<Rightarrow> int \<Rightarrow> req_pool" where
  "req_pool_init sz ctx = \<lparr>rp_size = sz, alloc_size = sz + 1, max_context_len = ctx,
     req_to_token_table = (\<lambda>a. if 0 \<le> a \<and> a < (sz + 1) * ctx then Some 0 else None),
     free_slots = [1..sz]\<rparr>"

definition req_pool_available :: "req_pool \<Rightarrow> int" where
  "req_pool_available p = int (length (free_slots p))"

fun take_rows :: "int list \<Rightarrow> pool_req list \<Rightarrow> pool_req list py" where
  "take_rows sel [] = Inr []"
| "take_rows sel (r # rs) =
     (if req_pool_idx r = None
      then (case sel of [] \<Rightarrow> Inl IndexError
            | i # sel' \<Rightarrow> py_bind (take_rows sel' rs) (\<lambda>rs'. Inr (r\<lparr>req_pool_idx := Some i\<rparr> # rs')))
      else py_bind (take_rows sel rs) (\<lambda>rs'. Inr (r # rs')))"

text \<open>\<open>None\<close>: not enough rows; otherwise the requests with their rows, which are the rows returned.\<close>

definition req_pool_alloc :: "req_pool \<Rightarrow> pool_req list \<Rightarrow> (pool_req list option \<times> req_pool) py" where
  "req_pool_alloc p reqs =
     (let reusing = filter (\<lambda>r. req_pool_idx r \<noteq> None) reqs
      in py_assert (\<forall>r \<in> set reusing. is_chunked r > 0 \<or> committed_len r > 0)
          (let need_size = length reqs - length reusing
           in if need_size > length (free_slots p) then Inr (None, p)
              else py_bind (take_rows (take need_size (free_slots p)) reqs) (\<lambda>reqs'.
                   Inr (Some reqs', p\<lparr>free_slots := drop need_size (free_slots p)\<rparr>))))"

definition req_pool_free :: "req_pool \<Rightarrow> pool_req \<Rightarrow> (pool_req \<times> req_pool) py" where
  "req_pool_free p r = (case req_pool_idx r of None \<Rightarrow> Inl AssertionError
     | Some i \<Rightarrow> Inr (r\<lparr>req_pool_idx := None\<rparr>, p\<lparr>free_slots := free_slots p @ [i]\<rparr>))"

definition req_pool_clear :: "req_pool \<Rightarrow> req_pool" where
  "req_pool_clear p = p\<lparr>free_slots := [1..alloc_size p - 1]\<rparr>"

section \<open>Filling the rows of a prefill batch\<close>

text \<open>\<open>req_to_token[(row, slice(a, b))] = values\<close>: one value is broadcast, another length is refused.\<close>

definition row_write :: "int \<Rightarrow> int \<Rightarrow> int \<Rightarrow> int \<Rightarrow> int list \<Rightarrow> mem \<Rightarrow> mem py" where
  "row_write pl row a b vals m =
     (let lo = int (py_bound (nat pl) a); hi = int (py_bound (nat pl) b); n = nat (hi - lo)
      in if length vals = n then Inr (\<lambda>x. let j = x - (row * pl + lo) in if 0 \<le> j \<and> j < int n then Some (vals ! nat j) else m x)
         else if length vals = 1 then Inr (\<lambda>x. let j = x - (row * pl + lo) in if 0 \<le> j \<and> j < int n then Some (vals ! 0) else m x)
         else Inl RuntimeError)"

definition write_req_to_token_pool_triton ::
  "int list \<Rightarrow> int list list \<Rightarrow> int list \<Rightarrow> int list \<Rightarrow> int list \<Rightarrow> int list \<Rightarrow> int \<Rightarrow> nat \<Rightarrow> mem \<Rightarrow> mem" where
  "write_req_to_token_pool_triton req_pool_indices prefix_tensors pre_lens seq_lens extend_lens out_cache_loc stride pid m =
     (let req_pool_index = req_pool_indices ! pid;
          pre_len = pre_lens ! pid;
          seq_len = seq_lens ! pid;
          m1 = tl_store_blocks m (req_pool_index * stride) 512 (nat (cdiv pre_len 512))
                 (\<lambda>j. tl_load (prefix_tensors ! pid) (int j)) (\<lambda>j. int j < pre_len);
          cumsum_start = foldl (\<lambda>acc i. acc + extend_lens ! i) 0 [0..<pid]
      in tl_store_blocks m1 (req_pool_index * stride + pre_len) 512 (nat (cdiv (seq_len - pre_len) 512))
           (\<lambda>j. tl_load out_cache_loc (cumsum_start + int j)) (\<lambda>j. int j < seq_len - pre_len))"

fun write_cache_loop ::
  "int \<Rightarrow> int list \<Rightarrow> int list \<Rightarrow> int list \<Rightarrow> int list \<Rightarrow> int list \<Rightarrow> int list list \<Rightarrow> nat list \<Rightarrow> int \<Rightarrow> mem \<Rightarrow> mem py" where
  "write_cache_loop pl out rpi pre seq ext tensors [] pt m = Inr m"
| "write_cache_loop pl out rpi pre seq ext tensors (i # is) pt m =
     py_bind (row_write pl (rpi ! i) 0 (pre ! i) (tensors ! i) m) (\<lambda>m1.
     py_bind (row_write pl (rpi ! i) (pre ! i) (seq ! i) (py_slice out pt (pt + ext ! i)) m1) (\<lambda>m2.
     write_cache_loop pl out rpi pre seq ext tensors is (pt + ext ! i) m2))"

text \<open>\<open>order\<close> is the order in which the program instances of the kernel run.\<close>

definition write_cache_indices ::
  "bool \<Rightarrow> nat list \<Rightarrow> int \<Rightarrow> int list \<Rightarrow> int list \<Rightarrow> int list \<Rightarrow> int list \<Rightarrow> int list \<Rightarrow> int list list \<Rightarrow> mem \<Rightarrow> mem py" where
  "write_cache_indices triton order pl out rpi pre seq ext tensors m =
     (if triton then Inr (launch (write_req_to_token_pool_triton rpi tensors pre seq ext out pl) order m)
      else write_cache_loop pl out rpi pre seq ext tensors [0..<length rpi] 0 m)"

section \<open>The last slot of each request, int32-safe variant\<close>

definition get_last_loc_safe_kernel ::
  "mem \<Rightarrow> int list \<Rightarrow> int list \<Rightarrow> nat \<Rightarrow> int \<Rightarrow> nat \<Rightarrow> nat \<Rightarrow> mem \<Rightarrow> mem" where
  "get_last_loc_safe_kernel req_to_token rpi pre num_tokens stride block pid m =
     store_lanes m (int (pid * block)) block
       (\<lambda>j. let i = pid * block + j;
                valid = i < num_tokens;
                prefix_len = (if valid then pre ! i else 0);
                req_pool_index = (if valid then rpi ! i else 0);
                token_index = req_pool_index * stride + (prefix_len - 1)
            in if valid \<and> prefix_len > 0 then req_to_token token_index else Some (-1))
       (\<lambda>j. pid * block + j < num_tokens)"

definition get_last_loc_triton_safe :: "mem \<Rightarrow> int \<Rightarrow> int list \<Rightarrow> int list \<Rightarrow> int option list" where
  "get_last_loc_triton_safe req_to_token stride rpi pre =
     (let n = length pre
      in read_out (launch (get_last_loc_safe_kernel req_to_token rpi pre n stride 256) [0..<nat (cdiv (int n) 256)] Map.empty) n)"

text \<open>The dispatch of \<open>get_last_loc\<close> by backend and platform.\<close>

definition get_last_loc :: "bool \<Rightarrow> string \<Rightarrow> mem \<Rightarrow> int \<Rightarrow> int list \<Rightarrow> int list \<Rightarrow> int option list" where
  "get_last_loc is_hip attn_backend req_to_token stride rpi pre =
     (let uses_triton = attn_backend \<noteq> ''ascend'' \<and> attn_backend \<noteq> ''torch_native''
      in if is_hip \<and> uses_triton then get_last_loc_triton_safe req_to_token stride rpi pre
         else if uses_triton then get_last_loc_triton req_to_token stride rpi pre
         else get_last_loc_torch req_to_token stride rpi pre)"

section \<open>Pages of slots\<close>

definition every_nth :: "nat \<Rightarrow> 'a list \<Rightarrow> 'a list" where
  "every_nth k xs = map (\<lambda>i. xs ! (i * k)) [0..<(length xs + k - 1) div k]"

definition kv_to_page_indices :: "int list \<Rightarrow> nat \<Rightarrow> int list" where
  "kv_to_page_indices kv ps = (if ps = 1 then kv else map (\<lambda>x. x div int ps) (every_nth ps kv))"

definition kv_to_page_num :: "int \<Rightarrow> int \<Rightarrow> int" where
  "kv_to_page_num n ps = (n + ps - 1) div ps"

definition page_align_floor :: "int \<Rightarrow> int \<Rightarrow> int" where
  "page_align_floor l ps = l div ps * ps"

section \<open>All variants of the last-slot lookup agree\<close>

lemma safe_kernel_eq: "get_last_loc_safe_kernel = get_last_loc_kernel"
  by (intro ext) (auto simp: get_last_loc_safe_kernel_def get_last_loc_kernel_def Let_def intro!: arg_cong2 [where f = "\<lambda>f p. store_lanes _ _ _ f p _"])

text \<open>
  Every dispatch of \<open>get_last_loc\<close> (the Triton kernel, its int32-safe variant on HIP, PyTorch on Ascend and
  the native backend) returns the same slots.
\<close>

lemma get_last_loc_dispatch:
  assumes "length rpi = length pre"
  shows "get_last_loc is_hip attn_backend r2t stride rpi pre = get_last_loc_torch r2t stride rpi pre"
proof -
  have "get_last_loc_triton_safe r2t stride rpi pre = get_last_loc_triton r2t stride rpi pre"
    by (simp add: get_last_loc_triton_safe_def get_last_loc_triton_def safe_kernel_eq)
  then show ?thesis using get_last_loc_triton_eq [OF assms] by (simp add: get_last_loc_def Let_def)
qed

lemma get_last_loc_dispatch_witness:
  "get_last_loc True ''triton'' (tl_load [5, 6, 7, 8]) 2 [1, 0] [2, 0] = [Some 8, Some (-1)]"
  using get_last_loc_dispatch [of "[1, 0]" "[2, 0]" True "''triton''" "tl_load [5, 6, 7, 8]" 2]
  by (simp add: get_last_loc_torch_def tl_load_def)

section \<open>The kernel and the loop fill the same rows\<close>

text \<open>What one request's entries of the table become.\<close>

definition row_entry :: "int list \<Rightarrow> int list \<Rightarrow> int list \<Rightarrow> int list list \<Rightarrow> nat \<Rightarrow> int \<Rightarrow> int option" where
  "row_entry out pre ext tensors i j =
     (if j < pre ! i then Some (tensors ! i ! nat j) else tl_load out (sum_list (take i ext) + (j - pre ! i)))"

definition fill_ok ::
  "int \<Rightarrow> int list \<Rightarrow> int list \<Rightarrow> int list \<Rightarrow> int list \<Rightarrow> int list \<Rightarrow> int list list \<Rightarrow> bool" where
  "fill_ok pl out rpi pre seq ext tensors \<longleftrightarrow>
     0 < pl \<and> distinct rpi \<and> length pre = length rpi \<and> length seq = length rpi \<and> length ext = length rpi \<and>
     length tensors = length rpi \<and> sum_list ext = int (length out) \<and>
     (\<forall>i < length rpi. 0 \<le> pre ! i \<and> pre ! i \<le> seq ! i \<and> seq ! i \<le> pl \<and> ext ! i = seq ! i - pre ! i \<and>
        int (length (tensors ! i)) = pre ! i)"

lemma fill_okD:
  assumes "fill_ok pl out rpi pre seq ext tensors" "i < length rpi"
  shows "0 \<le> pre ! i" "pre ! i \<le> seq ! i" "seq ! i \<le> pl" "ext ! i = seq ! i - pre ! i"
    "int (length (tensors ! i)) = pre ! i" "0 \<le> sum_list (take i ext)"
    "sum_list (take i ext) + ext ! i \<le> int (length out)"
proof -
  have a: "length ext = length rpi" "sum_list ext = int (length out)"
    and b: "\<forall>i < length rpi. 0 \<le> pre ! i \<and> pre ! i \<le> seq ! i \<and> seq ! i \<le> pl \<and> ext ! i = seq ! i - pre ! i \<and>
        int (length (tensors ! i)) = pre ! i"
    using assms(1) by (auto simp: fill_ok_def)
  show "0 \<le> pre ! i" "pre ! i \<le> seq ! i" "seq ! i \<le> pl" "ext ! i = seq ! i - pre ! i" "int (length (tensors ! i)) = pre ! i"
    using b assms(2) by blast+
  have nn: "\<forall>x \<in> set ext. 0 \<le> x" using a(1) b by (force simp: in_set_conv_nth)
  show "0 \<le> sum_list (take i ext)" using seg_start_mono [OF nn, of 0 i] by (simp add: seg_start_def)
  have "seg_start ext (Suc i) \<le> seg_start ext (length ext)" using seg_start_mono [OF nn] assms(2) a(1) by simp
  then show "sum_list (take i ext) + ext ! i \<le> int (length out)"
    using seg_start_Suc [of i ext] a assms(2) by (simp add: seg_start_def)
qed

lemma foldl_sum: "pid \<le> length xs \<Longrightarrow> foldl (\<lambda>acc i. acc + xs ! i) (0 :: int) [0..<pid] = sum_list (take pid xs)"
  by (induction pid) (simp_all add: take_Suc_conv_app_nth)

lemma write_kernel_effect:
  assumes "fill_ok pl out rpi pre seq ext tensors" "i < length rpi"
  shows "write_req_to_token_pool_triton rpi tensors pre seq ext out pl i m a =
    (if rpi ! i * pl \<le> a \<and> a < rpi ! i * pl + seq ! i then row_entry out pre ext tensors i (a - rpi ! i * pl) else m a)"
proof -
  note f = fill_okD [OF assms]
  have "pre ! i = int (length (tensors ! i))" "i \<le> length ext" using f(5) assms by (simp_all add: fill_ok_def)
  then show ?thesis
    unfolding write_req_to_token_pool_triton_def Let_def foldl_sum [OF \<open>i \<le> length ext\<close>]
    using f by (auto simp: store_blocks_cdiv [of 512, simplified] row_entry_def tl_load_def diff_diff_eq)
qed

lemma row_write_part:
  assumes "0 \<le> a" "a \<le> b" "b \<le> pl" "int (length vals) = b - a"
  shows "row_write pl row a b vals m =
    Inr (\<lambda>x. if row * pl + a \<le> x \<and> x < row * pl + b then Some (vals ! nat (x - (row * pl + a))) else m x)"
proof -
  have "py_bound (nat pl) a = nat a" "py_bound (nat pl) b = nat b" "length vals = nat (b - a)"
    using assms by (simp_all add: py_bound_def)
  then show ?thesis using assms by (auto simp: row_write_def Let_def fun_eq_iff)
qed

lemma write_loop_step:
  assumes "fill_ok pl out rpi pre seq ext tensors" "i < length rpi" "pt = sum_list (take i ext)"
  shows "py_bind (row_write pl (rpi ! i) 0 (pre ! i) (tensors ! i) m) (\<lambda>m1.
      row_write pl (rpi ! i) (pre ! i) (seq ! i) (py_slice out pt (pt + ext ! i)) m1) =
    Inr (write_req_to_token_pool_triton rpi tensors pre seq ext out pl i m)"
proof -
  note f = fill_okD [OF assms(1,2), folded assms(3)]
  let ?s = "py_slice out pt (pt + ext ! i)"
  have s: "?s = take (nat (ext ! i)) (drop (nat pt) out)"
    using f by (simp add: py_slice_def py_bound_def drop_take nat_add_distrib)
  have "int (length ?s) = seq ! i - pre ! i" using f unfolding s by simp
  then have w2: "row_write pl (rpi ! i) (pre ! i) (seq ! i) ?s m1 =
      Inr (\<lambda>x. if rpi ! i * pl + pre ! i \<le> x \<and> x < rpi ! i * pl + seq ! i
        then Some (?s ! nat (x - (rpi ! i * pl + pre ! i))) else m1 x)" for m1
    using f by (intro row_write_part) auto
  have w1: "row_write pl (rpi ! i) 0 (pre ! i) (tensors ! i) m =
      Inr (\<lambda>x. if rpi ! i * pl \<le> x \<and> x < rpi ! i * pl + pre ! i then Some (tensors ! i ! nat (x - rpi ! i * pl)) else m x)"
    using row_write_part [of 0 "pre ! i" pl "tensors ! i", unfolded add_0_right] f by simp
  have el: "Some (?s ! nat (x - (rpi ! i * pl + pre ! i))) = row_entry out pre ext tensors i (x - rpi ! i * pl)"
    if "rpi ! i * pl + pre ! i \<le> x" "x < rpi ! i * pl + seq ! i" for x
  proof -
    define j where "j = x - (rpi ! i * pl + pre ! i)"
    have j: "0 \<le> j" "j < seq ! i - pre ! i" "x - rpi ! i * pl = pre ! i + j" using that by (simp_all add: j_def)
    have "Some (?s ! nat j) = tl_load out (pt + j)" using j f unfolding s by (simp add: tl_load_def nat_add_distrib)
    then show ?thesis unfolding j_def [symmetric] j(3) row_entry_def using j(1) assms(3) by simp
  qed
  have "row_entry out pre ext tensors i (x - rpi ! i * pl) = Some (tensors ! i ! nat (x - rpi ! i * pl))"
    if "x < rpi ! i * pl + pre ! i" for x using that by (simp add: row_entry_def)
  then show ?thesis unfolding w1 py_bind_simps w2
    using f(1,2) by (auto simp: fun_eq_iff write_kernel_effect [OF assms(1,2)] el)
qed

lemma write_loop_eq:
  assumes "fill_ok pl out rpi pre seq ext tensors" "i + length is = length rpi" "is = [i..<length rpi]"
  shows "write_cache_loop pl out rpi pre seq ext tensors is (sum_list (take i ext)) m =
    Inr (launch (write_req_to_token_pool_triton rpi tensors pre seq ext out pl) is m)"
  using assms(2,3)
proof (induction "is" arbitrary: i m)
  case (Cons j js)
  have "i < length rpi" using Cons.prems(1) by simp
  then have j: "j = i" "js = [Suc i..<length rpi]" "i < length rpi" using Cons.prems(2) by (simp_all add: upt_conv_Cons)
  then have e: "sum_list (take i ext) + ext ! i = sum_list (take (Suc i) ext)"
    using assms(1) by (simp add: fill_ok_def take_Suc_conv_app_nth)
  note step = write_loop_step [OF assms(1) j(3) refl, of m]
  then obtain m1 where m1: "row_write pl (rpi ! i) 0 (pre ! i) (tensors ! i) m = Inr m1"
    "row_write pl (rpi ! i) (pre ! i) (seq ! i) (py_slice out (sum_list (take i ext)) (sum_list (take i ext) + ext ! i)) m1 =
      Inr (write_req_to_token_pool_triton rpi tensors pre seq ext out pl i m)"
    by (auto simp: py_bind_eq_Inr)
  have "Suc i + length js = length rpi" using Cons.prems(1) by simp
  note ih = Cons.IH [OF this j(2)]
  show ?case unfolding j(1) by (simp add: m1 [unfolded e] e ih launch_def)
qed (simp add: launch_def)

text \<open>
  Filling the request-to-token table for a prefill batch: on consistent inputs the Triton kernel, in every
  order of its program instances, and the Python loop that replaces it write the same table: each request's row
  holds its cached prefix followed by its newly allocated slots, and every other entry is unchanged.
\<close>

lemma write_cache_indices_equiv:
  assumes ok: "fill_ok pl out rpi pre seq ext tensors" and order: "distinct order" "set order = {0..<length rpi}"
  shows "\<exists>m'. write_cache_indices True order pl out rpi pre seq ext tensors m = Inr m' \<and>
    write_cache_indices False order pl out rpi pre seq ext tensors m = Inr m' \<and>
    (\<forall>i < length rpi. \<forall>j. 0 \<le> j \<and> j < seq ! i \<longrightarrow> m' (rpi ! i * pl + j) = row_entry out pre ext tensors i j) \<and>
    (\<forall>r j. 0 \<le> j \<and> j < pl \<and> (\<forall>i < length rpi. rpi ! i = r \<longrightarrow> seq ! i \<le> j) \<longrightarrow> m' (r * pl + j) = m (r * pl + j))"
proof -
  let ?k = "write_req_to_token_pool_triton rpi tensors pre seq ext out pl" and ?n = "length rpi"
  let ?R = "\<lambda>a. {i. rpi ! i * pl \<le> a \<and> a < rpi ! i * pl + seq ! i}"
  let ?f = "\<lambda>i a. row_entry out pre ext tensors i (a - rpi ! i * pl)"
  have pl: "0 < pl" and d: "distinct rpi" using ok by (auto simp: fill_ok_def)
  have eff: "?k i m a = (if i \<in> ?R a then ?f i a else m a)" if "i < ?n" for i m a
    using write_kernel_effect [OF ok that] by simp
  have own: "rpi ! i = r \<and> j < seq ! i" if "i < ?n" "i \<in> ?R (r * pl + j)" "0 \<le> j" "j < pl" for i r j
  proof -
    have dd: "0 \<le> r * pl + j - rpi ! i * pl" "r * pl + j - rpi ! i * pl < pl"
      using that(2) fill_okD(3) [OF ok that(1)] by auto
    have "rpi ! i = r" using row_address_unique [OF dd that(3,4), of "rpi ! i" r] by simp
    then show ?thesis using that(2) by simp
  qed
  have inside: "launch ?k ps m (rpi ! i * pl + j) = row_entry out pre ext tensors i j"
    if "distinct ps" "set ps = {0..<?n}" "i < ?n" "0 \<le> j" "j < seq ! i" for ps i j
  proof -
    have jp: "j < pl" using that fill_okD(3) [OF ok that(3)] by simp
    have "?R (rpi ! i * pl + j) \<inter> set ps = {i}"
    proof
      show "{i} \<subseteq> ?R (rpi ! i * pl + j) \<inter> set ps" using that by simp
      show "?R (rpi ! i * pl + j) \<inter> set ps \<subseteq> {i}"
      proof
        fix x assume x: "x \<in> ?R (rpi ! i * pl + j) \<inter> set ps"
        then have xn: "x < ?n" using that(2) by auto
        have "rpi ! x = rpi ! i \<and> j < seq ! x" by (rule own [OF xn _ that(4) jp]) (use x in blast)
        then show "x \<in> {i}" using nth_eq_iff_index_eq [OF d xn that(3)] by simp
      qed
    qed
    then show ?thesis using launch_inside [of ps ?k ?R ?f "rpi ! i * pl + j" i] eff that by simp
  qed
  have outside: "launch ?k ps m a = m a" if "set ps = {0..<?n}" "\<forall>i < ?n. i \<notin> ?R a" for ps a
    using that eff by (intro launch_outside [where R = ?R and f = ?f]) auto
  have "launch ?k order m = launch ?k [0..<?n] m"
  proof
    fix a show "launch ?k order m a = launch ?k [0..<?n] m a"
    proof (cases "\<exists>i < ?n. i \<in> ?R a")
      case True
      then obtain i where i: "i < ?n" "0 \<le> a - rpi ! i * pl" "a - rpi ! i * pl < seq ! i" by auto
      then show ?thesis using inside [OF order i] inside [of "[0..<?n]", OF _ _ i] by simp
    next
      case False
      then show ?thesis using outside order by simp
    qed
  qed
  moreover have "write_cache_loop pl out rpi pre seq ext tensors [0..<?n] 0 m = Inr (launch ?k [0..<?n] m)"
    using write_loop_eq [OF ok, of 0] by simp
  moreover have "launch ?k order m (r * pl + j) = m (r * pl + j)"
    if "0 \<le> j" "j < pl" "\<forall>i < ?n. rpi ! i = r \<longrightarrow> seq ! i \<le> j" for r j
  proof (rule outside [OF order(2)], intro allI impI notI)
    fix i assume i: "i < ?n" "i \<in> ?R (r * pl + j)"
    then show False using own [OF i that(1,2)] that(3) by auto
  qed
  ultimately show ?thesis
    using inside [OF order] by (intro exI [of _ "launch ?k order m"]) (simp add: write_cache_indices_def)
qed

lemma write_cache_indices_equiv_witness:
  "\<exists>m'. write_cache_indices True [1, 0] 4 [20, 21, 22] [2, 1] [1, 0] [2, 2] [1, 2] [[10], []] Map.empty = Inr m' \<and>
    write_cache_indices False [1, 0] 4 [20, 21, 22] [2, 1] [1, 0] [2, 2] [1, 2] [[10], []] Map.empty = Inr m' \<and>
    m' 8 = Some 10 \<and> m' 9 = Some 20 \<and> m' 5 = Some 22"
proof -
  have ok: "fill_ok 4 [20, 21, 22] [2, 1] [1, 0] [2, 2] [1, 2] [[10], []]" by code_simp
  from write_cache_indices_equiv [OF ok, of "[1, 0]" Map.empty]
  obtain m' where m': "write_cache_indices True [1, 0] 4 [20, 21, 22] [2, 1] [1, 0] [2, 2] [1, 2] [[10], []] Map.empty = Inr m'"
    "write_cache_indices False [1, 0] 4 [20, 21, 22] [2, 1] [1, 0] [2, 2] [1, 2] [[10], []] Map.empty = Inr m'"
    and e: "\<forall>i < length [2, 1 :: int]. \<forall>j. 0 \<le> j \<and> j < [2, 2] ! i \<longrightarrow> m' ([2, 1] ! i * 4 + j) = row_entry [20, 21, 22] [1, 0] [1, 2] [[10], []] i j"
    by fastforce
  then show ?thesis using e [rule_format, of 0 0] e [rule_format, of 0 1] e [rule_format, of 1 1]
    by (auto simp: row_entry_def tl_load_def)
qed

section \<open>Rows are handed out once\<close>

definition rows_of :: "pool_req list \<Rightarrow> int list" where
  "rows_of rs = concat (map (\<lambda>r. case req_pool_idx r of None \<Rightarrow> [] | Some i \<Rightarrow> [i]) rs)"

text \<open>The invariant: the free rows and the rows of all live requests \<open>L\<close> are the rows \<open>1..size\<close>, each once.\<close>

definition req_pool_inv :: "req_pool \<Rightarrow> pool_req list \<Rightarrow> bool" where
  "req_pool_inv p L \<longleftrightarrow> mset (free_slots p) + mset (rows_of L) = mset [1..rp_size p] \<and> alloc_size p = rp_size p + 1"

lemma take_rows_eq:
  assumes "length sel = length (filter (\<lambda>r. req_pool_idx r = None) rs)"
  shows "\<exists>rs'. take_rows sel rs = Inr rs' \<and> length rs' = length rs \<and>
    (\<forall>i < length rs. req_pool_idx (rs' ! i) \<noteq> None \<and> (req_pool_idx (rs ! i) \<noteq> None \<longrightarrow> rs' ! i = rs ! i)) \<and>
    mset (rows_of rs') = mset sel + mset (rows_of rs)"
  using assms
proof (induction sel rs rule: take_rows.induct)
  case (2 sel r rs)
  show ?case
  proof (cases "req_pool_idx r")
    case None
    then obtain i sel' where sel: "sel = i # sel'" using "2.prems" by (cases sel) auto
    then obtain rs' where rs': "take_rows sel' rs = Inr rs'" "length rs' = length rs"
      "\<forall>i < length rs. req_pool_idx (rs' ! i) \<noteq> None \<and> (req_pool_idx (rs ! i) \<noteq> None \<longrightarrow> rs' ! i = rs ! i)"
      "mset (rows_of rs') = mset sel' + mset (rows_of rs)"
      using "2.IH"(1) [OF None sel] "2.prems" None by auto
    then show ?thesis using None sel
      by (intro exI [of _ "r\<lparr>req_pool_idx := Some i\<rparr> # rs'"]) (auto simp: rows_of_def nth_Cons split: nat.split)
  next
    case (Some j)
    then obtain rs' where rs': "take_rows sel rs = Inr rs'" "length rs' = length rs"
      "\<forall>i < length rs. req_pool_idx (rs' ! i) \<noteq> None \<and> (req_pool_idx (rs ! i) \<noteq> None \<longrightarrow> rs' ! i = rs ! i)"
      "mset (rows_of rs') = mset sel + mset (rows_of rs)"
      using "2.IH"(2) "2.prems" by auto
    then show ?thesis using Some
      by (intro exI [of _ "r # rs'"]) (auto simp: rows_of_def nth_Cons split: nat.split)
  qed
qed (simp add: rows_of_def)

lemma length_filter_neg: "length xs - length (filter (\<lambda>x. \<not> P x) xs) = length (filter P xs)"
  using sum_length_filter_compl [of P xs] by simp

text \<open>
  C30. Request rows: from a pool whose free rows and whose live requests' rows together are the rows
  \<open>1..size\<close> (row 0 is padding), allocation for a batch either reports that rows are missing, exactly when more
  requests need a row than are free, or gives every request a row, keeps the rows of requests that had one, and
  leaves the pool in the same relation to the new live requests: no row belongs to two requests. Freeing a
  request's row gives the relation without it.
\<close>

theorem req_pool_rows:
  assumes inv: "req_pool_inv p (reqs @ others)"
    and reuse: "\<forall>r \<in> set reqs. req_pool_idx r \<noteq> None \<longrightarrow> is_chunked r > 0 \<or> committed_len r > 0"
  shows "(if length (filter (\<lambda>r. req_pool_idx r = None) reqs) > length (free_slots p)
      then req_pool_alloc p reqs = Inr (None, p)
      else \<exists>reqs' p'. req_pool_alloc p reqs = Inr (Some reqs', p') \<and> length reqs' = length reqs \<and>
        (\<forall>i < length reqs. req_pool_idx (reqs' ! i) \<noteq> None \<and> (req_pool_idx (reqs ! i) \<noteq> None \<longrightarrow> reqs' ! i = reqs ! i)) \<and>
        req_pool_inv p' (reqs' @ others) \<and> distinct (rows_of (reqs' @ others)) \<and> 0 \<notin> set (rows_of (reqs' @ others))) \<and>
    (\<forall>r rs j. reqs = r # rs \<and> req_pool_idx r = Some j \<longrightarrow>
      (\<exists>r' p'. req_pool_free p r = Inr (r', p') \<and> req_pool_idx r' = None \<and> req_pool_inv p' (r' # rs @ others)))"
proof -
  let ?need = "length (filter (\<lambda>r. req_pool_idx r = None) reqs)"
  have need: "length reqs - length (filter (\<lambda>r. req_pool_idx r \<noteq> None) reqs) = ?need" by (rule length_filter_neg)
  have rows_app: "rows_of (xs @ ys) = rows_of xs @ rows_of ys" for xs ys by (simp add: rows_of_def)
  have good: "distinct (rows_of L) \<and> 0 \<notin> set (rows_of L)" if "req_pool_inv q L" for q L
  proof -
    have e: "mset (free_slots q @ rows_of L) = mset [1..rp_size q]" using that by (simp add: req_pool_inv_def)
    have "distinct (free_slots q @ rows_of L)" using mset_eq_imp_distinct_iff [OF e] by simp
    moreover have "set (free_slots q @ rows_of L) = {1..rp_size q}" using mset_eq_setD [OF e] by simp
    ultimately show ?thesis by auto
  qed
  have ass: "\<forall>r \<in> set (filter (\<lambda>r. req_pool_idx r \<noteq> None) reqs). is_chunked r > 0 \<or> committed_len r > 0" using reuse by auto
  have alloc: "if ?need > length (free_slots p) then req_pool_alloc p reqs = Inr (None, p)
      else \<exists>reqs' p'. req_pool_alloc p reqs = Inr (Some reqs', p') \<and> length reqs' = length reqs \<and>
        (\<forall>i < length reqs. req_pool_idx (reqs' ! i) \<noteq> None \<and> (req_pool_idx (reqs ! i) \<noteq> None \<longrightarrow> reqs' ! i = reqs ! i)) \<and>
        req_pool_inv p' (reqs' @ others) \<and> distinct (rows_of (reqs' @ others)) \<and> 0 \<notin> set (rows_of (reqs' @ others))"
  proof (cases "?need > length (free_slots p)")
    case True
    then show ?thesis using ass need by (simp add: req_pool_alloc_def py_assert_def Let_def)
  next
    case False
    then obtain reqs' where r: "take_rows (take ?need (free_slots p)) reqs = Inr reqs'" "length reqs' = length reqs"
      "\<forall>i < length reqs. req_pool_idx (reqs' ! i) \<noteq> None \<and> (req_pool_idx (reqs ! i) \<noteq> None \<longrightarrow> reqs' ! i = reqs ! i)"
      "mset (rows_of reqs') = mset (take ?need (free_slots p)) + mset (rows_of reqs)"
      using take_rows_eq [of "take ?need (free_slots p)" reqs] by auto
    let ?p = "p\<lparr>free_slots := drop ?need (free_slots p)\<rparr>"
    have "mset (take ?need (free_slots p)) + mset (drop ?need (free_slots p)) = mset (free_slots p)"
      by (metis append_take_drop_id mset_append)
    then have i': "req_pool_inv ?p (reqs' @ others)"
      using inv r(4) by (simp add: req_pool_inv_def rows_app ac_simps)
    have al: "req_pool_alloc p reqs = Inr (Some reqs', ?p)"
      using False ass need r(1) by (simp add: req_pool_alloc_def py_assert_def Let_def)
    show ?thesis unfolding if_not_P [OF False]
      by (intro exI [of _ reqs'] exI [of _ ?p] conjI, rule al, rule r(2), rule r(3), rule i')
        (use good [OF i'] in simp_all)
  qed
  moreover have "\<exists>r' p'. req_pool_free p r = Inr (r', p') \<and> req_pool_idx r' = None \<and> req_pool_inv p' (r' # rs @ others)"
    if "reqs = r # rs" "req_pool_idx r = Some j" for r rs j
  proof -
    have "req_pool_inv (p\<lparr>free_slots := free_slots p @ [j]\<rparr>) (r\<lparr>req_pool_idx := None\<rparr> # rs @ others)"
      using inv [unfolded that(1)] that(2) by (simp add: req_pool_inv_def rows_of_def)
    then show ?thesis using that(2) by (simp add: req_pool_free_def)
  qed
  ultimately show ?thesis by (intro conjI allI impI) (assumption, simp)
qed

theorem req_pool_rows_witness:
  "\<exists>reqs' p'. req_pool_alloc (req_pool_init 3 8)
      [\<lparr>req_pool_idx = None, is_chunked = 0, committed_len = 0\<rparr>, \<lparr>req_pool_idx = None, is_chunked = 0, committed_len = 0\<rparr>] =
        Inr (Some reqs', p') \<and> req_pool_inv p' (reqs' @ [])"
proof -
  let ?r = "\<lparr>req_pool_idx = None, is_chunked = 0, committed_len = 0\<rparr>"
  have "req_pool_inv (req_pool_init 3 8) ([?r, ?r] @ [])" by (simp add: req_pool_inv_def req_pool_init_def rows_of_def)
  moreover have "length (free_slots (req_pool_init 3 8)) = 3" by (simp add: req_pool_init_def)
  ultimately show ?thesis using req_pool_rows [of "req_pool_init 3 8" "[?r, ?r]" "[]"] by auto
qed

end
