(* ===== verification/Cache_Reqs.thy ===== *)
theory Cache_Reqs
  imports Radix_Cache Req_Pool
begin

text \<open>
  Requests and the prefix caches: what \<open>RadixCache\<close> and \<open>ChunkCache\<close> (\<open>srt/mem_cache/chunk_cache.py\<close>) do with
  the KV slots of a request when a chunk of it or all of it is done, and the allocation and release routines of
  \<open>srt/mem_cache/common.py\<close> that evict, allocate, fill the request-to-token table and give slots back.
  The slot allocator is a record of operations; the hybrid (sliding window, Mamba) variants are not modelled.
\<close>

section \<open>Requests\<close>

record cache_req = pool_req +
  origin_ids :: "int list"
  output_ids :: "int list"
  fill_ids :: "int list"
  req_extra_key :: "string option"
  req_priority :: "int option"
  cache_protected_len :: nat
  last_node :: "nat option"
  prefix_indices :: "int list"
  kv_allocated_len :: int
  kv_committed_freed :: bool
  kv_overallocated_freed :: bool
  reasoning_tokens :: int
  skip_radix_cache_insert :: bool

text \<open>\<open>committed_len\<close> of the pool's view of a request is its \<open>kv_committed_len\<close>.\<close>

definition cache_commit_len :: "bool \<Rightarrow> cache_req \<Rightarrow> int" where
  "cache_commit_len strip_thinking r =
     (if strip_thinking \<and> reasoning_tokens r > 0 then min (committed_len r) (int (length (origin_ids r)))
      else committed_len r)"

definition pop_committed_kv_cache :: "bool \<Rightarrow> cache_req \<Rightarrow> (int \<times> cache_req) py" where
  "pop_committed_kv_cache strip r = py_assert (\<not> kv_committed_freed r)
     (Inr (cache_commit_len strip r, r\<lparr>kv_committed_freed := True\<rparr>))"

definition pop_overallocated_kv_cache :: "bool \<Rightarrow> cache_req \<Rightarrow> ((int \<times> int) \<times> cache_req) py" where
  "pop_overallocated_kv_cache strip r = py_assert (\<not> kv_overallocated_freed r)
     (Inr ((cache_commit_len strip r, kv_allocated_len r), r\<lparr>kv_overallocated_freed := True\<rparr>))"

section \<open>The slot allocator and the two caches\<close>

record 'al alloc_ops =
  op_available :: "'al \<Rightarrow> int"
  op_alloc :: "'al \<Rightarrow> int \<Rightarrow> int list option \<times> 'al"
  op_alloc_extend :: "'al \<Rightarrow> int list \<Rightarrow> int list \<Rightarrow> int option list \<Rightarrow> int \<Rightarrow> (int list option \<times> 'al) py"
  op_alloc_decode :: "'al \<Rightarrow> int list \<Rightarrow> int option list \<Rightarrow> (int list option \<times> 'al) py"
  op_free :: "'al \<Rightarrow> int list \<Rightarrow> 'al"
  op_page_size :: int

datatype 'al prefix_cache = RadixTree "'al radix_cache" | ChunkCache 'al

definition pc_allocator :: "'al prefix_cache \<Rightarrow> 'al" where
  "pc_allocator tc = (case tc of RadixTree s \<Rightarrow> kv_allocator s | ChunkCache al \<Rightarrow> al)"

definition pc_with_allocator :: "'al \<Rightarrow> 'al prefix_cache \<Rightarrow> 'al prefix_cache" where
  "pc_with_allocator al tc = (case tc of RadixTree s \<Rightarrow> RadixTree (s\<lparr>kv_allocator := al\<rparr>) | ChunkCache _ \<Rightarrow> ChunkCache al)"

definition pc_free :: "'al alloc_ops \<Rightarrow> int list \<Rightarrow> 'al prefix_cache \<Rightarrow> 'al prefix_cache" where
  "pc_free A locs tc = pc_with_allocator (op_free A (pc_allocator tc) locs) tc"

text \<open>A row of the table up to a length (the table has rows of \<open>max_context_len\<close> entries).\<close>

type_synonym table = "int \<Rightarrow> int list"

definition row_assign :: "int list \<Rightarrow> nat \<Rightarrow> nat \<Rightarrow> int list \<Rightarrow> int list py" where
  "row_assign row a b vals =
     (let lo = min a (length row); hi = max lo (min b (length row))
      in if length vals = hi - lo then Inr (take lo row @ vals @ drop hi row)
         else if length vals = 1 then Inr (take lo row @ replicate (hi - lo) (vals ! 0) @ drop hi row)
         else Inl RuntimeError)"

section \<open>Caching a finished request\<close>

definition rc_free :: "'al alloc_ops \<Rightarrow> int list \<Rightarrow> 'al radix_cache \<Rightarrow> 'al radix_cache" where
  "rc_free A locs s = s\<lparr>kv_allocator := op_free A (kv_allocator s) locs\<rparr>"

definition the_row :: "table \<Rightarrow> cache_req \<Rightarrow> int list py" where
  "the_row tab r = (case req_pool_idx r of None \<Rightarrow> Inl TypeError | Some i \<Rightarrow> Inr (tab i))"

definition radix_cache_finished_req ::
  "'al alloc_ops \<Rightarrow> bool \<Rightarrow> table \<Rightarrow> bool \<Rightarrow> cache_req \<Rightarrow> 'al radix_cache \<Rightarrow> (cache_req \<times> 'al radix_cache) py" where
  "radix_cache_finished_req A strip tab is_insert0 r s =
     (let is_insert = (if disable_finished_insert s then False else is_insert0)
      in py_bind (pop_committed_kv_cache strip r) (\<lambda>(kv_len, r1).
         py_bind (the_row tab r1) (\<lambda>row.
         if disable s then Inr (r1, rc_free A (py_upto row kv_len) s)
         else
          (let toks = py_upto (origin_ids r1 @ output_ids r1) kv_len;
               kv_indices = take (length toks) row;
               key = page_aligned (rc_page_size s)
                       \<lparr>token_ids = toks, extra_key = req_extra_key r1, is_bigram = is_eagle s\<rparr>;
               n = key_len key;
               vals = take n kv_indices
           in py_bind
               (if is_insert
                then py_bind (insert_cache key (Some vals) (Some (case req_priority r1 of None \<Rightarrow> 0 | Some p \<Rightarrow> p)) False s)
                       (\<lambda>(prefix_len, s1). Inr (rc_free A (drop (cache_protected_len r1) (take prefix_len kv_indices)) s1))
                else Inr (rc_free A (drop (cache_protected_len r1) (take n kv_indices)) s))
               (\<lambda>s2.
                let s3 = rc_free A (drop n kv_indices) s2
                in case last_node r1 of None \<Rightarrow> Inr (r1, s3)
                   | Some a \<Rightarrow> py_bind (dec_lock_ref a s3) (\<lambda>(_, s4). Inr (r1, s4)))))))"

definition chunk_cache_finished_req ::
  "'al alloc_ops \<Rightarrow> bool \<Rightarrow> table \<Rightarrow> cache_req \<Rightarrow> 'al \<Rightarrow> (cache_req \<times> 'al) py" where
  "chunk_cache_finished_req A strip tab r al =
     py_bind (pop_committed_kv_cache strip r) (\<lambda>(kv_len, r1).
     py_bind (the_row tab r1) (\<lambda>row. Inr (r1, op_free A al (py_upto row kv_len))))"

section \<open>Caching an unfinished request\<close>

definition radix_cache_unfinished_req ::
  "'al alloc_ops \<Rightarrow> bool \<Rightarrow> cache_req \<Rightarrow> table \<Rightarrow> 'al radix_cache \<Rightarrow> (cache_req \<times> table \<times> 'al radix_cache) py" where
  "radix_cache_unfinished_req A chunked r tab s =
     (if disable s then Inr (r, tab, s)
      else
       py_bind (the_row tab r) (\<lambda>row.
       let toks = fill_ids r;
           kv_indices = take (length toks) row;
           key = page_aligned (rc_page_size s)
                   \<lparr>token_ids = toks, extra_key = req_extra_key r, is_bigram = is_eagle s\<rparr>;
           vals = take (key_len key) kv_indices
       in py_bind (insert_cache key (Some vals) (Some (case req_priority r of None \<Rightarrow> 0 | Some p \<Rightarrow> p)) chunked s)
            (\<lambda>(new_prefix_len, s1).
             let s2 = rc_free A (drop (cache_protected_len r) (take new_prefix_len kv_indices)) s1
             in py_bind (match_prefix key s2) (\<lambda>(new_indices, new_last_node, s3).
                py_assert (length new_indices = key_len key)
                 (py_bind (row_assign row (cache_protected_len r) (length new_indices)
                             (drop (cache_protected_len r) new_indices)) (\<lambda>row'.
                  py_bind (attr (last_node r)) (\<lambda>old_node.
                  py_bind (dec_lock_ref old_node s3) (\<lambda>(_, s4).
                  py_bind (inc_lock_ref new_last_node s4) (\<lambda>(_, s5).
                  Inr (r\<lparr>cache_protected_len := length new_indices,
                         prefix_indices := (if length new_indices < length kv_indices
                            then new_indices @ drop (length new_indices) kv_indices else new_indices),
                         last_node := Some new_last_node\<rparr>,
                       (case req_pool_idx r of None \<Rightarrow> tab | Some i \<Rightarrow> tab(i := row')), s5))))))))))"

definition chunk_cache_unfinished_req :: "cache_req \<Rightarrow> table \<Rightarrow> cache_req py" where
  "chunk_cache_unfinished_req r tab =
     py_bind (the_row tab r) (\<lambda>row. Inr (r\<lparr>prefix_indices := take (length (fill_ids r)) row\<rparr>))"

definition cache_unfinished_req ::
  "'al alloc_ops \<Rightarrow> bool \<Rightarrow> cache_req \<Rightarrow> table \<Rightarrow> 'al prefix_cache \<Rightarrow> (cache_req \<times> table \<times> 'al prefix_cache) py" where
  "cache_unfinished_req A chunked r tab tc = (case tc of
     RadixTree s \<Rightarrow> py_bind (radix_cache_unfinished_req A chunked r tab s) (\<lambda>(r', tab', s'). Inr (r', tab', RadixTree s'))
   | ChunkCache al \<Rightarrow> py_bind (chunk_cache_unfinished_req r tab) (\<lambda>r'. Inr (r', tab, ChunkCache al)))"

definition maybe_cache_unfinished_req ::
  "'al alloc_ops \<Rightarrow> bool \<Rightarrow> cache_req \<Rightarrow> table \<Rightarrow> 'al prefix_cache \<Rightarrow> (cache_req \<times> table \<times> 'al prefix_cache) py" where
  "maybe_cache_unfinished_req A chunked r tab tc =
     (if skip_radix_cache_insert r then Inr (r, tab, tc) else cache_unfinished_req A chunked r tab tc)"

definition cache_finished_req ::
  "'al alloc_ops \<Rightarrow> bool \<Rightarrow> table \<Rightarrow> bool \<Rightarrow> cache_req \<Rightarrow> 'al prefix_cache \<Rightarrow> (cache_req \<times> 'al prefix_cache) py" where
  "cache_finished_req A strip tab is_insert r tc = (case tc of
     RadixTree s \<Rightarrow> py_bind (radix_cache_finished_req A strip tab is_insert r s) (\<lambda>(r', s'). Inr (r', RadixTree s'))
   | ChunkCache al \<Rightarrow> py_bind (chunk_cache_finished_req A strip tab r al) (\<lambda>(r', al'). Inr (r', ChunkCache al')))"

section \<open>Allocating slots, evicting first\<close>

definition evict_from_tree_cache :: "'al alloc_ops \<Rightarrow> 'al prefix_cache \<Rightarrow> int \<Rightarrow> 'al prefix_cache py" where
  "evict_from_tree_cache A tc num_tokens = (case tc of
     ChunkCache al \<Rightarrow> Inr tc
   | RadixTree s \<Rightarrow>
       if op_available A (kv_allocator s) < num_tokens
       then py_bind (evict (op_free A) num_tokens s) (\<lambda>(_, s'). Inr (RadixTree s'))
       else Inr tc)"

text \<open>The slots, the allocator's state before the allocation (\<open>backup_state\<close>) and the cache.\<close>

definition alloc_token_slots ::
  "'al alloc_ops \<Rightarrow> 'al prefix_cache \<Rightarrow> int \<Rightarrow> (int list \<times> 'al \<times> 'al prefix_cache) py" where
  "alloc_token_slots A tc num_tokens =
     py_bind (evict_from_tree_cache A tc num_tokens) (\<lambda>tc1.
     case op_alloc A (pc_allocator tc1) num_tokens of
       (None, _) \<Rightarrow> Inl RuntimeError
     | (Some locs, al) \<Rightarrow> Inr (locs, pc_allocator tc1, pc_with_allocator al tc1))"

definition alloc_paged_token_slots_extend ::
  "'al alloc_ops \<Rightarrow> 'al prefix_cache \<Rightarrow> int list \<Rightarrow> int list \<Rightarrow> int option list \<Rightarrow> int \<Rightarrow> (int list \<times> 'al \<times> 'al prefix_cache) py" where
  "alloc_paged_token_slots_extend A tc prefix_lens seq_lens last_loc extend_num_tokens =
     py_bind (evict_from_tree_cache A tc (extend_num_tokens + int (length seq_lens) * op_page_size A)) (\<lambda>tc1.
     py_bind (op_alloc_extend A (pc_allocator tc1) prefix_lens seq_lens last_loc extend_num_tokens) (\<lambda>res.
     case res of
       (None, _) \<Rightarrow> Inl RuntimeError
     | (Some locs, al) \<Rightarrow> Inr (locs, pc_allocator tc1, pc_with_allocator al tc1)))"

definition alloc_paged_token_slots_decode ::
  "'al alloc_ops \<Rightarrow> 'al prefix_cache \<Rightarrow> int list \<Rightarrow> int option list \<Rightarrow> (int list \<times> 'al prefix_cache) py" where
  "alloc_paged_token_slots_decode A tc seq_lens last_loc =
     py_bind (evict_from_tree_cache A tc (int (length seq_lens) * op_page_size A)) (\<lambda>tc1.
     py_bind (op_alloc_decode A (pc_allocator tc1) seq_lens last_loc) (\<lambda>res.
     case res of
       (None, _) \<Rightarrow> Inl RuntimeError
     | (Some locs, al) \<Rightarrow> Inr (locs, pc_with_allocator al tc1)))"

section \<open>Allocation for a batch\<close>

definition alloc_req_slots :: "req_pool \<Rightarrow> pool_req list \<Rightarrow> (pool_req list \<times> req_pool) py" where
  "alloc_req_slots p reqs = py_bind (req_pool_alloc p reqs) (\<lambda>res. case res of
     (None, _) \<Rightarrow> Inl RuntimeError
   | (Some reqs', p') \<Rightarrow> Inr (reqs', p'))"

record 'al extend_state =
  ex_cache :: "'al prefix_cache"
  ex_pool :: req_pool
  ex_reqs :: "pool_req list"

text \<open>
  The batch: the cached prefix of each request, its prefix, extend and sequence lengths. \<open>order\<close> is the order
  of the kernel's instances, \<open>triton\<close> whether the backend supports it.
\<close>

definition alloc_for_extend ::
  "'al alloc_ops \<Rightarrow> bool \<Rightarrow> nat list \<Rightarrow> int list list \<Rightarrow> int list \<Rightarrow> int list \<Rightarrow> int list \<Rightarrow> int \<Rightarrow> 'al extend_state \<Rightarrow>
     (int list \<times> 'al extend_state) py" where
  "alloc_for_extend A triton order prefix_tensors prefix_lens extend_lens seq_lens extend_num_tokens S =
     py_bind (alloc_req_slots (ex_pool S) (ex_reqs S)) (\<lambda>(reqs', pool1).
     let rows = rows_of reqs'
     in py_bind
          (if op_page_size A = 1 then alloc_token_slots A (ex_cache S) extend_num_tokens
           else alloc_paged_token_slots_extend A (ex_cache S) prefix_lens seq_lens
                  (map (\<lambda>t. Some (if t \<noteq> [] then last t else -1)) prefix_tensors) extend_num_tokens)
          (\<lambda>(out_cache_loc, _, tc1).
           py_bind (write_cache_indices triton order (max_context_len pool1) out_cache_loc rows prefix_lens seq_lens extend_lens
                      prefix_tensors (req_to_token_table pool1)) (\<lambda>m.
           Inr (out_cache_loc, S\<lparr>ex_cache := tc1, ex_pool := pool1\<lparr>req_to_token_table := m\<rparr>, ex_reqs := reqs'\<rparr>))))"

text \<open>\<open>req_to_token[(rows, locs)] = values\<close>, one entry per request.\<close>

definition scatter_write :: "int \<Rightarrow> int list \<Rightarrow> int list \<Rightarrow> int list \<Rightarrow> mem \<Rightarrow> mem py" where
  "scatter_write pl rows locs vals m =
     (if length rows = length locs \<and> length vals = length rows
      then Inr (foldl (\<lambda>m (r, l, v). m(r * pl + l := Some v)) m (zip rows (zip locs vals)))
      else if length rows = length locs \<and> length vals = 1
      then Inr (foldl (\<lambda>m (r, l). m(r * pl + l := Some (vals ! 0))) m (zip rows locs))
      else Inl RuntimeError)"

definition alloc_for_decode ::
  "'al alloc_ops \<Rightarrow> int \<Rightarrow> int list option \<Rightarrow> int list \<Rightarrow> int list \<Rightarrow> 'al prefix_cache \<Rightarrow> req_pool \<Rightarrow>
     (int list \<times> 'al prefix_cache \<times> req_pool) py" where
  "alloc_for_decode A token_per_req encoder_lens rows seq_lens tc pool =
     (let pl = max_context_len pool
      in py_bind
          (if op_page_size A = 1
           then py_bind (alloc_token_slots A tc (int (length seq_lens) * token_per_req)) (\<lambda>(locs, _, tc1). Inr (locs, tc1))
           else alloc_paged_token_slots_decode A tc (map (\<lambda>s. s + token_per_req) seq_lens)
                  (map2 (\<lambda>r s. req_to_token_table pool (r * pl + (s - 1))) rows seq_lens))
          (\<lambda>(out_cache_loc, tc1).
           let locs = (case encoder_lens of Some es \<Rightarrow> map2 (+) es seq_lens | None \<Rightarrow> seq_lens)
           in py_bind (scatter_write pl rows locs out_cache_loc (req_to_token_table pool)) (\<lambda>m.
              Inr (out_cache_loc, tc1, pool\<lparr>req_to_token_table := m\<rparr>))))"

section \<open>Releasing a request\<close>

definition ceil_align :: "int \<Rightarrow> int \<Rightarrow> int" where
  "ceil_align x ps = (x + ps - 1) div ps * ps"

definition release_kv_cache ::
  "'al alloc_ops \<Rightarrow> bool \<Rightarrow> bool \<Rightarrow> table \<Rightarrow> bool \<Rightarrow> cache_req \<Rightarrow> 'al prefix_cache \<Rightarrow> req_pool \<Rightarrow>
     (cache_req \<times> 'al prefix_cache \<times> req_pool) py" where
  "release_kv_cache A spec strip tab is_insert r tc pool =
     (if req_pool_idx r = None then Inl AssertionError
      else
       py_bind (cache_finished_req A strip tab (is_insert \<and> \<not> skip_radix_cache_insert r) r tc) (\<lambda>(r1, tc1).
       py_bind (pop_overallocated_kv_cache strip r1) (\<lambda>((start_p0, end_p), r2).
       py_assert (spec \<or> strip \<or> start_p0 = end_p)
        (let start_p = (if op_page_size A > 1 then ceil_align start_p0 (op_page_size A) else start_p0)
         in py_bind (the_row tab r2) (\<lambda>row.
            let tc2 = (if start_p < end_p then pc_free A (py_slice row start_p end_p) tc1 else tc1)
            in py_bind (req_pool_free pool (pool_req.truncate r2)) (\<lambda>(_, pool').
               Inr (r2\<lparr>req_pool_idx := None\<rparr>, tc2, pool')))))))"

end
