(* ===== verification/Cache_Flow.thy ===== *)
theory Cache_Flow
  imports Radix_Evict Cache_Reqs Kv_Allocator
begin

text \<open>
  Slots between the allocator, the radix cache and the requests. The contract of the allocator is the locale of
  \<open>Kv_Allocator\<close>, extended to the operations that the cache's clients call; on it the routines of \<open>Cache_Reqs\<close> are shown to
  conserve slots, to keep locked prefixes, and to succeed as long as enough slots are free or evictable.
\<close>

section \<open>A request and its locked prefix\<close>

text \<open>
  A request holds a lock on node \<open>a\<close>, where the first \<open>n\<close> units of its key end; the first \<open>n\<close> slots of its row are those
  of the tree, and the rest of its row is its own.
\<close>

definition req_locked :: "'al radix_cache \<Rightarrow> nat multiset \<Rightarrow> nat \<Rightarrow> radix_key \<Rightarrow> nat \<Rightarrow> int list \<Rightarrow> bool" where
  "req_locked s H a key n row \<longleftrightarrow> a \<in># H \<and> n \<le> key_len key \<and> n \<le> length row \<and>
     walk (shape s) (extra_key key) (root_node s) (take n (key_iter key)) (take n row) a"

definition req_key :: "'al radix_cache \<Rightarrow> cache_req \<Rightarrow> int list \<Rightarrow> radix_key" where
  "req_key s r toks = page_aligned (rc_page_size s) \<lparr>token_ids = toks, extra_key = req_extra_key r, is_bigram = is_eagle s\<rparr>"

lemma req_key_facts:
  assumes "1 \<le> rc_page_size s"
  shows "is_bigram (req_key s r toks) = is_eagle s" "extra_key (req_key s r toks) = req_extra_key r" "key_len (req_key s r toks) \<le> length toks"
    "bigram_view (is_eagle s) (req_key s r toks) = req_key s r toks"
    "key_len (req_key s r toks) div rc_page_size s * rc_page_size s = key_len (req_key s r toks)"
proof -
  show b: "is_bigram (req_key s r toks) = is_eagle s" and "extra_key (req_key s r toks) = req_extra_key r" by (simp_all add: req_key_def)
  show "bigram_view (is_eagle s) (req_key s r toks) = req_key s r toks" using b by (cases "req_key s r toks") (simp add: bigram_view_def)
  let ?k = "\<lparr>token_ids = toks, extra_key = req_extra_key r, is_bigram = is_eagle s\<rparr>"
  have "key_len (req_key s r toks) \<le> key_len ?k" by (simp add: req_key_def)
  also have "\<dots> \<le> length toks" by (simp add: key_len_def)
  finally show "key_len (req_key s r toks) \<le> length toks" .
  show "key_len (req_key s r toks) div rc_page_size s * rc_page_size s = key_len (req_key s r toks)" using assms by (simp add: req_key_def)
qed

lemma cached_take:
  assumes "cached ps root h ek us vs" "ps dvd m" "m \<le> length us"
  shows "cached ps root h ek (take m us) (take m vs)"
proof -
  obtain u v b where w: "walk h ek root u v b" "length us \<le> length u" "us = take (length us) u" "vs = take (length us) v"
    using assms(1) by (auto simp: cached_def)
  have "take m us = take m u" using w(3) assms(3) by (metis min.absorb1 take_take)
  moreover have "take m vs = take m v" using w(4) assms(3) by (metis min.absorb1 take_take)
  ultimately show ?thesis unfolding cached_def using w(1,2) assms(2,3)
    by (intro conjI exI [of _ u] exI [of _ v] exI [of _ b]) simp_all
qed

lemma req_locked_prefix:
  assumes inv: "radix_inv D rk H s" and r: "req_locked s H a key p row"
    and n: "none_cached_past s (extra_key key) n (key_iter key)" "cached (rc_page_size s) (root_node s) (shape s) (extra_key key) (take n (key_iter key)) old"
  shows "p \<le> n" "n \<le> key_len key" "take p old = take p row" "length old = n"
proof -
  note t = radix_invD(1) [OF inv]
  have p: "p \<le> key_len key" "p \<le> length row" "walk (shape s) (extra_key key) (root_node s) (take p (key_iter key)) (take p row) a"
    using r by (auto simp: req_locked_def)
  have dv: "rc_page_size s dvd p" using walk_facts(3) [OF p(3) t tree_okD(3) [OF t]] p(1) by simp
  have c: "cached (rc_page_size s) (root_node s) (shape s) (extra_key key) (take p (key_iter key)) (take p row)"
    unfolding cached_def using p dv by (intro conjI exI [of _ "take p (key_iter key)"] exI [of _ "take p row"] exI [of _ a]) simp_all
  show nk: "n \<le> key_len key" using n(1) by (simp add: none_cached_past_def)
  show pn: "p \<le> n" using n(1) c p(1) unfolding none_cached_past_def by (metis length_key_iter not_le_imp_less)
  have "cached (rc_page_size s) (root_node s) (shape s) (extra_key key) (take p (take n (key_iter key))) (take p old)"
    using cached_take [OF n(2) dv] pn nk by simp
  then show "take p old = take p row" using cached_unique [OF _ c t] pn by (simp add: min_def)
  obtain u v b where w: "walk (shape s) (extra_key key) (root_node s) u v b" "n \<le> length u" "old = take n v"
    using n(2) nk by (auto simp: cached_def)
  then show "length old = n" using walk_facts(2) [OF w(1) t tree_okD(3) [OF t]] by simp
qed

lemma mset_slice_split:
  assumes "p \<le> n" "n \<le> m"
  shows "mset (drop p (take m xs)) = mset (drop p (take n xs)) + mset (drop n (take m xs))"
proof -
  let ?ys = "take m xs"
  have "drop p ?ys = take (n - p) (drop p ?ys) @ drop (n - p) (drop p ?ys)" by (simp only: append_take_drop_id)
  also have "\<dots> = drop p (take n ?ys) @ drop n ?ys" using assms by (simp add: drop_take min_def)
  also have "take n ?ys = take n xs" using assms(2) by (simp add: min_def)
  finally show ?thesis by simp
qed

section \<open>Locking leaves the cached prefixes and the slots alone\<close>

lemma add_locks_fields:
  "map_option c_children (add_locks root d P h a) = map_option c_children (h a)"
  "map_option c_key (add_locks root d P h a) = map_option c_key (h a)"
  "map_option c_value (add_locks root d P h a) = map_option c_value (h a)"
  by (simp_all add: add_locks_def option.map_comp comp_def)

lemma walk_cong:
  assumes "walk h ek a u v b"
    and eq: "\<And>x. map_option c_children (h' x) = map_option c_children (h x)" "\<And>x. map_option c_key (h' x) = map_option c_key (h x)"
      "\<And>x. map_option c_value (h' x) = map_option c_value (h x)"
  shows "walk h' ek a u v b"
  using assms(1)
proof induction
  case (walk_cons a P k x C w us vs b)
  obtain P' where P': "h' a = Some P'" "c_children P' = c_children P" using eq(1) [of a] walk_cons.hyps(1) by (cases "h' a") auto
  obtain C' where C': "h' x = Some C'" "c_key C' = c_key C" "c_value C' = c_value C"
    using eq(2,3) [of x] walk_cons.hyps(3) by (cases "h' x") auto
  show ?case using walk.walk_cons [of h' a P' k x C' ek w us vs b] walk_cons P' C' by simp
qed (rule walk_nil)

lemma walk_add_locks [simp]: "walk (add_locks root d P h) ek a u v b \<longleftrightarrow> walk h ek a u v b"
  using walk_cong [of h ek a u v b "add_locks root d P h"] walk_cong [of "add_locks root d P h" ek a u v b h]
  by (auto simp: add_locks_fields)

lemma cached_add_locks [simp]: "cached ps root (add_locks r d P h) ek us vs \<longleftrightarrow> cached ps root h ek us vs"
  by (simp add: cached_def)

lemma tree_slots_add_locks:
  assumes "\<forall>a \<in> D. h a \<noteq> None"
  shows "tree_slots D (add_locks root d P h) = tree_slots D h"
  unfolding tree_slots_def using assms by (intro sum.cong) (auto simp: add_locks_def)

lemma radix_inv_alloc [simp]: "radix_inv D rk H (s\<lparr>kv_allocator := al\<rparr>) \<longleftrightarrow> radix_inv D rk H s"
  by (simp add: radix_inv_def)

lemma rc_free_fields [simp]:
  "shape (rc_free A xs s) = shape s" "radix_inv D rk H (rc_free A xs s) \<longleftrightarrow> radix_inv D rk H s"
  "rc_page_size (rc_free A xs s) = rc_page_size s" "is_eagle (rc_free A xs s) = is_eagle s" "root_node (rc_free A xs s) = root_node s"
  "disable (rc_free A xs s) = disable s" "enable_kv_cache_events (rc_free A xs s) = enable_kv_cache_events s"
  "kv_allocator (rc_free A xs s) = op_free A (kv_allocator s) xs"
  by (simp_all add: rc_free_def)

lemma lock_frame_config: "lock_frame s s' \<Longrightarrow> config s' = config s"
  by (auto simp: lock_frame_def config_def)

lemma dec_lock_flow:
  assumes "radix_inv D rk H s" "a \<in># H" "\<not> disable s"
  shows "\<exists>delta s'. dec_lock_ref a s = Inr (delta, s') \<and> radix_inv D rk (H - {#a#}) s' \<and> lock_frame s s' \<and>
    tree_slots D (shape s') = tree_slots D (shape s) \<and> (\<forall>ek r u v b. walk (shape s') ek r u v b \<longleftrightarrow> walk (shape s) ek r u v b)"
  using dec_lock_ref_ok [OF assms] tree_slots_add_locks [of D "shape s"] tree_okD(4) [OF radix_invD(1) [OF assms(1)]] by force

lemma inc_lock_flow:
  assumes "radix_inv D rk H s" "a \<in> D" "\<not> disable s"
  shows "\<exists>delta s'. inc_lock_ref a s = Inr (delta, s') \<and> radix_inv D rk (add_mset a H) s' \<and> lock_frame s s' \<and>
    tree_slots D (shape s') = tree_slots D (shape s) \<and> (\<forall>ek r u v b. walk (shape s') ek r u v b \<longleftrightarrow> walk (shape s) ek r u v b)"
  using inc_lock_ref_ok [OF assms] tree_slots_add_locks [of D "shape s"] tree_okD(4) [OF radix_invD(1) [OF assms(1)]] by force

lemma acct_nonneg:
  assumes "acct root h D ev pr ls"
  shows "0 \<le> ev"
proof -
  have "ev = (\<Sum>a \<in> D - {root}. if c_lock (cells h a) = 0 then int (key_len (c_key (cells h a))) else 0)" using assms by (simp add: acct_def)
  also have "0 \<le> \<dots>" by (intro sum_nonneg) simp
  finally show ?thesis .
qed

section \<open>A pool of slots behind the cache\<close>

text \<open>
  The slots of a pool and a tree: those that are free and those of the tree. The operations below only move slots
  between these two and the requests.
\<close>

definition pool_slots :: "('s \<Rightarrow> int multiset) \<Rightarrow> nat set \<Rightarrow> 's radix_cache \<Rightarrow> int multiset" where
  "pool_slots fs D s = fs (kv_allocator s) + tree_slots D (shape s)"

text \<open>
  What the cache's clients need of the allocator: its operations are those of a slot allocator that takes back
  any slots it is given, and \<open>available_size\<close> counts its free slots.
\<close>

locale slot_pool = slot_allocator alloc free "\<lambda>_ n. 0 \<le> n" "\<lambda>_ _. True" inv fs
  for alloc :: "'s \<Rightarrow> int \<Rightarrow> int list option \<times> 's" and free :: "'s \<Rightarrow> int list \<Rightarrow> 's" and inv :: "'s \<Rightarrow> bool"
    and fs :: "'s \<Rightarrow> int multiset" +
  fixes A :: "'s alloc_ops"
  assumes op_alloc: "op_alloc A = alloc" and op_free: "op_free A = free"
    and op_available: "inv s \<Longrightarrow> op_available A s = int (size (fs s))"
begin

lemma free_all:
  assumes "inv al"
  shows "inv (foldl free al vs) \<and> fs (foldl free al vs) = fs al + mset (concat vs)"
  using assms
proof (induction vs arbitrary: al)
  case (Cons v vs)
  have "inv (free al v)" "fs (free al v) = fs al + mset v" using free_spec [OF Cons.prems, of v] by auto
  then show ?case using Cons.IH [of "free al v"] by (simp add: add.assoc)
qed simp

text \<open>\<open>evict_from_tree_cache\<close> makes room whenever free and evictable slots suffice, and moves nothing else.\<close>

lemma evict_tree_ok:
  assumes inv: "radix_inv D rk H s" and en: "\<not> disable s" and ev: "\<not> enable_kv_cache_events s" and al: "inv (kv_allocator s)"
  shows "\<exists>s1 D1. evict_from_tree_cache A (RadixTree s) n = Inr (RadixTree s1) \<and> radix_inv D1 rk H s1 \<and> inv (kv_allocator s1) \<and>
      pool_slots fs D s = pool_slots fs D1 s1 \<and> root_node s1 = root_node s \<and>
      (n \<le> int (size (fs (kv_allocator s1))) \<longleftrightarrow> n \<le> int (size (fs (kv_allocator s))) + evictable_size s) \<and>
      (\<forall>a ek u v. a \<in># H \<longrightarrow> walk (shape s) ek (root_node s) u v a \<longrightarrow> walk (shape s1) ek (root_node s) u v a) \<and>
      config s1 = config (s\<lparr>kv_allocator := kv_allocator s1\<rparr>) \<and>
      int (size (fs (kv_allocator s1))) + evictable_size s1 = int (size (fs (kv_allocator s))) + evictable_size s"
proof (cases "op_available A (kv_allocator s) < n")
  case True
  obtain vs s1 D1 where e: "evict free n s = Inr (int (length (concat vs)), s1)" "radix_inv D1 rk H s1"
    "min n (evictable_size s) \<le> int (length (concat vs))"
    "config s1 = config (s\<lparr>kv_allocator := foldl free (kv_allocator s) vs\<rparr>)"
    "tree_slots D (shape s) = tree_slots D1 (shape s1) + mset (concat vs)" "evictable_size s1 = evictable_size s - int (length (concat vs))"
    "\<And>a ek u v. a \<in># H \<Longrightarrow> walk (shape s) ek (root_node s) u v a \<Longrightarrow> walk (shape s1) ek (root_node s) u v a"
    using evict_ok [OF inv en ev, of free n] by blast
  have k: "kv_allocator s1 = foldl free (kv_allocator s) vs" "root_node s1 = root_node s" using e(4) by (simp_all add: config_def)
  have sz: "size (fs (kv_allocator s1)) = size (fs (kv_allocator s)) + length (concat vs)"
    unfolding k(1) using free_all [OF al, of vs] by (simp del: length_concat)
  have "0 \<le> evictable_size s1" by (rule acct_nonneg [OF radix_invD(3) [OF e(2)]])
  then have "n \<le> int (size (fs (kv_allocator s1))) \<longleftrightarrow> n \<le> int (size (fs (kv_allocator s))) + evictable_size s"
    using e(3,6) unfolding sz by linarith
  moreover have "evict_from_tree_cache A (RadixTree s) n = Inr (RadixTree s1)" using True e(1) by (simp add: evict_from_tree_cache_def op_free)
  moreover have "pool_slots fs D s = pool_slots fs D1 s1" unfolding pool_slots_def e(5) k(1) using free_all [OF al, of vs] by (simp add: ac_simps)
  moreover have "config s1 = config (s\<lparr>kv_allocator := kv_allocator s1\<rparr>)" using e(4) k(1) by simp
  moreover have "int (size (fs (kv_allocator s1))) + evictable_size s1 = int (size (fs (kv_allocator s))) + evictable_size s"
    using e(6) unfolding sz by simp
  ultimately show ?thesis using e(2,7) k(2) free_all [OF al, of vs] unfolding k(1) [symmetric]
    by (intro exI [of _ s1] exI [of _ D1]) simp
next
  case False
  have "0 \<le> evictable_size s" by (rule acct_nonneg [OF radix_invD(3) [OF inv]])
  then show ?thesis using False inv al op_available [OF al]
    by (intro exI [of _ s] exI [of _ D]) (auto simp: evict_from_tree_cache_def config_def)
qed

lemma alloc_token_slots_ok:
  assumes inv: "radix_inv D rk H s" and en: "\<not> disable s" and ev: "\<not> enable_kv_cache_events s" and al: "inv (kv_allocator s)" and n: "0 \<le> n"
  shows "if n \<le> int (size (fs (kv_allocator s))) + evictable_size s
    then \<exists>locs bak s' D'. alloc_token_slots A (RadixTree s) n = Inr (locs, bak, RadixTree s') \<and> int (length locs) = n \<and>
      radix_inv D' rk H s' \<and> inv (kv_allocator s') \<and> pool_slots fs D s = pool_slots fs D' s' + mset locs \<and>
      (\<forall>a ek u v. a \<in># H \<longrightarrow> walk (shape s) ek (root_node s) u v a \<longrightarrow> walk (shape s') ek (root_node s') u v a)
    else alloc_token_slots A (RadixTree s) n = Inl RuntimeError"
proof -
  obtain s1 D1 where s1: "evict_from_tree_cache A (RadixTree s) n = Inr (RadixTree s1)" "radix_inv D1 rk H s1" "inv (kv_allocator s1)"
      "pool_slots fs D s = pool_slots fs D1 s1" "root_node s1 = root_node s"
      "n \<le> int (size (fs (kv_allocator s1))) \<longleftrightarrow> n \<le> int (size (fs (kv_allocator s))) + evictable_size s"
      "\<And>a ek u v. a \<in># H \<Longrightarrow> walk (shape s) ek (root_node s) u v a \<Longrightarrow> walk (shape s1) ek (root_node s) u v a"
    using evict_tree_ok [OF inv en ev al, of n] by blast
  obtain res al' where r: "alloc (kv_allocator s1) n = (res, al')" by (cases "alloc (kv_allocator s1) n")
  show ?thesis
  proof (cases res)
    case None
    then have "int (size (fs (kv_allocator s1))) < n" using alloc_None [OF s1(3) n] r by blast
    then show ?thesis using s1(1,6) r None by (simp add: alloc_token_slots_def pc_allocator_def op_alloc)
  next
    case (Some locs)
    note a = alloc_Some [OF s1(3) n r [unfolded Some]]
    have "size (fs (kv_allocator s1)) = size (fs al') + length locs" using a by simp
    then have "n \<le> int (size (fs (kv_allocator s1)))" using a by linarith
    moreover have "alloc_token_slots A (RadixTree s) n = Inr (locs, kv_allocator s1, RadixTree (s1\<lparr>kv_allocator := al'\<rparr>))"
      using s1(1) r Some by (simp add: alloc_token_slots_def pc_allocator_def pc_with_allocator_def op_alloc)
    moreover have "pool_slots fs D s = pool_slots fs D1 (s1\<lparr>kv_allocator := al'\<rparr>) + mset locs"
      unfolding s1(4) using a by (simp add: pool_slots_def ac_simps)
    ultimately show ?thesis using s1(2,5-7) a
      by (simp add: exI [of _ "s1\<lparr>kv_allocator := al'\<rparr>"]) (intro exI [of _ "s1\<lparr>kv_allocator := al'\<rparr>"] exI [of _ D1], simp)
  qed
qed


lemma insert_aligned:
  assumes inv: "radix_inv D rk H s" and en: "\<not> disable s" and ev: "\<not> enable_kv_cache_events s" and key: "key = req_key s r toks"
    and row: "length toks \<le> length row"
  shows "\<exists>n s' D' rk' old. insert_cache key (Some (take (key_len key) (take (length toks) row))) prio chunked s = Inr (n, s') \<and> radix_inv D' rk' H s' \<and>
    D \<subseteq> D' \<and> config s' = config s \<and> tree_slots D' (shape s') = tree_slots D (shape s) + mset (drop n (take (key_len key) row)) \<and>
    cached (rc_page_size s) (root_node s) (shape s) (extra_key key) (take n (key_iter key)) old \<and> none_cached_past s (extra_key key) n (key_iter key) \<and>
    (\<forall>ek us vs. cached (rc_page_size s) (root_node s) (shape s') ek us vs \<longleftrightarrow> cached (rc_page_size s) (root_node s) (shape s) ek us vs \<or>
       ek = extra_key key \<and> rc_page_size s dvd length us \<and> length us \<le> key_len key \<and> us = take (length us) (key_iter key) \<and>
       vs = take (length us) (old @ drop n (take (key_len key) row)))"
proof -
  have ps: "1 \<le> rc_page_size s" using tree_okD(1) [OF radix_invD(1) [OF inv]] .
  note k = req_key_facts [OF ps, of r toks, folded key]
  have vals: "take (key_len key) (take (length toks) row) = take (key_len key) row" using k(3) by (simp add: min_def)
  have l: "key_len key = key_len (bigram_view (is_eagle s) key) div rc_page_size s * rc_page_size s" unfolding k(4) by (rule k(5) [symmetric])
  have "key_len key \<le> length (take (key_len key) row)" using k(3) row by simp
  from insert_cache_ok [OF inv en ev _ l this, of prio chunked] k(1) show ?thesis
    unfolding vals unfolding k(4) Let_def length_key_iter take_take min.idem by blast
qed

lemma finished_req_ok:
  assumes rinv: "radix_inv D rk H s" and en: "\<not> disable s" and ev: "\<not> enable_kv_cache_events s" and al: "inv (kv_allocator s)"
    and r: "\<not> kv_committed_freed r" "req_pool_idx r = Some i" "last_node r = Some a"
    and toks: "toks = py_upto (origin_ids r @ output_ids r) (cache_commit_len strip r)" "length toks \<le> length (tab i)"
    and lk: "req_locked s H a (req_key s r toks) (cache_protected_len r) (tab i)"
  shows "\<exists>s' D' rk'. radix_cache_finished_req A strip tab is_insert r s = Inr (r\<lparr>kv_committed_freed := True\<rparr>, s') \<and>
    radix_inv D' rk' (H - {#a#}) s' \<and> inv (kv_allocator s') \<and>
    pool_slots fs D' s' = pool_slots fs D s + mset (drop (cache_protected_len r) (take (length toks) (tab i))) \<and>
    (is_insert \<and> \<not> disable_finished_insert s \<longrightarrow>
      (\<exists>slots. cached (rc_page_size s) (root_node s) (shape s') (req_extra_key r) (key_iter (req_key s r toks)) slots))"
proof -
  define key where "key = req_key s r toks"
  let ?row = "tab i" and ?p = "cache_protected_len r" and ?kv = "take (length toks) (tab i)" and ?r1 = "r\<lparr>kv_committed_freed := True\<rparr>"
  have t: "tree_ok (rc_page_size s) (is_eagle s) (root_node s) (shape s) D rk" using radix_invD(1) [OF rinv] .
  have ps: "1 \<le> rc_page_size s" using tree_okD(1) [OF t] .
  note k = req_key_facts [OF ps, of r toks, folded key_def]
  have pk: "?p \<le> key_len key" "a \<in># H" using lk by (simp_all add: req_locked_def key_def)
  define ins where "ins \<longleftrightarrow> is_insert \<and> \<not> disable_finished_insert s"
  define first where "first = (if ins
      then py_bind (insert_cache key (Some (take (key_len key) ?kv)) (Some (case req_priority r of None \<Rightarrow> 0 | Some p \<Rightarrow> p)) False s)
             (\<lambda>(prefix_len, s1). Inr (rc_free A (drop ?p (take prefix_len ?kv)) s1))
      else Inr (rc_free A (drop ?p (take (key_len key) ?kv)) s))"
  have fin: "radix_cache_finished_req A strip tab is_insert r s =
      py_bind first (\<lambda>s2. py_bind (dec_lock_ref a (rc_free A (drop (key_len key) ?kv) s2)) (\<lambda>(_, s4). Inr (?r1, s4)))"
    using r en unfolding radix_cache_finished_req_def Let_def first_def ins_def
    by (auto simp: pop_committed_kv_cache_def py_assert_def the_row_def toks(1) [symmetric] req_key_def [symmetric] key_def)
  have "\<exists>s2 D2 rk2. first = Inr s2 \<and> radix_inv D2 rk2 H s2 \<and> inv (kv_allocator s2) \<and> \<not> disable s2 \<and> root_node s2 = root_node s \<and>
      pool_slots fs D2 s2 = pool_slots fs D s + mset (drop ?p (take (key_len key) ?row)) \<and>
      (ins \<longrightarrow> (\<exists>slots. cached (rc_page_size s) (root_node s) (shape s2) (req_extra_key r) (key_iter key) slots))"
  proof (cases ins)
    case True
    obtain n s1 D1 rk1 old where I: "insert_cache key (Some (take (key_len key) ?kv)) (Some (case req_priority r of None \<Rightarrow> 0 | Some p \<Rightarrow> p)) False s = Inr (n, s1)"
      "radix_inv D1 rk1 H s1" "config s1 = config s" "tree_slots D1 (shape s1) = tree_slots D (shape s) + mset (drop n (take (key_len key) ?row))"
      "cached (rc_page_size s) (root_node s) (shape s) (extra_key key) (take n (key_iter key)) old" "none_cached_past s (extra_key key) n (key_iter key)"
      "\<And>ek us vs. cached (rc_page_size s) (root_node s) (shape s1) ek us vs \<longleftrightarrow> cached (rc_page_size s) (root_node s) (shape s) ek us vs \<or>
       ek = extra_key key \<and> rc_page_size s dvd length us \<and> length us \<le> key_len key \<and> us = take (length us) (key_iter key) \<and>
       vs = take (length us) (old @ drop n (take (key_len key) ?row))"
      using insert_aligned [OF rinv en ev key_def toks(2), where prio = "Some (case req_priority r of None \<Rightarrow> 0 | Some p \<Rightarrow> p)" and chunked = False]
      by blast
    note lp = req_locked_prefix [OF rinv lk [folded key_def] I(6,5)]
    have n: "take n ?kv = take n ?row" using lp(2) k(3) by (simp add: min_def)
    have f: "inv (free (kv_allocator s1) (drop ?p (take n ?row)))" "fs (free (kv_allocator s1) (drop ?p (take n ?row))) = fs (kv_allocator s) + mset (drop ?p (take n ?row))"
      using free_spec [of "kv_allocator s"] al configD(8) [OF I(3)] by simp_all
    let ?s2 = "rc_free A (drop ?p (take n ?row)) s1"
    have "first = Inr ?s2" using True I(1) n by (simp add: first_def)
    moreover have "pool_slots fs D1 ?s2 = pool_slots fs D s + mset (drop ?p (take (key_len key) ?row))"
      unfolding pool_slots_def rc_free_fields op_free f(2) I(4) mset_slice_split [OF lp(1,2)] by (simp add: ac_simps)
    moreover have "cached (rc_page_size s) (root_node s) (shape ?s2) (req_extra_key r) (key_iter key) (take (key_len key) (old @ drop n (take (key_len key) ?row)))"
      unfolding rc_free_fields I(7) using k(2,5) by (metis dvd_triv_right length_key_iter order_refl take_all)
    ultimately show ?thesis using I(2) f(1) en configD(1,7) [OF I(3)]
      by (intro exI [of _ ?s2] exI [of _ D1] exI [of _ rk1] conjI) (auto simp: op_free)
  next
    case False
    let ?s2 = "rc_free A (drop ?p (take (key_len key) ?row)) s"
    have "take (key_len key) ?kv = take (key_len key) ?row" using k(3) by (simp add: min_def)
    then have "first = Inr ?s2" using False by (simp add: first_def)
    moreover have "pool_slots fs D ?s2 = pool_slots fs D s + mset (drop ?p (take (key_len key) ?row))" "inv (kv_allocator ?s2)"
      using free_spec [OF al, of "drop ?p (take (key_len key) ?row)"] by (simp_all add: pool_slots_def op_free ac_simps)
    ultimately show ?thesis using rinv en False by (intro exI [of _ ?s2] exI [of _ D] exI [of _ rk]) simp
  qed
  then obtain s2 D2 rk2 where s2: "first = Inr s2" "radix_inv D2 rk2 H s2" "inv (kv_allocator s2)" "\<not> disable s2" "root_node s2 = root_node s"
      "pool_slots fs D2 s2 = pool_slots fs D s + mset (drop ?p (take (key_len key) ?row))"
      "ins \<longrightarrow> (\<exists>slots. cached (rc_page_size s) (root_node s) (shape s2) (req_extra_key r) (key_iter key) slots)" by blast
  let ?s3 = "rc_free A (drop (key_len key) ?kv) s2"
  have s3: "radix_inv D2 rk2 H ?s3" "\<not> disable ?s3" "inv (kv_allocator ?s3)" "fs (kv_allocator ?s3) = fs (kv_allocator s2) + mset (drop (key_len key) ?kv)"
    using s2(2,4) free_spec [OF s2(3), of "drop (key_len key) ?kv"] by (simp_all add: op_free)
  obtain delta s4 where s4: "dec_lock_ref a ?s3 = Inr (delta, s4)" "radix_inv D2 rk2 (H - {#a#}) s4" "lock_frame ?s3 s4"
    "tree_slots D2 (shape s4) = tree_slots D2 (shape ?s3)" "\<forall>ek r u v b. walk (shape s4) ek r u v b \<longleftrightarrow> walk (shape ?s3) ek r u v b"
    using dec_lock_flow [OF s3(1) pk(2) s3(2)] by blast
  have "pool_slots fs D2 s4 = pool_slots fs D s + mset (drop ?p ?kv)"
    unfolding mset_slice_split [OF pk(1) k(3)] using s2(6) s4(4) lock_frameD(6) [OF s4(3)] s3(4)
    by (simp add: pool_slots_def add_ac)
  moreover have "cached (rc_page_size s) (root_node s) (shape s4) ek us vs \<longleftrightarrow> cached (rc_page_size s) (root_node s) (shape s2) ek us vs" for ek us vs
    using s4(5) by (simp add: cached_def)
  ultimately show ?thesis using fin s2(1,7) s4(1,2) lock_frameD(6) [OF s4(3)] s3(3) unfolding key_def [symmetric] ins_def
    by (intro exI [of _ s4] exI [of _ D2] exI [of _ rk2]) simp
qed

lemma unfinished_req_ok:
  assumes rinv: "radix_inv D rk H s" and en: "\<not> disable s" and ev: "\<not> enable_kv_cache_events s" and al: "inv (kv_allocator s)"
    and r: "req_pool_idx r = Some i" "last_node r = Some a" and toks: "length (fill_ids r) \<le> length (tab i)"
    and key: "key = req_key s r (fill_ids r)" and lk: "req_locked s H a key (cache_protected_len r) (tab i)"
  shows "\<exists>s' D' rk' new b. radix_cache_unfinished_req A chunked r tab s =
      Inr (r\<lparr>cache_protected_len := key_len key, prefix_indices := new @ drop (key_len key) (take (length (fill_ids r)) (tab i)), last_node := Some b\<rparr>,
           tab(i := new @ drop (key_len key) (tab i)), s') \<and>
    radix_inv D' rk' (add_mset b (H - {#a#})) s' \<and> inv (kv_allocator s') \<and>
    pool_slots fs D' s' = pool_slots fs D s + mset (drop (cache_protected_len r) (take (key_len key) (tab i))) \<and>
    req_locked s' (add_mset b (H - {#a#})) b key (key_len key) (new @ drop (key_len key) (tab i)) \<and>
    take (cache_protected_len r) new = take (cache_protected_len r) (tab i) \<and> length new = key_len key \<and> config s' = config (s\<lparr>kv_allocator := kv_allocator s'\<rparr>)"
proof -
  let ?row = "tab i" and ?p = "cache_protected_len r" and ?kv = "take (length (fill_ids r)) (tab i)" and ?ps = "rc_page_size s" and ?rt = "root_node s"
  have ps: "1 \<le> ?ps" using tree_okD(1) [OF radix_invD(1) [OF rinv]] .
  note k = req_key_facts [OF ps, of r "fill_ids r", folded key]
  have pk: "?p \<le> key_len key" "a \<in># H" using lk by (simp_all add: req_locked_def)
  let ?prio = "Some (case req_priority r of None \<Rightarrow> 0 | Some p \<Rightarrow> p)"
  obtain n s1 D1 rk1 old where I: "insert_cache key (Some (take (key_len key) ?kv)) ?prio chunked s = Inr (n, s1)"
    "radix_inv D1 rk1 H s1" "D \<subseteq> D1" "config s1 = config s" "tree_slots D1 (shape s1) = tree_slots D (shape s) + mset (drop n (take (key_len key) ?row))"
    "cached ?ps ?rt (shape s) (extra_key key) (take n (key_iter key)) old" "none_cached_past s (extra_key key) n (key_iter key)"
    "\<And>ek us vs. cached ?ps ?rt (shape s1) ek us vs \<longleftrightarrow> cached ?ps ?rt (shape s) ek us vs \<or>
     ek = extra_key key \<and> ?ps dvd length us \<and> length us \<le> key_len key \<and> us = take (length us) (key_iter key) \<and>
     vs = take (length us) (old @ drop n (take (key_len key) ?row))"
    using insert_aligned [OF rinv en ev key toks, where prio = ?prio and chunked = chunked] by blast
  note lp = req_locked_prefix [OF rinv lk I(7,6)] and c1 = configD [OF I(4)]
  have nn: "take n ?kv = take n ?row" using lp(2) k(3) by (simp add: min_def)
  define s2 where "s2 = rc_free A (drop ?p (take n ?row)) s1"
  have s2: "shape s2 = shape s1" "rc_page_size s2 = ?ps" "is_eagle s2 = is_eagle s" "root_node s2 = ?rt" "\<not> disable s2"
    "radix_inv D1 rk1 H s2" "kv_allocator s2 = free (kv_allocator s) (drop ?p (take n ?row))"
    using c1 en I(2) by (simp_all add: s2_def op_free)
  have f: "inv (kv_allocator s2)" "fs (kv_allocator s2) = fs (kv_allocator s) + mset (drop ?p (take n ?row))"
    unfolding s2(7) using free_spec [OF al, of "drop ?p (take n ?row)"] by simp_all
  have "is_bigram key \<longrightarrow> is_eagle s2" using k(1) s2(3) by simp
  from match_prefix_ok [OF s2(6,5) this] obtain new b s3 D3 rk3 where M: "match_prefix key s2 = Inr (new, b, s3)" "radix_inv D3 rk3 H s3" "D1 \<subseteq> D3"
    "same_cache s2 s3" "tree_slots D3 (shape s3) = tree_slots D1 (shape s1)"
    "cached ?ps ?rt (shape s1) (extra_key key) (take (length new) (key_iter key)) new" "none_cached_past s2 (extra_key key) (length new) (key_iter key)"
    "walk (shape s3) (extra_key key) ?rt (take (length new) (key_iter key)) new b"
    unfolding Let_def s2(1-4) k(4) by blast
  have all: "cached ?ps ?rt (shape s1) (extra_key key) (key_iter key) (old @ drop n (take (key_len key) ?row))"
    unfolding I(8) using lp(2,4) dvd_triv_right [of ?ps "key_len key div ?ps", unfolded k(5)] k(3) toks by (intro disjI2) auto
  have "length new \<le> key_len key" using M(7) by (simp add: none_cached_past_def)
  moreover have "\<not> length new < key_len key" using M(7) all unfolding none_cached_past_def s2(1,2,4) by (metis length_key_iter order_refl take_all)
  ultimately have ln: "length new = key_len key" by simp
  have t1: "tree_ok ?ps (is_eagle s) ?rt (shape s1) D1 rk1" using radix_invD(1) [OF I(2)] c1 by simp
  have new: "new = old @ drop n (take (key_len key) ?row)"
    using cached_unique [OF M(6) _ t1] all ln by simp
  have tp: "take ?p new = take ?p ?row" unfolding new using lp by simp
  have row: "row_assign ?row ?p (length new) (drop ?p new) = Inr (new @ drop (key_len key) ?row)"
  proof -
    have "key_len key \<le> length ?row" using k(3) toks by simp
    then show ?thesis using pk(1) ln tp by (simp add: row_assign_def Let_def min_def max_def) (metis append_assoc append_take_drop_id)
  qed
  have c3: "config s3 = config s2" using M(4) by (simp add: same_cache_def)
  have d3: "\<not> disable s3" using s2(5) configD(1) [OF c3] by simp
  obtain e4 s4 where s4: "dec_lock_ref a s3 = Inr (e4, s4)" "radix_inv D3 rk3 (H - {#a#}) s4" "lock_frame s3 s4"
    "tree_slots D3 (shape s4) = tree_slots D3 (shape s3)" "\<forall>ek r u v b. walk (shape s4) ek r u v b \<longleftrightarrow> walk (shape s3) ek r u v b"
    using dec_lock_flow [OF M(2) pk(2) d3] by blast
  have b: "b \<in> D3" using walk_facts(1) [OF M(8), of "rc_page_size s3" "is_eagle s3" "root_node s3"] radix_invD(1) [OF M(2)] tree_okD(3) [OF radix_invD(1) [OF M(2)]]
      configD(7) [OF c3] s2(4) by metis
  have d4: "\<not> disable s4" using d3 lock_frameD(5) [OF s4(3)] by simp
  obtain e5 s5 where s5: "inc_lock_ref b s4 = Inr (e5, s5)" "radix_inv D3 rk3 (add_mset b (H - {#a#})) s5" "lock_frame s4 s5"
    "tree_slots D3 (shape s5) = tree_slots D3 (shape s4)" "\<forall>ek r u v c. walk (shape s5) ek r u v c \<longleftrightarrow> walk (shape s4) ek r u v c"
    using inc_lock_flow [OF s4(2) b d4] by blast
  have al5: "kv_allocator s5 = kv_allocator s2" "root_node s5 = ?rt"
    using lock_frameD(3,6) [OF s5(3)] lock_frameD(3,6) [OF s4(3)] configD(7,8) [OF c3] s2(4) by simp_all
  have pi: "(if length new < length ?kv then new @ drop (length new) ?kv else new) = new @ drop (key_len key) ?kv" using ln by (auto simp: min_def)
  have "radix_cache_unfinished_req A chunked r tab s =
      Inr (r\<lparr>cache_protected_len := key_len key, prefix_indices := new @ drop (key_len key) ?kv, last_node := Some b\<rparr>,
           tab(i := new @ drop (key_len key) ?row), s5)"
    unfolding radix_cache_unfinished_req_def Let_def req_key_def [symmetric] key [symmetric] the_row_def r py_bind_simps option.case I(1) prod.case nn
      s2_def [symmetric] M(1) py_assert_def row attr_def s4(1) s5(1) pi
    using en ln by simp
  moreover have "pool_slots fs D3 s5 = pool_slots fs D s + mset (drop ?p (take (key_len key) ?row))"
    unfolding pool_slots_def al5 f(2) s5(4) s4(4) M(5) I(5) mset_slice_split [OF lp(1,2)] by (simp add: ac_simps)
  moreover have "req_locked s5 (add_mset b (H - {#a#})) b key (key_len key) (new @ drop (key_len key) ?row)"
    using s5(5) s4(5) M(8) al5(2) ln by (simp add: req_locked_def)
  moreover have "config s5 = config (s\<lparr>kv_allocator := kv_allocator s5\<rparr>)"
  proof -
    have "config s5 = config s2" using lock_frame_config [OF s5(3)] lock_frame_config [OF s4(3)] c3 by simp
    then show ?thesis using I(4) al5(1) by (simp add: s2_def rc_free_def config_def)
  qed
  ultimately show ?thesis using s5(2) f(1) al5(1) tp ln
    by (intro exI [of _ s5] exI [of _ D3] exI [of _ rk3] exI [of _ new] exI [of _ b]) simp
qed

end

section \<open>The token allocator behind the radix cache\<close>

text \<open>
  The operations of \<open>TokenToKVPoolAllocator\<close> (page size 1): \<open>alloc_extend\<close> and \<open>alloc_decode\<close> are those of the base
  class, which only paged allocators override.
\<close>

definition token_ops :: "kv_alloc alloc_ops" where
  "token_ops = \<lparr>op_available = token_available_size, op_alloc = token_alloc,
     op_alloc_extend = (\<lambda>_ _ _ _ _. Inl NotImplementedError), op_alloc_decode = (\<lambda>_ _ _. Inl NotImplementedError),
     op_free = token_free, op_page_size = 1\<rparr>"

interpretation token_pool: slot_pool token_alloc token_free token_inv token_slots token_ops
  by unfold_locales (auto simp: token_ops_def token_available_size_def token_slots_def token_inv_def)

text \<open>
  C11. Allocation never fails while slots can be had: \<open>alloc_token_slots\<close> on a radix cache over the token allocator returns
  \<open>n\<close> slots whenever \<open>n\<close> is at most the free slots plus the evictable size, evicting what it must, and raises
  \<open>RuntimeError\<close> exactly when \<open>n\<close> is more than that. No slot is lost or handed out twice: free slots, tree slots and the slots
  returned together are the free and tree slots of before. The prefixes that requests have locked stay cached.
\<close>

theorem alloc_token_slots_succeeds:
  assumes "radix_inv D rk H s" "\<not> disable s" "\<not> enable_kv_cache_events s" "token_inv (kv_allocator s)" "0 \<le> n"
  shows "if n \<le> token_available_size (kv_allocator s) + evictable_size s
    then \<exists>locs bak s' D'. alloc_token_slots token_ops (RadixTree s) n = Inr (locs, bak, RadixTree s') \<and> int (length locs) = n \<and>
      radix_inv D' rk H s' \<and> token_inv (kv_allocator s') \<and> pool_slots token_slots D s = pool_slots token_slots D' s' + mset locs \<and>
      (\<forall>a ek u v. a \<in># H \<longrightarrow> walk (shape s) ek (root_node s) u v a \<longrightarrow> walk (shape s') ek (root_node s') u v a)
    else alloc_token_slots token_ops (RadixTree s) n = Inl RuntimeError"
proof -
  have "token_available_size (kv_allocator s) = int (size (token_slots (kv_allocator s)))"
    using token_pool.op_available [OF assms(4)] by (simp add: token_ops_def)
  then show ?thesis using token_pool.alloc_token_slots_ok [OF assms] by simp
qed

text \<open>
  C12. A finished request leaves no slot behind. When a request whose first \<open>cache_protected_len\<close> slots are those of its
  locked prefix finishes, \<open>cache_finished_req\<close> returns, releases its lock, and every slot of its row past the protected
  part is then either free or in the tree, once, while no other slot changes hands. With insertion, the whole key of the
  request (in whole pages) is cached afterwards.
\<close>

theorem finished_req_conserves_slots:
  assumes "radix_inv D rk H s" "\<not> disable s" "\<not> enable_kv_cache_events s" "token_inv (kv_allocator s)"
    "\<not> kv_committed_freed r" "req_pool_idx r = Some i" "last_node r = Some a"
    "toks = py_upto (origin_ids r @ output_ids r) (cache_commit_len strip r)" "length toks \<le> length (tab i)"
    "req_locked s H a (req_key s r toks) (cache_protected_len r) (tab i)"
  shows "\<exists>s' D' rk'. radix_cache_finished_req token_ops strip tab is_insert r s = Inr (r\<lparr>kv_committed_freed := True\<rparr>, s') \<and>
    radix_inv D' rk' (H - {#a#}) s' \<and> token_inv (kv_allocator s') \<and>
    pool_slots token_slots D' s' = pool_slots token_slots D s + mset (drop (cache_protected_len r) (take (length toks) (tab i))) \<and>
    (is_insert \<and> \<not> disable_finished_insert s \<longrightarrow>
      (\<exists>slots. cached (rc_page_size s) (root_node s) (shape s') (req_extra_key r) (key_iter (req_key s r toks)) slots))"
  by (rule token_pool.finished_req_ok [where tab = tab, OF assms])

text \<open>
  C13. Caching a request that goes on. \<open>cache_unfinished_req\<close> returns (its assertion that the inserted key is found again in full
  never fails): the row then starts with the tree's slots for the whole key, the request's protected length and locked node
  move to the end of the key, its old protected slots stay what they were, and every slot between the old and the new
  protected length is free or in the tree, once.
\<close>

theorem unfinished_req_moves_lock:
  assumes "radix_inv D rk H s" "\<not> disable s" "\<not> enable_kv_cache_events s" "token_inv (kv_allocator s)"
    "req_pool_idx r = Some i" "last_node r = Some a" "length (fill_ids r) \<le> length (tab i)"
    "key = req_key s r (fill_ids r)" "req_locked s H a key (cache_protected_len r) (tab i)"
  shows "\<exists>s' D' rk' new b. radix_cache_unfinished_req token_ops chunked r tab s =
      Inr (r\<lparr>cache_protected_len := key_len key, prefix_indices := new @ drop (key_len key) (take (length (fill_ids r)) (tab i)), last_node := Some b\<rparr>,
           tab(i := new @ drop (key_len key) (tab i)), s') \<and>
    radix_inv D' rk' (add_mset b (H - {#a#})) s' \<and> token_inv (kv_allocator s') \<and>
    pool_slots token_slots D' s' = pool_slots token_slots D s + mset (drop (cache_protected_len r) (take (key_len key) (tab i))) \<and>
    req_locked s' (add_mset b (H - {#a#})) b key (key_len key) (new @ drop (key_len key) (tab i)) \<and>
    take (cache_protected_len r) new = take (cache_protected_len r) (tab i) \<and> length new = key_len key"
  using token_pool.unfinished_req_ok [where tab = tab and chunked = chunked, OF assms] by blast

section \<open>Witnesses\<close>

text \<open>The example cache over an allocator of ten slots, with a request that has the tree's three tokens and two more.\<close>

definition demo_pool :: "kv_alloc radix_cache" where
  "demo_pool = (radix_init 1 False LRU ((token_init 10 False)\<lparr>free_pages := [7, 8, 9, 10]\<rparr>))
     \<lparr>nodes := (\<lambda>a. if a = 0 then Some \<lparr>children = [((None, [Tok 7]), 1)], parent = None,
           node_key = \<lparr>token_ids = [], extra_key = None, is_bigram = False\<rparr>, node_value = Some [], lock_ref = 1,
           last_access_time = 0, creation_time = 0, hit_count = 0, host_ref_counter = 0, host_value = Some [], hash_value = Some [],
           priority = - MAXSIZE, node_id = 0\<rparr>
         else if a = 1 then Some \<lparr>children = [], parent = Some 0,
           node_key = \<lparr>token_ids = [7, 8, 9], extra_key = None, is_bigram = False\<rparr>, node_value = Some [4, 5, 6], lock_ref = 1,
           last_access_time = 1, creation_time = 1, hit_count = 0, host_ref_counter = 0, host_value = None, hash_value = None,
           priority = 0, node_id = 1\<rparr>
         else None),
       counter := 2, evictable_size := 0, protected_size := 3, evictable_leaves := []\<rparr>"

definition demo_req :: cache_req where
  "demo_req = \<lparr>req_pool_idx = Some 0, is_chunked = 0, committed_len = 5, origin_ids = [7, 8, 9, 1, 2], output_ids = [], fill_ids = [7, 8, 9, 1, 2],
     req_extra_key = None, req_priority = None, cache_protected_len = 3, last_node = Some 1, prefix_indices = [4, 5, 6], kv_allocated_len = 5,
     kv_committed_freed = False, kv_overallocated_freed = False, reasoning_tokens = 0, skip_radix_cache_insert = False\<rparr>"

lemma demo_pool_fields [simp]:
  "rc_page_size demo_pool = 1" "is_eagle demo_pool = False" "root_node demo_pool = 0" "disable demo_pool = False"
  "counter demo_pool = 2" "evictable_size demo_pool = 0" "protected_size demo_pool = 3" "evictable_leaves demo_pool = []"
  "enable_kv_cache_events demo_pool = False" "kv_allocator demo_pool = (token_init 10 False)\<lparr>free_pages := [7, 8, 9, 10]\<rparr>"
  by (simp_all add: demo_pool_def radix_init_def reset_def TreeNode_def read_clock_def record_all_cleared_event_def upd_node_def)

lemma demo_pool_shape:
  "shape demo_pool = (\<lambda>a. if a = 0 then Some \<lparr>c_children = [((None, [Tok 7]), 1)], c_parent = None,
      c_key = \<lparr>token_ids = [], extra_key = None, is_bigram = False\<rparr>, c_value = Some [], c_lock = 1\<rparr>
    else if a = 1 then Some \<lparr>c_children = [], c_parent = Some 0, c_key = \<lparr>token_ids = [7, 8, 9], extra_key = None, is_bigram = False\<rparr>,
      c_value = Some [4, 5, 6], c_lock = 1\<rparr> else None)"
  by (simp add: demo_pool_def shape_def cell_of_def fun_eq_iff)

lemma demo_pool_inv: "radix_inv {0, 1} id {#1#} demo_pool" "token_inv (kv_allocator demo_pool)"
proof -
  show "token_inv (kv_allocator demo_pool)" by (simp add: token_inv_def token_init_def token_clear_def)
  have "up (shape demo_pool) 1 1" by (rule up_refl)
  then show "radix_inv {0, 1} id {#1#} demo_pool"
    by (simp add: radix_inv_def demo_pool_shape tree_ok_def acct_def locks_ok_def dict_key_def key_iter_def key_len_def insert_Diff_if
        insert_commute)
qed

lemma demo_req_locked: "req_locked demo_pool {#1#} 1 (req_key demo_pool demo_req [7, 8, 9, 1, 2]) 3 [4, 5, 6, 2, 3]"
proof -
  have "walk (shape demo_pool) None 0 ([Tok 7, Tok 8, Tok 9] @ []) ([4, 5, 6] @ []) 1"
    using walk_cons [of "shape demo_pool" 0 "cells (shape demo_pool) 0" "(None, [Tok 7])" 1 "cells (shape demo_pool) 1" None "[4, 5, 6]" "[]" "[]" 1,
        OF _ _ _ _ _ walk_nil]
    by (simp add: demo_pool_shape key_iter_def)
  then show ?thesis
    by (simp add: req_locked_def req_key_def page_aligned_def key_iter_def key_len_def demo_req_def numeral_eq_Suc)
qed

theorem alloc_token_slots_succeeds_witness:
  "radix_inv {0, 1} id {#1#} demo_pool \<and>
   (\<exists>locs bak s'. alloc_token_slots token_ops (RadixTree demo_pool) 4 = Inr (locs, bak, RadixTree s') \<and> length locs = 4) \<and>
   alloc_token_slots token_ops (RadixTree demo_pool) 5 = Inl RuntimeError"
proof -
  have d: "\<not> disable demo_pool" "\<not> enable_kv_cache_events demo_pool" by simp_all
  have av: "token_available_size (kv_allocator demo_pool) = 4" by (simp add: token_available_size_def token_init_def token_clear_def)
  from alloc_token_slots_succeeds [OF demo_pool_inv(1) d demo_pool_inv(2), of 4]
  have "\<exists>locs bak s'. alloc_token_slots token_ops (RadixTree demo_pool) 4 = Inr (locs, bak, RadixTree s') \<and> length locs = 4"
    unfolding av by force
  moreover from alloc_token_slots_succeeds [OF demo_pool_inv(1) d demo_pool_inv(2), of 5]
  have "alloc_token_slots token_ops (RadixTree demo_pool) 5 = Inl RuntimeError" unfolding av by simp
  ultimately show ?thesis using demo_pool_inv(1) by blast
qed

theorem finished_req_conserves_slots_witness:
  "req_locked demo_pool {#1#} 1 (req_key demo_pool demo_req [7, 8, 9, 1, 2]) 3 [4, 5, 6, 2, 3] \<and>
   (\<exists>s' D'. radix_cache_finished_req token_ops False (\<lambda>_. [4, 5, 6, 2, 3]) True demo_req demo_pool =
        Inr (demo_req\<lparr>kv_committed_freed := True\<rparr>, s') \<and>
      pool_slots token_slots D' s' = pool_slots token_slots {0, 1} demo_pool + {#2, 3#})"
proof -
  have d: "\<not> disable demo_pool" "\<not> enable_kv_cache_events demo_pool" by simp_all
  have r: "\<not> kv_committed_freed demo_req" "req_pool_idx demo_req = Some 0" "last_node demo_req = Some 1" by (simp_all add: demo_req_def)
  have t: "[7, 8, 9, 1, 2] = py_upto (origin_ids demo_req @ output_ids demo_req) (cache_commit_len False demo_req)"
    by (simp add: demo_req_def cache_commit_len_def py_upto_def py_bound_def)
  have l: "length [7, 8, 9, 1, 2 :: int] \<le> length ((\<lambda>_. [4, 5, 6, 2, 3]) (0 :: int) :: int list)" by simp
  have lk: "req_locked demo_pool {#1#} 1 (req_key demo_pool demo_req [7, 8, 9, 1, 2]) (cache_protected_len demo_req) ((\<lambda>_. [4, 5, 6, 2, 3]) (0 :: int))"
    using demo_req_locked by (simp add: demo_req_def)
  have s: "mset (drop (cache_protected_len demo_req) (take (length [7, 8, 9, 1, 2 :: int]) [4, 5, 6, 2, 3 :: int])) = {#2, 3#}"
    by (simp add: demo_req_def numeral_eq_Suc)
  from finished_req_conserves_slots [where tab = "\<lambda>_. [4, 5, 6, 2, 3]" and is_insert = True, OF demo_pool_inv(1) d demo_pool_inv(2) r t l lk]
  show ?thesis using demo_req_locked unfolding s by blast
qed

theorem unfinished_req_moves_lock_witness:
  "req_locked demo_pool {#1#} 1 (req_key demo_pool demo_req [7, 8, 9, 1, 2]) 3 [4, 5, 6, 2, 3] \<and>
   (\<exists>r' tab' s'. radix_cache_unfinished_req token_ops True demo_req (\<lambda>_. [4, 5, 6, 2, 3]) demo_pool = Inr (r', tab', s') \<and> cache_protected_len r' = 5)"
proof -
  let ?key = "req_key demo_pool demo_req (fill_ids demo_req)"
  have d: "\<not> disable demo_pool" "\<not> enable_kv_cache_events demo_pool" by simp_all
  have r: "req_pool_idx demo_req = Some 0" "last_node demo_req = Some 1" by (simp_all add: demo_req_def)
  have l: "length (fill_ids demo_req) \<le> length ((\<lambda>_. [4, 5, 6, 2, 3]) (0 :: int) :: int list)" by (simp add: demo_req_def)
  have k: "?key = req_key demo_pool demo_req [7, 8, 9, 1, 2]" "cache_protected_len demo_req = 3" by (simp_all add: demo_req_def)
  have lk: "req_locked demo_pool {#1#} 1 ?key (cache_protected_len demo_req) ((\<lambda>_. [4, 5, 6, 2, 3]) (0 :: int))"
    using demo_req_locked unfolding k .
  have "key_len ?key = 5" by (simp add: demo_req_def req_key_def page_aligned_def key_len_def)
  with unfinished_req_moves_lock [where tab = "\<lambda>_. [4, 5, 6, 2, 3]" and chunked = True, OF demo_pool_inv(1) d demo_pool_inv(2) r l refl lk]
  show ?thesis using demo_req_locked by (elim exE conjE) (intro conjI exI, assumption+, simp)
qed

end
