(* ===== verification/Radix_Subtrees.thy ===== *)
theory Radix_Subtrees
  imports Radix_Evict
begin

text \<open>
  Subtrees of the radix tree: the children of a node, the nodes below it, sums over them, and the fuel that a recursion
  over the tree needs.
\<close>

section \<open>Subtrees\<close>

definition kids :: "heap \<Rightarrow> nat \<Rightarrow> nat list" where
  "kids h a = map snd (c_children (cells h a))"

definition subtree :: "heap \<Rightarrow> nat set \<Rightarrow> nat \<Rightarrow> nat set" where
  "subtree h D a = {b \<in> D. up h b a}"

lemma kids_facts:
  assumes t: "tree_ok ps eagle root h D rk" and a: "a \<in> D" and c: "c \<in> set (kids h a)"
  shows "c \<in> D" "c \<noteq> root" "rk a < rk c" "h c = Some (cells h c)" "c_parent (cells h c) = Some a"
proof -
  obtain k where k: "(k, c) \<in> set (c_children (cells h a))" using c by (auto simp: kids_def)
  note f = tree_okD(8) [OF t a k]
  then show "c \<in> D" "c \<noteq> root" "c_parent (cells h c) = Some a" by simp_all
  then show "rk a < rk c" using tree_okD(9) [OF t, of c] by auto
  show "h c = Some (cells h c)" using tree_okD(4) [OF t, of c] f by auto
qed

lemma kids_distinct: "tree_ok ps eagle root h D rk \<Longrightarrow> a \<in> D \<Longrightarrow> distinct (kids h a)"
proof -
  assume t: "tree_ok ps eagle root h D rk" and a: "a \<in> D"
  have "fst z = dict_key ps (c_key (cells h (snd z)))" if "z \<in> set (c_children (cells h a))" for z
    using tree_okD(8) [OF t a, of "fst z" "snd z"] that by simp
  then have "inj_on snd (set (c_children (cells h a)))" by (intro inj_onI) (metis prod.expand)
  then show ?thesis using tree_okD(7) [OF t a] by (simp add: kids_def distinct_map)
qed

lemma no_loop_up:
  assumes "tree_ok ps eagle root h D rk" "a \<in> D" "c \<in> set (kids h a)"
  shows "\<not> up h a c"
  using up_in_tree [OF _ assms(1,2), of c] kids_facts(3) [OF assms] by auto

lemma subtree_member:
  assumes t: "tree_ok ps eagle root h D rk" and a: "a \<in> D" and u: "up h b a" and b: "b \<in> D"
  shows "b = a \<or> (\<exists>c \<in> set (kids h a). up h b c)"
  using u b a
proof induction
  case (up_step b cb p a)
  have br: "b \<noteq> root" using up_step.hyps tree_okD(5) [OF t] by auto
  have p: "p \<in> D" using parent_in_tree [OF t up_step.prems(1) up_step.hyps(1,2)] .
  have k: "b \<in> set (kids h p)" using tree_okD(9) [OF t up_step.prems(1) br] up_step.hyps(1,2) by (force simp: kids_def)
  from up_step.IH [OF p up_step.prems(2)] show ?case
  proof
    assume "p = a"
    then show ?thesis using k up_refl by blast
  next
    assume "\<exists>c \<in> set (kids h a). up h p c"
    then show ?thesis using up.up_step [of h b cb p] up_step.hyps(1,2) by blast
  qed
qed simp

lemma subtree_disjoint:
  assumes t: "tree_ok ps eagle root h D rk" and a: "a \<in> D" and c: "c \<in> set (kids h a)" "c' \<in> set (kids h a)"
    and u: "up h b c" "up h b c'"
  shows "c = c'"
proof -
  have step: "up h a y" if "up h x y" "x \<noteq> y" "x \<in> set (kids h a)" for x y
    using that(1) kids_facts(4,5) [OF t a that(3)] that(2) up_unfold [of h x y] by auto
  show ?thesis using u(1) u(2) c(1)
  proof induction
    case (up_refl c)
    then show ?case using step [of c c'] no_loop_up [OF t a c(2)] by blast
  next
    case (up_step b cb p c)
    show ?case
    proof (cases "b = c'")
      case True
      then have "p = a" using kids_facts(4,5) [OF t a c(2)] up_step.hyps(1,2) by simp
      then show ?thesis using up_step.hyps(3) no_loop_up [OF t a up_step.prems(2)] by blast
    next
      case False
      then have "up h p c'" using up_step.prems(1) up_step.hyps(1,2) up_unfold [of h b c'] by auto
      then show ?thesis using up_step.IH up_step.prems(2) by blast
    qed
  qed
qed

lemma subtree_unfold:
  assumes t: "tree_ok ps eagle root h D rk" and a: "a \<in> D"
  shows "subtree h D a = insert a (\<Union>c \<in> set (kids h a). subtree h D c)" "a \<notin> (\<Union>c \<in> set (kids h a). subtree h D c)"
proof -
  have "up h b a" if "c \<in> set (kids h a)" "up h b c" for b c
    using up_trans [OF that(2), of a] up.up_step [of h c "cells h c" a a] kids_facts(4,5) [OF t a that(1)] up_refl by blast
  then show "subtree h D a = insert a (\<Union>c \<in> set (kids h a). subtree h D c)"
    using subtree_member [OF t a] a up_refl by (fastforce simp: subtree_def)
  show "a \<notin> (\<Union>c \<in> set (kids h a). subtree h D c)" using no_loop_up [OF t a] by (auto simp: subtree_def)
qed

lemma sum_subtree:
  assumes t: "tree_ok ps eagle root h D rk" and a: "a \<in> D"
  shows "sum f (subtree h D a) = f a + sum_list (map (\<lambda>c. sum f (subtree h D c)) (kids h a))"
proof -
  have fin: "finite (subtree h D c)" for c using tree_okD(2) [OF t] by (simp add: subtree_def)
  have "sum f (\<Union>c \<in> set (kids h a). subtree h D c) = (\<Sum>c \<in> set (kids h a). sum f (subtree h D c))"
    by (rule sum.UNION_disjoint) (use fin subtree_disjoint [OF t a] in \<open>auto simp: subtree_def\<close>)
  then show ?thesis using subtree_unfold [OF t a] fin kids_distinct [OF t a] by (simp add: sum_list_distinct_conv_sum_set)
qed

lemma whole_tree:
  assumes t: "tree_ok ps eagle root h D rk"
  shows "subtree h D root = D"
proof -
  have "up h a root" if "a \<in> D" for a
    using that
  proof (induction "rk a" arbitrary: a rule: less_induct)
    case less
    show ?case
    proof (cases "a = root")
      case True
      then show ?thesis by (simp add: up_refl)
    next
      case False
      obtain c where c: "h a = Some c" using tree_okD(4) [OF t less.prems] by auto
      obtain p where "p \<in> D" "c_parent c = Some p" "rk p < rk a" using tree_okD(9) [OF t less.prems False] c by auto
      then show ?thesis using less.hyps up.up_step [of h a c] c by blast
    qed
  qed
  then show ?thesis by (auto simp: subtree_def)
qed

text \<open>The fuel that a recursion from a node needs: the nodes that rank above it.\<close>

lemma rank_above:
  assumes t: "tree_ok ps eagle root h D rk" and a: "a \<in> D" and c: "c \<in> set (kids h a)" and f: "card {b \<in> D. rk a < rk b} < Suc f"
  shows "card {b \<in> D. rk c < rk b} < f"
proof -
  have "{b \<in> D. rk c < rk b} \<subset> {b \<in> D. rk a < rk b}" using kids_facts(1,3) [OF t a c] by auto
  then have "card {b \<in> D. rk c < rk b} < card {b \<in> D. rk a < rk b}" using tree_okD(2) [OF t] by (intro psubset_card_mono) auto
  then show ?thesis using f by linarith
qed

end
