(* ===== verification/Schedule_Policy.thy ===== *)
theory Schedule_Policy
  imports Complex_Main Radix_Subtrees Cache_Reqs
    "HOL-Library.Product_Lexorder" "HOL-Library.List_Lexorder" "HOL-Library.Char_ord"
begin

text \<open>
  The order of the waiting queue: \<open>SchedulePolicy\<close> of \<open>srt/managers/schedule_policy.py\<close>. Requests are objects that the
  policy updates in place; here the queue is a list of records, and the updated records are in the returned queue.
  Requests are told apart by \<open>rid\<close>. \<open>list.sort\<close> is a stable sort. Times are rationals, \<open>random.shuffle\<close> and the values
  of environment variables are parameters.
\<close>

section \<open>Requests and policies\<close>

record sched_req = cache_req +
  rid :: string
  max_new_tokens :: int
  ignore_eos :: bool
  wait_queue_entry_time :: rat
  routing_key :: "string option"
  last_host_node :: "nat option"
  host_hit_length :: int
  extend_input_len :: int
  logprob_start_len :: int
  extend_logprob_start_len :: int
  return_logprob :: bool
  is_finished :: bool

datatype cache_aware_policy = LPM | DFS_WEIGHT

datatype cache_agnostic_policy = FCFS | LOF | RANDOM | ROUTING_KEY

datatype policy = Aware cache_aware_policy | Agnostic cache_agnostic_policy

text \<open>
  \<open>IN_BATCH_PREFIX_CACHING_CHECK_THRESHOLD\<close>, \<open>IN_BATCH_PREFIX_CACHING_DEPRIORITIZE_THRESHOLD\<close> (both 32 unless the
  environment says otherwise) and the shuffle.
\<close>

record sched_env =
  check_threshold :: int
  deprioritize_threshold :: int
  shuffle :: "sched_req list \<Rightarrow> sched_req list"

record sched_policy =
  policy_of :: policy
  enable_hierarchical_cache :: bool
  enable_priority_scheduling :: bool
  schedule_low_priority_values_first :: bool
  priority_sign :: int
  waiting_queue_radix_tree :: "unit radix_cache"

definition pc_disable :: "'al prefix_cache \<Rightarrow> bool" where
  "pc_disable tc = (case tc of RadixTree s \<Rightarrow> disable s | ChunkCache _ \<Rightarrow> True)"

definition validate_and_adjust_policy :: "string \<Rightarrow> 'al prefix_cache \<Rightarrow> policy py" where
  "validate_and_adjust_policy name tc =
     (case (if name = ''lpm'' then Some LPM else if name = ''dfs-weight'' then Some DFS_WEIGHT else None) of
        Some p \<Rightarrow> Inr (if pc_disable tc then Agnostic FCFS else Aware p)
      | None \<Rightarrow>
          if name = ''fcfs'' then Inr (Agnostic FCFS) else if name = ''lof'' then Inr (Agnostic LOF)
          else if name = ''random'' then Inr (Agnostic RANDOM)
          else if name = ''routing-key'' then Inr (Agnostic ROUTING_KEY)
          else Inl ValueError)"

definition sched_policy_init ::
  "string \<Rightarrow> 'al prefix_cache \<Rightarrow> bool \<Rightarrow> bool \<Rightarrow> bool \<Rightarrow> unit radix_cache \<Rightarrow> sched_policy py" where
  "sched_policy_init name tc hier prio low simulated =
     py_bind (validate_and_adjust_policy name tc) (\<lambda>p.
     Inr \<lparr>policy_of = p, enable_hierarchical_cache = hier, enable_priority_scheduling = prio,
          schedule_low_priority_values_first = low, priority_sign = (if low then 1 else -1),
          waiting_queue_radix_tree = simulated\<rparr>)"

definition determine_active_policy :: "sched_policy \<Rightarrow> sched_req list \<Rightarrow> policy" where
  "determine_active_policy sp q = (if policy_of sp = Aware LPM \<and> length q > 128 then Agnostic FCFS else policy_of sp)"

section \<open>Matching prefixes\<close>

definition req_ids :: "sched_req \<Rightarrow> int list" where
  "req_ids r = origin_ids r @ output_ids r"

definition match_prefix_for_req ::
  "'al prefix_cache \<Rightarrow> sched_req \<Rightarrow> int list option \<Rightarrow> (sched_req \<times> 'al prefix_cache) py" where
  "match_prefix_for_req tc r token_ids0 =
     (let toks = (case token_ids0 of None \<Rightarrow> req_ids r | Some t \<Rightarrow> t)
      in case tc of
           RadixTree s \<Rightarrow>
             py_bind (match_prefix \<lparr>token_ids = toks, extra_key = req_extra_key r, is_bigram = False\<rparr> s) (\<lambda>(idx, node, s').
             Inr (r\<lparr>prefix_indices := idx, last_node := Some node, last_host_node := Some node, host_hit_length := 0\<rparr>, RadixTree s'))
         | ChunkCache al \<Rightarrow>
             Inr (r\<lparr>prefix_indices := [], last_node := None, last_host_node := None, host_hit_length := 0\<rparr>, tc))"

text \<open>
  One round of the loop of \<open>_compute_prefix_matches\<close>: the requests done, the ids put back, the tree of the waiting queue
  and the cache. What is inserted into the tree of the waiting queue is uninitialised and never read; only its length matters.
\<close>

definition prefix_match_step ::
  "sched_env \<Rightarrow> sched_req \<Rightarrow> sched_req list \<times> string list \<times> unit radix_cache \<times> 'al prefix_cache \<Rightarrow>
     (sched_req list \<times> string list \<times> unit radix_cache \<times> 'al prefix_cache) py" where
  "prefix_match_step E r S = (case S of (matched, deprio, wt, tc) \<Rightarrow>
     let ids = req_ids r; key = \<lparr>token_ids = ids, extra_key = req_extra_key r, is_bigram = False\<rparr>
     in py_bind (match_prefix_for_req tc r (Some ids)) (\<lambda>(r1, tc1).
        if int (length (prefix_indices r1)) \<le> check_threshold E
        then py_bind (match_prefix key wt) (\<lambda>(in_batch, _, wt1).
             if int (length in_batch) \<ge> deprioritize_threshold E
             then Inr (matched @ [r1], deprio @ [rid r1], wt1, tc1)
             else py_bind (insert_cache key (Some (replicate (length ids) 0)) (Some 0) False wt1) (\<lambda>(_, wt2).
                  Inr (matched @ [r1], deprio, wt2, tc1)))
        else Inr (matched @ [r1], deprio, wt, tc1)))"

definition compute_prefix_matches ::
  "sched_env \<Rightarrow> sched_policy \<Rightarrow> sched_req list \<Rightarrow> 'al prefix_cache \<Rightarrow>
     (string list \<times> sched_req list \<times> sched_policy \<times> 'al prefix_cache) py" where
  "compute_prefix_matches E sp q tc =
     py_bind (py_for (prefix_match_step E) q ([], [], reset (waiting_queue_radix_tree sp), tc)) (\<lambda>(q1, deprio, wt, tc1).
     Inr (deprio, q1, sp\<lparr>waiting_queue_radix_tree := wt\<rparr>, tc1))"

section \<open>Sorting\<close>

text \<open>Sort keys that are an integer or \<open>float("inf")\<close>.\<close>

datatype fkey = IntKey int | FloatInf

instantiation fkey :: linorder
begin

definition less_eq_fkey :: "fkey \<Rightarrow> fkey \<Rightarrow> bool" where
  "less_eq_fkey x y = (case (x, y) of (_, FloatInf) \<Rightarrow> True | (FloatInf, IntKey _) \<Rightarrow> False | (IntKey a, IntKey b) \<Rightarrow> a \<le> b)"

definition less_fkey :: "fkey \<Rightarrow> fkey \<Rightarrow> bool" where
  "less_fkey x y \<longleftrightarrow> x \<le> y \<and> \<not> y \<le> (x :: fkey)"

instance
  by standard (auto simp: less_eq_fkey_def less_fkey_def split: fkey.splits)

end

text \<open>\<open>list.sort(key=...)\<close>: the keys are computed first, in order, and may raise.\<close>

definition py_sort :: "('x \<Rightarrow> 'k :: linorder py) \<Rightarrow> 'x list \<Rightarrow> 'x list py" where
  "py_sort key xs =
     py_bind (py_for (\<lambda>x ps. py_bind (key x) (\<lambda>k. Inr (ps @ [(k, x)]))) xs []) (\<lambda>ps. Inr (map snd (sort_key fst ps)))"

definition lpm_key :: "string list \<Rightarrow> sched_req \<Rightarrow> fkey" where
  "lpm_key deprio r = (if rid r \<notin> set deprio then IntKey (- int (length (prefix_indices r))) else FloatInf)"

definition sort_by_longest_prefix :: "sched_req list \<Rightarrow> string list \<Rightarrow> sched_req list" where
  "sort_by_longest_prefix q deprio = sort_key (lpm_key deprio) q"

text \<open>\<open>x.priority * priority_sign\<close>\<close>

definition signed_priority :: "int \<Rightarrow> sched_req \<Rightarrow> int py" where
  "signed_priority sign r = (case req_priority r of None \<Rightarrow> Inl TypeError | Some p \<Rightarrow> Inr (p * sign))"

definition sort_by_longest_output :: "sched_req list \<Rightarrow> bool \<Rightarrow> int \<Rightarrow> sched_req list py" where
  "sort_by_longest_output q prio sign =
     (if prio then py_sort (\<lambda>r. py_bind (signed_priority sign r) (\<lambda>p. Inr (p, - max_new_tokens r))) q
      else Inr (sort_key (\<lambda>r. - max_new_tokens r) q))"

definition sort_by_priority_and_fcfs :: "sched_req list \<Rightarrow> int \<Rightarrow> sched_req list py" where
  "sort_by_priority_and_fcfs q sign =
     py_sort (\<lambda>r. py_bind (signed_priority sign r) (\<lambda>p. Inr (p, wait_queue_entry_time r))) q"

text \<open>Routing keys: an absent and an empty key count as none.\<close>

definition the_routing_key :: "sched_req \<Rightarrow> string" where
  "the_routing_key r = (case routing_key r of None \<Rightarrow> [] | Some k \<Rightarrow> k)"

definition routing_key_count :: "sched_req list \<Rightarrow> string \<Rightarrow> int" where
  "routing_key_count running k = int (length (filter (\<lambda>r. the_routing_key r = k \<and> k \<noteq> []) running))"

definition sort_by_routing_key :: "sched_req list \<Rightarrow> sched_req list \<Rightarrow> sched_req list" where
  "sort_by_routing_key q running =
     (if filter (\<lambda>r. the_routing_key r \<noteq> []) running = [] then q
      else sort_key (\<lambda>r. let k = the_routing_key r; n = routing_key_count running k
                        in if k \<noteq> [] \<and> n > 0 then (0 :: int, - n, k) else (1, 0, k)) q)"

section \<open>Depth-first order\<close>

text \<open>
  The recursions over the tree, with fuel for the depth. A \<open>defaultdict(int)\<close> over nodes is a function; the children of
  a node are taken in the order of its dictionary.
\<close>

primrec calc_weight :: "nat \<Rightarrow> 'al radix_cache \<Rightarrow> nat \<Rightarrow> (nat \<Rightarrow> int) \<Rightarrow> (nat \<Rightarrow> int) py" where
  "calc_weight 0 s cur w = Inl OutOfFuel"
| "calc_weight (Suc f) s cur w =
     py_bind (get_node s cur) (\<lambda>n.
     py_for (\<lambda>c w. py_bind (calc_weight f s c w) (\<lambda>w'. Inr (w'(cur := w' cur + w' c)))) (map snd (children n)) w)"

primrec get_dfs_priority ::
  "nat \<Rightarrow> 'al radix_cache \<Rightarrow> nat \<Rightarrow> (nat \<Rightarrow> int) \<Rightarrow> (nat \<Rightarrow> sched_req list) \<Rightarrow> sched_req list \<Rightarrow> sched_req list py" where
  "get_dfs_priority 0 s cur prio reqs_at q = Inl OutOfFuel"
| "get_dfs_priority (Suc f) s cur prio reqs_at q =
     py_bind (get_node s cur) (\<lambda>n.
     py_bind (py_for (\<lambda>c q. get_dfs_priority f s c prio reqs_at q) (sort_key (\<lambda>c. - prio c) (map snd (children n))) q)
       (\<lambda>q1. Inr (q1 @ reqs_at cur)))"

definition reqs_ending_at :: "sched_req list \<Rightarrow> nat \<Rightarrow> sched_req list" where
  "reqs_ending_at q a = filter (\<lambda>r. last_node r = Some a) q"

definition sort_by_dfs_weight :: "sched_req list \<Rightarrow> 'al prefix_cache \<Rightarrow> sched_req list py" where
  "sort_by_dfs_weight q tc = (case tc of ChunkCache _ \<Rightarrow> Inl AttributeError
     | RadixTree s \<Rightarrow>
         py_bind (calc_weight (Suc (counter s)) s (root_node s) (\<lambda>a. int (length (reqs_ending_at q a)))) (\<lambda>w.
         get_dfs_priority (Suc (counter s)) s (root_node s) w (reqs_ending_at q) []))"

section \<open>The order of the queue\<close>

definition calc_priority ::
  "sched_env \<Rightarrow> sched_policy \<Rightarrow> sched_req list \<Rightarrow> sched_req list option \<Rightarrow> 'al prefix_cache \<Rightarrow>
     (bool \<times> sched_req list \<times> sched_policy \<times> 'al prefix_cache) py" where
  "calc_priority E sp q running tc =
     (if policy_of sp = Agnostic FCFS
      then py_bind (if enable_priority_scheduling sp then sort_by_priority_and_fcfs q (priority_sign sp) else Inr q)
             (\<lambda>q'. Inr (False, q', sp, tc))
      else (case determine_active_policy sp q of
          Aware p \<Rightarrow>
            py_bind (compute_prefix_matches E sp q tc) (\<lambda>(deprio, q1, sp1, tc1).
            py_bind (case p of LPM \<Rightarrow> Inr (sort_by_longest_prefix q1 deprio) | DFS_WEIGHT \<Rightarrow> sort_by_dfs_weight q1 tc1)
              (\<lambda>q'. Inr (True, q', sp1, tc1)))
        | Agnostic p \<Rightarrow>
            py_bind (case p of FCFS \<Rightarrow> Inr q
                     | LOF \<Rightarrow> sort_by_longest_output q (enable_priority_scheduling sp) (priority_sign sp)
                     | RANDOM \<Rightarrow> Inr (shuffle E q)
                     | ROUTING_KEY \<Rightarrow> Inr (case running of None \<Rightarrow> q | Some rs \<Rightarrow> sort_by_routing_key q rs))
              (\<lambda>q'. Inr (False, q', sp, tc))))"

section \<open>What the matching loop leaves\<close>

text \<open>The slots of the longest cached prefix of a request's tokens.\<close>

definition longest_match :: "'al radix_cache \<Rightarrow> sched_req \<Rightarrow> int list \<Rightarrow> bool" where
  "longest_match s r slots \<longleftrightarrow>
     (let units = key_iter (bigram_view (is_eagle s) \<lparr>token_ids = req_ids r, extra_key = req_extra_key r, is_bigram = False\<rparr>)
      in cached (rc_page_size s) (root_node s) (shape s) (req_extra_key r) (take (length slots) units) slots \<and>
         none_cached_past s (req_extra_key r) (length slots) units)"

definition req_matched :: "'al radix_cache \<Rightarrow> nat set \<Rightarrow> sched_req \<Rightarrow> sched_req \<Rightarrow> bool" where
  "req_matched s D r r' \<longleftrightarrow> (\<exists>slots node. longest_match s r slots \<and> node \<in> D \<and>
     r' = r\<lparr>prefix_indices := slots, last_node := Some node, last_host_node := Some node, host_hit_length := 0\<rparr>)"

text \<open>
  Which requests wait for another one: those with a short cached prefix that share their first tokens with an earlier
  request which has a short cached prefix too and does not wait itself.
\<close>

definition shares_prefix :: "int \<Rightarrow> sched_req \<Rightarrow> sched_req \<Rightarrow> bool" where
  "shares_prefix m r r0 \<longleftrightarrow> req_extra_key r0 = req_extra_key r \<and> m \<le> int (length (req_ids r)) \<and> m \<le> int (length (req_ids r0)) \<and>
     take (nat m) (req_ids r0) = take (nat m) (req_ids r)"

fun put_back :: "sched_env \<Rightarrow> sched_req list \<Rightarrow> sched_req list \<Rightarrow> string list" where
  "put_back E seen [] = []"
| "put_back E seen (r # rs) =
     (if int (length (prefix_indices r)) \<le> check_threshold E
      then if \<exists>r0 \<in> set seen. shares_prefix (deprioritize_threshold E) r r0 then rid r # put_back E seen rs
           else put_back E (seen @ [r]) rs
      else put_back E seen rs)"

lemma req_matched_mono: "req_matched s D r r' \<Longrightarrow> D \<subseteq> D' \<Longrightarrow> req_matched s D' r r'"
  by (auto simp: req_matched_def)

lemma longest_match_same: "same_cache s s1 \<Longrightarrow> longest_match s1 r slots \<longleftrightarrow> longest_match s r slots"
  using configD(2,3,7) [of s1 s] none_cached_same [of s s1] by (simp add: longest_match_def same_cache_def Let_def)

lemma match_for_req_ok:
  assumes inv: "radix_inv D rk H s" and en: "\<not> disable s"
  shows "\<exists>r' s' D' rk'. match_prefix_for_req (RadixTree s) r (Some (req_ids r)) = Inr (r', RadixTree s') \<and> req_matched s D' r r' \<and>
    radix_inv D' rk' H s' \<and> D \<subseteq> D' \<and> same_cache s s'"
proof -
  let ?k = "\<lparr>token_ids = req_ids r, extra_key = req_extra_key r, is_bigram = False\<rparr>"
  obtain slots node s' D' rk' where m: "match_prefix ?k s = Inr (slots, node, s')" "radix_inv D' rk' H s'" "D \<subseteq> D'" "same_cache s s'"
    "cached (rc_page_size s) (root_node s) (shape s) (req_extra_key r) (take (length slots) (key_iter (bigram_view (is_eagle s) ?k))) slots"
    "none_cached_past s (req_extra_key r) (length slots) (key_iter (bigram_view (is_eagle s) ?k))"
    "walk (shape s') (req_extra_key r) (root_node s) (take (length slots) (key_iter (bigram_view (is_eagle s) ?k))) slots node"
    using match_prefix_ok [OF inv en, of ?k] by (auto simp: Let_def)
  have "root_node s' = root_node s" using m(4) configD(7) by (auto simp: same_cache_def)
  then have "node \<in> D'" using walk_facts(1) [OF m(7) radix_invD(1) [OF m(2)]] tree_okD(3) [OF radix_invD(1) [OF m(2)]] by simp
  moreover have "longest_match s r slots" using m(5,6) by (simp add: longest_match_def)
  ultimately show ?thesis using m(1-4)
    by (intro exI [of _ "r\<lparr>prefix_indices := slots, last_node := Some node, last_host_node := Some node, host_hit_length := 0\<rparr>"]
          exI [of _ s'] exI [of _ D'] exI [of _ rk'])
      (auto simp: match_prefix_for_req_def req_matched_def)
qed

section \<open>The tree of the waiting queue\<close>

definition waiting_config :: "unit radix_cache \<Rightarrow> bool" where
  "waiting_config wt \<longleftrightarrow> \<not> disable wt \<and> rc_page_size wt = 1 \<and> \<not> is_eagle wt \<and> \<not> enable_kv_cache_events wt"

definition waiting_tree :: "unit radix_cache \<Rightarrow> sched_req list \<Rightarrow> bool" where
  "waiting_tree wt seen \<longleftrightarrow> waiting_config wt \<and> (\<exists>D rk. radix_inv D rk {#} wt) \<and>
     (\<forall>ek us. (\<exists>vs. cached 1 (root_node wt) (shape wt) ek us vs) \<longleftrightarrow>
        us = [] \<or> (\<exists>r0 \<in> set seen. req_extra_key r0 = ek \<and> (\<exists>n. us = map Tok (take n (req_ids r0)))))"

lemma reset_inv:
  assumes "1 \<le> rc_page_size s"
  shows "radix_inv {counter s} rk {#} (reset s)" "config (reset s) = config (s\<lparr>root_node := counter s\<rparr>)" "c_children (cells (shape (reset s)) (counter s)) = []"
  using assms by (simp_all add: reset_def TreeNode_def read_clock_def record_all_cleared_event_def upd_node_def config_def
      radix_inv_def tree_ok_def acct_def locks_ok_def shape_def)

lemma walk_childless:
  assumes "walk h ek a us vs b" "c_children (cells h a) = []"
  shows "us = []"
  using assms by cases auto

lemma waiting_tree_reset:
  assumes "waiting_config wt"
  shows "waiting_tree (reset wt) []"
proof -
  have ps: "1 \<le> rc_page_size wt" using assms by (simp add: waiting_config_def)
  note r = reset_inv [OF ps]
  have c: "waiting_config (reset wt)" "root_node (reset wt) = counter wt"
    using assms configD [OF r(2)] by (simp_all add: waiting_config_def)
  have "(\<exists>vs. cached 1 (counter wt) (shape (reset wt)) ek us vs) \<longleftrightarrow> us = []" for ek us
  proof
    assume "\<exists>vs. cached 1 (counter wt) (shape (reset wt)) ek us vs"
    then obtain u v b where "walk (shape (reset wt)) ek (counter wt) u v b" "length us \<le> length u" by (auto simp: cached_def)
    then show "us = []" using walk_childless [of "shape (reset wt)" ek "counter wt" u v b] r(3) by auto
  next
    assume "us = []"
    then show "\<exists>vs. cached 1 (counter wt) (shape (reset wt)) ek us vs"
      unfolding cached_def by (intro exI [of _ "[]"] conjI exI [of _ "counter wt"] walk_nil) simp_all
  qed
  then show ?thesis using c r(1) unfolding waiting_tree_def by auto blast+
qed

abbreviation plain_key :: "sched_req \<Rightarrow> radix_key" where
  "plain_key r \<equiv> \<lparr>token_ids = req_ids r, extra_key = req_extra_key r, is_bigram = False\<rparr>"

lemma plain_units: "waiting_config wt \<Longrightarrow> key_iter (bigram_view (is_eagle wt) (plain_key r)) = map Tok (req_ids r)"
  by (simp add: waiting_config_def bigram_view_def key_iter_def)

lemma waiting_match:
  assumes w: "waiting_tree wt seen" and T: "0 < T"
  shows "\<exists>slots node wt'. match_prefix (plain_key r) wt = Inr (slots, node, wt') \<and> waiting_tree wt' seen \<and>
    (T \<le> int (length slots) \<longleftrightarrow> (\<exists>r0 \<in> set seen. shares_prefix T r r0))"
proof -
  obtain D rk where inv: "radix_inv D rk {#} wt" using w by (auto simp: waiting_tree_def)
  have c: "waiting_config wt" "\<not> disable wt" "rc_page_size wt = 1" using w by (auto simp: waiting_tree_def waiting_config_def)
  have cont: "(\<exists>vs. cached 1 (root_node wt) (shape wt) ek us vs) \<longleftrightarrow>
      us = [] \<or> (\<exists>r0 \<in> set seen. req_extra_key r0 = ek \<and> (\<exists>n. us = map Tok (take n (req_ids r0))))" for ek us
    using w by (simp add: waiting_tree_def)
  note u = plain_units [OF c(1), of r]
  obtain slots node wt' D' rk' where m: "match_prefix (plain_key r) wt = Inr (slots, node, wt')" "radix_inv D' rk' {#} wt'" "same_cache wt wt'"
    "cached 1 (root_node wt) (shape wt) (req_extra_key r) (take (length slots) (map Tok (req_ids r))) slots"
    "none_cached_past wt (req_extra_key r) (length slots) (map Tok (req_ids r))"
    using match_prefix_ok [OF inv c(2), of "plain_key r"] unfolding Let_def u c(3) by auto
  have "waiting_tree wt' seen"
    using m(2,3) w configD [of wt' wt] unfolding waiting_tree_def waiting_config_def same_cache_def c(3) by metis
  moreover have "T \<le> int (length slots) \<longleftrightarrow> (\<exists>r0 \<in> set seen. shares_prefix T r r0)"
  proof
    assume l: "T \<le> int (length slots)"
    have n: "length slots \<le> length (req_ids r)" using m(5) by (simp add: none_cached_past_def)
    have "take (length slots) (map Tok (req_ids r)) \<noteq> []" using l n T by auto
    then obtain r0 k where r0: "r0 \<in> set seen" "req_extra_key r0 = req_extra_key r"
      "map Tok (take (length slots) (req_ids r)) = map Tok (take k (req_ids r0))"
      using m(4) cont [of "req_extra_key r" "take (length slots) (map Tok (req_ids r))"] by (auto simp: take_map)
    have e: "take (length slots) (req_ids r) = take k (req_ids r0)" using r0(3) by (simp add: inj_map_eq_map inj_def)
    have len: "length slots = min k (length (req_ids r0))" using arg_cong [OF e, of length] n by simp
    have l': "nat T \<le> length slots" using l T by linarith
    then have "nat T \<le> k" using len by linarith
    then have "take (nat T) (req_ids r0) = take (nat T) (take k (req_ids r0))" by (simp add: min_def)
    also have "\<dots> = take (nat T) (req_ids r)" unfolding e [symmetric] using l' by (simp add: min_def)
    finally have "shares_prefix T r r0" using r0(2) l n len by (simp add: shares_prefix_def)
    then show "\<exists>r0 \<in> set seen. shares_prefix T r r0" using r0(1) by blast
  next
    assume "\<exists>r0 \<in> set seen. shares_prefix T r r0"
    then obtain r0 where r0: "r0 \<in> set seen" "shares_prefix T r r0" by blast
    have "take (nat T) (map Tok (req_ids r)) = map Tok (take (nat T) (req_ids r0))" using r0(2) by (simp add: shares_prefix_def take_map)
    then have "\<exists>vs. cached 1 (root_node wt) (shape wt) (req_extra_key r) (take (nat T) (map Tok (req_ids r))) vs"
      unfolding cont using r0 by (auto simp: shares_prefix_def) metis
    moreover have "nat T \<le> length (map Tok (req_ids r))" using r0(2) by (simp add: shares_prefix_def nat_le_iff)
    ultimately have "\<not> length slots < nat T" using m(5) c(3) unfolding none_cached_past_def by metis
    then show "T \<le> int (length slots)" by linarith
  qed
  ultimately show ?thesis using m(1) by blast
qed

lemma prefix_of_units: "(\<exists>n. us = map Tok (take n xs)) \<longleftrightarrow> length us \<le> length xs \<and> us = take (length us) (map Tok xs)"
proof
  assume "\<exists>n. us = map Tok (take n xs)"
  then obtain n where n: "us = take n (map Tok xs)" by (auto simp: take_map)
  then have "take (length us) (map Tok xs) = us" by (simp add: min_def)
  then show "length us \<le> length xs \<and> us = take (length us) (map Tok xs)" using n by simp
qed (metis take_map)

lemma waiting_insert:
  assumes w: "waiting_tree wt seen" and that: "req_ids r' = req_ids r" "req_extra_key r' = req_extra_key r"
  shows "\<exists>n wt'. insert_cache (plain_key r) (Some (replicate (length (req_ids r)) 0)) (Some 0) False wt = Inr (n, wt') \<and>
    waiting_tree wt' (seen @ [r'])"
proof -
  obtain D rk where inv: "radix_inv D rk {#} wt" using w by (auto simp: waiting_tree_def)
  have c: "waiting_config wt" "\<not> disable wt" "rc_page_size wt = 1" "\<not> enable_kv_cache_events wt" using w by (auto simp: waiting_tree_def waiting_config_def)
  have cont: "(\<exists>vs. cached 1 (root_node wt) (shape wt) ek us vs) \<longleftrightarrow>
      us = [] \<or> (\<exists>r0 \<in> set seen. req_extra_key r0 = ek \<and> (\<exists>n. us = map Tok (take n (req_ids r0))))" for ek us
    using w by (simp add: waiting_tree_def)
  note u = plain_units [OF c(1), of r]
  have l: "key_len (bigram_view (is_eagle wt) (plain_key r)) = length (req_ids r)" using arg_cong [OF u, of length] by simp
  obtain n wt' D' rk' old where m: "insert_cache (plain_key r) (Some (replicate (length (req_ids r)) 0)) (Some 0) False wt = Inr (n, wt')"
    "radix_inv D' rk' {#} wt'" "config wt' = config wt"
    "\<And>ek us vs. cached 1 (root_node wt) (shape wt') ek us vs \<longleftrightarrow> cached 1 (root_node wt) (shape wt) ek us vs \<or>
       ek = req_extra_key r \<and> length us \<le> length (req_ids r) \<and> us = take (length us) (map Tok (req_ids r)) \<and>
       vs = take (length us) (old @ drop n (replicate (length (req_ids r)) 0))"
    using insert_cache_ok [OF inv c(2,4), of "plain_key r" "length (req_ids r)" "replicate (length (req_ids r)) 0" "Some 0" False]
    unfolding Let_def u l c(3) by auto
  have "(\<exists>vs. cached 1 (root_node wt') (shape wt') ek us vs) \<longleftrightarrow>
      us = [] \<or> (\<exists>r0 \<in> set (seen @ [r']). req_extra_key r0 = ek \<and> (\<exists>n. us = map Tok (take n (req_ids r0))))" for ek us
  proof -
    define P where "P r0 \<longleftrightarrow> req_extra_key r0 = ek \<and> (\<exists>n. us = map Tok (take n (req_ids r0)))" for r0
    have "P r \<longleftrightarrow> ek = req_extra_key r \<and> length us \<le> length (req_ids r) \<and> us = take (length us) (map Tok (req_ids r))"
      unfolding P_def prefix_of_units by blast
    then have "(\<exists>vs. cached 1 (root_node wt') (shape wt') ek us vs) \<longleftrightarrow> (\<exists>vs. cached 1 (root_node wt) (shape wt) ek us vs) \<or> P r"
      unfolding configD(7) [OF m(3)] m(4) by blast
    moreover have "P r' \<longleftrightarrow> P r" unfolding P_def that ..
    ultimately show ?thesis unfolding cont P_def [symmetric] by simp blast
  qed
  moreover have "waiting_config wt'" using c(1) configD [OF m(3)] by (simp add: waiting_config_def)
  ultimately show ?thesis using m(1,2) by (auto simp: waiting_tree_def)
qed

section \<open>The matching loop\<close>

lemma matched_fields:
  assumes "req_matched s D r r'"
  shows "req_ids r' = req_ids r" "req_extra_key r' = req_extra_key r" "rid r' = rid r" "\<exists>a \<in> D. last_node r' = Some a"
  using assms by (auto simp: req_matched_def req_ids_def)

lemma shares_matched: "req_matched s D r r' \<Longrightarrow> shares_prefix T r' r0 \<longleftrightarrow> shares_prefix T r r0"
  by (simp add: shares_prefix_def matched_fields)

lemma prefix_match_step_ok:
  assumes inv: "radix_inv D rk H s" and en: "\<not> disable s" and w: "waiting_tree wt seen" and T: "0 < deprioritize_threshold E"
  shows "\<exists>r' d wt' s' D' rk' seen'. prefix_match_step E r (matched, deprio, wt, RadixTree s) = Inr (matched @ [r'], deprio @ d, wt', RadixTree s') \<and>
    req_matched s D' r r' \<and> radix_inv D' rk' H s' \<and> D \<subseteq> D' \<and> same_cache s s' \<and> waiting_tree wt' seen' \<and>
    (\<forall>rs. put_back E seen (r' # rs) = d @ put_back E seen' rs)"
proof -
  obtain r' s' D' rk' where m: "match_prefix_for_req (RadixTree s) r (Some (req_ids r)) = Inr (r', RadixTree s')" "req_matched s D' r r'"
    "radix_inv D' rk' H s'" "D \<subseteq> D'" "same_cache s s'"
    using match_for_req_ok [OF inv en, of r] by blast
  obtain slots node wt1 where q: "match_prefix (plain_key r) wt = Inr (slots, node, wt1)" "waiting_tree wt1 seen"
    "deprioritize_threshold E \<le> int (length slots) \<longleftrightarrow> (\<exists>r0 \<in> set seen. shares_prefix (deprioritize_threshold E) r r0)"
    using waiting_match [OF w T, of r] by blast
  obtain n wt2 where i: "insert_cache (plain_key r) (Some (replicate (length (req_ids r)) 0)) (Some 0) False wt1 = Inr (n, wt2)"
    "waiting_tree wt2 (seen @ [r'])"
    using waiting_insert [OF q(2), of r' r] matched_fields(1,2) [OF m(2)] by blast
  let ?short = "int (length (prefix_indices r')) \<le> check_threshold E"
  let ?share = "\<exists>r0 \<in> set seen. shares_prefix (deprioritize_threshold E) r r0"
  define d where "d = (if ?short \<and> ?share then [rid r'] else [])"
  define wt' where "wt' = (if ?short then if ?share then wt1 else wt2 else wt)"
  define seen' where "seen' = (if ?short \<and> \<not> ?share then seen @ [r'] else seen)"
  have "prefix_match_step E r (matched, deprio, wt, RadixTree s) = Inr (matched @ [r'], deprio @ d, wt', RadixTree s')"
    using q(3) by (simp add: prefix_match_step_def m(1) q(1) i(1) d_def wt'_def)
  moreover have "waiting_tree wt' seen'" using w q(2) i(2) by (simp add: wt'_def seen'_def)
  moreover have "put_back E seen (r' # rs) = d @ put_back E seen' rs" for rs
    by (simp add: d_def seen'_def shares_matched [OF m(2)])
  ultimately show ?thesis using m(2-5) by blast
qed

lemma matching_loop:
  assumes "radix_inv D rk H s" "\<not> disable s" "waiting_tree wt seen" "0 < deprioritize_threshold E"
  shows "\<exists>q1 wt' s' D' rk'. py_for (prefix_match_step E) q (matched, deprio, wt, RadixTree s) =
      Inr (matched @ q1, deprio @ put_back E seen q1, wt', RadixTree s') \<and>
    list_all2 (req_matched s D') q q1 \<and> radix_inv D' rk' H s' \<and> D \<subseteq> D' \<and> same_cache s s' \<and> waiting_config wt'"
  using assms
proof (induction q arbitrary: D rk s wt seen matched deprio)
  case Nil
  then show ?case by (intro exI [of _ "[]"] exI [of _ wt] exI [of _ s] exI [of _ D] exI [of _ rk]) (auto simp: same_cache_refl waiting_tree_def)
next
  case (Cons r q)
  obtain r' d wt1 s1 D1 rk1 seen1 where a: "prefix_match_step E r (matched, deprio, wt, RadixTree s) = Inr (matched @ [r'], deprio @ d, wt1, RadixTree s1)"
    "req_matched s D1 r r'" "radix_inv D1 rk1 H s1" "D \<subseteq> D1" "same_cache s s1" "waiting_tree wt1 seen1"
    "\<And>rs. put_back E seen (r' # rs) = d @ put_back E seen1 rs"
    using prefix_match_step_ok [OF Cons.prems, of r matched deprio] by blast
  have en: "\<not> disable s1" using Cons.prems(2) a(5) configD(1) by (auto simp: same_cache_def)
  obtain q1 wt' s' D' rk' where b: "py_for (prefix_match_step E) q (matched @ [r'], deprio @ d, wt1, RadixTree s1) =
      Inr ((matched @ [r']) @ q1, (deprio @ d) @ put_back E seen1 q1, wt', RadixTree s')"
    "list_all2 (req_matched s1 D') q q1" "radix_inv D' rk' H s'" "D1 \<subseteq> D'" "same_cache s1 s'" "waiting_config wt'"
    using Cons.IH [OF a(3) en a(6) Cons.prems(4), of "matched @ [r']" "deprio @ d"] by blast
  have "list_all2 (req_matched s D') q q1"
    using b(2) by (rule list.rel_mono_strong) (simp add: req_matched_def longest_match_same [OF a(5)])
  then have "list_all2 (req_matched s D') (r # q) (r' # q1)" using req_matched_mono [OF a(2) b(4)] by simp
  then show ?case using a(1,4,7) b(1,3,4,6) same_cache_trans [OF a(5) b(5)]
    by (intro exI [of _ "r' # q1"] exI [of _ wt'] exI [of _ s'] exI [of _ D'] exI [of _ rk']) auto
qed

section \<open>Depth-first order of the tree\<close>

lemma node_kids:
  assumes "radix_inv D rk H s" "a \<in> D"
  obtains n where "get_node s a = Inr n" "map snd (children n) = kids (shape s) a"
proof -
  obtain c where c: "shape s a = Some c" using tree_okD(4) [OF radix_invD(1) [OF assms(1)] assms(2)] by auto
  from get_node_shape [OF c] obtain n where n: "get_node s a = Inr n" "cell_of n = c" by blast
  then have "map snd (children n) = kids (shape s) a" using c by (auto simp: kids_def)
  then show ?thesis using that n(1) by blast
qed

text \<open>The weights once the children \<open>ks\<close> of \<open>a\<close> are done.\<close>

definition weights_after :: "heap \<Rightarrow> nat set \<Rightarrow> nat \<Rightarrow> (nat \<Rightarrow> int) \<Rightarrow> nat list \<Rightarrow> nat \<Rightarrow> int" where
  "weights_after h D a w ks b = (if \<exists>c \<in> set ks. b \<in> subtree h D c then sum w (subtree h D b)
     else if b = a then w a + sum_list (map (\<lambda>c. sum w (subtree h D c)) ks) else w b)"

lemma weights_step:
  assumes t: "tree_ok ps eagle rt h D rk" and a: "a \<in> D" and c: "c \<in> set (kids h a)" and ks: "set ks \<subseteq> set (kids h a)" "c \<notin> set ks"
    and w1: "w1 = (\<lambda>b. if b \<in> subtree h D c then sum (weights_after h D a w ks) (subtree h D b) else weights_after h D a w ks b)"
  shows "w1(a := w1 a + w1 c) = weights_after h D a w (ks @ [c])"
proof
  fix b
  have other: "x \<notin> subtree h D k" if "k \<in> set ks" "x \<in> subtree h D c" for x k
    using subtree_disjoint [OF t a c, of k x] that ks by (auto simp: subtree_def)
  have na: "a \<notin> subtree h D k" if "k \<in> set (kids h a)" for k using subtree_unfold(2) [OF t a] that by blast
  have inside: "sum (weights_after h D a w ks) (subtree h D x) = sum w (subtree h D x)" if "x \<in> subtree h D c" for x
  proof (rule sum.cong [OF refl])
    fix y assume "y \<in> subtree h D x"
    then have "y \<in> subtree h D c" using that up_trans by (auto simp: subtree_def)
    then show "weights_after h D a w ks y = w y" using other na [OF c] by (auto simp: weights_after_def)
  qed
  have cc: "c \<in> subtree h D c" using kids_facts(1) [OF t a c] up_refl by (simp add: subtree_def)
  have wa: "w1 a = w a + sum_list (map (\<lambda>c. sum w (subtree h D c)) ks)" using na c ks(1) by (auto simp: w1 weights_after_def)
  have wc: "w1 c = sum w (subtree h D c)" using cc inside by (simp add: w1)
  show "(w1(a := w1 a + w1 c)) b = weights_after h D a w (ks @ [c]) b"
  proof (cases "b = a")
    case True
    then show ?thesis using wa wc na c ks(1) by (auto simp: weights_after_def)
  next
    case False
    then show ?thesis using inside other by (auto simp: w1 weights_after_def)
  qed
qed

lemma calc_weight_ok:
  assumes inv: "radix_inv D rk H s" and "a \<in> D" "card {b \<in> D. rk a < rk b} < fuel"
  shows "calc_weight fuel s a w = Inr (\<lambda>b. if b \<in> subtree (shape s) D a then sum w (subtree (shape s) D b) else w b)"
  using assms(2,3)
proof (induction fuel arbitrary: a w)
  case (Suc f)
  let ?h = "shape s" and ?W = "weights_after (shape s) D a w"
  note t = radix_invD(1) [OF inv] and a = Suc.prems(1)
  obtain n where n: "get_node s a = Inr n" "map snd (children n) = kids ?h a" using node_kids [OF inv a] .
  let ?body = "\<lambda>c w. py_bind (calc_weight f s c w) (\<lambda>w'. Inr (w'(a := w' a + w' c)))"
  have "py_for ?body cs (?W ks) = Inr (?W (ks @ cs))" if "set (ks @ cs) \<subseteq> set (kids ?h a)" "distinct (ks @ cs)" for cs ks
    using that
  proof (induction cs arbitrary: ks)
    case (Cons c cs)
    have c: "c \<in> set (kids ?h a)" "set ks \<subseteq> set (kids ?h a)" "c \<notin> set ks" using Cons.prems by auto
    have "?body c (?W ks) = Inr (?W (ks @ [c]))"
      using Suc.IH [OF kids_facts(1) [OF t a c(1)] rank_above [OF t a c(1) Suc.prems(2)], of "?W ks"] weights_step [OF t a c refl, of w] by simp
    moreover have "py_for ?body cs (?W (ks @ [c])) = Inr (?W ((ks @ [c]) @ cs))" using Cons.prems by (intro Cons.IH) auto
    ultimately show ?case unfolding py_for.simps by (simp only: py_bind_simps append_assoc append_Cons append_Nil)
  qed simp
  from this [of "[]" "kids ?h a"] kids_distinct [OF t a]
  have "py_for ?body (kids ?h a) (?W []) = Inr (?W (kids ?h a))" by simp
  moreover have "?W [] = w" by (simp add: weights_after_def fun_eq_iff)
  moreover have "?W (kids ?h a) = (\<lambda>b. if b \<in> subtree ?h D a then sum w (subtree ?h D b) else w b)"
    using subtree_unfold [OF t a] sum_subtree [OF t a, of w] by (auto simp: weights_after_def fun_eq_iff)
  ultimately show ?case using n by simp
qed simp

text \<open>The segment of the queue for the subtree of a node.\<close>

primrec dfs_segment :: "nat \<Rightarrow> heap \<Rightarrow> (nat \<Rightarrow> int) \<Rightarrow> (nat \<Rightarrow> 'q list) \<Rightarrow> nat \<Rightarrow> 'q list" where
  "dfs_segment 0 h w own a = []"
| "dfs_segment (Suc f) h w own a = concat (map (dfs_segment f h w own) (sort_key (\<lambda>c. - w c) (kids h a))) @ own a"

lemma py_for_append_segments:
  assumes "\<And>c q. c \<in> set cs \<Longrightarrow> body c q = Inr (q @ g c)"
  shows "py_for body cs q = Inr (q @ concat (map g cs))"
  using assms by (induction cs arbitrary: q) simp_all

lemma get_dfs_priority_ok:
  assumes inv: "radix_inv D rk H s" and "a \<in> D" "card {b \<in> D. rk a < rk b} < fuel"
  shows "get_dfs_priority fuel s a w own q = Inr (q @ dfs_segment fuel (shape s) w own a)"
  using assms(2,3)
proof (induction fuel arbitrary: a q)
  case (Suc f)
  note t = radix_invD(1) [OF inv]
  obtain n where n: "get_node s a = Inr n" "map snd (children n) = kids (shape s) a" using node_kids [OF inv Suc.prems(1)] .
  have "py_for (\<lambda>c q. get_dfs_priority f s c w own q) (sort_key (\<lambda>c. - w c) (kids (shape s) a)) q =
      Inr (q @ concat (map (dfs_segment f (shape s) w own) (sort_key (\<lambda>c. - w c) (kids (shape s) a))))"
    by (rule py_for_append_segments) (use Suc.IH kids_facts(1) [OF t Suc.prems(1)] rank_above [OF t Suc.prems(1) _ Suc.prems(2)] in auto)
  then show ?case using n by simp
qed simp

lemma dfs_segment_fuel:
  assumes t: "tree_ok ps eagle rt h D rk" and "a \<in> D" "card {b \<in> D. rk a < rk b} < fuel" "fuel \<le> fuel'"
  shows "dfs_segment fuel' h w own a = dfs_segment fuel h w own a"
  using assms(2-4)
proof (induction fuel arbitrary: a fuel')
  case (Suc f)
  obtain f' where f': "fuel' = Suc f'" "f \<le> f'" using Suc.prems(3) by (cases fuel') auto
  have "dfs_segment f' h w own c = dfs_segment f h w own c" if "c \<in> set (kids h a)" for c
    using Suc.IH [OF kids_facts(1) [OF t Suc.prems(1) that] rank_above [OF t Suc.prems(1) that Suc.prems(2)] f'(2)] .
  then have "map (dfs_segment f' h w own) (sort_key (\<lambda>c. - w c) (kids h a)) = map (dfs_segment f h w own) (sort_key (\<lambda>c. - w c) (kids h a))"
    by (intro map_cong refl) simp
  then show ?case unfolding f'(1) dfs_segment.simps by (simp only:)
qed simp

lemma mset_dfs_segment:
  assumes t: "tree_ok ps eagle rt h D rk" and "a \<in> D" "card {b \<in> D. rk a < rk b} < fuel"
  shows "mset (dfs_segment fuel h w own a) = (\<Sum>b \<in> subtree h D a. mset (own b))"
  using assms(2,3)
proof (induction fuel arbitrary: a)
  case (Suc f)
  let ?k = "sort_key (\<lambda>c. - w c) (kids h a)"
  have "mset (concat (map (dfs_segment f h w own) ?k)) = sum_list (map (\<lambda>c. mset (dfs_segment f h w own c)) ?k)"
    by (simp add: mset_concat comp_def)
  also have "\<dots> = sum_list (map (\<lambda>c. mset (dfs_segment f h w own c)) (kids h a))"
    by (simp flip: sum_mset_sum_list)
  also have "\<dots> = sum_list (map (\<lambda>c. \<Sum>b \<in> subtree h D c. mset (own b)) (kids h a))"
    using Suc.IH kids_facts(1) [OF t Suc.prems(1)] rank_above [OF t Suc.prems(1) _ Suc.prems(2)]
    by (intro arg_cong [where f = sum_list] map_cong refl) blast
  finally show ?case using sum_subtree [OF t Suc.prems(1), of "\<lambda>b. mset (own b)"] by simp
qed simp

lemma insort_key_same: "f x = g x \<Longrightarrow> (\<And>y. y \<in> set ys \<Longrightarrow> f y = g y) \<Longrightarrow> insort_key f x ys = insort_key g x ys"
  by (induction ys) auto

lemma sort_key_same: "(\<And>x. x \<in> set xs \<Longrightarrow> f x = g x) \<Longrightarrow> sort_key f xs = sort_key g xs"
proof (induction xs)
  case (Cons x xs)
  then have "insort_key f x (sort_key g xs) = insort_key g x (sort_key g xs)" by (intro insort_key_same) auto
  then show ?case using Cons by simp
qed simp

lemma size_of_sum: "size (sum f A) = (\<Sum>a \<in> A. size (f a :: 'm multiset))"
  by (induction A rule: infinite_finite_induct) auto

lemma mset_by_node:
  assumes "finite D" "\<forall>r \<in> set q. \<exists>a \<in> D. last_node r = Some a"
  shows "(\<Sum>a \<in> D. mset (reqs_ending_at q a)) = mset q"
  using assms(2)
proof (induction q)
  case (Cons r q)
  then obtain x where x: "x \<in> D" "last_node r = Some x" by auto
  have "(\<Sum>a \<in> D. mset (reqs_ending_at (r # q) a)) = (\<Sum>a \<in> D. (if a = x then {#r#} else {#}) + mset (reqs_ending_at q a))"
    by (rule sum.cong) (use x in \<open>auto simp: reqs_ending_at_def\<close>)
  also have "\<dots> = {#r#} + mset q" using x(1) assms(1) Cons by (simp add: sum.distrib)
  finally show ?case by simp
qed (simp add: reqs_ending_at_def)

lemma dfs_weight_ok:
  assumes inv: "radix_inv D rk H s" and q: "\<forall>r \<in> set q. \<exists>a \<in> D. last_node r = Some a"
  shows "\<exists>segment. sort_by_dfs_weight q (RadixTree s) = Inr (segment (root_node s)) \<and> mset (segment (root_node s)) = mset q \<and>
    (\<forall>a \<in> D. segment a = concat (map segment (sort_key (\<lambda>c. - int (length (segment c))) (kids (shape s) a))) @ reqs_ending_at q a)"
proof -
  let ?h = "shape s" and ?f = "Suc (counter s)" and ?own = "reqs_ending_at q" and ?n = "\<lambda>a. int (length (reqs_ending_at q a))"
  note t = radix_invD(1) [OF inv]
  define w where "w b = (if b \<in> subtree ?h D (root_node s) then sum ?n (subtree ?h D b) else ?n b)" for b
  define segment where "segment = dfs_segment ?f ?h w ?own"
  have "D \<subseteq> {..<counter s}" using radix_invD(2) [OF inv] by auto
  then have "card {b \<in> D. rk a < rk b} \<le> card {..<counter s}" for a by (intro card_mono) auto
  then have fuel: "card {b \<in> D. rk a < rk b} < ?f" for a by (simp add: le_imp_less_Suc)
  note rD = tree_okD(3) [OF t]
  have run: "sort_by_dfs_weight q (RadixTree s) = Inr (segment (root_node s))"
    using calc_weight_ok [OF inv rD fuel, of ?n] get_dfs_priority_ok [OF inv rD fuel, of w ?own "[]"]
    by (simp add: sort_by_dfs_weight_def segment_def w_def [abs_def] del: calc_weight.simps get_dfs_priority.simps dfs_segment.simps)
  have ms: "mset (segment a) = (\<Sum>b \<in> subtree ?h D a. mset (?own b))" if "a \<in> D" for a
    unfolding segment_def by (rule mset_dfs_segment [OF t that fuel])
  have len: "w a = int (length (segment a))" if "a \<in> D" for a
  proof -
    have "length (segment a) = size (\<Sum>b \<in> subtree ?h D a. mset (?own b))" using ms [OF that] by (metis size_mset)
    then show ?thesis using whole_tree [OF t] that by (simp add: w_def size_of_sum)
  qed
  have "segment a = concat (map segment (sort_key (\<lambda>c. - int (length (segment c))) (kids ?h a))) @ ?own a" if a: "a \<in> D" for a
  proof -
    have k: "c \<in> D" "dfs_segment (counter s) ?h w ?own c = segment c" if "c \<in> set (kids ?h a)" for c
      using kids_facts(1) [OF t a that] dfs_segment_fuel [OF t kids_facts(1) [OF t a that] rank_above [OF t a that fuel], of ?f w ?own]
      unfolding segment_def by simp_all
    have "sort_key (\<lambda>c. - w c) (kids ?h a) = sort_key (\<lambda>c. - int (length (segment c))) (kids ?h a)"
      by (rule sort_key_same) (simp add: k(1) len)
    moreover have "map (dfs_segment (counter s) ?h w ?own) (sort_key (\<lambda>c. - w c) (kids ?h a)) = map segment (sort_key (\<lambda>c. - w c) (kids ?h a))"
      by (intro map_cong refl) (simp add: k(2))
    moreover have "segment a = concat (map (dfs_segment (counter s) ?h w ?own) (sort_key (\<lambda>c. - w c) (kids ?h a))) @ ?own a"
      by (simp add: segment_def)
    ultimately show ?thesis by (simp only:)
  qed
  moreover have "mset (segment (root_node s)) = mset q"
    using ms [OF rD] whole_tree [OF t] mset_by_node [OF tree_okD(2) [OF t] q] by simp
  ultimately show ?thesis using run by blast
qed

section \<open>The order of the waiting queue\<close>

lemma py_sort_pure:
  assumes "\<And>x. x \<in> set xs \<Longrightarrow> key x = Inr (k x)"
  shows "py_sort key xs = Inr (map snd (sort_key fst (map (\<lambda>x. (k x, x)) xs)))"
proof -
  have "py_for (\<lambda>x ps. py_bind (key x) (\<lambda>k. Inr (ps @ [(k, x)]))) xs ps = Inr (ps @ concat (map (\<lambda>x. [(k x, x)]) xs))" for ps
    by (rule py_for_append_segments) (simp add: assms)
  then show ?thesis by (simp add: py_sort_def concat_map_singleton)
qed

lemma mset_py_sort:
  assumes "\<And>x. x \<in> set xs \<Longrightarrow> \<exists>k. key x = Inr k"
  shows "\<exists>ys. py_sort key xs = Inr ys \<and> mset ys = mset xs"
proof -
  have "py_sort key xs = Inr (map snd (sort_key fst (map (\<lambda>x. (projr (key x), x)) xs)))"
    by (rule py_sort_pure) (use assms in force)
  then show ?thesis by (simp add: image_mset.compositionality comp_def)
qed

lemma priority_sorts:
  assumes "prio \<Longrightarrow> \<forall>r \<in> set q. req_priority r \<noteq> None"
  shows "prio \<Longrightarrow> \<exists>q'. sort_by_priority_and_fcfs q sign = Inr q' \<and> mset q' = mset q"
    "\<exists>q'. sort_by_longest_output q prio sign = Inr q' \<and> mset q' = mset q"
proof -
  have k: "\<exists>x. py_bind (signed_priority sign r) (\<lambda>p. Inr (g p r)) = Inr x" if "prio" "r \<in> set q" for r and g :: "int \<Rightarrow> sched_req \<Rightarrow> 'k"
    using assms that by (auto simp: signed_priority_def)
  show "\<exists>q'. sort_by_priority_and_fcfs q sign = Inr q' \<and> mset q' = mset q" if "prio"
    unfolding sort_by_priority_and_fcfs_def by (rule mset_py_sort) (rule k [OF that])
  show "\<exists>q'. sort_by_longest_output q prio sign = Inr q' \<and> mset q' = mset q"
  proof (cases prio)
    case True
    then show ?thesis unfolding sort_by_longest_output_def if_P [OF True] by (intro mset_py_sort k)
  qed (simp add: sort_by_longest_output_def)
qed

text \<open>
  Every policy keeps the queue: \<open>calc_priority\<close> returns, whatever the policy, with the requests it was given in another
  order, none lost and none twice. A policy that looks at the cache has matched every request (its \<open>prefix_indices\<close> are
  the slots of its longest cached prefix) and leaves what the cache holds as it was. With priority scheduling the requests
  have priorities.
\<close>

lemma calc_priority_permutes:
  assumes inv: "radix_inv D rk H s" and en: "\<not> disable s" and w: "waiting_config (waiting_queue_radix_tree sp)"
    and T: "0 < deprioritize_threshold E" and sh: "\<And>xs. mset (shuffle E xs) = mset xs"
    and pr: "enable_priority_scheduling sp \<Longrightarrow> \<forall>r \<in> set q. req_priority r \<noteq> None"
  shows "\<exists>computed q1 q' sp' s' D' rk'. calc_priority E sp q running (RadixTree s) = Inr (computed, q', sp', RadixTree s') \<and>
    mset q' = mset q1 \<and> (if computed then list_all2 (req_matched s D') q q1 else q1 = q) \<and> radix_inv D' rk' H s' \<and> same_cache s s'"
proof -
  note sorts = priority_sorts [of "enable_priority_scheduling sp" q, OF pr]
  show ?thesis
  proof (cases "policy_of sp = Agnostic FCFS")
    case True
    have "\<exists>q'. (if enable_priority_scheduling sp then sort_by_priority_and_fcfs q (priority_sign sp) else Inr q) = Inr q' \<and> mset q' = mset q"
      using sorts(1) [of "priority_sign sp"] by simp
    then obtain q' where "(if enable_priority_scheduling sp then sort_by_priority_and_fcfs q (priority_sign sp) else Inr q) = Inr q'"
      "mset q' = mset q" by blast
    then have "calc_priority E sp q running (RadixTree s) = Inr (False, q', sp, RadixTree s)" "mset q' = mset q"
      using True by (simp_all add: calc_priority_def)
    then show ?thesis using inv same_cache_refl [of s] by fastforce
  next
    case False
    show ?thesis
    proof (cases "determine_active_policy sp q")
      case (Aware p)
      obtain q1 wt' s' D' rk' where m: "py_for (prefix_match_step E) q ([], [], reset (waiting_queue_radix_tree sp), RadixTree s) =
          Inr (q1, put_back E [] q1, wt', RadixTree s')"
        "list_all2 (req_matched s D') q q1" "radix_inv D' rk' H s'" "same_cache s s'"
        using matching_loop [OF inv en waiting_tree_reset [OF w] T, of q "[]" "[]"] by auto
      have "\<exists>a \<in> D'. last_node r = Some a" if "r \<in> set q1" for r
        using m(2) that by (metis in_set_conv_nth list_all2_conv_all_nth matched_fields(4))
      then obtain q2 where d: "sort_by_dfs_weight q1 (RadixTree s') = Inr q2" "mset q2 = mset q1" using dfs_weight_ok [OF m(3), of q1] by blast
      have "\<exists>q'. (case p of LPM \<Rightarrow> Inr (sort_by_longest_prefix q1 (put_back E [] q1)) | DFS_WEIGHT \<Rightarrow> sort_by_dfs_weight q1 (RadixTree s')) =
          Inr q' \<and> mset q' = mset q1"
        using d by (cases p) (simp_all add: sort_by_longest_prefix_def)
      then obtain q' where "calc_priority E sp q running (RadixTree s) = Inr (True, q', sp\<lparr>waiting_queue_radix_tree := wt'\<rparr>, RadixTree s')"
        "mset q' = mset q1"
        using False Aware m(1) by (auto simp: calc_priority_def compute_prefix_matches_def)
      then show ?thesis using m(2-4) by fastforce
    next
      case (Agnostic p)
      have "\<exists>q'. (case p of FCFS \<Rightarrow> Inr q | LOF \<Rightarrow> sort_by_longest_output q (enable_priority_scheduling sp) (priority_sign sp)
            | RANDOM \<Rightarrow> Inr (shuffle E q) | ROUTING_KEY \<Rightarrow> Inr (case running of None \<Rightarrow> q | Some rs \<Rightarrow> sort_by_routing_key q rs)) = Inr q' \<and>
          mset q' = mset q"
        using sorts(2) [of "priority_sign sp"] sh by (cases p) (simp_all add: sort_by_routing_key_def split: option.splits)
      then obtain q' where "calc_priority E sp q running (RadixTree s) = Inr (False, q', sp, RadixTree s)" "mset q' = mset q"
        using False Agnostic by (auto simp: calc_priority_def)
      then show ?thesis using inv same_cache_refl [of s] by fastforce
    qed
  qed
qed

text \<open>
  C29. Longest prefix first. Under the \<open>lpm\<close> policy with at most 128 waiting requests, the queue is ordered by decreasing
  length of the longest cached prefix, requests with equal lengths in their old order, and after all others come those
  that wait for an earlier request: a request whose cached prefix is at most the check threshold long and whose first
  \<open>deprioritize_threshold\<close> tokens (in the same namespace) are also those of an earlier such request that is not
  itself put back. (At equality the code goes by \<open><=\<close> and \<open>>=\<close>, where the comments at the two thresholds say "less than" and
  "larger than".)
\<close>

theorem lpm_order:
  assumes inv: "radix_inv D rk H s" and en: "\<not> disable s" and w: "waiting_config (waiting_queue_radix_tree sp)"
    and T: "0 < deprioritize_threshold E" and p: "policy_of sp = Aware LPM" and n: "length q \<le> 128"
  shows "\<exists>q1 sp' s' D' rk'. calc_priority E sp q running (RadixTree s) =
      Inr (True, sort_key (lpm_key (put_back E [] q1)) q1, sp', RadixTree s') \<and>
    list_all2 (req_matched s D') q q1 \<and> radix_inv D' rk' H s' \<and> same_cache s s' \<and> waiting_config (waiting_queue_radix_tree sp')"
proof -
  obtain q1 wt' s' D' rk' where m: "py_for (prefix_match_step E) q ([], [], reset (waiting_queue_radix_tree sp), RadixTree s) =
      Inr (q1, put_back E [] q1, wt', RadixTree s')"
    "list_all2 (req_matched s D') q q1" "radix_inv D' rk' H s'" "same_cache s s'" "waiting_config wt'"
    using matching_loop [OF inv en waiting_tree_reset [OF w] T, of q "[]" "[]"] by auto
  have "calc_priority E sp q running (RadixTree s) =
      Inr (True, sort_key (lpm_key (put_back E [] q1)) q1, sp\<lparr>waiting_queue_radix_tree := wt'\<rparr>, RadixTree s')"
    using p n by (simp add: calc_priority_def determine_active_policy_def compute_prefix_matches_def m(1) sort_by_longest_prefix_def)
  then show ?thesis using m(2-5) by fastforce
qed

text \<open>
  C31. Depth-first order by weight. When every request ends at a node of the tree, \<open>_sort_by_dfs_weight\<close> ends and permutes the
  queue so that the requests of each subtree stand together: the segment of a node is the segments of its children,
  heaviest (most requests) first and otherwise in dictionary order, followed by the node's own requests in their old order.
\<close>

theorem dfs_weight_order:
  assumes "radix_inv D rk H s" "\<forall>r \<in> set q. \<exists>a \<in> D. last_node r = Some a"
  shows "\<exists>segment. sort_by_dfs_weight q (RadixTree s) = Inr (segment (root_node s)) \<and> mset (segment (root_node s)) = mset q \<and>
    (\<forall>a \<in> D. segment a = concat (map segment (sort_key (\<lambda>c. - int (length (segment c))) (kids (shape s) a))) @ reqs_ending_at q a)"
  by (rule dfs_weight_ok [OF assms])

section \<open>Witnesses\<close>

definition demo_sched_req :: "string \<Rightarrow> int list \<Rightarrow> nat \<Rightarrow> sched_req" where
  "demo_sched_req name ids node = \<lparr>req_pool_idx = None, is_chunked = 0, committed_len = 0, origin_ids = ids, output_ids = [], fill_ids = ids,
     req_extra_key = None, req_priority = Some 0, cache_protected_len = 0, last_node = Some node, prefix_indices = [], kv_allocated_len = 0,
     kv_committed_freed = False, kv_overallocated_freed = False, reasoning_tokens = 0, skip_radix_cache_insert = False,
     rid = name, max_new_tokens = 16, ignore_eos = False, wait_queue_entry_time = 0, routing_key = None, last_host_node = None,
     host_hit_length = 0, extend_input_len = 0, logprob_start_len = -1, extend_logprob_start_len = 0, return_logprob = False, is_finished = False\<rparr>"

definition demo_env :: sched_env where
  "demo_env = \<lparr>check_threshold = 32, deprioritize_threshold = 2, shuffle = rev\<rparr>"

definition demo_policy :: "policy \<Rightarrow> sched_policy" where
  "demo_policy p = \<lparr>policy_of = p, enable_hierarchical_cache = False, enable_priority_scheduling = True,
     schedule_low_priority_values_first = False, priority_sign = -1, waiting_queue_radix_tree = radix_init 1 False LRU ()\<rparr>"

lemma demo_policy_waiting: "waiting_config (waiting_queue_radix_tree (demo_policy p))"
  by (simp add: demo_policy_def waiting_config_def radix_init_def reset_def TreeNode_def read_clock_def record_all_cleared_event_def upd_node_def)

lemma calc_priority_permutes_witness:
  "\<exists>computed q1 q' sp' s' D'. calc_priority demo_env (demo_policy (Aware DFS_WEIGHT))
      [demo_sched_req ''a'' [1] 0, demo_sched_req ''b'' [7, 8] 0] None (RadixTree demo_cache) = Inr (computed, q', sp', RadixTree s') \<and>
    mset q' = mset q1 \<and> (if computed then list_all2 (req_matched demo_cache D') [demo_sched_req ''a'' [1] 0, demo_sched_req ''b'' [7, 8] 0] q1
      else q1 = [demo_sched_req ''a'' [1] 0, demo_sched_req ''b'' [7, 8] 0])"
proof -
  have en: "\<not> disable demo_cache" by simp
  have T: "0 < deprioritize_threshold demo_env" and sh: "mset (shuffle demo_env xs) = mset xs" for xs by (simp_all add: demo_env_def)
  have pr: "\<forall>r \<in> set [demo_sched_req ''a'' [1] 0, demo_sched_req ''b'' [7, 8] 0]. req_priority r \<noteq> None" by (simp add: demo_sched_req_def)
  show ?thesis
    using calc_priority_permutes [OF demo_cache_inv en demo_policy_waiting [of "Aware DFS_WEIGHT"] T sh pr, of None] by blast
qed

theorem lpm_order_witness:
  "\<exists>q1 sp' s' D'. calc_priority demo_env (demo_policy (Aware LPM))
      [demo_sched_req ''a'' [1, 2, 3] 0, demo_sched_req ''b'' [1, 2, 4] 0] None (RadixTree demo_cache) =
      Inr (True, sort_key (lpm_key (put_back demo_env [] q1)) q1, sp', RadixTree s') \<and>
    list_all2 (req_matched demo_cache D') [demo_sched_req ''a'' [1, 2, 3] 0, demo_sched_req ''b'' [1, 2, 4] 0] q1"
proof -
  have en: "\<not> disable demo_cache" by simp
  have T: "0 < deprioritize_threshold demo_env" by (simp add: demo_env_def)
  have p: "policy_of (demo_policy (Aware LPM)) = Aware LPM" by (simp add: demo_policy_def)
  have n: "length [demo_sched_req ''a'' [1, 2, 3] 0, demo_sched_req ''b'' [1, 2, 4] 0] \<le> 128" by simp
  show ?thesis using lpm_order [OF demo_cache_inv en demo_policy_waiting [of "Aware LPM"] T p n, of None] by blast
qed

theorem dfs_weight_order_witness:
  "\<exists>q'. sort_by_dfs_weight [demo_sched_req ''a'' [1] 0, demo_sched_req ''b'' [7, 8, 9, 1] 1] (RadixTree demo_cache) = Inr q' \<and>
    mset q' = {#demo_sched_req ''a'' [1] 0, demo_sched_req ''b'' [7, 8, 9, 1] 1#}"
proof -
  have "\<forall>r \<in> set [demo_sched_req ''a'' [1] 0, demo_sched_req ''b'' [7, 8, 9, 1] 1]. \<exists>a \<in> {0, 1}. last_node r = Some a"
    by (simp add: demo_sched_req_def)
  from dfs_weight_order [OF demo_cache_inv this] show ?thesis by fastforce
qed

end
