(* ===== verification/Prefill_Adder.thy ===== *)
theory Prefill_Adder
  imports Schedule_Policy Cache_Flow
begin

text \<open>
  Admission of waiting requests to a prefill batch: \<open>PrefillAdder\<close> of \<open>srt/managers/schedule_policy.py\<close>, the parts of
  \<open>Req\<close> it calls, and the loop of \<open>Scheduler._get_new_batch_prefill_raw\<close> that feeds it. Token budgets that a float ratio
  enters are rationals. The sizes of the hybrid (sliding window, Mamba) pools and loading from host memory belong to
  caches that are not modelled and are parameters; the lock handle of the sliding-window cache is left out. The answer
  of the prefill delayer is negotiated once per adder and is a parameter.
\<close>

section \<open>State\<close>

datatype add_req_result = CONTINUE | NO_TOKEN | OTHER

record 'al adder_env =
  env_ops :: "'al alloc_ops"
  is_hybrid_swa :: bool
  is_hybrid_ssm_cache :: bool
  full_available_size :: "'al \<Rightarrow> int"
  full_evictable_size :: "'al prefix_cache \<Rightarrow> int"
  swa_available_size :: "'al \<Rightarrow> int"
  swa_evictable_size :: "'al prefix_cache \<Rightarrow> int"
  sliding_window_size :: int
  init_load_back :: "sched_req \<Rightarrow> 'al prefix_cache \<Rightarrow> (int list \<times> nat option \<times> 'al prefix_cache) py"
  clip_max_new_tokens :: int
  delayer_allows :: "bool option"
  nsa_prefill_cp_in_seq_split :: bool
  prefill_context_parallel_enabled :: bool

record dllm_state =
  dllm_block_size :: int
  rem_dllm_tokens :: int

record adder =
  ad_page_size :: int
  new_token_ratio :: rat
  rem_input_tokens :: int
  rem_chunk_tokens :: "int option"
  dllm :: "dllm_state option"
  rem_total_token_offset :: rat
  cur_rem_token_offset :: int
  rem_swa_token_offset :: int
  req_states :: "(rat \<times> int) list option"
  can_run_list :: "sched_req list"
  preempt_list :: "sched_req list"
  new_chunked_req :: "sched_req option"
  log_hit_tokens :: int
  log_input_tokens :: int
  preemption_threshold :: int
  prefill_max_requests :: "int option"
  running_reqs :: "sched_req list option"

definition running_offset :: "'al adder_env \<Rightarrow> rat \<Rightarrow> sched_req \<Rightarrow> rat" where
  "running_offset E ratio r = of_int (min (max_new_tokens r - int (length (output_ids r))) (clip_max_new_tokens E)) * ratio"

definition adder_init ::
  "'al adder_env \<Rightarrow> int \<Rightarrow> sched_req list option \<Rightarrow> rat \<Rightarrow> int \<Rightarrow> int option \<Rightarrow> int \<Rightarrow> int \<Rightarrow> int option \<Rightarrow> (int \<times> int) option \<Rightarrow> adder" where
  "adder_init E ps running ratio rem_input rem_chunk mixed threshold max_reqs dllm_config =
     \<lparr>ad_page_size = ps, new_token_ratio = ratio, rem_input_tokens = rem_input - mixed,
      rem_chunk_tokens = map_option (\<lambda>c. c - mixed) rem_chunk,
      dllm = map_option (\<lambda>(block, max_running). \<lparr>dllm_block_size = block, rem_dllm_tokens = max_running * block\<rparr>) dllm_config,
      rem_total_token_offset = of_int mixed +
        (case running of None \<Rightarrow> 0 | Some rs \<Rightarrow> sum_list (map (running_offset E ratio) rs)),
      cur_rem_token_offset = mixed, rem_swa_token_offset = 0, req_states = None, can_run_list = [], preempt_list = [], new_chunked_req = None,
      log_hit_tokens = 0, log_input_tokens = 0, preemption_threshold = threshold, prefill_max_requests = max_reqs, running_reqs = running\<rparr>"

section \<open>Budgets\<close>

definition pc_evictable :: "'al prefix_cache \<Rightarrow> int" where
  "pc_evictable tc = (case tc of RadixTree s \<Rightarrow> evictable_size s | ChunkCache _ \<Rightarrow> 0)"

definition available_and_evictable :: "'al adder_env \<Rightarrow> 'al prefix_cache \<Rightarrow> int" where
  "available_and_evictable E tc =
     (if is_hybrid_swa E then full_available_size E (pc_allocator tc) + full_evictable_size E tc
      else if is_hybrid_ssm_cache E then op_available (env_ops E) (pc_allocator tc) + full_evictable_size E tc
      else op_available (env_ops E) (pc_allocator tc) + pc_evictable tc)"

definition rem_total_tokens :: "'al adder_env \<Rightarrow> adder \<Rightarrow> 'al prefix_cache \<Rightarrow> rat" where
  "rem_total_tokens E A tc = of_int (available_and_evictable E tc) - rem_total_token_offset A"

definition rem_swa_tokens :: "'al adder_env \<Rightarrow> adder \<Rightarrow> 'al prefix_cache \<Rightarrow> int" where
  "rem_swa_tokens E A tc = swa_available_size E (pc_allocator tc) + swa_evictable_size E tc - rem_swa_token_offset A"

definition cur_rem_tokens :: "'al adder_env \<Rightarrow> adder \<Rightarrow> 'al prefix_cache \<Rightarrow> int" where
  "cur_rem_tokens E A tc = available_and_evictable E tc - cur_rem_token_offset A"

definition swa_budget_for_req :: "'al adder_env \<Rightarrow> adder \<Rightarrow> int \<Rightarrow> int" where
  "swa_budget_for_req E A n =
     max (case rem_chunk_tokens A of Some c \<Rightarrow> min n c | None \<Rightarrow> n) (sliding_window_size E) + ad_page_size A"

definition ceil_paged_tokens :: "adder \<Rightarrow> int \<Rightarrow> int" where
  "ceil_paged_tokens A n = - (- n div ad_page_size A) * ad_page_size A"

text \<open>\<open>int(x)\<close> of a number: towards zero.\<close>

definition py_int :: "rat \<Rightarrow> int" where
  "py_int x = (if x \<ge> 0 then \<lfloor>x\<rfloor> else \<lceil>x\<rceil>)"

definition budget_state :: "'al adder_env \<Rightarrow> adder \<Rightarrow> 'al prefix_cache \<Rightarrow> add_req_result" where
  "budget_state E A tc =
     (if rem_total_tokens E A tc \<le> 0 \<or> cur_rem_tokens E A tc \<le> 0 \<or> is_hybrid_swa E \<and> rem_swa_tokens E A tc \<le> 0 then NO_TOKEN
      else if rem_input_tokens A \<le> 0 then OTHER
      else case dllm A of
          Some d \<Rightarrow> if rem_dllm_tokens d \<le> 0 then OTHER else CONTINUE
        | None \<Rightarrow> (case rem_chunk_tokens A of Some c \<Rightarrow> if c \<le> 0 then OTHER else CONTINUE | None \<Rightarrow> CONTINUE))"

definition update_prefill_budget :: "'al adder_env \<Rightarrow> int \<Rightarrow> int \<Rightarrow> int \<Rightarrow> adder \<Rightarrow> adder" where
  "update_prefill_budget E prefix_len extend_len max_new A =
     (let n = ceil_paged_tokens A extend_len
      in A\<lparr>rem_total_token_offset := rem_total_token_offset A + of_int (n + max_new + ad_page_size A),
           cur_rem_token_offset := cur_rem_token_offset A + (n + ad_page_size A),
           rem_input_tokens := rem_input_tokens A - n,
           rem_swa_token_offset := (if is_hybrid_swa E then rem_swa_token_offset A + swa_budget_for_req E A n else rem_swa_token_offset A),
           dllm := map_option (\<lambda>d. d\<lparr>rem_dllm_tokens := rem_dllm_tokens d - n\<rparr>) (dllm A),
           rem_chunk_tokens := (if dllm A = None then map_option (\<lambda>c. c - n) (rem_chunk_tokens A) else rem_chunk_tokens A),
           log_hit_tokens := log_hit_tokens A + prefix_len,
           log_input_tokens := log_input_tokens A + n\<rparr>)"

definition set_extend_input_len :: "int \<Rightarrow> sched_req \<Rightarrow> sched_req" where
  "set_extend_input_len n r =
     (let start = (if logprob_start_len r = -1 then int (length (fill_ids r))
                   else max (logprob_start_len r) (int (length (prefix_indices r))))
      in r\<lparr>extend_input_len := n, extend_logprob_start_len := min (start - int (length (prefix_indices r))) n\<rparr>)"

section \<open>Locks\<close>

definition pc_inc_lock :: "nat option \<Rightarrow> 'al prefix_cache \<Rightarrow> 'al prefix_cache py" where
  "pc_inc_lock node tc = (case tc of ChunkCache _ \<Rightarrow> Inr tc
     | RadixTree s \<Rightarrow> if disable s then Inr tc
         else py_bind (attr node) (\<lambda>a. py_bind (inc_lock_ref a s) (\<lambda>(_, s'). Inr (RadixTree s'))))"

definition pc_dec_lock :: "nat option \<Rightarrow> 'al prefix_cache \<Rightarrow> 'al prefix_cache py" where
  "pc_dec_lock node tc = (case tc of ChunkCache _ \<Rightarrow> Inr tc
     | RadixTree s \<Rightarrow> if disable s then Inr tc
         else py_bind (attr node) (\<lambda>a. py_bind (dec_lock_ref a s) (\<lambda>(_, s'). Inr (RadixTree s'))))"

section \<open>Diffusion models and chunked requests\<close>

definition get_dllm_remain_tokens :: "'al adder_env \<Rightarrow> dllm_state \<Rightarrow> adder \<Rightarrow> 'al prefix_cache \<Rightarrow> int" where
  "get_dllm_remain_tokens E d A tc =
     (let n = min (rem_dllm_tokens d) (min (dllm_block_size d) (py_int (rem_total_tokens E A tc)))
      in if n \<le> 0 then rem_dllm_tokens d else n)"

definition add_dllm_req :: "'al adder_env \<Rightarrow> dllm_state \<Rightarrow> sched_req \<Rightarrow> int \<Rightarrow> adder \<Rightarrow> sched_req \<times> adder" where
  "add_dllm_req E d r prefix_len A =
     (let trunc_len = min (rem_dllm_tokens d) (dllm_block_size d) div ad_page_size A * ad_page_size A;
          r' = r\<lparr>extend_input_len := trunc_len, fill_ids := py_upto (fill_ids r) (prefix_len + trunc_len)\<rparr>
      in (r', update_prefill_budget E prefix_len trunc_len 0 (A\<lparr>can_run_list := can_run_list A @ [r']\<rparr>)))"

definition add_dllm_staging_req ::
  "'al adder_env \<Rightarrow> sched_req \<Rightarrow> adder \<Rightarrow> 'al prefix_cache \<Rightarrow> (add_req_result \<times> sched_req \<times> adder) py" where
  "add_dllm_staging_req E r A tc = (case dllm A of None \<Rightarrow> Inl AssertionError
     | Some d \<Rightarrow>
       let n = get_dllm_remain_tokens E d A tc
       in if n \<le> 0 then Inr (NO_TOKEN, r, A)
          else
           (let truncated = extend_input_len r > n;
                len = min (extend_input_len r) n;
                r' = r\<lparr>extend_input_len := len, fill_ids := py_upto (fill_ids r) (int (length (prefix_indices r)) + len)\<rparr>;
                max_new = (if \<not> truncated then min (max_new_tokens r) (clip_max_new_tokens E) else 0);
                A' = update_prefill_budget E 0 len max_new (A\<lparr>can_run_list := can_run_list A @ [r']\<rparr>)
            in case dllm A' of None \<Rightarrow> Inl AttributeError
               | Some d' \<Rightarrow> Inr (if get_dllm_remain_tokens E d' A' tc \<le> 0 then NO_TOKEN else CONTINUE, r', A')))"

text \<open>
  \<open>add_chunked_req\<close> returns the request when its prefill is not finished. It may admit more than the budget: a chunked
  request that is not added would leak its memory.
\<close>

definition chunked_rem_tokens :: "'al adder_env \<Rightarrow> adder \<Rightarrow> 'al prefix_cache \<Rightarrow> int option py" where
  "chunked_rem_tokens E A tc = (case dllm A of
       Some d \<Rightarrow> Inr (Some (get_dllm_remain_tokens E d A tc))
     | None \<Rightarrow> (case rem_chunk_tokens A of None \<Rightarrow> Inl TypeError
         | Some c \<Rightarrow>
           let n0 = min c (py_int (rem_total_tokens E A tc));
               n = (if is_hybrid_swa E then min n0 (rem_swa_tokens E A tc - ad_page_size A) else n0)
           in Inr (if n \<le> 0 then if is_hybrid_swa E then None else Some c else Some n)))"

definition add_chunked_req ::
  "'al adder_env \<Rightarrow> sched_req \<Rightarrow> adder \<Rightarrow> 'al prefix_cache \<Rightarrow> (sched_req option \<times> sched_req \<times> adder) py" where
  "add_chunked_req E r A tc = py_bind (chunked_rem_tokens E A tc) (\<lambda>rem.
     case rem of None \<Rightarrow> Inr (Some r, r, A)
     | Some n \<Rightarrow>
       (let truncated = extend_input_len r > n;
            r1 = set_extend_input_len (min (extend_input_len r) n) r;
            r2 = r1\<lparr>fill_ids := py_upto (fill_ids r1) (int (length (prefix_indices r1)) + extend_input_len r1)\<rparr>;
            A' = update_prefill_budget E 0 (extend_input_len r2)
                   (if \<not> truncated then min (max_new_tokens r) (clip_max_new_tokens E) else 0)
                   (A\<lparr>can_run_list := can_run_list A @ [r2]\<rparr>)
        in Inr (if truncated then Some r2 else None, r2, A')))"

section \<open>Requests that ignore the end of sequence\<close>

definition IGNORE_EOS_RESERVE_TOKENS :: rat where
  "IGNORE_EOS_RESERVE_TOKENS = 1"

text \<open>The position at which \<open>add_req_state\<close> inserts: the value the loop variable is left with.\<close>

fun state_position :: "nat \<Rightarrow> nat \<Rightarrow> rat \<Rightarrow> (rat \<times> int) list \<Rightarrow> nat" where
  "state_position i j left [] = i"
| "state_position i j left (x # xs) = (if left \<le> fst x then j else state_position j (Suc j) left xs)"

definition add_req_state :: "adder \<Rightarrow> bool \<Rightarrow> sched_req \<Rightarrow> (rat \<times> int) list \<Rightarrow> (rat \<times> int) list" where
  "add_req_state A insert_sort r states =
     (let ratio = (if ignore_eos r then 1 else new_token_ratio A);
          left = of_int (max_new_tokens r) * ratio - of_nat (length (output_ids r));
          occupied = int (length (origin_ids r)) + int (length (output_ids r))
      in if left \<le> 0 then states
         else if \<not> insert_sort then states @ [(left, occupied)]
         else (let i = state_position 0 0 left states in take i states @ [(left, occupied)] @ drop i states))"

fun tokens_last :: "rat \<Rightarrow> (rat \<times> int) list \<Rightarrow> bool" where
  "tokens_last free [] = True"
| "tokens_last free ((left, occupied) # xs) =
     (let bs = of_nat (Suc (length xs))
      in if free - left * bs \<le> IGNORE_EOS_RESERVE_TOKENS * bs then False else tokens_last (free + of_int occupied) xs)"

definition add_one_req_ignore_eos ::
  "'al adder_env \<Rightarrow> sched_req \<Rightarrow> adder \<Rightarrow> 'al prefix_cache \<Rightarrow> add_req_result \<times> sched_req \<times> adder" where
  "add_one_req_ignore_eos E r A tc =
     (let paged_input = ceil_paged_tokens A (extend_input_len r)
      in if of_int paged_input > min (of_int (cur_rem_tokens E A tc)) (rem_total_tokens E A tc) then (NO_TOKEN, r, A)
         else if is_hybrid_swa E \<and> swa_budget_for_req E A (extend_input_len r) > rem_swa_tokens E A tc then (NO_TOKEN, r, A)
         else
          (let states = (case req_states A of
                 None \<Rightarrow> sort_key fst (foldl (\<lambda>ss r. add_req_state A False r ss)
                    (foldl (\<lambda>ss r. add_req_state A False r ss) (add_req_state A False r [])
                       (case running_reqs A of None \<Rightarrow> [] | Some rs \<Rightarrow> rs)) (can_run_list A))
               | Some ss \<Rightarrow> add_req_state A True r ss);
               A1 = A\<lparr>req_states := Some states\<rparr>
           in if \<not> is_hybrid_swa E \<and> \<not> tokens_last (of_int (cur_rem_tokens E A tc - paged_input)) states then (NO_TOKEN, r, A1)
              else if delayer_allows E = Some False then (OTHER, r, A1)
              else
               (case dllm A1 of
                  Some d \<Rightarrow>
                    if rem_dllm_tokens d \<le> 0 then (OTHER, r, A1)
                    else (case add_dllm_req E d r 0 A1 of (r', A') \<Rightarrow> (budget_state E A' tc, r', A'))
                | None \<Rightarrow>
                    (case rem_chunk_tokens A1 of
                       Some c \<Rightarrow>
                         if extend_input_len r \<le> c
                         then (let A' = update_prefill_budget E 0 (extend_input_len r) (min (max_new_tokens r) (clip_max_new_tokens E))
                                          (A1\<lparr>can_run_list := can_run_list A1 @ [r]\<rparr>)
                               in (budget_state E A' tc, r, A'))
                         else if c \<le> 0 then (OTHER, r, A1)
                         else (let r1 = set_extend_input_len c r; r2 = r1\<lparr>fill_ids := py_upto (fill_ids r1) c\<rparr>;
                                   A' = update_prefill_budget E 0 c 0
                                          (A1\<lparr>can_run_list := can_run_list A1 @ [r2], new_chunked_req := Some r2\<rparr>)
                               in (budget_state E A' tc, r2, A'))
                     | None \<Rightarrow>
                         (let A' = update_prefill_budget E 0 (extend_input_len r) (min (max_new_tokens r) (clip_max_new_tokens E))
                                     (A1\<lparr>can_run_list := can_run_list A1 @ [r]\<rparr>)
                          in (budget_state E A' tc, r, A'))))))"

section \<open>Adding a request\<close>

text \<open>
  What \<open>add_one_req\<close> does while the node of the request is locked: an early result, or the request is added
  (\<open>None\<close>) and the budget decides.
\<close>

definition truncation_len :: "adder \<Rightarrow> int option \<Rightarrow> int \<Rightarrow> int \<Rightarrow> int option" where
  "truncation_len A align c prefix_len =
     (let t0 = c div ad_page_size A * ad_page_size A
      in if t0 \<le> 0 then None
         else case (case align of None \<Rightarrow> Some t0 | Some al \<Rightarrow> if t0 < al then None else Some (al * (t0 div al))) of
             None \<Rightarrow> None
           | Some t1 \<Rightarrow>
               (let t2 = (t1 + prefix_len) div ad_page_size A * ad_page_size A - prefix_len
                in if t2 \<le> 0 then None else Some t2))"

definition add_locked ::
  "'al adder_env \<Rightarrow> int option \<Rightarrow> rat \<Rightarrow> sched_req \<Rightarrow> adder \<Rightarrow> 'al prefix_cache \<Rightarrow>
     (add_req_result option \<times> sched_req \<times> adder \<times> 'al prefix_cache) py" where
  "add_locked E align total_tokens r A tc =
     (if total_tokens \<ge> rem_total_tokens E A tc then Inr (Some NO_TOKEN, r, A, tc)
      else if is_hybrid_swa E \<and> swa_budget_for_req E A (extend_input_len r) \<ge> rem_swa_tokens E A tc then Inr (Some NO_TOKEN, r, A, tc)
      else
       py_bind
        (if host_hit_length r > 0
         then py_bind (init_load_back E r tc) (\<lambda>(new_indices, node, tc1).
              let r1 = r\<lparr>last_node := node, prefix_indices := prefix_indices r @ new_indices\<rparr>;
                  r2 = set_extend_input_len (int (length (fill_ids r1)) - int (length (prefix_indices r1))) r1
              in Inr (r2\<lparr>cache_protected_len := length (prefix_indices r2)\<rparr>, tc1))
         else Inr (r, tc))
        (\<lambda>(r, tc).
         let prefix_len = int (length (prefix_indices r)); input_tokens = ceil_paged_tokens A (extend_input_len r)
         in if input_tokens \<ge> rem_input_tokens A \<and> can_run_list A \<noteq> [] then Inr (Some OTHER, r, A, tc)
            else case dllm A of
              Some d \<Rightarrow>
                if rem_dllm_tokens d \<le> 0 then Inr (Some OTHER, r, A, tc)
                else py_assert (align = None)
                  (case add_dllm_req E d r prefix_len A of (r', A') \<Rightarrow>
                   py_bind (pc_inc_lock (last_node r') tc) (\<lambda>tc'. Inr (None, r', A', tc')))
            | None \<Rightarrow>
                (case rem_chunk_tokens A of
                   Some c \<Rightarrow>
                     if input_tokens \<le> c
                     then py_bind (pc_inc_lock (last_node r) tc) (\<lambda>tc'.
                          Inr (None, r, update_prefill_budget E prefix_len input_tokens (min (max_new_tokens r) (clip_max_new_tokens E))
                                 (A\<lparr>can_run_list := can_run_list A @ [r]\<rparr>), tc'))
                     else (case truncation_len A align c prefix_len of
                         None \<Rightarrow> Inr (Some OTHER, r, A, tc)
                       | Some t \<Rightarrow>
                           (let r1 = set_extend_input_len t r; r2 = r1\<lparr>fill_ids := py_upto (fill_ids r1) (prefix_len + t)\<rparr>
                            in py_bind (pc_inc_lock (last_node r2) tc) (\<lambda>tc'.
                               Inr (None, r2, update_prefill_budget E prefix_len t 0
                                 (A\<lparr>can_run_list := can_run_list A @ [r2], new_chunked_req := Some r2\<rparr>), tc'))))
                 | None \<Rightarrow>
                     py_bind (pc_inc_lock (last_node r) tc) (\<lambda>tc'.
                     Inr (None, r, update_prefill_budget E prefix_len input_tokens (min (max_new_tokens r) (clip_max_new_tokens E))
                            (A\<lparr>can_run_list := can_run_list A @ [r]\<rparr>), tc')))))"

definition add_one_req ::
  "'al adder_env \<Rightarrow> int option \<Rightarrow> sched_req \<Rightarrow> adder \<Rightarrow> 'al prefix_cache \<Rightarrow>
     (add_req_result \<times> sched_req \<times> adder \<times> 'al prefix_cache) py" where
  "add_one_req E align r A tc =
     (if delayer_allows E = Some False then Inr (OTHER, r, A, tc)
      else if (nsa_prefill_cp_in_seq_split E \<or> prefill_context_parallel_enabled E) \<and> can_run_list A \<noteq> [] then Inr (OTHER, r, A, tc)
      else if (case prefill_max_requests A of Some x \<Rightarrow> int (length (can_run_list A)) \<ge> x | None \<Rightarrow> False) then Inr (OTHER, r, A, tc)
      else if ignore_eos r \<and> pc_disable tc
      then (case add_one_req_ignore_eos E r A tc of (res, r', A') \<Rightarrow> Inr (res, r', A', tc))
      else
       (let max_new = min (max (max_new_tokens r - int (length (output_ids r))) 0) (clip_max_new_tokens E);
            total_tokens = of_int (extend_input_len r + max_new + ad_page_size A);
            real_input_tokens = ceil_paged_tokens A (extend_input_len r - host_hit_length r)
        in if total_tokens \<ge> rem_total_tokens E A tc then Inr (NO_TOKEN, r, A, tc)
           else if is_hybrid_swa E \<and> swa_budget_for_req E A (extend_input_len r) \<ge> rem_swa_tokens E A tc then Inr (NO_TOKEN, r, A, tc)
           else if real_input_tokens \<ge> rem_input_tokens A \<and> can_run_list A \<noteq> [] then Inr (OTHER, r, A, tc)
           else
            py_bind (pc_inc_lock (last_node r) tc) (\<lambda>tc1.
            py_bind (add_locked E align total_tokens r A tc1) (\<lambda>(early, r', A', tc2).
            py_bind (pc_dec_lock (last_node r) tc2) (\<lambda>tc3.
            Inr (case early of Some res \<Rightarrow> res | None \<Rightarrow> budget_state E A' tc3, r', A', tc3))))))"

section \<open>The admission loop\<close>

text \<open>
  \<open>Req.init_next_round_input\<close>, for a request with text input and no session: at least one token is left to compute.
\<close>

definition max_prefix_len :: "sched_req \<Rightarrow> nat" where
  "max_prefix_len r =
     (let n = int (length (fill_ids r)) - 1
      in nat (max (if return_logprob r \<and> logprob_start_len r \<ge> 0 then min n (logprob_start_len r) else n) 0))"

definition init_next_round_input :: "sched_req \<Rightarrow> 'al prefix_cache \<Rightarrow> (sched_req \<times> 'al prefix_cache) py" where
  "init_next_round_input r0 tc0 =
     (let r = r0\<lparr>fill_ids := req_ids r0\<rparr>
      in py_bind (match_prefix_for_req tc0 r (Some (take (max_prefix_len r) (fill_ids r)))) (\<lambda>(r1, tc).
         let r2 = r1\<lparr>cache_protected_len := length (prefix_indices r1)\<rparr>
         in Inr (set_extend_input_len (int (length (fill_ids r2)) - int (length (prefix_indices r2))) r2, tc)))"

text \<open>
  The loop over the waiting queue, without LoRA adapters, host cache and preemption: \<open>slots_left\<close> is
  \<open>get_num_allocatable_reqs\<close>. The requests are returned with what the loop did to them, and whether the batch is full.
\<close>

fun admit_loop ::
  "'al adder_env \<Rightarrow> int option \<Rightarrow> int \<Rightarrow> sched_req list \<Rightarrow> adder \<Rightarrow> 'al prefix_cache \<Rightarrow>
     (bool \<times> sched_req list \<times> adder \<times> 'al prefix_cache) py" where
  "admit_loop E align slots_left [] A tc = Inr (False, [], A, tc)"
| "admit_loop E align slots_left (r # rs) A tc =
     (if int (length (can_run_list A)) \<ge> slots_left then Inr (True, r # rs, A, tc)
      else
       py_bind (init_next_round_input r tc) (\<lambda>(r1, tc1).
       py_bind (add_one_req E align r1 A tc1) (\<lambda>(res, r2, A2, tc2).
       if res \<noteq> CONTINUE then Inr (res = NO_TOKEN, r2 # rs, A2, tc2)
       else py_bind (admit_loop E align slots_left rs A2 tc2) (\<lambda>(full, rs', A', tc'). Inr (full, r2 # rs', A', tc')))))"

section \<open>Preemption\<close>

definition reset_for_retract :: "sched_req \<Rightarrow> sched_req" where
  "reset_for_retract r = r\<lparr>prefix_indices := [], last_node := None, cache_protected_len := 0, extend_input_len := 0,
     extend_logprob_start_len := 0, is_chunked := 0, kv_allocated_len := 0, committed_len := 0, kv_committed_freed := False,
     kv_overallocated_freed := False\<rparr>"

text \<open>
  \<open>ScheduleBatch.release_req\<close> outside disaggregated decoding and sparse attention; \<open>steps\<close> is
  \<open>SGLANG_RETRACT_DECODE_STEPS\<close>.
\<close>

definition release_req ::
  "'al alloc_ops \<Rightarrow> bool \<Rightarrow> bool \<Rightarrow> table \<Rightarrow> int \<Rightarrow> int \<Rightarrow> sched_req \<Rightarrow> 'al prefix_cache \<Rightarrow> req_pool \<Rightarrow>
     (sched_req \<times> 'al prefix_cache \<times> req_pool) py" where
  "release_req ops spec strip tab steps remaining r tc pool =
     py_bind (release_kv_cache ops spec strip tab False (cache_req.truncate r) tc pool) (\<lambda>(r1, tc1, pool1).
     py_bind (evict_from_tree_cache ops tc1 (remaining * steps)) (\<lambda>tc2.
     Inr (reset_for_retract (r\<lparr>req_pool_idx := req_pool_idx r1\<rparr>), tc2, pool1)))"

text \<open>Requests are preempted from the least urgent on, as long as they are less urgent by more than the threshold.\<close>

fun preempt_scan ::
  "'al adder_env \<Rightarrow> adder \<Rightarrow> int \<Rightarrow> int \<Rightarrow> sched_req list \<Rightarrow> sched_req list \<Rightarrow> rat \<Rightarrow> (sched_req list \<times> rat) py" where
  "preempt_scan E A prio sign [] chosen need = Inr (chosen, need)"
| "preempt_scan E A prio sign (x # xs) chosen need =
     (case req_priority x of None \<Rightarrow> Inl TypeError
      | Some p \<Rightarrow>
        if (prio - p) * (- sign) > preemption_threshold A
        then (let need' = need - running_offset E (new_token_ratio A) x
              in if need' \<le> 0 then Inr (chosen @ [x], need') else preempt_scan E A prio sign xs (chosen @ [x]) need')
        else Inr (chosen, need))"

definition preempt_candidates :: "adder \<Rightarrow> int \<Rightarrow> sched_req list \<Rightarrow> sched_req list py" where
  "preempt_candidates A sign running =
     py_sort (\<lambda>r. py_bind (signed_priority (- sign) r) (\<lambda>p. Inr (p, - wait_queue_entry_time r)))
       (filter (\<lambda>r. rid r \<notin> rid ` set (preempt_list A) \<and> \<not> is_finished r) running)"

record 'al preempt_state =
  ps_adder :: adder
  ps_cache :: "'al prefix_cache"
  ps_pool :: req_pool
  ps_kept :: "sched_req list"
  ps_released :: "sched_req list"

definition preempt_one ::
  "'al adder_env \<Rightarrow> bool \<Rightarrow> bool \<Rightarrow> table \<Rightarrow> int \<Rightarrow> int \<Rightarrow> string list \<Rightarrow> sched_req \<Rightarrow> 'al preempt_state \<Rightarrow> 'al preempt_state py" where
  "preempt_one E spec strip tab steps total_reqs chosen r S =
     (if rid r \<in> set chosen
      then (let A1 = (ps_adder S)\<lparr>rem_total_token_offset := rem_total_token_offset (ps_adder S) -
                        running_offset E (new_token_ratio (ps_adder S)) r\<rparr>;
                remaining = total_reqs - int (Suc (length (ps_released S)))
            in py_bind (release_req (env_ops E) spec strip tab steps remaining r (ps_cache S) (ps_pool S)) (\<lambda>(r', tc', pool').
               Inr (S\<lparr>ps_adder := A1, ps_cache := tc', ps_pool := pool', ps_released := ps_released S @ [r']\<rparr>)))
      else Inr (S\<lparr>ps_kept := ps_kept S @ [r]\<rparr>))"

definition preempt_to_schedule ::
  "'al adder_env \<Rightarrow> bool \<Rightarrow> bool \<Rightarrow> table \<Rightarrow> int \<Rightarrow> bool \<Rightarrow> sched_req \<Rightarrow> sched_req list \<Rightarrow> adder \<Rightarrow> 'al prefix_cache \<Rightarrow> req_pool \<Rightarrow>
     (bool \<times> 'al preempt_state) py" where
  "preempt_to_schedule E spec strip tab steps low_first r running A tc pool =
     (let sign = (if low_first then 1 else -1);
          S = \<lparr>ps_adder = A, ps_cache = tc, ps_pool = pool, ps_kept = [], ps_released = []\<rparr>;
          need = of_int (extend_input_len r + min (max_new_tokens r) (clip_max_new_tokens E)) - rem_total_tokens E A tc
      in py_bind (preempt_candidates A sign running) (\<lambda>cands.
         py_bind (case req_priority r of None \<Rightarrow> if cands = [] then Inr 0 else Inl TypeError | Some p \<Rightarrow> Inr p) (\<lambda>prio.
         py_bind (preempt_scan E A prio sign cands [] need) (\<lambda>(chosen, need').
         if chosen = [] \<or> need' > 0 then Inr (False, S\<lparr>ps_kept := running\<rparr>)
         else py_bind (py_for (preempt_one E spec strip tab steps (int (length running)) (map rid chosen)) running S) (\<lambda>S'.
              Inr (True, S'\<lparr>ps_adder := (ps_adder S')\<lparr>preempt_list := preempt_list A @ ps_released S', running_reqs := Some (ps_kept S')\<rparr>\<rparr>))))))"

text \<open>
  The chosen requests are a prefix of the candidates, each less urgent than the new request by more than the threshold, and
  what is still needed has dropped by their offsets; scanning stops when nothing is needed any more.
\<close>

lemma preempt_scan_spec:
  assumes "preempt_scan E A prio sign xs chosen need = Inr (chosen', need')"
  shows "\<exists>ys zs. xs = ys @ zs \<and> chosen' = chosen @ ys \<and> need' = need - sum_list (map (running_offset E (new_token_ratio A)) ys) \<and>
    (\<forall>y \<in> set ys. \<exists>p. req_priority y = Some p \<and> (prio - p) * (- sign) > preemption_threshold A) \<and>
    (\<forall>n < length ys. n = 0 \<or> 0 < need - sum_list (map (running_offset E (new_token_ratio A)) (take n ys)))"
  using assms
proof (induction xs arbitrary: chosen need)
  case (Cons x xs)
  let ?o = "running_offset E (new_token_ratio A)"
  obtain p where p: "req_priority x = Some p" using Cons.prems by (auto split: option.splits)
  consider (stop) "\<not> (prio - p) * (- sign) > preemption_threshold A" "chosen' = chosen" "need' = need"
    | (last) "(prio - p) * (- sign) > preemption_threshold A" "need - ?o x \<le> 0" "chosen' = chosen @ [x]" "need' = need - ?o x"
    | (more) "(prio - p) * (- sign) > preemption_threshold A" "0 < need - ?o x"
        "preempt_scan E A prio sign xs (chosen @ [x]) (need - ?o x) = Inr (chosen', need')"
    using Cons.prems p by (auto simp: Let_def not_le split: if_splits)
  then show ?case
  proof cases
    case stop
    then show ?thesis by (intro exI [of _ "[]"] exI [of _ "x # xs"]) simp
  next
    case last
    then show ?thesis using p by (intro exI [of _ "[x]"] exI [of _ xs]) simp
  next
    case more
    from Cons.IH [OF more(3)] obtain ys zs where y: "xs = ys @ zs" "chosen' = (chosen @ [x]) @ ys" "need' = need - ?o x - sum_list (map ?o ys)"
      "\<forall>y \<in> set ys. \<exists>p. req_priority y = Some p \<and> (prio - p) * (- sign) > preemption_threshold A"
      "\<forall>n < length ys. n = 0 \<or> 0 < need - ?o x - sum_list (map ?o (take n ys))" by blast
    have "\<forall>n < length (x # ys). n = 0 \<or> 0 < need - sum_list (map ?o (take n (x # ys)))"
    proof (intro allI impI)
      fix n assume n: "n < length (x # ys)"
      show "n = 0 \<or> 0 < need - sum_list (map ?o (take n (x # ys)))"
      proof (cases n)
        case (Suc m)
        then show ?thesis using y(5) n more(2) by (cases m) (auto simp: algebra_simps)
      qed simp
    qed
    then show ?thesis using y(1-4) more(1) p by (intro exI [of _ "x # ys"] exI [of _ zs]) (simp add: algebra_simps)
  qed
qed simp

lemma preempt_loop:
  assumes "py_for (preempt_one E spec strip tab steps n chosen) rs S = Inr S'"
  shows "ps_kept S' = ps_kept S @ filter (\<lambda>r. rid r \<notin> set chosen) rs \<and>
    map rid (ps_released S') = map rid (ps_released S) @ map rid (filter (\<lambda>r. rid r \<in> set chosen) rs) \<and>
    new_token_ratio (ps_adder S') = new_token_ratio (ps_adder S) \<and>
    rem_total_token_offset (ps_adder S') = rem_total_token_offset (ps_adder S) -
      sum_list (map (running_offset E (new_token_ratio (ps_adder S))) (filter (\<lambda>r. rid r \<in> set chosen) rs))"
  using assms
proof (induction rs arbitrary: S)
  case (Cons r rs)
  obtain S1 where s1: "preempt_one E spec strip tab steps n chosen r S = Inr S1" "py_for (preempt_one E spec strip tab steps n chosen) rs S1 = Inr S'"
    using Cons.prems by (auto simp: py_bind_eq_Inr)
  show ?case
  proof (cases "rid r \<in> set chosen")
    case True
    then obtain r' tc' pool' where "release_req (env_ops E) spec strip tab steps (n - int (Suc (length (ps_released S)))) r (ps_cache S) (ps_pool S) =
        Inr (r', tc', pool')"
      "S1 = S\<lparr>ps_adder := (ps_adder S)\<lparr>rem_total_token_offset := rem_total_token_offset (ps_adder S) - running_offset E (new_token_ratio (ps_adder S)) r\<rparr>,
              ps_cache := tc', ps_pool := pool', ps_released := ps_released S @ [r']\<rparr>"
      using s1(1) by (auto simp: preempt_one_def Let_def py_bind_eq_Inr)
    moreover from this have "rid r' = rid r" by (auto simp: release_req_def reset_for_retract_def py_bind_eq_Inr)
    ultimately show ?thesis using Cons.IH [OF s1(2)] True by (simp add: algebra_simps)
  next
    case False
    then have "S1 = S\<lparr>ps_kept := ps_kept S @ [r]\<rparr>" using s1(1) by (simp add: preempt_one_def)
    then show ?thesis using Cons.IH [OF s1(2)] False by simp
  qed
qed simp

lemma py_sort_set:
  assumes "py_sort key xs = Inr ys"
  shows "set ys = set xs"
proof -
  have "map snd ps = map snd ps0 @ xs" if "py_for (\<lambda>x ps. py_bind (key x) (\<lambda>k. Inr (ps @ [(k, x)]))) xs ps0 = Inr ps" for ps0 ps
    using that by (induction xs arbitrary: ps0) (auto simp: py_bind_eq_Inr)
  then have "map snd ps = xs" if "py_for (\<lambda>x ps. py_bind (key x) (\<lambda>k. Inr (ps @ [(k, x)]))) xs [] = Inr ps" for ps
    using that by fastforce
  moreover obtain ps where "py_for (\<lambda>x ps. py_bind (key x) (\<lambda>k. Inr (ps @ [(k, x)]))) xs [] = Inr ps" "ys = map snd (sort_key fst ps)"
    using assms by (auto simp: py_sort_def py_bind_eq_Inr)
  ultimately have "set ys = snd ` set ps" "map snd ps = xs" by simp_all
  then show ?thesis by (metis set_map)
qed


section \<open>Locks and the evictable size\<close>

text \<open>The evictable size depends on which nodes hold locks, not on how many.\<close>

lemma evictable_same:
  assumes inv: "radix_inv D rk H s" "radix_inv D rk' H' s'" and r: "root_node s' = root_node s" "set_mset H' = set_mset H"
    and sh: "shape s' = add_locks b d P (shape s)"
  shows "evictable_size s' = evictable_size s"
proof -
  have z: "c_lock (cells (shape s) a) = 0 \<longleftrightarrow> (\<forall>x. x \<in># H \<longrightarrow> \<not> up (shape s) x a)" if "a \<in> D - {root_node s}" for a
    using radix_invD(4) [OF inv(1)] that by (auto simp: locks_ok_def filter_mset_eq_conv)
  have z': "c_lock (cells (shape s') a) = 0 \<longleftrightarrow> (\<forall>x. x \<in># H' \<longrightarrow> \<not> up (shape s') x a)" if "a \<in> D - {root_node s'}" for a
    using radix_invD(4) [OF inv(2)] that by (auto simp: locks_ok_def filter_mset_eq_conv)
  have k: "c_key (cells (shape s') a) = c_key (cells (shape s) a)" if "a \<in> D" for a
    using tree_okD(4) [OF radix_invD(1) [OF inv(1)] that] unfolding sh by (auto simp: add_locks_def)
  have "evictable_size s' = (\<Sum>a \<in> D - {root_node s'}. if c_lock (cells (shape s') a) = 0 then int (key_len (c_key (cells (shape s') a))) else 0)"
    using radix_invD(3) [OF inv(2)] unfolding acct_def by blast
  also have "\<dots> = (\<Sum>a \<in> D - {root_node s}. if c_lock (cells (shape s) a) = 0 then int (key_len (c_key (cells (shape s) a))) else 0)"
    unfolding r(1)
  proof (rule sum.cong [OF refl])
    fix a assume a: "a \<in> D - {root_node s}"
    then have "c_lock (cells (shape s') a) = 0 \<longleftrightarrow> c_lock (cells (shape s) a) = 0"
      using z [OF a] z' [of a] r unfolding sh up_add_locks by simp
    then show "(if c_lock (cells (shape s') a) = 0 then int (key_len (c_key (cells (shape s') a))) else 0) =
        (if c_lock (cells (shape s) a) = 0 then int (key_len (c_key (cells (shape s) a))) else 0)"
      using k a by simp
  qed
  also have "\<dots> = evictable_size s" using radix_invD(3) [OF inv(1)] unfolding acct_def by simp
  finally show ?thesis .
qed

lemma pc_inc_lock_ok:
  assumes "radix_inv D rk H s" "a \<in> D" "\<not> disable s"
  shows "\<exists>s'. pc_inc_lock (Some a) (RadixTree s) = Inr (RadixTree s') \<and> radix_inv D rk (add_mset a H) s' \<and> lock_frame s s' \<and>
    (a \<in># H \<longrightarrow> evictable_size s' = evictable_size s)"
proof -
  obtain s' where s': "inc_lock_ref a s = Inr (evictable_size s' - evictable_size s, s')" "radix_inv D rk (add_mset a H) s'" "lock_frame s s'"
    "shape s' = add_locks (root_node s) 1 (up (shape s) a) (shape s)"
    using inc_lock_ref_ok [OF assms] by blast
  have "evictable_size s' = evictable_size s" if "a \<in># H"
    by (rule evictable_same [OF assms(1) s'(2) lock_frameD(3) [OF s'(3)] _ s'(4)]) (use that in auto)
  then show ?thesis using s' assms(3) by (simp add: pc_inc_lock_def attr_def)
qed

lemma pc_dec_lock_ok:
  assumes "radix_inv D rk (add_mset a H) s" "\<not> disable s"
  shows "\<exists>s'. pc_dec_lock (Some a) (RadixTree s) = Inr (RadixTree s') \<and> radix_inv D rk H s' \<and> lock_frame s s' \<and>
    (a \<in># H \<longrightarrow> evictable_size s' = evictable_size s)"
proof -
  obtain s' where s': "dec_lock_ref a s = Inr (evictable_size s' - evictable_size s, s')" "radix_inv D rk H s'" "lock_frame s s'"
    "shape s' = add_locks (root_node s) (-1) (up (shape s) a) (shape s)"
    using dec_lock_ref_ok [OF assms(1), of a] assms(2) by auto
  have "evictable_size s' = evictable_size s" if "a \<in># H"
    by (rule evictable_same [OF assms(1) s'(2) lock_frameD(3) [OF s'(3)] _ s'(4)]) (use that in auto)
  then show ?thesis using s' assms(2) by (simp add: pc_dec_lock_def attr_def)
qed

text \<open>Locking and unlocking gives the sizes back.\<close>

lemma lock_unlock_evictable:
  assumes "radix_inv D rk H s" "radix_inv D rk (add_mset a H) s1" "pc_inc_lock (Some a) (RadixTree s) = Inr (RadixTree s1)"
    "pc_dec_lock (Some a) (RadixTree s1) = Inr (RadixTree s2)" "radix_inv D rk H s2" "\<not> disable s" "a \<in> D"
  shows "evictable_size s2 = evictable_size s"
proof -
  obtain x s1' where i: "inc_lock_ref a s = Inr (x, s1')" "lock_frame s s1'" "shape s1' = add_locks (root_node s) 1 (up (shape s) a) (shape s)"
    using inc_lock_ref_ok [OF assms(1,7,6)] by blast
  have e: "s1' = s1" using i(1) assms(3,6) by (simp add: pc_inc_lock_def attr_def)
  have en: "\<not> disable s1" using lock_frameD(5) [OF i(2)] assms(6) e by simp
  obtain y s2' where d: "dec_lock_ref a s1 = Inr (y, s2')" "lock_frame s1 s2'" "shape s2' = add_locks (root_node s1) (-1) (up (shape s1) a) (shape s1)"
    using dec_lock_ref_ok [OF assms(2), of a] en by auto
  have e2: "s2' = s2" using d(1) assms(4) en by (simp add: pc_dec_lock_def attr_def)
  have "shape s2 = add_locks 0 0 (\<lambda>_. False) (shape s)"
    using d(3) i(3) lock_frameD(3) [OF i(2)] unfolding e e2 up_add_locks
    by (auto simp: add_locks_def fun_eq_iff option.map_comp comp_def up_add_locks [unfolded add_locks_def] cong: option.map_cong)
  then show ?thesis
    using evictable_same [OF assms(1,5)] lock_frameD(3) [OF i(2)] lock_frameD(3) [OF d(2)] e e2 by simp
qed

section \<open>Rounding to pages\<close>

lemma ceil_paged_bounds:
  assumes "0 < ad_page_size A"
  shows "n \<le> ceil_paged_tokens A n" "ceil_paged_tokens A n < n + ad_page_size A" "ad_page_size A dvd ceil_paged_tokens A n"
proof -
  have e: "- n = (- n div ad_page_size A) * ad_page_size A + - n mod ad_page_size A" by (metis div_mult_mod_eq)
  have "0 \<le> - n mod ad_page_size A" "- n mod ad_page_size A < ad_page_size A" using assms by simp_all
  then show "n \<le> ceil_paged_tokens A n" "ceil_paged_tokens A n < n + ad_page_size A" unfolding ceil_paged_tokens_def using e by linarith+
qed (simp add: ceil_paged_tokens_def)

lemma ceil_paged_least:
  assumes "0 < ad_page_size A" "n \<le> m" "ad_page_size A dvd m"
  shows "ceil_paged_tokens A n \<le> m"
proof -
  obtain k where k: "m = ad_page_size A * k" using assms(3) by blast
  obtain j where j: "ceil_paged_tokens A n = ad_page_size A * j" using ceil_paged_bounds(3) [OF assms(1)] by blast
  have "ad_page_size A * j < ad_page_size A * (k + 1)" using ceil_paged_bounds(2) [OF assms(1), of n] assms(2) unfolding j k by (simp add: algebra_simps)
  then show ?thesis unfolding j k using assms(1) by simp
qed

lemma ceil_paged_idem:
  assumes "0 < ad_page_size A"
  shows "ceil_paged_tokens A (ceil_paged_tokens A n) = ceil_paged_tokens A n"
  using ceil_paged_least [OF assms order_refl ceil_paged_bounds(3) [OF assms]] ceil_paged_bounds(1) [OF assms] by (simp add: antisym)

lemma truncation_len_bounds:
  assumes "0 < ad_page_size A" "\<forall>al. align = Some al \<longrightarrow> 0 < al" "truncation_len A align c p = Some t"
  shows "0 < t" "t \<le> c" "ceil_paged_tokens A t \<le> c"
proof -
  let ?ps = "ad_page_size A"
  let ?t0 = "c div ?ps * ?ps"
  have t0: "?t0 \<le> c" using assms(1) by (metis div_mult_mod_eq le_add_same_cancel1 pos_mod_sign)
  obtain t1 where t1: "(case align of None \<Rightarrow> Some ?t0 | Some al \<Rightarrow> if ?t0 < al then None else Some (al * (?t0 div al))) = Some t1"
    "t = (t1 + p) div ?ps * ?ps - p" "0 < t"
    using assms(3) by (auto simp: truncation_len_def Let_def split: if_splits option.splits)
  have "t1 \<le> ?t0"
  proof (cases align)
    case (Some al)
    then have "t1 = al * (?t0 div al)" using t1(1) by (simp split: if_splits)
    then show ?thesis using assms(2) Some by (metis le_add_same_cancel1 mult_div_mod_eq pos_mod_sign)
  qed (use t1(1) in simp)
  moreover have "(t1 + p) div ?ps * ?ps \<le> t1 + p" using assms(1) by (metis div_mult_mod_eq le_add_same_cancel1 pos_mod_sign)
  ultimately have "t \<le> ?t0" using t1(2) by linarith
  then show "0 < t" "t \<le> c" "ceil_paged_tokens A t \<le> c" using t1(3) t0 ceil_paged_least [OF assms(1), of t ?t0] by auto
qed

section \<open>The budget covers what was admitted\<close>

text \<open>
  \<open>reserved\<close> is what the admitted requests may take from the pool: their pages and one more page each. The offsets of
  the adder cover it, and it is within what is available and evictable, up to less than a page.
\<close>

definition reserved :: "adder \<Rightarrow> int" where
  "reserved A = sum_list (map (\<lambda>r. ceil_paged_tokens A (extend_input_len r) + ad_page_size A) (can_run_list A))"

definition offsets_ok :: "adder \<Rightarrow> bool" where
  "offsets_ok A \<longleftrightarrow> 0 < ad_page_size A \<and> dllm A = None \<and> of_int (cur_rem_token_offset A) \<le> rem_total_token_offset A \<and>
     reserved A \<le> cur_rem_token_offset A"

definition within_pool :: "'al adder_env \<Rightarrow> adder \<Rightarrow> 'al prefix_cache \<Rightarrow> bool" where
  "within_pool E A tc \<longleftrightarrow> can_run_list A = [] \<or> reserved A < available_and_evictable E tc + ad_page_size A"

lemma update_budget_fields [simp]:
  "can_run_list (update_prefill_budget E p n m A) = can_run_list A" "ad_page_size (update_prefill_budget E p n m A) = ad_page_size A"
  "ceil_paged_tokens (update_prefill_budget E p n m A) = ceil_paged_tokens A" "dllm (update_prefill_budget E p n m A) = None \<longleftrightarrow> dllm A = None"
  "ceil_paged_tokens (A\<lparr>can_run_list := c\<rparr>) = ceil_paged_tokens A" "ceil_paged_tokens (A\<lparr>new_chunked_req := q\<rparr>) = ceil_paged_tokens A"
  "rem_total_token_offset (update_prefill_budget E p n m A) = rem_total_token_offset A + of_int (ceil_paged_tokens A n + m + ad_page_size A)"
  "cur_rem_token_offset (update_prefill_budget E p n m A) = cur_rem_token_offset A + (ceil_paged_tokens A n + ad_page_size A)"
  by (simp_all add: update_prefill_budget_def Let_def ceil_paged_tokens_def fun_eq_iff)

text \<open>The step of every branch of \<open>add_one_req\<close> that admits: \<open>B\<close> is the adder with the request in the list.\<close>

lemma admit_budget:
  assumes ok: "offsets_ok A" and B: "can_run_list B = can_run_list A @ [r]" "ad_page_size B = ad_page_size A" "dllm B = dllm A"
      "cur_rem_token_offset B = cur_rem_token_offset A" "rem_total_token_offset B = rem_total_token_offset A"
    and n: "ceil_paged_tokens A n = ceil_paged_tokens A (extend_input_len r)" "ceil_paged_tokens A n \<le> ceil_paged_tokens A ext"
    and m: "0 \<le> m" "0 \<le> mx" and fits: "of_int (ext + mx + ad_page_size A) < rem_total_tokens E A tc"
  shows "offsets_ok (update_prefill_budget E p n m B)" "within_pool E (update_prefill_budget E p n m B) tc"
proof -
  let ?A' = "update_prefill_budget E p n m B" and ?ps = "ad_page_size A"
  have ps: "0 < ?ps" "of_int (cur_rem_token_offset A) \<le> rem_total_token_offset A" "reserved A \<le> cur_rem_token_offset A" "dllm A = None"
    using ok by (simp_all add: offsets_ok_def)
  have cB: "ceil_paged_tokens B = ceil_paged_tokens A" using B(2) by (simp add: ceil_paged_tokens_def fun_eq_iff)
  have res: "reserved ?A' = reserved A + (ceil_paged_tokens A n + ?ps)" using B(1,2) n(1) by (simp add: reserved_def cB)
  have "of_int (cur_rem_token_offset A + (ceil_paged_tokens A n + ?ps)) \<le> rem_total_token_offset A + of_int (ceil_paged_tokens A n + m + ?ps)"
    using ps(2) m(1) by simp
  then show "offsets_ok ?A'" using ps B by (simp add: offsets_ok_def res cB)
  have "of_int (ext + mx + ?ps) < (of_int (available_and_evictable E tc - cur_rem_token_offset A) :: rat)"
    using fits ps(2) unfolding rem_total_tokens_def of_int_diff by linarith
  then have "ext + mx + ?ps < available_and_evictable E tc - cur_rem_token_offset A" by (simp only: of_int_less_iff)
  moreover have "ceil_paged_tokens A n < ext + ?ps" using n(2) ceil_paged_bounds(2) [OF ps(1), of ext] by linarith
  ultimately show "within_pool E ?A' tc" using ps(3) m(2) B(2) by (simp add: within_pool_def res)
qed

section \<open>Adding one request\<close>

definition plain_env :: "'al adder_env \<Rightarrow> bool" where
  "plain_env E \<longleftrightarrow> \<not> is_hybrid_swa E \<and> \<not> is_hybrid_ssm_cache E \<and> 0 \<le> clip_max_new_tokens E"

lemma plain_available:
  "plain_env E \<Longrightarrow> available_and_evictable E (RadixTree s) = op_available (env_ops E) (kv_allocator s) + evictable_size s"
  by (simp add: plain_env_def available_and_evictable_def pc_allocator_def pc_evictable_def)

lemma within_pool_same:
  "plain_env E \<Longrightarrow> kv_allocator s' = kv_allocator s \<Longrightarrow> evictable_size s' = evictable_size s \<Longrightarrow>
   within_pool E A (RadixTree s') \<longleftrightarrow> within_pool E A (RadixTree s)"
  by (simp add: within_pool_def plain_available)

lemma set_extend_fields [simp]:
  "extend_input_len (set_extend_input_len n r) = n" "last_node (set_extend_input_len n r) = last_node r"
  "prefix_indices (set_extend_input_len n r) = prefix_indices r" "fill_ids (set_extend_input_len n r) = fill_ids r"
  "rid (set_extend_input_len n r) = rid r" "host_hit_length (set_extend_input_len n r) = host_hit_length r" "max_new_tokens (set_extend_input_len n r) = max_new_tokens r"
  by (simp_all add: set_extend_input_len_def Let_def)

text \<open>Under the lock: nothing changes, or the request is in the list, holds a lock of its own and is paid for.\<close>

lemma add_locked_ok:
  assumes inv: "radix_inv D rk H s" and a: "a \<in># H" "last_node r = Some a" and en: "\<not> disable s" and E: "plain_env E"
    and r: "host_hit_length r = 0" "0 \<le> extend_input_len r" "0 \<le> max_new_tokens r" and ok: "offsets_ok A"
    and al: "\<forall>al. align = Some al \<longrightarrow> 0 < al" and mx: "0 \<le> mx"
    and tot: "need = of_int (extend_input_len r + mx + ad_page_size A)"
  shows "(\<exists>res. add_locked E align need r A (RadixTree s) = Inr (Some res, r, A, RadixTree s)) \<or>
    (\<exists>r' A' s'. add_locked E align need r A (RadixTree s) = Inr (None, r', A', RadixTree s') \<and> can_run_list A' = can_run_list A @ [r'] \<and> ad_page_size A' = ad_page_size A \<and>
       last_node r' = Some a \<and> rid r' = rid r \<and> 0 \<le> extend_input_len r' \<and> offsets_ok A' \<and> within_pool E A' (RadixTree s') \<and>
       radix_inv D rk (add_mset a H) s' \<and> lock_frame s s' \<and> evictable_size s' = evictable_size s)"
proof -
  have aD: "a \<in> D" using radix_invD(4) [OF inv] a(1) by (auto simp: locks_ok_def)
  obtain s' where s': "pc_inc_lock (Some a) (RadixTree s) = Inr (RadixTree s')" "radix_inv D rk (add_mset a H) s'" "lock_frame s s'"
    "evictable_size s' = evictable_size s"
    using pc_inc_lock_ok [OF inv aD en] a(1) by blast
  have swa: "\<not> is_hybrid_swa E" and clip: "0 \<le> clip_max_new_tokens E" using E by (simp_all add: plain_env_def)
  have d: "dllm A = None" and ps: "0 < ad_page_size A" using ok by (simp_all add: offsets_ok_def)
  let ?in = "ceil_paged_tokens A (extend_input_len r)" and ?p = "int (length (prefix_indices r))"
  have fits': "of_int (extend_input_len r + mx + ad_page_size A) < rem_total_tokens E A (RadixTree s')"
    if "\<not> need \<ge> rem_total_tokens E A (RadixTree s)"
    using that tot s'(4) lock_frameD(6) [OF s'(3)] by (simp add: rem_total_tokens_def plain_available [OF E])
  define whole where "whole = update_prefill_budget E ?p ?in (min (max_new_tokens r) (clip_max_new_tokens E)) (A\<lparr>can_run_list := can_run_list A @ [r]\<rparr>)"
  have w: "offsets_ok whole" "within_pool E whole (RadixTree s')" if "\<not> need \<ge> rem_total_tokens E A (RadixTree s)"
    unfolding whole_def
    using admit_budget [OF ok, where ext = "extend_input_len r" and mx = mx and r = r and tc = "RadixTree s'" and E = E and n = ?in
        and B = "A\<lparr>can_run_list := can_run_list A @ [r]\<rparr>"] r(3) clip mx fits' [OF that]
    by (simp_all add: ceil_paged_idem [OF ps])
  show ?thesis
  proof (cases "need \<ge> rem_total_tokens E A (RadixTree s) \<or> ?in \<ge> rem_input_tokens A \<and> can_run_list A \<noteq> []")
    case True
    then show ?thesis using swa r(1) by (auto simp: add_locked_def Let_def)
  next
    case False
    show ?thesis
    proof (cases "\<exists>c. rem_chunk_tokens A = Some c \<and> \<not> ?in \<le> c")
      case False2: False
      then have "add_locked E align need r A (RadixTree s) = Inr (None, r, whole, RadixTree s')"
        using False swa r(1) d s'(1) a(2) by (auto simp: add_locked_def Let_def whole_def split: option.splits)
      then show ?thesis using w False s' a(2) r(2) by (auto simp: whole_def)
    next
      case True
      then obtain c where c: "rem_chunk_tokens A = Some c" "\<not> ?in \<le> c" by blast
      show ?thesis
      proof (cases "truncation_len A align c ?p")
        case None
        then show ?thesis using False swa r(1) d c by (auto simp: add_locked_def Let_def)
      next
        case (Some t)
        note t = truncation_len_bounds [OF ps al Some]
        define r2 where "r2 = (set_extend_input_len t r)\<lparr>fill_ids := py_upto (fill_ids r) (?p + t)\<rparr>"
        define part where "part = update_prefill_budget E ?p t 0 (A\<lparr>can_run_list := can_run_list A @ [r2], new_chunked_req := Some r2\<rparr>)"
        have "add_locked E align need r A (RadixTree s) = Inr (None, r2, part, RadixTree s')"
          using False swa r(1) d s'(1) a(2) c Some by (simp add: add_locked_def Let_def part_def r2_def)
        moreover have "offsets_ok part" "within_pool E part (RadixTree s')"
          unfolding part_def
          using admit_budget [OF ok, where ext = "extend_input_len r" and mx = mx and r = r2 and tc = "RadixTree s'" and E = E and n = t
              and B = "A\<lparr>can_run_list := can_run_list A @ [r2], new_chunked_req := Some r2\<rparr>" and m = 0] t(3) c(2) mx fits' False
          by (simp_all add: r2_def)
        ultimately show ?thesis using s' a(2) t(1) by (auto simp: part_def r2_def)
      qed
    qed
  qed
qed

lemma add_one_req_ok:
  assumes inv: "radix_inv D rk H s" and a: "a \<in> D" "last_node r = Some a" and en: "\<not> disable s" and E: "plain_env E"
    and r: "host_hit_length r = 0" "0 \<le> extend_input_len r" "0 \<le> max_new_tokens r" and ok: "offsets_ok A" "within_pool E A (RadixTree s)"
    and al: "\<forall>al. align = Some al \<longrightarrow> 0 < al"
  shows "\<exists>res r' A' s' H' new. add_one_req E align r A (RadixTree s) = Inr (res, r', A', RadixTree s') \<and> can_run_list A' = can_run_list A @ new \<and>
    ad_page_size A' = ad_page_size A \<and> (new = [] \<and> r' = r \<and> H' = H \<or> new = [r'] \<and> last_node r' = Some a \<and> rid r' = rid r \<and> 0 \<le> extend_input_len r' \<and> H' = add_mset a H) \<and>
    offsets_ok A' \<and> within_pool E A' (RadixTree s') \<and> radix_inv D rk H' s' \<and> lock_frame s s'"
proof -
  define mx where "mx = min (max (max_new_tokens r - int (length (output_ids r))) 0) (clip_max_new_tokens E)"
  define need :: rat where "need = of_int (extend_input_len r + mx + ad_page_size A)"
  have mx0: "0 \<le> mx" using E by (simp add: mx_def plain_env_def)
  have swa: "\<not> is_hybrid_swa E" using E by (simp add: plain_env_def)
  obtain s1 where s1: "pc_inc_lock (Some a) (RadixTree s) = Inr (RadixTree s1)" "radix_inv D rk (add_mset a H) s1" "lock_frame s s1"
    using pc_inc_lock_ok [OF inv a(1) en] by blast
  have en1: "\<not> disable s1" using en lock_frameD(5) [OF s1(3)] by simp
  have cases: "(\<exists>res. add_one_req E align r A (RadixTree s) = Inr (res, r, A, RadixTree s)) \<or>
      add_one_req E align r A (RadixTree s) =
       py_bind (add_locked E align need r A (RadixTree s1)) (\<lambda>(early, r', A', tc2).
       py_bind (pc_dec_lock (Some a) tc2) (\<lambda>tc3. Inr (case early of Some res \<Rightarrow> res | None \<Rightarrow> budget_state E A' tc3, r', A', tc3)))"
    using en a(2) s1(1) by (auto simp: add_one_req_def Let_def mx_def need_def pc_disable_def split: option.split)
  from add_locked_ok [OF s1(2) _ a(2) en1 E r ok(1) al mx0 need_def]
  consider (early) res where "add_locked E align need r A (RadixTree s1) = Inr (Some res, r, A, RadixTree s1)"
    | (added) r' A' s2 where "add_locked E align need r A (RadixTree s1) = Inr (None, r', A', RadixTree s2)" "can_run_list A' = can_run_list A @ [r']"
       "ad_page_size A' = ad_page_size A" "last_node r' = Some a" "rid r' = rid r" "0 \<le> extend_input_len r'" "offsets_ok A'" "within_pool E A' (RadixTree s2)"
       "radix_inv D rk (add_mset a (add_mset a H)) s2" "lock_frame s1 s2"
    by auto
  then show ?thesis
  proof cases
    case early
    obtain s3 where s3: "pc_dec_lock (Some a) (RadixTree s1) = Inr (RadixTree s3)" "radix_inv D rk H s3" "lock_frame s1 s3"
      using pc_dec_lock_ok [OF s1(2) en1] by blast
    have ev: "evictable_size s3 = evictable_size s" by (rule lock_unlock_evictable [OF inv s1(2,1) s3(1,2) en a(1)])
    note f = lock_frame_trans [OF s1(3) s3(3)]
    have "within_pool E A (RadixTree s3)" using within_pool_same [OF E lock_frameD(6) [OF f] ev] ok(2) by simp
    then show ?thesis using cases early s3 f ok inv by (auto intro: exI [of _ H])
  next
    case added
    have en2: "\<not> disable s2" using en1 lock_frameD(5) [OF added(10)] by simp
    obtain s3 where s3: "pc_dec_lock (Some a) (RadixTree s2) = Inr (RadixTree s3)" "radix_inv D rk (add_mset a H) s3" "lock_frame s2 s3"
      "evictable_size s3 = evictable_size s2"
      using pc_dec_lock_ok [OF added(9) en2] by auto
    have w3: "within_pool E A' (RadixTree s3)" using within_pool_same [OF E lock_frameD(6) [OF s3(3)] s3(4)] added(8) by simp
    from cases show ?thesis
    proof
      assume "\<exists>res. add_one_req E align r A (RadixTree s) = Inr (res, r, A, RadixTree s)"
      then show ?thesis using ok inv lock_frame_refl [of s] by fastforce
    next
      assume "add_one_req E align r A (RadixTree s) = py_bind (add_locked E align need r A (RadixTree s1)) (\<lambda>(early, r', A', tc2).
        py_bind (pc_dec_lock (Some a) tc2) (\<lambda>tc3. Inr (case early of Some res \<Rightarrow> res | None \<Rightarrow> budget_state E A' tc3, r', A', tc3)))"
      then have "add_one_req E align r A (RadixTree s) = Inr (budget_state E A' (RadixTree s3), r', A', RadixTree s3)"
        using added(1) s3(1) by simp
      then show ?thesis using added s3 w3 lock_frame_trans [OF lock_frame_trans [OF s1(3) added(10)] s3(3)]
        by (intro exI [of _ "budget_state E A' (RadixTree s3)"] exI [of _ r'] exI [of _ A'] exI [of _ s3] exI [of _ "add_mset a H"]
            exI [of _ "[r']"]) simp
    qed
  qed
qed

section \<open>The admission loop\<close>

lemma init_next_ok:
  assumes inv: "radix_inv D rk H s" and en: "\<not> disable s"
  shows "\<exists>r' s' D' rk' a. init_next_round_input r (RadixTree s) = Inr (r', RadixTree s') \<and> radix_inv D' rk' H s' \<and> D \<subseteq> D' \<and>
    same_cache s s' \<and> a \<in> D' \<and> last_node r' = Some a \<and> host_hit_length r' = 0 \<and> rid r' = rid r \<and> max_new_tokens r' = max_new_tokens r \<and>
    fill_ids r' = req_ids r \<and> extend_input_len r' = int (length (req_ids r)) - int (length (prefix_indices r')) \<and>
    (req_ids r \<noteq> [] \<longrightarrow> 0 < extend_input_len r') \<and> 0 \<le> extend_input_len r'"
proof -
  define n where "n = max_prefix_len (r\<lparr>fill_ids := req_ids r\<rparr>)"
  let ?k = "\<lparr>token_ids = take (n) (req_ids r), extra_key = req_extra_key r, is_bigram = False\<rparr>"
  obtain slots node s' D' rk' where m: "match_prefix ?k s = Inr (slots, node, s')" "radix_inv D' rk' H s'" "D \<subseteq> D'" "same_cache s s'"
    "none_cached_past s (req_extra_key r) (length slots) (key_iter (bigram_view (is_eagle s) ?k))"
    "walk (shape s') (req_extra_key r) (root_node s) (take (length slots) (key_iter (bigram_view (is_eagle s) ?k))) slots node"
    using match_prefix_ok [OF inv en, of ?k] by (auto simp: Let_def)
  have "root_node s' = root_node s" using m(4) configD(7) by (auto simp: same_cache_def)
  then have nD: "node \<in> D'" using walk_facts(1) [OF m(6) radix_invD(1) [OF m(2)]] tree_okD(3) [OF radix_invD(1) [OF m(2)]] by simp
  have "length slots \<le> key_len (bigram_view (is_eagle s) ?k)" using m(5) by (simp add: none_cached_past_def)
  also have "\<dots> \<le> length (take (n) (req_ids r))" by (auto simp: key_len_def bigram_view_def Let_def)
  finally have l: "length slots \<le> n" "length slots \<le> length (req_ids r)" by simp_all
  have "int (length slots) < int (length (req_ids r))" if "req_ids r \<noteq> []" using l(1) that by (cases "req_ids r") (auto simp: n_def max_prefix_len_def Let_def min_def split: if_splits)
  moreover define r1 where "r1 = r\<lparr>fill_ids := req_ids r, prefix_indices := slots, last_node := Some node, last_host_node := Some node,
      host_hit_length := 0, cache_protected_len := length slots\<rparr>"
  moreover have "init_next_round_input r (RadixTree s) =
      Inr (set_extend_input_len (int (length (req_ids r)) - int (length slots)) r1, RadixTree s')"
    by (simp add: init_next_round_input_def match_prefix_for_req_def Let_def n_def [symmetric] m(1) r1_def)
  ultimately show ?thesis using m(2-4) nD l(2)
    by (intro exI [of _ "set_extend_input_len (int (length (req_ids r)) - int (length slots)) r1"] exI [of _ s'] exI [of _ D'] exI [of _ rk']
        exI [of _ node]) simp
qed

definition locked_nodes :: "sched_req list \<Rightarrow> nat multiset" where
  "locked_nodes rs = image_mset (\<lambda>r. the (last_node r)) (mset rs)"

lemma admit_loop_ok:
  assumes "radix_inv D rk H s" "\<not> disable s" "plain_env E" "\<forall>r \<in> set q. 0 \<le> max_new_tokens r" "offsets_ok A" "within_pool E A (RadixTree s)"
    and al: "\<forall>al. align = Some al \<longrightarrow> 0 < al"
  shows "\<exists>full q' A' s' D' rk' new. admit_loop E align k q A (RadixTree s) = Inr (full, q', A', RadixTree s') \<and>
    can_run_list A' = can_run_list A @ new \<and> ad_page_size A' = ad_page_size A \<and> map rid q' = map rid q \<and> set new \<subseteq> set q' \<and> (\<forall>r \<in> set new. 0 \<le> extend_input_len r \<and> last_node r \<noteq> None) \<and>
    offsets_ok A' \<and> within_pool E A' (RadixTree s') \<and> radix_inv D' rk' (H + locked_nodes new) s' \<and> config s' = config s"
  using assms(1-6)
proof (induction q arbitrary: D rk H s A)
  case Nil
  then show ?case by (simp add: locked_nodes_def) blast
next
  case (Cons r q)
  show ?case
  proof (cases "int (length (can_run_list A)) \<ge> k")
    case True
    then show ?thesis using Cons.prems by (simp add: locked_nodes_def) blast
  next
    case False
    obtain r1 s1 D1 rk1 a where i: "init_next_round_input r (RadixTree s) = Inr (r1, RadixTree s1)" "radix_inv D1 rk1 H s1" "same_cache s s1"
      "a \<in> D1" "last_node r1 = Some a" "host_hit_length r1 = 0" "rid r1 = rid r" "max_new_tokens r1 = max_new_tokens r" "0 \<le> extend_input_len r1"
      using init_next_ok [OF Cons.prems(1,2), of r] by blast
    have c1: "config s1 = config s" and ev: "evictable_size s1 = evictable_size s" using i(3) by (simp_all add: same_cache_def sizes_def)
    have en1: "\<not> disable s1" using Cons.prems(2) configD(1) [OF c1] by simp
    have w1: "within_pool E A (RadixTree s1)" using within_pool_same [OF Cons.prems(3) configD(8) [OF c1] ev] Cons.prems(6) by simp
    have "0 \<le> max_new_tokens r1" using i(8) Cons.prems(4) by simp
    from add_one_req_ok [OF i(2,4,5) en1 Cons.prems(3) i(6,9) this Cons.prems(5) w1 al]
    obtain res r2 A2 s2 H2 new where o: "add_one_req E align r1 A (RadixTree s1) = Inr (res, r2, A2, RadixTree s2)" "can_run_list A2 = can_run_list A @ new"
      "new = [] \<and> r2 = r1 \<and> H2 = H \<or> new = [r2] \<and> last_node r2 = Some a \<and> rid r2 = rid r1 \<and> 0 \<le> extend_input_len r2 \<and> H2 = add_mset a H"
      "offsets_ok A2" "within_pool E A2 (RadixTree s2)" "radix_inv D1 rk1 H2 s2" "lock_frame s1 s2" "ad_page_size A2 = ad_page_size A"
      by blast
    have H2: "H2 = H + locked_nodes new" and new: "set new \<subseteq> {r2}" "\<forall>r \<in> set new. 0 \<le> extend_input_len r \<and> last_node r \<noteq> None" "rid r2 = rid r"
      using o(3) i(7) by (auto simp: locked_nodes_def)
    have c2: "config s2 = config s" using lock_frame_config [OF o(7)] c1 by simp
    have step: "admit_loop E align k (r # q) A (RadixTree s) =
        (if res \<noteq> CONTINUE then Inr (res = NO_TOKEN, r2 # q, A2, RadixTree s2)
         else py_bind (admit_loop E align k q A2 (RadixTree s2)) (\<lambda>(full, rs', A', tc'). Inr (full, r2 # rs', A', tc')))"
      using False by (simp add: i(1) o(1))
    show ?thesis
    proof (cases "res = CONTINUE")
      case False
      have "\<exists>D' rk'. radix_inv D' rk' (H + locked_nodes new) s2" using o(6) unfolding H2 by blast
      then show ?thesis using False step o(2,4,5,8) new c2
        by (intro exI [of _ "res = NO_TOKEN"] exI [of _ "r2 # q"] exI [of _ A2] exI [of _ s2]) (auto intro!: exI [of _ new])
    next
      case True
      have en2: "\<not> disable s2" using Cons.prems(2) configD(1) [OF c2] by simp
      have "\<forall>r \<in> set q. 0 \<le> max_new_tokens r" using Cons.prems(4) by simp
      from Cons.IH [OF o(6) en2 Cons.prems(3) this o(4,5)]
      obtain full q' A' s' D' rk' new' where l: "admit_loop E align k q A2 (RadixTree s2) = Inr (full, q', A', RadixTree s')"
        "can_run_list A' = can_run_list A2 @ new'" "map rid q' = map rid q" "set new' \<subseteq> set q'" "\<forall>r \<in> set new'. 0 \<le> extend_input_len r \<and> last_node r \<noteq> None"
        "offsets_ok A'" "within_pool E A' (RadixTree s')" "radix_inv D' rk' (H2 + locked_nodes new') s'" "config s' = config s2" "ad_page_size A' = ad_page_size A2"
        by blast
      have "radix_inv D' rk' (H + locked_nodes (new @ new')) s'" using l(8) by (simp add: H2 locked_nodes_def add.assoc)
      moreover have "admit_loop E align k (r # q) A (RadixTree s) = Inr (full, r2 # q', A', RadixTree s')" using True step l(1) by simp
      ultimately show ?thesis using l o(2,8) new c2
        by (intro exI [of _ full] exI [of _ "r2 # q'"] exI [of _ A'] exI [of _ s'] exI [of _ D'] exI [of _ rk'] exI [of _ "new @ new'"]) auto
    qed
  qed
qed

lemma adder_init_page_size [simp]: "ad_page_size (adder_init E ps running ratio ri rc mixed pt mr d) = ps"
  by (simp add: adder_init_def)

section \<open>Admission is safe\<close>

lemma adder_init_ok:
  assumes "0 < ps" "0 \<le> mixed" "0 \<le> ratio" "0 \<le> clip_max_new_tokens E"
    "\<forall>rs. running = Some rs \<longrightarrow> (\<forall>r \<in> set rs. int (length (output_ids r)) \<le> max_new_tokens r)"
  shows "offsets_ok (adder_init E ps running ratio ri rc mixed pt mr None)"
    "within_pool E (adder_init E ps running ratio ri rc mixed pt mr None) tc" "can_run_list (adder_init E ps running ratio ri rc mixed pt mr None) = []"
proof -
  have "0 \<le> (case running of None \<Rightarrow> 0 | Some rs \<Rightarrow> sum_list (map (running_offset E ratio) rs))"
    using assms(3-5) by (auto simp: running_offset_def split: option.split intro!: sum_list_nonneg)
  then show "offsets_ok (adder_init E ps running ratio ri rc mixed pt mr None)"
    using assms(1,2) by (simp add: offsets_ok_def adder_init_def reserved_def)
qed (simp_all add: within_pool_def adder_init_def)

text \<open>
  C18. The prefill budget holds. The admission loop returns; every admitted request is one of the queue and holds a lock on its
  node, no other lock changes, and the pages of all admitted requests plus a page for each of them exceed what is
  available and evictable by less than a page. (The extra page per request is what \<open>alloc_extend\<close> asks for at most, so
  already one admitted request makes up for the rounding.) Running requests have not passed their token limits.
\<close>

theorem admission_within_budget:
  assumes inv: "radix_inv D rk H s" and en: "\<not> disable s" and E: "plain_env E"
    and q: "\<forall>r \<in> set q. 0 \<le> max_new_tokens r" and al: "\<forall>al. align = Some al \<longrightarrow> 0 < al"
    and init: "0 < ps" "0 \<le> mixed" "0 \<le> ratio" "\<forall>rs. running = Some rs \<longrightarrow> (\<forall>r \<in> set rs. int (length (output_ids r)) \<le> max_new_tokens r)"
  shows "\<exists>full q' A s' D' rk'. admit_loop E align k q (adder_init E ps running ratio ri rc mixed pt mr None) (RadixTree s) =
      Inr (full, q', A, RadixTree s') \<and> map rid q' = map rid q \<and> set (can_run_list A) \<subseteq> set q' \<and>
    radix_inv D' rk' (H + locked_nodes (can_run_list A)) s' \<and> config s' = config s \<and>
    (can_run_list A \<noteq> [] \<longrightarrow>
      (\<Sum>r \<leftarrow> can_run_list A. ceil_paged_tokens A (extend_input_len r) + ps) < op_available (env_ops E) (kv_allocator s') + evictable_size s' + ps)"
proof -
  have clip: "0 \<le> clip_max_new_tokens E" using E by (simp add: plain_env_def)
  let ?A0 = "adder_init E ps running ratio ri rc mixed pt mr None"
  note i = adder_init_ok [OF init(1-3) clip init(4), where ri = ri and rc = rc and pt = pt and mr = mr]
  obtain full q' A s' D' rk' new where l: "admit_loop E align k q ?A0 (RadixTree s) = Inr (full, q', A, RadixTree s')"
    "can_run_list A = can_run_list ?A0 @ new" "map rid q' = map rid q" "set new \<subseteq> set q'" "offsets_ok A" "within_pool E A (RadixTree s')"
    "radix_inv D' rk' (H + locked_nodes new) s'" "config s' = config s" "ad_page_size A = ad_page_size ?A0"
    using admit_loop_ok [OF inv en E q i(1,2) al, of k] by blast
  then show ?thesis using i(3) plain_available [OF E] by (auto simp: within_pool_def reserved_def)
qed

text \<open>
  C17. An admitted batch gets its slots. With page size 1 over the token allocator, the slots that the admitted requests need
  can be allocated afterwards, evicting cached prefixes that no request holds: \<open>alloc_token_slots\<close> for the sum of their
  \<open>extend_input_len\<close> returns that many slots and leaves every locked prefix cached.
\<close>

theorem admitted_batch_gets_slots:
  assumes inv: "radix_inv D rk H s" and en: "\<not> disable s" "\<not> enable_kv_cache_events s" and tok: "token_inv (kv_allocator s)"
    and E: "plain_env E" "env_ops E = token_ops"
    and q: "\<forall>r \<in> set q. 0 \<le> max_new_tokens r" and al: "\<forall>al. align = Some al \<longrightarrow> 0 < al"
    and init: "0 \<le> mixed" "0 \<le> ratio" "\<forall>rs. running = Some rs \<longrightarrow> (\<forall>r \<in> set rs. int (length (output_ids r)) \<le> max_new_tokens r)"
  shows "\<exists>full q' A s1 s2 D' D2 rk' locs bak.
    admit_loop E align k q (adder_init E 1 running ratio ri rc mixed pt mr None) (RadixTree s) = Inr (full, q', A, RadixTree s1) \<and>
    radix_inv D' rk' (H + locked_nodes (can_run_list A)) s1 \<and>
    (can_run_list A \<noteq> [] \<longrightarrow>
      alloc_token_slots token_ops (RadixTree s1) (\<Sum>r \<leftarrow> can_run_list A. extend_input_len r) = Inr (locs, bak, RadixTree s2) \<and>
      int (length locs) = (\<Sum>r \<leftarrow> can_run_list A. extend_input_len r) \<and> radix_inv D2 rk' (H + locked_nodes (can_run_list A)) s2 \<and>
      pool_slots token_slots D' s1 = pool_slots token_slots D2 s2 + mset locs)"
proof -
  have clip: "0 \<le> clip_max_new_tokens E" using E by (simp add: plain_env_def)
  let ?A0 = "adder_init E 1 running ratio ri rc mixed pt mr None"
  note i = adder_init_ok [OF zero_less_one init(1,2) clip init(3), where ri = ri and rc = rc and pt = pt and mr = mr]
  obtain full q' A s1 D' rk' new where l: "admit_loop E align k q ?A0 (RadixTree s) = Inr (full, q', A, RadixTree s1)"
    "can_run_list A = can_run_list ?A0 @ new" "\<forall>r \<in> set new. 0 \<le> extend_input_len r \<and> last_node r \<noteq> None" "within_pool E A (RadixTree s1)"
    "radix_inv D' rk' (H + locked_nodes new) s1" "config s1 = config s" "ad_page_size A = ad_page_size ?A0"
    using admit_loop_ok [OF inv en(1) E(1) q i(1,2) al, of k] by blast
  have c: "can_run_list A = new" using l(2) i(3) by simp
  let ?n = "\<Sum>r \<leftarrow> new. extend_input_len r"
  have n0: "0 \<le> ?n" using l(3) by (intro sum_list_nonneg) auto
  have e1: "\<not> disable s1" "\<not> enable_kv_cache_events s1" "token_inv (kv_allocator s1)" using en tok configD [OF l(6)] by simp_all
  have av: "op_available (env_ops E) (kv_allocator s1) = int (size (token_slots (kv_allocator s1)))"
    using token_pool.op_available [OF e1(3)] E(2) by simp
  show ?thesis
  proof (cases "new = []")
    case True
    then show ?thesis using l(1,5) c by auto
  next
    case False
    have "?n + 1 \<le> reserved A" using False l(7) by (cases new) (auto simp: reserved_def c ceil_paged_tokens_def sum_list_addf sum_list_triv)
    then have "?n \<le> int (size (token_slots (kv_allocator s1))) + evictable_size s1"
      using l(4,7) False c by (simp add: within_pool_def plain_available [OF E(1)] av)
    then obtain locs bak s2 D2 where "alloc_token_slots token_ops (RadixTree s1) ?n = Inr (locs, bak, RadixTree s2)" "int (length locs) = ?n"
      "radix_inv D2 rk' (H + locked_nodes new) s2" "pool_slots token_slots D' s1 = pool_slots token_slots D2 s2 + mset locs"
      using token_pool.alloc_token_slots_ok [OF l(5) e1 n0] by auto
    then show ?thesis using l(1,5) unfolding c [symmetric] by blast
  qed
qed

section \<open>The states of requests that ignore the end of sequence\<close>

lemma state_position_last:
  "\<forall>x \<in> set xs. fst x < left \<Longrightarrow> state_position i j left xs = (if xs = [] then i else j + length xs - 1)"
  by (induction xs arbitrary: i j) auto

text \<open>
  \<open>add_req_state\<close> does not keep the states sorted: a request with more tokens left than all others is inserted before the
  last of them instead of after it, since the loop variable stops at the last index. The list, which was sorted, is not
  sorted any more, although the estimate that reads it counts on requests finishing in its order.
\<close>

lemma add_req_state_misplaces:
  assumes "left = of_int (max_new_tokens r) * (if ignore_eos r then 1 else new_token_ratio A) - of_nat (length (output_ids r))"
    "0 < left" "states \<noteq> []" "sorted (map fst states)" "\<forall>x \<in> set states. fst x < left"
  shows "add_req_state A True r states =
      butlast states @ [(left, int (length (origin_ids r)) + int (length (output_ids r))), last states] \<and>
    \<not> sorted (map fst (add_req_state A True r states))"
proof -
  have p: "state_position 0 0 left states = length states - 1" using state_position_last [OF assms(5), of 0 0] assms(3) by simp
  have d: "drop (length states - 1) states = [last states]" using assms(3) by (metis append_butlast_last_id append_eq_conv_conj length_butlast)
  have e: "add_req_state A True r states = butlast states @ [(left, int (length (origin_ids r)) + int (length (output_ids r))), last states]"
    using assms(2) unfolding add_req_state_def Let_def assms(1) [symmetric] by (simp add: p d [simplified] butlast_conv_take)
  have "fst (last states) < left" using assms(3,5) by simp
  then show ?thesis unfolding e by (auto simp: sorted_append)
qed

section \<open>Witnesses\<close>

definition demo_adder_env :: "kv_alloc adder_env" where
  "demo_adder_env = \<lparr>env_ops = token_ops, is_hybrid_swa = False, is_hybrid_ssm_cache = False, full_available_size = (\<lambda>_. 0),
     full_evictable_size = (\<lambda>_. 0), swa_available_size = (\<lambda>_. 0), swa_evictable_size = (\<lambda>_. 0), sliding_window_size = 0,
     init_load_back = (\<lambda>_ _. Inl NotImplementedError), clip_max_new_tokens = 4096, delayer_allows = None,
     nsa_prefill_cp_in_seq_split = False, prefill_context_parallel_enabled = False\<rparr>"

text \<open>Two requests for four free slots: the first, behind the cached prefix, is admitted, the second finds no room.\<close>

definition demo_queue :: "sched_req list" where
  "demo_queue = [(demo_sched_req ''a'' [7, 8, 9, 1] 0)\<lparr>max_new_tokens := 1\<rparr>, (demo_sched_req ''b'' [5, 6] 0)\<lparr>max_new_tokens := 1\<rparr>]"

lemma demo_admitted:
  "map_sum id (\<lambda>(full, q', A, tc). (full, map rid (can_run_list A), map extend_input_len (can_run_list A)))
     (admit_loop demo_adder_env None 8 demo_queue (adder_init demo_adder_env 1 None 1 100 None 0 0 None None) (RadixTree demo_pool)) =
   Inr (True, [''a''], [1])"
  by code_simp

theorem admission_within_budget_witness:
  "\<exists>q' A s'. admit_loop demo_adder_env None 8 demo_queue (adder_init demo_adder_env 1 None 1 100 None 0 0 None None) (RadixTree demo_pool) =
      Inr (True, q', A, RadixTree s') \<and> map rid (can_run_list A) = [''a''] \<and>
    (\<Sum>r \<leftarrow> can_run_list A. ceil_paged_tokens A (extend_input_len r) + 1) < token_available_size (kv_allocator s') + evictable_size s' + 1"
proof -
  have en: "\<not> disable demo_pool" by simp
  have E: "plain_env demo_adder_env" by (simp add: plain_env_def demo_adder_env_def)
  have q: "\<forall>r \<in> set demo_queue. 0 \<le> max_new_tokens r" by (simp add: demo_queue_def demo_sched_req_def)
  have o: "op_available (env_ops demo_adder_env) = token_available_size" by (simp add: demo_adder_env_def token_ops_def)
  obtain full q' A s' where w: "admit_loop demo_adder_env None 8 demo_queue (adder_init demo_adder_env 1 None 1 100 None 0 0 None None) (RadixTree demo_pool) =
      Inr (full, q', A, RadixTree s')"
    "can_run_list A \<noteq> [] \<longrightarrow> (\<Sum>r \<leftarrow> can_run_list A. ceil_paged_tokens A (extend_input_len r) + 1) < token_available_size (kv_allocator s') + evictable_size s' + 1"
    using admission_within_budget [OF demo_pool_inv(1) en E q, where align = None and ps = 1 and mixed = 0 and ratio = 1 and running = None and
      k = 8 and ri = 100 and rc = None and pt = 0 and mr = None] unfolding o by force
  have a: "full" "map rid (can_run_list A) = [''a'']" using demo_admitted unfolding w(1) by simp_all
  then show ?thesis using w by auto
qed

theorem admitted_batch_gets_slots_witness:
  "\<exists>q' A s1 locs bak s2. admit_loop demo_adder_env None 8 demo_queue (adder_init demo_adder_env 1 None 1 100 None 0 0 None None) (RadixTree demo_pool) =
      Inr (True, q', A, RadixTree s1) \<and> map rid (can_run_list A) = [''a''] \<and>
    alloc_token_slots token_ops (RadixTree s1) (\<Sum>r \<leftarrow> can_run_list A. extend_input_len r) = Inr (locs, bak, RadixTree s2) \<and> length locs = 1"
proof -
  have en: "\<not> disable demo_pool" "\<not> enable_kv_cache_events demo_pool" by simp_all
  have E: "plain_env demo_adder_env" "env_ops demo_adder_env = token_ops" by (simp_all add: plain_env_def demo_adder_env_def)
  have q: "\<forall>r \<in> set demo_queue. 0 \<le> max_new_tokens r" by (simp add: demo_queue_def demo_sched_req_def)
  obtain full q' A s1 locs bak s2 where w: "admit_loop demo_adder_env None 8 demo_queue (adder_init demo_adder_env 1 None 1 100 None 0 0 None None) (RadixTree demo_pool) =
      Inr (full, q', A, RadixTree s1)"
    "can_run_list A \<noteq> [] \<longrightarrow> alloc_token_slots token_ops (RadixTree s1) (\<Sum>r \<leftarrow> can_run_list A. extend_input_len r) = Inr (locs, bak, RadixTree s2) \<and>
      int (length locs) = (\<Sum>r \<leftarrow> can_run_list A. extend_input_len r)"
    using admitted_batch_gets_slots [OF demo_pool_inv(1) en demo_pool_inv(2) E q, where align = None and mixed = 0 and ratio = 1 and running = None and
      k = 8 and ri = 100 and rc = None and pt = 0 and mr = None] by force
  have a: "full" "map rid (can_run_list A) = [''a'']" "map extend_input_len (can_run_list A) = [1]" using demo_admitted unfolding w(1) by simp_all
  then have "(\<Sum>r \<leftarrow> can_run_list A. extend_input_len r) = 1" "can_run_list A \<noteq> []" by auto
  then show ?thesis using w a by auto
qed

lemma add_req_state_misplaces_witness:
  "\<not> sorted (map fst (add_req_state (adder_init demo_adder_env 1 None 1 100 None 0 0 None None) True (demo_sched_req ''a'' [7] 0) [(1, 100)])) \<and>
   \<not> tokens_last 10 [(16, 1), (1, 100)] \<and> tokens_last 10 [(1, 100), (16, 1)]"
proof -
  have "(16 :: rat) = of_int (max_new_tokens (demo_sched_req ''a'' [7] 0)) * (if ignore_eos (demo_sched_req ''a'' [7] 0) then 1
      else new_token_ratio (adder_init demo_adder_env 1 None 1 100 None 0 0 None None)) - of_nat (length (output_ids (demo_sched_req ''a'' [7] 0)))"
    by (simp add: demo_sched_req_def adder_init_def)
  from add_req_state_misplaces [OF this, of "[(1, 100)]"] show ?thesis by (simp add: IGNORE_EOS_RESERVE_TOKENS_def)
qed

definition demo_victim :: sched_req where
  "demo_victim = (demo_sched_req ''v'' [2] 0)\<lparr>req_pool_idx := Some 1, committed_len := 1, kv_allocated_len := 1\<rparr>"

definition demo_urgent :: sched_req where
  "demo_urgent = (demo_sched_req ''n'' [1] 0)\<lparr>max_new_tokens := 5, req_priority := Some 5\<rparr>"


end
