(* ===== verification/Decode_Batch.thy ===== *)
theory Decode_Batch
  imports Prefill_Adder
begin

text \<open>
  Memory of the running decode batch (\<open>ScheduleBatch\<close> in \<open>srt/managers/schedule_batch.py\<close>): how many tokens the next
  decode step needs, the check that they can be had, and retraction when they cannot: requests leave the
  batch one by one until the rest fits. Releasing a request is that of \<open>Prefill_Adder\<close>.
\<close>

section \<open>What the next decode step needs\<close>

text \<open>
  The settings that decide it: the speculative algorithm (none, or with the overlapping workers), its steps,
  width and draft tokens, \<open>SGLANG_RETRACT_DECODE_STEPS\<close> and whether thinking tokens are stripped.
\<close>

record 'al decode_env =
  de_ops :: "'al alloc_ops"
  de_spec_none :: bool
  de_spec_v2 :: bool
  de_num_steps :: "int option"
  de_topk :: "int option"
  de_num_draft_tokens :: int
  de_retract_steps :: int
  de_strip :: bool

text \<open>\<open>x or 1\<close>.\<close>

definition or_one :: "int option \<Rightarrow> int" where
  "or_one x = (case x of None \<Rightarrow> 1 | Some v \<Rightarrow> if v = 0 then 1 else v)"

definition get_alloc_len_per_decode :: "'al decode_env \<Rightarrow> int py" where
  "get_alloc_len_per_decode E =
     (if de_spec_none E then Inr 1
      else if op_page_size (de_ops E) = 1 \<or> or_one (de_topk E) = 1
      then Inr (max (or_one (de_num_steps E) * or_one (de_topk E)) (de_num_draft_tokens E))
      else Inl NotImplementedError)"

definition new_tokens_required_next_decode_spec_v2 :: "'al decode_env \<Rightarrow> sched_req list \<Rightarrow> int py" where
  "new_tokens_required_next_decode_spec_v2 E rs =
     py_bind (get_alloc_len_per_decode E) (\<lambda>alloc_len.
     let ps = op_page_size (de_ops E)
     in Inr (sum_list (map (\<lambda>r. let x = max 0 (committed_len r + 2 * alloc_len - kv_allocated_len r);
                                     cur = kv_allocated_len r
                                 in ceil_align (cur + x) ps - ceil_align cur ps) rs)))"

definition new_tokens_required_next_decode :: "'al decode_env \<Rightarrow> sched_req list \<Rightarrow> int py" where
  "new_tokens_required_next_decode E rs =
     (let ps = op_page_size (de_ops E)
      in if de_spec_none E then Inr (int (length (filter (\<lambda>r. committed_len r mod ps = 0) rs)) * ps)
         else if de_spec_v2 E then new_tokens_required_next_decode_spec_v2 E rs
         else (let len = or_one (de_num_steps E); topk = or_one (de_topk E); toks = de_num_draft_tokens E;
                   len' = (if ps > 1 \<and> topk > 1 then ceil_align (len + ps) ps else if ps > 1 then ceil_align len ps else len);
                   toks' = (if ps > 1 then ceil_align toks ps else toks)
               in Inr (max (len' * topk) toks' * int (length rs))))"

definition check_decode_mem :: "'al decode_env \<Rightarrow> sched_req list \<Rightarrow> 'al prefix_cache \<Rightarrow> (bool \<times> 'al prefix_cache) py" where
  "check_decode_mem E rs tc =
     py_bind (new_tokens_required_next_decode E rs) (\<lambda>num_tokens.
     py_bind (evict_from_tree_cache (de_ops E) tc num_tokens) (\<lambda>tc1.
     Inr (op_available (de_ops E) (pc_allocator tc1) \<ge> num_tokens, tc1)))"

section \<open>Retraction\<close>

text \<open>
  The order in which requests are kept, the first longest: without speculation by most output, then by shortest
  prompt (\<open>reverse=True\<close> keeps the order of equal ones); with speculation the order of the batch.
\<close>

definition retract_order :: "bool \<Rightarrow> sched_req list \<Rightarrow> nat list" where
  "retract_order spec rs =
     (if spec then [0..<length rs]
      else sort_key (\<lambda>i. (- int (length (output_ids (rs ! i))), int (length (origin_ids (rs ! i))))) [0..<length rs])"

record 'al retract_state =
  rt_reqs :: "sched_req list"
  rt_cache :: "'al prefix_cache"
  rt_pool :: req_pool
  rt_retracted :: "sched_req list"

definition retract_one :: "'al decode_env \<Rightarrow> table \<Rightarrow> int \<Rightarrow> nat \<Rightarrow> 'al retract_state \<Rightarrow> (sched_req \<times> 'al retract_state) py" where
  "retract_one E tab remaining i R =
     py_bind (release_req (de_ops E) (\<not> de_spec_none E) (de_strip E) tab (de_retract_steps E) remaining (rt_reqs R ! i) (rt_cache R) (rt_pool R))
       (\<lambda>(r', tc', pool'). Inr (r', R\<lparr>rt_reqs := (rt_reqs R)[i := r'], rt_cache := tc', rt_pool := pool'\<rparr>))"

text \<open>
  The loop; the list holds the indices from the one to be popped next to the one kept longest. Its first
  round retracts without a check.
\<close>

fun retract_loop :: "'al decode_env \<Rightarrow> table \<Rightarrow> bool \<Rightarrow> nat list \<Rightarrow> 'al retract_state \<Rightarrow> (nat list \<times> 'al retract_state) py" where
  "retract_loop E tab first [] R =
     (if first then Inl IndexError
      else py_bind (check_decode_mem E [] (rt_cache R)) (\<lambda>(enough, tc).
           if enough then Inr ([], R\<lparr>rt_cache := tc\<rparr>) else Inl IndexError))"
| "retract_loop E tab first (i # is) R =
     py_bind (if first then Inr (False, rt_cache R) else check_decode_mem E (map (\<lambda>j. rt_reqs R ! j) (rev (i # is))) (rt_cache R))
     (\<lambda>(enough, tc).
      let R1 = R\<lparr>rt_cache := tc\<rparr>
      in if enough \<or> is = [] then Inr (i # is, R1)
         else py_bind (retract_one E tab (int (length is)) i R1) (\<lambda>(r', R2).
              retract_loop E tab False is (R2\<lparr>rt_retracted := rt_retracted R2 @ [r']\<rparr>)))"

record 'al retract_result =
  rr_retracted :: "sched_req list"
  rr_ratio :: rat
  rr_aborted :: "sched_req list"
  rr_kept :: "sched_req list"
  rr_cache :: "'al prefix_cache"
  rr_pool :: req_pool

definition new_estimate_ratio :: "'al decode_env \<Rightarrow> sched_req list \<Rightarrow> rat py" where
  "new_estimate_ratio E rs =
     (let num = int (sum_list (map (\<lambda>r. length (output_ids r)) rs)) + de_retract_steps E * int (length rs);
          den = sum_list (map max_new_tokens rs) + 1
      in if den = 0 then Inl ZeroDivisionError else Inr (min 1 (of_int num / of_int den)))"

text \<open>\<open>filter_batch(keep_indices=...)\<close>, of the requests.\<close>

definition keep_reqs :: "nat list \<Rightarrow> 'a list \<Rightarrow> 'a list" where
  "keep_reqs is rs = (if is = [] then [] else if length is = length rs then rs else map (\<lambda>i. rs ! i) is)"

text \<open>The last request is given up when even it alone does not fit.\<close>

definition abort_last :: "'al decode_env \<Rightarrow> table \<Rightarrow> nat list \<Rightarrow> 'al retract_state \<Rightarrow> (nat list \<times> sched_req list \<times> 'al retract_state) py" where
  "abort_last E tab left R =
     py_bind (if length left \<le> 1 then check_decode_mem E (map (\<lambda>j. rt_reqs R ! j) (rev left)) (rt_cache R) else Inr (True, rt_cache R))
     (\<lambda>(fits, tc).
      let R1 = R\<lparr>rt_cache := tc\<rparr>
      in if fits then Inr (rev left, [], R1)
         else case left of [] \<Rightarrow> Inl IndexError
           | i # is \<Rightarrow> py_bind (retract_one E tab 0 i R1) (\<lambda>(r', R2). Inr (rev is, [r'], R2)))"

definition retract_decode ::
  "'al decode_env \<Rightarrow> table \<Rightarrow> sched_req list \<Rightarrow> 'al prefix_cache \<Rightarrow> req_pool \<Rightarrow> 'al retract_result py" where
  "retract_decode E tab rs tc pool =
     py_bind (retract_loop E tab True (rev (retract_order (\<not> de_spec_none E) rs))
       \<lparr>rt_reqs = rs, rt_cache = tc, rt_pool = pool, rt_retracted = []\<rparr>) (\<lambda>(left, R).
     py_bind (abort_last E tab left R) (\<lambda>(keep, aborted, R1).
     let kept = keep_reqs keep (rt_reqs R1)
     in py_bind (new_estimate_ratio E kept) (\<lambda>ratio.
        Inr \<lparr>rr_retracted = rt_retracted R1, rr_ratio = ratio, rr_aborted = aborted, rr_kept = kept,
             rr_cache = rt_cache R1, rr_pool = rt_pool R1\<rparr>)))"

text \<open>\<open>retract_all\<close>: every request is released, and the batch keeps those that are not among the released ones.\<close>

fun retract_all_loop :: "'al decode_env \<Rightarrow> table \<Rightarrow> nat list \<Rightarrow> 'al retract_state \<Rightarrow> 'al retract_state py" where
  "retract_all_loop E tab [] R = Inr R"
| "retract_all_loop E tab (i # is) R =
     py_bind (retract_one E tab (int (length (rt_reqs R)) - int i) i R) (\<lambda>(_, R'). retract_all_loop E tab is R')"

definition retract_all ::
  "'al decode_env \<Rightarrow> table \<Rightarrow> sched_req list \<Rightarrow> 'al prefix_cache \<Rightarrow> req_pool \<Rightarrow>
     (sched_req list \<times> sched_req list \<times> 'al prefix_cache \<times> req_pool) py" where
  "retract_all E tab rs tc pool =
     py_bind (retract_all_loop E tab [0..<length rs] \<lparr>rt_reqs = rs, rt_cache = tc, rt_pool = pool, rt_retracted = []\<rparr>) (\<lambda>R.
     let retracted_reqs = rt_reqs R;
         keep_indices = filter (\<lambda>i. \<not> is_finished (rt_reqs R ! i) \<and> rt_reqs R ! i \<notin> set retracted_reqs) [0..<length (rt_reqs R)]
     in Inr (retracted_reqs, keep_reqs keep_indices (rt_reqs R), rt_cache R, rt_pool R))"

section \<open>The next decode step of the overlapping speculative workers\<close>

text \<open>
  \<open>EagleDraftInputV2Mixin.prepare_for_decode\<close> (\<open>srt/speculative/eagle_info_v2.py\<close>) without penalties, sliding windows and the
  counter \<open>decode_batch_idx\<close>: slots for two steps per request beyond its committed tokens, entered in the table.
  \<open>order\<close> is the order of the kernel's instances, \<open>is_hip\<close> and \<open>backend\<close> choose the kernel of \<open>get_last_loc\<close>.
\<close>

definition prepare_for_decode_v2 ::
  "'al decode_env \<Rightarrow> bool \<Rightarrow> string \<Rightarrow> nat list \<Rightarrow> sched_req list \<Rightarrow> int list \<Rightarrow> 'al prefix_cache \<Rightarrow> req_pool \<Rightarrow>
     (sched_req list \<times> int list \<times> 'al prefix_cache \<times> req_pool) py" where
  "prepare_for_decode_v2 E is_hip backend order rs rows tc pool =
     py_bind (get_alloc_len_per_decode E) (\<lambda>alloc_len_per_decode.
     let double_alloc = alloc_len_per_decode + alloc_len_per_decode;
         cur_kv_lens = map kv_allocated_len rs;
         nxt_kv_lens = map (\<lambda>r. committed_len r + double_alloc) rs;
         num_needed_tokens = sum_list (map2 (-) nxt_kv_lens cur_kv_lens);
         rs' = map (\<lambda>r. r\<lparr>kv_allocated_len := committed_len r + double_alloc, committed_len := committed_len r + 1\<rparr>) rs
     in py_bind
          (if op_page_size (de_ops E) = 1 then alloc_token_slots (de_ops E) tc num_needed_tokens
           else alloc_paged_token_slots_extend (de_ops E) tc cur_kv_lens nxt_kv_lens
                  (get_last_loc is_hip backend (req_to_token_table pool) (max_context_len pool) rows cur_kv_lens) num_needed_tokens)
          (\<lambda>(out_cache_loc, _, tc1).
           Inr (rs', out_cache_loc, tc1,
                pool\<lparr>req_to_token_table := assign_req_to_token_pool_func rows cur_kv_lens nxt_kv_lens out_cache_loc
                       (max_context_len pool) (length rs) order (req_to_token_table pool)\<rparr>)))"

section \<open>What a request of the batch holds\<close>

text \<open>
  A decoding request: its row holds the slots of all its committed tokens, the first \<open>cache_protected_len\<close> of which are
  those of the prefix it has locked in the tree; the others are its own.
\<close>

definition slots_held :: "bool \<Rightarrow> table \<Rightarrow> 'al radix_cache \<Rightarrow> sched_req \<Rightarrow> bool" where
  "slots_held strip tab s r \<longleftrightarrow> \<not> kv_committed_freed r \<and> \<not> kv_overallocated_freed r \<and>
     0 \<le> committed_len r \<and> kv_allocated_len r = committed_len r \<and> committed_len r \<le> int (length (origin_ids r @ output_ids r)) \<and>
     req_pool_idx r \<noteq> None \<and> last_node r \<noteq> None \<and> nat (committed_len r) \<le> length (tab (the (req_pool_idx r))) \<and>
     req_locked s {#the (last_node r)#} (the (last_node r))
       (req_key s (cache_req.truncate r) (take (nat (cache_commit_len strip (cache_req.truncate r))) (origin_ids r @ output_ids r)))
       (cache_protected_len r) (tab (the (req_pool_idx r)))"

definition own_slots :: "table \<Rightarrow> sched_req \<Rightarrow> int list" where
  "own_slots tab r = drop (cache_protected_len r) (take (nat (committed_len r)) (tab (the (req_pool_idx r))))"

definition retracted :: "sched_req \<Rightarrow> sched_req" where
  "retracted r = reset_for_retract (r\<lparr>req_pool_idx := None\<rparr>)"

text \<open>The state of pool and tree between operations, and what each operation leaves alone: locked prefixes and the settings.\<close>

definition pool_ok :: "('al \<Rightarrow> bool) \<Rightarrow> nat set \<Rightarrow> (nat \<Rightarrow> nat) \<Rightarrow> nat multiset \<Rightarrow> 'al radix_cache \<Rightarrow> bool" where
  "pool_ok I D rk H s \<longleftrightarrow> radix_inv D rk H s \<and> \<not> disable s \<and> \<not> enable_kv_cache_events s \<and> I (kv_allocator s)"

definition pool_step ::
  "('al \<Rightarrow> int multiset) \<Rightarrow> nat multiset \<Rightarrow> nat set \<Rightarrow> 'al radix_cache \<Rightarrow> int multiset \<Rightarrow> nat set \<Rightarrow> 'al radix_cache \<Rightarrow> bool" where
  "pool_step fs H D s X D' s' \<longleftrightarrow> pool_slots fs D' s' = pool_slots fs D s + X \<and> config s' = config (s\<lparr>kv_allocator := kv_allocator s'\<rparr>) \<and>
     (\<forall>a ek u v. a \<in># H \<longrightarrow> walk (shape s) ek (root_node s) u v a \<longrightarrow> walk (shape s') ek (root_node s) u v a)"

lemma config_settings:
  assumes "config s' = config (s\<lparr>kv_allocator := al\<rparr>)"
  shows "disable s' = disable s" "rc_page_size s' = rc_page_size s" "is_eagle s' = is_eagle s"
    "enable_kv_cache_events s' = enable_kv_cache_events s" "root_node s' = root_node s" "kv_allocator s' = al"
    "disable_finished_insert s' = disable_finished_insert s" "eviction_strategy s' = eviction_strategy s"
  using assms by (simp_all add: config_def)

lemma pool_step_trans:
  assumes 1: "pool_step fs H D s X D1 s1" and 2: "pool_step fs H' D1 s1 Y D' s'" and H: "H' \<subseteq># H"
  shows "pool_step fs H' D s (X + Y) D' s'"
proof -
  have c: "config s1 = config (s\<lparr>kv_allocator := kv_allocator s1\<rparr>)" "config s' = config (s1\<lparr>kv_allocator := kv_allocator s'\<rparr>)"
    using 1 2 by (simp_all add: pool_step_def)
  note f = config_settings [OF c(1)] config_settings [OF c(2)]
  have "config s' = config (s\<lparr>kv_allocator := kv_allocator s'\<rparr>)" using f by (simp add: config_def)
  moreover have "a \<in># H' \<Longrightarrow> a \<in># H" for a using H by (rule mset_subset_eqD)
  ultimately show ?thesis using 1 2 f by (simp add: pool_step_def add.assoc)
qed

lemma pool_step_mono: "pool_step fs H D s X D' s' \<Longrightarrow> H' \<subseteq># H \<Longrightarrow> pool_step fs H' D s X D' s'"
  by (auto simp: pool_step_def dest: mset_subset_eqD)

lemma slots_held_step:
  assumes r: "slots_held strip tab s r" and "step": "pool_step fs H D s X D' s'" and H: "the (last_node r) \<in># H"
  shows "slots_held strip tab s' r"
proof -
  have c: "config s' = config (s\<lparr>kv_allocator := kv_allocator s'\<rparr>)" using "step" by (simp add: pool_step_def)
  note f = config_settings [OF c]
  have k: "req_key s' q t = req_key s q t" for q t using f by (simp add: req_key_def)
  show ?thesis using r "step" H f(5) unfolding slots_held_def req_locked_def k pool_step_def by auto
qed

section \<open>Releasing a request\<close>

context slot_pool
begin

lemma release_kv_ok:
  assumes ok: "pool_ok inv D rk H s" and r: "slots_held strip tab s r" and a: "the (last_node r) \<in># H" and ps: "op_page_size A = 1"
  shows "\<exists>s' r'. release_kv_cache A spec strip tab False (cache_req.truncate r) (RadixTree s) pool =
      Inr (r', RadixTree s', pool\<lparr>free_slots := free_slots pool @ [the (req_pool_idx r)]\<rparr>) \<and> req_pool_idx r' = None \<and>
    pool_ok inv D rk (H - {#the (last_node r)#}) s' \<and> pool_step fs H D s (mset (own_slots tab r)) D s'"
proof -
  obtain i b where ib: "req_pool_idx r = Some i" "last_node r = Some b" using r by (auto simp: slots_held_def)
  let ?q = "cache_req.truncate r" and ?row = "tab i" and ?p = "cache_protected_len r" and ?c = "cache_commit_len strip (cache_req.truncate r)"
  define toks where "toks = take (nat ?c) (origin_ids r @ output_ids r)"
  define key where "key = req_key s ?q toks"
  have q: "kv_committed_freed ?q = kv_committed_freed r" "kv_overallocated_freed ?q = kv_overallocated_freed r" "req_pool_idx ?q = Some i" "last_node ?q = Some b"
    "origin_ids ?q = origin_ids r" "output_ids ?q = output_ids r" "cache_protected_len ?q = ?p" "kv_allocated_len ?q = kv_allocated_len r"
    "committed_len ?q = committed_len r" "reasoning_tokens ?q = reasoning_tokens r" "req_extra_key ?q = req_extra_key r"
    using ib by (simp_all add: cache_req.truncate_def)
  have h: "\<not> kv_committed_freed r" "\<not> kv_overallocated_freed r" "0 \<le> committed_len r" "kv_allocated_len r = committed_len r"
    "committed_len r \<le> int (length (origin_ids r @ output_ids r))" "nat (committed_len r) \<le> length ?row" "?p \<le> key_len key"
    using r ib by (simp_all add: slots_held_def req_locked_def key_def toks_def)
  have c: "0 \<le> ?c" "?c \<le> committed_len r" "\<not> strip \<Longrightarrow> ?c = committed_len r" using h(3) q by (auto simp: cache_commit_len_def)
  have rinv: "radix_inv D rk H s" and en: "\<not> disable s" and al: "inv (kv_allocator s)" using ok by (simp_all add: pool_ok_def)
  have "1 \<le> rc_page_size s" using tree_okD(1) [OF radix_invD(1) [OF rinv]] .
  note k = req_key_facts [OF this, of ?q toks, folded key_def]
  have lt: "length toks = nat ?c" using c(2) h(5) by (simp add: toks_def)
  have up: "py_upto (origin_ids r @ output_ids r) ?c = toks" using c(1) by (simp add: py_upto_nat toks_def)
  let ?kv = "take (length toks) ?row"
  let ?s3 = "rc_free A (drop (key_len key) ?kv) (rc_free A (drop ?p (take (key_len key) ?kv)) s)"
  obtain delta s4 where s4: "dec_lock_ref b ?s3 = Inr (delta, s4)" "radix_inv D rk (H - {#b#}) s4" "lock_frame ?s3 s4"
    "tree_slots D (shape s4) = tree_slots D (shape ?s3)" "\<forall>ek r u v b. walk (shape s4) ek r u v b \<longleftrightarrow> walk (shape ?s3) ek r u v b"
    using dec_lock_flow [of D rk H ?s3 b] rinv en a ib by auto
  have kr: "page_aligned (rc_page_size s) \<lparr>token_ids = toks, extra_key = req_extra_key r, is_bigram = is_eagle s\<rparr> = key"
    using q by (simp add: key_def req_key_def)
  let ?q1 = "?q\<lparr>kv_committed_freed := True\<rparr>" and ?q2 = "?q\<lparr>kv_committed_freed := True, kv_overallocated_freed := True\<rparr>"
  have pop: "pop_committed_kv_cache strip ?q = Inr (?c, ?q1)" using h(1) q by (simp add: pop_committed_kv_cache_def py_assert_def)
  have q1: "origin_ids ?q1 = origin_ids r" "output_ids ?q1 = output_ids r" "req_extra_key ?q1 = req_extra_key r" "cache_protected_len ?q1 = ?p"
    "last_node ?q1 = Some b" "the_row tab ?q1 = Inr ?row" "the_row tab ?q2 = Inr ?row" using q by (simp_all add: the_row_def)
  have fin: "radix_cache_finished_req A strip tab False ?q s = Inr (?q1, s4)"
    unfolding radix_cache_finished_req_def Let_def pop py_bind_simps prod.case q1 up kr option.case using en s4(1) by simp
  have over: "pop_overallocated_kv_cache strip ?q1 = Inr ((?c, committed_len r), ?q2)"
    using h(2,4) q by (simp add: pop_overallocated_kv_cache_def py_assert_def cache_commit_len_def)
  define s5 where "s5 = rc_free A (drop (nat ?c) (take (nat (committed_len r)) ?row)) s4"
  have asr: "spec \<or> strip \<or> ?c = committed_len r" using c(3) by blast
  have sl: "py_slice ?row ?c (committed_len r) = drop (nat ?c) (take (nat (committed_len r)) ?row)" using c(1) h(3) by (rule py_slice_nat)
  have "release_kv_cache A spec strip tab False ?q (RadixTree s) pool =
      Inr (?q2\<lparr>req_pool_idx := None\<rparr>, RadixTree (if ?c < committed_len r then s5 else s4), pool\<lparr>free_slots := free_slots pool @ [i]\<rparr>)"
    unfolding release_kv_cache_def cache_finished_req_def simp_thms prefix_cache.case fin py_bind_simps prod.case over q1 Let_def sl
    using q(3) asr ps by (simp add: sl py_assert_def pc_free_def pc_allocator_def pc_with_allocator_def req_pool_free_def pool_req.truncate_def
        s5_def rc_free_def)
  moreover define s6 where "s6 = (if ?c < committed_len r then s5 else s4)"
  moreover have f3: "inv (kv_allocator ?s3)" "fs (kv_allocator ?s3) = fs (kv_allocator s) + mset (drop ?p ?kv)"
  proof -
    have "mset (drop ?p (take (length toks) ?row)) = mset (drop ?p (take (key_len key) ?kv)) + mset (drop (key_len key) ?kv)"
      using mset_slice_split [OF h(7) k(3), of ?row] k(3) by (simp add: min_def)
    then show "inv (kv_allocator ?s3)" "fs (kv_allocator ?s3) = fs (kv_allocator s) + mset (drop ?p ?kv)"
      using free_spec [OF al, of "drop ?p (take (key_len key) ?kv)"]
        free_spec [of "free (kv_allocator s) (drop ?p (take (key_len key) ?kv))" "drop (key_len key) ?kv"] by (simp_all add: op_free add.assoc)
  qed
  moreover have k4: "kv_allocator s4 = kv_allocator ?s3" by (rule lock_frameD(6) [OF s4(3)])
  moreover have "inv (kv_allocator s6) \<and> fs (kv_allocator s6) = fs (kv_allocator s) + mset (own_slots tab r)"
  proof -
    have "mset (own_slots tab r) = mset (drop ?p ?kv) + mset (drop (nat ?c) (take (nat (committed_len r)) ?row))"
      using mset_slice_split [of ?p "nat ?c" "nat (committed_len r)" ?row] h(7) k(3) lt c(1,2) ib by (simp add: own_slots_def)
    then show ?thesis using f3 k4 free_spec [of "kv_allocator s4" "drop (nat ?c) (take (nat (committed_len r)) ?row)"]
      by (auto simp: s6_def s5_def op_free add.assoc)
  qed
  moreover have s6: "shape s6 = shape s4" "radix_inv D rk (H - {#b#}) s6" "config s6 = config (s4\<lparr>kv_allocator := kv_allocator s6\<rparr>)"
    using s4(2) by (simp_all add: s6_def s5_def rc_free_def config_def)
  moreover have "config s6 = config (s\<lparr>kv_allocator := kv_allocator s6\<rparr>)"
    using s6(3) lock_frame_config [OF s4(3)] by (simp add: config_def rc_free_def)
  ultimately show ?thesis using s4(4,5) ib ok config_settings [where s' = s6 and s = s and al = "kv_allocator s6"]
    by (intro exI [of _ s6] exI [of _ "?q2\<lparr>req_pool_idx := None\<rparr>"]) (auto simp: pool_ok_def pool_step_def pool_slots_def)
qed

lemma evict_step:
  assumes ok: "pool_ok inv D rk H s"
  shows "\<exists>s' D'. evict_from_tree_cache A (RadixTree s) n = Inr (RadixTree s') \<and> pool_ok inv D' rk H s' \<and> pool_step fs H D s {#} D' s' \<and>
    (n \<le> int (size (fs (kv_allocator s'))) \<longleftrightarrow> n \<le> int (size (fs (kv_allocator s))) + evictable_size s)"
proof -
  have o: "radix_inv D rk H s" "\<not> disable s" "\<not> enable_kv_cache_events s" "inv (kv_allocator s)" using ok by (simp_all add: pool_ok_def)
  obtain s1 D1 where s1: "evict_from_tree_cache A (RadixTree s) n = Inr (RadixTree s1)" "radix_inv D1 rk H s1" "inv (kv_allocator s1)"
      "pool_slots fs D s = pool_slots fs D1 s1" "config s1 = config (s\<lparr>kv_allocator := kv_allocator s1\<rparr>)"
      "n \<le> int (size (fs (kv_allocator s1))) \<longleftrightarrow> n \<le> int (size (fs (kv_allocator s))) + evictable_size s"
      "\<And>a ek u v. a \<in># H \<Longrightarrow> walk (shape s) ek (root_node s) u v a \<Longrightarrow> walk (shape s1) ek (root_node s) u v a"
    using evict_tree_ok [OF o, of n] by blast
  then show ?thesis using o config_settings [OF s1(5)]
    by (intro exI [of _ s1] exI [of _ D1]) (simp add: pool_ok_def pool_step_def)
qed

text \<open>A released request gives back every slot of its own, and its lock; nothing else changes hands.\<close>

lemma release_req_ok:
  assumes ok: "pool_ok inv D rk H s" and r: "slots_held strip tab s r" and a: "the (last_node r) \<in># H" and ps: "op_page_size A = 1"
  shows "\<exists>s' D'. release_req A spec strip tab steps n r (RadixTree s) pool =
      Inr (retracted r, RadixTree s', pool\<lparr>free_slots := free_slots pool @ [the (req_pool_idx r)]\<rparr>) \<and>
    pool_ok inv D' rk (H - {#the (last_node r)#}) s' \<and> pool_step fs (H - {#the (last_node r)#}) D s (mset (own_slots tab r)) D' s'"
proof -
  let ?H = "H - {#the (last_node r)#}"
  obtain s1 r1 where s1: "release_kv_cache A spec strip tab False (cache_req.truncate r) (RadixTree s) pool =
      Inr (r1, RadixTree s1, pool\<lparr>free_slots := free_slots pool @ [the (req_pool_idx r)]\<rparr>)" "req_pool_idx r1 = None"
    "pool_ok inv D rk ?H s1" "pool_step fs H D s (mset (own_slots tab r)) D s1"
    using release_kv_ok [OF ok r a ps, of spec pool] by blast
  obtain s2 D2 where s2: "evict_from_tree_cache A (RadixTree s1) (n * steps) = Inr (RadixTree s2)" "pool_ok inv D2 rk ?H s2"
    "pool_step fs ?H D s1 {#} D2 s2" using evict_step [OF s1(3), of "n * steps"] by blast
  have "pool_step fs ?H D s (mset (own_slots tab r)) D2 s2" using pool_step_trans [OF s1(4) s2(3)] by simp
  then show ?thesis using s1 s2 by (intro exI [of _ s2] exI [of _ D2]) (simp add: release_req_def retracted_def)
qed

lemma check_decode_mem_ok:
  assumes ok: "pool_ok inv D rk H s" and E: "de_ops E = A" "de_spec_none E" "op_page_size A = 1"
  shows "\<exists>s' D'. check_decode_mem E rs (RadixTree s) = Inr (length rs \<le> size (fs (kv_allocator s')), RadixTree s') \<and>
    pool_ok inv D' rk H s' \<and> pool_step fs H D s {#} D' s'"
proof -
  have n: "new_tokens_required_next_decode E rs = Inr (int (length rs))" using E by (simp add: new_tokens_required_next_decode_def)
  obtain s' D' where s': "evict_from_tree_cache A (RadixTree s) (int (length rs)) = Inr (RadixTree s')" "pool_ok inv D' rk H s'" "pool_step fs H D s {#} D' s'"
    using evict_step [OF ok, of "int (length rs)"] by blast
  have "op_available A (kv_allocator s') = int (size (fs (kv_allocator s')))" using s'(2) op_available by (simp add: pool_ok_def)
  then show ?thesis using s' n E(1) by (intro exI [of _ s'] exI [of _ D']) (simp add: check_decode_mem_def pc_allocator_def)
qed

end

section \<open>The retraction loop\<close>

definition batch_nodes :: "sched_req list \<Rightarrow> nat multiset" where
  "batch_nodes rs = mset (map (\<lambda>r. the (last_node r)) rs)"

definition batch_slots :: "table \<Rightarrow> sched_req list \<Rightarrow> int multiset" where
  "batch_slots tab rs = mset (concat (map (own_slots tab) rs))"

definition batch_held :: "bool \<Rightarrow> table \<Rightarrow> 'al radix_cache \<Rightarrow> nat multiset \<Rightarrow> sched_req list \<Rightarrow> bool" where
  "batch_held strip tab s H rs \<longleftrightarrow> (\<forall>r \<in> set rs. slots_held strip tab s r) \<and> batch_nodes rs \<subseteq># H"

lemma batch_nodes_simps [simp]:
  "batch_nodes [] = {#}" "batch_nodes (r # rs) = add_mset (the (last_node r)) (batch_nodes rs)" "batch_nodes (rs @ ts) = batch_nodes rs + batch_nodes ts"
  by (simp_all add: batch_nodes_def)

lemma batch_slots_simps [simp]:
  "batch_slots tab [] = {#}" "batch_slots tab (r # rs) = mset (own_slots tab r) + batch_slots tab rs"
  "batch_slots tab (rs @ ts) = batch_slots tab rs + batch_slots tab ts"
  by (simp_all add: batch_slots_def)

lemma batch_held_step:
  assumes b: "batch_held strip tab s H rs" and st: "pool_step fs H' D s X D' s'" and H: "batch_nodes rs \<subseteq># H'"
  shows "batch_held strip tab s' H' rs"
proof -
  have "the (last_node r) \<in># H'" if "r \<in> set rs" for r using that by (intro mset_subset_eqD [OF H]) (auto simp: batch_nodes_def)
  then show ?thesis using b H slots_held_step [OF _ st] by (auto simp: batch_held_def)
qed

lemma batch_held_append: "batch_held strip tab s H (rs @ ts) \<Longrightarrow> batch_held strip tab s (H - batch_nodes rs) ts"
  by (auto simp: batch_held_def mset_subset_eq_exists_conv add.assoc)

lemma batch_held_hd: "batch_held strip tab s H (r # rs) \<Longrightarrow> batch_held strip tab s H [r]"
  by (auto simp: batch_held_def dest: mset_subset_eq_insertD)

lemma batch_held_perm: "mset rs = mset ts \<Longrightarrow> batch_held strip tab s H rs \<longleftrightarrow> batch_held strip tab s H ts"
  by (auto simp: batch_held_def batch_nodes_def dest: mset_eq_setD)

lemma map_nth_update_other: "i \<notin> set is \<Longrightarrow> map (\<lambda>j. (xs[i := x]) ! j) is = map (\<lambda>j. xs ! j) is"
  by (induction "is") auto

text \<open>From state \<open>R\<close> on, the requests at \<open>ds\<close> are released, in this order; the others are left as they are.\<close>

definition releases ::
  "('al \<Rightarrow> bool) \<Rightarrow> ('al \<Rightarrow> int multiset) \<Rightarrow> table \<Rightarrow> (nat \<Rightarrow> nat) \<Rightarrow> nat multiset \<Rightarrow> nat set \<Rightarrow> 'al radix_cache \<Rightarrow> 'al retract_state \<Rightarrow>
     nat list \<Rightarrow> nat set \<Rightarrow> 'al radix_cache \<Rightarrow> 'al retract_state \<Rightarrow> bool" where
  "releases I fs tab rk H D s R ds D' s' R' \<longleftrightarrow>
     (let G = map (\<lambda>j. rt_reqs R ! j) ds
      in rt_cache R' = RadixTree s' \<and> pool_ok I D' rk (H - batch_nodes G) s' \<and> pool_step fs (H - batch_nodes G) D s (batch_slots tab G) D' s' \<and>
         length (rt_reqs R') = length (rt_reqs R) \<and> (\<forall>j. j \<notin> set ds \<longrightarrow> rt_reqs R' ! j = rt_reqs R ! j) \<and>
         rt_pool R' = (rt_pool R)\<lparr>free_slots := free_slots (rt_pool R) @ map (\<lambda>r. the (req_pool_idx r)) G\<rparr>)"

lemma releases_trans:
  assumes 1: "releases I fs tab rk H D s R ds D1 s1 R1" and 2: "releases I fs tab rk (H - batch_nodes (map (\<lambda>j. rt_reqs R ! j) ds)) D1 s1 R1 es D' s' R'"
    and d: "set ds \<inter> set es = {}"
  shows "releases I fs tab rk H D s R (ds @ es) D' s' R'"
proof -
  have e: "map (\<lambda>j. rt_reqs R1 ! j) es = map (\<lambda>j. rt_reqs R ! j) es" using 1 d by (auto simp: releases_def Let_def)
  have H: "H - batch_nodes xs - batch_nodes ys \<subseteq># H - batch_nodes xs" for xs ys by (rule diff_subset_eq_self)
  show ?thesis using 1 2 unfolding releases_def Let_def e
    by (auto simp: diff_diff_add_mset [symmetric] simp del: diff_diff_add_mset intro: pool_step_trans [OF _ _ H])
qed

lemma releases_kept:
  assumes 1: "releases I fs tab rk H D s R ds D' s' R'" and b: "batch_held strip tab s H (map (\<lambda>j. rt_reqs R ! j) (ds @ ks))"
    and d: "set ds \<inter> set ks = {}"
  shows "batch_held strip tab s' (H - batch_nodes (map (\<lambda>j. rt_reqs R ! j) ds)) (map (\<lambda>j. rt_reqs R' ! j) ks)"
proof -
  have e: "map (\<lambda>j. rt_reqs R' ! j) ks = map (\<lambda>j. rt_reqs R ! j) ks" using 1 d by (auto simp: releases_def Let_def)
  have h: "batch_held strip tab s (H - batch_nodes (map (\<lambda>j. rt_reqs R ! j) ds)) (map (\<lambda>j. rt_reqs R ! j) ks)"
    using batch_held_append b by simp
  have "pool_step fs (H - batch_nodes (map (\<lambda>j. rt_reqs R ! j) ds)) D s (batch_slots tab (map (\<lambda>j. rt_reqs R ! j) ds)) D' s'"
    using 1 by (simp add: releases_def Let_def)
  from batch_held_step [OF h this] show ?thesis unfolding e using h by (simp add: batch_held_def)
qed

lemma keep_reqs_map:
  assumes l: "length xs = length rs" and n: "\<forall>j. j \<notin> set gs \<longrightarrow> xs ! j = rs ! j" and p: "mset (gs @ es) = mset [0..<length rs]"
    and g: "gs = [] \<Longrightarrow> length es \<le> 1"
  shows "keep_reqs (rev es) xs = map (\<lambda>j. rs ! j) (rev es)"
proof -
  have len: "length gs + length es = length rs" using mset_eq_length [OF p] by simp
  have "distinct (gs @ es)" using mset_eq_imp_distinct_iff [OF p] by simp
  then have e: "map (\<lambda>j. xs ! j) (rev es) = map (\<lambda>j. rs ! j) (rev es)" using n by auto
  show ?thesis
  proof (cases "es = [] \<or> gs \<noteq> []")
    case True
    then show ?thesis using e len l by (auto simp: keep_reqs_def)
  next
    case False
    then have "length rs = 1" using len g by (cases es) auto
    moreover from this have "es = [0]" using p False by (cases es) auto
    ultimately show ?thesis using e l by (cases rs; cases xs) (auto simp: keep_reqs_def)
  qed
qed

context slot_pool
begin

lemma check_mem_releases:
  assumes ok: "pool_ok inv D rk H s" and E: "de_ops E = A" "de_spec_none E" "op_page_size A = 1" and R: "rt_cache R = RadixTree s"
  shows "\<exists>s' D'. check_decode_mem E rs (rt_cache R) = Inr (length rs \<le> size (fs (kv_allocator s')), RadixTree s') \<and>
    releases inv fs tab rk H D s R [] D' s' (R\<lparr>rt_cache := RadixTree s'\<rparr>)"
  using check_decode_mem_ok [OF ok E, of rs] by (auto simp: R releases_def)

lemma retract_one_releases:
  assumes ok: "pool_ok inv D rk H s" and E: "de_ops E = A" "op_page_size A = 1" and R: "rt_cache R = RadixTree s"
    and r: "batch_held (de_strip E) tab s H [rt_reqs R ! i]"
  shows "\<exists>s' D' R'. retract_one E tab n i R = Inr (retracted (rt_reqs R ! i), R') \<and> rt_retracted R' = rt_retracted R \<and>
    releases inv fs tab rk H D s R [i] D' s' R'"
proof -
  have h: "slots_held (de_strip E) tab s (rt_reqs R ! i)" "the (last_node (rt_reqs R ! i)) \<in># H" using r by (simp_all add: batch_held_def)
  from release_req_ok [OF ok h E(2), of "\<not> de_spec_none E" "de_retract_steps E" n "rt_pool R"] show ?thesis
    unfolding retract_one_def E(1) R by (auto simp: releases_def)
qed

lemma loop_check_ok:
  assumes ok: "pool_ok inv D rk H s" and E: "de_ops E = A" "de_spec_none E" "op_page_size A = 1" and R: "rt_cache R = RadixTree s"
  shows "\<exists>s' D' enough. (if first then Inr (False, rt_cache R) else check_decode_mem E rs (rt_cache R)) = Inr (enough, RadixTree s') \<and>
    releases inv fs tab rk H D s R [] D' s' (R\<lparr>rt_cache := RadixTree s'\<rparr>) \<and> (enough \<longrightarrow> \<not> first \<and> length rs \<le> size (fs (kv_allocator s')))"
proof (cases first)
  case True
  have "releases inv fs tab rk H D s R [] D s (R\<lparr>rt_cache := RadixTree s\<rparr>)" using ok R by (simp add: releases_def pool_step_def config_def)
  then show ?thesis using True R by (intro exI [of _ s] exI [of _ D] exI [of _ False]) simp
next
  case False
  with check_mem_releases [OF ok E R, of rs tab] show ?thesis by auto
qed

lemma retract_loop_ok:
  assumes E: "de_ops E = A" "de_spec_none E" "op_page_size A = 1"
  shows "pool_ok inv D rk H s \<Longrightarrow> rt_cache R = RadixTree s \<Longrightarrow> batch_held (de_strip E) tab s H (map (\<lambda>j. rt_reqs R ! j) (i # js)) \<Longrightarrow>
    distinct (i # js) \<Longrightarrow>
    \<exists>ds left D' s' R'. i # js = ds @ left \<and> left \<noteq> [] \<and> retract_loop E tab first (i # js) R = Inr (left, R') \<and>
      releases inv fs tab rk H D s R ds D' s' R' \<and> rt_retracted R' = rt_retracted R @ map (\<lambda>j. retracted (rt_reqs R ! j)) ds \<and>
      (first \<and> js \<noteq> [] \<longrightarrow> ds \<noteq> []) \<and> (1 < length left \<longrightarrow> length left \<le> size (fs (kv_allocator s')))"
proof (induction js arbitrary: i first D H s R)
  case Nil
  from loop_check_ok [OF Nil.prems(1) E Nil.prems(2), of first "[rt_reqs R ! i]" tab]
  obtain s1 D1 enough where c: "(if first then Inr (False, rt_cache R) else check_decode_mem E [rt_reqs R ! i] (rt_cache R)) = Inr (enough, RadixTree s1)"
    and r: "releases inv fs tab rk H D s R [] D1 s1 (R\<lparr>rt_cache := RadixTree s1\<rparr>)" by blast
  have "retract_loop E tab first [i] R = Inr ([i], R\<lparr>rt_cache := RadixTree s1\<rparr>)"
    unfolding retract_loop.simps rev.simps append_Nil list.map c py_bind_simps by (simp add: Let_def)
  with r show ?case
    by (intro exI [of _ "[]"] exI [of _ "[i]"] exI [of _ D1] exI [of _ s1] exI [of _ "R\<lparr>rt_cache := RadixTree s1\<rparr>"]) (simp del: retract_loop.simps)
next
  case (Cons k ks)
  define res where "res = (if first then Inr (False, rt_cache R) else check_decode_mem E (map (\<lambda>j. rt_reqs R ! j) (rev (i # k # ks))) (rt_cache R))"
  from loop_check_ok [OF Cons.prems(1) E Cons.prems(2), of first "map (\<lambda>j. rt_reqs R ! j) (rev (i # k # ks))" tab, folded res_def]
  obtain s1 D1 enough where s1: "res = Inr (enough, RadixTree s1)" "releases inv fs tab rk H D s R [] D1 s1 (R\<lparr>rt_cache := RadixTree s1\<rparr>)"
    "enough \<longrightarrow> \<not> first \<and> length (i # k # ks) \<le> size (fs (kv_allocator s1))" by auto
  let ?R1 = "R\<lparr>rt_cache := RadixTree s1\<rparr>"
  have "loop": "retract_loop E tab first (i # k # ks) R = (if enough then Inr (i # k # ks, ?R1)
      else py_bind (retract_one E tab (int (length (k # ks))) i ?R1) (\<lambda>(r', R2).
        retract_loop E tab False (k # ks) (R2\<lparr>rt_retracted := rt_retracted R2 @ [r']\<rparr>)))"
    using s1(1) by (simp add: res_def)
  show ?case
  proof (cases enough)
    case True
    then show ?thesis using s1 "loop" by (intro exI [of _ "[]"] exI [of _ "i # k # ks"] exI [of _ D1] exI [of _ s1] exI [of _ ?R1]) simp
  next
    case False
    have ok1: "pool_ok inv D1 rk H s1" "rt_cache ?R1 = RadixTree s1" using s1(2) by (simp_all add: releases_def)
    have b1: "batch_held (de_strip E) tab s1 H (map (\<lambda>j. rt_reqs ?R1 ! j) ([i] @ k # ks))"
      using releases_kept [OF s1(2), of "de_strip E" "i # k # ks"] Cons.prems(3) by simp
    then have bi: "batch_held (de_strip E) tab s1 H [rt_reqs ?R1 ! i]" using batch_held_hd by simp
    obtain s2 D2 R2 where s2: "retract_one E tab (int (length (k # ks))) i ?R1 = Inr (retracted (rt_reqs R ! i), R2)"
      "rt_retracted R2 = rt_retracted R" "releases inv fs tab rk H D1 s1 ?R1 [i] D2 s2 R2"
      using retract_one_releases [OF ok1(1) E(1,3) ok1(2) bi, of "int (length (k # ks))"] by auto
    let ?R3 = "R2\<lparr>rt_retracted := rt_retracted R2 @ [retracted (rt_reqs R ! i)]\<rparr>" and ?H = "H - batch_nodes [rt_reqs R ! i]"
    have r3: "releases inv fs tab rk H D s R [i] D2 s2 ?R3" using releases_trans [OF s1(2), of "[i]" D2 s2 ?R3] s2(3) by (simp add: releases_def)
    have ok3: "pool_ok inv D2 rk ?H s2" "rt_cache ?R3 = RadixTree s2" using r3 by (simp_all add: releases_def)
    have b3: "batch_held (de_strip E) tab s2 ?H (map (\<lambda>j. rt_reqs ?R3 ! j) (k # ks))"
      using releases_kept [OF r3, of "de_strip E" "k # ks"] Cons.prems(3,4) by simp
    have dk: "distinct (k # ks)" using Cons.prems(4) by simp
    obtain ds left D' s' R' where ih: "k # ks = ds @ left" "left \<noteq> []" "retract_loop E tab False (k # ks) ?R3 = Inr (left, R')"
      "releases inv fs tab rk ?H D2 s2 ?R3 ds D' s' R'" "rt_retracted R' = rt_retracted ?R3 @ map (\<lambda>j. retracted (rt_reqs ?R3 ! j)) ds"
      "1 < length left \<longrightarrow> length left \<le> size (fs (kv_allocator s'))"
      using Cons.IH [OF ok3 b3 dk, of False] by blast
    have id: "i \<notin> set ds" using Cons.prems(4) ih(1) by (metis UnCI distinct.simps(2) set_append)
    then have "map (\<lambda>j. retracted (rt_reqs ?R3 ! j)) ds = map (\<lambda>j. retracted (rt_reqs R ! j)) ds" using r3 by (auto simp: releases_def)
    moreover have "releases inv fs tab rk H D s R (i # ds) D' s' R'" using releases_trans [OF r3, of ds D' s' R'] ih(4) id by simp
    ultimately show ?thesis using False ih "loop" s2(1,2)
      by (intro exI [of _ "i # ds"] exI [of _ left] exI [of _ D'] exI [of _ s'] exI [of _ R']) simp
  qed
qed

lemma abort_last_ok:
  assumes E: "de_ops E = A" "de_spec_none E" "op_page_size A = 1" and ok: "pool_ok inv D rk H s" "rt_cache R = RadixTree s"
    and b: "batch_held (de_strip E) tab s H (map (\<lambda>j. rt_reqs R ! j) left)" and l: "left \<noteq> []" "1 < length left \<longrightarrow> length left \<le> size (fs (kv_allocator s))"
  shows "\<exists>gs es D' s' R'. left = gs @ es \<and> abort_last E tab left R = Inr (rev es, map (\<lambda>j. retracted (rt_reqs R ! j)) gs, R') \<and>
    releases inv fs tab rk H D s R gs D' s' R' \<and> rt_retracted R' = rt_retracted R \<and> length es \<le> size (fs (kv_allocator s')) \<and> (gs \<noteq> [] \<longrightarrow> es = [])"
proof (cases "1 < length left")
  case True
  have "releases inv fs tab rk H D s R [] D s R" using ok by (simp add: releases_def pool_step_def config_def)
  then show ?thesis using True l by (intro exI [of _ "[]"] exI [of _ left] exI [of _ D] exI [of _ s] exI [of _ R]) (simp add: abort_last_def)
next
  case False
  then obtain j where j: "left = [j]" using l(1) by (cases left) (auto simp: Suc_le_eq)
  obtain s1 D1 where s1: "check_decode_mem E [rt_reqs R ! j] (rt_cache R) = Inr (1 \<le> size (fs (kv_allocator s1)), RadixTree s1)"
    "releases inv fs tab rk H D s R [] D1 s1 (R\<lparr>rt_cache := RadixTree s1\<rparr>)"
    using check_mem_releases [OF ok(1) E ok(2), of "[rt_reqs R ! j]" tab] by auto
  let ?R1 = "R\<lparr>rt_cache := RadixTree s1\<rparr>"
  have ok1: "pool_ok inv D1 rk H s1" "rt_cache ?R1 = RadixTree s1" using s1(2) by (simp_all add: releases_def)
  have b1: "batch_held (de_strip E) tab s1 H [rt_reqs ?R1 ! j]" using releases_kept [OF s1(2), of "de_strip E" "[j]"] b j by simp
  obtain s2 D2 R2 where s2: "retract_one E tab 0 j ?R1 = Inr (retracted (rt_reqs R ! j), R2)" "rt_retracted R2 = rt_retracted R"
    "releases inv fs tab rk H D1 s1 ?R1 [j] D2 s2 R2"
    using retract_one_releases [OF ok1(1) E(1,3) ok1(2) b1, of 0] by auto
  have r2: "releases inv fs tab rk H D s R [j] D2 s2 R2" using releases_trans [OF s1(2), of "[j]" D2 s2 R2] s2(3) by simp
  show ?thesis
  proof (cases "1 \<le> size (fs (kv_allocator s1))")
    case True
    then show ?thesis using s1 j by (intro exI [of _ "[]"] exI [of _ "[j]"] exI [of _ D1] exI [of _ s1] exI [of _ ?R1]) (simp add: abort_last_def)
  next
    case False
    then show ?thesis using s1(1) s2(1,2) r2 j by (intro exI [of _ "[j]"] exI [of _ "[]"] exI [of _ D2] exI [of _ s2] exI [of _ R2]) (simp add: abort_last_def)
  qed
qed

lemma retract_decode_ok:
  assumes E: "de_ops E = A" "de_spec_none E" "op_page_size A = 1" and ok: "pool_ok inv D rk H s" and b: "batch_held (de_strip E) tab s H rs"
    and rs: "rs \<noteq> []" and m: "\<forall>r \<in> set rs. 0 \<le> max_new_tokens r"
  shows "\<exists>ds ks D' s' R' T. retract_order False rs = ks @ rev ds \<and> retract_decode E tab rs (RadixTree s) pool = Inr T \<and>
    releases inv fs tab rk H D s \<lparr>rt_reqs = rs, rt_cache = RadixTree s, rt_pool = pool, rt_retracted = []\<rparr> ds D' s' R' \<and>
    rr_cache T = RadixTree s' \<and> rr_pool T = rt_pool R' \<and> rr_kept T = map (\<lambda>j. rs ! j) ks \<and>
    rr_retracted T @ rr_aborted T = map (\<lambda>j. retracted (rs ! j)) ds \<and> (rr_aborted T \<noteq> [] \<longrightarrow> ks = []) \<and>
    (1 < length rs \<longrightarrow> rr_retracted T \<noteq> []) \<and> length ks \<le> size (fs (kv_allocator s'))"
proof -
  let ?R = "\<lparr>rt_reqs = rs, rt_cache = RadixTree s, rt_pool = pool, rt_retracted = []\<rparr>" and ?o = "retract_order False rs"
  have o: "mset ?o = mset [0..<length rs]" "distinct ?o" "length ?o = length rs"
    by (simp_all add: retract_order_def)
  obtain i "is" where ii: "rev ?o = i # is" using o(3) rs by (cases "rev ?o") auto
  have di: "distinct (i # is)" using o(2) unfolding ii [symmetric] by simp
  have "mset (map (\<lambda>j. rs ! j) (i # is)) = mset (map (\<lambda>j. rs ! j) [0..<length rs])"
    unfolding ii [symmetric] using o(1) by (metis mset_map mset_rev)
  then have bi: "batch_held (de_strip E) tab s H (map (\<lambda>j. rs ! j) (i # is))" using b batch_held_perm by (metis map_nth)
  obtain ds left D1 s1 R1 where L: "i # is = ds @ left" "left \<noteq> []" "retract_loop E tab True (i # is) ?R = Inr (left, R1)"
      "releases inv fs tab rk H D s ?R ds D1 s1 R1" "rt_retracted R1 = map (\<lambda>j. retracted (rs ! j)) ds"
      "is \<noteq> [] \<longrightarrow> ds \<noteq> []" "1 < length left \<longrightarrow> length left \<le> size (fs (kv_allocator s1))"
    using retract_loop_ok [OF E ok, where R = ?R and tab = tab and i = i and js = "is" and first = True, OF _ _ di,
        unfolded retract_state.simps append_Nil simp_thms, OF TrueI bi] by blast
  have dj: "set ds \<inter> set left = {}" using di unfolding L(1) by simp
  have ok1: "pool_ok inv D1 rk (H - batch_nodes (map (\<lambda>j. rs ! j) ds)) s1" "rt_cache R1 = RadixTree s1" using L(4) by (simp_all add: releases_def Let_def)
  have sp: "(\<not> de_spec_none E) = False" using E(2) by simp
  have perm: "mset (ds @ left) = mset [0..<length rs]" using o(1) unfolding L(1) [symmetric] ii [symmetric] by simp
  have b1: "batch_held (de_strip E) tab s1 (H - batch_nodes (map (\<lambda>j. rs ! j) ds)) (map (\<lambda>j. rt_reqs R1 ! j) left)"
    using releases_kept [OF L(4), of "de_strip E" left] bi dj unfolding L(1) by simp
  obtain gs es D' s' R' where S: "left = gs @ es" "abort_last E tab left R1 = Inr (rev es, map (\<lambda>j. retracted (rt_reqs R1 ! j)) gs, R')"
    "releases inv fs tab rk (H - batch_nodes (map (\<lambda>j. rs ! j) ds)) D1 s1 R1 gs D' s' R'" "rt_retracted R' = rt_retracted R1"
    "length es \<le> size (fs (kv_allocator s'))" "gs \<noteq> [] \<longrightarrow> es = []"
    using abort_last_ok [OF E ok1 b1 L(2,7)] by blast
  have dg: "set ds \<inter> set gs = {}" using dj S(1) by auto
  have r: "releases inv fs tab rk H D s ?R (ds @ gs) D' s' R'" using releases_trans [OF L(4) _ dg, of D' s' R'] S(3) by simp
  have ab: "map (\<lambda>j. retracted (rt_reqs R1 ! j)) gs = map (\<lambda>j. retracted (rs ! j)) gs" using L(4) dg by (auto simp: releases_def Let_def)
  have "keep_reqs (rev es) (rt_reqs R') = map (\<lambda>j. rs ! j) (rev es)"
  proof (rule keep_reqs_map)
    show "ds @ gs = [] \<Longrightarrow> length es \<le> 1" using L(1,6) S(1) by (cases "is") auto
  qed (use r perm S(1) in \<open>simp_all add: releases_def Let_def\<close>)
  moreover have "\<exists>q. new_estimate_ratio E (map (\<lambda>j. rs ! j) (rev es)) = Inr q"
  proof -
    have "set es \<subseteq> {0..<length rs}" using S(1) mset_eq_setD [OF perm] by auto
    then have "0 \<le> sum_list (map max_new_tokens (map (\<lambda>j. rs ! j) (rev es)))" using m by (intro sum_list_nonneg) auto
    then show ?thesis by (simp add: new_estimate_ratio_def Let_def comp_def)
  qed
  ultimately obtain q where q: "retract_decode E tab rs (RadixTree s) pool = Inr \<lparr>rr_retracted = rt_retracted R1, rr_ratio = q,
      rr_aborted = map (\<lambda>j. retracted (rs ! j)) gs, rr_kept = map (\<lambda>j. rs ! j) (rev es), rr_cache = rt_cache R', rr_pool = rt_pool R'\<rparr>" (is "_ = Inr ?T")
    unfolding retract_decode_def sp ii L(3) py_bind_simps prod.case S(2,4) ab Let_def by auto
  have "?o = rev es @ rev (ds @ gs)" using arg_cong [OF ii, of rev] unfolding L(1) S(1) by simp
  moreover have "1 < length rs \<longrightarrow> ds \<noteq> []" using L(6) o(3) arg_cong [OF ii, of length] by auto
  moreover have "rr_cache ?T = RadixTree s'" using r by (simp add: releases_def Let_def)
  moreover have "rr_retracted ?T @ rr_aborted ?T = map (\<lambda>j. retracted (rs ! j)) (ds @ gs)" using L(5) by simp
  moreover have "(rr_aborted ?T \<noteq> [] \<longrightarrow> rev es = []) \<and> length (rev es) \<le> size (fs (kv_allocator s'))" using S(5,6) by simp
  moreover have "rr_retracted ?T \<noteq> [] \<longleftrightarrow> ds \<noteq> []" using L(5) by simp
  ultimately show ?thesis using r q
    by (intro exI [of _ "ds @ gs"] exI [of _ "rev es"] exI [of _ D'] exI [of _ s'] exI [of _ R'] exI [of _ ?T] conjI) simp_all
qed

lemma next_decode_ok:
  assumes ok: "pool_ok inv D rk H s" and n: "n \<le> size (fs (kv_allocator s))" and ps: "op_page_size A = 1"
    and len: "length rows = n" "length lens = n"
  shows "\<exists>locs tc' pool'. alloc_for_decode A 1 None rows lens (RadixTree s) pool = Inr (locs, tc', pool') \<and> length locs = n"
proof -
  have o: "radix_inv D rk H s" "\<not> disable s" "\<not> enable_kv_cache_events s" "inv (kv_allocator s)" using ok by (simp_all add: pool_ok_def)
  have "0 \<le> evictable_size s" by (rule acct_nonneg [OF radix_invD(3) [OF o(1)]])
  then obtain locs bak s' where "alloc_token_slots A (RadixTree s) (int n) = Inr (locs, bak, RadixTree s')" "int (length locs) = int n"
    using alloc_token_slots_ok [OF o, of "int n"] n by auto
  then show ?thesis using len ps by (simp add: alloc_for_decode_def scatter_write_def)
qed

lemma retract_all_loop_ok:
  assumes E: "de_ops E = A" "op_page_size A = 1"
  shows "pool_ok inv D rk H s \<Longrightarrow> rt_cache R = RadixTree s \<Longrightarrow> batch_held (de_strip E) tab s H (map (\<lambda>j. rt_reqs R ! j) js) \<Longrightarrow> distinct js \<Longrightarrow>
    \<exists>D' s' R'. retract_all_loop E tab js R = Inr R' \<and> releases inv fs tab rk H D s R js D' s' R'"
proof (induction js arbitrary: D H s R)
  case Nil
  then show ?case by (intro exI [of _ D] exI [of _ s] exI [of _ R]) (simp add: releases_def pool_step_def config_def)
next
  case (Cons i js)
  have "batch_held (de_strip E) tab s H [rt_reqs R ! i]"
    using batch_held_hd Cons.prems(3) by simp
  from retract_one_releases [OF Cons.prems(1) E Cons.prems(2) this, of "int (length (rt_reqs R)) - int i"]
  obtain s1 D1 R1 where r1: "retract_one E tab (int (length (rt_reqs R)) - int i) i R = Inr (retracted (rt_reqs R ! i), R1)"
    "releases inv fs tab rk H D s R [i] D1 s1 R1" by blast
  let ?H = "H - batch_nodes [rt_reqs R ! i]"
  have ok: "pool_ok inv D1 rk ?H s1" "rt_cache R1 = RadixTree s1" using r1(2) by (simp_all add: releases_def)
  have b: "batch_held (de_strip E) tab s1 ?H (map (\<lambda>j. rt_reqs R1 ! j) js)"
    using releases_kept [OF r1(2), of "de_strip E" js] Cons.prems(3,4) by simp
  have "distinct js" using Cons.prems(4) by simp
  from Cons.IH [OF ok b this] obtain D' s' R' where ih: "retract_all_loop E tab js R1 = Inr R'" "releases inv fs tab rk ?H D1 s1 R1 js D' s' R'" by blast
  have "releases inv fs tab rk H D s R (i # js) D' s' R'" using releases_trans [OF r1(2), of js D' s' R'] ih(2) Cons.prems(4) by simp
  then show ?case using ih(1) r1(1) by (intro exI [of _ D'] exI [of _ s'] exI [of _ R']) simp
qed

text \<open>\<open>retract_all\<close> empties the batch, and every slot that a request of it held is free or in the tree.\<close>

lemma retract_all_ok:
  assumes E: "de_ops E = A" "op_page_size A = 1" and ok: "pool_ok inv D rk H s" and b: "batch_held (de_strip E) tab s H rs"
  shows "\<exists>out D' s'. retract_all E tab rs (RadixTree s) pool =
      Inr (out, [], RadixTree s', pool\<lparr>free_slots := free_slots pool @ map (\<lambda>r. the (req_pool_idx r)) rs\<rparr>) \<and> length out = length rs \<and>
    pool_ok inv D' rk (H - batch_nodes rs) s' \<and> pool_slots fs D' s' = pool_slots fs D s + batch_slots tab rs"
proof -
  let ?R = "\<lparr>rt_reqs = rs, rt_cache = RadixTree s, rt_pool = pool, rt_retracted = []\<rparr>"
  have m: "map (\<lambda>j. rt_reqs ?R ! j) [0..<length rs] = rs" by (simp add: map_nth)
  have b': "batch_held (de_strip E) tab s H (map (\<lambda>j. rt_reqs ?R ! j) [0..<length rs])" unfolding m by (rule b)
  obtain D' s' R' where r: "retract_all_loop E tab [0..<length rs] ?R = Inr R'" "releases inv fs tab rk H D s ?R [0..<length rs] D' s' R'"
    using retract_all_loop_ok [OF E ok _ b'] by auto
  have "filter (\<lambda>i. \<not> is_finished (rt_reqs R' ! i) \<and> rt_reqs R' ! i \<notin> set (rt_reqs R')) [0..<length (rt_reqs R')] = []"
    by (auto simp: filter_empty_conv)
  then have "retract_all E tab rs (RadixTree s) pool = Inr (rt_reqs R', [], rt_cache R', rt_pool R')"
    using r(1) by (simp add: retract_all_def keep_reqs_def Let_def)
  then show ?thesis using r(2) unfolding releases_def Let_def m
    by (intro exI [of _ "rt_reqs R'"] exI [of _ D'] exI [of _ s']) (simp add: pool_step_def)
qed

end

section \<open>The token allocator\<close>

text \<open>
  C19. Retraction makes room. For a decode batch without speculation over the radix cache and the token allocator,
  \<open>retract_decode\<close> returns: it keeps the requests with the most output, gives up the others from the other end of the order
  (at least one, if there are two; the last one is aborted only when none is kept), releases the lock of each
  of them and gives back every slot that was its own, once. The kept requests keep their slots and locks, and the next decode
  step gets a slot for each of them.
\<close>

theorem retract_decode_makes_room:
  assumes "de_ops E = token_ops" "de_spec_none E" "pool_ok token_inv D rk H s" "batch_held (de_strip E) tab s H rs"
    "rs \<noteq> []" "\<forall>r \<in> set rs. 0 \<le> max_new_tokens r"
  shows "\<exists>T ks ds D' s'. retract_decode E tab rs (RadixTree s) pool = Inr T \<and> retract_order False rs = ks @ rev ds \<and>
    rr_kept T = map (\<lambda>j. rs ! j) ks \<and> rr_retracted T @ rr_aborted T = map (\<lambda>j. retracted (rs ! j)) ds \<and>
    (rr_aborted T \<noteq> [] \<longrightarrow> ks = []) \<and> (1 < length rs \<longrightarrow> rr_retracted T \<noteq> []) \<and> rr_cache T = RadixTree s' \<and>
    pool_ok token_inv D' rk (H - batch_nodes (map (\<lambda>j. rs ! j) ds)) s' \<and>
    pool_slots token_slots D' s' = pool_slots token_slots D s + batch_slots tab (map (\<lambda>j. rs ! j) ds) \<and>
    batch_held (de_strip E) tab s' (H - batch_nodes (map (\<lambda>j. rs ! j) ds)) (rr_kept T) \<and>
    rr_pool T = pool\<lparr>free_slots := free_slots pool @ map (\<lambda>j. the (req_pool_idx (rs ! j))) ds\<rparr> \<and>
    (\<forall>rows lens. length rows = length ks \<and> length lens = length ks \<longrightarrow>
      (\<exists>locs tc' pool'. alloc_for_decode token_ops 1 None rows lens (rr_cache T) (rr_pool T) = Inr (locs, tc', pool') \<and> length locs = length ks))"
proof -
  let ?R = "\<lparr>rt_reqs = rs, rt_cache = RadixTree s, rt_pool = pool, rt_retracted = []\<rparr>"
  have ps: "op_page_size token_ops = 1" by (simp add: token_ops_def)
  obtain ds ks D' s' R' T where t: "retract_order False rs = ks @ rev ds" "retract_decode E tab rs (RadixTree s) pool = Inr T"
    "releases token_inv token_slots tab rk H D s ?R ds D' s' R'" "rr_cache T = RadixTree s'" "rr_pool T = rt_pool R'"
    "rr_kept T = map (\<lambda>j. rs ! j) ks" "rr_retracted T @ rr_aborted T = map (\<lambda>j. retracted (rs ! j)) ds" "rr_aborted T \<noteq> [] \<longrightarrow> ks = []"
    "1 < length rs \<longrightarrow> rr_retracted T \<noteq> []" "length ks \<le> size (token_slots (kv_allocator s'))"
    using token_pool.retract_decode_ok [OF assms(1,2) ps assms(3-6), of pool] by blast
  have o: "mset (ks @ rev ds) = mset [0..<length rs]" unfolding t(1) [symmetric] by (simp add: retract_order_def)
  then have dj: "set ds \<inter> set ks = {}" using mset_eq_imp_distinct_iff [OF o] by auto
  have "mset (map (\<lambda>j. rs ! j) (ds @ ks)) = mset (map (\<lambda>j. rs ! j) [0..<length rs])" using o by (metis add.commute mset_append mset_map mset_rev)
  then have "batch_held (de_strip E) tab s H (map (\<lambda>j. rs ! j) (ds @ ks))" using assms(4) batch_held_perm by (metis map_nth)
  from releases_kept [OF t(3), of "de_strip E" ks] this dj
  have "batch_held (de_strip E) tab s' (H - batch_nodes (map (\<lambda>j. rs ! j) ds)) (map (\<lambda>j. rt_reqs R' ! j) ks)" by simp
  moreover have "map (\<lambda>j. rt_reqs R' ! j) ks = map (\<lambda>j. rs ! j) ks" using t(3) dj by (auto simp: releases_def Let_def)
  moreover have r: "pool_ok token_inv D' rk (H - batch_nodes (map (\<lambda>j. rs ! j) ds)) s'"
    "pool_slots token_slots D' s' = pool_slots token_slots D s + batch_slots tab (map (\<lambda>j. rs ! j) ds)"
    "rr_pool T = pool\<lparr>free_slots := free_slots pool @ map (\<lambda>j. the (req_pool_idx (rs ! j))) ds\<rparr>"
    using t(3,5) by (simp_all add: releases_def Let_def pool_step_def comp_def)
  moreover have "\<exists>locs tc' pool'. alloc_for_decode token_ops 1 None rows lens (rr_cache T) (rr_pool T) = Inr (locs, tc', pool') \<and> length locs = length ks"
    if "length rows = length ks" "length lens = length ks" for rows lens
    using token_pool.next_decode_ok [OF r(1) t(10) ps that] unfolding t(4) .
  ultimately show ?thesis using t by (intro exI [of _ T] exI [of _ ks] exI [of _ ds] exI [of _ D'] exI [of _ s']) simp
qed

text \<open>The estimate for the overlapping workers is the number of new pages that the extension will count, in tokens.\<close>

lemma spec_v2_estimate_pages:
  assumes a: "get_alloc_len_per_decode E = Inr a" and grow: "\<forall>r \<in> set rs. kv_allocated_len r \<le> committed_len r + (a + a)"
    and n: "get_num_new_pages (map (\<lambda>r. committed_len r + (a + a)) rs) (op_page_size (de_ops E)) (Some (map kv_allocated_len rs)) False = Inr n"
  shows "new_tokens_required_next_decode_spec_v2 E rs = Inr (n * op_page_size (de_ops E))"
proof -
  let ?ps = "op_page_size (de_ops E)"
  have n': "n = (\<Sum>r\<leftarrow>rs. (committed_len r + (a + a) + ?ps - 1) div ?ps - (kv_allocated_len r + ?ps - 1) div ?ps)"
    using n by (simp add: get_num_new_pages_def zip_map_map zip_same_conv_map comp_def)
  have "(\<Sum>r\<leftarrow>rs. ceil_align (kv_allocated_len r + max 0 (committed_len r + 2 * a - kv_allocated_len r)) ?ps - ceil_align (kv_allocated_len r) ?ps) =
      (\<Sum>r\<leftarrow>rs. ((committed_len r + (a + a) + ?ps - 1) div ?ps - (kv_allocated_len r + ?ps - 1) div ?ps) * ?ps)"
    using grow by (intro arg_cong [where f = sum_list] map_cong refl) (simp add: ceil_align_def left_diff_distrib max_def)
  then show ?thesis using a by (simp add: new_tokens_required_next_decode_spec_v2_def Let_def n' sum_list_mult_const)
qed

context slot_pool
begin

lemma prepare_for_decode_v2_ok:
  assumes ok: "pool_ok inv D rk H s" and E: "de_ops E = A" "\<not> de_spec_none E" "de_spec_v2 E" "op_page_size A = 1"
    and a: "get_alloc_len_per_decode E = Inr a" and grow: "\<forall>r \<in> set rs. kv_allocated_len r \<le> committed_len r + (a + a)"
    and mem: "check_decode_mem E rs (RadixTree s) = Inr (True, tc)"
  shows "\<exists>locs D' s'. prepare_for_decode_v2 E is_hip backend order rs rows tc pool =
      Inr (map (\<lambda>r. r\<lparr>kv_allocated_len := committed_len r + (a + a), committed_len := committed_len r + 1\<rparr>) rs, locs, RadixTree s',
        pool\<lparr>req_to_token_table := assign_req_to_token_pool_func rows (map kv_allocated_len rs) (map (\<lambda>r. committed_len r + (a + a)) rs) locs
               (max_context_len pool) (length rs) order (req_to_token_table pool)\<rparr>) \<and>
    int (length locs) = (\<Sum>r\<leftarrow>rs. committed_len r + (a + a) - kv_allocated_len r) \<and>
    radix_inv D' rk H s' \<and> inv (kv_allocator s') \<and> pool_slots fs D s = pool_slots fs D' s' + mset locs"
proof -
  let ?n = "\<Sum>r\<leftarrow>rs. committed_len r + (a + a) - kv_allocated_len r"
  have n0: "0 \<le> ?n" using grow by (intro sum_list_nonneg) auto
  have "get_num_new_pages (map (\<lambda>r. committed_len r + (a + a)) rs) (op_page_size (de_ops E)) (Some (map kv_allocated_len rs)) False = Inr ?n"
    using E(1,4) by (simp add: get_num_new_pages_def zip_map_map zip_same_conv_map comp_def)
  from spec_v2_estimate_pages [OF a grow this] have n: "new_tokens_required_next_decode E rs = Inr ?n"
    using E by (simp add: new_tokens_required_next_decode_def)
  obtain s1 D1 where s1: "evict_from_tree_cache A (RadixTree s) ?n = Inr (RadixTree s1)" "pool_ok inv D1 rk H s1" "pool_step fs H D s {#} D1 s1"
    using evict_step [OF ok, of ?n] by blast
  have o: "radix_inv D1 rk H s1" "\<not> disable s1" "\<not> enable_kv_cache_events s1" "inv (kv_allocator s1)" using s1(2) by (simp_all add: pool_ok_def)
  have tc: "tc = RadixTree s1" "?n \<le> int (size (fs (kv_allocator s1)))"
    using mem n s1(1) E(1) op_available [OF o(4)] by (simp_all add: check_decode_mem_def pc_allocator_def)
  have "0 \<le> evictable_size s1" by (rule acct_nonneg [OF radix_invD(3) [OF o(1)]])
  then obtain locs bak s' D' where al: "alloc_token_slots A (RadixTree s1) ?n = Inr (locs, bak, RadixTree s')" "int (length locs) = ?n"
    "radix_inv D' rk H s'" "inv (kv_allocator s')" "pool_slots fs D1 s1 = pool_slots fs D' s' + mset locs"
    using alloc_token_slots_ok [OF o n0] tc(2) by auto
  have d: "map2 (-) (map (\<lambda>r. committed_len r + (a + a)) rs) (map kv_allocated_len rs) = map (\<lambda>r. committed_len r + (a + a) - kv_allocated_len r) rs"
    by (simp add: zip_map_map zip_same_conv_map comp_def)
  show ?thesis unfolding prepare_for_decode_v2_def a py_bind_simps Let_def d tc(1) E(1,4) using al s1(3)
    by (intro exI [of _ locs] exI [of _ D'] exI [of _ s']) (simp add: pool_step_def)
qed

end

lemma segment_index:
  assumes L: "\<forall>x \<in> set L. 0 \<le> (x :: int)" and i: "i < length L" and q: "0 \<le> q" "q < L ! i"
  shows "0 \<le> sum_list (take i L) + q" "sum_list (take i L) + q < sum_list L"
proof -
  have nn: "0 \<le> sum_list (take i L)" "0 \<le> sum_list (drop (Suc i) L)" using L by (auto intro!: sum_list_nonneg dest: in_set_takeD in_set_dropD)
  then show "0 \<le> sum_list (take i L) + q" using q(1) by simp
  have "sum_list L = sum_list (take i L) + (L ! i + sum_list (drop (Suc i) L))"
    by (metis Cons_nth_drop_Suc append_take_drop_id i sum_list.Cons sum_list_append)
  then show "sum_list (take i L) + q < sum_list L" using nn(2) q(2) by simp
qed

text \<open>
  A decode step of the overlapping speculative workers that passed the memory check gets its slots: with slots of one token,
  \<open>prepare_for_decode\<close> after a positive \<open>check_decode_mem\<close> returns, takes exactly the slots by which the requests grow (no
  slot is lost or handed out twice), and the table then holds a slot for every position of a request up to two steps beyond
  its committed tokens, in every order of the kernel's instances, with all other entries unchanged.
\<close>

lemma spec_v2_decode_gets_slots:
  assumes "de_ops E = token_ops" "\<not> de_spec_none E" "de_spec_v2 E" "pool_ok token_inv D rk H s"
    "get_alloc_len_per_decode E = Inr a" "check_decode_mem E rs (RadixTree s) = Inr (True, tc)"
    "\<forall>r \<in> set rs. 0 \<le> kv_allocated_len r \<and> kv_allocated_len r \<le> committed_len r + (a + a) \<and> committed_len r + (a + a) \<le> max_context_len pool"
    "0 < max_context_len pool" "distinct rows" "length rows = length rs" "distinct order" "set order = {0..<length rs}"
  shows "\<exists>rs' locs D' s' pool'. prepare_for_decode_v2 E is_hip backend order rs rows tc pool = Inr (rs', locs, RadixTree s', pool') \<and>
    int (length locs) = (\<Sum>r\<leftarrow>rs. committed_len r + (a + a) - kv_allocated_len r) \<and>
    radix_inv D' rk H s' \<and> token_inv (kv_allocator s') \<and> pool_slots token_slots D s = pool_slots token_slots D' s' + mset locs \<and>
    map kv_allocated_len rs' = map (\<lambda>r. committed_len r + (a + a)) rs \<and>
    (\<forall>i < length rs. \<forall>p. kv_allocated_len (rs ! i) \<le> p \<and> p < committed_len (rs ! i) + (a + a) \<longrightarrow>
      req_to_token_table pool' (rows ! i * max_context_len pool + p) =
        Some (locs ! nat (sum_list (take i (map (\<lambda>r. committed_len r + (a + a) - kv_allocated_len r) rs)) + (p - kv_allocated_len (rs ! i))))) \<and>
    (\<forall>q p. 0 \<le> p \<and> p < max_context_len pool \<and>
        (\<forall>i < length rs. rows ! i = q \<longrightarrow> p < kv_allocated_len (rs ! i) \<or> committed_len (rs ! i) + (a + a) \<le> p) \<longrightarrow>
      req_to_token_table pool' (q * max_context_len pool + p) = req_to_token_table pool (q * max_context_len pool + p))"
proof -
  let ?st = "map kv_allocated_len rs" and ?en = "map (\<lambda>r. committed_len r + (a + a)) rs" and ?L = "map (\<lambda>r. committed_len r + (a + a) - kv_allocated_len r) rs"
  have ps: "op_page_size token_ops = 1" by (simp add: token_ops_def)
  have g: "\<forall>r \<in> set rs. kv_allocated_len r \<le> committed_len r + (a + a)" using assms(7) by blast
  obtain locs D' s' where p: "prepare_for_decode_v2 E is_hip backend order rs rows tc pool =
      Inr (map (\<lambda>r. r\<lparr>kv_allocated_len := committed_len r + (a + a), committed_len := committed_len r + 1\<rparr>) rs, locs, RadixTree s',
        pool\<lparr>req_to_token_table := assign_req_to_token_pool_func rows ?st ?en locs (max_context_len pool) (length rs) order (req_to_token_table pool)\<rparr>)"
    "int (length locs) = sum_list ?L" "radix_inv D' rk H s'" "token_inv (kv_allocator s')" "pool_slots token_slots D s = pool_slots token_slots D' s' + mset locs"
    using token_pool.prepare_for_decode_v2_ok [OF assms(4,1-3) ps assms(5) g assms(6), of is_hip backend order rows pool] by blast
  have L: "map2 (-) ?en ?st = ?L" by (simp add: zip_map_map zip_same_conv_map comp_def)
  have bd: "\<forall>i < length rs. 0 \<le> ?st ! i \<and> ?st ! i \<le> ?en ! i \<and> ?en ! i \<le> max_context_len pool" using assms(7) by simp
  have len: "length ?st = length rs" "length ?en = length rs" by simp_all
  note w = assign_pool_writes [OF assms(10) len assms(8,9,11,12) bd, where out = locs and m = "req_to_token_table pool", unfolded L]
  have ld: "tl_load locs (sum_list (take i ?L) + (q - kv_allocated_len (rs ! i))) = Some (locs ! nat (sum_list (take i ?L) + (q - kv_allocated_len (rs ! i))))"
    if "i < length rs" "kv_allocated_len (rs ! i) \<le> q" "q < committed_len (rs ! i) + (a + a)" for i q
  proof -
    have "\<forall>x \<in> set ?L. 0 \<le> x" using g by auto
    from segment_index [OF this, of i "q - kv_allocated_len (rs ! i)"] that p(2) show ?thesis by (simp add: tl_load_def)
  qed
  show ?thesis
    apply (rule exI, rule exI [of _ locs], rule exI [of _ D'], rule exI [of _ s'], rule exI)
    apply (intro conjI)
    apply (rule p(1))
    apply (use p w ld in \<open>simp_all add: comp_def\<close>)
    done
qed

section \<open>Witnesses\<close>

text \<open>Over the example pool: a request behind the cached prefix with two tokens of its own, and one without a prefix that holds slot 1.\<close>

definition demo_running :: "sched_req list" where
  "demo_running =
    [(demo_sched_req ''a'' [7, 8, 9, 1, 2] 1)\<lparr>req_pool_idx := Some 1, committed_len := 5, kv_allocated_len := 5, cache_protected_len := 3\<rparr>,
     (demo_sched_req ''b'' [5] 0)\<lparr>req_pool_idx := Some 2, committed_len := 1, kv_allocated_len := 1\<rparr>]"

definition demo_table :: table where
  "demo_table i = (if i = 1 then [4, 5, 6, 2, 3] else [1])"

definition demo_decode_env :: "bool \<Rightarrow> kv_alloc decode_env" where
  "demo_decode_env spec = \<lparr>de_ops = token_ops, de_spec_none = (\<not> spec), de_spec_v2 = spec, de_num_steps = Some 1, de_topk = Some 1,
     de_num_draft_tokens = 1, de_retract_steps = 20, de_strip = False\<rparr>"

lemma demo_pool_ok: "pool_ok token_inv {0, 1} id {#0, 1#} demo_pool"
proof -
  have "up (shape demo_pool) 1 1" by (rule up_refl)
  moreover have "\<not> up (shape demo_pool) 0 1" by (subst up.simps) (simp add: demo_pool_shape)
  ultimately have "radix_inv {0, 1} id {#0, 1#} demo_pool"
    by (simp add: radix_inv_def demo_pool_shape tree_ok_def acct_def locks_ok_def dict_key_def key_iter_def key_len_def insert_Diff_if
        insert_commute)
  then show ?thesis using demo_pool_inv(2) by (simp add: pool_ok_def)
qed

lemma demo_running_held: "batch_held False demo_table demo_pool {#0, 1#} demo_running"
proof -
  have "walk (shape demo_pool) None 0 [Tok 7, Tok 8, Tok 9] [4, 5, 6] 1"
    using demo_req_locked by (simp add: req_locked_def req_key_def page_aligned_def key_iter_def key_len_def demo_req_def numeral_eq_Suc)
  then show ?thesis
    by (simp add: batch_held_def demo_running_def slots_held_def demo_sched_req_def demo_table_def req_locked_def req_key_def page_aligned_def
        key_iter_def key_len_def cache_req.truncate_def cache_commit_len_def numeral_eq_Suc walk_nil)
qed

theorem retract_decode_makes_room_witness:
  "\<exists>T. retract_decode (demo_decode_env False) demo_table demo_running (RadixTree demo_pool) (req_pool_init 4 8) = Inr T \<and> rr_retracted T \<noteq> []"
proof -
  have e: "de_ops (demo_decode_env False) = token_ops" "de_spec_none (demo_decode_env False)" "de_strip (demo_decode_env False) = False"
    by (simp_all add: demo_decode_env_def)
  have r: "demo_running \<noteq> []" "\<forall>r \<in> set demo_running. 0 \<le> max_new_tokens r" "1 < length demo_running"
    by (simp_all add: demo_running_def demo_sched_req_def)
  from retract_decode_makes_room [OF e(1,2) demo_pool_ok _ r(1,2), of demo_table "req_pool_init 4 8"] demo_running_held r(3) show ?thesis
    unfolding e(3) by blast
qed

end
