(* ===== verification/Eagle_V2.thy ===== *)
theory Eagle_V2
  imports Decode_Batch
begin

text \<open>
  The decode step of the overlapping speculative workers (\<open>srt/speculative/eagle_info_v2.py\<close>): the kernels that read the slots
  of the draft and of the verification off the table, and those that pick the last verified token and the slots of
  the accepted tokens. With \<open>Decode_Batch\<close>: the slots that a step reads are those that \<open>prepare_for_decode\<close> has provided.
\<close>

section \<open>Kernels\<close>

definition assign_draft_cache_locs_page_size_1 :: "int list \<Rightarrow> mem \<Rightarrow> int list \<Rightarrow> int \<Rightarrow> nat \<Rightarrow> nat \<Rightarrow> nat \<Rightarrow> mem \<Rightarrow> mem" where
  "assign_draft_cache_locs_page_size_1 req_pool_indices req_to_token seq_lens pool_len topk num_steps pid m =
     (let copy_len = topk * num_steps;
          kv_start = seq_lens ! pid;
          token_pool = req_pool_indices ! pid * pool_len
      in tl_store_blocks m (int (pid * topk * num_steps)) 128 (nat (cdiv (int copy_len) 128))
           (\<lambda>k. req_to_token (token_pool + kv_start + int k)) (\<lambda>k. k < copy_len))"

definition assign_extend_cache_locs :: "int list \<Rightarrow> mem \<Rightarrow> int list \<Rightarrow> int list \<Rightarrow> int \<Rightarrow> nat \<Rightarrow> nat \<Rightarrow> mem \<Rightarrow> mem" where
  "assign_extend_cache_locs req_pool_indices req_to_token start_offset end_offset pool_len bs_upper pid m =
     (let kv_start = start_offset ! pid;
          kv_end = end_offset ! pid;
          token_pool = req_pool_indices ! pid * pool_len;
          out_offset = sum_list (map2 (-)
             (map (\<lambda>j. if j < pid then end_offset ! j else 0) [0..<bs_upper])
             (map (\<lambda>j. if j < pid then start_offset ! j else 0) [0..<bs_upper]));
          num_loop = cdiv (kv_end - kv_start) 32
      in tl_store_blocks m out_offset 32 (nat num_loop)
           (\<lambda>k. req_to_token (token_pool + (kv_start + int k))) (\<lambda>k. kv_start + int k < kv_end))"

text \<open>The branch of CUDA and its relatives; the NPU calls a native operator.\<close>

definition assign_extend_cache_locs_func ::
  "int list \<Rightarrow> mem \<Rightarrow> int list \<Rightarrow> int list \<Rightarrow> int \<Rightarrow> nat \<Rightarrow> nat \<Rightarrow> nat list \<Rightarrow> int option list" where
  "assign_extend_cache_locs_func req_pool_indices req_to_token start_offset end_offset pool_len batch_size draft_token_num order =
     read_out (launch (assign_extend_cache_locs req_pool_indices req_to_token start_offset end_offset pool_len (next_power_of_2 batch_size)) order Map.empty)
       (batch_size * draft_token_num)"

text \<open>The slots of \<open>prepare_for_v2_draft\<close> and of \<open>prepare_for_v2_verify\<close>.\<close>

definition v2_draft_locs :: "int list \<Rightarrow> mem \<Rightarrow> int list \<Rightarrow> int \<Rightarrow> nat \<Rightarrow> nat \<Rightarrow> nat list \<Rightarrow> int option list" where
  "v2_draft_locs req_pool_indices req_to_token seq_lens pool_len topk num_steps order =
     read_out (launch (assign_draft_cache_locs_page_size_1 req_pool_indices req_to_token seq_lens pool_len topk num_steps) order Map.empty)
       (length seq_lens * topk * num_steps)"

definition v2_verify_locs :: "int list \<Rightarrow> mem \<Rightarrow> int list \<Rightarrow> int \<Rightarrow> nat \<Rightarrow> nat list \<Rightarrow> int option list" where
  "v2_verify_locs req_pool_indices req_to_token seq_lens pool_len draft_token_num order =
     assign_extend_cache_locs_func req_pool_indices req_to_token seq_lens (map (\<lambda>s. s + int draft_token_num) seq_lens) pool_len
       (length req_pool_indices) draft_token_num order"

definition fill_new_verified_id :: "int list \<Rightarrow> int list \<Rightarrow> nat \<Rightarrow> nat \<Rightarrow> mem \<Rightarrow> mem" where
  "fill_new_verified_id verified_id accept_lens num_draft_tokens pid m =
     m(int pid := tl_load verified_id (int (num_draft_tokens * pid) + accept_lens ! pid - 1))"

definition fill_accepted_out_cache_loc :: "int list \<Rightarrow> int list \<Rightarrow> nat \<Rightarrow> nat \<Rightarrow> mem \<Rightarrow> mem" where
  "fill_accepted_out_cache_loc accept_index out_cache_loc size_upper pid m =
     (let dst = sum_list (map (\<lambda>j. if (if j < pid then accept_index ! j else -1) \<noteq> -1 then 1 else 0) [0..<size_upper]);
          src = accept_index ! pid
      in if src > -1 then m(dst := tl_load out_cache_loc src) else m)"

section \<open>What they write, in every order of the instances\<close>

lemma seg_start_const: "i \<le> n \<Longrightarrow> seg_start (replicate n c) i = int i * c"
  by (simp add: seg_start_def sum_list_replicate)

lemma draft_locs_read:
  assumes pids: "distinct order" "set order = {0..<length seq}" and i: "i < length seq" "j < topk * steps"
  shows "v2_draft_locs rpi r2t seq pl topk steps order ! (i * (topk * steps) + j) = r2t (rpi ! i * pl + seq ! i + int j)"
proof -
  let ?c = "topk * steps" and ?k = "assign_draft_cache_locs_page_size_1 rpi r2t seq pl topk steps"
  let ?lens = "replicate (length seq) (int (topk * steps))"
  have eff: "?k p m a = (if seg_start ?lens p \<le> a \<and> a < seg_start ?lens p + ?lens ! p then r2t (rpi ! p * pl + seq ! p + int (nat (a - seg_start ?lens p))) else m a)"
    if "p < length ?lens" for p m a

  proof -
    have mk: "(\<lambda>k. k < ?c) = (\<lambda>k. int k < int ?c)" by (simp only: of_nat_less_iff)
    have sp: "seg_start ?lens p = int (p * topk * steps)" "?lens ! p = int ?c" using that by (simp_all add: seg_start_const mult.assoc)
    show ?thesis unfolding sp assign_draft_cache_locs_page_size_1_def Let_def mk
      using store_blocks_cdiv [of 128 m "int (p * topk * steps)" "int ?c" "\<lambda>k. r2t (rpi ! p * pl + seq ! p + int k)" a]
      by (simp only: of_nat_numeral zero_less_numeral simp_thms)
  qed
  have o: "set order = {0..<length ?lens}" and i': "i < length ?lens" "0 \<le> int j" "int j < ?lens ! i" using pids i by (simp_all flip: of_nat_mult)
  have "launch ?k order Map.empty (seg_start ?lens i + int j) = r2t (rpi ! i * pl + seq ! i + int (nat (int j)))"
    by (rule launch_segments [where k = ?k and lens = ?lens and f = "\<lambda>p d. r2t (rpi ! p * pl + seq ! p + int (nat d))", OF eff _ pids(1) o i']) simp_all
  moreover have "i * ?c + j < length seq * topk * steps"
  proof -
    have "i * ?c + ?c \<le> length seq * ?c" using i(1) mult_le_mono1 [of "Suc i" "length seq" ?c] by simp
    then show ?thesis using i(2) by (simp add: mult.assoc)
  qed
  moreover have "seg_start ?lens i + int j = int (i * ?c + j)" using i(1) by (simp add: seg_start_const)
  ultimately show ?thesis by (simp add: v2_draft_locs_def read_out_def)
qed

lemma extend_locs_read:
  assumes len: "length st = bs" "length rpi = bs" and pids: "distinct order" "set order = {0..<bs}" and i: "i < bs" "j < n"
  shows "assign_extend_cache_locs_func rpi r2t st (map (\<lambda>s. s + int n) st) pl bs n order ! (i * n + j) = r2t (rpi ! i * pl + st ! i + int j)"
proof -
  let ?en = "map (\<lambda>s. s + int n) st" and ?k = "assign_extend_cache_locs rpi r2t st (map (\<lambda>s. s + int n) st) pl (next_power_of_2 bs)"
  let ?lens = "replicate bs (int n)"
  have d: "map2 (-) ?en st = ?lens" using len(1) by (simp add: list_eq_iff_nth_eq)
  have eff: "?k p m a = (if seg_start ?lens p \<le> a \<and> a < seg_start ?lens p + ?lens ! p then r2t (rpi ! p * pl + st ! p + int (nat (a - seg_start ?lens p))) else m a)"
    if p: "p < length ?lens" for p m a
  proof -
    have e: "?en ! p = st ! p + int n" using p len(1) by simp
    have mk: "(\<lambda>k. st ! p + int k < ?en ! p) = (\<lambda>k. int k < int n)" "?en ! p - st ! p = int n" unfolding e by auto
    show ?thesis using p store_blocks_cdiv [of 32 m "seg_start ?lens p" "int n" "\<lambda>k. r2t (rpi ! p * pl + st ! p + int k)" a] 
      segment_offset [of p st ?en "next_power_of_2 bs"] len(1) next_power_of_2_ge [of bs]
      unfolding assign_extend_cache_locs_def Let_def mk d by (simp add: add.assoc)
  qed
  have o: "set order = {0..<length ?lens}" and i': "i < length ?lens" "0 \<le> int j" "int j < ?lens ! i" using pids i by simp_all
  have "launch ?k order Map.empty (seg_start ?lens i + int j) = r2t (rpi ! i * pl + st ! i + int (nat (int j)))"
    by (rule launch_segments [where k = ?k and lens = ?lens and f = "\<lambda>p d. r2t (rpi ! p * pl + st ! p + int (nat d))", OF eff _ pids(1) o i']) simp_all
  moreover have "i * n + j < bs * n" using i mult_le_mono1 [of "Suc i" bs n] by simp
  moreover have "seg_start ?lens i + int j = int (i * n + j)" using i(1) by (simp add: seg_start_const)
  ultimately show ?thesis by (simp add: assign_extend_cache_locs_func_def read_out_def)
qed

lemma filter_position:
  "k < length (filter P xs) \<Longrightarrow> \<exists>p < length xs. P (xs ! p) \<and> length (filter P (take p xs)) = k \<and> filter P xs ! k = xs ! p \<and>
    (\<forall>q < length xs. P (xs ! q) \<and> length (filter P (take q xs)) = k \<longrightarrow> q = p)"
proof (induction xs arbitrary: k)
  case (Cons x xs)
  show ?case
  proof (cases "P x \<and> k = 0")
    case True
    have "q = 0" if "length (filter P (take q (x # xs))) = 0" for q using that True by (cases q) auto
    then show ?thesis using True by (intro exI [of _ 0]) auto
  next
    case False
    let ?k = "if P x then k - 1 else k"
    have "?k < length (filter P xs)" using Cons.prems False by auto
    from Cons.IH [OF this] obtain p where p: "p < length xs" "P (xs ! p)" "length (filter P (take p xs)) = ?k" "filter P xs ! ?k = xs ! p"
      "\<And>q. q < length xs \<Longrightarrow> P (xs ! q) \<Longrightarrow> length (filter P (take q xs)) = ?k \<Longrightarrow> q = p" by blast
    have "q = Suc p" if q: "q < length (x # xs)" "P ((x # xs) ! q)" "length (filter P (take q (x # xs))) = k" for q
    proof (cases q)
      case 0
      then show ?thesis using q False by simp
    next
      case (Suc q')
      have "length (filter P (take q' xs)) = ?k" using q(3) Suc by (auto split: if_splits)
      then show ?thesis using p(5) [of q'] q Suc by simp
    qed
    then show ?thesis using p(1-4) False by (intro exI [of _ "Suc p"]) auto
  qed
qed simp

lemma sum_ones: "sum_list (map (\<lambda>x. if P x then 1 else (0 :: int)) xs) = int (length (filter P xs))"
  by (induction xs) simp_all

text \<open>\<open>fill_accepted_out_cache_loc\<close> packs the slots of the accepted tokens.\<close>

lemma fill_accepted_packs:
  assumes pids: "distinct order" "set order = {0..<length acc}" and acc: "\<forall>x \<in> set acc. -1 \<le> x" "length acc \<le> upper"
  defines "kept \<equiv> filter (\<lambda>x. x \<noteq> -1) acc"
  shows "read_out (launch (fill_accepted_out_cache_loc acc out upper) order Map.empty) (length kept) = map (tl_load out) kept"
proof -
  let ?k = "fill_accepted_out_cache_loc acc out upper" and ?dst = "\<lambda>p. length (filter (\<lambda>x. x \<noteq> -1) (take p acc))"
  let ?R = "\<lambda>a. {p. acc ! p \<noteq> -1 \<and> int (?dst p) = a}" and ?f = "\<lambda>p (a :: int). tl_load out (acc ! p)"
  have dst: "sum_list (map (\<lambda>j. if (if j < p then acc ! j else -1) \<noteq> -1 then 1 else 0) [0..<upper]) = int (?dst p)" if "p < length acc" for p
  proof -
    have "sum_list (map (\<lambda>j. if (if j < p then acc ! j else -1) \<noteq> -1 then 1 else 0) [0..<upper]) =
        sum_list (map (\<lambda>j. if (if j < p then acc ! j else -1) \<noteq> -1 then 1 else (0 :: int)) [0..<p])"
      using that acc(2) by (intro sum_list_lanes_below) auto
    also have "\<dots> = sum_list (map (\<lambda>x. if x \<noteq> -1 then 1 else (0 :: int)) (take p acc))"
      using that by (intro arg_cong [where f = sum_list]) (auto simp: list_eq_iff_nth_eq)
    also have "\<dots> = int (?dst p)" by (rule sum_ones)
    finally show ?thesis .
  qed
  have eff: "?k p m a = (if p \<in> ?R a then ?f p a else m a)" if "p \<in> set order" for p m a
  proof -
    have p: "p < length acc" using that pids(2) by simp
    have "-1 \<le> acc ! p" using acc(1) nth_mem [OF p] by blast
    then show ?thesis unfolding fill_accepted_out_cache_loc_def Let_def dst [OF p] by simp
  qed
  have "launch ?k order Map.empty (int n) = tl_load out (kept ! n)" if n: "n < length kept" for n
  proof -
    obtain p where p: "p < length acc" "acc ! p \<noteq> -1" "?dst p = n" "kept ! n = acc ! p"
      "\<And>q. q < length acc \<Longrightarrow> acc ! q \<noteq> -1 \<Longrightarrow> ?dst q = n \<Longrightarrow> q = p"
      using filter_position [OF n [unfolded kept_def]] unfolding kept_def by blast
    have "?R (int n) \<inter> set order = {p}"
    proof (intro equalityI subsetI)
      fix q assume "q \<in> ?R (int n) \<inter> set order"
      then show "q \<in> {p}" using p(5) [of q] pids(2) by simp
    qed (use p(1-3) pids(2) in simp)
    from launch_inside [where k = ?k and R = ?R and f = ?f and pids = order, OF eff this pids(1)] show ?thesis using p(4) by simp
  qed
  then show ?thesis unfolding read_out_def by (intro nth_equalityI) simp_all
qed

section \<open>Lengths while steps overlap\<close>

text \<open>
  The event loop prepares and launches a step before it processes the result of the step before. \<open>prepare_for_decode\<close>
  claims one token in advance (\<open>kv_committed_len += 1\<close>) and slots for two steps, the launched step adds the number of tokens it
  accepts to \<open>batch.seq_lens\<close> at once (\<open>new_seq_lens\<close>), and \<open>_resolve_spec_overlap_token_ids\<close> adds the rest to \<open>kv_committed_len\<close>
  one iteration later. The pairs are a request's \<open>kv_committed_len\<close> and \<open>kv_allocated_len\<close>.
\<close>

definition prepare_lens :: "int \<Rightarrow> int \<times> int \<Rightarrow> int \<times> int" where
  "prepare_lens a = (\<lambda>(committed, allocated). (committed + 1, committed + (a + a)))"

definition resolve_spec_overlap :: "int \<Rightarrow> int \<times> int \<Rightarrow> int \<times> int" where
  "resolve_spec_overlap accept_len = (\<lambda>(committed, allocated). (committed + (accept_len - 1), allocated))"

definition process_last :: "int option \<Rightarrow> int \<times> int \<Rightarrow> int \<times> int" where
  "process_last pend = (case pend of None \<Rightarrow> id | Some accept_len \<Rightarrow> resolve_spec_overlap accept_len)"

text \<open>
  The lengths of a request in an iteration: after its prompt nothing is pending; a decode step prepares, launches a step that
  accepts \<open>acc\<close> tokens and processes the pending result; an iteration without a batch only processes it.
\<close>

inductive overlap_lens :: "nat \<Rightarrow> int \<Rightarrow> int \<times> int \<Rightarrow> int \<Rightarrow> int option \<Rightarrow> bool" for n :: nat and a :: int where
  prompt: "0 \<le> len \<Longrightarrow> overlap_lens n a (len, len) len None"
| decode: "overlap_lens n a kv seq pend \<Longrightarrow> 1 \<le> acc \<Longrightarrow> acc \<le> int n \<Longrightarrow>
    overlap_lens n a (process_last pend (prepare_lens a kv)) (seq + acc) (Some acc)"
| idle: "overlap_lens n a kv seq pend \<Longrightarrow> overlap_lens n a (process_last pend kv) seq None"

lemma overlap_lens_inv:
  assumes "overlap_lens n a kv seq pend" "0 \<le> a"
  shows "0 \<le> fst kv \<and> 0 \<le> snd kv \<and> snd kv \<le> fst kv + (a + a) \<and>
    (case pend of None \<Rightarrow> seq = fst kv | Some acc \<Rightarrow> 1 \<le> acc \<and> acc \<le> int n \<and> seq = fst kv - 1 + acc)"
  using assms
  by (induction rule: overlap_lens.induct)
    (auto simp: prepare_lens_def resolve_spec_overlap_def process_last_def split: option.splits prod.splits)

text \<open>What is in flight is at most a step ahead of the committed length.\<close>

lemma overlap_lens_ahead:
  assumes "overlap_lens n a (committed_len r, kv_allocated_len r) seq pend" "0 \<le> a" "int n \<le> a"
  shows "0 \<le> committed_len r" "0 \<le> kv_allocated_len r" "kv_allocated_len r \<le> committed_len r + (a + a)"
    "committed_len r \<le> seq" "seq \<le> committed_len r + a"
  using overlap_lens_inv [OF assms(1,2)] assms(2,3) by (auto split: option.splits)

section \<open>A step reads the slots that were provided for it\<close>

text \<open>
  C20. A decode step of the overlapping speculative workers over slots of one token, after a positive \<open>check_decode_mem\<close>, whatever
  the result still in flight has accepted (\<open>seq\<close> is \<open>batch.seq_lens\<close>, ahead of the committed lengths by the accepted drafts):
  \<open>prepare_for_decode\<close> takes exactly the slots by which the requests grow (no slot is lost or handed out twice), and then, in
  every order of the kernels' instances, the slots that the draft steps and the verification read for a request are those of its
  own row from its length in flight on, and none of them is missing; the lengths go on as those of an overlapping step.
\<close>

theorem v2_step_slots:
  assumes E: "de_ops E = token_ops" "\<not> de_spec_none E" "de_spec_v2 E" and ok: "pool_ok token_inv D rk H s"
    and a: "get_alloc_len_per_decode E = Inr a" and mem: "check_decode_mem E rs (RadixTree s) = Inr (True, tc)"
    and seq: "length seq = length rs" "\<forall>i < length rs. overlap_lens n a (committed_len (rs ! i), kv_allocated_len (rs ! i)) (seq ! i) (pend i)"
    and lens: "\<forall>r \<in> set rs. committed_len r + (a + a) \<le> max_context_len pool"
    and pl: "0 < max_context_len pool" and rows: "distinct rows" "length rows = length rs" and order: "distinct order" "set order = {0..<length rs}"
    and old: "\<forall>i < length rs. \<forall>p. seq ! i \<le> p \<and> p < kv_allocated_len (rs ! i) \<longrightarrow>
      req_to_token_table pool (rows ! i * max_context_len pool + p) \<noteq> None"
    and n: "int n = de_num_draft_tokens E" "int topk = or_one (de_topk E)" "int steps = or_one (de_num_steps E)"
  shows "\<exists>rs' locs D' s' pool'. prepare_for_decode_v2 E is_hip backend order rs rows tc pool = Inr (rs', locs, RadixTree s', pool') \<and>
    map (\<lambda>r. (committed_len r, kv_allocated_len r)) rs' = map (\<lambda>r. prepare_lens a (committed_len r, kv_allocated_len r)) rs \<and>
    int (length locs) = (\<Sum>r\<leftarrow>rs. committed_len r + (a + a) - kv_allocated_len r) \<and>
    radix_inv D' rk H s' \<and> token_inv (kv_allocator s') \<and> pool_slots token_slots D s = pool_slots token_slots D' s' + mset locs \<and>
    (\<forall>ord i. distinct ord \<and> set ord = {0..<length rs} \<and> i < length rs \<longrightarrow>
      (\<forall>j < topk * steps. \<exists>v. req_to_token_table pool' (rows ! i * max_context_len pool + seq ! i + int j) = Some v \<and>
         v2_draft_locs rows (req_to_token_table pool') seq (max_context_len pool) topk steps ord ! (i * (topk * steps) + j) = Some v) \<and>
      (\<forall>j < n. \<exists>v. req_to_token_table pool' (rows ! i * max_context_len pool + seq ! i + int j) = Some v \<and>
         v2_verify_locs rows (req_to_token_table pool') seq (max_context_len pool) n ord ! (i * n + j) = Some v))"
proof -
  let ?pl = "max_context_len pool"
  have an: "int n \<le> a" "int (topk * steps) \<le> a" "0 \<le> a"
    using a n E(1,2) by (auto simp: get_alloc_len_per_decode_def token_ops_def mult.commute)
  note ahead = overlap_lens_ahead [OF seq(2) [rule_format] an(3,1)]
  have "\<forall>r \<in> set rs. 0 \<le> kv_allocated_len r \<and> kv_allocated_len r \<le> committed_len r + (a + a) \<and> committed_len r + (a + a) \<le> ?pl"
    using lens ahead(2,3) by (fastforce simp: in_set_conv_nth)
  from spec_v2_decode_gets_slots [OF E ok a mem this pl rows order, of is_hip backend]
  obtain rs' locs D' s' pool' where p: "prepare_for_decode_v2 E is_hip backend order rs rows tc pool = Inr (rs', locs, RadixTree s', pool')"
    "int (length locs) = (\<Sum>r\<leftarrow>rs. committed_len r + (a + a) - kv_allocated_len r)" "radix_inv D' rk H s'" "token_inv (kv_allocator s')"
    "pool_slots token_slots D s = pool_slots token_slots D' s' + mset locs"
    "\<And>i q. i < length rs \<Longrightarrow> kv_allocated_len (rs ! i) \<le> q \<Longrightarrow> q < committed_len (rs ! i) + (a + a) \<Longrightarrow> req_to_token_table pool' (rows ! i * ?pl + q) \<noteq> None"
    "\<And>r q. 0 \<le> q \<Longrightarrow> q < ?pl \<Longrightarrow> \<forall>i < length rs. rows ! i = r \<longrightarrow> q < kv_allocated_len (rs ! i) \<or> committed_len (rs ! i) + (a + a) \<le> q \<Longrightarrow>
      req_to_token_table pool' (r * ?pl + q) = req_to_token_table pool (r * ?pl + q)"
    by blast
  have rs': "rs' = map (\<lambda>r. r\<lparr>kv_allocated_len := committed_len r + (a + a), committed_len := committed_len r + 1\<rparr>) rs"
    using p(1) a by (auto simp: prepare_for_decode_v2_def Let_def py_bind_eq_Inr)
  have slot: "req_to_token_table pool' (rows ! i * ?pl + q) \<noteq> None" if i: "i < length rs" and q: "seq ! i \<le> q" "q < seq ! i + a" for i q
  proof (cases "q < kv_allocated_len (rs ! i)")
    case True
    have "committed_len (rs ! i) + (a + a) \<le> ?pl" using lens nth_mem [OF i] by blast
    moreover have "\<forall>k < length rs. rows ! k = rows ! i \<longrightarrow> q < kv_allocated_len (rs ! k) \<or> committed_len (rs ! k) + (a + a) \<le> q"
      using rows i True by (auto simp: nth_eq_iff_index_eq)
    ultimately have "req_to_token_table pool' (rows ! i * ?pl + q) = req_to_token_table pool (rows ! i * ?pl + q)"
      using q ahead [OF i] by (intro p(7)) (linarith, linarith, assumption)
    then show ?thesis using old i q(1) True by simp
  next
    case False
    then show ?thesis using p(6) [OF i, of q] q(2) ahead(5) [OF i] by linarith
  qed
  have at: "\<exists>v. req_to_token_table pool' (rows ! i * ?pl + seq ! i + int j) = Some v" if "i < length rs" "int j < a" for i j
    using slot [OF that(1), of "seq ! i + int j"] that(2) by (simp add: add.assoc)
  have "(\<forall>j < topk * steps. \<exists>v. req_to_token_table pool' (rows ! i * ?pl + seq ! i + int j) = Some v \<and>
         v2_draft_locs rows (req_to_token_table pool') seq ?pl topk steps ord ! (i * (topk * steps) + j) = Some v) \<and>
      (\<forall>j < n. \<exists>v. req_to_token_table pool' (rows ! i * ?pl + seq ! i + int j) = Some v \<and>
         v2_verify_locs rows (req_to_token_table pool') seq ?pl n ord ! (i * n + j) = Some v)"
    if o: "distinct ord" "set ord = {0..<length rs}" "i < length rs" for ord i
  proof (intro conjI allI impI)
    fix j assume j: "j < topk * steps"
    then have "int j < a" using an(2) by linarith
    then show "\<exists>v. req_to_token_table pool' (rows ! i * ?pl + seq ! i + int j) = Some v \<and>
         v2_draft_locs rows (req_to_token_table pool') seq ?pl topk steps ord ! (i * (topk * steps) + j) = Some v"
      using at [OF o(3), of j] draft_locs_read [of ord seq i j topk steps rows "req_to_token_table pool'" ?pl] o j seq(1) by simp
  next
    fix j assume j: "j < n"
    then have "int j < a" using an(1) by linarith
    then show "\<exists>v. req_to_token_table pool' (rows ! i * ?pl + seq ! i + int j) = Some v \<and>
         v2_verify_locs rows (req_to_token_table pool') seq ?pl n ord ! (i * n + j) = Some v"
      using at [OF o(3), of j] extend_locs_read [of seq "length rs" rows ord i j n "req_to_token_table pool'" ?pl] o j rows(2) seq(1)
      by (simp add: v2_verify_locs_def)
  qed
  moreover have "map (\<lambda>r. (committed_len r, kv_allocated_len r)) rs' = map (\<lambda>r. prepare_lens a (committed_len r, kv_allocated_len r)) rs"
    by (simp add: rs' prepare_lens_def)
  ultimately show ?thesis using p(1-5) by (intro exI [of _ rs'] exI [of _ locs] exI [of _ D'] exI [of _ s'] exI [of _ pool']) blast
qed

text \<open>
  A request whose prompt had three tokens, with a step in flight that accepted two tokens: four are committed, the row
  holds slots up to position 7, and the step to prepare starts at position 5.
\<close>

definition demo_v2_env :: "kv_alloc decode_env" where
  "demo_v2_env = (demo_decode_env True)\<lparr>de_num_draft_tokens := 2\<rparr>"

definition demo_in_flight :: sched_req where
  "demo_in_flight = (demo_running ! 0)\<lparr>committed_len := 4, kv_allocated_len := 7\<rparr>"

definition demo_v2_pool :: req_pool where
  "demo_v2_pool = (req_pool_init 4 8)\<lparr>req_to_token_table := (\<lambda>q. if 8 \<le> q \<and> q < 15 then Some (q + 12) else None)\<rparr>"

lemma demo_v2_alloc: "get_alloc_len_per_decode demo_v2_env = Inr 2"
  by (simp add: demo_v2_env_def demo_decode_env_def get_alloc_len_per_decode_def or_one_def token_ops_def)

lemma demo_v2_check_mem: "check_decode_mem demo_v2_env [demo_in_flight] (RadixTree demo_pool) = Inr (True, RadixTree demo_pool)"
proof -
  have e: "de_ops demo_v2_env = token_ops" by (simp add: demo_v2_env_def demo_decode_env_def)
  have n: "new_tokens_required_next_decode demo_v2_env [demo_in_flight] = Inr 1"
    unfolding new_tokens_required_next_decode_def new_tokens_required_next_decode_spec_v2_def demo_v2_alloc py_bind_simps
    by (simp add: demo_v2_env_def demo_decode_env_def demo_in_flight_def demo_running_def demo_sched_req_def ceil_align_def token_ops_def)
  show ?thesis unfolding check_decode_mem_def n py_bind_simps e
    by (simp add: evict_from_tree_cache_def token_ops_def token_available_size_def token_init_def token_clear_def pc_allocator_def)
qed

lemma demo_overlap: "overlap_lens 2 2 (4, 7) 5 (Some 2)"
proof -
  have "overlap_lens 2 2 (process_last None (prepare_lens 2 (3, 3))) (3 + 2) (Some 2)"
    by (intro overlap_lens.decode overlap_lens.prompt) simp_all
  then show ?thesis by (simp add: process_last_def prepare_lens_def)
qed

theorem v2_step_slots_witness:
  "\<exists>rs' locs s' pool'. prepare_for_decode_v2 demo_v2_env False ''triton'' [0] [demo_in_flight] [1] (RadixTree demo_pool) demo_v2_pool =
      Inr (rs', locs, RadixTree s', pool') \<and> length locs = 1 \<and>
      (\<forall>j < 2. \<exists>v. req_to_token_table pool' (13 + int j) = Some v \<and> v2_verify_locs [1] (req_to_token_table pool') [5] 8 2 [0] ! j = Some v)"
proof -
  let ?E = demo_v2_env and ?rs = "[demo_in_flight]"
  have e: "de_ops ?E = token_ops" "\<not> de_spec_none ?E" "de_spec_v2 ?E"
    "int 2 = de_num_draft_tokens ?E" "int 1 = or_one (de_topk ?E)" "int 1 = or_one (de_num_steps ?E)"
    by (simp_all add: demo_v2_env_def demo_decode_env_def or_one_def)
  have r: "\<forall>i < length ?rs. overlap_lens 2 2 (committed_len (?rs ! i), kv_allocated_len (?rs ! i)) ([5] ! i) (Some 2)"
    "\<forall>r \<in> set ?rs. committed_len r + (2 + 2) \<le> max_context_len demo_v2_pool" "0 < max_context_len demo_v2_pool"
    using demo_overlap by (simp_all add: demo_in_flight_def demo_v2_pool_def req_pool_init_def)
  have o: "length [5 :: int] = length ?rs" "distinct [1 :: int]" "length [1 :: int] = length ?rs" "distinct [0 :: nat]" "set [0 :: nat] = {0..<length ?rs}" by auto
  have old: "\<forall>i < length ?rs. \<forall>p. [5] ! i \<le> p \<and> p < kv_allocated_len (?rs ! i) \<longrightarrow>
      req_to_token_table demo_v2_pool ([1] ! i * max_context_len demo_v2_pool + p) \<noteq> None"
    by (auto simp: demo_in_flight_def demo_v2_pool_def req_pool_init_def)
  have n: "(\<Sum>r\<leftarrow>?rs. committed_len r + (2 + 2) - kv_allocated_len r) = 1" by (simp add: demo_in_flight_def)
  have c: "max_context_len demo_v2_pool = 8" by (simp add: demo_v2_pool_def req_pool_init_def)
  from v2_step_slots [OF e(1-3) demo_pool_ok demo_v2_alloc demo_v2_check_mem o(1) r(1-3) o(2-5) old e(4-6), of False "''triton''", unfolded n c]
  obtain rs' locs s' pool' where w: "prepare_for_decode_v2 ?E False ''triton'' [0] ?rs [1] (RadixTree demo_pool) demo_v2_pool = Inr (rs', locs, RadixTree s', pool')"
    "int (length locs) = 1" "\<And>j. j < 2 \<Longrightarrow> \<exists>v. req_to_token_table pool' ([1] ! 0 * 8 + [5] ! 0 + int j) = Some v \<and>
       v2_verify_locs [1] (req_to_token_table pool') [5] 8 2 [0] ! (0 * 2 + j) = Some v"
    using o(4,5) by fastforce
  have "\<exists>v. req_to_token_table pool' (13 + int j) = Some v \<and> v2_verify_locs [1] (req_to_token_table pool') [5] 8 2 [0] ! j = Some v" if "j < 2" for j
    using w(3) [OF that] by simp
  then show ?thesis using w(1,2) by auto
qed

end
