(* ===== verification/Detokenizer.thy ===== *)
theory Detokenizer
  imports Req_Output "HOL-Library.AList"
begin

text \<open>
  The detokenizer process (\<open>srt/managers/detokenizer_manager.py\<close>): the decoding state of every request, the
  incremental decoding of a batch of token ids and the text it sends on, with \<open>find_printable_text\<close> of
  \<open>sglang/utils.py\<close>. Text is a list of Unicode code points. The tokenizer is a parameter.
\<close>

section \<open>Text\<close>

type_synonym text_str = "nat list"

text \<open>U+FFFD, the replacement character that stands for an incomplete character.\<close>

definition FFFD :: nat where "FFFD = 0xFFFD"

definition is_chinese_char :: "nat \<Rightarrow> bool" where
  "is_chinese_char cp \<longleftrightarrow>
     (cp \<ge> 0x4E00 \<and> cp \<le> 0x9FFF) \<or> (cp \<ge> 0x3400 \<and> cp \<le> 0x4DBF) \<or> (cp \<ge> 0x20000 \<and> cp \<le> 0x2A6DF) \<or>
     (cp \<ge> 0x2A700 \<and> cp \<le> 0x2B73F) \<or> (cp \<ge> 0x2B740 \<and> cp \<le> 0x2B81F) \<or> (cp \<ge> 0x2B820 \<and> cp \<le> 0x2CEAF) \<or>
     (cp \<ge> 0xF900 \<and> cp \<le> 0xFAFF) \<or> (cp \<ge> 0x2F800 \<and> cp \<le> 0x2FA1F)"

text \<open>\<open>text[: text.rfind(" ") + 1]\<close>: up to and including the last space.\<close>

fun through_last_space :: "text_str \<Rightarrow> text_str" where
  "through_last_space [] = []"
| "through_last_space (c # cs) = (if c = 32 \<or> 32 \<in> set cs then c # through_last_space cs else [])"

definition find_printable_text :: "text_str \<Rightarrow> text_str" where
  "find_printable_text t =
     (if t \<noteq> [] \<and> last t = 10 then t
      else if t \<noteq> [] \<and> is_chinese_char (last t) then t
      else if length t > 1 \<and> is_chinese_char (t ! (length t - 2)) then butlast t
      else through_last_space t)"

text \<open>\<open>str.find\<close>: the first position of a substring; \<open>None\<close> for -1.\<close>

fun str_find :: "text_str \<Rightarrow> text_str \<Rightarrow> nat option" where
  "str_find [] p = (if p = [] then Some 0 else None)"
| "str_find (c # cs) p = (if prefix p (c # cs) then Some 0 else map_option Suc (str_find cs p))"

section \<open>Messages and decoding states\<close>

text \<open>
  The finish reason as it arrives: \<open>None\<close> while the request runs, else the value under \<open>matched\<close>, when the
  reason has one.
\<close>

datatype matched = MatchedToken int | MatchedText text_str

record tok_msg =
  m_rid :: int
  m_decoded_text :: text_str
  m_decode_ids :: "int list"
  m_read_offset :: int
  m_finished :: "matched option option"
  m_no_stop_trim :: bool
  m_skip_special :: bool
  m_spaces :: bool

record decode_status =
  ds_decoded_text :: text_str
  ds_decode_ids :: "int list"
  ds_surr_offset :: int
  ds_read_offset :: int
  ds_sent_offset :: int

record detok_env =
  de_decode :: "bool \<Rightarrow> bool \<Rightarrow> int list \<Rightarrow> text_str"
  de_batch_decode :: "bool \<Rightarrow> bool \<Rightarrow> int list list \<Rightarrow> text_str list"
  de_disable_batch_decode :: bool
  de_gpt_oss :: bool
  de_capacity :: nat

definition trim_text :: "matched option option \<Rightarrow> bool \<Rightarrow> text_str \<Rightarrow> text_str" where
  "trim_text fin no_stop_trim out =
     (if no_stop_trim then out
      else case fin of
          Some (Some (MatchedText p)) \<Rightarrow>
            if p = [] then out else (case str_find out p of Some pos \<Rightarrow> take pos out | None \<Rightarrow> out)
        | _ \<Rightarrow> out)"

text \<open>The token-id case: a matched id that is not 0 (Python's \<open>not matched\<close>) removes the last id.\<close>

definition trim_ids :: "bool \<Rightarrow> matched option option \<Rightarrow> bool \<Rightarrow> int list \<Rightarrow> int list py" where
  "trim_ids gpt_oss fin no_stop_trim out =
     (if no_stop_trim then Inr out
      else case fin of
          Some (Some (MatchedToken t)) \<Rightarrow>
            if t = 0 then Inr out
            else py_bind (py_index out (- 1)) (\<lambda>l. if l = 200012 \<and> gpt_oss then Inr out else Inr (butlast out))
        | _ \<Rightarrow> Inr out)"

section \<open>Decoding a batch\<close>

text \<open>Decoding in groups of equal settings; \<open>keys\<close> are the settings in the order of first occurrence.\<close>

definition grouped_batch_decode :: "detok_env \<Rightarrow> (int list \<times> bool \<times> bool) list \<Rightarrow> text_str list py" where
  "grouped_batch_decode E xs =
     (case xs of [] \<Rightarrow> Inl IndexError
      | (ids0, skip0, sp0) # _ \<Rightarrow>
        if \<forall>(ids, k) \<in> set xs. k = (skip0, sp0)
        then Inr (de_batch_decode E skip0 sp0 (map fst xs))
        else py_for (\<lambda>k results.
               let idxs = filter (\<lambda>i. snd (xs ! i) = k) [0..<length xs];
                   decoded = de_batch_decode E (fst k) (snd k) (map (\<lambda>i. fst (xs ! i)) idxs)
               in Inr (foldl (\<lambda>rs (i, t). rs[i := t]) results (zip idxs decoded)))
             (rev (remdups (rev (map snd xs)))) (replicate (length xs) []))"

text \<open>
  \<open>LimitedCapacityDict.__setitem__\<close>: the states in insertion order; at capacity the oldest goes first.
\<close>

type_synonym statuses = "(int \<times> decode_status) list"

definition limited_set :: "nat \<Rightarrow> int \<Rightarrow> decode_status \<Rightarrow> statuses \<Rightarrow> statuses py" where
  "limited_set cap k s d =
     py_bind (if cap \<le> length d then (case d of [] \<Rightarrow> Inl KeyError | _ # d' \<Rightarrow> Inr d') else Inr d) (\<lambda>d1.
     Inr (AList.update k s d1))"

definition open_status :: "detok_env \<Rightarrow> tok_msg \<Rightarrow> statuses \<Rightarrow> (decode_status \<times> statuses) py" where
  "open_status E m d =
     (case map_of d (m_rid m) of
        None \<Rightarrow> (let s = \<lparr>ds_decoded_text = m_decoded_text m, ds_decode_ids = m_decode_ids m, ds_surr_offset = 0,
                          ds_read_offset = m_read_offset m, ds_sent_offset = 0\<rparr>
                 in py_bind (limited_set (de_capacity E) (m_rid m) s d) (\<lambda>d'. Inr (s, d')))
      | Some s0 \<Rightarrow> (let s = s0\<lparr>ds_decode_ids := ds_decode_ids s0 @ m_decode_ids m\<rparr>
                    in Inr (s, AList.update (m_rid m) s d)))"

definition read_surr_ids :: "detok_env \<Rightarrow> tok_msg \<Rightarrow> decode_status \<Rightarrow> (int list \<times> int list) py" where
  "read_surr_ids E m s =
     py_bind (trim_ids (de_gpt_oss E) (m_finished m) (m_no_stop_trim m) (py_from (ds_decode_ids s) (ds_surr_offset s)))
       (\<lambda>read. Inr (read, py_slice (ds_decode_ids s) (ds_surr_offset s) (ds_read_offset s)))"

text \<open>The first loop: states and the ids to decode.\<close>

fun open_statuses :: "detok_env \<Rightarrow> tok_msg list \<Rightarrow> statuses \<Rightarrow> ((int list \<times> int list) list \<times> statuses) py" where
  "open_statuses E [] d = Inr ([], d)"
| "open_statuses E (m # ms) d =
     py_bind (open_status E m d) (\<lambda>(s, d1). py_bind (read_surr_ids E m s) (\<lambda>rs.
     py_bind (open_statuses E ms d1) (\<lambda>(rest, d2). Inr (rs # rest, d2))))"

text \<open>The last loop, for one request: the new text, the next state and what is sent.\<close>

definition next_text :: "tok_msg \<Rightarrow> text_str \<Rightarrow> text_str \<Rightarrow> decode_status \<Rightarrow> text_str \<times> decode_status option" where
  "next_text m surr_text read_text s =
     (let new_text = drop (length surr_text) read_text;
          (s1, new1) =
            (if m_finished m = None
             then (if new_text \<noteq> [] \<and> last new_text \<noteq> FFFD
                   then (s\<lparr>ds_decoded_text := ds_decoded_text s @ new_text, ds_surr_offset := ds_read_offset s,
                           ds_read_offset := int (length (ds_decode_ids s))\<rparr>, [])
                   else (s, find_printable_text new_text))
             else (s, new_text));
          output_str = trim_text (m_finished m) (m_no_stop_trim m) (ds_decoded_text s1 @ new1)
      in (py_from output_str (ds_sent_offset s1),
          if m_finished m = None then Some (s1\<lparr>ds_sent_offset := int (length output_str)\<rparr>) else None))"

fun send_texts :: "tok_msg list \<Rightarrow> text_str list \<Rightarrow> text_str list \<Rightarrow> statuses \<Rightarrow> (text_str list \<times> statuses) py" where
  "send_texts (m # ms) (su # sus) (re # res) d =
     (case map_of d (m_rid m) of None \<Rightarrow> Inl RuntimeError
      | Some s \<Rightarrow> (case next_text m su re s of (out, so) \<Rightarrow>
          py_bind (send_texts ms sus res (case so of Some s' \<Rightarrow> AList.update (m_rid m) s' d | None \<Rightarrow> AList.delete (m_rid m) d))
            (\<lambda>(outs, d'). Inr (out # outs, d'))))"
| "send_texts [] _ _ d = Inr ([], d)"
| "send_texts (m # ms) _ _ d = Inl IndexError"

definition decode_texts :: "detok_env \<Rightarrow> (bool \<times> bool) list \<Rightarrow> int list list \<Rightarrow> text_str list py" where
  "decode_texts E settings idss =
     (if \<not> de_disable_batch_decode E then grouped_batch_decode E (zip idss settings)
      else Inr (map2 (\<lambda>ids k. de_decode E (fst k) (snd k) ids) idss settings))"

definition decode_batch_token_id_output :: "detok_env \<Rightarrow> tok_msg list \<Rightarrow> statuses \<Rightarrow> (text_str list \<times> statuses) py" where
  "decode_batch_token_id_output E ms d =
     py_bind (open_statuses E ms d) (\<lambda>(ids, d1).
     let settings = map (\<lambda>m. (m_skip_special m, m_spaces m)) ms
     in py_bind (decode_texts E settings (map snd ids)) (\<lambda>surr_texts.
        py_bind (decode_texts E settings (map fst ids)) (\<lambda>read_texts.
        send_texts ms surr_texts read_texts d1)))"

definition handle_batch_token_id_out :: "detok_env \<Rightarrow> tok_msg list \<Rightarrow> statuses \<Rightarrow> (text_str list \<times> statuses) py" where
  "handle_batch_token_id_out E ms d = (if length ms > 0 then decode_batch_token_id_output E ms d else Inr ([], d))"

section \<open>One request\<close>

text \<open>What a message does to the state of its own request, decoded on its own.\<close>

definition status_with :: "tok_msg \<Rightarrow> decode_status option \<Rightarrow> decode_status" where
  "status_with m so =
     (case so of None \<Rightarrow> \<lparr>ds_decoded_text = m_decoded_text m, ds_decode_ids = m_decode_ids m, ds_surr_offset = 0,
                          ds_read_offset = m_read_offset m, ds_sent_offset = 0\<rparr>
      | Some s \<Rightarrow> s\<lparr>ds_decode_ids := ds_decode_ids s @ m_decode_ids m\<rparr>)"

definition detok_one :: "detok_env \<Rightarrow> tok_msg \<Rightarrow> decode_status option \<Rightarrow> (text_str \<times> decode_status option) py" where
  "detok_one E m so =
     (let s = status_with m so; D = de_decode E (m_skip_special m) (m_spaces m)
      in py_bind (read_surr_ids E m s) (\<lambda>(rd, su). Inr (next_text m (D su) (D rd) s)))"

fun detok_seq :: "detok_env \<Rightarrow> tok_msg list \<Rightarrow> decode_status option \<Rightarrow> (text_str list \<times> decode_status option) py" where
  "detok_seq E [] so = Inr ([], so)"
| "detok_seq E (m # ms) so =
     py_bind (detok_one E m so) (\<lambda>(out, so1). py_bind (detok_seq E ms so1) (\<lambda>(outs, so2). Inr (out # outs, so2)))"

section \<open>What the code relies on of the tokenizer\<close>

text \<open>
  A tokenizer of byte pieces: a token stands for a byte string (none for a special token that is skipped), and
  the text of token ids is the UTF-8 decoding of their bytes put together, in which a replacement character stands
  for each invalid sequence (the longest start of a valid one), as the Unicode standard recommends and as
  \<open>bytes.decode(errors="replace")\<close> does it. With \<open>lead\<close>, a space at the very beginning is left out, as
  decoders of SentencePiece vocabularies do: there the text of ids is not what they add to the ids before them,
  and this is what the surrounding ids are for.
\<close>

text \<open>The bytes that may follow a lead byte: their number, the range of the first one and the bits of the lead.\<close>

definition utf8_lead :: "nat \<Rightarrow> (nat \<times> nat \<times> nat \<times> nat) option" where
  "utf8_lead b =
     (if 0xC2 \<le> b \<and> b \<le> 0xDF then Some (1, 0x80, 0xBF, b - 0xC0)
      else if b = 0xE0 then Some (2, 0xA0, 0xBF, 0)
      else if b = 0xED then Some (2, 0x80, 0x9F, 13)
      else if 0xE1 \<le> b \<and> b \<le> 0xEF then Some (2, 0x80, 0xBF, b - 0xE0)
      else if b = 0xF0 then Some (3, 0x90, 0xBF, 0)
      else if 0xF1 \<le> b \<and> b \<le> 0xF3 then Some (3, 0x80, 0xBF, b - 0xF0)
      else if b = 0xF4 then Some (3, 0x80, 0x8F, 4)
      else None)"

fun utf8_tail :: "nat \<Rightarrow> nat \<Rightarrow> nat \<Rightarrow> nat \<Rightarrow> nat list \<Rightarrow> nat option \<times> nat list" where
  "utf8_tail 0 lo hi cp bs = (Some cp, bs)"
| "utf8_tail (Suc n) lo hi cp [] = (None, [])"
| "utf8_tail (Suc n) lo hi cp (c # bs) =
     (if lo \<le> c \<and> c \<le> hi then utf8_tail n 0x80 0xBF (cp * 64 + (c - 0x80)) bs else (None, c # bs))"

lemma utf8_tail_length: "length (snd (utf8_tail n lo hi cp bs)) \<le> length bs"
  by (induction n lo hi cp bs rule: utf8_tail.induct) auto

text \<open>The first character of a non-empty byte string and the bytes after it.\<close>

definition utf8_char :: "nat \<Rightarrow> nat list \<Rightarrow> nat option \<times> nat list" where
  "utf8_char b bs =
     (if b < 0x80 then (Some b, bs)
      else case utf8_lead b of None \<Rightarrow> (Some FFFD, bs) | Some (n, lo, hi, cp) \<Rightarrow> utf8_tail n lo hi cp bs)"

lemma utf8_char_length: "length (snd (utf8_char b bs)) \<le> length bs"
  using utf8_tail_length by (auto simp: utf8_char_def split: option.splits)

function utf8_lossy :: "nat list \<Rightarrow> text_str" where
  "utf8_lossy [] = []"
| "utf8_lossy (b # bs) = (case utf8_char b bs of (c, rest) \<Rightarrow> (case c of Some cp \<Rightarrow> cp | None \<Rightarrow> FFFD) # utf8_lossy rest)"
  by pat_completeness auto
termination
  by (relation "measure length") (use utf8_char_length in \<open>auto simp: less_Suc_eq_le\<close>, metis snd_conv)

definition lead_strip :: "bool \<Rightarrow> text_str \<Rightarrow> text_str" where
  "lead_strip lead t = (if lead \<and> t \<noteq> [] \<and> hd t = 32 then tl t else t)"

definition piece_text :: "(nat list \<Rightarrow> text_str) \<Rightarrow> bool \<Rightarrow> (int \<Rightarrow> nat list) \<Rightarrow> int list \<Rightarrow> text_str" where
  "piece_text dec lead bytes ids = lead_strip lead (dec (concat (map bytes ids)))"

text \<open>Trailing replacement characters may change with the next byte; what is before them is final.\<close>

definition strip_fffd :: "text_str \<Rightarrow> text_str" where
  "strip_fffd t = rev (dropWhile (\<lambda>c. c = FFFD) (rev t))"

definition complete :: "text_str \<Rightarrow> bool" where
  "complete t \<longleftrightarrow> t = [] \<or> last t \<noteq> FFFD"

lemma strip_fffd_Nil [simp]: "strip_fffd [] = []" by (simp add: strip_fffd_def)

lemma strip_fffd_snoc: "strip_fffd (t @ [c]) = (if c = FFFD then strip_fffd t else t @ [c])"
  by (simp add: strip_fffd_def)

lemma strip_fffd_prefix: "prefix (strip_fffd t) t"
  by (induction t rule: rev_induct) (auto simp: strip_fffd_snoc intro: prefix_order.trans)

lemma strip_fffd_Cons: "strip_fffd (c # t) = (if strip_fffd t = [] \<and> c = FFFD then [] else c # strip_fffd t)"
  by (induction t rule: rev_induct) (auto simp: strip_fffd_def dropWhile_append)

section \<open>The interface of the byte decoder\<close>

text \<open>
  What the incremental decoding rests on: further bytes change at most the trailing replacement characters, and
  behind a complete text decoding starts anew.
\<close>

locale byte_decoder =
  fixes dec :: "nat list \<Rightarrow> text_str"
  assumes stable: "prefix (strip_fffd (dec xs)) (dec (xs @ ys))"
    and resumes: "complete (dec xs) \<Longrightarrow> dec (xs @ ys) = dec xs @ dec ys"

text \<open>UTF-8 keeps these laws.\<close>

lemma utf8_tail_append:
  "utf8_tail n lo hi cp bs = (c, rest) \<Longrightarrow> c \<noteq> None \<or> rest \<noteq> [] \<Longrightarrow> utf8_tail n lo hi cp (bs @ ys) = (c, rest @ ys)"
  by (induction n lo hi cp bs rule: utf8_tail.induct) (auto split: if_splits)

lemma utf8_char_append:
  "utf8_char b bs = (c, rest) \<Longrightarrow> c \<noteq> None \<or> rest \<noteq> [] \<Longrightarrow> utf8_char b (bs @ ys) = (c, rest @ ys)"
  using utf8_tail_append by (auto simp: utf8_char_def split: option.splits if_splits)

lemma utf8_stable: "prefix (strip_fffd (utf8_lossy xs)) (utf8_lossy (xs @ ys))"
proof (induction xs rule: utf8_lossy.induct)
  case (2 b bs)
  obtain c rest where c: "utf8_char b bs = (c, rest)" by fastforce
  show ?case
  proof (cases "c \<noteq> None \<or> rest \<noteq> []")
    case True
    then show ?thesis using 2 [OF c [symmetric]] c utf8_char_append [OF c True, of ys] by (auto simp: strip_fffd_Cons)
  qed (use c in \<open>simp add: strip_fffd_Cons\<close>)
qed simp

lemma utf8_resumes: "complete (utf8_lossy xs) \<Longrightarrow> utf8_lossy (xs @ ys) = utf8_lossy xs @ utf8_lossy ys"
proof (induction xs rule: utf8_lossy.induct)
  case (2 b bs)
  obtain c rest where c: "utf8_char b bs = (c, rest)" by fastforce
  have "c \<noteq> None \<or> rest \<noteq> []" using 2(2) c by (auto simp: complete_def)
  then show ?case using 2(1) [OF c [symmetric]] 2(2) c utf8_char_append [OF c, of ys] by (auto simp: complete_def split: if_splits)
qed simp

interpretation utf8: byte_decoder utf8_lossy
  by unfold_locales (rule utf8_stable, rule utf8_resumes)

text \<open>A leading space is left out once, at the beginning of the text.\<close>

lemma lead_strip_append: "t \<noteq> [] \<Longrightarrow> lead_strip lead (t @ u) = lead_strip lead t @ u"
  by (cases t) (auto simp: lead_strip_def)

lemma lead_strip_last: "lead_strip lead t \<noteq> [] \<Longrightarrow> t \<noteq> [] \<and> last (lead_strip lead t) = last t"
  by (cases t) (auto simp: lead_strip_def)

lemma lead_strip_complete: "complete (lead_strip lead t) \<Longrightarrow> complete t"
  by (cases t) (auto simp: lead_strip_def complete_def FFFD_def split: if_splits)

lemma lead_strip_stable: "prefix (strip_fffd t) u \<Longrightarrow> prefix (strip_fffd (lead_strip lead t)) (lead_strip lead u)"
proof (cases t)
  case (Cons c v)
  assume p: "prefix (strip_fffd t) u"
  show ?thesis
  proof (cases "strip_fffd t = []")
    case True
    then have "strip_fffd v = []" using Cons by (auto simp: strip_fffd_Cons split: if_splits)
    then show ?thesis using True Cons by (auto simp: lead_strip_def)
  next
    case False
    then show ?thesis using p Cons by (cases u) (auto simp: lead_strip_def strip_fffd_Cons split: if_splits)
  qed
qed (simp add: lead_strip_def)

text \<open>What is printed of an incomplete text does not reach its trailing replacement characters.\<close>

lemma through_last_space_append_nonspace: "32 \<notin> set ys \<Longrightarrow> through_last_space (xs @ ys) = through_last_space xs"
proof (induction xs)
  case Nil
  then show ?case by (cases ys) auto
qed auto

lemma through_last_space_prefix: "prefix (through_last_space t) t"
  by (induction t) auto

lemma through_last_space_strip: "prefix (through_last_space t) (strip_fffd t)"
proof (induction t rule: rev_induct)
  case (snoc c t)
  show ?case
  proof (cases "c = FFFD")
    case True
    then show ?thesis using snoc through_last_space_append_nonspace [of "[c]" t] by (simp add: strip_fffd_snoc FFFD_def)
  next
    case False
    then show ?thesis using through_last_space_prefix [of "t @ [c]"] by (simp add: strip_fffd_snoc del: prefix_snoc)
  qed
qed simp

lemma printable_strip:
  assumes "t = [] \<or> last t = FFFD"
  shows "prefix (find_printable_text t) (strip_fffd t)"
proof (cases t rule: rev_cases)
  case Nil
  then show ?thesis by (simp add: find_printable_text_def)
next
  case (snoc u c)
  then have c: "c = FFFD" using assms by simp
  show ?thesis
  proof (cases "length t > 1 \<and> is_chinese_char (t ! (length t - 2))")
    case True
    then obtain v b where u: "u = v @ [b]" using snoc by (cases u rule: rev_cases) auto
    then have "b \<noteq> FFFD" using True snoc by (auto simp: nth_append is_chinese_char_def FFFD_def)
    then have "strip_fffd t = u" using snoc c u by (simp add: strip_fffd_def)
    moreover have "find_printable_text t = u"
      using True snoc c by (auto simp: find_printable_text_def is_chinese_char_def FFFD_def)
    ultimately show ?thesis by simp
  next
    case False
    then have "find_printable_text t = through_last_space t"
      using snoc c by (auto simp: find_printable_text_def is_chinese_char_def FFFD_def)
    then show ?thesis using through_last_space_strip by simp
  qed
qed

lemma strip_fffd_drop: "prefix (strip_fffd (drop n t)) (drop n (strip_fffd t))"
proof (induction t rule: rev_induct)
  case (snoc c t)
  then show ?case by (cases "n \<le> length t") (auto simp: strip_fffd_snoc)
qed simp

context byte_decoder
begin

lemma piece_stable: "prefix (strip_fffd (piece_text dec lead b xs)) (piece_text dec lead b (xs @ ys))"
  using lead_strip_stable stable by (simp add: piece_text_def)

lemma piece_resumes:
  assumes "complete (piece_text dec False b xs)"
  shows "piece_text dec False b (xs @ ys) = piece_text dec False b xs @ piece_text dec False b ys"
  using assms resumes by (simp add: piece_text_def lead_strip_def)

text \<open>
  Behind a complete text, decoding continues with the ids \<open>r\<close> that gave some of it: what a continuation adds is what
  it adds to \<open>r\<close> alone.
\<close>

lemma piece_continues:
  assumes "complete (piece_text dec False b xs)" "complete (piece_text dec False b (xs @ r))" "piece_text dec False b r \<noteq> []"
  shows "piece_text dec lead b (xs @ r @ ys) =
    piece_text dec lead b (xs @ r) @ drop (length (piece_text dec lead b r)) (piece_text dec lead b (r @ ys))"
proof -
  let ?B = "piece_text dec False b"
  have lead: "piece_text dec lead b zs = lead_strip lead (?B zs)" for zs by (simp add: piece_text_def lead_strip_def)
  have xr: "?B (xs @ r) = ?B xs @ ?B r" using piece_resumes assms(1) by blast
  have "complete (?B r)" using assms(2,3) unfolding xr by (auto simp: complete_def)
  then have "?B (r @ ys) = ?B r @ ?B ys" "?B (xs @ r @ ys) = (?B xs @ ?B r) @ ?B ys"
    using piece_resumes assms(2) xr by (blast, metis append.assoc)
  then show ?thesis using lead_strip_append [of "?B r"] lead_strip_append [of "?B xs @ ?B r"] assms(3) xr
    by (simp only: lead) (simp del: append_assoc)
qed

lemma printable_final:
  assumes "t = drop n (piece_text dec lead b xs)" "t = [] \<or> last t = FFFD"
  shows "prefix (find_printable_text t) (drop n (piece_text dec lead b (xs @ ys)))"
proof -
  let ?D = "piece_text dec lead b"
  obtain z where "?D (xs @ ys) = strip_fffd (?D xs) @ z" using piece_stable [of lead b xs ys] unfolding prefix_def by blast
  then have "prefix (drop n (strip_fffd (?D xs))) (drop n (?D (xs @ ys)))" by simp
  then show ?thesis
    using printable_strip [OF assms(2)] strip_fffd_drop [of n "?D xs"] assms(1) prefix_order.trans by blast
qed

end

section \<open>The text of one request\<close>

text \<open>Text without CJK characters is shown up to its last space while it is incomplete.\<close>

definition no_cjk :: "(int list \<Rightarrow> text_str) \<Rightarrow> int list \<Rightarrow> bool" where
  "no_cjk D ids \<longleftrightarrow> (\<forall>xs. sublist xs ids \<longrightarrow> (\<forall>c \<in> set (D xs). \<not> is_chinese_char c))"

lemma no_cjk_part: "no_cjk D (xs @ ys @ zs) \<Longrightarrow> no_cjk D ys"
  by (auto simp: no_cjk_def) (metis sublist_appendI sublist_order.order.trans)

lemma no_cjk_drop: "no_cjk D ids \<Longrightarrow> ids = xs @ ys @ zs \<Longrightarrow> c \<in> set (drop n (D ys)) \<Longrightarrow> \<not> is_chinese_char c"
  using sublist_appendI by (metis in_set_dropD no_cjk_def)

lemma fffd_plain [simp]: "\<not> is_chinese_char FFFD" "FFFD \<noteq> 10" "FFFD \<noteq> 32"
  by (simp_all add: is_chinese_char_def FFFD_def)

lemma printable_no_cjk:
  assumes "\<forall>c \<in> set t. \<not> is_chinese_char c" "t = [] \<or> last t = FFFD"
  shows "find_printable_text t = through_last_space t"
  using assms by (auto simp: find_printable_text_def)

lemma through_last_space_Nil: "through_last_space t = [] \<longleftrightarrow> 32 \<notin> set t"
  by (cases t) auto

lemma last_space: "through_last_space t = [] \<or> last (through_last_space t) = 32"
  by (induction t) (auto simp: through_last_space_Nil)

lemma prefix_through_last_space:
  "prefix p t \<Longrightarrow> p = [] \<or> last p = 32 \<Longrightarrow> prefix p (through_last_space t)"
proof (induction t arbitrary: p)
  case (Cons c t)
  show ?case
  proof (cases p)
    case (Cons d q)
    then have d: "d = c" "prefix q t" "q = [] \<and> c = 32 \<or> q \<noteq> [] \<and> last q = 32"
      using Cons.prems by (auto split: if_splits)
    have "c = 32 \<or> 32 \<in> set t" using d(2,3) by (metis last_in_set set_mono_prefix subsetD)
    then show ?thesis using Cons.IH [of q] d Cons by auto
  qed simp
qed simp

text \<open>
  The state of a request after the ids \<open>A\<close>, of which \<open>P\<close> are the surrounding prompt tokens, when \<open>sent\<close> is the
  text sent so far: all text after that of \<open>P\<close> is the decoded text and what the ids from the surrounding
  offset on add to the ids that are already decoded; \<open>B\<close> is the text with its leading space, and it is complete
  at the read offset.
\<close>

definition surr_ids :: "decode_status \<Rightarrow> int list" where
  "surr_ids s = drop (nat (ds_surr_offset s)) (take (nat (ds_read_offset s)) (ds_decode_ids s))"

definition pending_text :: "(int list \<Rightarrow> text_str) \<Rightarrow> decode_status \<Rightarrow> text_str" where
  "pending_text D s = drop (length (D (surr_ids s))) (D (drop (nat (ds_surr_offset s)) (ds_decode_ids s)))"

definition text_inv :: "(int list \<Rightarrow> text_str) \<Rightarrow> (int list \<Rightarrow> text_str) \<Rightarrow> int list \<Rightarrow> int list \<Rightarrow> decode_status \<Rightarrow> text_str \<Rightarrow> bool" where
  "text_inv D B P A s sent \<longleftrightarrow> ds_decode_ids s = A \<and> 0 \<le> ds_surr_offset s \<and> ds_surr_offset s \<le> ds_read_offset s \<and>
     ds_read_offset s \<le> int (length A) \<and> complete (B (take (nat (ds_read_offset s)) A)) \<and>
     (\<forall>X. drop (length (D P)) (D (take (nat (ds_read_offset s)) A @ X)) =
        ds_decoded_text s @ drop (length (D (surr_ids s))) (D (surr_ids s @ X))) \<and>
     sent = ds_decoded_text s @ through_last_space (pending_text D s) \<and>
     (pending_text D s = [] \<or> last (pending_text D s) = FFFD) \<and> ds_sent_offset s = int (length sent)"

lemma text_inv_new:
  "complete (B P) \<Longrightarrow> text_inv D B P P \<lparr>ds_decoded_text = [], ds_decode_ids = P, ds_surr_offset = 0, ds_read_offset = int (length P),
     ds_sent_offset = 0\<rparr> []"
  by (simp add: text_inv_def surr_ids_def pending_text_def)

lemma text_inv_ids:
  assumes "text_inv D B P A s sent" "s1 = s\<lparr>ds_decode_ids := A @ ys\<rparr>"
  shows "surr_ids s1 = surr_ids s"
    "py_slice (ds_decode_ids s1) (ds_surr_offset s1) (ds_read_offset s1) = surr_ids s"
    "py_from (ds_decode_ids s1) (ds_surr_offset s1) = surr_ids s @ drop (nat (ds_read_offset s)) A @ ys"
    "drop (nat (ds_surr_offset s)) A = surr_ids s @ drop (nat (ds_read_offset s)) A"
    "A = take (nat (ds_read_offset s)) A @ drop (nat (ds_read_offset s)) A"
proof -
  let ?u = "nat (ds_surr_offset s)" and ?r = "nat (ds_read_offset s)"
  have b: "?u \<le> ?r" "?r \<le> length A" "0 \<le> ds_surr_offset s" "0 \<le> ds_read_offset s" "ds_decode_ids s = A"
    using assms(1) by (auto simp: text_inv_def)
  show "A = take ?r A @ drop ?r A" by simp
  then have "drop ?u A = drop ?u (take ?r A) @ drop ?r A"
    by (metis append_take_drop_id b(1) diff_is_0_eq drop0 drop_append length_take min.absorb2 b(2))
  then show d: "drop ?u A = surr_ids s @ drop ?r A" using b(5) by (simp add: surr_ids_def)
  show "surr_ids s1 = surr_ids s" using b assms(2) by (simp add: surr_ids_def)
  show "py_slice (ds_decode_ids s1) (ds_surr_offset s1) (ds_read_offset s1) = surr_ids s"
    using b assms(2) by (simp add: slice_simps surr_ids_def)
  show "py_from (ds_decode_ids s1) (ds_surr_offset s1) = surr_ids s @ drop ?r A @ ys"
    using b assms(2) d by (simp add: slice_simps)
qed

context byte_decoder
begin

text \<open>What was sent stays: it begins every text that any further ids give.\<close>

lemma sent_begins:
  assumes D: "D = piece_text dec lead b" "B = piece_text dec False b" "no_cjk D A" and i: "text_inv D B P A s sent"
  shows "prefix sent (ds_decoded_text s @ drop (length (D (surr_ids s))) (D (surr_ids s @ drop (nat (ds_read_offset s)) A @ ys)))"
    "drop (length (D P)) (D (A @ ys)) =
      ds_decoded_text s @ drop (length (D (surr_ids s))) (D (surr_ids s @ drop (nat (ds_read_offset s)) A @ ys))"
proof -
  note ids = text_inv_ids [OF i, where ys = ys, OF refl]
  have "ds_decode_ids s = A" using i by (simp add: text_inv_def)
  then have p1: "pending_text D s = drop (length (D (surr_ids s))) (D (surr_ids s @ drop (nat (ds_read_offset s)) A))"
    using ids(4) by (simp add: pending_text_def)
  have p2: "pending_text D s = [] \<or> last (pending_text D s) = FFFD" using i unfolding text_inv_def by blast
  have "\<forall>c \<in> set (pending_text D s). \<not> is_chinese_char c"
    using no_cjk_drop [OF D(3)] ids(4) unfolding p1 by (metis append_Nil2 append_take_drop_id)
  then have "find_printable_text (pending_text D s) = through_last_space (pending_text D s)"
    using printable_no_cjk p2 by blast
  then have "prefix (through_last_space (pending_text D s))
      (drop (length (D (surr_ids s))) (D ((surr_ids s @ drop (nat (ds_read_offset s)) A) @ ys)))"
    using printable_final [OF p1 [unfolded D(1)] p2 [unfolded D(1)], of ys] D(1) by simp
  then show "prefix sent (ds_decoded_text s @ drop (length (D (surr_ids s))) (D (surr_ids s @ drop (nat (ds_read_offset s)) A @ ys)))"
    using i by (simp add: text_inv_def)
  show "drop (length (D P)) (D (A @ ys)) =
      ds_decoded_text s @ drop (length (D (surr_ids s))) (D (surr_ids s @ drop (nat (ds_read_offset s)) A @ ys))"
    using i ids(5) unfolding text_inv_def by (metis append.assoc)
qed

lemma pending_after:
  assumes "text_inv D B P A s sent" "s1 = s\<lparr>ds_decode_ids := A @ ys\<rparr>"
  shows "pending_text D s1 = drop (length (D (surr_ids s))) (D (surr_ids s @ drop (nat (ds_read_offset s)) A @ ys))"
  using text_inv_ids [OF assms] assms by (simp add: pending_text_def text_inv_def slice_simps)

lemma next_text_running:
  assumes "drop (length su) rd = new" "m_finished m = None" "ds_sent_offset s = int (length sent)"
  shows "new \<noteq> [] \<and> last new \<noteq> FFFD \<Longrightarrow> ds_decoded_text s @ new = sent @ out \<Longrightarrow>
      next_text m su rd s = (out, Some (s\<lparr>ds_decoded_text := ds_decoded_text s @ new, ds_surr_offset := ds_read_offset s,
        ds_read_offset := int (length (ds_decode_ids s)), ds_sent_offset := int (length (ds_decoded_text s @ new))\<rparr>))"
    "\<not> (new \<noteq> [] \<and> last new \<noteq> FFFD) \<Longrightarrow> ds_decoded_text s @ find_printable_text new = sent @ out \<Longrightarrow>
      next_text m su rd s = (out, Some (s\<lparr>ds_sent_offset := int (length (ds_decoded_text s @ find_printable_text new))\<rparr>))"
proof -
  have d: "py_from (sent @ out) (int (length sent)) = out" by (simp add: py_from_def)
  show "next_text m su rd s = (out, Some (s\<lparr>ds_decoded_text := ds_decoded_text s @ new, ds_surr_offset := ds_read_offset s,
        ds_read_offset := int (length (ds_decode_ids s)), ds_sent_offset := int (length (ds_decoded_text s @ new))\<rparr>))"
    if "new \<noteq> [] \<and> last new \<noteq> FFFD" "ds_decoded_text s @ new = sent @ out"
    using that assms d by (simp add: next_text_def Let_def trim_text_def)
  show "next_text m su rd s = (out, Some (s\<lparr>ds_sent_offset := int (length (ds_decoded_text s @ find_printable_text new))\<rparr>))"
    if "\<not> (new \<noteq> [] \<and> last new \<noteq> FFFD)" "ds_decoded_text s @ find_printable_text new = sent @ out"
    unfolding next_text_def assms(1) using that assms d by (auto simp: Let_def trim_text_def)
qed

text \<open>A chunk of a running request: the text is sent up to the last complete character or space.\<close>

lemma text_inv_chunk:
  assumes D: "D = piece_text dec lead b" "B = piece_text dec False b" "no_cjk D (A @ ys)" and i: "text_inv D B P A s sent"
    and s1: "s1 = s\<lparr>ds_decode_ids := A @ ys\<rparr>" and m: "m_finished m = None"
  shows "\<exists>out s2. next_text m (D (surr_ids s)) (D (surr_ids s @ drop (nat (ds_read_offset s)) A @ ys)) s1 = (out, Some s2) \<and>
    text_inv D B P (A @ ys) s2 (sent @ out)"
proof -
  let ?S = "surr_ids s" and ?R = "drop (nat (ds_read_offset s)) A @ ys"
  let ?new = "drop (length (D ?S)) (D (?S @ ?R))"
  have cA: "no_cjk D A" using no_cjk_part [of D "[]" A ys] D(3) by simp
  note b = sent_begins [OF D(1,2) cA i, of ys] and ids = text_inv_ids [OF i s1]
  have f: "ds_sent_offset s1 = int (length sent)" "ds_decoded_text s1 = ds_decoded_text s" "ds_decode_ids s1 = A @ ys"
    "ds_read_offset s1 = ds_read_offset s" "ds_surr_offset s1 = ds_surr_offset s"
    using i s1 by (simp_all add: text_inv_def)
  show ?thesis
  proof (cases "?new \<noteq> [] \<and> last ?new \<noteq> FFFD")
    case True
    define s2 where "s2 = s1\<lparr>ds_decoded_text := ds_decoded_text s @ ?new, ds_surr_offset := ds_read_offset s,
      ds_read_offset := int (length (A @ ys)), ds_sent_offset := int (length (ds_decoded_text s @ ?new))\<rparr>"
    have g: "ds_decoded_text s2 = ds_decoded_text s @ ?new" "ds_surr_offset s2 = ds_read_offset s" "ds_decode_ids s2 = A @ ys"
      "ds_read_offset s2 = int (length (A @ ys))" "ds_sent_offset s2 = int (length (ds_decoded_text s @ ?new))"
      using f(3) by (simp_all add: s2_def)
    obtain out where out: "ds_decoded_text s @ ?new = sent @ out" using b(1) unfolding prefix_def by blast
    have n: "next_text m (D ?S) (D (?S @ ?R)) s1 = (out, Some s2)"
      using next_text_running(1) [OF refl m f(1) True] f out by (simp add: s2_def)
    have le: "nat (ds_read_offset s) \<le> length A" using i by (auto simp: text_inv_def)
    then have S2: "surr_ids s2 = ?R" using g by (simp add: surr_ids_def)
    let ?T = "take (nat (ds_read_offset s)) A"
    have whole: "drop (length (D P)) (D (A @ ys)) = ds_decoded_text s @ ?new" by (rule b(2))
    then have ne: "length (D P) < length (D (A @ ys))" using True by (metis append_is_Nil_conv drop_eq_Nil not_less)
    have lead: "D zs = lead_strip lead (B zs)" for zs by (simp add: D(1,2) piece_text_def lead_strip_def)
    have e: "A @ ys = ?T @ ?R" by simp
    have "last (D (A @ ys)) = last ?new" using ne whole True by (metis last_appendR last_drop)
    then have c: "complete (B (A @ ys))" using ne True lead lead_strip_last by (metis complete_def list.size(3) not_less_zero)
    have r: "complete (B ?T)" "drop (length (D P)) (D ?T) = ds_decoded_text s"
      using i unfolding text_inv_def by (blast, metis append_Nil2 drop_all order_refl)
    have BR: "B ?R \<noteq> []"
    proof
      assume "B ?R = []"
      then have "B (A @ ys) = B ?T" using piece_resumes r(1) D(2) e by (metis append_Nil2)
      then show False using whole r(2) True lead by simp
    qed
    have "pending_text D s2 = []" using le g unfolding pending_text_def S2 by simp
    moreover have "drop (length (D P)) (D ((A @ ys) @ X)) = (ds_decoded_text s @ ?new) @ drop (length (D ?R)) (D (?R @ X))" for X
    proof -
      have "D (?T @ ?R @ X) = D (?T @ ?R) @ drop (length (D ?R)) (D (?R @ X))"
        using piece_continues [of b ?T ?R lead X] r(1) c BR unfolding e D(1,2) by blast
      then show ?thesis using ne whole unfolding e by simp
    qed
    ultimately have "text_inv D B P (A @ ys) s2 (sent @ out)"
      using i g S2 out c by (simp add: text_inv_def)
    then show ?thesis using n by blast
  next
    case False
    define s2 where "s2 = s1\<lparr>ds_sent_offset := int (length (ds_decoded_text s @ through_last_space ?new))\<rparr>"
    have g: "ds_decoded_text s2 = ds_decoded_text s" "ds_surr_offset s2 = ds_surr_offset s" "ds_decode_ids s2 = A @ ys"
      "ds_read_offset s2 = ds_read_offset s" "ds_sent_offset s2 = int (length (ds_decoded_text s @ through_last_space ?new))"
      using f by (simp_all add: s2_def)
    have le: "nat (ds_read_offset s) \<le> length A" using i by (auto simp: text_inv_def)
    have "A @ ys = take (nat (ds_surr_offset s)) A @ (?S @ ?R) @ []" using ids(4) append_take_drop_id [of "nat (ds_surr_offset s)" A] by simp
    then have "\<forall>c \<in> set ?new. \<not> is_chinese_char c" using no_cjk_drop [OF D(3)] by blast
    then have p: "find_printable_text ?new = through_last_space ?new" using False printable_no_cjk by blast
    have "prefix (through_last_space (pending_text D s)) ?new" using b(1) i by (simp add: text_inv_def)
    then have "prefix (through_last_space (pending_text D s)) (through_last_space ?new)"
      using prefix_through_last_space last_space by blast
    then obtain out where out: "ds_decoded_text s @ through_last_space ?new = sent @ out"
      using i unfolding text_inv_def prefix_def by (metis append.assoc)
    have n: "next_text m (D ?S) (D (?S @ ?R)) s1 = (out, Some s2)"
      using next_text_running(2) [OF refl m f(1) False] f out p by (simp add: s2_def)
    have "surr_ids s2 = ?S" "pending_text D s2 = ?new"
      using ids(1) pending_after [OF i s1] by (simp_all add: surr_ids_def pending_text_def s2_def)
    note S = this
    have tk: "take (nat (ds_read_offset s)) (A @ ys) = take (nat (ds_read_offset s)) A" using le by simp
    have x: "complete (B (take (nat (ds_read_offset s)) A))" "\<forall>X. drop (length (D P)) (D (take (nat (ds_read_offset s)) A @ X)) =
        ds_decoded_text s @ drop (length (D ?S)) (D (?S @ X))"
      and o: "0 \<le> ds_surr_offset s" "ds_surr_offset s \<le> ds_read_offset s" "ds_read_offset s \<le> int (length A)"
      using i unfolding text_inv_def by blast+
    have "text_inv D B P (A @ ys) s2 (sent @ out)"
      unfolding text_inv_def S g tk out using x o False by auto
    then show ?thesis using n by blast
  qed
qed

text \<open>The final chunk brings the rest of the text of the ids that are left after trimming.\<close>

lemma text_inv_final:
  assumes D: "D = piece_text dec lead b" "B = piece_text dec False b" "no_cjk D A" and i: "text_inv D B P A s sent"
    and s1: "s1 = s\<lparr>ds_decode_ids := A @ ys\<rparr>" and m: "m_finished m \<noteq> None" "\<forall>p. m_finished m \<noteq> Some (Some (MatchedText p))"
  shows "\<exists>out. next_text m (D (surr_ids s)) (D (surr_ids s @ drop (nat (ds_read_offset s)) A @ zs)) s1 = (out, None) \<and>
    sent @ out = drop (length (D P)) (D (A @ zs))"
proof -
  let ?new = "drop (length (D (surr_ids s))) (D (surr_ids s @ drop (nat (ds_read_offset s)) A @ zs))"
  note b = sent_begins [OF D i, of zs]
  obtain out where out: "ds_decoded_text s @ ?new = sent @ out" using b(1) unfolding prefix_def by blast
  have "trim_text (m_finished m) (m_no_stop_trim m) t = t" for t
    using m by (auto simp: trim_text_def split: option.splits matched.splits)
  moreover have "ds_sent_offset s1 = int (length sent)" "ds_decoded_text s1 = ds_decoded_text s"
    using i s1 by (simp_all add: text_inv_def)
  moreover have "py_from (sent @ out) (int (length sent)) = out" by (simp add: py_from_def)
  ultimately have "next_text m (D (surr_ids s)) (D (surr_ids s @ drop (nat (ds_read_offset s)) A @ zs)) s1 = (out, None)"
    using m(1) unfolding next_text_def Let_def by (simp add: out)
  then show ?thesis using out b(2) by simp
qed

end

section \<open>From the output chunks to the text\<close>

text \<open>The ids whose text is sent at the end: without the matched stop token, unless the code keeps it.\<close>

definition kept_ids :: "detok_env \<Rightarrow> tok_msg \<Rightarrow> int list \<Rightarrow> int list" where
  "kept_ids E m ids =
     (if \<not> m_no_stop_trim m \<and> (\<exists>t. m_finished m = Some (Some (MatchedToken t)) \<and> t \<noteq> 0) \<and>
         \<not> (last ids = 200012 \<and> de_gpt_oss E) then butlast ids else ids)"

lemma trim_ids_eq:
  "(\<exists>t. m_finished m = Some (Some (MatchedToken t))) \<longrightarrow> ids \<noteq> [] \<Longrightarrow>
   trim_ids (de_gpt_oss E) (m_finished m) (m_no_stop_trim m) ids = Inr (kept_ids E m ids)"
proof -
  have "ids \<noteq> [] \<Longrightarrow> py_index ids (- 1) = Inr (last ids)"
    by (cases ids rule: rev_cases) (simp_all add: py_index_def zmod_minus1 nat_diff_distrib')
  then show "(\<exists>t. m_finished m = Some (Some (MatchedToken t))) \<longrightarrow> ids \<noteq> [] \<Longrightarrow> ?thesis"
    by (auto simp: trim_ids_def kept_ids_def split: option.splits matched.splits)
qed

lemma kept_ids_append: "ys \<noteq> [] \<Longrightarrow> kept_ids E m (xs @ ys) = xs @ kept_ids E m ys"
  by (auto simp: kept_ids_def butlast_append)

lemma kept_ids_running: "\<forall>t. m_finished m \<noteq> Some (Some (MatchedToken t)) \<Longrightarrow> kept_ids E m ids = ids"
  by (simp add: kept_ids_def)

text \<open>The first message opens the state: it is as if the surrounding tokens had been there before.\<close>

lemma detok_one_first:
  assumes "m_decode_ids m = P @ ys" "m_read_offset m = int (length P)" "m_decoded_text m = []"
  shows "detok_one E m None = detok_one E (m\<lparr>m_decode_ids := ys\<rparr>) (Some \<lparr>ds_decoded_text = [], ds_decode_ids = P,
     ds_surr_offset = 0, ds_read_offset = int (length P), ds_sent_offset = 0\<rparr>)"
  using assms by (simp add: detok_one_def status_with_def Let_def read_surr_ids_def next_text_def trim_text_def)

lemma detok_seq_append:
  "detok_seq E (ms @ ms') so = py_bind (detok_seq E ms so) (\<lambda>(o1, so1). py_bind (detok_seq E ms' so1) (\<lambda>(o2, so2). Inr (o1 @ o2, so2)))"
proof (induction ms arbitrary: so)
  case Nil
  then show ?case by (cases "detok_seq E ms' so") auto
next
  case (Cons m ms)
  show ?case
  proof (cases "detok_one E m so")
    case (Inr x)
    then show ?thesis
    proof (cases "detok_seq E ms (snd x)")
      case (Inr y)
      then show ?thesis using Cons.IH [of "snd x"] \<open>detok_one E m so = Inr x\<close>
        by (cases x; cases y; cases "detok_seq E ms' (snd y)") auto
    qed (use Cons.IH [of "snd x"] in \<open>cases x; auto\<close>)
  qed simp
qed

context byte_decoder
begin

lemma detok_one_text:
  assumes D: "D = piece_text dec lead b" "B = piece_text dec False b" "D = de_decode E (m_skip_special m) (m_spaces m)"
    and i: "text_inv D B P A s sent" and ys: "m_decode_ids m = ys"
  shows "m_finished m = None \<Longrightarrow> no_cjk D (A @ ys) \<Longrightarrow> \<exists>out s2. detok_one E m (Some s) = Inr (out, Some s2) \<and> text_inv D B P (A @ ys) s2 (sent @ out)"
    "m_finished m \<noteq> None \<Longrightarrow> no_cjk D A \<Longrightarrow> \<forall>p. m_finished m \<noteq> Some (Some (MatchedText p)) \<Longrightarrow>
      (\<exists>t. m_finished m = Some (Some (MatchedToken t))) \<longrightarrow> ys \<noteq> [] \<Longrightarrow>
      \<exists>out. detok_one E m (Some s) = Inr (out, None) \<and> sent @ out = drop (length (D P)) (D (A @ kept_ids E m ys))"
proof -
  let ?s1 = "s\<lparr>ds_decode_ids := A @ ys\<rparr>"
  have A: "status_with m (Some s) = ?s1" using i ys by (simp add: status_with_def text_inv_def)
  note ids = text_inv_ids [OF i, where ys = ys, OF refl]
  let ?rest = "surr_ids s @ drop (nat (ds_read_offset s)) A"
  have one: "detok_one E m (Some s) =
      py_bind (trim_ids (de_gpt_oss E) (m_finished m) (m_no_stop_trim m) (?rest @ ys))
        (\<lambda>rd. Inr (next_text m (D (surr_ids s)) (D rd) ?s1))"
    using ids(2,3) by (cases "trim_ids (de_gpt_oss E) (m_finished m) (m_no_stop_trim m) (?rest @ ys)")
      (simp_all add: detok_one_def A Let_def read_surr_ids_def D(3))
  show "\<exists>out s2. detok_one E m (Some s) = Inr (out, Some s2) \<and> text_inv D B P (A @ ys) s2 (sent @ out)"
    if m: "m_finished m = None" and c: "no_cjk D (A @ ys)"
    using one m text_inv_chunk [OF D(1,2) c i refl m] by (simp add: trim_ids_def)
  show "\<exists>out. detok_one E m (Some s) = Inr (out, None) \<and> sent @ out = drop (length (D P)) (D (A @ kept_ids E m ys))"
    if m: "m_finished m \<noteq> None" "\<forall>p. m_finished m \<noteq> Some (Some (MatchedText p))" and c: "no_cjk D A"
      and ne: "(\<exists>t. m_finished m = Some (Some (MatchedToken t))) \<longrightarrow> ys \<noteq> []"
  proof -
    have k: "kept_ids E m (?rest @ ys) = ?rest @ kept_ids E m ys"
      using ne kept_ids_append [of ys E m ?rest] kept_ids_running [of m E] by auto
    have t: "trim_ids (de_gpt_oss E) (m_finished m) (m_no_stop_trim m) (?rest @ ys) = Inr (?rest @ kept_ids E m ys)"
      using trim_ids_eq [of m "?rest @ ys" E] ne k by auto
    show ?thesis
      using one t text_inv_final [OF D(1,2) c i refl m, where zs = "kept_ids E m ys" and ys = ys] by simp
  qed
qed

lemma detok_seq_running:
  assumes D: "D = piece_text dec lead b" "B = piece_text dec False b"
    and "\<forall>m \<in> set ms. de_decode E (m_skip_special m) (m_spaces m) = D \<and> m_finished m = None"
    "text_inv D B P A s sent" "no_cjk D (A @ concat (map m_decode_ids ms))"
  shows "\<exists>outs s2. detok_seq E ms (Some s) = Inr (outs, Some s2) \<and>
    text_inv D B P (A @ concat (map m_decode_ids ms)) s2 (sent @ concat outs)"
  using assms(3,4,5)
proof (induction ms arbitrary: A s sent)
  case (Cons m ms)
  obtain out s1 where 1: "detok_one E m (Some s) = Inr (out, Some s1)" "text_inv D B P (A @ m_decode_ids m) s1 (sent @ out)"
    using detok_one_text(1) [OF D _ Cons.prems(2) refl, of E] Cons.prems(1) no_cjk_part [of D "[]"] Cons.prems(3)
    by (metis append.assoc append_Nil concat.simps(2) list.set_intros(1) list.simps(9))
  then show ?case using Cons.IH [OF _ 1(2)] Cons.prems(1,3) by fastforce
qed simp

text \<open>All messages of a request: a running prefix and a final message.\<close>

lemma detok_seq_text:
  assumes D: "D = piece_text dec lead b" "B = piece_text dec False b" "no_cjk D (P @ A)" "complete (B P)"
    and set: "\<forall>m \<in> set (ms @ [f]). de_decode E (m_skip_special m) (m_spaces m) = D"
    and run: "\<forall>m \<in> set ms. m_finished m = None" and fin: "m_finished f \<noteq> None" "\<forall>p. m_finished f \<noteq> Some (Some (MatchedText p))"
      "(\<exists>t. m_finished f = Some (Some (MatchedToken t))) \<longrightarrow> ys \<noteq> []"
    and first: "m_decode_ids (hd (ms @ [f])) = P @ zs" "m_read_offset (hd (ms @ [f])) = int (length P)"
      "m_decoded_text (hd (ms @ [f])) = []"
    and ys: "if ms = [] then ys = zs else ys = m_decode_ids f"
    and A: "A = (if ms = [] then [] else zs @ concat (map m_decode_ids (tl ms)))"
  shows "\<exists>outs. detok_seq E (ms @ [f]) None = Inr (outs, None) \<and>
    concat outs = drop (length (D P)) (D (P @ A @ kept_ids E f ys))"
proof (cases ms)
  case Nil
  have "\<exists>out. detok_one E (f\<lparr>m_decode_ids := ys\<rparr>) (Some \<lparr>ds_decoded_text = [], ds_decode_ids = P, ds_surr_offset = 0,
      ds_read_offset = int (length P), ds_sent_offset = 0\<rparr>) = Inr (out, None) \<and>
      [] @ out = drop (length (D P)) (D (P @ kept_ids E (f\<lparr>m_decode_ids := ys\<rparr>) ys))"
    using set fin D(3) A Nil by (intro detok_one_text(2) [OF D(1,2) _ text_inv_new [of B P, OF D(4)]]) auto
  moreover have "kept_ids E (f\<lparr>m_decode_ids := ys\<rparr>) ys = kept_ids E f ys" by (simp add: kept_ids_def)
  ultimately show ?thesis using detok_one_first [of f P zs E] first ys A Nil by auto
next
  case (Cons m ms')
  let ?s0 = "\<lparr>ds_decoded_text = [], ds_decode_ids = P, ds_surr_offset = 0, ds_read_offset = int (length P), ds_sent_offset = 0\<rparr>"
  have o: "detok_one E m None = detok_one E (m\<lparr>m_decode_ids := zs\<rparr>) (Some ?s0)"
    using first Cons by (intro detok_one_first) auto
  obtain out s1 where 1: "detok_one E m None = Inr (out, Some s1)" "text_inv D B P (P @ zs) s1 out"
    using detok_one_text(1) [OF D(1,2) _ text_inv_new [of B P, OF D(4)], of E "m\<lparr>m_decode_ids := zs\<rparr>" zs] set run Cons
      no_cjk_part [of D "[]" "P @ zs"] D(3) A unfolding o by auto
  obtain outs s2 where 2: "detok_seq E ms' (Some s1) = Inr (outs, Some s2)"
    "text_inv D B P ((P @ zs) @ concat (map m_decode_ids ms')) s2 (out @ concat outs)"
    using detok_seq_running [OF D(1,2) _ 1(2), of ms' E] set run Cons D(3) A by auto
  obtain last_out where 3: "detok_one E f (Some s2) = Inr (last_out, None)"
    "(out @ concat outs) @ last_out = drop (length (D P)) (D (((P @ zs) @ concat (map m_decode_ids ms')) @ kept_ids E f ys))"
    using detok_one_text(2) [OF D(1,2) _ 2(2), of E f ys] set fin ys Cons D(3) A by auto
  have "detok_seq E (ms @ [f]) None = Inr (out # outs @ [last_out], None)"
    using 1 2 3 Cons by (simp add: detok_seq_append)
  then show ?thesis using 3(2) A Cons by auto
qed

end

text \<open>
  The message that the output loop builds from a chunk: the finish reason in the form of \<open>to_json\<close>, of which
  the detokenizer reads \<open>matched\<close>.
\<close>

fun reason_matched :: "finish_reason \<Rightarrow> matched option" where
  "reason_matched (FINISH_MATCHED_TOKEN t) = Some (MatchedToken t)"
| "reason_matched (FINISH_MATCHED_STR s) = Some (MatchedText (map of_char s))"
| "reason_matched (FINISHED_MATCHED_REGEX s) = Some (MatchedText (map of_char s))"
| "reason_matched (FINISH_LENGTH l) = None"
| "reason_matched (FINISH_ABORT msg code err) = None"

definition chunk_msg :: "int \<Rightarrow> bool \<Rightarrow> bool \<Rightarrow> bool \<Rightarrow> out_chunk \<Rightarrow> tok_msg" where
  "chunk_msg rid no_stop_trim skip spaces c =
     \<lparr>m_rid = rid, m_decoded_text = [], m_decode_ids = ch_decode_ids c, m_read_offset = ch_read_offset c,
      m_finished = map_option reason_matched (ch_reason c), m_no_stop_trim = no_stop_trim, m_skip_special = skip, m_spaces = spaces\<rparr>"

lemma chunk_msg_simps [simp]:
  "m_decode_ids (chunk_msg rid ns sk sp c) = ch_decode_ids c" "m_read_offset (chunk_msg rid ns sk sp c) = ch_read_offset c"
  "m_finished (chunk_msg rid ns sk sp c) = map_option reason_matched (ch_reason c)" "m_decoded_text (chunk_msg rid ns sk sp c) = []"
  "m_skip_special (chunk_msg rid ns sk sp c) = sk" "m_spaces (chunk_msg rid ns sk sp c) = sp"
  "m_rid (chunk_msg rid ns sk sp c) = rid" "m_no_stop_trim (chunk_msg rid ns sk sp c) = ns"
  by (simp_all add: chunk_msg_def)

lemma sent_output_snoc_tl:
  assumes "chunk_ids_ok P (c # cs)"
  shows "sent_output (c # cs) = ch_output_ids c @ concat (map ch_decode_ids cs)"
  using assms by (auto simp: chunk_ids_ok_def sent_output_def intro!: arg_cong [of _ _ concat])

section \<open>Properties\<close>

text \<open>
  C22. From the decode steps to the text: the texts that the detokenizer sends for a request that finished
  other than by a stop string or a stop regex, put together, are the text that the output tokens through the stop
  (without the matched stop token, where the code drops it) add to the text of the surrounding prompt tokens,
  whatever the chunks are and wherever characters are split between them. The tokenizer's tokens are byte strings
  and its text is their UTF-8 decoding, with or without the loss of a leading space; the prompt ends in a complete
  character, and no part of the tokens has a CJK character in its text.
\<close>

theorem detokenized_text:
  assumes run: "served G re_search th ov si fi r0 r cs" "new_req r0" "sq_finished_output r"
    and why: "\<forall>m. sq_finished_reason r \<noteq> Some (FINISH_MATCHED_STR m) \<and> sq_finished_reason r \<noteq> Some (FINISHED_MATCHED_REGEX m)"
    and D: "D = de_decode E sk sp" "D = piece_text utf8_lossy lead bytes"
    and ids: "no_cjk D (surrounding r @ output_ids_through_stop r)" "complete (D (surrounding r))"
  shows "\<exists>outs. detok_seq E (map (chunk_msg rid ns sk sp) cs) None = Inr (outs, None) \<and>
    concat outs = drop (length (D (surrounding r)))
      (D (surrounding r @ kept_ids E (chunk_msg rid ns sk sp (last cs)) (output_ids_through_stop r)))"
proof -
  let ?M = "chunk_msg rid ns sk sp" and ?P = "surrounding r"
  have i: "sent_inv r cs" by (rule served_sent_inv [OF run(1,2)])
  have fin: "cs \<noteq> []" "req_finished r" "sent_output cs = output_ids_through_stop r" "ch_reason (last cs) = sq_finished_reason r"
    "\<forall>c \<in> set (butlast cs). ch_reason c = None" "\<not> ends_by_length r \<Longrightarrow> ch_output_ids (last cs) \<noteq> []"
    using i run(3) by (simp_all add: sent_inv_def)
  have ok: "chunk_ids_ok ?P cs" by (rule sent_invD(6) [OF i])
  obtain ms f where cs: "cs = ms @ [f]" using fin(1) by (cases cs rule: rev_cases) auto
  let ?zs = "ch_output_ids (hd cs)" and ?A = "if ms = [] then [] else ch_output_ids (hd cs) @ concat (map ch_decode_ids (tl ms))"
  have f: "ch_reason f = sq_finished_reason r" "\<not> ends_by_length r \<Longrightarrow> ch_output_ids f \<noteq> []" using fin(4,6) cs by simp_all
  have dec: "ms \<noteq> [] \<Longrightarrow> ch_decode_ids f = ch_output_ids f" using ok cs by (cases ms) (auto simp: chunk_ids_ok_def)
  have out: "output_ids_through_stop r = ?A @ ch_output_ids f"
    using sent_output_snoc_tl [of ?P "hd cs" "tl cs"] ok fin(3) dec cs by (cases ms) (auto simp: sent_output_def)
  have tok: "(\<exists>t. m_finished (?M f) = Some (Some (MatchedToken t))) \<longrightarrow> ch_output_ids f \<noteq> []"
    using f by (cases "the (sq_finished_reason r)") (auto simp: ends_by_length_def)
  have nostr: "\<forall>p. m_finished (?M f) \<noteq> Some (Some (MatchedText p))"
    using f(1) why fin(2) by (cases "the (sq_finished_reason r)") (auto simp: req_finished_def)
  have "\<exists>outs. detok_seq E (map ?M ms @ [?M f]) None = Inr (outs, None) \<and>
    concat outs = drop (length (D ?P)) (D (?P @ ?A @ kept_ids E (?M f) (ch_output_ids f)))"
  proof (rule utf8.detok_seq_text [OF D(2) refl, where zs = ?zs])
    show "no_cjk D (?P @ ?A)" using ids(1) no_cjk_part [of D "[]" "?P @ ?A" "ch_output_ids f"] unfolding out by simp
    show "complete (piece_text utf8_lossy False bytes ?P)"
      using ids(2) lead_strip_complete unfolding D(2) piece_text_def by (metis lead_strip_def)
    show "\<forall>m \<in> set (map ?M ms @ [?M f]). de_decode E (m_skip_special m) (m_spaces m) = D" using D(1) by auto
    show "\<forall>m \<in> set (map ?M ms). m_finished m = None" using fin(5) cs by simp
    show "m_finished (?M f) \<noteq> None" using f(1) fin(2) by (simp add: req_finished_def)
    show "m_decode_ids (hd (map ?M ms @ [?M f])) = ?P @ ?zs" "m_read_offset (hd (map ?M ms @ [?M f])) = int (length ?P)"
      "m_decoded_text (hd (map ?M ms @ [?M f])) = []"
      using ok cs by (cases ms; simp add: chunk_ids_ok_def)+
    show "if map ?M ms = [] then ch_output_ids f = ?zs else ch_output_ids f = m_decode_ids (?M f)" using dec cs by simp
    show "?A = (if map ?M ms = [] then [] else ?zs @ concat (map m_decode_ids (tl (map ?M ms))))"
      by (simp add: map_tl [symmetric] comp_def)
  qed (use tok nostr in simp_all)
  moreover have "kept_ids E (?M f) (?A @ ch_output_ids f) = ?A @ kept_ids E (?M f) (ch_output_ids f)"
    using tok kept_ids_append [of "ch_output_ids f" E "?M f" ?A] kept_ids_running [of "?M f" E] by auto
  ultimately show ?thesis using cs out by simp
qed

section \<open>Batches\<close>

text \<open>Batch decoding that decodes every member on its own.\<close>

definition batch_elementwise :: "detok_env \<Rightarrow> bool" where
  "batch_elementwise E \<longleftrightarrow> (\<forall>sk sp xs. de_batch_decode E sk sp xs = map (de_decode E sk sp) xs)"

lemma foldl_update:
  "distinct idxs \<Longrightarrow> \<forall>i \<in> set idxs. i < length rs \<Longrightarrow>
   foldl (\<lambda>rs (i, t). rs[i := t]) rs (zip idxs (map f idxs)) = map (\<lambda>i. if i \<in> set idxs then f i else rs ! i) [0..<length rs]"
proof (induction idxs arbitrary: rs)
  case Nil
  then show ?case by (simp add: map_nth)
next
  case (Cons i idxs)
  then show ?case by (auto simp: nth_list_update)
qed

lemma grouped_decode_eq:
  assumes "batch_elementwise E" "xs \<noteq> []"
  shows "grouped_batch_decode E xs = Inr (map (\<lambda>(ids, sk, sp). de_decode E sk sp ids) xs)"
proof -
  let ?dec = "\<lambda>i. de_decode E (fst (snd (xs ! i))) (snd (snd (xs ! i))) (fst (xs ! i))"
  let ?body = "\<lambda>k results. let idxs = filter (\<lambda>i. snd (xs ! i) = k) [0..<length xs];
        decoded = de_batch_decode E (fst k) (snd k) (map (\<lambda>i. fst (xs ! i)) idxs)
      in Inr (foldl (\<lambda>rs (i, t). rs[i := t]) results (zip idxs decoded))"
  have step: "(?body k rs :: text_str list py) = Inr (map (\<lambda>i. if snd (xs ! i) = k then ?dec i else rs ! i) [0..<length xs])"
    if "length rs = length xs" for k rs
  proof -
    let ?I = "filter (\<lambda>i. snd (xs ! i) = k) [0..<length xs]"
    have "de_batch_decode E (fst k) (snd k) (map (\<lambda>i. fst (xs ! i)) ?I) = map ?dec ?I"
      using assms(1) by (auto simp: batch_elementwise_def)
    then show ?thesis using foldl_update [of ?I rs ?dec] that by (simp add: Let_def)
  qed
  have loop: "(py_for ?body ks rs :: text_str list py) = Inr (map (\<lambda>i. if snd (xs ! i) \<in> set ks then ?dec i else rs ! i) [0..<length xs])"
    if "length rs = length xs" for ks rs
    using that
  proof (induction ks arbitrary: rs)
    case Nil
    then show ?case using map_nth [of rs] by simp
  next
    case (Cons k ks)
    have "py_for ?body (k # ks) rs = py_for ?body ks (map (\<lambda>i. if snd (xs ! i) = k then ?dec i else rs ! i) [0..<length xs])"
      using step [OF Cons.prems, of k] by (simp only: py_for.simps py_bind_simps)
    also have "\<dots> = Inr (map (\<lambda>i. if snd (xs ! i) \<in> set ks then ?dec i
        else map (\<lambda>i. if snd (xs ! i) = k then ?dec i else rs ! i) [0..<length xs] ! i) [0..<length xs])"
      by (rule Cons.IH) simp
    finally show ?case by auto
  qed
  have all: "map (\<lambda>(ids, sk, sp). de_decode E sk sp ids) xs = map ?dec [0..<length xs]"
    by (intro nth_equalityI) (auto split: prod.split)
  obtain ids0 sk0 sp0 rest where xs: "xs = (ids0, sk0, sp0) # rest" using assms(2) by (cases xs) auto
  show ?thesis
  proof (cases "\<forall>(ids, k) \<in> set xs. k = (sk0, sp0)")
    case True
    then have "grouped_batch_decode E xs = Inr (map (de_decode E sk0 sp0) (map fst xs))"
      using assms(1) unfolding grouped_batch_decode_def batch_elementwise_def by (simp add: xs)
    also have "map (de_decode E sk0 sp0) (map fst xs) = map (\<lambda>(ids, sk, sp). de_decode E sk sp ids) xs" using True by auto
    finally show ?thesis .
  next
    case False
    then have "grouped_batch_decode E xs = py_for ?body (rev (remdups (rev (map snd xs)))) (replicate (length xs) [])"
      unfolding grouped_batch_decode_def xs by (simp only: list.case prod.case if_False)
    also have "\<dots> = Inr (map ?dec [0..<length xs])" by (subst loop) auto
    finally show ?thesis unfolding all .
  qed
qed

text \<open>Opening states in a dictionary that has room for all of them.\<close>

lemma open_status_eq:
  assumes "length d < de_capacity E"
  shows "open_status E m d = Inr (status_with m (map_of d (m_rid m)), AList.update (m_rid m) (status_with m (map_of d (m_rid m))) d)"
  using assms by (auto simp: open_status_def status_with_def limited_set_def Let_def split: option.splits)

definition ids_of :: "detok_env \<Rightarrow> tok_msg \<Rightarrow> decode_status option \<Rightarrow> (int list \<times> int list) py" where
  "ids_of E m so = read_surr_ids E m (status_with m so)"

lemma length_alist_update: "length (AList.update k v d) \<le> Suc (length d)"
  by (induction d) auto

lemma open_statuses_eq:
  assumes "distinct (map m_rid ms)" "length d + length ms \<le> de_capacity E"
    "\<forall>m \<in> set ms. ids_of E m (map_of d (m_rid m)) = Inr (g m)"
  shows "\<exists>d1. open_statuses E ms d = Inr (map g ms, d1) \<and>
    (\<forall>m \<in> set ms. map_of d1 (m_rid m) = Some (status_with m (map_of d (m_rid m)))) \<and>
    (\<forall>k. k \<notin> m_rid ` set ms \<longrightarrow> map_of d1 k = map_of d k)"
  using assms
proof (induction ms arbitrary: d)
  case (Cons m ms)
  let ?d = "AList.update (m_rid m) (status_with m (map_of d (m_rid m))) d"
  have o: "open_status E m d = Inr (status_with m (map_of d (m_rid m)), ?d)" using Cons.prems(2) by (intro open_status_eq) simp
  have same: "map_of ?d (m_rid m') = map_of d (m_rid m')" if "m' \<in> set ms" for m'
  proof -
    have "m_rid m' \<noteq> m_rid m" using Cons.prems(1) that by (metis distinct.simps(2) image_eqI list.simps(9) set_map)
    then show ?thesis by (simp add: AList.update_conv')
  qed
  have "length ?d + length ms \<le> de_capacity E" 
    using Cons.prems(2) length_alist_update [of "m_rid m" "status_with m (map_of d (m_rid m))" d] by simp
  then obtain d1 where d1: "open_statuses E ms ?d = Inr (map g ms, d1)"
    "\<forall>m \<in> set ms. map_of d1 (m_rid m) = Some (status_with m (map_of ?d (m_rid m)))"
    "\<forall>k. k \<notin> m_rid ` set ms \<longrightarrow> map_of d1 k = map_of ?d k"
    using Cons.IH [of ?d] Cons.prems(1,3) same by auto
  have "read_surr_ids E m (status_with m (map_of d (m_rid m))) = Inr (g m)" using Cons.prems(3) by (simp add: ids_of_def)
  then have "open_statuses E (m # ms) d = Inr (map g (m # ms), d1)" using o d1(1) by simp
  moreover have "m_rid m \<notin> m_rid ` set ms" using Cons.prems(1) by simp
  then have "map_of d1 (m_rid m) = Some (status_with m (map_of d (m_rid m)))" using d1(3) by (simp add: AList.update_conv')
  ultimately show ?case using d1(2,3) same by (auto simp: AList.update_conv')
qed simp

lemma send_texts_eq:
  assumes "distinct (map m_rid ms)" "length sus = length ms" "length res = length ms"
    "\<forall>i < length ms. map_of d (m_rid (ms ! i)) = Some (st i) \<and> next_text (ms ! i) (sus ! i) (res ! i) (st i) = out i"
  shows "\<exists>d1. send_texts ms sus res d = Inr (map (fst \<circ> out) [0..<length ms], d1) \<and>
    (\<forall>i < length ms. map_of d1 (m_rid (ms ! i)) = snd (out i)) \<and> (\<forall>k. k \<notin> m_rid ` set ms \<longrightarrow> map_of d1 k = map_of d k)"
  using assms
proof (induction ms arbitrary: sus res d st out)
  case (Cons m ms)
  obtain su sus' re res' where l: "sus = su # sus'" "res = re # res'" "length sus' = length ms" "length res' = length ms"
    using Cons.prems(2,3) by (cases sus; cases res) auto
  have h: "map_of d (m_rid m) = Some (st 0)" "next_text m su re (st 0) = out 0" using Cons.prems(4) l by force+
  define d' where "d' = (case snd (out 0) of Some s' \<Rightarrow> AList.update (m_rid m) s' d | None \<Rightarrow> AList.delete (m_rid m) d)"
  have d': "map_of d' k = (if k = m_rid m then snd (out 0) else map_of d k)" for k
    by (auto simp: d'_def AList.update_conv' AList.delete_conv' split: option.splits)
  have ne: "m_rid (ms ! i) \<noteq> m_rid m" if "i < length ms" for i
    using Cons.prems(1) that by (metis distinct.simps(2) image_eqI list.simps(9) nth_mem set_map)
  have "\<forall>i < length ms. map_of d' (m_rid (ms ! i)) = Some (st (Suc i)) \<and>
      next_text (ms ! i) (sus' ! i) (res' ! i) (st (Suc i)) = out (Suc i)"
    using Cons.prems(4) l d' ne by (auto dest: spec [of _ "Suc _"])
  then obtain d1 where d1: "send_texts ms sus' res' d' = Inr (map (fst \<circ> (\<lambda>i. out (Suc i))) [0..<length ms], d1)"
    "\<forall>i < length ms. map_of d1 (m_rid (ms ! i)) = snd (out (Suc i))" "\<forall>k. k \<notin> m_rid ` set ms \<longrightarrow> map_of d1 k = map_of d' k"
    using Cons.IH [of sus' res' d' "\<lambda>i. st (Suc i)" "\<lambda>i. out (Suc i)"] Cons.prems(1) l by auto
  have u: "map (fst \<circ> out) [0..<length (m # ms)] = fst (out 0) # map (fst \<circ> (\<lambda>i. out (Suc i))) [0..<length ms]"
    by (simp add: upt_conv_Cons map_Suc_upt [symmetric] del: upt_Suc)
  have "send_texts (m # ms) sus res d = Inr (map (fst \<circ> out) [0..<length (m # ms)], d1)"
    using h d1(1) l unfolding u by (cases "out 0") (simp add: d'_def)
  moreover have "m_rid m \<notin> m_rid ` set ms" using Cons.prems(1) by simp
  ultimately show ?case using d1(2,3) d' by (intro exI [of _ d1]) (auto simp: nth_Cons split: nat.splits)
qed simp

text \<open>
  C33. A batch is handled as its requests alone: when the members of a batch are different requests and the
  dictionary has room, every request gets the text and the next state that it would get on its own, however
  their settings are grouped for batch decoding, and the states of all other requests stay as they are.
\<close>

theorem detok_batch_independent:
  assumes ms: "distinct (map m_rid ms)" "length d + length ms \<le> de_capacity E"
    and dec: "de_disable_batch_decode E \<or> batch_elementwise E"
    and one: "\<forall>i < length ms. detok_one E (ms ! i) (map_of d (m_rid (ms ! i))) = Inr (out i)"
  shows "\<exists>d1. handle_batch_token_id_out E ms d = Inr (map (fst \<circ> out) [0..<length ms], d1) \<and>
    (\<forall>i < length ms. map_of d1 (m_rid (ms ! i)) = snd (out i)) \<and>
    (\<forall>k. k \<notin> m_rid ` set ms \<longrightarrow> map_of d1 k = map_of d k)"
proof (cases "ms = []")
  case True
  then show ?thesis by (simp add: handle_batch_token_id_out_def)
next
  case False
  let ?s = "\<lambda>m. status_with m (map_of d (m_rid m))" and ?D = "\<lambda>m. de_decode E (m_skip_special m) (m_spaces m)"
  let ?g = "\<lambda>m. case ids_of E m (map_of d (m_rid m)) of Inr x \<Rightarrow> x | Inl e \<Rightarrow> ([], [])"
  have ok: "ids_of E m (map_of d (m_rid m)) = Inr (?g m)" if "m \<in> set ms" for m
    using one that unfolding in_set_conv_nth by (auto simp: detok_one_def ids_of_def Let_def py_bind_eq_Inr)
  obtain d1 where d1: "open_statuses E ms d = Inr (map ?g ms, d1)" "\<forall>m \<in> set ms. map_of d1 (m_rid m) = Some (?s m)"
    "\<forall>k. k \<notin> m_rid ` set ms \<longrightarrow> map_of d1 k = map_of d k"
    using open_statuses_eq [OF ms, of ?g] ok by blast
  have all: "decode_texts E (map (\<lambda>m. (m_skip_special m, m_spaces m)) ms) (map f ms) = Inr (map (\<lambda>m. ?D m (f m)) ms)" for f
  proof -
    have z: "zip (map f ms) (map (\<lambda>m. (m_skip_special m, m_spaces m)) ms) = map (\<lambda>m. (f m, m_skip_special m, m_spaces m)) ms"
      by (induction ms) simp_all
    show ?thesis using grouped_decode_eq [of E "map (\<lambda>m. (f m, m_skip_special m, m_spaces m)) ms"] dec False
      by (auto simp: decode_texts_def z comp_def)
  qed
  have "next_text (ms ! i) (?D (ms ! i) (snd (?g (ms ! i)))) (?D (ms ! i) (fst (?g (ms ! i)))) (?s (ms ! i)) = out i"
    if "i < length ms" for i
    using one ok [of "ms ! i"] that by (auto simp: detok_one_def ids_of_def Let_def split: prod.splits sum.splits)
  then have "\<exists>d2. send_texts ms (map (\<lambda>m. ?D m (snd (?g m))) ms) (map (\<lambda>m. ?D m (fst (?g m))) ms) d1 =
      Inr (map (fst \<circ> out) [0..<length ms], d2) \<and> (\<forall>i < length ms. map_of d2 (m_rid (ms ! i)) = snd (out i)) \<and>
      (\<forall>k. k \<notin> m_rid ` set ms \<longrightarrow> map_of d2 k = map_of d1 k)"
    using d1(2) by (intro send_texts_eq [OF ms(1), where st = "\<lambda>i. ?s (ms ! i)"]) auto
  moreover have "handle_batch_token_id_out E ms d =
      send_texts ms (map (\<lambda>m. ?D m (snd (?g m))) ms) (map (\<lambda>m. ?D m (fst (?g m))) ms) d1"
    using False d1(1) all [of "\<lambda>m. snd (?g m)"] all [of "\<lambda>m. fst (?g m)"]
    by (simp add: handle_batch_token_id_out_def decode_batch_token_id_output_def Let_def comp_def)
  ultimately show ?thesis using d1(3) by simp
qed

text \<open>
  C38. Text with CJK characters can be sent twice. When a chunk ends inside a character right after a CJK
  character, the text up to that character is sent; when the next chunk again ends inside a character, after
  one that is neither CJK nor a space, nothing is printable and the sent offset falls back, so that the chunk
  that completes the text sends the CJK character again.
\<close>

theorem cjk_text_sent_twice:
  assumes D: "D = de_decode E sk sp" "D P = p"
    and t1: "D (P @ a) = p @ [c, FFFD]" "is_chinese_char c"
    and t2: "D (P @ a @ b) = p @ [c, x, FFFD]" "\<not> is_chinese_char x" "x \<noteq> 32"
    and t3: "D (P @ a @ b @ b') = p @ [c, x, y]" "y \<noteq> FFFD"
    and m: "\<forall>m \<in> set [m1, m2, m3]. m_finished m = None \<and> m_skip_special m = sk \<and> m_spaces m = sp"
      "m_decode_ids m1 = P @ a" "m_read_offset m1 = int (length P)" "m_decoded_text m1 = []" "m_decode_ids m2 = b" "m_decode_ids m3 = b'"
  shows "\<exists>s. detok_seq E [m1, m2, m3] None = Inr ([[c], [], [c, x, y]], Some s) \<and> ds_decoded_text s = [c, x, y]"
proof -
  have c: "c \<noteq> 32" "c \<noteq> FFFD" using t1(2) by (auto simp: is_chinese_char_def FFFD_def)
  have f: "find_printable_text [c, FFFD] = [c]" "find_printable_text [c, x, FFFD] = []"
    using t1(2) t2(2,3) c by (simp_all add: find_printable_text_def)
  let ?s1 = "\<lparr>ds_decoded_text = [], ds_decode_ids = P @ a, ds_surr_offset = 0, ds_read_offset = int (length P), ds_sent_offset = 1\<rparr>"
  let ?s2 = "?s1\<lparr>ds_decode_ids := P @ a @ b, ds_sent_offset := 0\<rparr>"
  have "detok_one E m1 None = Inr ([c], Some ?s1)"
    using m D t1 f(1) by (simp add: detok_one_def status_with_def Let_def read_surr_ids_def trim_ids_def next_text_def trim_text_def slice_simps)
  moreover have "detok_one E m2 (Some ?s1) = Inr ([], Some ?s2)"
    using m D t2(1) f(2) by (simp add: detok_one_def status_with_def Let_def read_surr_ids_def trim_ids_def next_text_def trim_text_def slice_simps)
  moreover have "\<exists>s. detok_one E m3 (Some ?s2) = Inr ([c, x, y], Some s) \<and> ds_decoded_text s = [c, x, y]"
    using m D t3 by (simp add: detok_one_def status_with_def Let_def read_surr_ids_def trim_ids_def next_text_def trim_text_def slice_simps)
  ultimately show ?thesis by auto
qed

section \<open>Witnesses\<close>

definition demo_env :: "(int list \<Rightarrow> text_str) \<Rightarrow> detok_env" where
  "demo_env D = \<lparr>de_decode = (\<lambda>sk sp. D), de_batch_decode = (\<lambda>sk sp. map D), de_disable_batch_decode = False, de_gpt_oss = False,
     de_capacity = 8\<rparr>"

text \<open>
  A tokenizer of byte pieces that drops a leading space: 8 is a word with its space, 0 a special token that is
  skipped, 1 and 9 are the two bytes of a character and 2 is a CJK character.
\<close>

definition demo_bytes :: "int \<Rightarrow> nat list" where
  "demo_bytes t = (if t = 8 then [32, 98] else if t = 0 then [] else if t = 1 then [0xC7] else if t = 9 then [0xB4]
     else if t = 2 then [0xE4, 0xB8, 0x80] else [97])"

abbreviation demo_decode :: "int list \<Rightarrow> text_str" where
  "demo_decode \<equiv> piece_text utf8_lossy True demo_bytes"

lemmas demo_decode_simps = piece_text_def lead_strip_def demo_bytes_def utf8_char_def utf8_lead_def numeral_2_eq_2

lemma demo_no_cjk: "set ids \<subseteq> {0, 3, 4, 5, 6, 7, 8} \<Longrightarrow> no_cjk demo_decode ids"
proof -
  have "set (utf8_lossy (concat (map demo_bytes xs))) \<subseteq> {32, 97, 98}" if "set xs \<subseteq> {0, 3, 4, 5, 6, 7, 8}" for xs
    using that by (induction xs) (auto simp: demo_bytes_def utf8_char_def)
  then show "set ids \<subseteq> {0, 3, 4, 5, 6, 7, 8} \<Longrightarrow> no_cjk demo_decode ids"
    by (auto simp: no_cjk_def piece_text_def lead_strip_def is_chinese_char_def dest!: set_mono_sublist list.set_sel(2) split: if_splits) force+
qed

theorem detokenized_text_witness:
  "\<exists>outs. detok_seq (demo_env demo_decode) (map (chunk_msg 3 False True True) demo_chunks) None = Inr (outs, None) \<and>
    concat outs = [32, 98] \<and> demo_decode [8, 0] = [98]"
proof -
  let ?E = "demo_env demo_decode"
  have "new_req (demo_sreq [])" "sq_finished_output demo_final"
    "\<forall>m. sq_finished_reason demo_final \<noteq> Some (FINISH_MATCHED_STR m) \<and> sq_finished_reason demo_final \<noteq> Some (FINISHED_MATCHED_REGEX m)"
    "demo_decode = de_decode ?E True True"
    by (simp_all add: new_req_def demo_sreq_def demo_final_def demo_env_def)
  note run = this
  have ids: "surrounding demo_final = [3, 4, 5, 6, 7]" "output_ids_through_stop demo_final = [8, 0]"
    by (simp_all add: surrounding_def demo_final_def demo_sreq_def INIT_INCREMENTAL_DETOKENIZATION_OFFSET_def py_from_def py_bound_def
        output_ids_through_stop_def py_upto_def)
  have kept: "kept_ids ?E (chunk_msg 3 False True True (last demo_chunks)) [8, 0] = [8, 0]"
    by (simp add: kept_ids_def demo_chunks_def)
  have t: "demo_decode [3, 4, 5, 6, 7] = [97, 97, 97, 97, 97]" "demo_decode [3, 4, 5, 6, 7, 8, 0] = [97, 97, 97, 97, 97, 32, 98]"
    "demo_decode [8, 0] = [98]"
    by (simp_all add: demo_decode_simps)
  have "complete (demo_decode (surrounding demo_final))" "no_cjk demo_decode (surrounding demo_final @ output_ids_through_stop demo_final)"
    unfolding ids t(1) by (simp add: complete_def FFFD_def, intro demo_no_cjk, simp)
  then show ?thesis using detokenized_text [OF demo_serving run refl _ _, of 3 False] unfolding ids kept by (simp add: t)
qed

definition demo_msg :: "int \<Rightarrow> bool \<Rightarrow> int list \<Rightarrow> tok_msg" where
  "demo_msg rid sk ids = \<lparr>m_rid = rid, m_decoded_text = [], m_decode_ids = ids, m_read_offset = 1, m_finished = None,
     m_no_stop_trim = False, m_skip_special = sk, m_spaces = True\<rparr>"

theorem detok_batch_independent_witness:
  "\<exists>d1. handle_batch_token_id_out (demo_env demo_decode) [demo_msg 1 True [5, 8], demo_msg 2 False [5, 7, 7]] [] = Inr ([[32, 98], [97, 97]], d1)"
proof -
  let ?E = "demo_env demo_decode" and ?ms = "[demo_msg 1 True [5, 8], demo_msg 2 False [5, 7, 7]]"
  have one: "\<exists>s. detok_one ?E (demo_msg 1 True [5, 8]) None = Inr ([32, 98], s)" "\<exists>s. detok_one ?E (demo_msg 2 False [5, 7, 7]) None = Inr ([97, 97], s)"
    by (simp_all add: detok_one_def status_with_def demo_msg_def read_surr_ids_def trim_ids_def next_text_def trim_text_def slice_simps
        demo_env_def demo_decode_simps FFFD_def Let_def)
  then obtain s1 s2 where s: "detok_one ?E (demo_msg 1 True [5, 8]) None = Inr ([32, 98], s1)"
    "detok_one ?E (demo_msg 2 False [5, 7, 7]) None = Inr ([97, 97], s2)" by blast
  define out where "out i = (if i = (0 :: nat) then ([32 :: nat, 98], s1) else ([97, 97], s2))" for i
  have "\<forall>i < length ?ms. detok_one ?E (?ms ! i) (map_of [] (m_rid (?ms ! i))) = Inr (out i)"
    using s by (auto simp: out_def less_Suc_eq)
  moreover have "distinct (map m_rid ?ms)" "length [] + length ?ms \<le> de_capacity ?E" "batch_elementwise ?E"
    by (simp_all add: demo_msg_def demo_env_def batch_elementwise_def)
  ultimately show ?thesis using detok_batch_independent [of ?ms "[]" ?E out] by (auto simp: out_def upt_rec)
qed

theorem cjk_text_sent_twice_witness:
  "\<exists>s. detok_seq (demo_env demo_decode) [demo_msg 1 True [3, 2, 1], demo_msg 1 True [9, 1], demo_msg 1 True [9]] None =
     Inr ([[0x4E00], [], [0x4E00, 500, 500]], Some s) \<and> ds_decoded_text s = [0x4E00, 500, 500]"
  by (rule cjk_text_sent_twice [where D = demo_decode and P = "[3]" and p = "[97]" and a = "[2, 1]" and b = "[9, 1]" and b' = "[9]"
      and sk = True and sp = True])
    (simp_all add: demo_env_def demo_msg_def is_chinese_char_def FFFD_def demo_decode_simps)

end
