(* ===== verification/Eagle_Info.thy ===== *)
theory Eagle_Info
  imports Req_Output Dflash_Verify Spec_Tree_Verify
begin

text \<open>
  \<open>EagleVerifyInput.verify\<close> of \<open>srt/speculative/eagle_info.py\<close> from the verdict of the tree verification on: the
  accepted tokens are appended to the requests, the KV slots of the others are given back (in three ways,
  by page size and tree width), the table and the lengths advance, and the next draft input is built. The
  stop conditions are those of \<open>Req_Output\<close>, the kernels those of \<open>Spec_Kernels\<close>.
\<close>

section \<open>Requests and batches\<close>

record 'g ereq =
  er_req :: "'g sreq"
  er_kv_committed_len :: int
  er_kv_allocated_len :: int
  er_spec_verify_ct :: int
  er_spec_accepted_drafts :: int

text \<open>\<open>eb_kv\<close> is the content of the KV slots.\<close>

record ('g, 'al, 'v) ebatch =
  eb_reqs :: "'g ereq list"
  eb_seq_lens :: "int list"
  eb_seq_lens_cpu :: "int list"
  eb_out_cache_loc :: "int list"
  eb_req_pool_indices :: "int list"
  eb_req_to_token :: mem
  eb_pool_len :: int
  eb_allocator :: 'al
  eb_kv :: "int \<Rightarrow> 'v"

record 'h eagle_draft =
  ed_hidden_states :: "'h list"
  ed_verified_id :: "int list"
  ed_num_accepted_drafts :: "int list"
  ed_num_accepted_tokens :: "int list"
  ed_seq_lens :: "int list"
  ed_seq_lens_cpu :: "int list"
  ed_req_pool_indices :: "int list"

record 'h eagle_output =
  eo_draft_input :: "'h eagle_draft"
  eo_verified_id :: "int list"
  eo_num_accepted_drafts_per_req :: "int list"
  eo_accepted_indices :: "int list"

section \<open>Appending the accepted tokens\<close>

definition accept_grammar :: "'g grammar_ops \<Rightarrow> (string \<Rightarrow> string \<Rightarrow> bool) \<Rightarrow> int \<Rightarrow> 'g sreq \<Rightarrow> 'g sreq py" where
  "accept_grammar G re_search t r =
     (if req_finished r then Inr r
      else case sq_grammar r of None \<Rightarrow> Inr r
        | Some g \<Rightarrow> (case accept_token G g t of
              (Some e, _) \<Rightarrow> Inl e
            | (None, g') \<Rightarrow> check_finished G re_search 1 (r\<lparr>sq_grammar := Some g'\<rparr>)))"

text \<open>The loop over an accept row; \<open>k\<close> counts the tokens taken so far.\<close>

fun accept_row_loop ::
  "'g grammar_ops \<Rightarrow> (string \<Rightarrow> string \<Rightarrow> bool) \<Rightarrow> int option \<Rightarrow> int list \<Rightarrow> int list \<Rightarrow> nat \<Rightarrow> 'g sreq \<Rightarrow> (nat \<times> 'g sreq) py" where
  "accept_row_loop G re_search th predict [] k r = Inr (k, r)"
| "accept_row_loop G re_search th predict (idx # row) k r =
     (if idx = - 1 then Inr (k, r)
      else py_bind (py_index predict idx) (\<lambda>t.
        let r2 = reason_with th [t] (r\<lparr>sq_output_ids := sq_output_ids r @ [t]\<rparr>)
        in py_bind (check_finished G re_search 1 r2) (\<lambda>r3.
           py_bind (accept_grammar G re_search t r3) (\<lambda>r4.
           if req_finished r4 then Inr (Suc k, r4) else accept_row_loop G re_search th predict row (Suc k) r4))))"

text \<open>
  A request of the batch: whether it finished here, its accept row with everything after the finishing token
  set to -1, and the request. The statistics count the row as it was.
\<close>

definition eagle_verify_req ::
  "'g grammar_ops \<Rightarrow> (string \<Rightarrow> string \<Rightarrow> bool) \<Rightarrow> int option \<Rightarrow> int list \<Rightarrow> int list \<Rightarrow> 'g ereq \<Rightarrow> (bool \<times> int list \<times> 'g ereq) py" where
  "eagle_verify_req G re_search th predict row r =
     py_bind (accept_row_loop G re_search th predict row 0 (er_req r)) (\<lambda>(k, q).
     let fin = (0 < k \<and> req_finished q);
         row' = (if fin then take k row @ replicate (length row - k) (- 1) else row);
         drafts = int (length (filter (\<lambda>i. i \<noteq> - 1) row)) - 1
     in py_bind (update_spec_acceptance_histogram drafts q) (\<lambda>q'.
        Inr (fin, row', r\<lparr>er_req := q', er_kv_committed_len := er_kv_committed_len r + int k,
               er_kv_allocated_len := er_kv_committed_len r + int k, er_spec_verify_ct := er_spec_verify_ct r + 1,
               er_spec_accepted_drafts := er_spec_accepted_drafts r + drafts\<rparr>)))"

fun eagle_verify_reqs ::
  "'g grammar_ops \<Rightarrow> (string \<Rightarrow> string \<Rightarrow> bool) \<Rightarrow> int option \<Rightarrow> int list \<Rightarrow> int list list \<Rightarrow> 'g ereq list \<Rightarrow>
   (bool \<times> int list \<times> 'g ereq) list py" where
  "eagle_verify_reqs G re_search th predict (row # rows) (r # rs) =
     py_bind (eagle_verify_req G re_search th predict row r) (\<lambda>x.
     py_bind (eagle_verify_reqs G re_search th predict rows rs) (\<lambda>xs. Inr (x # xs)))"
| "eagle_verify_reqs G re_search th predict _ _ = Inr []"

section \<open>Slots\<close>

text \<open>\<open>tensor[mask]\<close>, and what is read from a buffer that a kernel filled (\<open>e\<close> where it was not).\<close>

definition masked_locs :: "int list \<Rightarrow> (int \<Rightarrow> bool) \<Rightarrow> int list" where
  "masked_locs locs evict = map (\<lambda>i. locs ! i) (filter (\<lambda>i. evict (int i)) [0..<length locs])"

definition read_buf :: "int \<Rightarrow> mem \<Rightarrow> nat \<Rightarrow> int list" where
  "read_buf e m n = map (\<lambda>i. case m (int i) of Some v \<Rightarrow> v | None \<Rightarrow> e) [0..<n]"

text \<open>The gather reads every source before a target is written.\<close>

definition move_kv_cache :: "int list \<Rightarrow> int list \<Rightarrow> (int \<Rightarrow> 'v) \<Rightarrow> (int \<Rightarrow> 'v)" where
  "move_kv_cache tgt src kv = foldl (\<lambda>k (t, s). k(t := kv s)) kv (zip tgt src)"

record ('al, 'v) slot_result =
  sl_allocator :: 'al
  sl_kv :: "int \<Rightarrow> 'v"
  sl_tgt :: "int list"

definition free_rejected ::
  "('al \<Rightarrow> int list \<Rightarrow> 'al) \<Rightarrow> nat list \<Rightarrow> int \<Rightarrow> int \<Rightarrow> nat \<Rightarrow> nat \<Rightarrow> int \<Rightarrow> int list \<Rightarrow> int list \<Rightarrow> ('g, 'al, 'v) ebatch \<Rightarrow>
   ('al, 'v) slot_result py" where
  "free_rejected free order u e n topk ps accept num B =
     (let out = eb_out_cache_loc B;
          evict = (\<lambda>a. a \<notin> set accept)
      in if ps = 1
         then Inr \<lparr>sl_allocator = free (eb_allocator B) (masked_locs out evict), sl_kv = eb_kv B, sl_tgt = []\<rparr>
         else if topk = 1
         then (let evict' = foldl (\<lambda>m bid. align_evict_mask_to_page_size (eb_seq_lens B) ps n (next_power_of_2 n) bid m) evict order
               in Inr \<lparr>sl_allocator = free (eb_allocator B) (masked_locs out evict'), sl_kv = eb_kv B, sl_tgt = []\<rparr>)
         else py_bind (get_src_tgt_cache_loc (eb_seq_lens B) out accept num (int n) ps) (\<lambda>(src, to_free).
              let bufs = foldl (\<lambda>T bid. get_target_cache_loc u num to_free out n (next_power_of_2 n)
                           (next_power_of_2 (length (eb_reqs B))) bid T)
                         \<lparr>tl_tgt = Map.empty, tl_free = Map.empty\<rparr> order;
                  tgt = read_buf e (tl_tgt bufs) (length src);
                  to_free_slots = read_buf e (tl_free bufs) (nat (sum_list to_free))
              in Inr \<lparr>sl_allocator = free (eb_allocator B) to_free_slots,
                      sl_kv = move_kv_cache tgt src (eb_kv B), sl_tgt = tgt\<rparr>))"


section \<open>Verification of a batch\<close>

definition leading :: "int list \<Rightarrow> int list" where
  "leading row = takeWhile (\<lambda>i. i \<noteq> - 1) row"

text \<open>
  The draft input of the requests at the indices \<open>sel\<close>, with the accepted nodes \<open>idx\<close> of these, and the
  draft input when none is left.
\<close>

definition draft_of :: "nat list \<Rightarrow> int list \<Rightarrow> int list \<Rightarrow> int list \<Rightarrow> 'h list \<Rightarrow> ('g, 'al, 'v) ebatch \<Rightarrow> 'h eagle_draft py" where
  "draft_of sel idx predict num hidden B =
     py_bind (gather hidden idx) (\<lambda>h. py_bind (gather predict idx) (\<lambda>v.
     Inr \<lparr>ed_hidden_states = h, ed_verified_id = v,
          ed_num_accepted_drafts = map (\<lambda>i. num ! i) sel, ed_num_accepted_tokens = map (\<lambda>i. num ! i + 1) sel,
          ed_seq_lens = map (\<lambda>i. eb_seq_lens B ! i) sel, ed_seq_lens_cpu = map (\<lambda>i. eb_seq_lens_cpu B ! i) sel,
          ed_req_pool_indices = map (\<lambda>i. eb_req_pool_indices B ! i) sel\<rparr>))"

definition idle_draft :: "'h eagle_draft" where
  "idle_draft = \<lparr>ed_hidden_states = [], ed_verified_id = [], ed_num_accepted_drafts = [], ed_num_accepted_tokens = [],
     ed_seq_lens = [], ed_seq_lens_cpu = [], ed_req_pool_indices = []\<rparr>"

text \<open>
  The slots of the tokens of the unfinished requests: of their nodes, or packed out of the target slots by
  \<open>filter_finished_cache_loc_kernel\<close>.
\<close>

definition filter_finished ::
  "nat list \<Rightarrow> int \<Rightarrow> int \<Rightarrow> nat \<Rightarrow> int list \<Rightarrow> int list \<Rightarrow> nat list \<Rightarrow> ('g, 'al, 'v) ebatch \<Rightarrow> ('g, 'al, 'v) ebatch py" where
  "filter_finished order u e n num tgt unfinished B =
     py_bind (create_num_accepted_drafts_filter num (map int unfinished) (eb_seq_lens B)) (\<lambda>(flt, seq).
     let m = launch (filter_finished_cache_loc_kernel u (tl_load tgt) num flt
               (next_power_of_2 (length (eb_reqs B))) (next_power_of_2 n)) order Map.empty;
         size = int (length unfinished) + sum_list (map (\<lambda>i. num ! i) unfinished)
     in Inr (B\<lparr>eb_out_cache_loc := read_buf e m (nat size), eb_seq_lens := seq,
               eb_seq_lens_cpu := map2 (\<lambda>s a. s + (a + 1)) (eb_seq_lens_cpu B) num\<rparr>))"

text \<open>The accepted nodes go to the table, and the lengths advance.\<close>

definition advance ::
  "nat list \<Rightarrow> int list \<Rightarrow> int list \<Rightarrow> bool \<Rightarrow> ('g, 'al, 'v) ebatch \<Rightarrow> ('g, 'al, 'v) ebatch" where
  "advance order num kept small B =
     (let seq' = map2 (\<lambda>s a. s + a + 1) (eb_seq_lens B) num
      in B\<lparr>eb_req_to_token := (if small then assign_req_to_token_pool_func (eb_req_pool_indices B) (eb_seq_lens B) seq' kept
                                 (eb_pool_len B) (length (eb_reqs B)) order (eb_req_to_token B) else eb_req_to_token B),
           eb_seq_lens := seq', eb_seq_lens_cpu := map2 (\<lambda>s a. s + (a + 1)) (eb_seq_lens_cpu B) num\<rparr>)"

text \<open>
  The output and the batch once the slots are settled (\<open>sl\<close>): \<open>unfinished\<close> are the requests that go on and
  \<open>ua\<close> their accepted nodes.
\<close>

definition construct_output ::
  "nat list \<Rightarrow> int \<Rightarrow> int \<Rightarrow> nat \<Rightarrow> bool \<Rightarrow> int list \<Rightarrow> 'h list \<Rightarrow> bool \<Rightarrow> nat list \<Rightarrow> int list \<Rightarrow> int list \<Rightarrow> int list \<Rightarrow> int list \<Rightarrow> int list \<Rightarrow>
   ('g, 'al, 'v) ebatch \<Rightarrow> ('h eagle_output \<times> ('g, 'al, 'v) ebatch) py" where
  "construct_output order u e n small predict hidden has_finished unfinished ua num accept verified tgt B =
     (let result = (\<lambda>d. \<lparr>eo_draft_input = d, eo_verified_id = verified, eo_num_accepted_drafts_per_req = num,
                         eo_accepted_indices = accept\<rparr>)
      in py_bind (if small then gather (eb_out_cache_loc B) accept else Inr tgt) (\<lambda>kept.
         if \<not> has_finished
         then (let B2 = (advance order num kept small B)\<lparr>eb_out_cache_loc := kept\<rparr>
               in py_bind (gather hidden accept) (\<lambda>h.
                  Inr (result \<lparr>ed_hidden_states = h, ed_verified_id = verified, ed_num_accepted_drafts = num,
                         ed_num_accepted_tokens = map (\<lambda>a. a + 1) num, ed_seq_lens = eb_seq_lens B2,
                         ed_seq_lens_cpu = eb_seq_lens_cpu B2, ed_req_pool_indices = eb_req_pool_indices B2\<rparr>, B2)))
         else (let B2 = (if small then advance order num kept small B else B)
               in if unfinished = [] then Inr (result idle_draft, B2)
                  else py_bind (if small then py_bind (gather (eb_out_cache_loc B) ua) (\<lambda>o1. Inr (B2\<lparr>eb_out_cache_loc := o1\<rparr>))
                                else filter_finished order u e n num tgt unfinished B2) (\<lambda>B3.
                       py_bind (draft_of unfinished ua predict num hidden B3) (\<lambda>d. Inr (result d, B3))))))"

text \<open>
  The verdict is \<open>predict\<close>, the accept rows and the accepted numbers; \<open>order\<close> is the order of the program
  instances of the kernels, \<open>u\<close> what an element reads as that the mask of a \<open>tl.load\<close> leaves out, and \<open>e\<close> what \<open>torch.empty\<close> holds.
\<close>

definition eagle_verify ::
  "('al \<Rightarrow> int list \<Rightarrow> 'al) \<Rightarrow> nat list \<Rightarrow> int \<Rightarrow> int \<Rightarrow> 'g grammar_ops \<Rightarrow> (string \<Rightarrow> string \<Rightarrow> bool) \<Rightarrow> int option \<Rightarrow> nat \<Rightarrow> nat \<Rightarrow> int \<Rightarrow>
   int list \<Rightarrow> int list list \<Rightarrow> int list \<Rightarrow> 'h list \<Rightarrow> ('g, 'al, 'v) ebatch \<Rightarrow> ('h eagle_output \<times> ('g, 'al, 'v) ebatch) py" where
  "eagle_verify free order u e G re_search th n topk ps predict accept_rows num0 hidden B =
     py_bind (eagle_verify_reqs G re_search th predict accept_rows (eb_reqs B)) (\<lambda>res.
     let has_finished = list_ex (\<lambda>(fin, row, r). fin) res;
         rows = map (\<lambda>(fin, row, r). row) res;
         rs = map (\<lambda>(fin, row, r). r) res;
         unfinished = filter (\<lambda>i. \<not> req_finished (er_req (rs ! i))) [0..<length rs];
         ua = concat (map (\<lambda>i. leading (rows ! i)) unfinished);
         num = (if has_finished then map (\<lambda>row. int (length (filter (\<lambda>i. i \<noteq> - 1) row)) - 1) rows else num0);
         accept = filter (\<lambda>i. i \<noteq> - 1) (concat rows)
     in py_bind (gather predict accept) (\<lambda>verified.
        py_bind (free_rejected free order u e n topk ps accept num B) (\<lambda>sl.
        construct_output order u e n (ps = 1 \<or> topk = 1) predict hidden has_finished unfinished ua num accept verified (sl_tgt sl)
          (B\<lparr>eb_reqs := rs, eb_allocator := sl_allocator sl, eb_kv := sl_kv sl\<rparr>))))"

end
