(* ===== verification/Eagle_Slots.thy ===== *)
theory Eagle_Slots
  imports Eagle_Info
begin

text \<open>
  The slots of an EAGLE verification step: what the three ways of giving back rejected slots free, what the
  table holds afterwards, and how the slots of the unfinished requests are packed. A buffer of segments that
  follow one another is written \<open>packed f L is\<close>.
\<close>

section \<open>Segments that follow one another\<close>

abbreviation packed :: "(nat \<Rightarrow> nat \<Rightarrow> 'a) \<Rightarrow> (nat \<Rightarrow> nat) \<Rightarrow> nat list \<Rightarrow> 'a list" where
  "packed f L is \<equiv> concat (map (\<lambda>i. map (f i) [0..<L i]) is)"

lemma length_packed: "length (packed f L is) = sum_list (map L is)"
  by (simp add: length_concat comp_def)

lemma sum_prefix_less:
  fixes k :: "nat \<Rightarrow> nat"
  assumes "i < bs" "j < k i"
  shows "sum_list (map k [0..<i]) + j < sum_list (map k [0..<bs])"
proof -
  have "sum_list (map k [0..<Suc i]) \<le> sum_list (map k [0..<bs])" using upt_add_eq_append [of 0 "Suc i" "bs - Suc i"] assms(1) by simp
  then show ?thesis using assms(2) by simp
qed

lemma packed_nth:
  assumes "i < bs" "j < L i"
  shows "packed f L [0..<bs] ! (sum_list (map L [0..<i]) + j) = f i j"
  using assms
proof (induction bs)
  case (Suc bs)
  show ?case
  proof (cases "i = bs")
    case True
    then show ?thesis using Suc.prems by (simp add: nth_append length_packed)
  next
    case False
    then have i: "i < bs" using Suc.prems by simp
    have "sum_list (map L [0..<i]) + j < length (packed f L [0..<bs])"
      unfolding length_packed using sum_prefix_less [where k = L, OF i Suc.prems(2)] .
    then show ?thesis using Suc.IH [OF i Suc.prems(2)] by (simp add: nth_append)
  qed
qed simp

lemma read_buf_add: "read_buf u m (a + b) = read_buf u m a @ map (\<lambda>j. case m (int a + int j) of Some v \<Rightarrow> v | None \<Rightarrow> u) [0..<b]"
proof -
  have "[0..<a + b] = [0..<a] @ map (\<lambda>j. a + j) [0..<b]"
    using upt_add_eq_append [of 0 a b] map_add_upt [of a b] by (simp add: add.commute)
  then show ?thesis by (simp add: read_buf_def comp_def)
qed

lemma read_buf_packed:
  assumes "\<And>i j. i < bs \<Longrightarrow> j < L i \<Longrightarrow> m (int (sum_list (map L [0..<i])) + int j) = Some (f i j)"
  shows "read_buf u m (sum_list (map L [0..<bs])) = packed f L [0..<bs]"
  using assms
proof (induction bs)
  case 0
  show ?case by (simp add: read_buf_def)
next
  case (Suc bs)
  have "map (\<lambda>j. case m (int (sum_list (map L [0..<bs])) + int j) of Some v \<Rightarrow> v | None \<Rightarrow> u) [0..<L bs] = map (f bs) [0..<L bs]"
    using Suc.prems [of bs] by simp
  then show ?case using Suc by (simp add: read_buf_add)
qed

lemma sum_list_int: "sum_list (map (\<lambda>i. int (L i)) is) = int (sum_list (map L is))"
  by (induction "is") simp_all

lemma seg_start_int: "k \<le> bs \<Longrightarrow> seg_start (map (\<lambda>i. int (L i)) [0..<bs]) k = int (sum_list (map L [0..<k]))"
  by (simp add: seg_start_def take_map sum_list_int)

lemma distinct_packed:
  assumes "\<And>i j i' j'. i < bs \<Longrightarrow> j < L i \<Longrightarrow> i' < bs \<Longrightarrow> j' < L i' \<Longrightarrow> f i j = f i' j' \<Longrightarrow> i = i' \<and> j = j'"
  shows "distinct (packed f L [0..<bs])"
  using assms
proof (induction bs)
  case (Suc bs)
  have "distinct (packed f L [0..<bs])" by (rule Suc.IH) (use Suc.prems less_SucI in blast)
  moreover have "inj_on (f bs) {0..<L bs}" using Suc.prems [of bs _ bs] by (auto intro!: inj_onI)
  moreover have "f bs j \<noteq> f i j'" if "j < L bs" "i < bs" "j' < L i" for i j j' using Suc.prems [of bs j i j'] that by auto
  ultimately show ?case by (auto simp: distinct_map)
qed simp

section \<open>The batch before verification\<close>

text \<open>
  What the tree verification and \<open>prepare_for_verify\<close> leave: the accepted path of a request is a list of
  different nodes of its row of \<open>n\<close> verify tokens (a chain when the tree has one branch), every verify token
  has a slot of its own, and with wide trees on large pages the table already holds these slots.
\<close>

definition eagle_input :: "nat \<Rightarrow> nat \<Rightarrow> int \<Rightarrow> (nat \<Rightarrow> nat list) \<Rightarrow> nat list \<Rightarrow> ('g, 'al, 'v) ebatch \<Rightarrow> bool" where
  "eagle_input n topk ps path order B \<longleftrightarrow>
     (let bs = length (eb_reqs B); seq = eb_seq_lens B; out = eb_out_cache_loc B; rpi = eb_req_pool_indices B; pl = eb_pool_len B
      in length seq = bs \<and> length (eb_seq_lens_cpu B) = bs \<and> length rpi = bs \<and> length out = bs * n \<and>
         distinct out \<and> distinct rpi \<and> 0 < ps \<and> distinct order \<and> set order = {0..<bs} \<and>
         (\<forall>i < bs. 0 \<le> seq ! i \<and> seq ! i + int n \<le> pl \<and> distinct (0 # path i) \<and> (\<forall>x \<in> set (0 # path i). x < n) \<and>
            (topk = 1 \<longrightarrow> path i = [1..<Suc (length (path i))]) \<and>
            (ps \<noteq> 1 \<and> topk \<noteq> 1 \<longrightarrow> (\<forall>t < n. eb_req_to_token B (rpi ! i * pl + (seq ! i + int t)) = Some (out ! (i * n + t))))))"

lemma eagle_inputD:
  assumes "eagle_input n topk ps path order B"
  defines "bs \<equiv> length (eb_reqs B)"
  shows "length (eb_seq_lens B) = bs" "length (eb_seq_lens_cpu B) = bs" "length (eb_req_pool_indices B) = bs"
    "length (eb_out_cache_loc B) = bs * n" "distinct (eb_out_cache_loc B)" "distinct (eb_req_pool_indices B)"
    "0 < ps" "distinct order" "set order = {0..<bs}"
    "i < bs \<Longrightarrow> 0 \<le> eb_seq_lens B ! i" "i < bs \<Longrightarrow> eb_seq_lens B ! i + int n \<le> eb_pool_len B"
    "i < bs \<Longrightarrow> distinct (0 # path i)" "i < bs \<Longrightarrow> x \<in> set (0 # path i) \<Longrightarrow> x < n"
    "topk = 1 \<Longrightarrow> i < bs \<Longrightarrow> path i = [1..<Suc (length (path i))]"
    "ps \<noteq> 1 \<Longrightarrow> topk \<noteq> 1 \<Longrightarrow> i < bs \<Longrightarrow> t < n \<Longrightarrow>
      eb_req_to_token B (eb_req_pool_indices B ! i * eb_pool_len B + (eb_seq_lens B ! i + int t)) = Some (eb_out_cache_loc B ! (i * n + t))"
    "i < bs \<Longrightarrow> Suc (length (path i)) \<le> n" "i < bs \<Longrightarrow> 0 < n"
proof -
  note a = assms(1) [unfolded eagle_input_def Let_def]
  show "length (eb_seq_lens B) = bs" "length (eb_seq_lens_cpu B) = bs" "length (eb_req_pool_indices B) = bs"
    "length (eb_out_cache_loc B) = bs * n" "distinct (eb_out_cache_loc B)" "distinct (eb_req_pool_indices B)"
    "0 < ps" "distinct order" "set order = {0..<bs}"
    using a unfolding bs_def by blast+
  show "i < bs \<Longrightarrow> 0 \<le> eb_seq_lens B ! i" "i < bs \<Longrightarrow> eb_seq_lens B ! i + int n \<le> eb_pool_len B"
    and d: "i < bs \<Longrightarrow> distinct (0 # path i)" and s: "\<And>x. i < bs \<Longrightarrow> x \<in> set (0 # path i) \<Longrightarrow> x < n"
    using a unfolding bs_def by blast+
  show "topk = 1 \<Longrightarrow> i < bs \<Longrightarrow> path i = [1..<Suc (length (path i))]" using a unfolding bs_def by blast
  show "ps \<noteq> 1 \<Longrightarrow> topk \<noteq> 1 \<Longrightarrow> i < bs \<Longrightarrow> t < n \<Longrightarrow>
      eb_req_to_token B (eb_req_pool_indices B ! i * eb_pool_len B + (eb_seq_lens B ! i + int t)) = Some (eb_out_cache_loc B ! (i * n + t))"
    using a unfolding bs_def by blast
  show "Suc (length (path i)) \<le> n" if "i < bs"
  proof -
    have "set (0 # path i) \<subseteq> {0..<n}" using s [OF that] by auto
    then have "card (set (0 # path i)) \<le> card {0..<n}" by (rule card_mono [rotated]) simp
    then show ?thesis using distinct_card [OF d [OF that]] by simp
  qed
  then show "i < bs \<Longrightarrow> 0 < n" by fastforce
qed

text \<open>How many tokens each request keeps, and which nodes.\<close>

definition kept_ok :: "nat \<Rightarrow> (nat \<Rightarrow> nat list) \<Rightarrow> (nat \<Rightarrow> nat) \<Rightarrow> bool" where
  "kept_ok bs path k \<longleftrightarrow> (\<forall>i < bs. 1 \<le> k i \<and> k i \<le> Suc (length (path i)))"

definition node_of :: "(nat \<Rightarrow> nat list) \<Rightarrow> nat \<Rightarrow> nat \<Rightarrow> nat" where
  "node_of path i j = (0 # path i) ! j"

lemma kept_nodes: "k i \<le> Suc (length (path i)) \<Longrightarrow> take (k i) (0 # path i) = map (node_of path i) [0..<k i]"
  by (intro nth_equalityI) (auto simp: node_of_def simp del: take_Suc_Cons)

text \<open>Addresses of rows of \<open>n\<close> tokens.\<close>

lemma row_index_divmod: "t < n \<Longrightarrow> (i * n + t) div n = i" "t < n \<Longrightarrow> (i * n + t) mod n = (t :: nat)"
  by simp_all

lemma row_index_unique:
  assumes "t < n" "t' < n" "i * n + t = i' * n + (t' :: nat)"
  shows "i = i' \<and> t = t'"
  using row_index_divmod [OF assms(1), of i] row_index_divmod [OF assms(2), of i'] assms(3) by simp

lemma row_index_bound:
  assumes "i < bs" "t < n"
  shows "i * n + t < bs * (n :: nat)"
proof -
  have "Suc i * n \<le> bs * n" using assms(1) by (intro mult_le_mono1) simp
  then show ?thesis using assms(2) by simp
qed

text \<open>Which verify slots are given back.\<close>

definition rejected :: "int \<Rightarrow> int list \<Rightarrow> (nat \<Rightarrow> nat list) \<Rightarrow> (nat \<Rightarrow> nat) \<Rightarrow> nat \<Rightarrow> nat \<Rightarrow> bool" where
  "rejected ps seq path k i t \<longleftrightarrow>
     (if ps = 1 then t \<notin> set (take (k i) (0 # path i)) else (seq ! i + int (k i) - 1) div ps < (seq ! i + int t) div ps)"

definition freed_exactly :: "nat \<Rightarrow> nat \<Rightarrow> int list \<Rightarrow> (nat \<Rightarrow> nat \<Rightarrow> bool) \<Rightarrow> int list \<Rightarrow> bool" where
  "freed_exactly bs n out R F \<longleftrightarrow> distinct F \<and> set F = {out ! (i * n + t) | i t. i < bs \<and> t < n \<and> R i t}"

section \<open>Giving back the slots of rejected tokens\<close>

definition accept_of :: "nat \<Rightarrow> (nat \<Rightarrow> nat list) \<Rightarrow> (nat \<Rightarrow> nat) \<Rightarrow> nat list \<Rightarrow> int list" where
  "accept_of n path k is = map int (packed (\<lambda>i j. i * n + node_of path i j) k is)"

lemma node_of_less:
  assumes "eagle_input n topk ps path order B" "kept_ok (length (eb_reqs B)) path k" "i < length (eb_reqs B)" "j < k i"
  shows "node_of path i j < n" "j < n"
proof -
  have j: "j < length (0 # path i)" using assms(2-4) by (auto simp: kept_ok_def less_le_trans)
  then show "node_of path i j < n" unfolding node_of_def using eagle_inputD(13) [OF assms(1,3)] nth_mem by blast
  show "j < n" using j eagle_inputD(16) [OF assms(1,3)] by simp
qed

lemma node_of_inj:
  assumes "eagle_input n topk ps path order B" "kept_ok (length (eb_reqs B)) path k" "i < length (eb_reqs B)" "j < k i" "j' < k i"
    "node_of path i j = node_of path i j'"
  shows "j = j'"
proof -
  have "j < length (0 # path i)" "j' < length (0 # path i)" using assms(2-5) by (auto simp: kept_ok_def less_le_trans)
  then show ?thesis using assms(6) nth_eq_iff_index_eq [OF eagle_inputD(12) [OF assms(1,3)]] unfolding node_of_def by blast
qed

lemma accept_mem:
  assumes e: "eagle_input n topk ps path order B" "kept_ok (length (eb_reqs B)) path k" and i: "i < length (eb_reqs B)" "t < n"
  shows "int (i * n + t) \<in> set (accept_of n path k [0..<length (eb_reqs B)]) \<longleftrightarrow> t \<in> set (take (k i) (0 # path i))"
proof -
  have ki: "k i \<le> Suc (length (path i))" using e(2) i(1) by (simp add: kept_ok_def)
  have "int (i * n + t) \<in> set (accept_of n path k [0..<length (eb_reqs B)]) \<longleftrightarrow>
      (\<exists>i' j. i' < length (eb_reqs B) \<and> j < k i' \<and> i * n + t = i' * n + node_of path i' j)"
  proof -
    have "int (i * n + t) \<in> set (accept_of n path k [0..<length (eb_reqs B)]) \<longleftrightarrow>
        i * n + t \<in> set (packed (\<lambda>i j. i * n + node_of path i j) k [0..<length (eb_reqs B)])"
      unfolding accept_of_def set_map by (metis (no_types, lifting) image_iff of_nat_eq_iff)
    then show ?thesis by force
  qed
  also have "\<dots> \<longleftrightarrow> (\<exists>j < k i. t = node_of path i j)"
  proof
    assume "\<exists>i' j. i' < length (eb_reqs B) \<and> j < k i' \<and> i * n + t = i' * n + node_of path i' j"
    then obtain i' j where a: "i' < length (eb_reqs B)" "j < k i'" "i * n + t = i' * n + node_of path i' j" by blast
    show "\<exists>j < k i. t = node_of path i j" using row_index_unique [OF i(2) node_of_less(1) [OF e a(1,2)] a(3)] a(2) by blast
  qed (use i in blast)
  finally show ?thesis unfolding kept_nodes [of k i path, OF ki] by auto
qed

lemma masked_freed:
  assumes "length out = bs * n" "distinct out" "\<And>i t. i < bs \<Longrightarrow> t < n \<Longrightarrow> evict (int (i * n + t)) = R i t"
  shows "freed_exactly bs n out R (masked_locs out evict)"
proof -
  have "distinct (masked_locs out evict)"
    using assms(2) by (auto simp: masked_locs_def distinct_map inj_on_def nth_eq_iff_index_eq)
  moreover have "set (masked_locs out evict) = {out ! (i * n + t) | i t. i < bs \<and> t < n \<and> R i t}"
  proof (intro set_eqI iffI)
    fix s assume "s \<in> set (masked_locs out evict)"
    then obtain a where a: "a < bs * n" "evict (int a)" "s = out ! a" using assms(1) by (auto simp: masked_locs_def)
    then have n: "0 < n" by (cases n) auto
    then have d: "a div n < bs" "a mod n < n" "a = a div n * n + a mod n"
      using a(1) by (auto simp: less_mult_imp_div_less)
    then have "R (a div n) (a mod n)" using assms(3) [OF d(1,2)] a(2) by simp
    then show "s \<in> {out ! (i * n + t) | i t. i < bs \<and> t < n \<and> R i t}" using a(3) d by (intro CollectI exI [of _ "a div n"] exI [of _ "a mod n"]) simp
  next
    fix s assume "s \<in> {out ! (i * n + t) | i t. i < bs \<and> t < n \<and> R i t}"
    then obtain i t where a: "s = out ! (i * n + t)" "i < bs" "t < n" "R i t" by blast
    then show "s \<in> set (masked_locs out evict)" using row_index_bound [OF a(2,3)] assms(1,3) by (auto simp: masked_locs_def)
  qed
  ultimately show ?thesis by (simp add: freed_exactly_def)
qed

lemma align_all_rows:
  assumes ps: "0 < ps" and k: "\<And>i. i < bs \<Longrightarrow> 0 < k i \<and> k i \<le> n" and block: "n \<le> block"
    and rows: "\<And>i t. i < bs \<Longrightarrow> t < n \<Longrightarrow> evict (int (i * n + t)) = (k i \<le> t)"
    and xs: "distinct xs" "set xs \<subseteq> {0..<bs}" and it: "i < bs" "t < n"
  shows "foldl (\<lambda>m bid. align_evict_mask_to_page_size seq ps n block bid m) evict xs (int (i * n + t)) =
    (if i \<in> set xs then (seq ! i + int (k i) - 1) div ps < (seq ! i + int t) div ps else k i \<le> t)"
  using xs it
proof (induction xs arbitrary: i t rule: rev_induct)
  case Nil
  then show ?case using rows by simp
next
  case (snoc b xs)
  let ?m = "foldl (\<lambda>m bid. align_evict_mask_to_page_size seq ps n block bid m) evict xs"
  have b: "b < bs" "b \<notin> set xs" "distinct xs" "set xs \<subseteq> {0..<bs}" using snoc.prems by auto
  have row: "\<forall>t < n. ?m (int (b * n) + int t) = (k b \<le> t)" using snoc.IH [OF b(3,4,1)] b(2) by simp
  note al = align_evict_mask_correct [OF ps conjunct1 [OF k [OF b(1)]] conjunct2 [OF k [OF b(1)]] block row]
  show ?case
  proof (cases "i = b")
    case True
    then show ?thesis using conjunct1 [OF al] snoc.prems(4) by simp
  next
    case False
    have "int (i * n + t) < int (b * n) \<or> int (b * n + n) \<le> int (i * n + t)"
    proof (cases "i < b")
      case True
      then have "i * n + t < b * n" using snoc.prems(4) by (rule row_index_bound)
      then show ?thesis by (metis of_nat_less_iff)
    next
      case False
      then have "Suc b * n \<le> i * n" using \<open>i \<noteq> b\<close> by (intro mult_le_mono1) simp
      then have "b * n + n \<le> i * n + t" by simp
      then show ?thesis by (metis of_nat_le_iff)
    qed
    then have "align_evict_mask_to_page_size seq ps n block b ?m (int (i * n + t)) = ?m (int (i * n + t))"
      using conjunct2 [OF al] by blast
    then show ?thesis using snoc.IH [OF b(3,4) snoc.prems(3,4)] False by simp
  qed
qed

lemma move_kv_nth:
  assumes "distinct tgt" "length src = length tgt" "a < length tgt"
  shows "move_kv_cache tgt src kv (tgt ! a) = kv (src ! a)"
proof -
  have f: "foldl (\<lambda>k (t, s). k(t := kv s)) kv0 (zip ts ss) x = (case map_of (zip ts ss) x of None \<Rightarrow> kv0 x | Some s \<Rightarrow> kv s)"
    if "distinct ts" "length ss = length ts" for ts ss x and kv0 :: "int \<Rightarrow> 'a"
    using that(2,1)
  proof (induction ss ts arbitrary: kv0 rule: list_induct2)
    case (Cons s ss t ts)
    then show ?case by (auto split: option.splits dest!: map_of_SomeD dest: set_zip_leftD)
  qed simp
  have "map_of (zip tgt src) (tgt ! a) = Some (src ! a)" using assms by (simp add: map_of_zip_nth)
  then show ?thesis unfolding move_kv_cache_def using f [OF assms(1,2), of kv "tgt ! a"] by simp
qed

lemma move_kv_other: "x \<notin> set tgt \<Longrightarrow> move_kv_cache tgt src kv x = kv x"
proof -
  have "foldl (\<lambda>k (t, s). k(t := kv s)) kv0 (zip ts ss) x = kv0 x" if "x \<notin> set ts" for ts ss and kv0 :: "int \<Rightarrow> 'a"
    using that
  proof (induction ts arbitrary: ss kv0)
    case (Cons t ts)
    then show ?case by (cases ss) auto
  qed simp
  then show "x \<notin> set tgt \<Longrightarrow> move_kv_cache tgt src kv x = kv x" by (simp add: move_kv_cache_def)
qed

text \<open>The drafts accepted of each request, and what giving back slots comes to.\<close>

definition num_of :: "(nat \<Rightarrow> nat) \<Rightarrow> nat list \<Rightarrow> int list" where
  "num_of k is = map (\<lambda>i. int (k i) - 1) is"

definition slots_result ::
  "('al \<Rightarrow> int list \<Rightarrow> 'al) \<Rightarrow> nat \<Rightarrow> nat \<Rightarrow> int \<Rightarrow> (nat \<Rightarrow> nat list) \<Rightarrow> (nat \<Rightarrow> nat) \<Rightarrow> ('g, 'al, 'v) ebatch \<Rightarrow> ('al, 'v) slot_result \<Rightarrow> bool" where
  "slots_result free n topk ps path k B sl \<longleftrightarrow>
     (\<exists>F. sl_allocator sl = free (eb_allocator B) F \<and>
        freed_exactly (length (eb_reqs B)) n (eb_out_cache_loc B) (rejected ps (eb_seq_lens B) path k) F) \<and>
     (if ps = 1 \<or> topk = 1 then sl_kv sl = eb_kv B
      else sl_tgt sl = packed (\<lambda>i j. eb_out_cache_loc B ! (i * n + j)) k [0..<length (eb_reqs B)] \<and>
        (\<forall>i < length (eb_reqs B). \<forall>j < k i. sl_kv sl (eb_out_cache_loc B ! (i * n + j)) =
           eb_kv B (eb_out_cache_loc B ! (i * n + node_of path i j))) \<and>
        (\<forall>s. s \<notin> set (eb_out_cache_loc B) \<longrightarrow> sl_kv sl s = eb_kv B s))"

lemma free_rejected_small:
  assumes e: "eagle_input n topk ps path order B" and k: "kept_ok (length (eb_reqs B)) path k" and small: "ps = 1 \<or> topk = 1"
  shows "\<exists>sl. free_rejected free order 0 e n topk ps (accept_of n path k [0..<length (eb_reqs B)]) num B = Inr sl \<and>
    slots_result free n topk ps path k B sl"
proof -
  note d = eagle_inputD [OF e]
  let ?bs = "length (eb_reqs B)" and ?out = "eb_out_cache_loc B" and ?ev = "\<lambda>a. a \<notin> set (accept_of n path k [0..<length (eb_reqs B)])"
  have ev: "?ev (int (i * n + t)) = (t \<notin> set (take (k i) (0 # path i)))" if "i < ?bs" "t < n" for i t
    using accept_mem [OF e k that] by simp
  show ?thesis
  proof (cases "ps = 1")
    case True
    have "freed_exactly ?bs n ?out (rejected ps (eb_seq_lens B) path k) (masked_locs ?out ?ev)"
      using ev True by (intro masked_freed d(4,5)) (simp add: rejected_def)
    then show ?thesis using True by (auto simp: free_rejected_def slots_result_def Let_def)
  next
    case False
    then have tk: "topk = 1" using small by simp
    let ?m = "foldl (\<lambda>m bid. align_evict_mask_to_page_size (eb_seq_lens B) ps n (next_power_of_2 n) bid m) ?ev order"
    have kn: "0 < k i \<and> k i \<le> n" if "i < ?bs" for i using k that d(16) [OF that] by (fastforce simp: kept_ok_def)
    have row: "?ev (int (i * n + t)) = (k i \<le> t)" if i: "i < ?bs" "t < n" for i t
    proof -
      have le: "k i \<le> Suc (length (path i))" using k i(1) by (simp add: kept_ok_def)
      have "0 # path i = [0..<Suc (length (path i))]" using d(14) [OF tk i(1)] upt_conv_Cons [of 0 "Suc (length (path i))"] by simp
      then have "take (k i) (0 # path i) = [0..<k i]" using le by (simp add: take_upt del: upt_Suc take_Suc_Cons)
      then show ?thesis using ev [OF i] by (simp del: take_Suc_Cons) linarith
    qed
    have "?m (int (i * n + t)) = rejected ps (eb_seq_lens B) path k i t" if i: "i < ?bs" "t < n" for i t
      using align_all_rows [OF d(7) kn next_power_of_2_ge row d(8) _ i, of "eb_seq_lens B"] d(9) i(1) False by (simp add: rejected_def)
    then have "freed_exactly ?bs n ?out (rejected ps (eb_seq_lens B) path k) (masked_locs ?out ?m)"
      by (intro masked_freed d(4,5))
    then show ?thesis using False tk by (auto simp: free_rejected_def slots_result_def Let_def)
  qed
qed

lemma kept_pages_iff:
  assumes ps: "0 < ps" and t: "t < (n :: int)"
  shows "n - (s + n - min ((s + a + 1 + ps - 1) div ps * ps) (s + n)) \<le> t \<longleftrightarrow> (s + a) div ps < (s + t) div ps"
proof -
  have "s + a + 1 + ps - 1 = s + a + ps" by simp
  then have "(s + a + 1 + ps - 1) div ps = (s + a) div ps + 1" using ps div_add_self2 [of ps "s + a"] by (metis less_irrefl)
  moreover have "(s + a) div ps < (s + t) div ps \<longleftrightarrow> ((s + a) div ps + 1) * ps \<le> s + t"
    using le_div_iff [OF ps, of "(s + a) div ps + 1" "s + t"] by auto
  ultimately show ?thesis using t by (auto simp: min_def)
qed

lemma num_prefix: "i \<le> bs \<Longrightarrow> sum_list (take i (num_of k [0..<bs])) + int i = int (sum_list (map k [0..<i]))"
proof (induction i)
  case (Suc i)
  then have "sum_list (take (Suc i) (num_of k [0..<bs])) = sum_list (take i (num_of k [0..<bs])) + (int (k i) - 1)"
    by (simp add: num_of_def take_Suc_conv_app_nth)
  then show ?case using Suc by simp
qed simp

lemma gather_packed:
  assumes "\<And>i j. i \<in> set is \<Longrightarrow> j < L i \<Longrightarrow> g i j < length xs"
  shows "gather xs (map int (packed g L is)) = Inr (packed (\<lambda>i j. xs ! g i j) L is)"
proof -
  have "gather xs (map int (packed g L is)) = Inr (map (\<lambda>i. xs ! i) (packed g L is))"
    using assms by (intro gather_ok) auto
  then show ?thesis by (simp add: map_concat comp_def)
qed

lemma gather_nodes:
  assumes e: "eagle_input n topk ps path order B" "kept_ok (length (eb_reqs B)) path k"
    and xs: "length (eb_reqs B) * n \<le> length xs" "set is \<subseteq> {0..<length (eb_reqs B)}"
  shows "gather xs (accept_of n path k is) = Inr (packed (\<lambda>i j. xs ! (i * n + node_of path i j)) k is)"
  unfolding accept_of_def
proof (rule gather_packed)
  fix i j assume "i \<in> set is" "j < k i"
  then show "i * n + node_of path i j < length xs"
    using row_index_bound [of i "length (eb_reqs B)" "node_of path i j" n] node_of_less(1) [OF e] xs by fastforce
qed

text \<open>The buffers of the wide trees: the target slots, the freed ones, and which these are.\<close>

lemma large_bufs:
  assumes e: "eagle_input n topk ps path order B" and k: "kept_ok (length (eb_reqs B)) path k" and large: "ps \<noteq> 1"
  defines "bs \<equiv> length (eb_reqs B)" and "out \<equiv> eb_out_cache_loc B"
  defines "acc \<equiv> num_of k [0..<bs]"
  shows "\<exists>fr L bufs. get_src_tgt_cache_loc (eb_seq_lens B) out (accept_of n path k [0..<bs]) acc (int n) ps =
      Inr (packed (\<lambda>i j. out ! (i * n + node_of path i j)) k [0..<bs], fr) \<and>
    bufs = foldl (\<lambda>T bid. get_target_cache_loc 0 acc fr out n (next_power_of_2 n) (next_power_of_2 bs) bid T)
      \<lparr>tl_tgt = Map.empty, tl_free = Map.empty\<rparr> order \<and>
    read_buf e (tl_tgt bufs) (sum_list (map k [0..<bs])) = packed (\<lambda>i j. out ! (i * n + j)) k [0..<bs] \<and>
    read_buf e (tl_free bufs) (nat (sum_list fr)) = packed (\<lambda>i j. out ! (i * n + (n - L i + j))) L [0..<bs] \<and>
    (\<forall>i < bs. L i \<le> n \<and> (\<forall>t < n. n - L i \<le> t \<longleftrightarrow> rejected ps (eb_seq_lens B) path k i t))"
proof -
  note d = eagle_inputD [OF e, folded bs_def out_def]
  let ?seq = "eb_seq_lens B" and ?ai = "accept_of n path k [0..<bs]"
  have kn: "1 \<le> k i" "k i \<le> n" if "i < bs" for i using k that d(16) [OF that] by (fastforce simp: kept_ok_def bs_def)+
  define src where "src = packed (\<lambda>i j. out ! (i * n + node_of path i j)) k [0..<bs]"
  define fr where "fr = map2 (\<lambda>s a. s + int n - min ((s + a + 1 + ps - 1) div ps * ps) (s + int n)) ?seq acc"
  have st: "get_src_tgt_cache_loc ?seq out ?ai acc (int n) ps = Inr (src, fr)"
    using gather_nodes [OF e k, folded bs_def, of out "[0..<bs]"] d(4) by (simp add: get_src_tgt_cache_loc_def gather_def src_def fr_def Let_def)
  have la: "length acc = bs" "length fr = bs" using d(1) by (simp_all add: acc_def num_of_def fr_def)
  have "0 \<le> int (k i) - 1 \<and> int (k i) - 1 < int n" if "i < bs" for i using kn [OF that] by simp
  then have ab: "\<forall>a \<in> set acc. 0 \<le> a \<and> a < int n" by (auto simp: acc_def num_of_def)
  define bufs where "bufs = foldl (\<lambda>T bid. get_target_cache_loc 0 acc fr out n (next_power_of_2 n) (next_power_of_2 bs) bid T)
      \<lparr>tl_tgt = Map.empty, tl_free = Map.empty\<rparr> order"
  note tc = target_cache_loc_correct [OF d(1) la(1) d(7) ab next_power_of_2_ge next_power_of_2_ge d(8,9) st bufs_def]
  define L where "L = (\<lambda>i. nat (fr ! i))"
  have fn: "0 \<le> fr ! i" "fr ! i + int (k i) \<le> int n" if "i < bs" for i using tc [OF that] that by (auto simp: acc_def num_of_def)
  have frL: "fr = map (\<lambda>i. int (L i)) [0..<bs]" using la(2) fn(1) by (intro nth_equalityI) (auto simp: L_def)
  have Ln: "L i \<le> n" if "i < bs" for i using fn [OF that] by (simp add: L_def)
  have rej: "n - L i \<le> t \<longleftrightarrow> rejected ps ?seq path k i t" if i: "i < bs" "t < n" for i t
  proof -
    have "fr ! i = ?seq ! i + int n - min ((?seq ! i + (int (k i) - 1) + 1 + ps - 1) div ps * ps) (?seq ! i + int n)"
      using i(1) d(1) unfolding fr_def acc_def num_of_def by (simp add: algebra_simps)
    then have "int n - fr ! i \<le> int t \<longleftrightarrow> (?seq ! i + (int (k i) - 1)) div ps < (?seq ! i + int t) div ps"
      using kept_pages_iff [OF d(7), of "int t" "int n" "?seq ! i" "int (k i) - 1"] i(2) by simp
    moreover have "int n - fr ! i \<le> int t \<longleftrightarrow> n - L i \<le> t" using fn [OF i(1)] by (auto simp: L_def)
    ultimately show ?thesis using large(1) by (simp add: rejected_def add_diff_eq)
  qed
  have load: "tl_load out (int (i * n + t)) = Some (out ! (i * n + t))" if "i < bs" "t < n" for i t
    using row_index_bound [OF that] d(4) by (simp add: tl_load_def del: of_nat_add of_nat_mult)
  have tgt: "read_buf e (tl_tgt bufs) (sum_list (map k [0..<bs])) = packed (\<lambda>i j. out ! (i * n + j)) k [0..<bs]"
  proof (rule read_buf_packed)
    fix i j assume ij: "i < bs" "j < k i"
    have "tl_tgt bufs (sum_list (take i acc) + int i + int j) = tl_load out (int (i * n) + int j)"
      using tc [OF ij(1)] ij by (simp add: acc_def num_of_def)
    then show "tl_tgt bufs (int (sum_list (map k [0..<i])) + int j) = Some (out ! (i * n + j))"
      using num_prefix [of i bs k, folded acc_def] ij load [of i j] kn [OF ij(1)] by simp
  qed
  have sumfr: "nat (sum_list fr) = sum_list (map L [0..<bs])" unfolding frL sum_list_int by simp
  have frees: "read_buf e (tl_free bufs) (nat (sum_list fr)) = packed (\<lambda>i j. out ! (i * n + (n - L i + j))) L [0..<bs]"
    unfolding sumfr
  proof (rule read_buf_packed)
    fix i j assume ij: "i < bs" "j < L i"
    have "tl_free bufs (sum_list (take i fr) + int j) = tl_load out (int (i * n) + (int n - fr ! i) + int j)"
      using tc [OF ij(1)] ij by (simp add: L_def)
    moreover have "int (i * n) + (int n - fr ! i) + int j = int (i * n + (n - L i + j))" using fn [OF ij(1)] by (simp add: L_def)
    moreover have "sum_list (take i fr) = int (sum_list (map L [0..<i]))"
      using seg_start_int [of i bs L] ij(1) unfolding frL seg_start_def by simp
    ultimately show "tl_free bufs (int (sum_list (map L [0..<i])) + int j) = Some (out ! (i * n + (n - L i + j)))"
      using load [OF ij(1), of "n - L i + j"] Ln [OF ij(1)] ij(2) by (metis add_less_cancel_left le_add_diff_inverse2)
  qed
  show ?thesis using st tgt frees rej Ln bufs_def unfolding src_def by blast
qed

lemma free_rejected_large:
  assumes e: "eagle_input n topk ps path order B" and k: "kept_ok (length (eb_reqs B)) path k" and large: "ps \<noteq> 1" "topk \<noteq> 1"
  shows "\<exists>sl. free_rejected free order 0 e n topk ps (accept_of n path k [0..<length (eb_reqs B)]) (num_of k [0..<length (eb_reqs B)]) B = Inr sl \<and>
    slots_result free n topk ps path k B sl"
proof -
  note d = eagle_inputD [OF e]
  define bs where "bs = length (eb_reqs B)"
  define out where "out = eb_out_cache_loc B"
  let ?seq = "eb_seq_lens B" and ?acc = "num_of k [0..<bs]"
  let ?src = "packed (\<lambda>i j. out ! (i * n + node_of path i j)) k [0..<bs]" and ?tgt = "packed (\<lambda>i j. out ! (i * n + j)) k [0..<bs]"
  obtain fr L bufs where st: "get_src_tgt_cache_loc ?seq out (accept_of n path k [0..<bs]) ?acc (int n) ps = Inr (?src, fr)"
    and bufs: "bufs = foldl (\<lambda>T bid. get_target_cache_loc 0 ?acc fr out n (next_power_of_2 n) (next_power_of_2 bs) bid T)
      \<lparr>tl_tgt = Map.empty, tl_free = Map.empty\<rparr> order"
    and tgt: "read_buf e (tl_tgt bufs) (sum_list (map k [0..<bs])) = ?tgt"
    and frees: "read_buf e (tl_free bufs) (nat (sum_list fr)) = packed (\<lambda>i j. out ! (i * n + (n - L i + j))) L [0..<bs]"
    and Ln: "\<And>i. i < bs \<Longrightarrow> L i \<le> n" and rej: "\<And>i t. i < bs \<Longrightarrow> t < n \<Longrightarrow> n - L i \<le> t \<longleftrightarrow> rejected ps ?seq path k i t"
    using large_bufs [OF e k large(1), folded bs_def out_def] by blast
  let ?F = "packed (\<lambda>i j. out ! (i * n + (n - L i + j))) L [0..<bs]"
  let ?sl = "\<lparr>sl_allocator = free (eb_allocator B) ?F, sl_kv = move_kv_cache ?tgt ?src (eb_kv B), sl_tgt = ?tgt\<rparr>"
  have fr: "free_rejected free order 0 e n topk ps (accept_of n path k [0..<bs]) ?acc B = Inr ?sl"
    using large st tgt frees by (simp add: free_rejected_def Let_def bs_def out_def bufs length_packed)
  have inj: "i = i' \<and> t = t'" if "i < bs" "t < n" "i' < bs" "t' < n" "out ! (i * n + t) = out ! (i' * n + t')" for i t i' t'
    using that row_index_unique [OF that(2,4)] row_index_bound [OF that(1,2)] row_index_bound [OF that(3,4)]
      nth_eq_iff_index_eq [OF d(5), folded out_def bs_def] d(4) [folded out_def bs_def] by metis
  have kn: "j < n" if "i < bs" "j < k i" for i j using node_of_less(2) [OF e k, folded bs_def] that .
  have "distinct ?F"
  proof (rule distinct_packed)
    fix i j i' j' assume a: "i < bs" "j < L i" "i' < bs" "j' < L i'"
      "out ! (i * n + (n - L i + j)) = out ! (i' * n + (n - L i' + j'))"
    have "n - L i + j < n" "n - L i' + j' < n" using Ln [OF a(1)] Ln [OF a(3)] a(2,4) by linarith+
    then show "i = i' \<and> j = j'" using inj [OF a(1) _ a(3) _ a(5)] by auto
  qed
  moreover have "set ?F = {out ! (i * n + t) | i t. i < bs \<and> t < n \<and> rejected ps ?seq path k i t}"
  proof (intro set_eqI iffI)
    fix s assume "s \<in> set ?F"
    then obtain i j where a: "i < bs" "j < L i" "s = out ! (i * n + (n - L i + j))" by auto
    then have "n - L i + j < n" using Ln [OF a(1)] by linarith
    then show "s \<in> {out ! (i * n + t) | i t. i < bs \<and> t < n \<and> rejected ps ?seq path k i t}" using a rej [OF a(1)] by fastforce
  next
    fix s assume "s \<in> {out ! (i * n + t) | i t. i < bs \<and> t < n \<and> rejected ps ?seq path k i t}"
    then obtain i t where a: "s = out ! (i * n + t)" "i < bs" "t < n" "n - L i \<le> t" using rej by blast
    then have "s = out ! (i * n + (n - L i + (t - (n - L i))))" "t - (n - L i) < L i" using Ln [OF a(2)] by auto
    then show "s \<in> set ?F" using a(2) by fastforce
  qed
  ultimately have F: "freed_exactly bs n out (rejected ps ?seq path k) ?F" by (simp add: freed_exactly_def)
  have dt: "distinct ?tgt" by (rule distinct_packed) (use inj kn in blast)
  have mv: "move_kv_cache ?tgt ?src (eb_kv B) (out ! (i * n + j)) = eb_kv B (out ! (i * n + node_of path i j))" if "i < bs" "j < k i" for i j
  proof -
    let ?a = "sum_list (map k [0..<i]) + j"
    have "?tgt ! ?a = out ! (i * n + j)" "?src ! ?a = out ! (i * n + node_of path i j)" using packed_nth [of i bs j k] that by simp_all
    moreover have "?a < length ?tgt" unfolding length_packed using sum_prefix_less [where k = k, OF that] .
    ultimately show ?thesis using move_kv_nth [OF dt, of ?src ?a] by (simp add: length_packed)
  qed
  have "set ?tgt \<subseteq> set out" using row_index_bound kn d(4) [folded out_def bs_def] by fastforce
  then have "move_kv_cache ?tgt ?src (eb_kv B) s = eb_kv B s" if "s \<notin> set out" for s using that move_kv_other by blast
  then have "slots_result free n topk ps path k B ?sl"
    unfolding slots_result_def out_def [symmetric] bs_def [symmetric] using F mv large by auto
  then show ?thesis using fr unfolding bs_def by blast
qed

section \<open>The table, the lengths and the packed slots\<close>

abbreviation grown :: "int list \<Rightarrow> (nat \<Rightarrow> nat) \<Rightarrow> nat list \<Rightarrow> int list" where
  "grown seq k is \<equiv> map (\<lambda>i. seq ! i + int (k i)) is"

lemma grown_eq:
  "length seq = bs \<Longrightarrow> map2 (\<lambda>s a. s + a + 1) seq (num_of k [0..<bs]) = grown seq k [0..<bs]"
  "length seq = bs \<Longrightarrow> map2 (\<lambda>s a. s + (a + 1)) seq (num_of k [0..<bs]) = grown seq k [0..<bs]"
  by (auto simp: num_of_def list_eq_iff_nth_eq)

lemma load_packed:
  assumes "i < bs" "j < k i"
  shows "tl_load (packed f k [0..<bs]) (int (sum_list (map k [0..<i])) + int j) = Some (f i j)"
proof -
  have "tl_load (packed f k [0..<bs]) (int (sum_list (map k [0..<i]) + j)) = Some (f i j)"
    using packed_nth [where f = f and L = k, OF assms] sum_prefix_less [where k = k, OF assms] unfolding tl_load_def length_packed
    by (simp del: of_nat_add)
  then show ?thesis by simp
qed

lemma table_advance:
  fixes f :: "nat \<Rightarrow> nat \<Rightarrow> int"
  assumes e: "eagle_input n topk ps path order B" and k: "kept_ok (length (eb_reqs B)) path k"
  defines "bs \<equiv> length (eb_reqs B)" and "seq \<equiv> eb_seq_lens B" and "rpi \<equiv> eb_req_pool_indices B" and "pl \<equiv> eb_pool_len B"
  defines "T \<equiv> assign_req_to_token_pool_func rpi seq (grown seq k [0..<bs]) (packed f k [0..<bs]) pl bs order (eb_req_to_token B)"
  shows "i < bs \<Longrightarrow> j < k i \<Longrightarrow> T (rpi ! i * pl + (seq ! i + int j)) = Some (f i j)"
    "0 \<le> p \<Longrightarrow> p < pl \<Longrightarrow> (\<And>i. i < bs \<Longrightarrow> rpi ! i = r \<Longrightarrow> p < seq ! i \<or> seq ! i + int (k i) \<le> p) \<Longrightarrow>
      T (r * pl + p) = eb_req_to_token B (r * pl + p)"
proof -
  note d = eagle_inputD [OF e, folded bs_def seq_def rpi_def pl_def]
  have kn: "k i \<le> n" if "i < bs" for i using k that d(16) [OF that] by (fastforce simp: kept_ok_def bs_def)
  have b: "\<forall>i < bs. 0 \<le> seq ! i \<and> seq ! i \<le> grown seq k [0..<bs] ! i \<and> grown seq k [0..<bs] ! i \<le> pl"
    using d(10,11) kn by fastforce
  have diff: "map2 (-) (grown seq k [0..<bs]) seq = map (\<lambda>i. int (k i)) [0..<bs]" using d(1) by (auto simp: list_eq_iff_nth_eq)
  show "T (rpi ! i * pl + (seq ! i + int j)) = Some (f i j)" if ij: "i < bs" "j < k i" for i j
  proof -
    have pl: "0 < pl" using d(10) [OF ij(1)] d(11) [OF ij(1)] d(17) [OF ij(1)] by linarith
    have w: "\<forall>i < bs. \<forall>p. seq ! i \<le> p \<and> p < grown seq k [0..<bs] ! i \<longrightarrow>
        T (rpi ! i * pl + p) = tl_load (packed f k [0..<bs]) (sum_list (take i (map2 (-) (grown seq k [0..<bs]) seq)) + (p - seq ! i))"
      unfolding T_def using assign_pool_writes [OF d(3,1) _ pl d(6,8,9) b] by simp
    have "sum_list (take i (map (\<lambda>i. int (k i)) [0..<bs])) = int (sum_list (map k [0..<i]))"
      using seg_start_int [of i bs k] ij(1) by (simp add: seg_start_def)
    then show ?thesis using w ij load_packed [where f = f and k = k, OF ij] unfolding diff by simp
  qed
  show "T (r * pl + p) = eb_req_to_token B (r * pl + p)"
    if p: "0 \<le> p" "p < pl" and o: "\<And>i. i < bs \<Longrightarrow> rpi ! i = r \<Longrightarrow> p < seq ! i \<or> seq ! i + int (k i) \<le> p" for r p
    unfolding T_def using conjunct2 [OF assign_pool_writes [OF d(3,1) _ _ d(6,8,9) b]] p o by simp
qed

lemma packed_filter: "packed f (\<lambda>i. if P i then L i else 0) is = packed f L (filter P is)"
  by (induction "is") simp_all

lemma sum_filter: "sum_list (map (\<lambda>i. if P i then L i else (0 :: nat)) is) = sum_list (map L (filter P is))"
  by (induction "is") simp_all

lemma num_filter:
  assumes "length seq = bs"
  shows "create_num_accepted_drafts_filter (num_of k [0..<bs]) (map int (filter P [0..<bs])) seq =
    Inr (map (\<lambda>i. int (if P i then k i else 0)) [0..<bs], grown seq k [0..<bs])"
proof -
  let ?num = "num_of k [0..<bs]"
  have loop: "py_for (\<lambda>i f. py_bind (py_index ?num i) (\<lambda>a. py_set f i (a + 1))) (map int us) f0 =
      Inr (map (\<lambda>i. if i \<in> set us then int (k i) else f0 ! i) [0..<bs])" if "set us \<subseteq> {0..<bs}" "length f0 = bs" for us f0
    using that
  proof (induction us arbitrary: f0)
    case Nil
    then show ?case by (auto simp: list_eq_iff_nth_eq)
  next
    case (Cons x us)
    have "py_index ?num (int x) = Inr (int (k x) - 1)" "py_set f0 (int x) (int (k x)) = Inr (f0[x := int (k x)])"
      using Cons.prems by (auto simp: py_index_int py_set_int num_of_def)
    then show ?case using Cons by (auto simp: nth_list_update)
  qed
  have "map (\<lambda>i. if i \<in> set (filter P [0..<bs]) then int (k i) else replicate bs 0 ! i) [0..<bs] = map (\<lambda>i. int (if P i then k i else 0)) [0..<bs]"
    by simp
  moreover have "set (filter P [0..<bs]) \<subseteq> {0..<bs}" "length (replicate bs (0 :: int)) = bs" by auto
  ultimately have "py_for (\<lambda>i f. py_bind (py_index ?num i) (\<lambda>a. py_set f i (a + 1))) (map int (filter P [0..<bs])) (replicate bs 0) =
      Inr (map (\<lambda>i. int (if P i then k i else 0)) [0..<bs])" using loop by (simp only:)
  moreover have "length ?num = bs" by (simp add: num_of_def)
  ultimately show ?thesis unfolding create_num_accepted_drafts_filter_def grown_eq(2) [OF assms] by simp
qed

lemma filter_finished_eq:
  assumes B: "length (eb_reqs B) = bs" "length (eb_seq_lens B) = bs" "length (eb_seq_lens_cpu B) = bs"
    and k: "\<And>i. i < bs \<Longrightarrow> k i \<le> n" and pids: "distinct order" "set order = {0..<bs}"
  shows "filter_finished order 0 e n (num_of k [0..<bs]) (packed f k [0..<bs]) (filter P [0..<bs]) B =
    Inr (B\<lparr>eb_out_cache_loc := packed f k (filter P [0..<bs]), eb_seq_lens := grown (eb_seq_lens B) k [0..<bs],
           eb_seq_lens_cpu := grown (eb_seq_lens_cpu B) k [0..<bs]\<rparr>)"
proof -
  let ?num = "num_of k [0..<bs]" and ?tgt = "packed f k [0..<bs]" and ?M = "\<lambda>i. if P i then k i else 0"
  let ?flt = "map (\<lambda>i. int (?M i)) [0..<bs]"
  let ?ker = "filter_finished_cache_loc_kernel 0 (tl_load ?tgt) ?num ?flt (next_power_of_2 bs) (next_power_of_2 n)"
  have eff: "?ker i m a = (if seg_start ?flt i \<le> a \<and> a < seg_start ?flt i + ?flt ! i
      then (\<lambda>i j. tl_load ?tgt (int (sum_list (map k [0..<i])) + j)) i (a - seg_start ?flt i) else m a)" if "i < length ?flt" for i m a
  proof -
    have i: "i < bs" using that by simp
    have "sum_below 0 ?num (next_power_of_2 bs) i + int i = int (sum_list (map k [0..<i]))"
      using sum_below_eq [of i "next_power_of_2 bs" ?num] next_power_of_2_ge [of bs] i num_prefix [of i bs k] by (simp add: num_of_def)
    moreover have "sum_below 0 ?flt (next_power_of_2 bs) i = seg_start ?flt i"
      using sum_below_eq [of i "next_power_of_2 bs" ?flt] next_power_of_2_ge [of bs] i by (simp add: seg_start_def)
    moreover have "?M i \<le> next_power_of_2 n" using k [OF i] next_power_of_2_ge [of n] by simp
    ultimately show ?thesis using i by (auto simp: filter_finished_cache_loc_kernel_def store_lanes_apply Let_def)
  qed
  have "read_buf e (launch ?ker order Map.empty) (sum_list (map ?M [0..<bs])) = packed f ?M [0..<bs]"
  proof (rule read_buf_packed)
    fix i j assume ij: "i < bs" "j < ?M i"
    then have P: "P i" "j < k i" by (simp_all split: if_splits)
    have "launch ?ker order Map.empty (seg_start ?flt i + int j) = (\<lambda>i j. tl_load ?tgt (int (sum_list (map k [0..<i])) + j)) i (int j)"
      by (rule launch_segments [where lens = ?flt and f = "\<lambda>i j. tl_load ?tgt (int (sum_list (map k [0..<i])) + j)"], rule eff)
         (use ij P pids in auto)
    then show "launch ?ker order Map.empty (int (sum_list (map ?M [0..<i])) + int j) = Some (f i j)"
      using load_packed [where f = f and k = k, OF ij(1) P(2)] seg_start_int [of i bs ?M] ij(1) by simp
  qed
  then have out: "read_buf e (launch ?ker order Map.empty) (sum_list (map k (filter P [0..<bs]))) = packed f k (filter P [0..<bs])"
    unfolding packed_filter sum_filter .
  have size: "int (length us) + sum_list (map (\<lambda>i. ?num ! i) us) = int (sum_list (map k us))" if "set us \<subseteq> {0..<bs}" for us
    using that by (induction us) (auto simp: num_of_def)
  have "nat (int (length (filter P [0..<bs])) + sum_list (map (\<lambda>i. ?num ! i) (filter P [0..<bs]))) = sum_list (map k (filter P [0..<bs]))"
    by (subst size) auto
  then show ?thesis
    unfolding filter_finished_def B(1) num_filter [OF B(2)] grown_eq(2) [OF B(3)] py_bind_simps prod.case Let_def
    using out by simp
qed

end
