(* ===== verification/Eagle_Verify.thy ===== *)
theory Eagle_Verify
  imports Eagle_Slots
begin

text \<open>
  The EAGLE verification step as a whole: the accept loop of a request against decoding one token at a time,
  the closed form of the step, and its two main properties.
\<close>

section \<open>The loop over the accept rows\<close>

lemma py_bind_assoc: "py_bind (py_bind m f) g = py_bind m (\<lambda>x. py_bind (f x) g)"
  by (cases m) simp_all

lemma filter_row [simp]: "filter (\<lambda>i. i \<noteq> - 1) (map int xs @ replicate m (- 1)) = map int xs"
  by (induction xs) auto

lemma leading_row [simp]: "leading (map int xs @ replicate m (- 1)) = map int xs"
  unfolding leading_def
proof (induction xs)
  case Nil
  show ?case by (cases m) simp_all
qed auto

text \<open>What the loop does with a node: its token is appended and the request is checked.\<close>

definition accept_one ::
  "'g grammar_ops \<Rightarrow> (string \<Rightarrow> string \<Rightarrow> bool) \<Rightarrow> int option \<Rightarrow> int \<Rightarrow> 'g sreq \<Rightarrow> 'g sreq py" where
  "accept_one G re_search th t r =
     py_bind (check_finished G re_search 1 (reason_with th [t] (r\<lparr>sq_output_ids := sq_output_ids r @ [t]\<rparr>)))
       (accept_grammar G re_search t)"

lemma accept_row_loop_Cons:
  "idx \<noteq> - 1 \<Longrightarrow> accept_row_loop G re_search th predict (idx # row) k r =
     py_bind (py_index predict idx) (\<lambda>t. py_bind (accept_one G re_search th t r) (\<lambda>q.
     if req_finished q then Inr (Suc k, q) else accept_row_loop G re_search th predict row (Suc k) q))"
  by (simp add: accept_one_def Let_def py_bind_assoc)

lemma accept_row_loop_bounds:
  assumes "accept_row_loop G re_search th predict row k r = Inr (k', q)"
  shows "k \<le> k'" "k' \<le> k + length (leading row)" "leading row \<noteq> [] \<Longrightarrow> k < k'"
    "\<not> req_finished q \<Longrightarrow> k' = k + length (leading row)"
proof -
  have "k \<le> k' \<and> k' \<le> k + length (leading row) \<and> (leading row \<noteq> [] \<longrightarrow> k < k') \<and> (\<not> req_finished q \<longrightarrow> k' = k + length (leading row))"
    using assms
  proof (induction row arbitrary: k r)
    case (Cons idx row)
    show ?case
    proof (cases "idx = - 1")
      case True
      then show ?thesis using Cons.prems by (simp add: leading_def)
    next
      case False
      then obtain r4 where "if req_finished r4 then (k', q) = (Suc k, r4)
          else accept_row_loop G re_search th predict row (Suc k) r4 = Inr (k', q)"
        using Cons.prems unfolding accept_row_loop_Cons [OF False] py_bind_eq_Inr by (metis Inr_inject)
      then show ?thesis using Cons.IH [of "Suc k" r4] False by (auto simp: leading_def split: if_splits)
    qed
  qed (simp add: leading_def)
  then show "k \<le> k'" "k' \<le> k + length (leading row)" "leading row \<noteq> [] \<Longrightarrow> k < k'"
    "\<not> req_finished q \<Longrightarrow> k' = k + length (leading row)" by blast+
qed

lemma histogram_ok:
  assumes "0 \<le> k"
  shows "\<exists>h. update_spec_acceptance_histogram k q = Inr (q\<lparr>sq_spec_acceptance_histogram := h\<rparr>)"
proof -
  let ?h0 = "sq_spec_acceptance_histogram q"
  let ?h = "if int (length ?h0) \<le> k then ?h0 @ replicate (nat (k - int (length ?h0) + 1)) 0 else ?h0"
  have "k < int (length ?h)" using assms by auto
  then show ?thesis using assms
    by (auto simp: update_spec_acceptance_histogram_def Let_def py_index_int py_set_int)
qed

text \<open>The nodes of request \<open>b\<close> as offsets into the verify tokens of the batch.\<close>

definition node_ids :: "nat \<Rightarrow> nat \<Rightarrow> nat list \<Rightarrow> nat list" where
  "node_ids n b nodes = map (\<lambda>x. b * n + x) nodes"

lemma length_node_ids [simp]: "length (node_ids n b xs) = length xs"
  by (simp add: node_ids_def)

lemma accept_row_nodes:
  "accept_row_of n cols b path = map int (node_ids n b (0 # path)) @ replicate (cols - Suc (length path)) (- 1)"
  by (simp add: accept_row_of_def node_ids_def comp_def)

definition verified_req :: "nat \<Rightarrow> nat \<Rightarrow> 'g sreq \<Rightarrow> 'g ereq \<Rightarrow> 'g ereq \<Rightarrow> bool" where
  "verified_req k drafts q r r' \<longleftrightarrow> (\<exists>h. er_req r' = q\<lparr>sq_spec_acceptance_histogram := h\<rparr>) \<and>
     er_kv_committed_len r' = er_kv_committed_len r + int k \<and> er_kv_allocated_len r' = er_kv_committed_len r' \<and>
     er_spec_verify_ct r' = er_spec_verify_ct r + 1 \<and>
     er_spec_accepted_drafts r' = er_spec_accepted_drafts r + int drafts"

lemma verified_req_finished: "verified_req k d q r r' \<Longrightarrow> req_finished (er_req r') = req_finished q"
  by (auto simp: verified_req_def req_finished_def)

lemma eagle_verify_req_eq:
  assumes row: "row = accept_row_of n cols b path"
    and loop: "accept_row_loop G re_search th predict row 0 (er_req r) = Inr (k, q)"
  shows "\<exists>r' m. eagle_verify_req G re_search th predict row r =
      Inr (req_finished q, map int (node_ids n b (take k (0 # path))) @ replicate m (- 1), r') \<and>
      verified_req k (length path) q r r'"
    "1 \<le> k" "k \<le> Suc (length path)" "\<not> req_finished q \<Longrightarrow> k = Suc (length path)"
proof -
  let ?ns = "node_ids n b (0 # path)" and ?m = "cols - Suc (length path)"
  have r: "row = map int ?ns @ replicate ?m (- 1)" unfolding row by (rule accept_row_nodes)
  have "leading row = map int ?ns" unfolding r by (rule leading_row)
  then have l: "length (leading row) = Suc (length path)" by simp
  then have ne: "leading row \<noteq> []" by auto
  note b = accept_row_loop_bounds [OF loop, unfolded l]
  show k: "1 \<le> k" "k \<le> Suc (length path)" "\<not> req_finished q \<Longrightarrow> k = Suc (length path)"
    using b ne by simp_all
  have d: "int (length (filter (\<lambda>i. i \<noteq> - 1) row)) - 1 = int (length path)" unfolding r filter_row by simp
  obtain h where h: "update_spec_acceptance_histogram (int (length path)) q = Inr (q\<lparr>sq_spec_acceptance_histogram := h\<rparr>)"
    using histogram_ok [of "int (length path)"] by auto
  have tk: "take k row = map int (node_ids n b (take k (0 # path)))"
    unfolding r take_append using k(2) by (simp add: node_ids_def take_map del: list.map take_Suc_Cons)
  let ?r = "r\<lparr>er_req := q\<lparr>sq_spec_acceptance_histogram := h\<rparr>, er_kv_committed_len := er_kv_committed_len r + int k,
        er_kv_allocated_len := er_kv_committed_len r + int k, er_spec_verify_ct := er_spec_verify_ct r + 1,
        er_spec_accepted_drafts := er_spec_accepted_drafts r + int (length path)\<rparr>"
  have v: "verified_req k (length path) q r ?r" by (auto simp: verified_req_def)
  let ?m' = "if req_finished q then length row - k else ?m"
  have "(if req_finished q then take k row @ replicate (length row - k) (- 1) else row) =
      map int (node_ids n b (take k (0 # path))) @ replicate ?m' (- 1)"
    using tk k(3) r by (cases "req_finished q") (simp_all del: take_Suc_Cons)
  then have "eagle_verify_req G re_search th predict row r =
      Inr (req_finished q, map int (node_ids n b (take k (0 # path))) @ replicate ?m' (- 1), ?r)"
    using loop d h k(1) by (simp add: eagle_verify_req_def Let_def)
  then show "\<exists>r' m. eagle_verify_req G re_search th predict row r =
      Inr (req_finished q, map int (node_ids n b (take k (0 # path))) @ replicate m (- 1), r') \<and>
      verified_req k (length path) q r r'" using v by blast
qed

lemma eagle_verify_reqs_all:
  assumes "length rows = length rs" "\<And>i. i < length rs \<Longrightarrow> eagle_verify_req G re_search th predict (rows ! i) (rs ! i) = Inr (g i)"
  shows "eagle_verify_reqs G re_search th predict rows rs = Inr (map g [0..<length rs])"
  using assms
proof (induction rows rs arbitrary: g rule: list_induct2)
  case (Cons row rows r rs)
  have "eagle_verify_req G re_search th predict row r = Inr (g 0)" using Cons.prems [of 0] by simp
  moreover have "eagle_verify_reqs G re_search th predict rows rs = Inr (map (\<lambda>i. g (Suc i)) [0..<length rs])"
    using Cons.prems [of "Suc _"] by (intro Cons.IH) simp
  ultimately show ?case by (simp add: upt_conv_Cons map_Suc_upt [symmetric] comp_def del: upt_Suc)
qed simp

section \<open>The whole step\<close>

lemma node_ids_kept: "k i \<le> Suc (length (path i)) \<Longrightarrow> node_ids n i (take (k i) (0 # path i)) = map (\<lambda>j. i * n + node_of path i j) [0..<k i]"
  by (simp add: node_ids_def kept_nodes)

text \<open>The part before the slots: what the loop over the requests gives, in closed form.\<close>

lemma eagle_verify_front:
  fixes B :: "('g, 'al, 'v) ebatch"
  assumes e: "eagle_input n topk ps path order B" and bs: "bs = length (eb_reqs B)" and pr: "bs * n \<le> length predict"
    and rows: "accept_rows = map (\<lambda>i. accept_row_of n cols i (path i)) [0..<bs]"
    and num0: "num0 = map (\<lambda>i. int (length (path i))) [0..<bs]"
    and loop: "\<And>i. i < bs \<Longrightarrow> accept_row_loop G re_search th predict (accept_rows ! i) 0 (er_req (eb_reqs B ! i)) = Inr (k i, q i)"
  shows "kept_ok bs path k \<and> (\<exists>rs. length rs = bs \<and> (\<forall>i < bs. verified_req (k i) (length (path i)) (q i) (eb_reqs B ! i) (rs ! i)) \<and>
    eagle_verify free order u e G re_search th n topk ps predict accept_rows num0 hidden B =
      py_bind (free_rejected free order u e n topk ps (accept_of n path k [0..<bs]) (num_of k [0..<bs]) B) (\<lambda>sl.
        construct_output order u e n (ps = 1 \<or> topk = 1) predict hidden (\<exists>i < bs. req_finished (q i)) (filter (\<lambda>i. \<not> req_finished (q i)) [0..<bs])
          (accept_of n path k (filter (\<lambda>i. \<not> req_finished (q i)) [0..<bs])) (num_of k [0..<bs]) (accept_of n path k [0..<bs])
          (packed (\<lambda>i j. predict ! (i * n + node_of path i j)) k [0..<bs]) (sl_tgt sl)
          (B\<lparr>eb_reqs := rs, eb_allocator := sl_allocator sl, eb_kv := sl_kv sl\<rparr>)))"
proof -
  have rowi: "accept_rows ! i = accept_row_of n cols i (path i)" if "i < bs" for i using that rows by simp
  note one = eagle_verify_req_eq [OF rowi loop]
  have ko: "kept_ok bs path k" using one(2,3) by (simp add: kept_ok_def)
  define g where "g = (\<lambda>i. projr (eagle_verify_req G re_search th predict (accept_rows ! i) (eb_reqs B ! i)))"
  define rs where "rs = map (\<lambda>i. snd (snd (g i))) [0..<bs]"
  have g: "\<exists>m. eagle_verify_req G re_search th predict (accept_rows ! i) (eb_reqs B ! i) = Inr (g i) \<and>
      g i = (req_finished (q i), map int (map (\<lambda>j. i * n + node_of path i j) [0..<k i]) @ replicate m (- 1), rs ! i) \<and>
      verified_req (k i) (length (path i)) (q i) (eb_reqs B ! i) (rs ! i)" if i: "i < bs" for i
    using one(1) [OF i i] node_ids_kept [of k i path n, OF one(3) [OF i i]] i by (auto simp: g_def rs_def)
  have gr: "fst (g i) = req_finished (q i)" "filter (\<lambda>i. i \<noteq> - 1) (fst (snd (g i))) = map int (map (\<lambda>j. i * n + node_of path i j) [0..<k i])"
    "leading (fst (snd (g i))) = map int (map (\<lambda>j. i * n + node_of path i j) [0..<k i])" if i: "i < bs" for i
    using g [OF i] by (auto simp del: map_map)
  have rf: "req_finished (er_req (rs ! i)) = req_finished (q i)" if i: "i < bs" for i using g [OF i] verified_req_finished by blast
  have res: "eagle_verify_reqs G re_search th predict accept_rows (eb_reqs B) = Inr (map g [0..<bs])"
    using g rows bs by (subst eagle_verify_reqs_all [of _ _ _ _ _ _ g]) auto
  have fin: "list_ex (\<lambda>(fin, row, r). fin) (map g [0..<bs]) = (\<exists>i < bs. req_finished (q i))"
    using gr(1) by (auto simp: list_ex_iff split_beta)
  have rowsq: "map (\<lambda>(fin, row, r). row) (map g [0..<bs]) = map (\<lambda>i. fst (snd (g i))) [0..<bs]" by (simp add: split_beta comp_def)
  have rsq: "map (\<lambda>(fin, row, r). r) (map g [0..<bs]) = rs" by (simp add: rs_def split_beta comp_def)
  have acc: "filter (\<lambda>i. i \<noteq> - 1) (concat (map (\<lambda>i. fst (snd (g i))) [0..<bs])) = accept_of n path k [0..<bs]"
    unfolding accept_of_def filter_concat map_concat using gr(2) by (intro arg_cong [where f = concat]) (simp add: comp_def)
  have un: "filter (\<lambda>i. \<not> req_finished (er_req (rs ! i))) [0..<length rs] = filter (\<lambda>i. \<not> req_finished (q i)) [0..<bs]"
    using rf by (intro filter_cong) (auto simp: rs_def)
  have ua: "concat (map (\<lambda>i. leading (map (\<lambda>i. fst (snd (g i))) [0..<bs] ! i)) (filter P [0..<bs])) = accept_of n path k (filter P [0..<bs])" for P
    unfolding accept_of_def map_concat using gr(3) by (intro arg_cong [where f = concat]) (simp add: comp_def)
  have num: "(if \<exists>i < bs. req_finished (q i) then map (\<lambda>row. int (length (filter (\<lambda>i. i \<noteq> - 1) row)) - 1) (map (\<lambda>i. fst (snd (g i))) [0..<bs]) else num0) =
      num_of k [0..<bs]"
    using gr(2) one(4) num0 by (auto simp: num_of_def)
  have ver: "gather predict (accept_of n path k [0..<bs]) = Inr (packed (\<lambda>i j. predict ! (i * n + node_of path i j)) k [0..<bs])"
    using gather_nodes [OF e, folded bs, OF ko pr] by simp
  have "length rs = bs" by (simp add: rs_def)
  moreover have "\<forall>i < bs. verified_req (k i) (length (path i)) (q i) (eb_reqs B ! i) (rs ! i)" using g by blast
  ultimately show ?thesis
    unfolding eagle_verify_def res py_bind_simps Let_def fin rowsq rsq un ua num acc ver using ko by blast
qed

text \<open>The draft input of the requests \<open>U\<close> that go on, and the slot of the \<open>j\<close>-th token kept of request \<open>i\<close>.\<close>

definition draft_for ::
  "nat \<Rightarrow> (nat \<Rightarrow> nat list) \<Rightarrow> (nat \<Rightarrow> nat) \<Rightarrow> int list \<Rightarrow> 'h list \<Rightarrow> ('g, 'al, 'v) ebatch \<Rightarrow> nat list \<Rightarrow> 'h eagle_draft" where
  "draft_for n path k predict hidden B U = \<lparr>
     ed_hidden_states = packed (\<lambda>i j. hidden ! (i * n + node_of path i j)) k U,
     ed_verified_id = packed (\<lambda>i j. predict ! (i * n + node_of path i j)) k U,
     ed_num_accepted_drafts = num_of k U, ed_num_accepted_tokens = map (\<lambda>i. int (k i)) U,
     ed_seq_lens = grown (eb_seq_lens B) k U, ed_seq_lens_cpu = grown (eb_seq_lens_cpu B) k U,
     ed_req_pool_indices = map (\<lambda>i. eb_req_pool_indices B ! i) U\<rparr>"

definition kept_slot :: "bool \<Rightarrow> nat \<Rightarrow> (nat \<Rightarrow> nat list) \<Rightarrow> int list \<Rightarrow> nat \<Rightarrow> nat \<Rightarrow> int" where
  "kept_slot small n path out i j = out ! (i * n + (if small then node_of path i j else j))"

text \<open>The batch after a step in which \<open>U\<close> go on.\<close>

definition advanced :: "nat list \<Rightarrow> nat \<Rightarrow> bool \<Rightarrow> (nat \<Rightarrow> nat list) \<Rightarrow> (nat \<Rightarrow> nat) \<Rightarrow> nat list \<Rightarrow> ('g, 'al, 'v) ebatch \<Rightarrow> ('g, 'al, 'v) ebatch \<Rightarrow> bool" where
  "advanced order n small path k U B B' \<longleftrightarrow>
     eb_reqs B' = eb_reqs B \<and> eb_allocator B' = eb_allocator B \<and> eb_kv B' = eb_kv B \<and>
     eb_req_to_token B' = (if small then assign_req_to_token_pool_func (eb_req_pool_indices B) (eb_seq_lens B)
         (grown (eb_seq_lens B) k [0..<length (eb_reqs B)]) (packed (kept_slot small n path (eb_out_cache_loc B)) k [0..<length (eb_reqs B)])
         (eb_pool_len B) (length (eb_reqs B)) order (eb_req_to_token B) else eb_req_to_token B) \<and>
     (U \<noteq> [] \<longrightarrow> eb_seq_lens B' = grown (eb_seq_lens B) k [0..<length (eb_reqs B)] \<and>
        eb_seq_lens_cpu B' = grown (eb_seq_lens_cpu B) k [0..<length (eb_reqs B)] \<and>
        eb_out_cache_loc B' = packed (kept_slot small n path (eb_out_cache_loc B)) k U)"

lemma advance_eq:
  assumes "length (eb_reqs B) = bs" "length (eb_seq_lens B) = bs" "length (eb_seq_lens_cpu B) = bs"
  shows "advance order (num_of k [0..<bs]) kept small B =
    B\<lparr>eb_req_to_token := (if small then assign_req_to_token_pool_func (eb_req_pool_indices B) (eb_seq_lens B) (grown (eb_seq_lens B) k [0..<bs]) kept
        (eb_pool_len B) bs order (eb_req_to_token B) else eb_req_to_token B),
      eb_seq_lens := grown (eb_seq_lens B) k [0..<bs], eb_seq_lens_cpu := grown (eb_seq_lens_cpu B) k [0..<bs]\<rparr>"
  unfolding advance_def Let_def grown_eq(1) [OF assms(2)] grown_eq(2) [OF assms(3)] assms(1) ..

lemma num_of_nth: "set U \<subseteq> {0..<bs} \<Longrightarrow> map (\<lambda>i. num_of k [0..<bs] ! i) U = num_of k U"
  "set U \<subseteq> {0..<bs} \<Longrightarrow> map (\<lambda>i. num_of k [0..<bs] ! i + 1) U = map (\<lambda>i. int (k i)) U"
  "set U \<subseteq> {0..<bs} \<Longrightarrow> map (\<lambda>i. grown seq k [0..<bs] ! i) U = grown seq k U"
  by (auto simp: num_of_def)

lemma construct_output_eq:
  assumes B: "length (eb_reqs B) = bs" "length (eb_seq_lens B) = bs" "length (eb_seq_lens_cpu B) = bs" "length (eb_req_pool_indices B) = bs"
    and k: "\<And>i. i < bs \<Longrightarrow> k i \<le> n" and pids: "distinct order" "set order = {0..<bs}"
    and out: "\<And>is. set is \<subseteq> {0..<bs} \<Longrightarrow> gather (eb_out_cache_loc B) (accept_of n path k is) = Inr (packed (kept_slot True n path (eb_out_cache_loc B)) k is)"
    and hid: "\<And>is. set is \<subseteq> {0..<bs} \<Longrightarrow> gather hidden (accept_of n path k is) = Inr (packed (\<lambda>i j. hidden ! (i * n + node_of path i j)) k is)"
    and pre: "\<And>is. set is \<subseteq> {0..<bs} \<Longrightarrow> gather predict (accept_of n path k is) = Inr (packed (\<lambda>i j. predict ! (i * n + node_of path i j)) k is)"
    and tgt: "\<not> small \<Longrightarrow> tgt = packed (kept_slot small n path (eb_out_cache_loc B)) k [0..<bs]"
    and U: "U = filter P [0..<bs]"
  shows "\<exists>B'. construct_output order 0 e n small predict hidden (\<exists>i < bs. \<not> P i) U (accept_of n path k U) (num_of k [0..<bs])
      (accept_of n path k [0..<bs]) (packed (\<lambda>i j. predict ! (i * n + node_of path i j)) k [0..<bs]) tgt B =
    Inr (\<lparr>eo_draft_input = draft_for n path k predict hidden B U,
          eo_verified_id = packed (\<lambda>i j. predict ! (i * n + node_of path i j)) k [0..<bs],
          eo_num_accepted_drafts_per_req = num_of k [0..<bs], eo_accepted_indices = accept_of n path k [0..<bs]\<rparr>, B') \<and>
    advanced order n small path k U B B'"
proof -
  let ?slots = "packed (kept_slot small n path (eb_out_cache_loc B)) k"
  have Us: "set U \<subseteq> {0..<bs}" using U by auto
  have kept: "(if small then gather (eb_out_cache_loc B) (accept_of n path k [0..<bs]) else Inr tgt) = Inr (?slots [0..<bs])"
    using out [of "[0..<bs]"] tgt by simp
  note adv = advance_eq [OF B(1-3)]
  show ?thesis
  proof (cases "\<exists>i < bs. \<not> P i")
    case False
    then have Uall: "U = [0..<bs]" using U by (auto simp: filter_id_conv)
    have "map (\<lambda>i. eb_req_pool_indices B ! i) [0..<bs] = eb_req_pool_indices B" using map_nth B(4) by metis
    moreover have "map (\<lambda>a. a + 1) (num_of k [0..<bs]) = map (\<lambda>i. int (k i)) [0..<bs]" by (simp add: num_of_def)
    ultimately show ?thesis
      unfolding construct_output_def Let_def kept py_bind_simps adv Uall using False hid [of "[0..<bs]"] B(1)
      by (simp add: draft_for_def advanced_def)
  next
    case True
    show ?thesis
    proof (cases "U = []")
      case Nil: True
      then show ?thesis
        unfolding construct_output_def Let_def kept py_bind_simps adv using True B(1)
        by (simp add: draft_for_def idle_draft_def advanced_def num_of_def)
    next
      case ne: False
      let ?B2 = "if small then advance order (num_of k [0..<bs]) (?slots [0..<bs]) small B else B"
      let ?B3 = "?B2\<lparr>eb_out_cache_loc := ?slots U, eb_seq_lens := grown (eb_seq_lens B) k [0..<bs], eb_seq_lens_cpu := grown (eb_seq_lens_cpu B) k [0..<bs]\<rparr>"
      have B3: "(if small then py_bind (gather (eb_out_cache_loc B) (accept_of n path k U)) (\<lambda>o1. Inr (?B2\<lparr>eb_out_cache_loc := o1\<rparr>))
          else filter_finished order 0 e n (num_of k [0..<bs]) tgt U ?B2) = Inr ?B3"
      proof (cases small)
        case True
        then show ?thesis using out [OF Us] by (simp add: adv)
      next
        case False
        then show ?thesis using tgt filter_finished_eq [where f = "kept_slot small n path (eb_out_cache_loc B)" and P = P and k = k, OF B(1-3) k pids] U by simp
      qed
      have d: "draft_of U (accept_of n path k U) predict (num_of k [0..<bs]) hidden ?B3 = Inr (draft_for n path k predict hidden B U)"
        unfolding draft_of_def hid [OF Us] pre [OF Us] py_bind_simps num_of_nth(1,2) [OF Us] by (simp add: draft_for_def num_of_nth(3) [OF Us] adv)
      have "advanced order n small path k U B ?B3" unfolding adv advanced_def B(1) by simp
      then show ?thesis
        unfolding construct_output_def Let_def kept py_bind_simps B3 d using True ne by simp
    qed
  qed
qed

lemma slot_not_freed:
  assumes e: "eagle_input n topk ps path order B" and k: "kept_ok (length (eb_reqs B)) path k"
    and F: "freed_exactly (length (eb_reqs B)) n (eb_out_cache_loc B) (rejected ps (eb_seq_lens B) path k) F"
    and ij: "i < length (eb_reqs B)" "j < k i"
  shows "kept_slot (ps = 1 \<or> topk = 1) n path (eb_out_cache_loc B) i j \<notin> set F"
proof
  note d = eagle_inputD [OF e]
  let ?t = "if ps = 1 \<or> topk = 1 then node_of path i j else j"
  have le: "k i \<le> Suc (length (path i))" using k ij(1) by (simp add: kept_ok_def)
  have t: "?t < n" using node_of_less [OF e k ij] by simp
  assume "kept_slot (ps = 1 \<or> topk = 1) n path (eb_out_cache_loc B) i j \<in> set F"
  then obtain i' t' where a: "eb_out_cache_loc B ! (i * n + ?t) = eb_out_cache_loc B ! (i' * n + t')" "i' < length (eb_reqs B)" "t' < n"
    "rejected ps (eb_seq_lens B) path k i' t'" using F unfolding freed_exactly_def kept_slot_def by blast
  have "i * n + ?t = i' * n + t'"
    using a(1) nth_eq_iff_index_eq [OF d(5)] row_index_bound [OF ij(1) t] row_index_bound [OF a(2,3)] d(4) by simp
  then have r: "rejected ps (eb_seq_lens B) path k i ?t" using row_index_unique [OF t a(3)] a(4) by blast
  show False
  proof (cases "ps = 1")
    case True
    have "node_of path i j \<in> set (take (k i) (0 # path i))" unfolding kept_nodes [of k i path, OF le] using ij(2) by simp
    then show False using r True by (simp add: rejected_def)
  next
    case False
    have "node_of path i j = j" if "topk = 1"
    proof -
      have "0 # path i = [0..<Suc (length (path i))]" using d(14) [OF that ij(1)] upt_conv_Cons [of 0 "Suc (length (path i))"] by simp
      then show ?thesis unfolding node_of_def using ij(2) le by (metis add_0 less_le_trans nth_upt)
    qed
    then have "?t = j" using False by simp
    moreover have "(eb_seq_lens B ! i + int j) div ps \<le> (eb_seq_lens B ! i + int (k i) - 1) div ps"
      using ij(2) d(7) by (intro zdiv_mono1) auto
    ultimately show False using r False by (simp add: rejected_def)
  qed
qed

lemma kept_slot_large: "kept_slot False n path out = (\<lambda>i j. out ! (i * n + j))"
  by (simp add: fun_eq_iff kept_slot_def)

lemma kept_slot_small: "kept_slot True n path out = (\<lambda>i j. out ! (i * n + node_of path i j))"
  by (simp add: fun_eq_iff kept_slot_def)

lemma eagle_verify_parts:
  fixes B :: "('g, 'al, 'v) ebatch"
  assumes e: "eagle_input n topk ps path order B" and bs: "bs = length (eb_reqs B)"
    and len: "bs * n \<le> length predict" "bs * n \<le> length hidden"
    and rows: "accept_rows = map (\<lambda>i. accept_row_of n cols i (path i)) [0..<bs]"
    and num0: "num0 = map (\<lambda>i. int (length (path i))) [0..<bs]"
    and loop: "\<And>i. i < bs \<Longrightarrow> accept_row_loop G re_search th predict (accept_rows ! i) 0 (er_req (eb_reqs B ! i)) = Inr (k i, q i)"
    and U: "U = filter (\<lambda>i. \<not> req_finished (q i)) [0..<bs]"
  shows "kept_ok bs path k \<and> (\<exists>rs sl B'. eagle_verify free order 0 e G re_search th n topk ps predict accept_rows num0 hidden B =
      Inr (\<lparr>eo_draft_input = draft_for n path k predict hidden B U,
          eo_verified_id = packed (\<lambda>i j. predict ! (i * n + node_of path i j)) k [0..<bs],
          eo_num_accepted_drafts_per_req = num_of k [0..<bs], eo_accepted_indices = accept_of n path k [0..<bs]\<rparr>, B') \<and>
    length rs = bs \<and> (\<forall>i < bs. verified_req (k i) (length (path i)) (q i) (eb_reqs B ! i) (rs ! i)) \<and>
    slots_result free n topk ps path k B sl \<and>
    advanced order n (ps = 1 \<or> topk = 1) path k U (B\<lparr>eb_reqs := rs, eb_allocator := sl_allocator sl, eb_kv := sl_kv sl\<rparr>) B')"
proof -
  note d = eagle_inputD [OF e, folded bs]
  let ?small = "ps = 1 \<or> topk = 1" and ?out = "eb_out_cache_loc B"
  let ?slot = "kept_slot ?small n path ?out"
  obtain rs where ko: "kept_ok bs path k" and rs: "length rs = bs"
    "\<forall>i < bs. verified_req (k i) (length (path i)) (q i) (eb_reqs B ! i) (rs ! i)"
    and ev: "eagle_verify free order 0 e G re_search th n topk ps predict accept_rows num0 hidden B =
      py_bind (free_rejected free order 0 e n topk ps (accept_of n path k [0..<bs]) (num_of k [0..<bs]) B) (\<lambda>sl.
        construct_output order 0 e n ?small predict hidden (\<exists>i < bs. req_finished (q i)) U (accept_of n path k U) (num_of k [0..<bs])
          (accept_of n path k [0..<bs]) (packed (\<lambda>i j. predict ! (i * n + node_of path i j)) k [0..<bs]) (sl_tgt sl)
          (B\<lparr>eb_reqs := rs, eb_allocator := sl_allocator sl, eb_kv := sl_kv sl\<rparr>))"
    using eagle_verify_front [OF e bs len(1) rows num0 loop, where u = 0 and free = free and hidden = hidden] U by blast
  have kn: "k i \<le> n" if "i < bs" for i using ko that d(16) [OF that] by (fastforce simp: kept_ok_def)
  obtain sl where sl: "free_rejected free order 0 e n topk ps (accept_of n path k [0..<bs]) (num_of k [0..<bs]) B = Inr sl"
    "slots_result free n topk ps path k B sl"
    using free_rejected_small [OF e ko [unfolded bs]] free_rejected_large [OF e ko [unfolded bs]] bs by (cases ?small) blast+
  define B1 where "B1 = B\<lparr>eb_reqs := rs, eb_allocator := sl_allocator sl, eb_kv := sl_kv sl\<rparr>"
  have B1: "length (eb_reqs B1) = bs" "eb_seq_lens B1 = eb_seq_lens B" "eb_seq_lens_cpu B1 = eb_seq_lens_cpu B"
    "eb_req_pool_indices B1 = eb_req_pool_indices B" "eb_out_cache_loc B1 = ?out" "eb_pool_len B1 = eb_pool_len B"
    "eb_req_to_token B1 = eb_req_to_token B" "eb_reqs B1 = rs" "eb_allocator B1 = sl_allocator sl" "eb_kv B1 = sl_kv sl"
    using rs(1) by (simp_all add: B1_def)
  note gn = gather_nodes [OF e, folded bs, OF ko]
  have tgt: "\<not> ?small \<Longrightarrow> sl_tgt sl = packed ?slot k [0..<bs]" using sl(2) bs kept_slot_large by (simp add: slots_result_def)
  have lB: "length (eb_seq_lens B1) = bs" "length (eb_seq_lens_cpu B1) = bs" "length (eb_req_pool_indices B1) = bs"
    using d(1-3) B1 by simp_all
  have out: "gather (eb_out_cache_loc B1) (accept_of n path k is) = Inr (packed (kept_slot True n path (eb_out_cache_loc B1)) k is)"
    if "set is \<subseteq> {0..<bs}" for "is" unfolding B1(5) kept_slot_small using d(4) that by (intro gn) simp_all
  have hid: "gather hidden (accept_of n path k is) = Inr (packed (\<lambda>i j. hidden ! (i * n + node_of path i j)) k is)"
    if "set is \<subseteq> {0..<bs}" for "is" using len(2) that by (rule gn)
  have pre: "gather predict (accept_of n path k is) = Inr (packed (\<lambda>i j. predict ! (i * n + node_of path i j)) k is)"
    if "set is \<subseteq> {0..<bs}" for "is" using len(1) that by (rule gn)
  have nf: "(\<exists>i < bs. \<not> \<not> req_finished (q i)) = (\<exists>i < bs. req_finished (q i))" by simp
  obtain B' where B': "construct_output order 0 e n ?small predict hidden (\<exists>i < bs. req_finished (q i)) U (accept_of n path k U)
      (num_of k [0..<bs]) (accept_of n path k [0..<bs]) (packed (\<lambda>i j. predict ! (i * n + node_of path i j)) k [0..<bs]) (sl_tgt sl) B1 =
    Inr (\<lparr>eo_draft_input = draft_for n path k predict hidden B1 U,
          eo_verified_id = packed (\<lambda>i j. predict ! (i * n + node_of path i j)) k [0..<bs],
          eo_num_accepted_drafts_per_req = num_of k [0..<bs], eo_accepted_indices = accept_of n path k [0..<bs]\<rparr>, B')"
    "advanced order n ?small path k U B1 B'"
    using construct_output_eq [where P = "\<lambda>i. \<not> req_finished (q i)", OF B1(1) lB kn d(8,9) out hid pre tgt [folded B1(5)] U, unfolded nf] by blast
  have "draft_for n path k predict hidden B1 U = draft_for n path k predict hidden B U" by (simp add: draft_for_def B1)
  then show ?thesis using ko rs ev sl B' unfolding B1_def by auto
qed

text \<open>
  Only the kernels for wide trees on large pages read elements that a mask leaves out.
\<close>

lemma eagle_verify_mask_irrelevant:
  assumes "ps = 1 \<or> topk = 1"
  shows "eagle_verify free order u e G re_search th n topk ps predict accept_rows num0 hidden B =
    eagle_verify free order 0 e G re_search th n topk ps predict accept_rows num0 hidden B"
proof -
  have f: "free_rejected free order u e n topk ps accept num B = free_rejected free order 0 e n topk ps accept num B" for accept num
    using assms by (cases "ps = 1") (simp_all add: free_rejected_def Let_def)
  have c: "construct_output order u e n True = construct_output order 0 e n True" by (intro ext) (simp only: construct_output_def if_True)
  have "(ps = 1 \<or> topk = 1) = True" using assms by simp
  then show ?thesis unfolding eagle_verify_def by (simp only: f c)
qed

section \<open>Properties\<close>

text \<open>
  C2. A verification step of the EAGLE worker, on every page size and tree width: it raises nothing beyond what the
  stop checks raise, every request keeps the tokens up to its first finishing one and its accounting grows
  by their number; position \<open>j\<close> after the old length of a request then maps to a slot that holds the KV entry
  computed for its \<open>j\<close>-th accepted node and is not among the freed ones, everything older is untouched; the
  slots freed, each once, are those of the other nodes (page size 1) or of the positions in pages after the
  last kept one; and the next draft input and slots are those of exactly the unfinished requests. With wide trees on large
  pages the kernels add up elements that a mask of \<open>tl.load\<close> leaves out, without a value for them; there, and only there, they are
  taken to read as 0.
\<close>

theorem eagle_verify_step:
  fixes B :: "('g, 'al, 'v) ebatch"
  assumes e: "eagle_input n topk ps path order B" and bs: "bs = length (eb_reqs B)"
    and len: "bs * n \<le> length predict" "bs * n \<le> length hidden"
    and rows: "accept_rows = map (\<lambda>i. accept_row_of n cols i (path i)) [0..<bs]"
    and num0: "num0 = map (\<lambda>i. int (length (path i))) [0..<bs]"
    and loop: "\<And>i. i < bs \<Longrightarrow> accept_row_loop G re_search th predict (accept_rows ! i) 0 (er_req (eb_reqs B ! i)) = Inr (k i, q i)"
    and U: "U = filter (\<lambda>i. \<not> req_finished (q i)) [0..<bs]"
    and masked: "ps = 1 \<or> topk = 1 \<or> u = 0"
  shows "\<exists>o' B' F. eagle_verify free order u e G re_search th n topk ps predict accept_rows num0 hidden B = Inr (o', B') \<and>
    eb_allocator B' = free (eb_allocator B) F \<and>
    freed_exactly bs n (eb_out_cache_loc B) (rejected ps (eb_seq_lens B) path k) F \<and>
    (\<forall>i < bs. 1 \<le> k i \<and> (i \<in> set U \<longrightarrow> k i = Suc (length (path i))) \<and>
       verified_req (k i) (length (path i)) (q i) (eb_reqs B ! i) (eb_reqs B' ! i) \<and>
       (\<forall>j < k i. \<exists>s. eb_req_to_token B' (eb_req_pool_indices B ! i * eb_pool_len B + (eb_seq_lens B ! i + int j)) = Some s \<and>
          s \<notin> set F \<and> eb_kv B' s = eb_kv B (eb_out_cache_loc B ! (i * n + node_of path i j)))) \<and>
    (\<forall>s. s \<notin> set (eb_out_cache_loc B) \<longrightarrow> eb_kv B' s = eb_kv B s) \<and>
    (\<forall>r p. 0 \<le> p \<and> p < eb_pool_len B \<and> (\<forall>i < bs. eb_req_pool_indices B ! i = r \<longrightarrow> p < eb_seq_lens B ! i) \<longrightarrow>
       eb_req_to_token B' (r * eb_pool_len B + p) = eb_req_to_token B (r * eb_pool_len B + p)) \<and>
    eo_verified_id o' = packed (\<lambda>i j. predict ! (i * n + node_of path i j)) k [0..<bs] \<and>
    eo_draft_input o' = draft_for n path k predict hidden B U \<and>
    (U \<noteq> [] \<longrightarrow> eb_seq_lens B' = grown (eb_seq_lens B) k [0..<bs] \<and> eb_out_cache_loc B' =
       packed (\<lambda>i j. the (eb_req_to_token B' (eb_req_pool_indices B ! i * eb_pool_len B + (eb_seq_lens B ! i + int j)))) k U)"
proof -
  have u: "eagle_verify free order u e G re_search th n topk ps predict accept_rows num0 hidden B =
      eagle_verify free order 0 e G re_search th n topk ps predict accept_rows num0 hidden B"
    using masked eagle_verify_mask_irrelevant by blast
  note d = eagle_inputD [OF e, folded bs]
  let ?small = "ps = 1 \<or> topk = 1" and ?out = "eb_out_cache_loc B" and ?rpi = "eb_req_pool_indices B" and ?pl = "eb_pool_len B"
  let ?slot = "kept_slot ?small n path ?out" and ?seq = "eb_seq_lens B"
  obtain rs sl B' where ko: "kept_ok bs path k" and ev: "eagle_verify free order 0 e G re_search th n topk ps predict accept_rows num0 hidden B =
      Inr (\<lparr>eo_draft_input = draft_for n path k predict hidden B U,
          eo_verified_id = packed (\<lambda>i j. predict ! (i * n + node_of path i j)) k [0..<bs],
          eo_num_accepted_drafts_per_req = num_of k [0..<bs], eo_accepted_indices = accept_of n path k [0..<bs]\<rparr>, B')"
    and rs: "length rs = bs" "\<forall>i < bs. verified_req (k i) (length (path i)) (q i) (eb_reqs B ! i) (rs ! i)"
    and sl: "slots_result free n topk ps path k B sl"
    and adv: "advanced order n ?small path k U (B\<lparr>eb_reqs := rs, eb_allocator := sl_allocator sl, eb_kv := sl_kv sl\<rparr>) B'"
    using eagle_verify_parts [OF e bs len rows num0 loop U, where free = free] by blast
  obtain F where F: "sl_allocator sl = free (eb_allocator B) F" "freed_exactly bs n ?out (rejected ps ?seq path k) F"
    using sl bs by (auto simp: slots_result_def)
  have B': "eb_reqs B' = rs" "eb_allocator B' = sl_allocator sl" "eb_kv B' = sl_kv sl"
    "eb_req_to_token B' = (if ?small then assign_req_to_token_pool_func ?rpi ?seq (grown ?seq k [0..<bs]) (packed ?slot k [0..<bs]) ?pl bs order
        (eb_req_to_token B) else eb_req_to_token B)"
    "U \<noteq> [] \<Longrightarrow> eb_seq_lens B' = grown ?seq k [0..<bs]" "U \<noteq> [] \<Longrightarrow> eb_out_cache_loc B' = packed ?slot k U"
    using adv rs(1) by (simp_all add: advanced_def)
  have kn: "k i \<le> n" "1 \<le> k i" if "i < bs" for i using ko that d(16) [OF that] by (fastforce simp: kept_ok_def)+
  note ta = table_advance [OF e, folded bs, OF ko, of _ _ ?slot]
  have tab: "eb_req_to_token B' (?rpi ! i * ?pl + (?seq ! i + int j)) = Some (?slot i j)" if ij: "i < bs" "j < k i" for i j
  proof (cases ?small)
    case True
    then show ?thesis using ta(1) [OF ij] B'(4) by (simp only: if_True)
  next
    case False
    then show ?thesis using d(15) [of i j] ij kn [OF ij(1)] B'(4) by (simp add: kept_slot_def)
  qed
  have old: "eb_req_to_token B' (r * ?pl + p) = eb_req_to_token B (r * ?pl + p)"
    if "0 \<le> p" "p < ?pl" "\<forall>i < bs. ?rpi ! i = r \<longrightarrow> p < ?seq ! i" for r p
    using ta(2) [OF that(1,2), of r] that(3) B'(4) by auto
  have kv: "sl_kv sl (?slot i j) = eb_kv B (?out ! (i * n + node_of path i j))" if "i < bs" "j < k i" for i j
    using sl that bs by (cases ?small) (auto simp: slots_result_def kept_slot_def)
  have kvo: "s \<notin> set ?out \<Longrightarrow> sl_kv sl s = eb_kv B s" for s using sl by (cases ?small) (auto simp: slots_result_def)
  have full: "k i = Suc (length (path i))" if "i \<in> set U" for i
    using eagle_verify_req_eq(4) [where path = "path i" and b = i and n = n and cols = cols, OF _ loop] that rows U by auto
  have "eb_out_cache_loc B' = packed (\<lambda>i j. the (eb_req_to_token B' (?rpi ! i * ?pl + (?seq ! i + int j)))) k U" if "U \<noteq> []"
    unfolding B'(6) [OF that] using tab U by (intro arg_cong [where f = concat] map_cong) auto
  then show ?thesis
    unfolding u using ev F B' rs(2) kn(2) full tab slot_not_freed [OF e, folded bs, OF ko F(2)] kv kvo old
    by (intro exI [of _ B'] exI [of _ F] exI conjI allI impI) (assumption | simp)+
qed

section \<open>Against decoding one token at a time\<close>

lemma accept_one_plain:
  assumes "sq_grammar r = None"
  shows "process_decode_req G re_search th False (OneToken t) r = accept_one G re_search th t r"
    "accept_one G re_search th t r = Inr r' \<Longrightarrow> sq_grammar r' = None"
proof -
  let ?r = "reason_with th [t] (r\<lparr>sq_output_ids := sq_output_ids r @ [t]\<rparr>)"
  have g: "sq_grammar r' = None" if "check_finished G re_search 1 ?r = Inr r'" for r'
    using check_finished_grammar [OF that] assms by simp
  then have a: "accept_one G re_search th t r = check_finished G re_search 1 ?r"
    by (cases "check_finished G re_search 1 ?r") (simp_all add: accept_one_def accept_grammar_def)
  then show "process_decode_req G re_search th False (OneToken t) r = accept_one G re_search th t r" using process_one_plain [OF assms] by simp
  show "accept_one G re_search th t r = Inr r' \<Longrightarrow> sq_grammar r' = None" using a g by simp
qed

lemma accept_row_loop_each:
  assumes "sq_grammar r = None" "\<forall>x \<in> set ids. x < length predict"
  shows "map_sum id snd (accept_row_loop G re_search th predict (map int ids @ replicate m (- 1)) k r) =
    process_each G re_search th False (map (\<lambda>x. predict ! x) ids) r"
  using assms
proof (induction ids arbitrary: k r)
  case Nil
  show ?case by (cases m) simp_all
next
  case (Cons x ids)
  have ix: "py_index predict (int x) = Inr (predict ! x)" using Cons.prems by (simp add: py_index_nat)
  have ne: "int x \<noteq> - 1" by simp
  show ?case
    using accept_one_plain [OF Cons.prems(1), of G re_search th "predict ! x"] Cons.IH Cons.prems(2)
    unfolding list.map append_Cons accept_row_loop_Cons [OF ne] ix
    by (cases "accept_one G re_search th (predict ! x) r") auto
qed

lemma native_predicts_length:
  assumes ok: "verify_args_ok n bs cols par cands ris nts nss targets V"
    and V': "verify_tree_greedy_native n n V cands ris nts nss targets topk = Inr V'"
  shows "length (out_predicts V') = bs * n"
proof -
  have bs: "length cands = bs" "length targets = bs" "\<forall>b < bs. length (targets ! b) = n" using ok by (auto simp: verify_args_ok_def)
  let ?fast = "n = 2 \<and> (\<forall>r \<in> set (out_accept_index V). length r = 2) \<and> topk = 1"
  show ?thesis
  proof (cases ?fast)
    case False
    then show ?thesis using verify_general_path [OF ok refl] V' unfolding verify_tree_greedy_native_def if_not_P [OF False] bs(1) by auto
  next
    case True
    have "length (concat targets) = bs * n" using bs(2,3) by (subst length_concat_blocks [where n = n]) (auto simp: in_set_conv_nth)
    then show ?thesis using V' unfolding verify_tree_greedy_native_def if_P [OF True] by auto
  qed
qed

text \<open>
  C3. Speculative decoding with greedy verification is plain greedy decoding, stop conditions included: with any
  stop tokens, strings, regular expressions and length limits, and errors too, the accept loop leaves every
  request without a grammar exactly as decoding the model's own greedy tokens one at a time does, as many as
  drafts were accepted and one more, up to the token that ends the request. The target's prediction at a node is the model's
  choice after the context and the path to the node, which is what tree attention provides.
\<close>

theorem eagle_greedy_lossless:
  assumes ok: "verify_args_ok n bs cols par cands ris nts nss targets V"
    and model: "\<forall>b < bs. \<forall>t < n. targets ! b ! t = model (ctx b @ path_tokens (par b) (cands ! b) t)"
    and gr: "\<forall>b < bs. sq_grammar (r b) = None"
  shows "\<exists>V'. verify_tree_greedy_native n n V cands ris nts nss targets topk = Inr V' \<and>
    (\<forall>b < bs. map_sum id snd (accept_row_loop G re_search th (out_predicts V') (out_accept_index V' ! b) 0 (r b)) =
       process_each G re_search th False (greedy_decode model (ctx b @ [cands ! b ! 0]) (Suc (nat (out_accept_num V' ! b)))) (r b))"
proof -
  define path where "path = (\<lambda>b. greedy_path n (par b) (cands ! b) (targets ! b))"
  then have path: "\<And>b. path b = greedy_path n (par b) (cands ! b) (targets ! b)" by simp
  obtain V' where V': "verify_tree_greedy_native n n V cands ris nts nss targets topk = Inr V'"
    "out_accept_index V' = map (\<lambda>b. accept_row_of n cols b (path b)) [0..<bs]"
    "out_accept_num V' = map (\<lambda>b. int (length (path b))) [0..<bs]"
    "\<forall>b < bs. \<forall>x \<in> set (0 # path b). out_predicts V' ! (b * n + x) = targets ! b ! x"
    using verify_native_result [OF ok path] by blast
  have n: "0 < n" "\<And>b. b < bs \<Longrightarrow> \<forall>t \<in> {1..<n}. par b t < t" using ok by (simp_all add: verify_args_ok_def)
  have "map_sum id snd (accept_row_loop G re_search th (out_predicts V') (out_accept_index V' ! b) 0 (r b)) =
      process_each G re_search th False (greedy_decode model (ctx b @ [cands ! b ! 0]) (Suc (length (path b)))) (r b)" if b: "b < bs" for b
  proof -
    have pn: "set (0 # path b) \<subseteq> {..<n}"
      using accept_path_bound [of n "children n (par b)"] children_bound n by (auto simp: path greedy_path_def)
    then have "\<forall>x \<in> set (node_ids n b (0 # path b)). x < length (out_predicts V')"
      unfolding native_predicts_length [OF ok V'(1)] node_ids_def using row_index_bound [OF b] b by auto
    then have "map_sum id snd (accept_row_loop G re_search th (out_predicts V') (out_accept_index V' ! b) 0 (r b)) =
        process_each G re_search th False (map (\<lambda>x. out_predicts V' ! x) (node_ids n b (0 # path b))) (r b)"
      using b gr V'(2) by (simp add: accept_row_nodes accept_row_loop_each del: replicate_Suc)
    moreover have "map (\<lambda>x. out_predicts V' ! x) (node_ids n b (0 # path b)) = map (\<lambda>x. targets ! b ! x) (0 # path b)"
      unfolding node_ids_def map_map comp_def using V'(4) b by (intro map_cong) auto
    moreover have "\<dots> = greedy_decode model (ctx b @ path_tokens (par b) (cands ! b) 0) (Suc (length (path b)))"
      unfolding path greedy_path_def using n b model by (intro path_is_chain) auto
    moreover have "path_tokens (par b) (cands ! b) 0 = [cands ! b ! 0]" by (simp add: path_tokens.simps)
    ultimately show ?thesis by metis
  qed
  moreover have "nat (out_accept_num V' ! b) = length (path b)" if "b < bs" for b using V'(3) that by simp
  ultimately show ?thesis using V'(1) by metis
qed

section \<open>Concrete instances\<close>

definition demo_ereq :: "unit ereq" where
  "demo_ereq = \<lparr>er_req = demo_sreq [], er_kv_committed_len = 7, er_kv_allocated_len = 7, er_spec_verify_ct = 0,
     er_spec_accepted_drafts = 0\<rparr>"

definition demo_ebatch :: "(unit, int list, int) ebatch" where
  "demo_ebatch = \<lparr>eb_reqs = [demo_ereq, demo_ereq], eb_seq_lens = [3, 4], eb_seq_lens_cpu = [3, 4],
     eb_out_cache_loc = [10, 11, 12, 13, 14, 15], eb_req_pool_indices = [0, 1],
     eb_req_to_token = (\<lambda>a. if 3 \<le> a \<and> a < 6 then Some (a + 7) else if 20 \<le> a \<and> a < 23 then Some (a - 7) else None),
     eb_pool_len = 16, eb_allocator = [], eb_kv = (\<lambda>s. s)\<rparr>"

definition demo_path :: "nat \<Rightarrow> nat list" where
  "demo_path i = (if i = 0 then [2] else [1])"

lemma demo_eagle_input: "eagle_input 3 2 2 demo_path [1, 0] demo_ebatch"
  by (auto simp: eagle_input_def demo_ebatch_def demo_path_def less_Suc_eq numeral_eq_Suc)

lemma demo_loops:
  "accept_row_loop demo_grammar (\<lambda>p t. False) None [8, 5, 7, 0, 6, 6] [0, 2, - 1] 0 (demo_sreq []) =
     Inr (2, (demo_sreq [])\<lparr>sq_output_ids := [8, 7]\<rparr>)"
  "accept_row_loop demo_grammar (\<lambda>p t. False) None [8, 5, 7, 0, 6, 6] [3, 4, - 1] 0 (demo_sreq []) =
     Inr (1, (demo_sreq [])\<lparr>sq_output_ids := [0], sq_finished_reason := Some (FINISH_MATCHED_TOKEN 0), sq_finished_len := Some 1\<rparr>)"
  by (simp_all add: py_index_def reason_with_def check_finished_def req_finished_def demo_sreq_def py_from_def py_bound_def
      check_token_based_finish_def is_stop_token_def check_vocab_boundary_finish_def check_str_based_finish_def accept_grammar_def Let_def)

theorem eagle_verify_step_witness:
  "\<exists>o' B' F. eagle_verify (\<lambda>al xs. al @ xs) [1, 0] 0 5 demo_grammar (\<lambda>p t. False) None 3 2 2 [8, 5, 7, 0, 6, 6]
      [[0, 2, - 1], [3, 4, - 1]] [1, 1] [''a'', ''b'', ''c'', ''d'', ''e'', ''f''] demo_ebatch = Inr (o', B') \<and>
    eb_allocator B' = F \<and>
    (\<exists>s. eb_req_to_token B' 4 = Some s \<and> s \<notin> set F \<and> eb_kv B' s = 12) \<and>
    ed_verified_id (eo_draft_input o') = [8, 7] \<and> eb_seq_lens B' = [5, 5]"
proof -
  let ?q0 = "(demo_sreq [])\<lparr>sq_output_ids := [8, 7]\<rparr>"
  let ?q1 = "(demo_sreq [])\<lparr>sq_output_ids := [0], sq_finished_reason := Some (FINISH_MATCHED_TOKEN 0), sq_finished_len := Some 1\<rparr>"
  define k where "k = (\<lambda>i :: nat. if i = 0 then 2 else 1 :: nat)"
  define q where "q = (\<lambda>i :: nat. if i = 0 then ?q0 else ?q1)"
  have two: "[0..<2] = [0, 1 :: nat]" by (simp add: numeral_2_eq_2)
  have bs: "2 = length (eb_reqs demo_ebatch)" by (simp add: demo_ebatch_def)
  have rows: "[[0, 2, - 1], [3, 4, - 1]] = map (\<lambda>i. accept_row_of 3 3 i (demo_path i)) [0..<2]"
    by (simp add: two accept_row_of_def demo_path_def)
  have num: "[1, 1] = map (\<lambda>i. int (length (demo_path i))) [0..<2]" by (simp add: two demo_path_def)
  have loop: "accept_row_loop demo_grammar (\<lambda>p t. False) None [8, 5, 7, 0, 6, 6] ([[0, 2, - 1], [3, 4, - 1]] ! i) 0
      (er_req (eb_reqs demo_ebatch ! i)) = Inr (k i, q i)" if "i < 2" for i
    using that demo_loops by (cases "i = 0") (auto simp: less_Suc_eq numeral_2_eq_2 demo_ebatch_def demo_ereq_def k_def q_def)
  have U: "[0] = filter (\<lambda>i. \<not> req_finished (q i)) [0..<2]" by (simp add: two q_def req_finished_def demo_sreq_def)
  obtain o' B' F where w: "eagle_verify (\<lambda>al xs. al @ xs) [1, 0] 0 5 demo_grammar (\<lambda>p t. False) None 3 2 2 [8, 5, 7, 0, 6, 6]
      [[0, 2, - 1], [3, 4, - 1]] [1, 1] [''a'', ''b'', ''c'', ''d'', ''e'', ''f''] demo_ebatch = Inr (o', B')"
    "eb_allocator B' = eb_allocator demo_ebatch @ F"
    "\<forall>i < 2. \<forall>j < k i. \<exists>s. eb_req_to_token B' (eb_req_pool_indices demo_ebatch ! i * eb_pool_len demo_ebatch + (eb_seq_lens demo_ebatch ! i + int j)) = Some s \<and>
          s \<notin> set F \<and> eb_kv B' s = eb_kv demo_ebatch (eb_out_cache_loc demo_ebatch ! (i * 3 + node_of demo_path i j))"
    "eo_draft_input o' = draft_for 3 demo_path k [8, 5, 7, 0, 6, 6] [''a'', ''b'', ''c'', ''d'', ''e'', ''f''] demo_ebatch [0]"
    "eb_seq_lens B' = grown (eb_seq_lens demo_ebatch) k [0..<2]"
    using eagle_verify_step [OF demo_eagle_input bs _ _ rows num loop U, where u = 0 and e = 5 and hidden = "[''a'', ''b'', ''c'', ''d'', ''e'', ''f'']" and free = "\<lambda>al xs. al @ xs"]
    by fastforce
  have "\<exists>s. eb_req_to_token B' 4 = Some s \<and> s \<notin> set F \<and> eb_kv B' s = 12"
    using w(3) [rule_format, of 0 1] by (simp add: demo_ebatch_def k_def node_of_def demo_path_def)
  moreover have "ed_verified_id (eo_draft_input o') = [8, 7]" "eb_seq_lens B' = [5, 5]" "eb_allocator B' = F"
    using w(2,4,5) by (simp_all add: draft_for_def demo_ebatch_def k_def node_of_def demo_path_def two)
  ultimately show ?thesis using w(1) by blast
qed

theorem eagle_greedy_lossless_witness:
  "\<exists>V'. verify_tree_greedy_native 4 4 (demo_out 4) [[10, 11, 12, 13]] [[0, 1, 2, 3]] [[1, 3, -1, -1]]
      [[-1, 2, -1, -1]] [[11, 13, 9, 8]] 2 = Inr V' \<and>
    (\<forall>b < 1. map_sum id snd (accept_row_loop demo_grammar (\<lambda>p t. False) None (out_predicts V') (out_accept_index V' ! b) 0 (demo_sreq [''aa''])) =
       process_each demo_grammar (\<lambda>p t. False) None False
         (greedy_decode (\<lambda>c. if c = [5, 10] then 11 else if c = [5, 10, 11] then 13 else if c = [5, 10, 12] then 9 else 8)
           ((\<lambda>_. [5]) b @ [[[10, 11, 12, 13]] ! b ! 0]) (Suc (nat (out_accept_num V' ! b)))) (demo_sreq [''aa'']))"
proof (rule eagle_greedy_lossless [OF demo_args_ok, where r = "\<lambda>_. demo_sreq [''aa'']"])
  have "path_tokens demo_par [10, 11, 12, 13] t = [[10], [10, 11], [10, 12], [10, 11, 13]] ! t" if "t < 4" for t
    using that by (auto simp: less_Suc_eq numeral_eq_Suc path_tokens.simps demo_par_def)
  then show "\<forall>b < 1. \<forall>t < 4. [[11, 13, 9, 8]] ! b ! t =
      (if (\<lambda>_. [5]) b @ path_tokens demo_par ([[10, 11, 12, 13]] ! b) t = [5, 10] then 11
       else if (\<lambda>_. [5]) b @ path_tokens demo_par ([[10, 11, 12, 13]] ! b) t = [5, 10, 11] then 13
       else if (\<lambda>_. [5]) b @ path_tokens demo_par ([[10, 11, 12, 13]] ! b) t = [5, 10, 12] then 9 else 8)"
    by (auto simp: less_Suc_eq numeral_eq_Suc)
qed (simp add: demo_sreq_def)

end
