(* ===== verification/Eagle_Batch.thy ===== *)
theory Eagle_Batch
  imports Eagle_Verify Complex_Main
begin

text \<open>
  \<open>EagleDraftInput\<close> (\<open>srt/speculative/eagle_info.py\<close>) as part of a running batch: filtering and merging, in the
  form that holds the draft's results and in the one that holds indices of results still to come, and the two preparations
  of the draft model's extension. The two forms are instances of \<open>batch_state\<close>.
\<close>

section \<open>Filtering and merging\<close>

record 'h eagle_draft_input =
  ei_topk_p :: "rat list list"
  ei_topk_index :: "int list list"
  ei_hidden_states :: "'h list option"
  ei_verified_id :: "int list"
  ei_future_indices :: "int list option"

definition eagle_filter_batch :: "bool \<Rightarrow> bool \<Rightarrow> int list \<Rightarrow> 'h eagle_draft_input \<Rightarrow> 'h eagle_draft_input py" where
  "eagle_filter_batch strict_check has_been_filtered new_indices d = (case ei_future_indices d of
     Some is \<Rightarrow> py_bind (gather is new_indices) (\<lambda>is'. Inr (d\<lparr>ei_future_indices := Some is'\<rparr>))
   | None \<Rightarrow>
       if has_been_filtered
       then (let n = length new_indices
             in if n \<noteq> length (ei_topk_p d) \<and> strict_check then Inl ValueError
                else case ei_hidden_states d of None \<Rightarrow> Inl TypeError
                  | Some h \<Rightarrow> Inr (d\<lparr>ei_topk_p := take n (ei_topk_p d), ei_topk_index := take n (ei_topk_index d),
                      ei_hidden_states := Some (take n h), ei_verified_id := take n (ei_verified_id d)\<rparr>))
       else py_bind (gather (ei_topk_p d) new_indices) (\<lambda>p.
            py_bind (gather (ei_topk_index d) new_indices) (\<lambda>ix.
            case ei_hidden_states d of None \<Rightarrow> Inl TypeError
            | Some h \<Rightarrow>
                py_bind (gather h new_indices) (\<lambda>h'.
                py_bind (gather (ei_verified_id d) new_indices) (\<lambda>v.
                Inr (d\<lparr>ei_topk_p := p, ei_topk_index := ix, ei_hidden_states := Some h', ei_verified_id := v\<rparr>))))))"

definition eagle_merge_batch :: "'h eagle_draft_input \<Rightarrow> 'h eagle_draft_input \<Rightarrow> 'h eagle_draft_input py" where
  "eagle_merge_batch d e = (case ei_future_indices d of
     Some is \<Rightarrow> (case ei_future_indices e of None \<Rightarrow> Inl AssertionError | Some js \<Rightarrow> Inr (d\<lparr>ei_future_indices := Some (is @ js)\<rparr>))
   | None \<Rightarrow>
      (case ei_hidden_states d of
         None \<Rightarrow> Inr (d\<lparr>ei_hidden_states := ei_hidden_states e, ei_verified_id := ei_verified_id e, ei_topk_p := ei_topk_p e,
                   ei_topk_index := ei_topk_index e\<rparr>)
       | Some h \<Rightarrow>
          (case ei_hidden_states e of
             None \<Rightarrow> Inr d
           | Some h' \<Rightarrow> Inr (d\<lparr>ei_hidden_states := Some (h @ h'), ei_verified_id := ei_verified_id d @ ei_verified_id e,
                         ei_topk_p := ei_topk_p d @ ei_topk_p e, ei_topk_index := ei_topk_index d @ ei_topk_index e\<rparr>))))"

section \<open>Preparing an extension of the draft model\<close>

text \<open>\<open>prepare_for_extend\<close>: the inputs of a request move left by one, and its verified token follows; \<open>pt\<close> is the position reached.\<close>

fun extend_inputs :: "int list \<Rightarrow> int list \<Rightarrow> int list \<Rightarrow> int \<Rightarrow> int list py" where
  "extend_inputs input_ids [] verified pt = Inr input_ids"
| "extend_inputs input_ids (extend_len # lens) verified pt =
     (let ids = py_slice input_ids pt (pt + extend_len)
      in case verified of [] \<Rightarrow> Inl IndexError
         | v # vs \<Rightarrow>
           (let new = drop 1 ids @ [v];
                lo = py_bound (length input_ids) pt; hi = max lo (py_bound (length input_ids) (pt + extend_len))
            in if length new = hi - lo then extend_inputs (take lo input_ids @ new @ drop hi input_ids) lens vs (pt + extend_len)
               else if length new = 1 then extend_inputs (take lo input_ids @ replicate (hi - lo) v @ drop hi input_ids) lens vs (pt + extend_len)
               else Inl RuntimeError))"

definition prepare_for_extend :: "bool \<Rightarrow> nat \<Rightarrow> int list \<Rightarrow> int list \<Rightarrow> int list \<Rightarrow> int list py" where
  "prepare_for_extend idle num_reqs extend_lens verified input_ids =
     (if idle then Inr input_ids else py_assert (length verified = num_reqs) (extend_inputs input_ids extend_lens verified 0))"

section \<open>The two forms as batch states\<close>

definition rows_ok :: "'h eagle_draft_input \<Rightarrow> bool" where
  "rows_ok d \<longleftrightarrow> ei_future_indices d = None \<and> (\<exists>h. ei_hidden_states d = Some h \<and> length h = length (ei_verified_id d)) \<and>
     length (ei_topk_p d) = length (ei_verified_id d) \<and> length (ei_topk_index d) = length (ei_verified_id d)"

definition draft_rows :: "'h eagle_draft_input \<Rightarrow> (int \<times> rat list \<times> int list \<times> 'h) list" where
  "draft_rows d = zip (ei_verified_id d) (zip (ei_topk_p d) (zip (ei_topk_index d) (the (ei_hidden_states d))))"

lemma eagle_filter_rows:
  assumes "rows_ok d" "\<forall>i \<in> set idxs. i < length (draft_rows d)"
  shows "\<exists>d'. eagle_filter_batch strict False (map int idxs) d = Inr d' \<and> rows_ok d' \<and> draft_rows d' = map (\<lambda>i. draft_rows d ! i) idxs"
proof -
  obtain h where h: "ei_future_indices d = None" "ei_hidden_states d = Some h" "length h = length (ei_verified_id d)"
    "length (ei_topk_p d) = length (ei_verified_id d)" "length (ei_topk_index d) = length (ei_verified_id d)" using assms(1) by (auto simp: rows_ok_def)
  have i: "\<forall>i \<in> set idxs. i < length (ei_verified_id d)" using assms(2) h by (simp add: draft_rows_def)
  then have i': "\<forall>i \<in> set idxs. i < length (ei_topk_p d)" "\<forall>i \<in> set idxs. i < length (ei_topk_index d)" "\<forall>i \<in> set idxs. i < length h" using h by simp_all
  let ?d = "d\<lparr>ei_topk_p := map (\<lambda>i. ei_topk_p d ! i) idxs, ei_topk_index := map (\<lambda>i. ei_topk_index d ! i) idxs,
      ei_hidden_states := Some (map (\<lambda>i. h ! i) idxs), ei_verified_id := map (\<lambda>i. ei_verified_id d ! i) idxs\<rparr>"
  have "eagle_filter_batch strict False (map int idxs) d = Inr ?d" using h(1,2) by (simp add: eagle_filter_batch_def gather_ok [OF i] gather_ok [OF i'(1)] gather_ok [OF i'(2)] gather_ok [OF i'(3)])
  moreover have "draft_rows ?d = map (\<lambda>i. draft_rows d ! i) idxs"
    using i h by (intro nth_equalityI) (simp_all add: draft_rows_def)
  ultimately show ?thesis using h(1) by (intro exI [of _ ?d]) (simp add: rows_ok_def)
qed

lemma eagle_merge_rows:
  assumes "rows_ok d" "rows_ok e"
  shows "\<exists>m. eagle_merge_batch d e = Inr m \<and> rows_ok m \<and> draft_rows m = draft_rows d @ draft_rows e"
  using assms by (auto simp: rows_ok_def eagle_merge_batch_def draft_rows_def zip_append)

interpretation eagle_rows: batch_state rows_ok draft_rows "eagle_filter_batch strict False" eagle_merge_batch for strict
  by unfold_locales (use eagle_filter_rows eagle_merge_rows in blast)+

text \<open>Before the results are there, the draft input holds the indices under which they will appear.\<close>

definition future_ok :: "'h eagle_draft_input \<Rightarrow> bool" where
  "future_ok d \<longleftrightarrow> ei_future_indices d \<noteq> None"

definition future_items :: "'h eagle_draft_input \<Rightarrow> int list" where
  "future_items d = the (ei_future_indices d)"

interpretation eagle_future: batch_state future_ok future_items "eagle_filter_batch strict filtered" eagle_merge_batch for strict filtered
proof unfold_locales
  fix s :: "'a eagle_draft_input" and idxs assume "future_ok s" "\<forall>i \<in> set idxs. i < length (future_items s)"
  then show "\<exists>s'. eagle_filter_batch strict filtered (map int idxs) s = Inr s' \<and> future_ok s' \<and> future_items s' = map (\<lambda>i. future_items s ! i) idxs"
    by (auto simp: future_ok_def future_items_def eagle_filter_batch_def gather_ok)
qed (auto simp: future_ok_def future_items_def eagle_merge_batch_def)

text \<open>Merging loses nothing: filtering a merged draft input back to the first batch restores it, in both forms.\<close>

lemma eagle_merge_restores:
  "rows_ok d \<Longrightarrow> rows_ok e \<Longrightarrow> n = length (draft_rows d) \<Longrightarrow>
     \<exists>m d'. eagle_merge_batch d e = Inr m \<and> eagle_filter_batch strict False (map int [0..<n]) m = Inr d' \<and> draft_rows d' = draft_rows d"
  "future_ok f \<Longrightarrow> future_ok g \<Longrightarrow> k = length (future_items f) \<Longrightarrow>
     \<exists>m f'. eagle_merge_batch f g = Inr m \<and> eagle_filter_batch strict filtered (map int [0..<k]) m = Inr f' \<and> future_items f' = future_items f"
  using eagle_rows.filt_merge_left [of d e n strict] eagle_future.filt_merge_left [of f g k strict filtered] by blast+

text \<open>
  A batch that verification has already filtered: the second filtering of the scheduler changes nothing when it keeps as many
  requests, and is refused in strict mode when it does not.
\<close>

lemma eagle_filter_again:
  assumes "rows_ok d"
  shows "length idxs = length (draft_rows d) \<Longrightarrow> eagle_filter_batch strict True idxs d = Inr d"
    and "length idxs \<noteq> length (draft_rows d) \<Longrightarrow> eagle_filter_batch True True idxs d = Inl ValueError"
  using assms by (auto simp: rows_ok_def eagle_filter_batch_def draft_rows_def Let_def)

section \<open>The inputs of the extension\<close>

lemma extend_inputs_ok:
  assumes "\<forall>seg \<in> set segs. seg \<noteq> []" "length vs = length segs"
  shows "extend_inputs (pre @ concat segs) (map (int \<circ> length) segs) vs (int (length pre)) = Inr (pre @ concat (map2 (\<lambda>seg v. tl seg @ [v]) segs vs))"
  using assms
proof (induction segs arbitrary: pre vs)
  case (Cons seg segs)
  obtain v vs' where v: "vs = v # vs'" "length vs' = length segs" using Cons.prems(2) by (cases vs) auto
  have ne: "seg \<noteq> []" using Cons.prems(1) by simp
  let ?ids = "pre @ seg @ concat segs"
  have b: "py_bound (length ?ids) (int (length pre)) = length pre" "py_bound (length ?ids) (int (length pre) + int (length seg)) = length pre + length seg"
    by (simp_all add: py_bound_def nat_add_distrib)
  have s: "py_slice ?ids (int (length pre)) (int (length pre) + int (length seg)) = seg" unfolding py_slice_def b by simp
  have l: "length (drop 1 seg @ [v]) = length seg" using ne by (cases seg) simp_all
  have "extend_inputs ?ids (int (length seg) # map (int \<circ> length) segs) vs (int (length pre)) =
      extend_inputs ((pre @ tl seg @ [v]) @ concat segs) (map (int \<circ> length) segs) vs' (int (length (pre @ tl seg @ [v])))"
    unfolding extend_inputs.simps Let_def s b v(1) list.case l using ne by (cases seg) (simp_all add: max_def ac_simps)
  also have "\<dots> = Inr ((pre @ tl seg @ [v]) @ concat (map2 (\<lambda>seg v. tl seg @ [v]) segs vs'))"
    using Cons.prems(1) v(2) by (intro Cons.IH) simp_all
  finally show ?case using v(1) by (simp add: comp_def del: extend_inputs.simps)
qed simp

text \<open>Every request's prompt moves left by one token, with the token that the target has verified at its end.\<close>

lemma prepare_for_extend_ok:
  assumes "\<forall>seg \<in> set segs. seg \<noteq> []" "length vs = length segs"
  shows "prepare_for_extend False (length segs) (map (int \<circ> length) segs) vs (concat segs) = Inr (concat (map2 (\<lambda>seg v. tl seg @ [v]) segs vs))"
  using extend_inputs_ok [OF assms, of "[]"] assms(2) by (simp add: prepare_for_extend_def py_assert_def)

end
