(* ===== verification/Draft_Tree.thy ===== *)
theory Draft_Tree
  imports Spec_Tree_Verify Complex_Main
begin

text \<open>
  Construction of the draft tree on the host: \<open>select_top_k_tokens\<close> (\<open>srt/speculative/spec_utils.py\<close>), \<open>fast_topk\<close>
  (\<open>srt/utils/common.py\<close>), the loop of \<open>EAGLEWorker.draft_forward\<close> (\<open>srt/speculative/eagle_worker.py\<close>) and
  \<open>organize_draft_results\<close> (\<open>srt/speculative/eagle_utils.py\<close>), up to the parent list and selected indices that
  \<open>Spec_Tree\<close> builds the tree from. A tensor of two dimensions is a list of rows; scores are
  floats, given as the rationals that they stand for. The draft model with its softmax, \<open>torch.topk\<close>, \<open>torch.max\<close> and the
  product of two floats are parameters; hidden states that are \<open>None\<close> are an empty list;
  checks for NaN, slots and positions of the draft batch are left out.
\<close>

section \<open>Selecting tokens\<close>

text \<open>
  The indices of the \<open>k\<close> largest elements of a row, in descending order of the elements, and of a largest one; and the
  product of two floats, with its rounding.
\<close>

record torch_ops =
  torch_topk :: "nat \<Rightarrow> rat list \<Rightarrow> nat list"
  torch_max :: "rat list \<Rightarrow> nat"
  torch_mul :: "rat \<Rightarrow> rat \<Rightarrow> rat"

definition topk_rows :: "torch_ops \<Rightarrow> rat list \<Rightarrow> nat \<Rightarrow> (rat list \<times> nat list) py" where
  "topk_rows T xs k = (if k \<le> length xs then Inr (map (\<lambda>i. xs ! i) (torch_topk T k xs), torch_topk T k xs) else Inl RuntimeError)"

definition fast_topk :: "torch_ops \<Rightarrow> nat \<Rightarrow> rat list \<Rightarrow> (rat list \<times> nat list) py" where
  "fast_topk T k xs =
     (if k = 1 then (if xs = [] then Inl IndexError else Inr ([xs ! torch_max T xs], [torch_max T xs])) else topk_rows T xs k)"

text \<open>A computation on every row.\<close>

fun py_map :: "('a \<Rightarrow> 'b py) \<Rightarrow> 'a list \<Rightarrow> 'b list py" where
  "py_map f [] = Inr []"
| "py_map f (x # xs) = py_bind (f x) (\<lambda>y. py_bind (py_map f xs) (\<lambda>ys. Inr (y # ys)))"

text \<open>\<open>view(-1, k)\<close>: groups of \<open>k\<close> elements of the first dimension.\<close>

definition group_rows :: "nat \<Rightarrow> 'a list \<Rightarrow> 'a list list py" where
  "group_rows k xs = (if 0 < k \<and> k dvd length xs then Inr (map (\<lambda>b. take k (drop (b * k) xs)) [0..<length xs div k]) else Inl RuntimeError)"

text \<open>The rows of scores, tokens and parents that a step contributes to the tree.\<close>

record tree_info =
  ti_scores :: "rat list list"
  ti_tokens :: "int list list"
  ti_parents :: "int list list"

record 'h selection =
  sel_input_ids :: "int list"
  sel_hidden :: "'h list"
  sel_scores :: "rat list list"
  sel_info :: tree_info

definition select_top_k_tokens_first :: "rat list list \<Rightarrow> int list list \<Rightarrow> 'h list \<Rightarrow> nat \<Rightarrow> 'h selection" where
  "select_top_k_tokens_first topk_p topk_index hidden topk =
     \<lparr>sel_input_ids = concat topk_index, sel_hidden = concat (map (replicate topk) hidden), sel_scores = topk_p,
      sel_info = \<lparr>ti_scores = topk_p, ti_tokens = topk_index, ti_parents = map (\<lambda>_. [-1..int topk - 1]) topk_p\<rparr>\<rparr>"

definition expand_row :: "torch_ops \<Rightarrow> rat list \<Rightarrow> rat list list \<Rightarrow> rat list" where
  "expand_row T scores ps = concat (map2 (\<lambda>s p. map (torch_mul T s) p) scores ps)"

definition select_top_k_tokens_later ::
  "torch_ops \<Rightarrow> nat \<Rightarrow> rat list list \<Rightarrow> int list list \<Rightarrow> 'h list \<Rightarrow> rat list list \<Rightarrow> nat \<Rightarrow> 'h selection py" where
  "select_top_k_tokens_later T i topk_p topk_index hidden scores topk =
     py_bind (group_rows topk topk_p) (\<lambda>ps.
     if length ps \<noteq> length scores then Inl RuntimeError
     else
      (let expand_scores = map2 (expand_row T) scores ps
       in py_bind (py_map (fast_topk T topk) expand_scores) (\<lambda>cs.
          py_bind (group_rows topk topk_index) (\<lambda>ts.
          let topk_cs_index = map snd cs;
              tokens = map concat ts;
              picked = concat (map2 (\<lambda>b is. map (\<lambda>j. j div topk + b * topk) is) [0..<length topk_cs_index] topk_cs_index)
          in if hidden \<noteq> [] \<and> (\<exists>j \<in> set picked. length hidden \<le> j) then Inl IndexError
             else Inr \<lparr>sel_input_ids = concat (map2 (\<lambda>row is. map (\<lambda>j. row ! j) is) tokens topk_cs_index),
                       sel_hidden = (if hidden \<noteq> [] then map (\<lambda>j. hidden ! j) picked else hidden),
                       sel_scores = map fst cs,
                       sel_info = \<lparr>ti_scores = expand_scores, ti_tokens = tokens,
                         ti_parents = map (map (\<lambda>j. int j + (int topk * int topk * (int i - 1) + int topk))) topk_cs_index\<rparr>\<rparr>))))"

definition select_top_k_tokens ::
  "torch_ops \<Rightarrow> nat \<Rightarrow> rat list list \<Rightarrow> int list list \<Rightarrow> 'h list \<Rightarrow> rat list list \<Rightarrow> nat \<Rightarrow> 'h selection py" where
  "select_top_k_tokens T i topk_p topk_index hidden scores topk =
     (if i = 0 then Inr (select_top_k_tokens_first topk_p topk_index hidden topk)
      else select_top_k_tokens_later T i topk_p topk_index hidden scores topk)"

section \<open>The draft loop\<close>

text \<open>The tokens of a reduced draft vocabulary.\<close>

definition hot_tokens :: "int list option \<Rightarrow> nat list \<Rightarrow> int list py" where
  "hot_tokens hot is = (case hot of None \<Rightarrow> Inr (map int is)
     | Some ids \<Rightarrow> if \<forall>i \<in> set is. i < length ids then Inr (map (\<lambda>i. ids ! i) is) else Inl IndexError)"

text \<open>
  \<open>fwd\<close> is the draft model: from the step, the input tokens and the hidden states to a row of probabilities for every
  input and the next hidden states. The loop runs \<open>m\<close> further steps from step \<open>i\<close> on.
\<close>

fun draft_loop ::
  "torch_ops \<Rightarrow> (nat \<Rightarrow> int list \<Rightarrow> 'h list \<Rightarrow> rat list list \<times> 'h list) \<Rightarrow> int list option \<Rightarrow> nat \<Rightarrow> nat \<Rightarrow> nat \<Rightarrow>
     rat list list \<Rightarrow> int list list \<Rightarrow> 'h list \<Rightarrow> rat list list \<Rightarrow> tree_info list py" where
  "draft_loop T fwd hot topk i 0 topk_p topk_index hidden scores = Inr []"
| "draft_loop T fwd hot topk i (Suc m) topk_p topk_index hidden scores =
     py_bind (select_top_k_tokens T i topk_p topk_index hidden scores topk) (\<lambda>S.
     if m = 0 then Inr [sel_info S]
     else
      (let (probs, hidden') = fwd i (sel_input_ids S) (sel_hidden S)
       in py_bind (py_map (fast_topk T topk) probs) (\<lambda>rows.
          py_bind (py_map (hot_tokens hot) (map snd rows)) (\<lambda>tokens.
          py_bind (draft_loop T fwd hot topk (Suc i) m (map fst rows) tokens hidden' (sel_scores S)) (\<lambda>infos.
          Inr (sel_info S # infos))))))"

definition organize_row :: "torch_ops \<Rightarrow> nat \<Rightarrow> tree_info list \<Rightarrow> nat \<Rightarrow> (int list \<times> int list) py" where
  "organize_row T num_draft_token infos b =
     py_bind (topk_rows T (concat (map (\<lambda>t. ti_scores t ! b) infos)) (num_draft_token - 1)) (\<lambda>(_, tops).
     let tokens = concat (map (\<lambda>t. ti_tokens t ! b) infos); index = sort tops
     in if \<exists>j \<in> set index. length tokens \<le> j then Inl IndexError
        else Inr (map int index, map (\<lambda>j. tokens ! j) index))"

definition organize_draft_results :: "torch_ops \<Rightarrow> tree_info list \<Rightarrow> nat \<Rightarrow> (int list list \<times> int list list \<times> int list list) py" where
  "organize_draft_results T infos num_draft_token =
     (if infos = [] \<or> num_draft_token = 0 then Inl RuntimeError
      else
       (let bs = length (ti_scores (hd infos));
            parent_list = map (\<lambda>b. if length infos > 1 then concat (map (\<lambda>t. ti_parents t ! b) (butlast infos)) else []) [0..<bs]
        in py_bind (py_map (organize_row T num_draft_token infos) [0..<bs]) (\<lambda>rows.
           Inr (parent_list, map fst rows, map snd rows))))"

definition draft_forward ::
  "torch_ops \<Rightarrow> (nat \<Rightarrow> int list \<Rightarrow> 'h list \<Rightarrow> rat list list \<times> 'h list) \<Rightarrow> int list option \<Rightarrow> nat \<Rightarrow> nat \<Rightarrow> nat \<Rightarrow>
     rat list list \<Rightarrow> nat list list \<Rightarrow> 'h list \<Rightarrow> (int list list \<times> int list list \<times> int list list) py" where
  "draft_forward T fwd hot topk num_steps num_draft_token topk_p topk_index hidden =
     py_bind (py_map (hot_tokens hot) topk_index) (\<lambda>tokens.
     py_bind (draft_loop T fwd hot topk 0 num_steps topk_p tokens hidden []) (\<lambda>infos.
     organize_draft_results T infos num_draft_token))"

section \<open>What the parameters promise\<close>

text \<open>
  \<open>torch.topk\<close> returns \<open>k\<close> different indices such that no element elsewhere is larger (which of several equal elements
  it takes is not specified), \<open>torch.max\<close> the index of a largest element. The product of a float with one between 0 and 1
  is rounded to a float between 0 and the first one (what \<open>torch_mul\<close> is on numbers that are no floats does not matter).
\<close>

definition torch_ok :: "torch_ops \<Rightarrow> bool" where
  "torch_ok T \<longleftrightarrow>
     (\<forall>k xs. k \<le> length xs \<longrightarrow> length (torch_topk T k xs) = k \<and> distinct (torch_topk T k xs) \<and> set (torch_topk T k xs) \<subseteq> {..<length xs} \<and>
        (\<forall>i \<in> set (torch_topk T k xs). \<forall>j < length xs. j \<notin> set (torch_topk T k xs) \<longrightarrow> xs ! j \<le> xs ! i)) \<and>
     (\<forall>xs. xs \<noteq> [] \<longrightarrow> torch_max T xs < length xs \<and> (\<forall>j < length xs. xs ! j \<le> xs ! torch_max T xs)) \<and>
     (\<forall>s p. 0 \<le> s \<and> 0 \<le> p \<and> p \<le> 1 \<longrightarrow> 0 \<le> torch_mul T s p \<and> torch_mul T s p \<le> s)"

text \<open>An implementation that takes, of equal elements, those at lower indices.\<close>

definition lower_first :: "torch_ops \<Rightarrow> bool" where
  "lower_first T \<longleftrightarrow> (\<forall>k xs i j. k \<le> length xs \<longrightarrow> i \<in> set (torch_topk T k xs) \<longrightarrow> j < length xs \<longrightarrow> j \<notin> set (torch_topk T k xs) \<longrightarrow>
     xs ! j = xs ! i \<longrightarrow> i < j)"

text \<open>A row of probabilities, between 0 and 1 with both included, of at least \<open>topk\<close> and at most as many entries as the reduced vocabulary.\<close>

definition probs_ok :: "int list option \<Rightarrow> nat \<Rightarrow> rat list \<Rightarrow> bool" where
  "probs_ok hot topk row \<longleftrightarrow> topk \<le> length row \<and> (\<forall>p \<in> set row. 0 \<le> p \<and> p \<le> 1) \<and> (\<forall>ids. hot = Some ids \<longrightarrow> length row \<le> length ids)"

definition draft_model_ok :: "(nat \<Rightarrow> int list \<Rightarrow> 'h list \<Rightarrow> rat list list \<times> 'h list) \<Rightarrow> int list option \<Rightarrow> nat \<Rightarrow> bool" where
  "draft_model_ok fwd hot topk \<longleftrightarrow> (\<forall>i ids h. length (fst (fwd i ids h)) = length ids \<and> (\<forall>row \<in> set (fst (fwd i ids h)). probs_ok hot topk row) \<and>
     (snd (fwd i ids h) = [] \<or> length (snd (fwd i ids h)) = length ids))"

lemma torch_topk_ok:
  assumes "torch_ok T" "k \<le> length xs"
  shows "length (torch_topk T k xs) = k" "distinct (torch_topk T k xs)" "set (torch_topk T k xs) \<subseteq> {..<length xs}"
    "i \<in> set (torch_topk T k xs) \<Longrightarrow> j < length xs \<Longrightarrow> j \<notin> set (torch_topk T k xs) \<Longrightarrow> xs ! j \<le> xs ! i"
proof -
  have "\<forall>k xs. k \<le> length xs \<longrightarrow> length (torch_topk T k xs) = k \<and> distinct (torch_topk T k xs) \<and> set (torch_topk T k xs) \<subseteq> {..<length xs} \<and>
        (\<forall>i \<in> set (torch_topk T k xs). \<forall>j < length xs. j \<notin> set (torch_topk T k xs) \<longrightarrow> xs ! j \<le> xs ! i)"
    using assms(1) unfolding torch_ok_def by (rule conjunct1)
  from this [rule_format, OF assms(2)] show "length (torch_topk T k xs) = k" "distinct (torch_topk T k xs)" "set (torch_topk T k xs) \<subseteq> {..<length xs}"
    "i \<in> set (torch_topk T k xs) \<Longrightarrow> j < length xs \<Longrightarrow> j \<notin> set (torch_topk T k xs) \<Longrightarrow> xs ! j \<le> xs ! i" by blast+
qed

lemma fast_topk_ok:
  assumes T: "torch_ok T" and k: "1 \<le> k" "k \<le> length xs"
  shows "\<exists>js. fast_topk T k xs = Inr (map (\<lambda>i. xs ! i) js, js) \<and> length js = k \<and> set js \<subseteq> {..<length xs}"
proof (cases "k = 1")
  case True
  then have "xs \<noteq> []" using k by auto
  then show ?thesis using True T by (intro exI [of _ "[torch_max T xs]"]) (simp add: fast_topk_def torch_ok_def)
next
  case False
  have "length (torch_topk T k xs) = k \<and> set (torch_topk T k xs) \<subseteq> {..<length xs}" using T k(2) unfolding torch_ok_def by blast
  then show ?thesis using False k(2) by (intro exI [of _ "torch_topk T k xs"]) (simp add: fast_topk_def topk_rows_def)
qed

lemma py_map_ok:
  assumes "\<forall>x \<in> set xs. \<exists>y. f x = Inr y \<and> P x y"
  shows "\<exists>ys. py_map f xs = Inr ys \<and> list_all2 P xs ys"
  using assms
proof (induction xs)
  case (Cons x xs)
  then obtain y ys where "f x = Inr y" "P x y" "py_map f xs = Inr ys" "list_all2 P xs ys" by auto
  then show ?case by (intro exI [of _ "y # ys"]) simp
qed simp

lemma group_rows_ok:
  assumes "0 < k" "length xs = n * k"
  shows "\<exists>gs. group_rows k xs = Inr gs \<and> length gs = n \<and> (\<forall>b < n. length (gs ! b) = k \<and> set (gs ! b) \<subseteq> set xs)"
proof -
  have "length (take k (drop (b * k) xs)) = k" if "b < n" for b
  proof -
    have "b * k + k \<le> n * k" using that mult_le_mono1 [of "Suc b" n k] by simp
    then show ?thesis using assms(2) by simp
  qed
  then show ?thesis using assms
    by (intro exI [of _ "map (\<lambda>b. take k (drop (b * k) xs)) [0..<n]"]) (auto simp: group_rows_def dest!: in_set_takeD in_set_dropD)
qed

section \<open>The index space of a draft tree\<close>

text \<open>
  The scores of a request, one step after the other: \<open>topk\<close> of the first step, then \<open>topk * topk\<close> of each. The token at index \<open>x\<close>
  belongs to step \<open>level topk x\<close>, and its parent is at the index that the parent list holds at \<open>x div topk\<close>.
\<close>

definition level :: "nat \<Rightarrow> nat \<Rightarrow> nat" where
  "level topk x = (if x < topk then 1 else 2 + (x - topk) div (topk * topk))"

text \<open>After \<open>k\<close> steps: the scores, the parent list and the scores of the tokens chosen last.\<close>

definition row_ok :: "nat \<Rightarrow> nat \<Rightarrow> rat list \<Rightarrow> int list \<Rightarrow> rat list \<Rightarrow> bool" where
  "row_ok topk k flat pl sc \<longleftrightarrow>
     length flat = topk + (k - 1) * (topk * topk) \<and> length pl = Suc (k * topk) \<and> length sc = topk \<and>
     (\<forall>j < topk. 0 \<le> pl ! Suc ((k - 1) * topk + j) \<and> pl ! Suc ((k - 1) * topk + j) < int (length flat) \<and>
        sc ! j = flat ! nat (pl ! Suc ((k - 1) * topk + j)) \<and> 0 \<le> sc ! j) \<and>
     (\<forall>x < length flat. topk \<le> x \<longrightarrow> x div topk < Suc ((k - 1) * topk) \<and> 0 \<le> pl ! (x div topk) \<and> pl ! (x div topk) < int x \<and>
        flat ! x \<le> flat ! nat (pl ! (x div topk)) \<and> level topk (nat (pl ! (x div topk))) < level topk x)"

lemma level_le:
  assumes "0 < topk" "x < topk + k * (topk * topk)"
  shows "level topk x \<le> Suc k"
proof (cases "x < topk")
  case False
  then have "x - topk < k * (topk * topk)" using assms(2) by simp
  then have "(x - topk) div (topk * topk) < k" by (rule less_mult_imp_div_less)
  then show ?thesis using False by (simp add: level_def)
qed (simp add: level_def)

lemma level_ge:
  assumes "0 < topk" "topk + k * (topk * topk) \<le> x"
  shows "Suc k < level topk x"
proof -
  have "k = k * (topk * topk) div (topk * topk)" using assms(1) by simp
  also have "\<dots> \<le> (x - topk) div (topk * topk)" using assms(2) by (intro div_le_mono) simp
  finally show ?thesis using assms(2) by (simp add: level_def)
qed

lemma row_ok_first:
  assumes "length p = topk" "\<forall>x \<in> set p. 0 \<le> x"
  shows "row_ok topk 1 p [-1..int topk - 1] p"
proof -
  have "[-1..int topk - 1] ! Suc j = int j" if "j < topk" for j using that by simp
  then show ?thesis using assms by (simp add: row_ok_def)
qed

lemma expand_row_facts:
  assumes "length sc = topk" "length ps = topk" "\<forall>p \<in> set ps. length p = topk"
  shows "length (expand_row T sc ps) = topk * topk"
    and "y < topk * topk \<Longrightarrow> expand_row T sc ps ! y = torch_mul T (sc ! (y div topk)) (ps ! (y div topk) ! (y mod topk))"
proof -
  let ?M = "map2 (\<lambda>s p. map (torch_mul T s) p) sc ps"
  have M: "\<And>xs. xs \<in> set ?M \<Longrightarrow> length xs = topk" using assms(3) by (auto simp: set_zip)
  show "length (expand_row T sc ps) = topk * topk" unfolding expand_row_def using length_concat_blocks [of ?M topk] M assms(1,2) by simp
  assume y: "y < topk * topk"
  then have "0 < topk" by (cases topk) simp_all
  then have t: "y div topk < topk" "y mod topk < topk" using y by (simp_all add: less_mult_imp_div_less)
  have "concat ?M ! y = ?M ! (y div topk) ! (y mod topk)" using nth_concat_blocks [of ?M topk y] M assms y by simp
  then show "expand_row T sc ps ! y = torch_mul T (sc ! (y div topk)) (ps ! (y div topk) ! (y mod topk))" using assms t by (simp add: expand_row_def)
qed

text \<open>A further step: its scores are at most those of their parents, because probabilities are at most 1.\<close>

lemma row_ok_later:
  assumes T: "torch_ok T" and r: "row_ok topk k flat pl sc" and k: "1 \<le> k" "0 < topk" and ps: "length ps = topk" "\<forall>p \<in> set ps. length p = topk \<and> (\<forall>x \<in> set p. 0 \<le> x \<and> x \<le> 1)"
    and cs: "length cs = topk" "set cs \<subseteq> {..<topk * topk}" and E: "E = expand_row T sc ps"
  shows "row_ok topk (Suc k) (flat @ E) (pl @ map (\<lambda>j. int j + int (length flat)) cs) (map (\<lambda>j. E ! j) cs)"
proof -
  have len: "length flat = topk + (k - 1) * (topk * topk)" "length pl = Suc (k * topk)" "length sc = topk" using r by (simp_all add: row_ok_def)
  have scj: "0 \<le> pl ! Suc ((k - 1) * topk + j)" "pl ! Suc ((k - 1) * topk + j) < int (length flat)" "sc ! j = flat ! nat (pl ! Suc ((k - 1) * topk + j))" "0 \<le> sc ! j"
    if "j < topk" for j using r that unfolding row_ok_def by blast+
  have "\<forall>p \<in> set ps. length p = topk" using ps(2) by blast
  note e = expand_row_facts [OF len(3) ps(1) this, where T = T, folded E]
  have ey: "0 \<le> E ! y" "E ! y \<le> sc ! (y div topk)" "y div topk < topk" if y: "y < topk * topk" for y
  proof -
    have t: "y div topk < topk" "y mod topk < topk" using y k(2) by (simp_all add: less_mult_imp_div_less)
    then have "ps ! (y div topk) \<in> set ps" "y mod topk < length (ps ! (y div topk))" using ps by simp_all
    then have p: "0 \<le> ps ! (y div topk) ! (y mod topk)" "ps ! (y div topk) ! (y mod topk) \<le> 1" using ps(2) by (meson nth_mem)+
    then show "0 \<le> E ! y" "E ! y \<le> sc ! (y div topk)" using e(2) [OF y] scj(4) [OF t(1)] T unfolding torch_ok_def by metis+
    show "y div topk < topk" by (rule t(1))
  qed
  have kk: "Suc k - 1 = k" "k * topk = (k - 1) * topk + topk" "k * (topk * topk) = (k - 1) * (topk * topk) + topk * topk" using k(1) by (simp_all add: algebra_simps mult_eq_if)
  have lf: "length (flat @ E) = topk + k * (topk * topk)" using len(1) e(1) kk(3) by simp
  have chosen: "(pl @ map (\<lambda>j. int j + int (length flat)) cs) ! Suc (k * topk + j) = int (cs ! j) + int (length flat)" "cs ! j < topk * topk" if "j < topk" for j
    using that len(2) cs subsetD [OF cs(2) nth_mem [of j cs]] by (simp_all add: nth_append)
  show ?thesis unfolding row_ok_def kk(1)
  proof (intro conjI allI impI)
    fix x assume x: "x < length (flat @ E)" "topk \<le> x"
    let ?q = "(pl @ map (\<lambda>j. int j + int (length flat)) cs) ! (x div topk)"
    have goal: "x div topk < Suc (k * topk) \<and> 0 \<le> ?q \<and> ?q < int x \<and> (flat @ E) ! x \<le> (flat @ E) ! nat ?q \<and> level topk (nat ?q) < level topk x"
    proof (cases "x < length flat")
      case True
      then have o: "x div topk < Suc ((k - 1) * topk)" "0 \<le> pl ! (x div topk)" "pl ! (x div topk) < int x"
        "flat ! x \<le> flat ! nat (pl ! (x div topk))" "level topk (nat (pl ! (x div topk))) < level topk x" using r x(2) unfolding row_ok_def by blast+
      have "x div topk < Suc (k * topk)" using o(1) kk(2) by simp
      moreover from this have "?q = pl ! (x div topk)" using len(2) by (simp add: nth_append)
      moreover have "nat (pl ! (x div topk)) < length flat" using o(2,3) True by simp
      ultimately show ?thesis using o True by (simp add: nth_append)
    next
      case False
      define y where "y = x - length flat"
      have y: "x = length flat + y" "y < topk * topk" using False x(1) e(1) by (simp_all add: y_def)
      have "x = y + (1 + (k - 1) * topk) * topk" using y(1) len(1) by (simp add: algebra_simps)
      then have "x div topk = (1 + (k - 1) * topk) + y div topk" using div_mult_self1 [of topk y "1 + (k - 1) * topk"] k(2) by (simp only: neq0_conv)
      then have xd: "x div topk = Suc ((k - 1) * topk + y div topk)" by simp
      note q = scj [OF ey(3) [OF y(2)], folded xd]
      have b: "x div topk < Suc (k * topk)" using xd ey(3) [OF y(2)] kk(2) by simp
      then have qq: "?q = pl ! (x div topk)" using len(2) by (simp add: nth_append)
      have "level topk (nat (pl ! (x div topk))) \<le> Suc (k - 1)" 
      proof (rule level_le [OF k(2)])
        show "nat (pl ! (x div topk)) < topk + (k - 1) * (topk * topk)" unfolding len(1) [symmetric] using q(1,2) by linarith
      qed
      moreover have "Suc (k - 1) < level topk x" using y(1) len(1) k(2) by (intro level_ge) simp_all
      moreover have "nat (pl ! (x div topk)) < length flat" using q(1,2) by linarith
      moreover from this have "(flat @ E) ! x \<le> (flat @ E) ! nat (pl ! (x div topk))" using q(3) y(1) ey(2) [OF y(2)] by (simp add: nth_append)
      ultimately show ?thesis using b q(1,2) y(1) unfolding qq by simp
    qed
    then show "x div topk < Suc (k * topk)" "0 \<le> ?q" "?q < int x" "(flat @ E) ! x \<le> (flat @ E) ! nat ?q" "level topk (nat ?q) < level topk x" by blast+
  next
    show "length (flat @ E) = topk + k * (topk * topk)" by (rule lf)
    show "length (pl @ map (\<lambda>j. int j + int (length flat)) cs) = Suc (Suc k * topk)" "length (map (\<lambda>j. E ! j) cs) = topk" using len(2) cs(1) by simp_all
  next
    fix j assume j: "j < topk"
    let ?q = "(pl @ map (\<lambda>j. int j + int (length flat)) cs) ! Suc (k * topk + j)"
    have q: "?q = int (cs ! j + length flat)" "cs ! j < topk * topk" "map (\<lambda>j. E ! j) cs ! j = E ! (cs ! j)" using chosen [OF j] j cs(1) by simp_all
    show "0 \<le> ?q" "?q < int (length (flat @ E))" "0 \<le> map (\<lambda>j. E ! j) cs ! j" "map (\<lambda>j. E ! j) cs ! j = (flat @ E) ! nat ?q"
      unfolding q(1,3) nat_int of_nat_less_iff using q(2) e(1) ey(1) by (simp_all add: nth_append)
  qed
qed

section \<open>The loop\<close>

definition flat_scores :: "tree_info list \<Rightarrow> nat \<Rightarrow> rat list" where
  "flat_scores infos b = concat (map (\<lambda>t. ti_scores t ! b) infos)"

definition flat_tokens :: "tree_info list \<Rightarrow> nat \<Rightarrow> int list" where
  "flat_tokens infos b = concat (map (\<lambda>t. ti_tokens t ! b) infos)"

definition flat_parents :: "tree_info list \<Rightarrow> nat \<Rightarrow> int list" where
  "flat_parents infos b = concat (map (\<lambda>t. ti_parents t ! b) infos)"

definition infos_ok :: "nat \<Rightarrow> nat \<Rightarrow> tree_info list \<Rightarrow> rat list list \<Rightarrow> bool" where
  "infos_ok topk bs infos scores \<longleftrightarrow> length scores = bs \<and> infos \<noteq> [] \<and> length (ti_scores (hd infos)) = bs \<and>
     (\<forall>b < bs. row_ok topk (length infos) (flat_scores infos b) (flat_parents infos b) (scores ! b) \<and>
        length (flat_tokens infos b) = length (flat_scores infos b) \<and> length (ti_parents (last infos) ! b) = (if length infos = 1 then Suc topk else topk))"

definition inputs_ok :: "nat \<Rightarrow> nat \<Rightarrow> rat list list \<Rightarrow> int list list \<Rightarrow> 'h list \<Rightarrow> bool" where
  "inputs_ok topk bs topk_p topk_index hidden \<longleftrightarrow> length topk_p = bs * topk \<and> length topk_index = bs * topk \<and>
     (\<forall>p \<in> set topk_p. length p = topk \<and> (\<forall>x \<in> set p. 0 \<le> x \<and> x \<le> 1)) \<and> (\<forall>t \<in> set topk_index. length t = topk) \<and>
     (hidden = [] \<or> length hidden = bs * topk)"

lemma select_first_ok:
  assumes "length topk_p = bs" "length topk_index = bs" "\<forall>p \<in> set topk_p. length p = topk \<and> (\<forall>x \<in> set p. 0 \<le> x)" "\<forall>t \<in> set topk_index. length t = topk"
    and S_def: "S = select_top_k_tokens_first topk_p topk_index hidden topk"
  shows "infos_ok topk bs [sel_info S] (sel_scores S) \<and> length (sel_input_ids S) = bs * topk"
proof -
  have "row_ok topk 1 (topk_p ! b) [-1..int topk - 1] (topk_p ! b)" if "b < bs" for b
    using row_ok_first [of "topk_p ! b" topk] assms(1,3) that nth_mem [of b topk_p] by blast
  then show ?thesis using assms(1-4) length_concat_blocks [of topk_index topk]
    by (auto simp: S_def select_top_k_tokens_first_def infos_ok_def flat_scores_def flat_tokens_def flat_parents_def)
qed

lemma select_later_ok:
  assumes T: "torch_ok T" and k: "0 < topk" and io: "infos_ok topk bs infos scores" and inp: "inputs_ok topk bs topk_p topk_index hidden"
  shows "\<exists>S. select_top_k_tokens T (length infos) topk_p topk_index hidden scores topk = Inr S \<and>
    infos_ok topk bs (infos @ [sel_info S]) (sel_scores S) \<and> length (sel_input_ids S) = bs * topk"
proof -
  let ?i = "length infos"
  have i: "1 \<le> ?i" "length scores = bs" using io by (simp_all add: infos_ok_def Suc_le_eq)
  have row: "row_ok topk ?i (flat_scores infos b) (flat_parents infos b) (scores ! b)" if "b < bs" for b using io that by (simp add: infos_ok_def)
  obtain ps where ps: "group_rows topk topk_p = Inr ps" "length ps = bs" "\<And>b. b < bs \<Longrightarrow> length (ps ! b) = topk \<and> set (ps ! b) \<subseteq> set topk_p"
    using group_rows_ok [OF k, of topk_p bs] inp by (auto simp: inputs_ok_def)
  obtain ts where ts: "group_rows topk topk_index = Inr ts" "length ts = bs" "\<And>b. b < bs \<Longrightarrow> length (ts ! b) = topk \<and> set (ts ! b) \<subseteq> set topk_index"
    using group_rows_ok [OF k, of topk_index bs] inp by (auto simp: inputs_ok_def)
  have pb: "\<forall>p \<in> set (ps ! b). length p = topk \<and> (\<forall>x \<in> set p. 0 \<le> x \<and> x \<le> 1)" if "b < bs" for b using ps(3) [OF that] inp by (auto simp: inputs_ok_def)
  define es where "es = map2 (expand_row T) scores ps"
  have es: "length es = bs" "\<And>b. b < bs \<Longrightarrow> es ! b = expand_row T (scores ! b) (ps ! b)" using ps(2) i(2) by (simp_all add: es_def)
  have el: "length (es ! b) = topk * topk" if "b < bs" for b
    using expand_row_facts(1) [of "scores ! b" topk "ps ! b", where T = T] row [OF that] ps(3) pb that es(2) by (simp add: row_ok_def)
  have "\<forall>e \<in> set es. \<exists>y. fast_topk T topk e = Inr y \<and> fst y = map (\<lambda>i. e ! i) (snd y) \<and> length (snd y) = topk \<and> set (snd y) \<subseteq> {..<topk * topk}"
  proof
    fix e assume "e \<in> set es"
    then have "length e = topk * topk" using el es(1) by (auto simp: in_set_conv_nth)
    then show "\<exists>y. fast_topk T topk e = Inr y \<and> fst y = map (\<lambda>i. e ! i) (snd y) \<and> length (snd y) = topk \<and> set (snd y) \<subseteq> {..<topk * topk}"
      using fast_topk_ok [OF T, of topk e] k by fastforce
  qed
  from py_map_ok [OF this] obtain cs where cs: "py_map (fast_topk T topk) es = Inr cs" "length cs = bs"
    "\<And>b. b < bs \<Longrightarrow> fst (cs ! b) = map (\<lambda>i. es ! b ! i) (snd (cs ! b)) \<and> length (snd (cs ! b)) = topk \<and> set (snd (cs ! b)) \<subseteq> {..<topk * topk}"
    using es(1) by (auto simp: list_all2_conv_all_nth)
  let ?picked = "concat (map2 (\<lambda>b is. map (\<lambda>j. j div topk + b * topk) is) [0..<length (map snd cs)] (map snd cs))"
  have hid: "\<not> (hidden \<noteq> [] \<and> (\<exists>j \<in> set ?picked. length hidden \<le> j))"
  proof -
    have "j div topk + b * topk < bs * topk" if "b < bs" "j \<in> set (snd (cs ! b))" for b j
    proof -
      have "j div topk < topk" using cs(3) [OF that(1)] that(2) by (auto simp: less_mult_imp_div_less)
      moreover have "topk + b * topk \<le> bs * topk" using that(1) mult_le_mono1 [of "Suc b" bs topk] by simp
      ultimately show ?thesis by linarith
    qed
    then have "\<forall>j \<in> set ?picked. j < bs * topk" using cs(2) by (auto simp: set_zip)
    then show ?thesis using inp by (auto simp: inputs_ok_def dest: leD)
  qed
  define S where "S = \<lparr>sel_input_ids = concat (map2 (\<lambda>row is. map (\<lambda>j. row ! j) is) (map concat ts) (map snd cs)),
     sel_hidden = (if hidden \<noteq> [] then map (\<lambda>j. hidden ! j) ?picked else hidden), sel_scores = map fst cs,
     sel_info = \<lparr>ti_scores = es, ti_tokens = map concat ts,
       ti_parents = map (map (\<lambda>j. int j + (int topk * int topk * (int ?i - 1) + int topk))) (map snd cs)\<rparr>\<rparr>"
  have "select_top_k_tokens T ?i topk_p topk_index hidden scores topk = Inr S"
  proof -
    have "?i \<noteq> 0" "\<not> length ps \<noteq> length scores" using i ps(2) by auto
    then show ?thesis unfolding select_top_k_tokens_def select_top_k_tokens_later_def ps(1) py_bind_simps es_def [symmetric]
      by (simp only: if_False cs(1) ts(1) py_bind_simps Let_def S_def if_not_P [OF hid])
  qed
  moreover have "length (sel_input_ids S) = bs * topk"
  proof -
    let ?M = "map2 (\<lambda>row is. map (\<lambda>j. row ! j) is) (map concat ts) (map snd cs)"
    have "length xs = topk" if "xs \<in> set ?M" for xs using that cs(2,3) ts(2) by (auto simp: set_zip)
    then have "length (concat ?M) = length ?M * topk" by (rule length_concat_blocks)
    then show ?thesis using cs(2) ts(2) by (simp add: S_def)
  qed
  moreover have "infos_ok topk bs (infos @ [sel_info S]) (sel_scores S)"
  proof -
    have "row_ok topk (Suc ?i) (flat_scores (infos @ [sel_info S]) b) (flat_parents (infos @ [sel_info S]) b) (sel_scores S ! b) \<and>
        length (flat_tokens (infos @ [sel_info S]) b) = length (flat_scores (infos @ [sel_info S]) b) \<and> length (ti_parents (sel_info S) ! b) = topk" if b: "b < bs" for b
    proof -
      have off: "int topk * int topk * (int ?i - 1) + int topk = int (length (flat_scores infos b))" using row [OF b] i(1) by (simp add: row_ok_def of_nat_diff)
      have tk: "length (concat (ts ! b)) = topk * topk" using ts(3) [OF b] inp length_concat_blocks [of "ts ! b" topk] by (auto simp: inputs_ok_def)
      have "flat_scores (infos @ [sel_info S]) b = flat_scores infos b @ es ! b"
        "flat_parents (infos @ [sel_info S]) b = flat_parents infos b @ map (\<lambda>j. int j + int (length (flat_scores infos b))) (snd (cs ! b))"
        "flat_tokens (infos @ [sel_info S]) b = flat_tokens infos b @ concat (ts ! b)" "sel_scores S ! b = map (\<lambda>i. es ! b ! i) (snd (cs ! b))"
        using b cs(2,3) ts(2) off by (simp_all add: S_def flat_scores_def flat_parents_def flat_tokens_def)
      moreover have "length (ti_parents (sel_info S) ! b) = topk" using b cs(2,3) by (simp add: S_def)
      ultimately show ?thesis using row_ok_later [OF T row [OF b] i(1) k _ pb [OF b] _ _ es(2) [OF b], of "snd (cs ! b)"] ps(3) [OF b] cs(3) [OF b] tk el [OF b] io b
        by (simp add: infos_ok_def)
    qed
    then show ?thesis using io cs(2) i(1) by (auto simp: infos_ok_def S_def)
  qed
  ultimately show ?thesis by blast
qed

lemma forward_ok:
  assumes T: "torch_ok T" and k: "0 < topk" and M: "draft_model_ok fwd hot topk" and ids: "length ids = bs * topk"
  shows "\<exists>rows tokens. py_map (fast_topk T topk) (fst (fwd i ids h)) = Inr rows \<and> py_map (hot_tokens hot) (map snd rows) = Inr tokens \<and>
    inputs_ok topk bs (map fst rows) tokens (snd (fwd i ids h))"
proof -
  let ?P = "fst (fwd i ids h)"
  have P: "length ?P = bs * topk" "\<forall>row \<in> set ?P. probs_ok hot topk row" "snd (fwd i ids h) = [] \<or> length (snd (fwd i ids h)) = bs * topk"
    using M ids unfolding draft_model_ok_def by metis+
  have "\<forall>row \<in> set ?P. \<exists>y. fast_topk T topk row = Inr y \<and> fst y = map (\<lambda>i. row ! i) (snd y) \<and> length (snd y) = topk \<and> set (snd y) \<subseteq> {..<length row}"
    using fast_topk_ok [OF T] k P(2) by (fastforce simp: probs_ok_def)
  from py_map_ok [OF this] obtain rows where r: "py_map (fast_topk T topk) ?P = Inr rows" "length rows = length ?P"
    "\<And>n. n < length ?P \<Longrightarrow> fst (rows ! n) = map (\<lambda>i. ?P ! n ! i) (snd (rows ! n)) \<and> length (snd (rows ! n)) = topk \<and> set (snd (rows ! n)) \<subseteq> {..<length (?P ! n)}"
    by (auto simp: list_all2_conv_all_nth)
  have row: "\<exists>p \<in> set ?P. fst y = map (\<lambda>i. p ! i) (snd y) \<and> length (snd y) = topk \<and> set (snd y) \<subseteq> {..<length p}" if y: "y \<in> set rows" for y
  proof -
    obtain n where "n < length rows" "y = rows ! n" using y by (auto simp: in_set_conv_nth)
    then show ?thesis using r(2) r(3) [of n] by (intro bexI [of _ "?P ! n"]) simp_all
  qed
  have "\<forall>js \<in> set (map snd rows). \<exists>y. hot_tokens hot js = Inr y \<and> length y = topk"
  proof
    fix js assume "js \<in> set (map snd rows)"
    then obtain p where "p \<in> set ?P" "length js = topk" "set js \<subseteq> {..<length p}" using row by auto
    then show "\<exists>y. hot_tokens hot js = Inr y \<and> length y = topk" using P(2) by (cases hot) (fastforce simp: hot_tokens_def probs_ok_def)+
  qed
  from py_map_ok [OF this] obtain tokens where t: "py_map (hot_tokens hot) (map snd rows) = Inr tokens" "length tokens = length rows" "\<forall>t \<in> set tokens. length t = topk"
    by (auto simp: list_all2_conv_all_nth all_set_conv_all_nth)
  have "length (fst y) = topk \<and> (\<forall>x \<in> set (fst y). 0 \<le> x \<and> x \<le> 1)" if "y \<in> set rows" for y
    using row [OF that] P(2) by (force simp: probs_ok_def)
  then have "inputs_ok topk bs (map fst rows) tokens (snd (fwd i ids h))" using t(2,3) r(2) P(1,3) by (auto simp: inputs_ok_def)
  then show ?thesis using r(1) t(1) by blast
qed

lemma draft_loop_ok:
  assumes T: "torch_ok T" and k: "0 < topk" and M: "draft_model_ok fwd hot topk"
  shows "infos_ok topk bs infos scores \<Longrightarrow> inputs_ok topk bs topk_p topk_index hidden \<Longrightarrow>
    \<exists>more scores'. draft_loop T fwd hot topk (length infos) m topk_p topk_index hidden scores = Inr more \<and> length more = m \<and>
      infos_ok topk bs (infos @ more) scores'"
proof (induction m arbitrary: infos scores topk_p topk_index hidden)
  case 0
  then show ?case by (intro exI [of _ "[]"] exI [of _ scores]) simp
next
  case (Suc m)
  obtain S where S: "select_top_k_tokens T (length infos) topk_p topk_index hidden scores topk = Inr S"
    "infos_ok topk bs (infos @ [sel_info S]) (sel_scores S)" "length (sel_input_ids S) = bs * topk"
    using select_later_ok [OF T k Suc.prems] by blast
  show ?case
  proof (cases "m = 0")
    case True
    then show ?thesis using S by (intro exI [of _ "[sel_info S]"] exI [of _ "sel_scores S"]) simp
  next
    case False
    obtain rows tokens where f: "py_map (fast_topk T topk) (fst (fwd (length infos) (sel_input_ids S) (sel_hidden S))) = Inr rows"
      "py_map (hot_tokens hot) (map snd rows) = Inr tokens" "inputs_ok topk bs (map fst rows) tokens (snd (fwd (length infos) (sel_input_ids S) (sel_hidden S)))"
      using forward_ok [OF T k M S(3)] by blast
    from Suc.IH [OF S(2) f(3)] obtain more scores' where ih: "draft_loop T fwd hot topk (Suc (length infos)) m (map fst rows) tokens
        (snd (fwd (length infos) (sel_input_ids S) (sel_hidden S))) (sel_scores S) = Inr more" "length more = m" "infos_ok topk bs ((infos @ [sel_info S]) @ more) scores'"
      by auto
    have "draft_loop T fwd hot topk (length infos) (Suc m) topk_p topk_index hidden scores = Inr (sel_info S # more)"
      using S(1) False f(1,2) ih(1) by (simp add: Let_def case_prod_beta)
    then show ?thesis using ih(2,3) by (intro exI [of _ "sel_info S # more"] exI [of _ scores']) simp
  qed
qed

text \<open>The inputs of the first step: \<open>topk\<close> tokens for every request, from the target's or the draft's extension.\<close>

definition start_ok :: "int list option \<Rightarrow> nat \<Rightarrow> rat list list \<Rightarrow> nat list list \<Rightarrow> bool" where
  "start_ok hot topk topk_p topk_index \<longleftrightarrow> length topk_index = length topk_p \<and> (\<forall>p \<in> set topk_p. length p = topk \<and> (\<forall>x \<in> set p. 0 \<le> x)) \<and>
     (\<forall>t \<in> set topk_index. length t = topk \<and> (\<forall>ids. hot = Some ids \<longrightarrow> (\<forall>j \<in> set t. j < length ids)))"

lemma draft_infos_ok:
  assumes T: "torch_ok T" and k: "0 < topk" and M: "draft_model_ok fwd hot topk" and st: "start_ok hot topk topk_p topk_index"
  shows "\<exists>tokens infos scores. py_map (hot_tokens hot) topk_index = Inr tokens \<and>
    draft_loop T fwd hot topk 0 (Suc m) topk_p tokens hidden [] = Inr infos \<and> length infos = Suc m \<and> infos_ok topk (length topk_p) infos scores"
proof -
  let ?bs = "length topk_p"
  have "\<forall>js \<in> set topk_index. \<exists>y. hot_tokens hot js = Inr y \<and> length y = topk"
    using st by (cases hot) (auto simp: start_ok_def hot_tokens_def)
  from py_map_ok [OF this] obtain tokens where t: "py_map (hot_tokens hot) topk_index = Inr tokens" "length tokens = ?bs" "\<forall>t \<in> set tokens. length t = topk"
    using st by (auto simp: list_all2_conv_all_nth all_set_conv_all_nth [of _ "\<lambda>t. length t = topk"] start_ok_def)
  define S where "S = select_top_k_tokens_first topk_p tokens hidden topk"
  have "\<forall>p \<in> set topk_p. length p = topk \<and> (\<forall>x \<in> set p. 0 \<le> x)" using st by (simp add: start_ok_def)
  from select_first_ok [OF refl t(2) this t(3) S_def] have s: "infos_ok topk ?bs [sel_info S] (sel_scores S)" "length (sel_input_ids S) = ?bs * topk" by blast+
  have sel: "select_top_k_tokens T 0 topk_p tokens hidden [] topk = Inr S" by (simp add: select_top_k_tokens_def S_def)
  show ?thesis
  proof (cases "m = 0")
    case True
    then show ?thesis using t(1) sel s(1) by (intro exI [of _ tokens] exI [of _ "[sel_info S]"] exI [of _ "sel_scores S"]) simp
  next
    case False
    obtain rows toks where f: "py_map (fast_topk T topk) (fst (fwd 0 (sel_input_ids S) (sel_hidden S))) = Inr rows"
      "py_map (hot_tokens hot) (map snd rows) = Inr toks" "inputs_ok topk ?bs (map fst rows) toks (snd (fwd 0 (sel_input_ids S) (sel_hidden S)))"
      using forward_ok [OF T k M s(2)] by blast
    from draft_loop_ok [OF T k M s(1) f(3), of m] obtain more scores' where l: "draft_loop T fwd hot topk (Suc 0) m (map fst rows) toks
        (snd (fwd 0 (sel_input_ids S) (sel_hidden S))) (sel_scores S) = Inr more" "length more = m" "infos_ok topk ?bs ([sel_info S] @ more) scores'" by auto
    have "draft_loop T fwd hot topk 0 (Suc m) topk_p tokens hidden [] = Inr (sel_info S # more)"
      using sel False f(1,2) l(1) by (simp add: Let_def case_prod_beta)
    then show ?thesis using t(1) l(2,3) by (intro exI [of _ tokens] exI [of _ "sel_info S # more"] exI [of _ scores']) simp
  qed
qed

section \<open>The selected tokens form a tree\<close>

text \<open>The parent of selected token \<open>i\<close>: the root, or the position of the index that the parent list names.\<close>

definition draft_par :: "nat \<Rightarrow> int list \<Rightarrow> int list \<Rightarrow> nat \<Rightarrow> nat" where
  "draft_par topk parents sel i =
     (let tb = sel ! (i - 1) div int topk in if tb = 0 then 0 else Suc (length (takeWhile (\<lambda>s. s \<noteq> parents ! nat tb) sel)))"

lemma topk_closed:
  assumes T: "torch_ok T" "k \<le> length xs" and ties: "k = length xs \<or> lower_first T \<or> distinct xs"
    and x: "x \<in> set (torch_topk T k xs)" and q: "q < x" "xs ! x \<le> xs ! q"
  shows "q \<in> set (torch_topk T k xs)"
proof (rule ccontr)
  assume n: "q \<notin> set (torch_topk T k xs)"
  have t: "length (torch_topk T k xs) = k" "distinct (torch_topk T k xs)" "set (torch_topk T k xs) \<subseteq> {..<length xs}"
    using torch_topk_ok [OF T] by blast+
  have xq: "x < length xs" "q < length xs" using x q(1) t(3) by auto
  then have eq: "xs ! q = xs ! x" using torch_topk_ok(4) [OF T x _ n] q(2) by (simp add: order_antisym)
  consider "k = length xs" | "lower_first T" | "distinct xs" using ties by blast
  then show False
  proof cases
    case 1
    then have "card (set (torch_topk T k xs)) = card {..<length xs}" using t(1,2) by (simp add: distinct_card)
    then have "set (torch_topk T k xs) = {..<length xs}" using t(3) by (intro card_subset_eq) simp_all
    then show False using n xq by simp
  next
    case 2
    then have "x < q" using T(2) x xq n eq unfolding lower_first_def by blast
    then show False using q(1) by simp
  next
    case 3
    then show False using nth_eq_iff_index_eq [OF 3 xq(2,1)] eq q(1) by simp
  qed
qed

lemma draft_par_facts:
  assumes r: "row_ok topk k flat pl sc" and k: "0 < topk" and tops: "distinct tops" "set tops \<subseteq> {..<length flat}" "length tops = n - 1"
    and closed: "\<forall>x \<in> set tops. \<forall>q < x. flat ! x \<le> flat ! q \<longrightarrow> q \<in> set tops"
    and ps: "\<forall>x < length flat. topk \<le> x \<longrightarrow> x div topk < length parents \<and> parents ! (x div topk) = pl ! (x div topk)"
    and i: "1 \<le> i" "i < n"
  defines "idx \<equiv> sort tops"
  defines "sel \<equiv> map int (sort tops)"
  defines "x \<equiv> idx ! (i - 1)"
  shows "if x < topk then sel ! (i - 1) div int topk = 0 \<and> draft_par topk parents sel i = 0
    else 0 < x div topk \<and> sel ! (i - 1) div int topk = int (x div topk) \<and> x div topk < length parents \<and>
      0 < draft_par topk parents sel i \<and> draft_par topk parents sel i < i \<and>
      sel ! (draft_par topk parents sel i - 1) = parents ! (x div topk) \<and> (\<forall>j < draft_par topk parents sel i - 1. sel ! j \<noteq> parents ! (x div topk)) \<and>
      level topk (idx ! (draft_par topk parents sel i - 1)) < level topk x"
proof -
  have l: "length idx = n - 1" "i - 1 < n - 1" "sorted idx" "set idx = set tops" using tops i by (simp_all add: idx_def)
  have sx: "sel ! (i - 1) = int x" using l tops(3) by (simp add: sel_def x_def idx_def)
  have x: "x \<in> set tops" "x < length flat" using l nth_mem [of "i - 1" idx] tops(2) by (auto simp: x_def)
  have dv: "sel ! (i - 1) div int topk = int (x div topk)" unfolding sx by (simp add: zdiv_int)
  show ?thesis
  proof (cases "x < topk")
    case True
    then show ?thesis using dv by (simp add: draft_par_def)
  next
    case False
    then have tx: "topk \<le> x" by simp
    define q where "q = pl ! (x div topk)"
    have q: "0 \<le> q" "q < int x" "flat ! x \<le> flat ! nat q" "level topk (nat q) < level topk x" using r x(2) tx unfolding row_ok_def q_def by blast+
    have pq: "x div topk < length parents" "parents ! (x div topk) = q" using ps x(2) tx by (simp_all add: q_def)
    have "nat q < x" using q(1,2) by linarith
    then have "nat q \<in> set tops" using closed x(1) q(3) by blast
    then have qs: "q \<in> set sel" using q(1) by (force simp: sel_def)
    define j where "j = length (takeWhile (\<lambda>s. s \<noteq> q) sel)"
    have j: "j < length sel" "sel ! j = q" "\<forall>m < j. sel ! m \<noteq> q"
    proof -
      have "takeWhile (\<lambda>s. s \<noteq> q) sel \<noteq> sel" using qs by (metis set_takeWhileD)
      then show jl: "j < length sel" unfolding j_def by (metis length_takeWhile_le linorder_neqE_nat not_less takeWhile_eq_take take_all_iff)
      show "sel ! j = q" using nth_length_takeWhile [of "\<lambda>s. s \<noteq> q" sel] jl by (simp add: j_def)
      show "\<forall>m < j. sel ! m \<noteq> q" using nth_mem [of _ "takeWhile (\<lambda>s. s \<noteq> q) sel"] by (auto simp: j_def takeWhile_nth dest: set_takeWhileD)
    qed
    have ij: "idx ! j = nat q" using j(1,2) by (simp add: sel_def idx_def)
    have jl: "j < i - 1"
    proof (rule ccontr)
      assume "\<not> j < i - 1"
      then have "x \<le> idx ! j" using sorted_nth_mono [OF l(3), of "i - 1" j] j(1) by (simp add: x_def sel_def idx_def)
      then show False using ij q(1,2) by linarith
    qed
    have "x div topk \<noteq> 0" using tx k by (simp add: div_eq_0_iff)
    then have "draft_par topk parents sel i = Suc j" unfolding draft_par_def Let_def dv j_def using pq(2) by simp
    then show ?thesis using False dv pq j jl ij q(4) \<open>x div topk \<noteq> 0\<close> by simp
  qed
qed

lemma level_pos: "0 < level topk x"
  by (simp add: level_def)

lemma selected_tree:
  assumes r: "row_ok topk k flat pl sc" and k: "0 < topk" and tops: "distinct tops" "set tops \<subseteq> {..<length flat}" "length tops = n - 1"
    and closed: "\<forall>x \<in> set tops. \<forall>q < x. flat ! x \<le> flat ! q \<longrightarrow> q \<in> set tops"
    and ps: "\<forall>x < length flat. topk \<le> x \<longrightarrow> x div topk < length parents \<and> parents ! (x div topk) = pl ! (x div topk)"
  defines "sel \<equiv> map int (sort tops)"
  shows "tree_row_ok n (int topk) parents sel (draft_par topk parents sel)"
    and "1 \<le> t \<Longrightarrow> t < n \<Longrightarrow> depth (draft_par topk parents sel) t \<le> level topk (sort tops ! (t - 1))"
proof -
  note f = draft_par_facts [OF r k tops closed ps, folded sel_def]
  have one: "let tb = sel ! (i - 1) div int topk in if tb = 0 then draft_par topk parents sel i = 0
      else 0 < tb \<and> tb < int (length parents) \<and> 0 < draft_par topk parents sel i \<and> draft_par topk parents sel i < i \<and>
        sel ! (draft_par topk parents sel i - 1) = parents ! nat tb \<and> (\<forall>j < draft_par topk parents sel i - 1. sel ! j \<noteq> parents ! nat tb)"
    if "i \<in> {1..<n}" for i
    using f [of i] that by (auto simp: Let_def split: if_splits)
  then show "tree_row_ok n (int topk) parents sel (draft_par topk parents sel)" 
    using tops(3) unfolding tree_row_ok_def by (intro conjI ballI) (simp add: sel_def, blast)
  show "depth (draft_par topk parents sel) t \<le> level topk (sort tops ! (t - 1))" if "1 \<le> t" "t < n"
    using that
  proof (induction t rule: less_induct)
    case (less t)
    let ?p = "draft_par topk parents sel t"
    show ?case
    proof (cases "sort tops ! (t - 1) < topk")
      case True
      then show ?thesis using f [OF less.prems] level_pos [of topk] by (simp add: depth.simps [of _ t] Suc_le_eq)
    next
      case False
      then have p: "0 < ?p" "?p < t" "level topk (sort tops ! (?p - 1)) < level topk (sort tops ! (t - 1))" using f [OF less.prems] by simp_all
      then have "depth (draft_par topk parents sel) ?p \<le> level topk (sort tops ! (?p - 1))" using less.prems by (intro less.IH) simp_all
      then show ?thesis using p by (simp add: depth.simps [of _ t])
    qed
  qed
qed

lemma organize_row_ok:
  assumes T: "torch_ok T" and k: "0 < topk" and io: "infos_ok topk bs infos scores" and b: "b < bs"
    and n: "n - 1 \<le> topk + (length infos - 1) * (topk * topk)"
    and ties: "n - 1 = topk + (length infos - 1) * (topk * topk) \<or> lower_first T \<or> distinct (flat_scores infos b)"
  defines "parents \<equiv> (if length infos > 1 then concat (map (\<lambda>t. ti_parents t ! b) (butlast infos)) else [])"
  shows "\<exists>sel toks. organize_row T n infos b = Inr (sel, toks) \<and> length toks = n - 1 \<and> tree_row_ok n (int topk) parents sel (draft_par topk parents sel) \<and>
    (\<forall>t \<in> {1..<n}. depth (draft_par topk parents sel) t \<le> length infos)"
proof -
  let ?flat = "flat_scores infos b" and ?pl = "flat_parents infos b" and ?k = "length infos" and ?tops = "torch_topk T (n - 1) (flat_scores infos b)"
  have io': "row_ok topk ?k ?flat ?pl (scores ! b)" "length (flat_tokens infos b) = length ?flat" "infos \<noteq> []"
    "length (ti_parents (last infos) ! b) = (if ?k = 1 then Suc topk else topk)" using io b by (simp_all add: infos_ok_def)
  have len: "length ?flat = topk + (?k - 1) * (topk * topk)" "length ?pl = Suc (?k * topk)" using io'(1) by (simp_all add: row_ok_def)
  have nl: "n - 1 \<le> length ?flat" using n len(1) by simp
  have t: "length ?tops = n - 1" "distinct ?tops" "set ?tops \<subseteq> {..<length ?flat}" using torch_topk_ok [OF T nl] by blast+
  have "n - 1 = length ?flat \<or> lower_first T \<or> distinct ?flat" using ties len(1) by simp
  then have cl: "\<forall>x \<in> set ?tops. \<forall>q < x. ?flat ! x \<le> ?flat ! q \<longrightarrow> q \<in> set ?tops" using topk_closed [OF T nl] by blast
  have ps: "\<forall>x < length ?flat. topk \<le> x \<longrightarrow> x div topk < length parents \<and> parents ! (x div topk) = ?pl ! (x div topk)"
  proof (cases "?k = 1")
    case True
    then show ?thesis using len(1) by simp
  next
    case False
    then have k1: "1 < ?k" using io'(3) by (cases infos) auto
    have sp: "?pl = parents @ ti_parents (last infos) ! b"
    proof -
      have "flat_parents (butlast infos @ [last infos]) b = parents @ ti_parents (last infos) ! b" using k1 by (simp add: flat_parents_def parents_def)
      then show ?thesis using io'(3) by simp
    qed
    have "?k * topk = (?k - 1) * topk + topk" using k1 by (cases "length infos") simp_all
    then have "length parents = Suc ((?k - 1) * topk)" using arg_cong [OF sp, of length] len(2) io'(4) False by simp
    moreover have "x div topk < Suc ((?k - 1) * topk)" if "x < length ?flat" "topk \<le> x" for x using io'(1) that unfolding row_ok_def by blast
    ultimately show ?thesis by (simp add: sp nth_append)
  qed
  note s = selected_tree [OF io'(1) k t(2,3,1) cl ps]
  have "depth (draft_par topk parents (map int (sort ?tops))) i \<le> ?k" if i: "i \<in> {1..<n}" for i
  proof -
    have "i - 1 < n - 1" using i by auto
    then have "sort ?tops ! (i - 1) \<in> set ?tops" using t(1) nth_mem [of "i - 1" "sort ?tops"] by simp
    then have "sort ?tops ! (i - 1) < topk + (?k - 1) * (topk * topk)" using t(3) len(1) by auto
    from level_le [OF k this] s(2) [of i] i io'(3) show ?thesis by (cases infos) auto
  qed
  moreover have "organize_row T n infos b = Inr (map int (sort ?tops), map (\<lambda>j. flat_tokens infos b ! j) (sort ?tops))"
    using nl t(3) io'(2) by (auto simp: organize_row_def topk_rows_def flat_scores_def [symmetric] flat_tokens_def [symmetric] Let_def)
  ultimately show ?thesis using s(1) t(1)
    by (intro exI [of _ "map int (sort ?tops)"] exI [of _ "map (\<lambda>j. flat_tokens infos b ! j) (sort ?tops)"]) simp
qed

text \<open>
  The cases in which a token is never selected without its parent, although their scores may be equal: all drafted tokens are
  selected (as with chains, where \<open>topk\<close> is 1), of equal scores those at lower indices are, or no two scores of a request are equal.
\<close>

definition scores_distinct ::
  "torch_ops \<Rightarrow> (nat \<Rightarrow> int list \<Rightarrow> 'h list \<Rightarrow> rat list list \<times> 'h list) \<Rightarrow> int list option \<Rightarrow> nat \<Rightarrow> nat \<Rightarrow> rat list list \<Rightarrow> nat list list \<Rightarrow> 'h list \<Rightarrow> bool" where
  "scores_distinct T fwd hot topk steps topk_p topk_index hidden \<longleftrightarrow>
     (case py_bind (py_map (hot_tokens hot) topk_index) (\<lambda>tokens. draft_loop T fwd hot topk 0 steps topk_p tokens hidden []) of
        Inl e \<Rightarrow> True | Inr infos \<Rightarrow> (\<forall>b < length topk_p. distinct (flat_scores infos b)))"

definition ties_safe ::
  "torch_ops \<Rightarrow> (nat \<Rightarrow> int list \<Rightarrow> 'h list \<Rightarrow> rat list list \<times> 'h list) \<Rightarrow> int list option \<Rightarrow> nat \<Rightarrow> nat \<Rightarrow> nat \<Rightarrow> rat list list \<Rightarrow> nat list list \<Rightarrow> 'h list \<Rightarrow> bool" where
  "ties_safe T fwd hot topk steps n topk_p topk_index hidden \<longleftrightarrow>
     n - 1 = topk + (steps - 1) * (topk * topk) \<or> lower_first T \<or> scores_distinct T fwd hot topk steps topk_p topk_index hidden"

lemma draft_forward_ok:
  assumes T: "torch_ok T" and k: "0 < topk" and M: "draft_model_ok fwd hot topk" and st: "start_ok hot topk topk_p topk_index"
    and n: "0 < steps" "0 < n" "n - 1 \<le> topk + (steps - 1) * (topk * topk)" and bs: "bs = length topk_p"
    and ties: "ties_safe T fwd hot topk steps n topk_p topk_index hidden"
  shows "\<exists>pl sel toks. draft_forward T fwd hot topk steps n topk_p topk_index hidden = Inr (pl, sel, toks) \<and>
    length pl = bs \<and> length sel = bs \<and> length toks = bs \<and>
    (\<forall>b < bs. length (toks ! b) = n - 1 \<and> tree_row_ok n (int topk) (pl ! b) (sel ! b) (draft_par topk (pl ! b) (sel ! b)) \<and>
      (\<forall>t \<in> {1..<n}. depth (draft_par topk (pl ! b) (sel ! b)) t \<le> steps))"
proof -
  obtain m where m: "steps = Suc m" using n(1) by (cases steps) auto
  obtain tokens infos scores where i: "py_map (hot_tokens hot) topk_index = Inr tokens" "draft_loop T fwd hot topk 0 steps topk_p tokens hidden [] = Inr infos"
    "length infos = steps" "infos_ok topk bs infos scores"
    using draft_infos_ok [OF T k M st, of m hidden] unfolding m bs by blast
  define pl where "pl = map (\<lambda>b. if length infos > 1 then concat (map (\<lambda>t. ti_parents t ! b) (butlast infos)) else []) [0..<bs]"
  let ?P = "\<lambda>b r. length (snd r) = n - 1 \<and> tree_row_ok n (int topk) (pl ! b) (fst r) (draft_par topk (pl ! b) (fst r)) \<and>
      (\<forall>t \<in> {1..<n}. depth (draft_par topk (pl ! b) (fst r)) t \<le> steps)"
  have "\<forall>b \<in> set [0..<bs]. \<exists>r. organize_row T n infos b = Inr r \<and> ?P b r"
  proof
    fix b assume "b \<in> set [0..<bs]"
    then have b: "b < bs" by simp
    then have "pl ! b = (if length infos > 1 then concat (map (\<lambda>t. ti_parents t ! b) (butlast infos)) else [])" by (simp add: pl_def)
    moreover have "n - 1 = topk + (length infos - 1) * (topk * topk) \<or> lower_first T \<or> distinct (flat_scores infos b)"
      using ties i(1-3) b bs by (auto simp: ties_safe_def scores_distinct_def)
    ultimately show "\<exists>r. organize_row T n infos b = Inr r \<and> ?P b r" using organize_row_ok [OF T k i(4) b, of n] n(3) i(3) by fastforce
  qed
  from py_map_ok [OF this] obtain rows where r: "py_map (organize_row T n infos) [0..<bs] = Inr rows" "length rows = bs" "\<And>b. b < bs \<Longrightarrow> ?P b (rows ! b)"
    by (auto simp: list_all2_conv_all_nth)
  have "infos \<noteq> []" "length (ti_scores (hd infos)) = bs" using i(4) by (simp_all add: infos_ok_def)
  then have "draft_forward T fwd hot topk steps n topk_p topk_index hidden = Inr (pl, map fst rows, map snd rows)"
    using i(1,2) r(1) n(2) by (simp add: draft_forward_def organize_draft_results_def pl_def Let_def)
  then show ?thesis using r(2,3) by (intro exI [of _ pl] exI [of _ "map fst rows"] exI [of _ "map snd rows"]) (simp add: pl_def)
qed

lemma greedy_path_depth:
  assumes n: "0 < n" and p: "\<forall>t \<in> {1..<n}. par t < t \<and> depth par t \<le> D"
  shows "length (greedy_path n par cand tgt) \<le> D"
proof -
  have "length (accept_path (children n par) cand tgt k t) + depth par t \<le> max D (depth par t)" if "t < n" for k t
    using that
  proof (induction k arbitrary: t)
    case (Suc k)
    show ?case
    proof (cases "find (\<lambda>c. cand ! c = tgt ! t) (children n par t)")
      case (Some c)
      then have "c \<in> set (children n par t)" by (auto simp: find_Some_iff)
      then have c: "c \<in> {1..<n}" "par c = t" by (auto simp: children_def)
      have "par c < c" "depth par c \<le> D" using p c(1) by blast+
      moreover from this have "depth par c = Suc (depth par t)" using c by (simp add: depth.simps [of par c])
      ultimately have d: "depth par c = Suc (depth par t)" "depth par c \<le> D" by simp_all
      have "length (accept_path (children n par) cand tgt k c) + depth par c \<le> max D (depth par c)" using c(1) by (intro Suc.IH) simp
      then show ?thesis using Some d by simp
    qed simp
  qed simp
  from this [OF n, of "n - 1"] show ?thesis by (simp add: greedy_path_def)
qed

text \<open>What verification emits for a request, by the result of the native verifier.\<close>

lemma verify_native_emits:
  assumes ok: "verify_args_ok n bs cols par cands ris nts nss targets V" and c: "\<And>b. b < bs \<Longrightarrow> cands ! b = verified ! b # toks ! b"
  shows "\<exists>V'. verify_tree_greedy_native n n V cands ris nts nss targets topk = Inr V' \<and>
    (\<forall>b < bs. let par = par b; cand = verified ! b # toks ! b; path = greedy_path n par cand (targets ! b);
         emitted = map (\<lambda>i. out_predicts V' ! nat i) (take (Suc (length path)) (out_accept_index V' ! b)) in
       out_accept_num V' ! b = int (length path) \<and> out_accept_index V' ! b = accept_row_of n cols b path \<and>
       emitted = map (\<lambda>x. targets ! b ! x) (0 # path) \<and>
       (\<forall>model ctx. (\<forall>t < n. targets ! b ! t = model (ctx @ path_tokens par cand t)) \<longrightarrow>
          emitted = greedy_decode model (ctx @ [verified ! b]) (Suc (length path))))"
proof -
  define path where "path b = greedy_path n (par b) (cands ! b) (targets ! b)" for b
  obtain V' where V': "verify_tree_greedy_native n n V cands ris nts nss targets topk = Inr V'"
    "out_accept_index V' = map (\<lambda>b. accept_row_of n cols b (path b)) [0..<bs]" "out_accept_num V' = map (\<lambda>b. int (length (path b))) [0..<bs]"
    "\<forall>b < bs. \<forall>x \<in> set (0 # path b). out_predicts V' ! (b * n + x) = targets ! b ! x"
    using verify_native_result [OF ok path_def] by blast
  have n: "0 < n" "\<And>b. b < bs \<Longrightarrow> \<forall>t \<in> {1..<n}. par b t < t" using ok by (simp_all add: verify_args_ok_def)
  have e: "map (\<lambda>i. out_predicts V' ! nat i) (take (Suc (length (path b))) (out_accept_index V' ! b)) = map (\<lambda>x. targets ! b ! x) (0 # path b)" if b: "b < bs" for b
  proof -
    have "take (Suc (length (path b))) (out_accept_index V' ! b) = map (\<lambda>x. int (b * n + x)) (0 # path b)" using V'(2) b by (simp add: accept_row_of_def)
    then have "map (\<lambda>i. out_predicts V' ! nat i) (take (Suc (length (path b))) (out_accept_index V' ! b)) = map (\<lambda>x. out_predicts V' ! (b * n + x)) (0 # path b)"
      by (simp add: nat_add_distrib nat_mult_distrib)
    also have "\<dots> = map (\<lambda>x. targets ! b ! x) (0 # path b)" using V'(4) b by (intro map_cong) auto
    finally show ?thesis .
  qed
  have g: "map (\<lambda>x. targets ! b ! x) (0 # path b) = greedy_decode model (ctx @ [verified ! b]) (Suc (length (path b)))"
    if b: "b < bs" and m: "\<forall>t < n. targets ! b ! t = model (ctx @ path_tokens (par b) (verified ! b # toks ! b) t)" for b model ctx
  proof -
    have "map (\<lambda>x. targets ! b ! x) (0 # path b) = greedy_decode model (ctx @ path_tokens (par b) (cands ! b) 0) (Suc (length (path b)))"
      unfolding path_def greedy_path_def using n b m c [OF b] by (intro path_is_chain) auto
    then show ?thesis using c [OF b] by (simp add: path_tokens.simps)
  qed
  show ?thesis
  proof (intro exI [of _ V'] conjI allI impI V'(1))
    fix b assume b: "b < bs"
    have p: "greedy_path n (par b) (verified ! b # toks ! b) (targets ! b) = path b" using c [OF b] by (simp add: path_def)
    show "let par = par b; cand = verified ! b # toks ! b; path = greedy_path n par cand (targets ! b);
         emitted = map (\<lambda>i. out_predicts V' ! nat i) (take (Suc (length path)) (out_accept_index V' ! b)) in
       out_accept_num V' ! b = int (length path) \<and> out_accept_index V' ! b = accept_row_of n cols b path \<and>
       emitted = map (\<lambda>x. targets ! b ! x) (0 # path) \<and>
       (\<forall>model ctx. (\<forall>t < n. targets ! b ! t = model (ctx @ path_tokens par cand t)) \<longrightarrow>
          emitted = greedy_decode model (ctx @ [verified ! b]) (Suc (length path)))"
      unfolding Let_def p e [OF b] using V'(2,3) b g [OF b] by (intro conjI allI impI) simp_all
  qed
qed

section \<open>From the draft to the output\<close>

text \<open>
  C1. Drafting, building and verifying together. For every draft model (its probabilities may be rounded to 0 and to 1) and every
  rounding of the scores, in the cases of \<open>ties_safe\<close>, \<open>draft_forward\<close> returns; the tokens it selects form a tree for every
  request (with a token its parent is selected); building the tree ends without raising; and for all predictions of the target,
  greedy verification, with accept rows of one entry more than there are steps, accepts the greedy path of the request's tree (from
  the root on, the child that holds the prediction of the node before it) and emits the predictions along that path. For a request
  whose predictions are the choices of a model after a context and the path to each node, these are the tokens of greedy decoding
  with the model alone. This last condition is one on the attention of the target model, which has to see a node's path and nothing
  else of the tree; the mask that this builder writes does not provide it (see \<open>build_tree_mask_not_a_tree_mask\<close>).
\<close>

theorem draft_build_verify_lossless:
  assumes T: "torch_ok T" "0 < topk" "draft_model_ok fwd hot topk" "start_ok hot topk topk_p topk_index"
    and n: "0 < steps" "0 < n" "n - 1 \<le> topk + (steps - 1) * (topk * topk)" and bs: "bs = length topk_p"
    and ties: "ties_safe T fwd hot topk steps n topk_p topk_index hidden"
    and shapes: "length verified = bs" "length sl = bs" "\<forall>s \<in> set sl. 0 \<le> s" "m = replicate (mask_size mode bs n sl) True"
      "nt = replicate bs (replicate n (-1))" "ns = replicate bs (replicate n (-1))"
  shows "\<exists>pl sel toks B. draft_forward T fwd hot topk steps n topk_p topk_index hidden = Inr (pl, sel, toks) \<and>
    (\<forall>b < bs. tree_row_ok n (int topk) (pl ! b) (sel ! b) (draft_par topk (pl ! b) (sel ! b))) \<and>
    build_tree_efficient_native n pl sel sl m ri nt ns (int topk) n mode bs = Inr B \<and>
    (\<forall>targets V.
       length targets = bs \<and> (\<forall>b < bs. length (targets ! b) = n) \<and> out_accept_index V = replicate bs (replicate (Suc steps) (-1)) \<and>
       length (out_accept_num V) = bs \<and> length (out_predicts V) = bs * n \<longrightarrow>
       (\<exists>V'. verify_tree_greedy_native n n V (map2 (#) verified toks) (retrive_index B) (retrive_next_token B) (retrive_next_sibling B) targets (int topk) = Inr V' \<and>
         (\<forall>b < bs. let par = draft_par topk (pl ! b) (sel ! b); cand = verified ! b # toks ! b; path = greedy_path n par cand (targets ! b);
              emitted = map (\<lambda>i. out_predicts V' ! nat i) (take (Suc (length path)) (out_accept_index V' ! b)) in
            out_accept_num V' ! b = int (length path) \<and> out_accept_index V' ! b = accept_row_of n (Suc steps) b path \<and>
            emitted = map (\<lambda>x. targets ! b ! x) (0 # path) \<and>
            (\<forall>model ctx. (\<forall>t < n. targets ! b ! t = model (ctx @ path_tokens par cand t)) \<longrightarrow>
               emitted = greedy_decode model (ctx @ [verified ! b]) (Suc (length path))))))"
proof -
  obtain pl sel toks where d: "draft_forward T fwd hot topk steps n topk_p topk_index hidden = Inr (pl, sel, toks)" "length pl = bs" "length sel = bs" "length toks = bs"
    "\<And>b. b < bs \<Longrightarrow> length (toks ! b) = n - 1 \<and> tree_row_ok n (int topk) (pl ! b) (sel ! b) (draft_par topk (pl ! b) (sel ! b)) \<and>
      (\<forall>t \<in> {1..<n}. depth (draft_par topk (pl ! b) (sel ! b)) t \<le> steps)"
    using draft_forward_ok [OF T n bs ties] by blast
  define par where "par b = draft_par topk (pl ! b) (sel ! b)" for b
  have tk: "0 < int topk" using T(2) by simp
  have row: "\<And>b. b < bs \<Longrightarrow> tree_row_ok n (int topk) (pl ! b) (sel ! b) (par b)" using d(5) by (simp add: par_def)
  obtain B where B: "build_tree_efficient_native n pl sel sl m ri nt ns (int topk) n mode bs = Inr B" "build_inv n bs sl par m bs 0 B"
    using build_tree_ok [OF n(2) tk d(2,3) shapes(2,5,6,3,4) row] by blast
  let ?cands = "map2 (#) verified toks"
  have cand: "?cands ! b = verified ! b # toks ! b" if "b < bs" for b using that shapes(1) d(4) by simp
  have "verify_args_ok n bs (Suc steps) par ?cands (retrive_index B) (retrive_next_token B) (retrive_next_sibling B) targets V"
    if V: "length targets = bs" "\<forall>b < bs. length (targets ! b) = n" "out_accept_index V = replicate bs (replicate (Suc steps) (-1))"
      "length (out_accept_num V) = bs" "length (out_predicts V) = bs * n" for targets V
  proof -
    have "par b t < t" if "b < bs" "t \<in> {1..<n}" for b t using tree_row_parent(1) [OF row [OF that(1)]] that(2) by simp
    moreover have "length (greedy_path n (par b) (?cands ! b) (targets ! b)) < Suc steps" if "b < bs" for b
      using greedy_path_depth [OF n(2), of "par b" steps "?cands ! b" "targets ! b"] calculation d(5) that by (simp add: par_def less_Suc_eq_le)
    ultimately show ?thesis
      using B(2) V n(2) shapes(1) d(4,5) cand by (simp add: verify_args_ok_def build_inv_def Let_def)
  qed
  note args = this
  have "\<forall>b < bs. tree_row_ok n (int topk) (pl ! b) (sel ! b) (draft_par topk (pl ! b) (sel ! b))" using d(5) by blast
  with d(1) B(1) show ?thesis
    by - (rule exI [of _ pl], rule exI [of _ sel], rule exI [of _ toks], rule exI [of _ B], intro conjI, assumption, assumption, assumption,
        intro allI impI, elim conjE, rule verify_native_emits [OF args, unfolded par_def], assumption+, rule cand, assumption)
qed

section \<open>Equal scores, and a witness\<close>

text \<open>
  Two implementations that keep the promises of \<open>torch_ok\<close>: of equal elements the first takes those at lower indices,
  the second those at higher ones.
\<close>

definition sorting_torch :: "(nat \<Rightarrow> nat list) \<Rightarrow> torch_ops" where
  "sorting_torch f = \<lparr>torch_topk = (\<lambda>k xs. take k (sort_key (\<lambda>i. - xs ! i) (f (length xs)))),
     torch_max = (\<lambda>xs. hd (sort_key (\<lambda>i. - xs ! i) (f (length xs)))), torch_mul = (*)\<rparr>"

lemma sorting_torch_ok:
  assumes f: "\<And>n. mset (f n) = mset [0..<n]"
  shows "torch_ok (sorting_torch f)"
proof -
  let ?S = "\<lambda>xs. sort_key (\<lambda>i. - xs ! i) (f (length xs)) :: nat list"
  have len: "length (?S xs) = length xs" "distinct (?S xs)" "set (?S xs) = {..<length xs}" for xs :: "rat list"

  proof -
    have m: "mset (?S xs) = mset [0..<length xs]" using f [of "length xs"] by simp
    show "length (?S xs) = length xs" using mset_eq_length [OF m] by simp
    show "distinct (?S xs)" using mset_eq_imp_distinct_iff [OF m] by simp
    show "set (?S xs) = {..<length xs}" using mset_eq_setD [OF m] by (simp add: lessThan_atLeast0)
  qed
  have ge: "xs ! (?S xs ! b) \<le> xs ! (?S xs ! a)" if "a \<le> b" "b < length xs" for a b and xs :: "rat list"
  proof -
    have "sorted (map (\<lambda>i. - xs ! i) (?S xs))" by (rule sorted_sort_key)
    from sorted_nth_mono [OF this that(1)] that len(1) [of xs] show ?thesis by simp
  qed
  have at: "\<exists>b < length xs. j = ?S xs ! b" if "j < length xs" for j and xs :: "rat list"
  proof -
    have "j \<in> set (?S xs)" using that len(3) [of xs] by simp
    then obtain b where "b < length (?S xs)" "?S xs ! b = j" unfolding in_set_conv_nth by blast
    then show ?thesis unfolding len(1) by blast
  qed
  have "length (take k (?S xs)) = k \<and> distinct (take k (?S xs)) \<and> set (take k (?S xs)) \<subseteq> {..<length xs} \<and>
      (\<forall>i \<in> set (take k (?S xs)). \<forall>j < length xs. j \<notin> set (take k (?S xs)) \<longrightarrow> xs ! j \<le> xs ! i)" if "k \<le> length xs" for k and xs :: "rat list"
  proof (intro conjI ballI allI impI)
    fix i j assume i: "i \<in> set (take k (?S xs))" and j: "j < length xs" "j \<notin> set (take k (?S xs))"
    obtain a where a: "a < k" "i = ?S xs ! a" using i unfolding in_set_conv_nth by (auto simp only: length_take min_less_iff_conj nth_take)
    obtain b where b: "b < length xs" "j = ?S xs ! b" using at [OF j(1)] by blast
    have "\<not> b < k"
    proof
      assume "b < k"
      then have "take k (?S xs) ! b \<in> set (take k (?S xs))" using that len(1) [of xs] by (intro nth_mem) simp
      then show False using j(2) b(2) \<open>b < k\<close> by simp
    qed
    then show "xs ! j \<le> xs ! i" using ge [of a b xs] a b by simp
  next
    show "set (take k (?S xs)) \<subseteq> {..<length xs}" using set_take_subset [of k "?S xs"] len(3) [of xs] by simp
  qed (use that len(1,2) [of xs] in simp_all)
  moreover have "hd (?S xs) < length xs \<and> (\<forall>j < length xs. xs ! j \<le> xs ! hd (?S xs))" if "xs \<noteq> []" for xs :: "rat list"
  proof -
    have "?S xs \<noteq> []" using that len(1) [of xs] by (metis length_0_conv)
    then have h: "hd (?S xs) = ?S xs ! 0" "0 < length (?S xs)" by (rule hd_conv_nth, blast)
    have "xs ! j \<le> xs ! (?S xs ! 0)" if "j < length xs" for j using at [OF that] ge [of 0 _ xs] by auto
    moreover have "?S xs ! 0 < length xs" using nth_mem [OF h(2)] len(3) [of xs] by simp
    ultimately show ?thesis using h(1) by simp
  qed
  moreover have "0 \<le> s * p \<and> s * p \<le> s" if "0 \<le> s \<and> 0 \<le> p \<and> p \<le> 1" for s p :: rat using that by (simp add: mult_left_le)
  ultimately show ?thesis unfolding torch_ok_def sorting_torch_def torch_ops.simps by blast
qed

text \<open>
  With probabilities that are rounded to 1 and 0 a child's score equals its parent's, and \<open>torch.topk\<close> may select the child
  without the parent: here the token at index 2, whose parent is at index 0. Building the tree then raises.
\<close>

lemma tie_orphans_child:
  "torch_ok (sorting_torch (\<lambda>n. rev [0..<n])) \<and>
   draft_forward (sorting_torch (\<lambda>n. rev [0..<n])) (\<lambda>_ ids h. (map (\<lambda>_. [1, 0]) ids, h)) None 2 2 2 [[1/2, 1/4]] [[0, 1]] [] =
     Inr ([[-1, 0, 1]], [[2]], [[0]]) \<and>
   build_tree_efficient_native 2 [[-1, 0, 1]] [[2]] [3] (replicate (mask_size FULL_MASK 1 2 [3]) True) [[0, 0]] [[-1, -1]] [[-1, -1]] 2 2 FULL_MASK 1 =
     Inl IndexError"
proof (intro conjI)
  show "torch_ok (sorting_torch (\<lambda>n. rev [0..<n]))" by (rule sorting_torch_ok) simp
  show "draft_forward (sorting_torch (\<lambda>n. rev [0..<n])) (\<lambda>_ ids h. (map (\<lambda>_. [1, 0]) ids, h)) None 2 2 2 [[1/2, 1/4]] [[0, 1]] [] =
     Inr ([[-1, 0, 1]], [[2]], [[0]])"
    by (simp add: draft_forward_def hot_tokens_def numeral_2_eq_2 select_top_k_tokens_def select_top_k_tokens_first_def select_top_k_tokens_later_def
        group_rows_def expand_row_def fast_topk_def topk_rows_def sorting_torch_def organize_draft_results_def organize_row_def upto_rec1)
  show "build_tree_efficient_native 2 [[-1, 0, 1]] [[2]] [3] (replicate (mask_size FULL_MASK 1 2 [3]) True) [[0, 0]] [[-1, -1]] [[-1, -1]] 2 2 FULL_MASK 1 =
     Inl IndexError"
    by (simp add: build_tree_efficient_native_def Let_def token_tree_indices_def token_tree_index_def mask_fill_def tree_token_def link_token_def
        py_index_def py_set_def mask_size_def index_rows_def numeral_eq_Suc)
qed

lemma sorting_torch_lower_first: "lower_first (sorting_torch (\<lambda>n. [0..<n]))"
proof -
  have "i < j" if "i \<in> set (take k S)" "j < length xs" "j \<notin> set (take k S)" "xs ! j = xs ! i" "S = sort_key (\<lambda>i. - xs ! i) [0..<length xs]"
    for k i j S and xs :: "rat list"
  proof -
    let ?P = "\<lambda>y. - xs ! y = - xs ! i"
    have "filter ?P S = filter ?P [0..<length xs]" unfolding that(5) by (rule sort_key_stable)
    then have "sorted (filter ?P (take k S @ drop k S))" by (simp add: sorted_wrt_filter)
    moreover have "j \<in> set S" using that(2,5) by simp
    then have "j \<in> set (drop k S)" using that(3) by (metis Un_iff append_take_drop_id set_append)
    ultimately have "i \<le> j" using that(1,4) unfolding filter_append sorted_append by auto
    then show ?thesis using that(1,3) by (metis le_neq_implies_less)
  qed
  then show ?thesis by (simp add: lower_first_def sorting_torch_def)
qed

text \<open>
  A draft model whose probabilities are rounded to 1 and 0, so that the scores of the second step equal those of their parents.
  The target predicts token 0 at the root and at its first child, and the child of that one is accepted too.
\<close>

definition demo_draft :: "nat \<Rightarrow> int list \<Rightarrow> unit list \<Rightarrow> rat list list \<times> unit list" where
  "demo_draft i ids h = (map (\<lambda>_. [1, 0, 0]) ids, [])"

definition demo_model :: "int list \<Rightarrow> int" where
  "demo_model c = (if c = [5, 9] then 0 else if c = [5, 9, 0] then 0 else if c = [5, 9, 1] then 5 else 7)"

definition demo_verify_out :: verify_out where
  "demo_verify_out = \<lparr>out_predicts = replicate 4 0, out_accept_index = [[-1, -1, -1]], out_accept_num = [0]\<rparr>"

lemma demo_draft_forward:
  "draft_forward (sorting_torch (\<lambda>n. [0..<n])) demo_draft None 2 2 4 [[1/2, 1/4]] [[0, 1]] [] = Inr ([[-1, 0, 1]], [[0, 1, 2]], [[0, 1, 0]])"
  by (simp add: draft_forward_def hot_tokens_def numeral_2_eq_2 demo_draft_def select_top_k_tokens_def select_top_k_tokens_first_def select_top_k_tokens_later_def
      group_rows_def expand_row_def fast_topk_def topk_rows_def sorting_torch_def organize_draft_results_def organize_row_def upto_rec1)

theorem draft_build_verify_lossless_witness:
  "\<exists>B V'. draft_forward (sorting_torch (\<lambda>n. [0..<n])) demo_draft None 2 2 4 [[1/2, 1/4]] [[0, 1]] [] = Inr ([[-1, 0, 1]], [[0, 1, 2]], [[0, 1, 0]]) \<and>
     build_tree_efficient_native 4 [[-1, 0, 1]] [[0, 1, 2]] [3] (replicate (mask_size FULL_MASK 1 4 [3]) True) [] [[-1, -1, -1, -1]] [[-1, -1, -1, -1]] 2 4 FULL_MASK 1 = Inr B \<and>
     verify_tree_greedy_native 4 4 demo_verify_out [[9, 0, 1, 0]] (retrive_index B) (retrive_next_token B) (retrive_next_sibling B) [[0, 0, 5, 7]] 2 = Inr V' \<and>
     out_accept_num V' ! 0 = 2 \<and> out_accept_index V' ! 0 = [0, 1, 3] \<and>
     map (\<lambda>i. out_predicts V' ! nat i) [0, 1, 3] = [0, 0, 7] \<and> greedy_decode demo_model [5, 9] 3 = [0, 0, 7]"
proof -
  let ?T = "sorting_torch (\<lambda>n. [0..<n])" and ?par = "draft_par 2 [-1, 0, 1] [0, 1, 2]"
  have t: "torch_ok ?T" by (rule sorting_torch_ok) simp
  have m: "draft_model_ok demo_draft None 2" by (simp add: draft_model_ok_def demo_draft_def probs_ok_def)
  have s: "start_ok None 2 [[1/2, 1/4]] [[0, 1]]" by (simp add: start_ok_def)
  have r: "[[-1, -1, -1, -1]] = replicate 1 (replicate 4 (-1 :: int))" by (simp add: numeral_eq_Suc)
  have ties: "ties_safe ?T demo_draft None 2 2 4 [[1/2, 1/4]] [[0, 1]] []" using sorting_torch_lower_first by (simp add: ties_safe_def)
  have par: "?par 1 = 0" "?par 2 = 0" "?par 3 = 1" by (simp_all add: draft_par_def)
  have path: "greedy_path 4 ?par [9, 0, 1, 0] [0, 0, 5, 7] = [1, 3]" by code_simp
  have model: "\<forall>t < 4. [0, 0, 5, 7] ! t = demo_model ([5] @ path_tokens ?par [9, 0, 1, 0] t)"
    using par by (simp add: less_Suc_eq numeral_eq_Suc all_conj_distrib path_tokens.simps demo_model_def)
  from draft_build_verify_lossless [OF t _ m s, where steps = 2 and n = 4 and bs = 1 and verified = "[9]" and sl = "[3]" and mode = FULL_MASK
      and nt = "[[-1, -1, -1, -1]]" and ns = "[[-1, -1, -1, -1]]" and ri = "[]" and hidden = "[]", OF _ _ _ _ _ ties _ _ _ refl r r]
  obtain B where B: "build_tree_efficient_native 4 [[-1, 0, 1]] [[0, 1, 2]] [3] (replicate (mask_size FULL_MASK 1 4 [3]) True) [] [[-1, -1, -1, -1]] [[-1, -1, -1, -1]] 2 4 FULL_MASK 1 = Inr B"
    and V: "\<forall>targets V. length targets = 1 \<and> (\<forall>b < 1. length (targets ! b) = 4) \<and> out_accept_index V = replicate 1 (replicate (Suc 2) (-1)) \<and>
       length (out_accept_num V) = 1 \<and> length (out_predicts V) = 1 * 4 \<longrightarrow>
       (\<exists>V'. verify_tree_greedy_native 4 4 V (map2 (#) [9] [[0, 1, 0]]) (retrive_index B) (retrive_next_token B) (retrive_next_sibling B) targets 2 = Inr V' \<and>
         (\<forall>b < 1. let par = draft_par 2 ([[-1, 0, 1]] ! b) ([[0, 1, 2]] ! b); cand = [9] ! b # [[0, 1, 0]] ! b; path = greedy_path 4 par cand (targets ! b);
              emitted = map (\<lambda>i. out_predicts V' ! nat i) (take (Suc (length path)) (out_accept_index V' ! b)) in
            out_accept_num V' ! b = int (length path) \<and> out_accept_index V' ! b = accept_row_of 4 (Suc 2) b path \<and>
            emitted = map (\<lambda>x. targets ! b ! x) (0 # path) \<and>
            (\<forall>model ctx. (\<forall>t < 4. targets ! b ! t = model (ctx @ path_tokens par cand t)) \<longrightarrow>
               emitted = greedy_decode model (ctx @ [[9] ! b]) (Suc (length path)))))"
    unfolding demo_draft_forward by (auto simp del: One_nat_def)
  have "length [[0, 0, 5, 7 :: int]] = 1 \<and> (\<forall>b < 1. length ([[0, 0, 5, 7 :: int]] ! b) = 4) \<and> out_accept_index demo_verify_out = replicate 1 (replicate (Suc 2) (-1)) \<and>
       length (out_accept_num demo_verify_out) = 1 \<and> length (out_predicts demo_verify_out) = 1 * 4"
    by (simp add: demo_verify_out_def numeral_eq_Suc)
  from V [rule_format, OF this] have "\<exists>V'. verify_tree_greedy_native 4 4 demo_verify_out [[9, 0, 1, 0]] (retrive_index B) (retrive_next_token B) (retrive_next_sibling B)
      [[0, 0, 5, 7]] 2 = Inr V' \<and> out_accept_num V' ! 0 = 2 \<and> out_accept_index V' ! 0 = [0, 1, 3] \<and>
    map (\<lambda>i. out_predicts V' ! nat i) (take (Suc (Suc (Suc 0))) (out_accept_index V' ! 0)) = [0, 0, 7] \<and>
    (\<forall>model ctx. (\<forall>t < 4. [0, 0, 5, 7] ! t = model (ctx @ path_tokens ?par [9, 0, 1, 0] t)) \<longrightarrow>
      map (\<lambda>i. out_predicts V' ! nat i) (take (Suc (Suc (Suc 0))) (out_accept_index V' ! 0)) = greedy_decode model (ctx @ [9]) (Suc (Suc (Suc 0))))"
    by (simp add: Let_def path accept_row_of_def)
  then obtain V' where V': "verify_tree_greedy_native 4 4 demo_verify_out [[9, 0, 1, 0]] (retrive_index B) (retrive_next_token B) (retrive_next_sibling B) [[0, 0, 5, 7]] 2 = Inr V'"
    "out_accept_num V' ! 0 = 2" "out_accept_index V' ! 0 = [0, 1, 3]"
    and e: "map (\<lambda>i. out_predicts V' ! nat i) (take (Suc (Suc (Suc 0))) (out_accept_index V' ! 0)) = [0, 0, 7]"
    and g: "\<forall>model ctx. (\<forall>t < 4. [0, 0, 5, 7] ! t = model (ctx @ path_tokens ?par [9, 0, 1, 0] t)) \<longrightarrow>
      map (\<lambda>i. out_predicts V' ! nat i) (take (Suc (Suc (Suc 0))) (out_accept_index V' ! 0)) = greedy_decode model (ctx @ [9]) (Suc (Suc (Suc 0)))"
    by (elim exE conjE) (rule that)
  have "greedy_decode demo_model ([5] @ [9]) (Suc (Suc (Suc 0))) = [0, 0, 7]" using g [rule_format, of demo_model "[5]"] model e by metis
  moreover have "map (\<lambda>i. out_predicts V' ! nat i) [0, 1, 3] = [0, 0, 7]" using e V'(3) by simp
  ultimately show ?thesis using demo_draft_forward B V' by (intro exI [of _ B] exI [of _ V'] conjI) (simp_all only: numeral_3_eq_3 append.simps)
qed

end
