(* ===== verification/Spec2Isabelle.thy ===== *)
theory Spec2Isabelle
  imports Kv_Allocator Npu_Allocator Spec_Tree_Verify Adaptive_Params Spec_Kernels Dflash_Config Dflash_Verify Cache_Flow
    Eagle_V2 Detokenizer Eagle_Batch Draft_Tree
begin

text \<open>
  \<^bold>\<open>Speculative decoding on the NPU: KV slots, prefix cache, draft trees and their verification.\<close>

  The repository is a fork of the SGLang inference engine (\<open>src/sglang\<close>) with an Ascend kernel package
  (\<open>src/sgl-kernel-npu\<close>) and a trainer for draft models (\<open>src/SpecForge\<close>). The development models the part of it
  that decides \<^emph>\<open>which tokens come out\<close> of speculative decoding and \<^emph>\<open>who owns which KV slot\<close> while it happens:

    \<^item> A scheduler orders the waiting requests and admits some of them for prefill, as long as a token budget lasts. When
      a decode batch outgrows the memory, requests are taken out of it and wait again.
    \<^item> A slot allocator hands out KV slots, singly or in pages. Slots that no request uses any more may stay in the
      radix tree, keyed by the tokens they were computed for, and are evicted when the allocator runs short.
    \<^item> The request-to-token table maps positions of a request to slots. Batches fill it through Triton kernels.
    \<^item> A draft model proposes a tree (or a block) of tokens; the target model checks it in one forward pass; the longest
      path that agrees with the target is accepted, its slots are kept, the other slots are given back.
    \<^item> The accepted tokens pass through the stop conditions of the request, leave in chunks, and a detokenizer turns the
      chunks into text.

  \<^bold>\<open>Theories and the code they model\<close> (paths under \<open>src/sglang/python/sglang/srt\<close> unless given in full)

    \<^descr> \<open>SD_Prelude\<close>: exceptions as a sum (\<open>py\<close>), Python indexing, slices and loops, device memory (\<open>mem\<close>, a partial
      function from addresses) with masked vector stores, and the lemmas on them.
    \<^descr> \<open>Kv_Allocator\<close>: \<open>TokenToKVPoolAllocator\<close> and \<open>PagedTokenToKVPoolAllocator\<close> (\<open>mem_cache/allocator.py\<close>): alloc, free,
      free groups, backup and restore, the extension and decode kernels. Locale \<open>slot_allocator\<close> states what a pool
      promises and is interpreted on both allocators: no slot is held twice, none is lost.
    \<^descr> \<open>Paged_Extend\<close>: the extension and decode kernels against \<open>alloc_extend_naive\<close>, in every order of the instances.
    \<^descr> \<open>Npu_Allocator\<close>: \<open>hardware_backend/npu/allocator_npu.py\<close> and the kernel of
      \<open>src/sgl-kernel-npu/python/sgl_kernel_npu/sgl_kernel_npu/mem_cache/allocator.py\<close>, shown equal to the generic ones.
    \<^descr> \<open>Radix_Key\<close>, \<open>Radix_Cache\<close>: keys, nodes, matching with splits, insertion, locks, eviction
      (\<open>mem_cache/radix_cache.py\<close>, \<open>mem_cache/evict_policy.py\<close>). Nodes live in a store addressed by their ids.
      \<open>Radix_Tree\<close> (shape of the store, walks, cached prefixes), \<open>Radix_Locks\<close>, \<open>Radix_Split\<close>, \<open>Radix_Match\<close>,
      \<open>Radix_Insert\<close> and \<open>Radix_Evict\<close> show the invariant and the functional behaviour of each operation.
    \<^descr> \<open>Req_Pool\<close>: \<open>ReqToTokenPool\<close> (\<open>mem_cache/memory_pool.py\<close>), \<open>write_cache_indices\<close> and \<open>get_last_loc\<close>.
    \<^descr> \<open>Cache_Reqs\<close>, \<open>Cache_Flow\<close>: \<open>cache_finished_req\<close>, \<open>cache_unfinished_req\<close>, \<open>mem_cache/common.py\<close>; locale
      \<open>slot_pool\<close> (an allocator below a radix cache), interpreted on the token allocator: slots are conserved between
      allocator, tree and requests, and an allocation succeeds whenever free and evictable slots suffice.
    \<^descr> \<open>Radix_Subtrees\<close>, \<open>Schedule_Policy\<close>: the order of the waiting queue (\<open>managers/schedule_policy.py\<close>, \<open>SchedulePolicy\<close>)
      under every policy: longest cached prefix first, depth-first by weight, priorities, routing keys.
    \<^descr> \<open>Prefill_Adder\<close>: admission (\<open>PrefillAdder\<close>, and the loop of \<open>managers/scheduler.py\<close> that feeds it): the budget covers what is
      admitted, an admitted batch gets its slots, preemption is justified.
    \<^descr> \<open>Decode_Batch\<close>: memory of the running batch (\<open>ScheduleBatch\<close> in \<open>managers/schedule_batch.py\<close>): tokens that the next step
      needs, the memory check, retraction of requests until the rest fits, and the allocation of the overlapping
      speculative workers (\<open>speculative/eagle_info_v2.py\<close>). \<open>Eagle_V2\<close>: the kernels of such a step and the lengths of a request while
      steps overlap (the lengths in flight are ahead of the committed ones), and that the slots they read are those that were
      allocated.
    \<^descr> \<open>Spec_Tree\<close>, \<open>Spec_Tree_Build\<close>, \<open>Spec_Tree_Verify\<close>: the draft tree of the NPU build
      (\<open>src/sgl-kernel-npu/python/sgl_kernel_npu/sgl_kernel_npu/sample/verify_tree_greedy.py\<close> and the native routines),
      links, greedy path, and that verification emits exactly what greedy decoding of the target emits.
    \<^descr> \<open>Draft_Tree\<close>: the draft loop and the choice of the tokens to verify (\<open>select_top_k_tokens\<close> in \<open>speculative/spec_utils.py\<close>,
      \<open>draft_forward\<close> in \<open>speculative/eagle_worker.py\<close>, \<open>organize_draft_results\<close> in \<open>speculative/eagle_utils.py\<close>): the chosen tokens form
      a tree (whenever ties between scores are broken in a way that the theory names), and drafting, building and greedy verification
      together emit the target's predictions along the greedy path of that tree.
    \<^descr> \<open>Spec_Kernels\<close>: the Triton kernels of \<open>speculative/spec_utils.py\<close> that place, keep and free slots.
    \<^descr> \<open>Dflash_Config\<close>, \<open>Dflash_Verify\<close>: \<open>speculative/dflash_utils.py\<close> and \<open>dflash_info.py\<close>, with the
      stop checks of \<open>Req_Output\<close>; locale \<open>batch_state\<close> (a batch that is a list of requests under filtering and merging) interpreted
      on the draft input.
    \<^descr> \<open>Req_Output\<close>: finish reasons and stop conditions (\<open>Req\<close> in \<open>managers/schedule_batch.py\<close>), the handling of a decode
      result and the output stream (\<open>managers/scheduler_output_processor_mixin.py\<close>): the chunks sent are the output, and
      where accepting several tokens at once differs from decoding them one by one.
    \<^descr> \<open>Detokenizer\<close>: incremental decoding (\<open>managers/detokenizer_manager.py\<close>); locale \<open>byte_decoder\<close>
      (what incremental decoding needs of a decoder of bytes) interpreted on UTF-8 with replacement characters: for tokenizers of
      byte pieces the text sent is the decoded output.
    \<^descr> \<open>Eagle_Info\<close>, \<open>Eagle_Slots\<close>, \<open>Eagle_Verify\<close>: \<open>EagleVerifyInput.verify\<close> (\<open>speculative/eagle_info.py\<close>) from the verdict of
      the tree verification on, for every page size and tree width: which slots are kept, moved and freed, the lengths and
      the next draft input; with \<open>Spec_Tree_Verify\<close> and \<open>Req_Output\<close>, that a request ends up as greedy decoding leaves it.
    \<^descr> \<open>Eagle_Batch\<close>: the EAGLE draft input of a running batch (\<open>speculative/eagle_info.py\<close>) under filtering and merging; two
      interpretations of \<open>batch_state\<close>, with the draft's results and with indices of results to come.
    \<^descr> \<open>Adaptive_Params\<close>: \<open>speculative/adaptive_spec_params.py\<close>.

  \<^bold>\<open>Conventions.\<close> Python ints are \<open>int\<close>; list lengths, node ids and program indices are \<open>nat\<close>; floats that take part in
  decisions are rationals, computed with exactly in \<open>Adaptive_Params\<close> and with a product that rounds in \<open>Draft_Tree\<close>. A raise is \<open>Inl\<close> of the exception. In-place updates are state passing. A kernel is a function
  of its program index on device memory; a launch folds it over a list of indices, and theorems quantify over the list, so
  that they hold for every order of the instances. Where the code reads masked-out lanes without a default, the value is a
  parameter \<open>u\<close>, and what an uninitialised buffer holds is a parameter \<open>e\<close>. Theorems hold for all \<open>u\<close> and \<open>e\<close>, with two exceptions
  that need \<open>u = 0\<close> because the kernels sum masked lanes: the EAGLE step with trees wider than a chain on pages of more than one
  token, and the counterexample on \<open>assign_draft_cache_locs\<close>. Losslessness is stated for predictions of the target that are its choice
  after the path to each node; providing them is the task of the attention mask. Models (target, draft), \<open>torch.topk\<close>, tokenizers, grammars, hash functions and clocks are parameters.

  \<^bold>\<open>Fuel.\<close> The loops of the code that HOL cannot see terminating have fuel: walking up the draft tree (the number of draft
  tokens), verification rounds (the number of speculative steps), walks in the radix tree (the number of nodes ever created,
  or the length of the key), the eviction loop (the number of nodes). The theorems state results outright (\<open>= Inr \<dots>\<close>),
  so each also shows that the fuel is enough; running out of it would be the error value \<open>OutOfFuel\<close>.

  \<^bold>\<open>Not modelled.\<close> Neural network layers, attention backends, models, quantisation and graph capture (floating point on
  tensors); CUDA, C++, Rust and Ascend C sources (other languages); servers, tokenizers, routers, launchers, metrics and
  argument parsing (input and output, glue); the sampling verdict with random numbers (an EAGLE step is modelled for any
  verdict, losslessness is shown for the greedy one); sliding-window, Mamba and
  hierarchical caches (variants of the modelled caches for other models); multimodal generation, training and benchmarks.
\<close>

end
